(* ===== verification/Heapviz_Prelude.thy ===== *)
theory Heapviz_Prelude
  imports Main "HOL-Library.Word"
begin

text \<open>
  Shared material of the heapviz development: the machine integer types of the C and C++
  sources, the bit facts every component uses (masks by a power of two, shifts, wrap-around
  subtraction), circular index arithmetic, and the collections the component proofs draw on.
\<close>

unbundle bit_operations_syntax

type_synonym u8 = "8 word"
type_synonym u16 = "16 word"
type_synonym u32 = "32 word"
type_synonym u64 = "64 word"

named_theorems hv_consts \<comment> \<open>the numeric constants of the headers\<close>
named_theorems hv_wf \<comment> \<open>well-formedness facts handed from one component to its clients\<close>

section \<open>Words\<close>

lemma unat_and_mask: "unat ((w :: 'a::len word) AND (2 ^ n - 1)) = unat w mod 2 ^ n"
proof -
  have "w AND (2 ^ n - 1) = take_bit n w"
    by (simp only: take_bit_eq_mask mask_eq_exp_minus_1)
  then have "unat (w AND (2 ^ n - 1)) = unat (take_bit n w)"
    by simp
  also have "\<dots> = take_bit n (unat w)"
    by (simp add: unsigned_take_bit_eq)
  finally show ?thesis
    by (simp only: take_bit_eq_mod)
qed

lemma nat_and_mask: "(n :: nat) AND (2 ^ k - 1) = n mod 2 ^ k"
  by (metis mask_eq_exp_minus_1 take_bit_eq_mask take_bit_eq_mod)

lemma unat_of_nat_small: "n < 2 ^ LENGTH('a) \<Longrightarrow> unat (of_nat n :: 'a::len word) = n"
  by (simp add: unat_of_nat)

lemma unat_plus1_small: "Suc (unat w) < 2 ^ LENGTH('a) \<Longrightarrow> unat ((w :: 'a::len word) + 1) = Suc (unat w)"
  by (simp add: unat_word_ariths)

lemma word_unat_eqI: "unat (v :: 'a::len word) = unat w \<Longrightarrow> v = w"
  by (rule unsigned_word_eqI)

lemma unat_lt_exp: "unat (w :: 'a::len word) < 2 ^ LENGTH('a)"
  by (rule unsigned_less)

lemma unat_drop_bit_div: "unat (drop_bit n (w :: 'a::len word)) = unat w div 2 ^ n"
  by (simp only: unat_drop_bit_eq drop_bit_nat_def)

lemma unat_two_power: "n < LENGTH('a) \<Longrightarrow> unat ((2 :: 'a::len word) ^ n) = 2 ^ n"
  by (simp add: of_nat_inverse)

lemma bit_nat_div: "bit (x :: nat) n \<longleftrightarrow> odd (x div 2 ^ n)"
  by (simp add: bit_iff_odd)

lemma bit_word_unat: "n < LENGTH('a) \<Longrightarrow> bit (w :: 'a::len word) n \<longleftrightarrow> odd (unat w div 2 ^ n)"
  using bit_nat_div [of "unat w" n] by (simp add: bit_unsigned_iff)

lemma mod_add_inj:
  fixes m :: nat
  assumes "(a + i) mod m = (a + j) mod m" and "i < m" and "j < m"
  shows "i = j"
proof -
  have "i = j" if "i \<le> j" "(a + i) mod m = (a + j) mod m" "j < m" for i j
    using that mod_eq_dvd_iff_nat [of "a + i" "a + j" m] by (auto dest: dvd_imp_le)
  then show ?thesis
    using assms by (metis nat_le_linear)
qed

section \<open>Powers of two\<close>

text \<open>\<^verbatim>\<open>std::bit_ceil\<close> and \<^verbatim>\<open>std::countr_zero\<close> of the standard library.\<close>

fun bit_ceil :: "nat \<Rightarrow> nat" where
  "bit_ceil n = (if n \<le> 1 then 1 else 2 * bit_ceil ((n + 1) div 2))"

fun countr_zero :: "nat \<Rightarrow> nat" where
  "countr_zero n = (if n = 0 then 64 else if odd n then 0 else Suc (countr_zero (n div 2)))"

declare bit_ceil.simps [simp del] countr_zero.simps [simp del]

lemma countr_zero_pow2: "countr_zero (2 ^ k) = k"
  by (induction k) (simp_all add: countr_zero.simps)

lemma bit_ceil_pow2: "\<exists>k. bit_ceil n = 2 ^ k"
proof (induction n rule: bit_ceil.induct)
  case (1 n)
  show ?case
  proof (cases "n \<le> 1")
    case True
    then show ?thesis by (intro exI [of _ 0]) (simp add: bit_ceil.simps)
  next
    case False
    then obtain k where "bit_ceil ((n + 1) div 2) = 2 ^ k"
      using 1 by blast
    with False show ?thesis
      by (intro exI [of _ "Suc k"]) (simp add: bit_ceil.simps [of n])
  qed
qed

lemma bit_ceil_ge: "n \<le> bit_ceil n"
proof (induction n rule: bit_ceil.induct)
  case (1 n)
  then show ?case
    by (cases "n \<le> 1") (auto simp: bit_ceil.simps [of n])
qed

lemma bit_ceil_le: "2 \<le> n \<Longrightarrow> bit_ceil n \<le> 2 * (n - 1)"
proof (induction n rule: bit_ceil.induct)
  case (1 n)
  have unfold: "bit_ceil n = 2 * bit_ceil ((n + 1) div 2)"
    using "1.prems" by (simp add: bit_ceil.simps [of n])
  show ?case
  proof (cases "n = 2")
    case True
    then show ?thesis
      by (simp add: unfold) (simp add: bit_ceil.simps)
  next
    case False
    then have "bit_ceil ((n + 1) div 2) \<le> 2 * ((n + 1) div 2 - 1)"
      using 1 by simp
    then show ?thesis
      unfolding unfold using False "1.prems" by linarith
  qed
qed

lemma bit_ceil_exp: "bit_ceil (2 ^ k) = 2 ^ k"
proof (induction k)
  case 0
  show ?case by (simp add: bit_ceil.simps)
next
  case (Suc k)
  have "\<not> 2 * (2 :: nat) ^ k \<le> 1"
    using zero_less_power [of "2 :: nat" k] by linarith
  then show ?case
    using Suc by (simp add: bit_ceil.simps [of "2 * 2 ^ k"])
qed

section \<open>Circular indices\<close>

text \<open>
  Probe runs and ring slots walk an array of \<open>n\<close> slots in a circle: \<open>nxt\<close> is the step the code
  spells \<open>(i + 1) & mask\<close>, \<open>prv\<close> its inverse and \<open>cdist n i h\<close> the number of steps from \<open>h\<close> to
  \<open>i\<close>.
\<close>

definition nxt :: "nat \<Rightarrow> nat \<Rightarrow> nat" where
  "nxt n i = (i + 1) mod n"

definition prv :: "nat \<Rightarrow> nat \<Rightarrow> nat" where
  "prv n i = (i + n - 1) mod n"

definition cdist :: "nat \<Rightarrow> nat \<Rightarrow> nat \<Rightarrow> nat" where
  "cdist n i h = (i + n - h) mod n"

lemma nxt_less [simp]: "i < n \<Longrightarrow> nxt n i < n"
  by (simp add: nxt_def)

lemma prv_less [simp]: "i < n \<Longrightarrow> prv n i < n"
  by (simp add: prv_def)

lemma nxt_if: "i < n \<Longrightarrow> nxt n i = (if i = n - 1 then 0 else i + 1)"
  by (auto simp: nxt_def)

lemma prv_if: "i < n \<Longrightarrow> prv n i = (if i = 0 then n - 1 else i - 1)"
  by (auto simp: prv_def mod_if)

lemma cdist_if: "i < n \<Longrightarrow> h < n \<Longrightarrow> cdist n i h = (if h \<le> i then i - h else i + n - h)"
  by (auto simp: cdist_def mod_if)

lemma prv_nxt [simp]: "i < n \<Longrightarrow> prv n (nxt n i) = i"
  by (cases "i = n - 1") (auto simp: nxt_if prv_if)

lemma nxt_prv [simp]: "i < n \<Longrightarrow> nxt n (prv n i) = i"
  by (cases "i = 0") (auto simp: nxt_if prv_if)

lemma nxt_neq: "i < n \<Longrightarrow> 1 < n \<Longrightarrow> nxt n i \<noteq> i"
  by (auto simp: nxt_if)

lemma nxt_nxt_neq:
  assumes "i < n" and "2 < n"
  shows "nxt n (nxt n i) \<noteq> i"
proof -
  have "nxt n (nxt n i) = (if nxt n i = n - 1 then 0 else nxt n i + 1)"
    using assms by (intro nxt_if) simp
  then show ?thesis
    using assms nxt_if [OF assms(1)] by (auto split: if_splits)
qed

lemma nxt_inj: "i < n \<Longrightarrow> j < n \<Longrightarrow> nxt n i = nxt n j \<longleftrightarrow> i = j"
  by (metis prv_nxt)

lemma prv_eq_iff: "i < n \<Longrightarrow> j < n \<Longrightarrow> prv n j = i \<longleftrightarrow> j = nxt n i"
  by (metis nxt_prv prv_nxt)

lemma cdist_less [simp]: "0 < n \<Longrightarrow> cdist n i h < n"
  by (simp add: cdist_def)

lemma cdist_self [simp]: "i < n \<Longrightarrow> cdist n i i = 0"
  by (simp add: cdist_if)

lemma cdist_0_iff: "i < n \<Longrightarrow> h < n \<Longrightarrow> cdist n i h = 0 \<longleftrightarrow> i = h"
  by (auto simp: cdist_if)

lemma cdist_inj: "i < n \<Longrightarrow> j < n \<Longrightarrow> h < n \<Longrightarrow> cdist n i h = cdist n j h \<longleftrightarrow> i = j"
  by (auto simp: cdist_if split: if_splits)

lemma cdist_nxt:
  "i < n \<Longrightarrow> h < n \<Longrightarrow> Suc (cdist n i h) < n \<Longrightarrow> cdist n (nxt n i) h = Suc (cdist n i h)"
  by (auto simp: cdist_if nxt_if split: if_splits)

lemma cdist_prv:
  "i < n \<Longrightarrow> h < n \<Longrightarrow> 0 < cdist n i h \<Longrightarrow> cdist n (prv n i) h = cdist n i h - 1"
  by (auto simp: cdist_if prv_if split: if_splits)

lemma cdist_from_nxt:
  "i < n \<Longrightarrow> e < n \<Longrightarrow> e \<noteq> i \<Longrightarrow> Suc (cdist n e (nxt n i)) = cdist n e i"
  by (auto simp: cdist_if nxt_if split: if_splits)

section \<open>Lists and options\<close>

lemma length_filter_upd:
  assumes "i < length xs"
  shows "length (filter P (xs[i := y])) + (if P (xs ! i) then 1 else 0)
           = length (filter P xs) + (if P y then 1 else 0)"
proof -
  have "filter P xs = filter P (take i xs) @ filter P [xs ! i] @ filter P (drop (Suc i) xs)"
    using assms by (metis append_Cons append_Nil filter_append id_take_nth_drop)
  moreover have "filter P (xs[i := y]) = filter P (take i xs) @ filter P [y] @ filter P (drop (Suc i) xs)"
    using assms by (simp add: upd_conv_take_nth_drop)
  ultimately show ?thesis
    by simp
qed

lemma map_eqI_Some:
  assumes "\<And>k v. f k = Some v \<longleftrightarrow> g k = Some v"
  shows "f = g"
proof
  show "f k = g k" for k
    using assms by (metis option.exhaust)
qed

lemma Some_eq_map_option_iff: "(Some x = map_option f y) \<longleftrightarrow> (\<exists>z. y = Some z \<and> x = f z)"
  by (cases y) auto

end
