(* ===== verification/Text_Format.thy ===== *)
theory Text_Format
  imports Heapviz_Prelude
begin

text \<open>
  Numbers as text: the decimal and hexadecimal conversions of \<^verbatim>\<open>snprintf\<close> and of the digit loops
  of the sources, and the readers that invert them.
\<close>

section \<open>Printing\<close>

definition digit_char :: "nat \<Rightarrow> char" where
  "digit_char d = char_of (48 + d)"

fun dec_string :: "nat \<Rightarrow> string" where
  "dec_string n = (if n < 10 then [digit_char n] else dec_string (n div 10) @ [digit_char (n mod 10)])"

declare dec_string.simps [simp del]

section \<open>Reading\<close>

definition digit_value :: "char \<Rightarrow> nat option" where
  "digit_value c = (let v = of_char c in if 48 \<le> v \<and> v \<le> (57 :: nat) then Some (v - 48) else None)"

fun read_digits :: "nat \<Rightarrow> string \<Rightarrow> nat option" where
  "read_digits acc [] = Some acc"
| "read_digits acc (c # cs) = Option.bind (digit_value c) (\<lambda>d. read_digits (acc * 10 + d) cs)"

lemma digit_value_char: "d < 10 \<Longrightarrow> digit_value (digit_char d) = Some d"
  by (simp add: digit_value_def digit_char_def Let_def)

lemma digit_char_inj: "d < 10 \<Longrightarrow> e < 10 \<Longrightarrow> digit_char d = digit_char e \<longleftrightarrow> d = e"
  by (metis digit_value_char option.inject)

lemma read_digits_append: "read_digits acc (xs @ ys) = Option.bind (read_digits acc xs) (\<lambda>a. read_digits a ys)"
  by (induction xs arbitrary: acc) (auto split: bind_splits)

lemma read_dec_string: "read_digits 0 (dec_string n) = Some n"
proof (induction n rule: dec_string.induct)
  case (1 n)
  then show ?case
    by (cases "n < 10") (simp_all add: dec_string.simps [of n] read_digits_append digit_value_char)
qed

lemma dec_string_inj: "dec_string m = dec_string n \<longleftrightarrow> m = n"
  by (metis option.inject read_dec_string)

lemma dec_string_not_Nil [simp]: "dec_string n \<noteq> []"
  by (simp add: dec_string.simps [of n])

lemma length_dec_string: "n < 10 ^ Suc k \<Longrightarrow> length (dec_string n) \<le> Suc k"
proof (induction k arbitrary: n)
  case 0
  then show ?case by (simp add: dec_string.simps [of n])
next
  case (Suc k)
  have "n div 10 < 10 ^ Suc k"
    using Suc.prems by (simp add: div_less_iff_less_mult)
  then show ?case
    using Suc.IH by (simp add: dec_string.simps [of n])
qed

lemma set_dec_string: "c \<in> set (dec_string n) \<Longrightarrow> \<exists>d < 10. c = digit_char d"
proof (induction n rule: dec_string.induct)
  case (1 n)
  have "\<exists>d < 10. digit_char (n mod 10) = digit_char d"
    by (rule exI [of _ "n mod 10"]) simp
  with 1 show ?case
    by (cases "n < 10") (auto simp: dec_string.simps [of n])
qed


section \<open>Hexadecimal\<close>

definition hex_char :: "nat \<Rightarrow> char" where
  "hex_char d = (if d < 10 then char_of (48 + d) else char_of (87 + d))"

fun hex_string :: "nat \<Rightarrow> string" where
  "hex_string n = (if n < 16 then [hex_char n] else hex_string (n div 16) @ [hex_char (n mod 16)])"

declare hex_string.simps [simp del]

lemma hex_string_not_Nil [simp]: "hex_string n \<noteq> []"
  by (simp add: hex_string.simps [of n])

lemma length_hex_string: "n < 16 ^ Suc k \<Longrightarrow> length (hex_string n) \<le> Suc k"
proof (induction k arbitrary: n)
  case 0
  then show ?case by (simp add: hex_string.simps [of n])
next
  case (Suc k)
  have "n div 16 < 16 ^ Suc k"
    using Suc.prems by (simp add: div_less_iff_less_mult)
  then show ?case
    using Suc.IH by (simp add: hex_string.simps [of n])
qed

end
