(* ===== verification/Event_Abi.thy ===== *)
theory Event_Abi
  imports Text_Format
begin

text \<open>
  The shared-memory wire format of \<^verbatim>\<open>src/common/heapviz_abi.h\<close>: the event packet with its
  24-bit thread id, the operation byte whose two top bits publish a slot, the ring header, the
  sizing helpers and the name of the shared-memory object.
\<close>

section \<open>Constants\<close>

definition HEAPVIZ_ABI_MAGIC :: u64 where
  "HEAPVIZ_ABI_MAGIC = 0x48505A5631000000"

definition HEAPVIZ_ABI_VERSION :: u32 where
  "HEAPVIZ_ABI_VERSION = 3"

definition HV_OP_MASK :: u8 where
  [hv_consts]: "HV_OP_MASK = 0x3F"

definition HV_OP_PARITY_BIT :: u8 where
  [hv_consts]: "HV_OP_PARITY_BIT = 0x40"

definition HV_OP_COMMIT_BIT :: u8 where
  [hv_consts]: "HV_OP_COMMIT_BIT = 0x80"

definition HV_DEFAULT_CAPACITY :: u64 where
  "HV_DEFAULT_CAPACITY = push_bit 20 1"

text \<open>\<^verbatim>\<open>sizeof(HvRingHeader)\<close> and \<^verbatim>\<open>sizeof(HvEvent)\<close>, as the layout assertions fix them.\<close>

definition sizeof_header :: u64 where
  "sizeof_header = 256"

definition sizeof_event :: u64 where
  "sizeof_event = 32"

datatype hv_opcode = HV_OP_MALLOC | HV_OP_FREE | HV_OP_CALLOC | HV_OP_REALLOC | HV_OP_MEMALIGN

primrec opcode_value :: "hv_opcode \<Rightarrow> u8" where
  "opcode_value HV_OP_MALLOC = 0"
| "opcode_value HV_OP_FREE = 1"
| "opcode_value HV_OP_CALLOC = 2"
| "opcode_value HV_OP_REALLOC = 3"
| "opcode_value HV_OP_MEMALIGN = 4"

section \<open>Packets and the header\<close>

record hv_event =
  ev_timestamp :: u64
  ev_ptr :: u64
  ev_size :: u64
  ev_usable :: u32
  ev_tid :: "u8 \<times> u8 \<times> u8"
  ev_op :: u8

definition hv_event_set_tid :: "hv_event \<Rightarrow> u32 \<Rightarrow> hv_event" where
  "hv_event_set_tid e tid = e\<lparr>ev_tid :=
     (ucast (tid AND 0xFF),
      ucast (drop_bit 8 tid AND 0xFF),
      ucast (drop_bit 16 tid AND 0xFF))\<rparr>"

definition hv_event_get_tid :: "hv_event \<Rightarrow> u32" where
  "hv_event_get_tid e = (case ev_tid e of (t0, t1, t2) \<Rightarrow>
     ucast t0 OR push_bit 8 (ucast t1) OR push_bit 16 (ucast t2))"

record hv_ring_header =
  magic :: u64
  abi_version :: u32
  event_size :: u32
  capacity :: u64
  producer_pid :: "32 word"
  hdr_flags :: u32
  start_time_ns :: u64
  comm :: string
  capacity_log2 :: u32
  head :: u64
  tail :: u64
  dropped :: u64
  total_events :: u64
  producer_exited :: u32
  consumer_pid :: u32

section \<open>Sizing helpers\<close>

definition hv_is_pow2 :: "u64 \<Rightarrow> bool" where
  "hv_is_pow2 v \<longleftrightarrow> v \<noteq> 0 \<and> (v AND (v - 1)) = 0"

lemma unat_shift1_less:
  assumes "drop_bit (Suc 0) (v :: u64) \<noteq> 0"
  shows "unat (drop_bit (Suc 0) v) < unat v"
proof -
  have "0 < unat v div 2"
    using assms by (metis bot_nat_0.not_eq_extremum power_one_right unat_drop_bit_div unsigned_0
        word_eq_iff_unsigned One_nat_def)
  then show ?thesis
    by (simp add: unat_drop_bit_div)
qed

function hv_log2_loop :: "u64 \<Rightarrow> u32 \<Rightarrow> u32" where
  "hv_log2_loop v n =
     (let v' = drop_bit 1 v in if v' \<noteq> 0 then hv_log2_loop v' (n + 1) else n)"
  by pat_completeness auto
termination
  by (relation "measure (\<lambda>(v, n). unat v)") (auto simp: unat_shift1_less)

definition hv_log2_pow2 :: "u64 \<Rightarrow> u32" where
  "hv_log2_pow2 v = hv_log2_loop v 0"

definition hv_mapping_size :: "u64 \<Rightarrow> u64 \<Rightarrow> u64" where
  "hv_mapping_size cap page_size =
     (let raw = sizeof_header + cap * sizeof_event
      in (raw + page_size - 1) AND NOT (page_size - 1))"

text \<open>The slot's index in the event array that follows the header.\<close>

definition hv_ring_slot :: "u64 \<Rightarrow> u64 \<Rightarrow> nat" where
  "hv_ring_slot cap seq = unat (seq AND (cap - 1))"

section \<open>The shared-memory name\<close>

definition HV_SHM_NAME_PREFIX :: string where
  "HV_SHM_NAME_PREFIX = ''/heapviz_shm_''"

definition HV_SHM_NAME_MAX :: nat where
  "HV_SHM_NAME_MAX = 32"

text \<open>
  The \<^verbatim>\<open>do ... while\<close> over the pid: the digits are produced least significant first and written
  back to front, so the accumulator ends up in reading order.
\<close>

fun shm_digits :: "nat \<Rightarrow> string \<Rightarrow> string" where
  "shm_digits v acc =
     (let acc' = digit_char (v mod 10) # acc; v' = v div 10
      in if v' \<noteq> 0 then shm_digits v' acc' else acc')"

text \<open>
  The buffer holds the name and its terminator when it is large enough, and the empty string
  (when it can hold even that) otherwise; the second component is the returned length.
\<close>

definition hv_shm_name :: "nat \<Rightarrow> 32 word \<Rightarrow> string option \<times> nat" where
  "hv_shm_name buflen pid =
     (if buflen < HV_SHM_NAME_MAX then (if 0 < buflen then Some [] else None, 0)
      else
        (let v = (if sint pid < 0 then 0 else unat pid);
             name = HV_SHM_NAME_PREFIX @ shm_digits v []
         in (Some name, length name)))"

declare shm_digits.simps [simp del]
declare hv_log2_loop.simps [simp del]

section \<open>Facts about the helpers\<close>

lemma tid_roundtrip: "hv_event_get_tid (hv_event_set_tid e tid) = tid AND 0xFFFFFF"
proof -
  have m8: "(0xFF :: u32) = mask 8" and m24: "(0xFFFFFF :: u32) = mask 24"
    by (simp_all add: mask_eq_exp_minus_1)
  show ?thesis
  proof (rule bit_word_eqI)
    fix n :: nat
    consider "n < 8" | "8 \<le> n" "n < 16" | "16 \<le> n" "n < 24" | "24 \<le> n"
      by linarith
    then show "bit (hv_event_get_tid (hv_event_set_tid e tid)) n \<longleftrightarrow> bit (tid AND 0xFFFFFF) n"
      unfolding hv_event_get_tid_def hv_event_set_tid_def m8 m24
      by cases (auto simp: bit_simps)
  qed
qed

lemma pow2_mask_disjoint: "k < 64 \<Longrightarrow> ((2 :: u64) ^ k AND (2 ^ k - 1)) = 0"
proof (rule word_unat_eqI)
  assume "k < 64"
  then show "unat ((2 :: u64) ^ k AND (2 ^ k - 1)) = unat (0 :: u64)"
    by (simp only: unat_and_mask) (simp add: unat_two_power)
qed

lemma top_bit_exists:
  assumes "(v :: u64) \<noteq> 0"
  shows "\<exists>k < 64. 2 ^ k \<le> unat v \<and> unat v < 2 ^ Suc k"
proof -
  have "0 < unat v"
    using assms by (simp add: unat_gt_0)
  then obtain k where k: "2 ^ k \<le> unat v" "unat v < 2 ^ Suc k"
    using ex_power_ivl1 [of 2 "unat v"] by auto
  have "(2 :: nat) ^ k < 2 ^ 64"
    using k(1) unat_lt_exp [of v] by simp
  then have "k < 64"
    by (metis numeral_le_one_iff not_less power_increasing semiring_norm(69) le_numeral_extra(4) one_le_numeral)
  with k show ?thesis
    by blast
qed

lemma hv_is_pow2_iff: "hv_is_pow2 v \<longleftrightarrow> (\<exists>k < 64. v = 2 ^ k)"
proof
  assume pow: "hv_is_pow2 v"
  then obtain k where k: "k < 64" "2 ^ k \<le> unat v" "unat v < 2 ^ Suc k"
    using top_bit_exists by (auto simp: hv_is_pow2_def)
  have "unat v = 2 ^ k"
  proof (rule ccontr)
    assume "unat v \<noteq> 2 ^ k"
    with k have r: "2 ^ k \<le> unat (v - 1)" "unat (v - 1) < 2 ^ Suc k"
      using pow by (simp_all add: unat_minus_one hv_is_pow2_def)
    have "x div 2 ^ k = 1" if "2 ^ k \<le> x" "x < 2 ^ Suc k" for x :: nat
      using that by (simp add: div_nat_eqI)
    then have "bit v k" "bit (v - 1) k"
      using k r by (simp_all add: bit_word_unat)
    then have "bit (v AND (v - 1)) k"
      by (simp add: bit_and_iff)
    with pow show False
      by (simp add: hv_is_pow2_def)
  qed
  then have "v = 2 ^ k"
    using k(1) by (intro word_unat_eqI) (simp add: unat_two_power)
  with k(1) show "\<exists>k < 64. v = 2 ^ k"
    by blast
next
  assume "\<exists>k < 64. v = 2 ^ k"
  then show "hv_is_pow2 v"
    using pow2_mask_disjoint by (auto simp: hv_is_pow2_def)
qed

lemma hv_log2_loop_pow2: "k < 64 \<Longrightarrow> hv_log2_loop (2 ^ k) n = n + of_nat k"
proof (induction k arbitrary: n)
  case 0
  show ?case by (simp add: hv_log2_loop.simps [of 1])
next
  case (Suc k)
  have "drop_bit 1 ((2 :: u64) ^ Suc k) = 2 ^ k"
  proof (rule word_unat_eqI)
    show "unat (drop_bit 1 ((2 :: u64) ^ Suc k)) = unat ((2 :: u64) ^ k)"
      using Suc.prems unat_two_power [where 'a = 64, of "Suc k"] unat_two_power [where 'a = 64, of k]
      by (simp only: unat_drop_bit_div) simp
  qed
  moreover have "(2 :: u64) ^ k \<noteq> 0"
    using Suc.prems by simp
  ultimately show ?case
    using Suc by (subst hv_log2_loop.simps) (simp add: Let_def)
qed

lemma hv_log2_pow2_exp: "k < 64 \<Longrightarrow> unat (hv_log2_pow2 (2 ^ k)) = k"
  by (simp add: hv_log2_pow2_def hv_log2_loop_pow2 unat_of_nat)


section \<open>Properties\<close>

text \<open>
  Storing a thread id in an event and reading it back gives its low 24 bits, so every thread id
  below \<open>2 ^ 24\<close> (which covers the default \<^verbatim>\<open>pid_max\<close>) survives the packet unchanged.
\<close>

theorem event_tid_roundtrip:
  "hv_event_get_tid (hv_event_set_tid e tid) = tid AND 0xFFFFFF \<and>
   (tid < 0x1000000 \<longrightarrow> hv_event_get_tid (hv_event_set_tid e tid) = tid)"
proof -
  have "tid AND 0xFFFFFF = tid" if "tid < 0x1000000"
  proof (rule word_unat_eqI)
    have "unat (tid AND (2 ^ 24 - 1)) = unat tid mod 2 ^ 24"
      by (rule unat_and_mask)
    then show "unat (tid AND 0xFFFFFF) = unat tid"
      using that by (simp add: word_less_nat_alt)
  qed
  then show ?thesis
    using tid_roundtrip by simp
qed

theorem event_tid_roundtrip_witness:
  "hv_event_get_tid (hv_event_set_tid \<lparr>ev_timestamp = 0, ev_ptr = 0, ev_size = 0, ev_usable = 0,
     ev_tid = (9, 9, 9), ev_op = 0\<rparr> 4194304) = 4194304"
  using event_tid_roundtrip [of "\<lparr>ev_timestamp = 0, ev_ptr = 0, ev_size = 0, ev_usable = 0, ev_tid = (9, 9, 9), ev_op = 0\<rparr>" 4194304]
  by simp

lemma shm_digits_dec: "shm_digits v acc = dec_string v @ acc"
proof (induction v acc rule: shm_digits.induct)
  case (1 v acc)
  show ?case
  proof (cases "v < 10")
    case True
    then show ?thesis
      by (simp add: shm_digits.simps [of v] dec_string.simps [of v])
  next
    case False
    then have "v div 10 \<noteq> 0"
      by simp
    then show ?thesis
      using "1.IH" [OF refl refl] False by (simp add: shm_digits.simps [of v] dec_string.simps [of v] Let_def)
  qed
qed

text \<open>
  The name of the shared-memory object of a process fits its buffer with its terminator and
  determines the process: reading the digits after the prefix gives the process id back.
\<close>

theorem shm_name_roundtrip:
  assumes "0 \<le> sint pid" and "HV_SHM_NAME_MAX \<le> buflen"
  shows "\<exists>name. hv_shm_name buflen pid = (Some name, length name) \<and> length name < buflen \<and>
    take (length HV_SHM_NAME_PREFIX) name = HV_SHM_NAME_PREFIX \<and>
    read_digits 0 (drop (length HV_SHM_NAME_PREFIX) name) = Some (unat pid)"
proof -
  let ?name = "HV_SHM_NAME_PREFIX @ dec_string (unat pid)"
  have "unat pid < 10 ^ Suc 9"
    using unat_lt_exp [of pid] by simp
  then have "length (dec_string (unat pid)) \<le> 10"
    using length_dec_string [of "unat pid" 9] by simp
  then have "length ?name < buflen"
    using assms(2) by (simp add: HV_SHM_NAME_PREFIX_def HV_SHM_NAME_MAX_def)
  moreover have "hv_shm_name buflen pid = (Some ?name, length ?name)"
    using assms by (simp add: hv_shm_name_def shm_digits_dec Let_def)
  ultimately show ?thesis
    using read_dec_string [of "unat pid"] by (intro exI [of _ ?name]) simp
qed

theorem shm_name_roundtrip_witness:
  "\<exists>name. hv_shm_name 32 4711 = (Some name, length name) \<and> read_digits 0 (drop (length HV_SHM_NAME_PREFIX) name) = Some 4711"
  using shm_name_roundtrip [of 4711 32] by (auto simp: HV_SHM_NAME_MAX_def)


lemma unat_and_not_mask: "unat ((x :: 'a::len word) AND NOT (2 ^ n - 1)) = unat x div 2 ^ n * 2 ^ n"
proof -
  have "(x AND (2 ^ n - 1)) AND (x AND NOT (2 ^ n - 1)) = 0"
    by (rule bit_word_eqI) (auto simp: bit_simps)
  then have "(x AND (2 ^ n - 1)) + (x AND NOT (2 ^ n - 1)) = (x AND (2 ^ n - 1)) OR (x AND NOT (2 ^ n - 1))"
    by (rule disjunctive_add_eq_or)
  also have "\<dots> = x"
    by (rule bit_word_eqI) (auto simp: bit_simps)
  finally have "x AND NOT (2 ^ n - 1) = x - (x AND (2 ^ n - 1))"
    by (simp add: algebra_simps)
  moreover have "x AND (2 ^ n - 1) \<le> x"
    by (simp add: word_le_nat_alt unat_and_mask)
  ultimately have "unat (x AND NOT (2 ^ n - 1)) = unat x - unat x mod 2 ^ n"
    by (simp add: unat_sub unat_and_mask)
  then show ?thesis
    by (simp add: minus_mod_eq_div_mult)
qed

text \<open>
  For every capacity whose events fit the address space, the mapping is the smallest whole number
  of pages that holds the header and the events.
\<close>

theorem mapping_size_pages:
  assumes "p < 32" and "unat cap \<le> 2 ^ 58"
  shows "2 ^ p dvd unat (hv_mapping_size cap (2 ^ p)) \<and> 256 + 32 * unat cap \<le> unat (hv_mapping_size cap (2 ^ p)) \<and>
    unat (hv_mapping_size cap (2 ^ p)) < 256 + 32 * unat cap + 2 ^ p"
proof -
  let ?raw = "sizeof_header + cap * sizeof_event" and ?r = "256 + 32 * unat cap"
  have "(2 :: nat) ^ p \<le> 2 ^ 31"
    using assms(1) by (intro power_increasing) simp_all
  then have small: "?r + 2 ^ p < 2 ^ 64"
    using assms(2) by simp
  have pos: "0 < (2 :: nat) ^ p"
    by simp
  have page: "unat ((2 :: u64) ^ p) = 2 ^ p"
    using assms(1) by (intro unat_two_power) simp
  have raw: "unat ?raw = ?r"
    using small by (simp add: sizeof_header_def sizeof_event_def unat_word_ariths)
  have "unat (?raw + 2 ^ p) = ?r + 2 ^ p"
    using small raw page by (simp add: unat_word_ariths)
  then have "unat (?raw + 2 ^ p - 1) = ?r + 2 ^ p - 1"
    using pos by (subst unat_minus_one) auto
  then have s: "unat (hv_mapping_size cap (2 ^ p)) = (?r + 2 ^ p - 1) div 2 ^ p * 2 ^ p"
    by (simp add: hv_mapping_size_def Let_def unat_and_not_mask)
  have le: "(?r + 2 ^ p - 1) div 2 ^ p * 2 ^ p \<le> ?r + 2 ^ p - 1"
    by simp
  have "?r + 2 ^ p - 1 < (?r + 2 ^ p - 1) div 2 ^ p * 2 ^ p + 2 ^ p"
    using dividend_less_div_times [OF pos, of "?r + 2 ^ p - 1"] by (simp add: add.commute)
  then have "?r \<le> (?r + 2 ^ p - 1) div 2 ^ p * 2 ^ p" "(?r + 2 ^ p - 1) div 2 ^ p * 2 ^ p < ?r + 2 ^ p"
    using le pos by linarith+
  then show ?thesis
    unfolding s by (meson dvd_triv_right)
qed

theorem mapping_size_pages_witness: "unat (hv_mapping_size 1024 (2 ^ 12)) < 256 + 32 * unat (1024 :: u64) + 2 ^ 12"
  using mapping_size_pages [of 12 1024] by simp

text \<open>
  Without the bound the product wraps: \<open>2 ^ 59\<close> is a power of two, which is all that is asked of
  a capacity, and the mapping computed for it is a single page.
\<close>

theorem mapping_size_wraps: "hv_is_pow2 (2 ^ 59) \<and> hv_mapping_size (2 ^ 59) 4096 = 4096"
  by (simp add: hv_is_pow2_def hv_mapping_size_def sizeof_header_def sizeof_event_def)

end
