(* ===== verification/Fifo_Spec.thy ===== *)
theory Fifo_Spec
  imports Heapviz_Prelude
begin

text \<open>
  The contract between the interceptor and the consumer: a bounded first-in first-out channel
  that refuses what it cannot hold. A client script is any sequence of pushes and bounded
  drains; \<open>fifo_run\<close> executes it and records what was accepted and what was handed over.
\<close>

datatype 'a fifo_op = Push 'a | Drain u32

fun fifo_run :: "('q \<Rightarrow> 'a \<Rightarrow> bool \<times> 'q) \<Rightarrow> ('q \<Rightarrow> u32 \<Rightarrow> 'e list \<times> 'q) \<Rightarrow>
    'a fifo_op list \<Rightarrow> 'q \<Rightarrow> 'a list \<times> 'e list \<times> 'q" where
  "fifo_run push drain [] q = ([], [], q)"
| "fifo_run push drain (Push a # ops) q =
     (let (ok, q') = push q a; (acc, out, r) = fifo_run push drain ops q'
      in (if ok then a # acc else acc, out, r))"
| "fifo_run push drain (Drain m # ops) q =
     (let (es, q') = drain q m; (acc, out, r) = fifo_run push drain ops q'
      in (acc, es @ out, r))"

locale bounded_fifo =
  fixes push :: "'q \<Rightarrow> 'a \<Rightarrow> bool \<times> 'q"
    and drain :: "'q \<Rightarrow> u32 \<Rightarrow> 'e list \<times> 'q"
    and contents :: "'q \<Rightarrow> 'e list"
    and limit :: "'q \<Rightarrow> nat"
    and enc :: "'a \<Rightarrow> 'e"
    and invar :: "'q \<Rightarrow> bool"
  assumes invar_push: "invar q \<Longrightarrow> invar (snd (push q a))"
    and invar_drain: "invar q \<Longrightarrow> invar (snd (drain q m))"
    and limit_push: "invar q \<Longrightarrow> limit (snd (push q a)) = limit q"
    and limit_drain: "invar q \<Longrightarrow> limit (snd (drain q m)) = limit q"
    and within: "invar q \<Longrightarrow> length (contents q) \<le> limit q"
    and push_accepts: "invar q \<Longrightarrow> fst (push q a) \<longleftrightarrow> length (contents q) < limit q"
    and push_contents: "invar q \<Longrightarrow>
      contents (snd (push q a)) = (if fst (push q a) then contents q @ [enc a] else contents q)"
    and drain_out: "invar q \<Longrightarrow> fst (drain q m) = take (unat m) (contents q)"
    and drain_contents: "invar q \<Longrightarrow> contents (snd (drain q m)) = drop (unat m) (contents q)"
begin

lemma run_lossless:
  "invar q \<Longrightarrow> fifo_run push drain ops q = (acc, out, r) \<Longrightarrow>
    invar r \<and> limit r = limit q \<and> out @ contents r = contents q @ map enc acc"
proof (induction ops arbitrary: q acc out r)
  case Nil
  then show ?case by simp
next
  case (Cons op ops)
  show ?case
  proof (cases op)
    case (Push a)
    obtain acc' where run: "fifo_run push drain ops (snd (push q a)) = (acc', out, r)"
      and acc: "acc = (if fst (push q a) then a # acc' else acc')"
      using Cons.prems(2) by (auto simp: Push Let_def split: prod.splits)
    from Cons.IH [OF invar_push [OF Cons.prems(1)] run] Cons.prems(1) show ?thesis
      by (auto simp: acc push_contents limit_push)
  next
    case (Drain m)
    obtain out' where run: "fifo_run push drain ops (snd (drain q m)) = (acc, out', r)"
      and out: "out = fst (drain q m) @ out'"
      using Cons.prems(2) by (auto simp: Drain Let_def split: prod.splits)
    have "take (unat m) (contents q) @ (out' @ contents r) = contents q @ map enc acc"
      using Cons.IH [OF invar_drain [OF Cons.prems(1)] run] Cons.prems(1)
      by (metis append_assoc append_take_drop_id drain_contents)
    then show ?thesis
      using Cons.IH [OF invar_drain [OF Cons.prems(1)] run] Cons.prems(1)
      by (simp add: out drain_out limit_drain)
  qed
qed

lemma run_bounded:
  assumes "invar q" and "fifo_run push drain ops q = (acc, out, r)"
  shows "length (contents r) \<le> limit q"
  using run_lossless [OF assms] within [of r] by simp

end

end
