(* ===== verification/Ring.thy ===== *)
theory Ring
  imports Event_Abi Fifo_Spec
begin

text \<open>
  The event ring of \<^verbatim>\<open>src/common/heapviz_ring.h\<close> as the code runs it when one call is not
  interrupted by another: push, drain, the consumer claim. The contract is that of a bounded
  FIFO queue; the sequence numbers are 64-bit words and the theorems hold across their wrap.
  The interleaved execution of many producers and the consumer is \<^verbatim>\<open>Ring_Concurrent\<close>.
\<close>

section \<open>The ring and its operations\<close>

record hv_ring = hv_ring_header +
  slots :: "hv_event list"

record push_args =
  pa_timestamp :: u64
  pa_ptr :: u64
  pa_size :: u64
  pa_usable :: u32
  pa_tid :: u32
  pa_opcode :: u8

definition parity_bit :: "u32 \<Rightarrow> u64 \<Rightarrow> u8" where
  "parity_bit shift seq =
     (if drop_bit (unat shift) seq AND 1 \<noteq> 0 then HV_OP_PARITY_BIT else 0)"

definition published_op :: "u32 \<Rightarrow> u64 \<Rightarrow> u8 \<Rightarrow> u8" where
  "published_op shift seq opcode =
     (opcode AND HV_OP_MASK) OR HV_OP_COMMIT_BIT OR parity_bit shift seq"

text \<open>The plain stores of a producer into the slot it claimed, one per field, in program order.\<close>

fun write_field :: "push_args \<Rightarrow> nat \<Rightarrow> hv_event \<Rightarrow> hv_event" where
  "write_field a k e =
     (if k = 0 then e\<lparr>ev_timestamp := pa_timestamp a\<rparr>
      else if k = 1 then e\<lparr>ev_ptr := pa_ptr a\<rparr>
      else if k = 2 then e\<lparr>ev_size := pa_size a\<rparr>
      else if k = 3 then e\<lparr>ev_usable := pa_usable a\<rparr>
      else hv_event_set_tid e (pa_tid a))"

definition n_fields :: nat where
  "n_fields = 5"

definition fill_slot :: "push_args \<Rightarrow> hv_event \<Rightarrow> hv_event" where
  "fill_slot a e = fold (write_field a) [0..<n_fields] e"

definition slot_at :: "hv_ring \<Rightarrow> u64 \<Rightarrow> hv_event" where
  "slot_at h seq = slots h ! hv_ring_slot (capacity h) seq"

definition set_slot :: "hv_ring \<Rightarrow> u64 \<Rightarrow> hv_event \<Rightarrow> hv_ring" where
  "set_slot h seq e = h\<lparr>slots := (slots h)[hv_ring_slot (capacity h) seq := e]\<rparr>"

text \<open>A push that meets no contention: its compare-and-swap succeeds at the first attempt.\<close>

definition hv_ring_push :: "hv_ring \<Rightarrow> push_args \<Rightarrow> bool \<times> hv_ring" where
  "hv_ring_push h a =
     (if head h - tail h \<ge> capacity h
      then (False, h\<lparr>dropped := dropped h + 1\<rparr>)
      else
        (let seq = head h;
             h1 = h\<lparr>head := head h + 1\<rparr>;
             h2 = set_slot h1 seq ((fill_slot a (slot_at h1 seq))
                    \<lparr>ev_op := published_op (capacity_log2 h1) seq (pa_opcode a)\<rparr>)
         in (True, h2\<lparr>total_events := total_events h2 + 1\<rparr>)))"

definition slot_ready :: "u32 \<Rightarrow> u64 \<Rightarrow> u8 \<Rightarrow> bool" where
  "slot_ready shift seq op \<longleftrightarrow>
     \<not> (op AND HV_OP_COMMIT_BIT) = 0 \<and> \<not> (op AND HV_OP_PARITY_BIT) \<noteq> parity_bit shift seq"

definition clean_op :: "hv_event \<Rightarrow> hv_event" where
  "clean_op e = e\<lparr>ev_op := ev_op e AND HV_OP_MASK\<rparr>"

text \<open>The drain loop; the first argument is what is left of \<open>max\<close>.\<close>

fun drain_loop :: "nat \<Rightarrow> hv_ring \<Rightarrow> u64 \<Rightarrow> u64 \<Rightarrow> hv_event list \<Rightarrow> u64 \<times> hv_event list" where
  "drain_loop 0 h t hd' out = (t, out)"
| "drain_loop (Suc m) h t hd' out =
     (if t = hd' then (t, out)
      else if \<not> slot_ready (capacity_log2 h) t (ev_op (slot_at h t)) then (t, out)
      else drain_loop m h (t + 1) hd' (out @ [clean_op (slot_at h t)]))"

definition hv_ring_drain :: "hv_ring \<Rightarrow> u32 \<Rightarrow> hv_event list \<times> hv_ring" where
  "hv_ring_drain h mx =
     (case drain_loop (unat mx) h (tail h) (head h) [] of (t, out) \<Rightarrow>
        (out, if out \<noteq> [] then h\<lparr>tail := t\<rparr> else h))"

definition hv_ring_used :: "hv_ring \<Rightarrow> u64" where
  "hv_ring_used h = head h - tail h"

text \<open>
  Consumer ownership. The weak compare-and-swap may fail spuriously: \<open>hv_ring_claim\<close> takes the
  list of its spurious failures, and asks for one more outcome on every iteration; a claim that
  is still retrying when the list is exhausted has not returned.
\<close>

fun hv_ring_claim :: "bool list \<Rightarrow> hv_ring \<Rightarrow> u32 \<Rightarrow> ((u32 option) \<times> hv_ring) option" where
  "hv_ring_claim [] h pid = None"
| "hv_ring_claim (spurious # rest) h pid =
     (if consumer_pid h = 0 \<and> \<not> spurious then Some (None, h\<lparr>consumer_pid := pid\<rparr>)
      else if consumer_pid h = 0 then hv_ring_claim rest h pid
      else Some (Some (consumer_pid h), h))"

definition hv_ring_release :: "bool \<Rightarrow> hv_ring \<Rightarrow> u32 \<Rightarrow> hv_ring" where
  "hv_ring_release spurious h pid =
     (if consumer_pid h = pid \<and> \<not> spurious then h\<lparr>consumer_pid := 0\<rparr> else h)"

definition hv_ring_break_claim :: "hv_ring \<Rightarrow> hv_ring" where
  "hv_ring_break_claim h = h\<lparr>consumer_pid := 0\<rparr>"

declare write_field.simps [simp del]


section \<open>Slots and parity\<close>

lemma hv_ring_slot_mod: "hv_ring_slot (2 ^ n) seq = unat seq mod 2 ^ n"
  by (simp add: hv_ring_slot_def unat_and_mask)

lemma unat_add_of_nat_mod:
  assumes "n \<le> 64"
  shows "unat (w + of_nat i :: u64) mod 2 ^ n = (unat w + i) mod 2 ^ n"
proof -
  have "(2 :: nat) ^ n dvd 2 ^ 64"
    using assms by (rule le_imp_power_dvd)
  then show ?thesis
    by (simp add: unat_word_ariths unat_of_nat mod_mod_cancel mod_add_right_eq)
qed

lemma hv_ring_slot_add:
  "n \<le> 64 \<Longrightarrow> hv_ring_slot (2 ^ n) (w + of_nat i) = (unat w + i) mod 2 ^ n"
  by (simp add: hv_ring_slot_mod unat_add_of_nat_mod)

lemma hv_ring_slot_lap:
  "n \<le> 64 \<Longrightarrow> hv_ring_slot (2 ^ n) (w + of_nat (j + 2 ^ n)) = hv_ring_slot (2 ^ n) (w + of_nat j)"
  by (simp only: hv_ring_slot_add add.assoc [symmetric] mod_add_self2)

lemma hv_ring_slot_window_inj:
  assumes "n \<le> 64" and "i < 2 ^ n" and "j < 2 ^ n"
  shows "hv_ring_slot (2 ^ n) (w + of_nat i) = hv_ring_slot (2 ^ n) (w + of_nat j) \<longleftrightarrow> i = j"
proof
  assume "hv_ring_slot (2 ^ n) (w + of_nat i) = hv_ring_slot (2 ^ n) (w + of_nat j)"
  then have "(unat w + i) mod 2 ^ n = (unat w + j) mod 2 ^ n"
    using assms by (simp add: hv_ring_slot_add)
  then show "i = j"
    using assms(2,3) by (rule mod_add_inj)
qed simp

lemma parity_bit_iff: "parity_bit s q = (if bit q (unat s) then HV_OP_PARITY_BIT else 0)"
proof -
  have "(drop_bit (unat s) q AND 1 \<noteq> 0) = bit q (unat s)"
    by (simp add: and_one_eq mod2_eq_if bit_iff_odd_drop_bit)
  then show ?thesis
    by (simp add: parity_bit_def)
qed

lemma bit_flip_lap:
  assumes "n < 64"
  shows "bit (q + 2 ^ n :: u64) n \<longleftrightarrow> \<not> bit q n"
proof -
  have "odd (unat (q + 2 ^ n) div 2 ^ n) \<longleftrightarrow> bit ((unat q + 2 ^ n) mod 2 ^ 64) n"
    using assms by (simp add: bit_nat_div unat_word_ariths unat_two_power)
  also have "\<dots> \<longleftrightarrow> bit (take_bit 64 (unat q + 2 ^ n)) n"
    by (simp only: take_bit_eq_mod)
  also have "\<dots> \<longleftrightarrow> odd ((unat q + 2 ^ n) div 2 ^ n)"
    using assms by (subst bit_take_bit_iff) (simp add: bit_nat_div)
  also have "\<dots> \<longleftrightarrow> \<not> odd (unat q div 2 ^ n)"
    by (subst div_add_self2) simp_all
  finally show ?thesis
    using assms by (simp add: bit_word_unat)
qed

lemma parity_bit_lap: "unat s < 64 \<Longrightarrow> parity_bit s (q + 2 ^ unat s) \<noteq> parity_bit s q"
  by (simp add: parity_bit_iff bit_flip_lap hv_consts)

lemma published_op_fields:
  "published_op s q c AND HV_OP_COMMIT_BIT = HV_OP_COMMIT_BIT"
  "published_op s q c AND HV_OP_PARITY_BIT = parity_bit s q"
  "published_op s q c AND HV_OP_MASK = c AND HV_OP_MASK"
  by (simp_all add: published_op_def parity_bit_def hv_consts bit.conj_disj_distrib2 and.assoc)

lemma slot_ready_published: "slot_ready s q (published_op s q' c) \<longleftrightarrow> parity_bit s q = parity_bit s q'"
  by (auto simp: slot_ready_def published_op_fields) (simp add: hv_consts)

lemma not_ready_zero: "\<not> slot_ready s q 0"
  by (simp add: slot_ready_def)

text \<open>The parity bit is what tells a slot of this lap from the same slot one lap earlier.\<close>

lemma not_ready_next_lap:
  "unat s < 64 \<Longrightarrow> slot_ready s q op \<Longrightarrow> \<not> slot_ready s (q + 2 ^ unat s) op"
  using parity_bit_lap [of s q] by (simp add: slot_ready_def)

lemma fill_slot_eq:
  "fill_slot a e = \<lparr>ev_timestamp = pa_timestamp a, ev_ptr = pa_ptr a, ev_size = pa_size a,
     ev_usable = pa_usable a, ev_tid = ev_tid (hv_event_set_tid e (pa_tid a)), ev_op = ev_op e\<rparr>"
  by (simp add: fill_slot_def n_fields_def upt_rec write_field.simps hv_event_set_tid_def)

section \<open>The ring as a bounded queue\<close>

text \<open>The event a consumer is handed for one push.\<close>

definition event_of :: "push_args \<Rightarrow> hv_event" where
  "event_of a = hv_event_set_tid
     \<lparr>ev_timestamp = pa_timestamp a, ev_ptr = pa_ptr a, ev_size = pa_size a,
      ev_usable = pa_usable a, ev_tid = (0, 0, 0), ev_op = pa_opcode a AND HV_OP_MASK\<rparr> (pa_tid a)"

definition ring_contents :: "hv_ring \<Rightarrow> hv_event list" where
  "ring_contents h =
     map (\<lambda>i. clean_op (slot_at h (tail h + of_nat i))) [0..<unat (head h - tail h)]"

definition ring_ok :: "hv_ring \<Rightarrow> bool" where
  "ring_ok h \<longleftrightarrow>
     unat (capacity_log2 h) < 64 \<and>
     capacity h = 2 ^ unat (capacity_log2 h) \<and>
     length (slots h) = 2 ^ unat (capacity_log2 h) \<and>
     unat (head h - tail h) \<le> 2 ^ unat (capacity_log2 h) \<and>
     (\<forall>i < 2 ^ unat (capacity_log2 h).
        slot_ready (capacity_log2 h) (tail h + of_nat i) (ev_op (slot_at h (tail h + of_nat i)))
          \<longleftrightarrow> i < unat (head h - tail h))"

lemma ring_okD:
  assumes "ring_ok h"
  shows "unat (capacity_log2 h) < 64" "capacity h = 2 ^ unat (capacity_log2 h)"
    "length (slots h) = 2 ^ unat (capacity_log2 h)"
    "unat (head h - tail h) \<le> 2 ^ unat (capacity_log2 h)"
  using assms by (auto simp: ring_ok_def)

lemma ring_ok_ready:
  "ring_ok h \<Longrightarrow> i < 2 ^ unat (capacity_log2 h) \<Longrightarrow>
    slot_ready (capacity_log2 h) (tail h + of_nat i) (ev_op (slot_at h (tail h + of_nat i)))
      \<longleftrightarrow> i < unat (head h - tail h)"
  by (auto simp: ring_ok_def)

lemma length_ring_contents [simp]: "length (ring_contents h) = unat (hv_ring_used h)"
  by (simp add: ring_contents_def hv_ring_used_def)

lemma clean_op_filled:
  "clean_op ((fill_slot a e)\<lparr>ev_op := published_op s q (pa_opcode a)\<rparr>) = event_of a"
  by (simp add: clean_op_def fill_slot_eq event_of_def hv_event_set_tid_def published_op_fields)

lemma slot_at_set_slot:
  assumes "hv_ring_slot (capacity h) q < length (slots h)"
  shows "slot_at (set_slot h q e) q' =
    (if hv_ring_slot (capacity h) q' = hv_ring_slot (capacity h) q then e else slot_at h q')"
  using assms by (simp add: slot_at_def set_slot_def nth_list_update)

lemma head_as_offset: "(head h :: u64) = tail h + of_nat (unat (head h - tail h))"
  by simp

lemma push_full:
  assumes "ring_ok h"
  shows "head h - tail h \<ge> capacity h \<longleftrightarrow> unat (hv_ring_used h) = 2 ^ unat (capacity_log2 h)"
  using ring_okD [OF assms]
  by (auto simp: word_le_nat_alt unat_two_power hv_ring_used_def)

lemma slot_in_range: "ring_ok h \<Longrightarrow> hv_ring_slot (capacity h) q < length (slots h)"
  by (simp add: ring_okD hv_ring_slot_mod)

lemma unat_used_less: "ring_ok h \<Longrightarrow> k \<le> 2 ^ unat (capacity_log2 h) \<Longrightarrow> k < (2 :: nat) ^ 64"
  using power_strict_increasing [of "unat (capacity_log2 h)" 64 "2 :: nat"]
  by (simp add: ring_okD)

lemma push_used:
  assumes ok: "ring_ok h" and room: "unat (head h - tail h) < 2 ^ unat (capacity_log2 h)"
  shows "unat (head h + 1 - tail h) = Suc (unat (head h - tail h))"
proof -
  have "Suc (unat (head h - tail h)) < 2 ^ 64"
    using unat_used_less [OF ok, of "Suc (unat (head h - tail h))"] room by simp
  then have "unat ((head h - tail h) + 1) = Suc (unat (head h - tail h))"
    by (simp add: unat_plus1_small)
  moreover have "head h + 1 - tail h = (head h - tail h) + 1"
    by (simp add: algebra_simps)
  ultimately show ?thesis
    by (simp only:)
qed

text \<open>What a successful push leaves in each slot of the window that starts at the tail.\<close>

lemma push_slot:
  assumes ok: "ring_ok h" and room: "unat (head h - tail h) < 2 ^ unat (capacity_log2 h)"
    and i: "i < 2 ^ unat (capacity_log2 h)"
    and e: "h' = set_slot (h\<lparr>head := head h + 1\<rparr>) (head h) e"
  shows "slot_at h' (tail h + of_nat i)
           = (if i = unat (head h - tail h) then e else slot_at h (tail h + of_nat i))"
proof -
  have "hv_ring_slot (capacity h) (tail h + of_nat i) = hv_ring_slot (capacity h) (head h)
          \<longleftrightarrow> i = unat (head h - tail h)"
    using hv_ring_slot_window_inj [of "unat (capacity_log2 h)" i "unat (head h - tail h)" "tail h"]
      ring_okD [OF ok] room i head_as_offset [of h] by simp
  then show ?thesis
    using slot_in_range [OF ok, of "head h"] unfolding e
    by (simp add: slot_at_set_slot) (simp add: slot_at_def)
qed

lemma push_refines:
  assumes ok: "ring_ok h"
  shows "ring_ok (snd (hv_ring_push h a))"
    and "ring_contents (snd (hv_ring_push h a)) =
      (if unat (hv_ring_used h) < 2 ^ unat (capacity_log2 h)
       then ring_contents h @ [event_of a] else ring_contents h)"
    and "fst (hv_ring_push h a) \<longleftrightarrow> unat (hv_ring_used h) < 2 ^ unat (capacity_log2 h)"
proof -
  let ?n = "unat (capacity_log2 h)" and ?u = "unat (head h - tail h)"
  let ?e = "(fill_slot a (slot_at (h\<lparr>head := head h + 1\<rparr>) (head h)))
              \<lparr>ev_op := published_op (capacity_log2 h) (head h) (pa_opcode a)\<rparr>"
  let ?h = "set_slot (h\<lparr>head := head h + 1\<rparr>) (head h) ?e"
  note D = ring_okD [OF ok]
  have fields: "capacity_log2 ?h = capacity_log2 h" "capacity ?h = capacity h"
    "tail ?h = tail h" "head ?h = head h + 1" "length (slots ?h) = length (slots h)"
    by (simp_all add: set_slot_def)
  have full: "\<not> capacity h \<le> head h - tail h \<longleftrightarrow> ?u < 2 ^ ?n"
    using D push_full [OF ok] by (auto simp: hv_ring_used_def)
  have at: "slot_at ?h (tail h + of_nat i) = (if i = ?u then ?e else slot_at h (tail h + of_nat i))"
    if "?u < 2 ^ ?n" "i < 2 ^ ?n" for i
    using push_slot [OF ok that] by simp
  have ready: "slot_ready (capacity_log2 h) (tail h + of_nat i) (ev_op (slot_at ?h (tail h + of_nat i)))
      \<longleftrightarrow> i < Suc ?u" if "?u < 2 ^ ?n" "i < 2 ^ ?n" for i
    using at [OF that] ring_ok_ready [OF ok that(2)] by (auto simp: slot_ready_published)
  have ok': "ring_ok ?h" if "?u < 2 ^ ?n"
    unfolding ring_ok_def fields using D ready [OF that] push_used [OF ok that] that by auto
  have contents': "ring_contents ?h = ring_contents h @ [event_of a]" if "?u < 2 ^ ?n"
  proof -
    have "map (\<lambda>i. clean_op (slot_at ?h (tail h + of_nat i))) [0..<?u]
            = map (\<lambda>i. clean_op (slot_at h (tail h + of_nat i))) [0..<?u]"
      using at [OF that] that by (intro map_cong) auto
    moreover have "clean_op (slot_at ?h (tail h + of_nat ?u)) = event_of a"
      using at [OF that that] clean_op_filled by simp
    ultimately show ?thesis
      by (simp add: ring_contents_def fields push_used [OF ok that])
  qed
  have push: "hv_ring_push h a = (if ?u < 2 ^ ?n
      then (True, ?h\<lparr>total_events := total_events ?h + 1\<rparr>) else (False, h\<lparr>dropped := dropped h + 1\<rparr>))"
    using full by (auto simp: hv_ring_push_def Let_def)
  have frame: "ring_ok (r\<lparr>total_events := v\<rparr>) = ring_ok r" "ring_ok (r\<lparr>dropped := v\<rparr>) = ring_ok r"
    "ring_contents (r\<lparr>total_events := v\<rparr>) = ring_contents r"
    "ring_contents (r\<lparr>dropped := v\<rparr>) = ring_contents r" for r v
    by (simp_all add: ring_ok_def ring_contents_def slot_at_def)
  show "ring_ok (snd (hv_ring_push h a))"
    using ok ok' by (simp add: push frame)
  show "ring_contents (snd (hv_ring_push h a)) =
      (if unat (hv_ring_used h) < 2 ^ ?n then ring_contents h @ [event_of a] else ring_contents h)"
    using contents' by (simp add: push frame hv_ring_used_def)
  show "fst (hv_ring_push h a) \<longleftrightarrow> unat (hv_ring_used h) < 2 ^ ?n"
    by (simp add: push hv_ring_used_def)
qed

lemma drain_loop_eq:
  assumes ok: "ring_ok h" and k: "k \<le> unat (head h - tail h)"
  shows "drain_loop m h (tail h + of_nat k) (head h) out =
    (let e = min (k + m) (unat (head h - tail h))
     in (tail h + of_nat e, out @ map (\<lambda>i. clean_op (slot_at h (tail h + of_nat i))) [k..<e]))"
  using k
proof (induction m arbitrary: k out)
  case 0
  then show ?case by (simp add: min_def)
next
  case (Suc m)
  let ?u = "unat (head h - tail h)"
  have at_head: "tail h + of_nat k = head h \<longleftrightarrow> k = ?u"
  proof -
    have "unat (of_nat k :: u64) = k"
      using Suc.prems unat_used_less [OF ok, of k] ring_okD(4) [OF ok]
      by (intro unat_of_nat_small) simp
    then show ?thesis
      using head_as_offset [of h] by (metis add_diff_cancel_left')
  qed
  show ?case
  proof (cases "k = ?u")
    case True
    then show ?thesis by simp
  next
    case False
    with Suc.prems have "k < ?u" by simp
    then have ready: "slot_ready (capacity_log2 h) (tail h + of_nat k) (ev_op (slot_at h (tail h + of_nat k)))"
      using ring_ok_ready [OF ok, of k] ring_okD(4) [OF ok] by simp
    have "[k..<min (k + Suc m) ?u] = k # [Suc k..<min (Suc k + m) ?u]"
      using \<open>k < ?u\<close> by (simp add: upt_conv_Cons)
    then show ?thesis
      using Suc.IH [of "Suc k"] \<open>k < ?u\<close> ready at_head False by (simp add: ac_simps)
  qed
qed

lemma drain_eq:
  assumes ok: "ring_ok h"
  shows "hv_ring_drain h mx =
    (take (unat mx) (ring_contents h),
     h\<lparr>tail := tail h + of_nat (min (unat mx) (unat (hv_ring_used h)))\<rparr>)"
  using drain_loop_eq [OF ok, of 0 "unat mx" "[]"]
  by (auto simp: hv_ring_drain_def ring_contents_def Let_def take_map min_def hv_ring_used_def)

lemma drain_out: "ring_ok h \<Longrightarrow> fst (hv_ring_drain h mx) = take (unat mx) (ring_contents h)"
  by (simp add: drain_eq)

text \<open>A drain hands over the oldest events and frees exactly their slots for the next lap.\<close>

lemma drain_refines:
  assumes ok: "ring_ok h"
  shows "ring_ok (snd (hv_ring_drain h mx))"
    and "ring_contents (snd (hv_ring_drain h mx)) = drop (unat mx) (ring_contents h)"
proof -
  let ?n = "unat (capacity_log2 h)" and ?u = "unat (head h - tail h)"
  define k where "k = min (unat mx) ?u"
  let ?h = "h\<lparr>tail := tail h + of_nat k\<rparr>"
  note D = ring_okD [OF ok]
  have k: "k \<le> ?u" "k \<le> 2 ^ ?n"
    using D by (auto simp: k_def)
  have used: "unat (head h - (tail h + of_nat k)) = ?u - k"
    using k unat_of_nat_small [where 'a = 64, of k] unat_used_less [OF ok k(2)]
    by (simp add: unat_sub word_le_nat_alt diff_diff_eq [symmetric])
  have shift: "tail h + of_nat k + of_nat i = tail h + of_nat (k + i)" for i
    by (simp add: add.assoc)
  have ready: "slot_ready (capacity_log2 h) (tail h + of_nat (k + i))
      (ev_op (slot_at h (tail h + of_nat (k + i)))) \<longleftrightarrow> i < ?u - k" if i: "i < 2 ^ ?n" for i
  proof (cases "k + i < 2 ^ ?n")
    case True
    then show ?thesis
      using ring_ok_ready [OF ok, of "k + i"] k by auto
  next
    case False
    define j where "j = k + i - 2 ^ ?n"
    have j: "k + i = j + 2 ^ ?n" "j < k" "j < 2 ^ ?n"
      using False i k by (auto simp: j_def)
    have "slot_ready (capacity_log2 h) (tail h + of_nat j) (ev_op (slot_at h (tail h + of_nat j)))"
      using ring_ok_ready [OF ok j(3)] j k by auto
    then have "\<not> slot_ready (capacity_log2 h) ((tail h + of_nat j) + 2 ^ ?n)
        (ev_op (slot_at h (tail h + of_nat j)))"
      using not_ready_next_lap D by blast
    moreover have "slot_at h (tail h + of_nat (k + i)) = slot_at h (tail h + of_nat j)"
      using D hv_ring_slot_lap [of ?n "tail h" j] by (simp only: slot_at_def j(1))
    moreover have "tail h + of_nat (k + i) = (tail h + of_nat j) + 2 ^ ?n"
      by (simp add: j(1) add.assoc)
    ultimately have "\<not> slot_ready (capacity_log2 h) (tail h + of_nat (k + i))
        (ev_op (slot_at h (tail h + of_nat (k + i))))"
      by (simp only: not_False_eq_True)
    then show ?thesis
      using False D k by auto
  qed
  have "ring_ok ?h"
    using D k ready by (auto simp: ring_ok_def used slot_at_def shift)
  moreover have "ring_contents ?h = drop k (ring_contents h)"
    using used k by (intro nth_equalityI) (auto simp: ring_contents_def slot_at_def shift)
  moreover have "drop k (ring_contents h) = drop (unat mx) (ring_contents h)"
    by (simp add: k_def hv_ring_used_def min_def)
  ultimately show "ring_ok (snd (hv_ring_drain h mx))"
    and "ring_contents (snd (hv_ring_drain h mx)) = drop (unat mx) (ring_contents h)"
    by (simp_all add: drain_eq [OF ok] k_def hv_ring_used_def)
qed

lemma push_capacity_log2 [simp]: "capacity_log2 (snd (hv_ring_push h a)) = capacity_log2 h"
  by (simp add: hv_ring_push_def set_slot_def Let_def)

lemma drain_capacity_log2 [simp]: "capacity_log2 (snd (hv_ring_drain h mx)) = capacity_log2 h"
  by (simp add: hv_ring_drain_def split: prod.splits)

interpretation event_ring: bounded_fifo hv_ring_push hv_ring_drain ring_contents
  "\<lambda>h. 2 ^ unat (capacity_log2 h)" event_of ring_ok
  by unfold_locales
    (simp_all add: push_refines drain_refines drain_out ring_okD hv_ring_used_def)

section \<open>The ring the interceptor sets up\<close>

text \<open>
  \<open>hv_ring_setup\<close> maps a fresh shared-memory object (all zero bytes, as \<^verbatim>\<open>ftruncate\<close> extends it),
  fills the header in and publishes the magic last.
\<close>

definition zero_event :: hv_event where
  "zero_event = \<lparr>ev_timestamp = 0, ev_ptr = 0, ev_size = 0, ev_usable = 0, ev_tid = (0, 0, 0), ev_op = 0\<rparr>"

definition hv_ring_setup :: "u64 \<Rightarrow> 32 word \<Rightarrow> u64 \<Rightarrow> string \<Rightarrow> hv_ring" where
  "hv_ring_setup cap pid now cm =
     \<lparr>magic = HEAPVIZ_ABI_MAGIC, abi_version = HEAPVIZ_ABI_VERSION, event_size = 32,
      capacity = cap, producer_pid = pid, hdr_flags = 0, start_time_ns = now, comm = cm,
      capacity_log2 = hv_log2_pow2 cap, head = 0, tail = 0, dropped = 0, total_events = 0,
      producer_exited = 0, consumer_pid = 0, slots = replicate (unat cap) zero_event\<rparr>"

lemma hv_ring_setup_ok:
  assumes "hv_is_pow2 cap"
  shows "ring_ok (hv_ring_setup cap pid now cm)" "ring_contents (hv_ring_setup cap pid now cm) = []"
proof -
  obtain k where "k < 64" "cap = 2 ^ k"
    using assms by (auto simp: hv_is_pow2_iff)
  then show "ring_ok (hv_ring_setup cap pid now cm)"
    using hv_log2_pow2_exp [of k]
    by (simp add: ring_ok_def hv_ring_setup_def unat_two_power slot_at_def hv_ring_slot_mod
        zero_event_def not_ready_zero)
  show "ring_contents (hv_ring_setup cap pid now cm) = []"
    by (simp add: ring_contents_def hv_ring_setup_def)
qed


section \<open>Properties\<close>

text \<open>
  (C15) Whatever is pushed into and drained from a fresh ring, in any order, the events drained so far
  followed by those still in the ring are exactly the accepted pushes in their order, and the ring
  never holds more than its capacity: nothing is lost, duplicated or reordered, also after the
  sequence numbers have lapped the ring many times.
\<close>

theorem ring_fifo_lossless:
  assumes "hv_is_pow2 cap"
    and "fifo_run hv_ring_push hv_ring_drain ops (hv_ring_setup cap pid now cm) = (acc, out, r)"
  shows "out @ ring_contents r = map event_of acc \<and> length (ring_contents r) \<le> unat cap"
proof -
  obtain k where k: "k < 64" "cap = 2 ^ k"
    using assms(1) by (auto simp: hv_is_pow2_iff)
  have "2 ^ unat (capacity_log2 (hv_ring_setup cap pid now cm)) = unat cap"
    using hv_log2_pow2_exp [OF k(1)] unat_two_power [of k, where 'a=64] k by (simp add: hv_ring_setup_def)
  then show ?thesis
    using event_ring.run_lossless [OF hv_ring_setup_ok(1) [OF assms(1)] assms(2)]
      event_ring.run_bounded [OF hv_ring_setup_ok(1) [OF assms(1)] assms(2)] hv_ring_setup_ok(2) [OF assms(1)]
    by simp
qed

definition sample_push :: push_args where
  "sample_push = \<lparr>pa_timestamp = 5, pa_ptr = 4096, pa_size = 24, pa_usable = 24, pa_tid = 7, pa_opcode = 0\<rparr>"

theorem ring_fifo_lossless_witness:
  "\<exists>acc out r. fifo_run hv_ring_push hv_ring_drain [Push sample_push, Drain 4, Push sample_push]
      (hv_ring_setup 2 77 0 []) = (acc, out, r) \<and> out @ ring_contents r = map event_of acc"
proof -
  obtain acc out r where run: "fifo_run hv_ring_push hv_ring_drain [Push sample_push, Drain 4, Push sample_push]
      (hv_ring_setup 2 77 0 []) = (acc, out, r)"
    by (metis prod_cases3)
  have "hv_is_pow2 2"
    by (simp add: hv_is_pow2_def)
  from ring_fifo_lossless [OF this run] run show ?thesis
    by blast
qed

text \<open>
  Once a consumer holds the ring, every other claim is refused and names the holder, whatever the
  spurious failures of the compare-and-swap, a release by anyone else leaves the claim in place, and
  the holder's claim survives them all.
\<close>

theorem consumer_claim_exclusive:
  assumes "hv_ring_claim outcomes h pid = Some (None, h')" and "pid \<noteq> 0" and "other \<noteq> pid"
  shows "consumer_pid h = 0 \<and> consumer_pid h' = pid \<and>
    (\<forall>s ss. hv_ring_claim (s # ss) h' other = Some (Some pid, h')) \<and> (\<forall>s. hv_ring_release s h' other = h')"
proof -
  have "consumer_pid h = 0 \<and> h' = h\<lparr>consumer_pid := pid\<rparr>"
    using assms(1) by (induction outcomes) (auto split: if_splits)
  then show ?thesis
    using assms(2,3) by (auto simp: hv_ring_release_def)
qed

theorem consumer_claim_exclusive_witness:
  "hv_ring_claim [False] (snd (the (hv_ring_claim [True, True, False] (hv_ring_setup 2 77 0 []) 100))) 200 =
    Some (Some 100, snd (the (hv_ring_claim [True, True, False] (hv_ring_setup 2 77 0 []) 100)))"
proof -
  have "hv_ring_claim [True, True, False] (hv_ring_setup 2 77 0 []) 100 =
      Some (None, (hv_ring_setup 2 77 0 [])\<lparr>consumer_pid := 100\<rparr>)"
    by (simp add: hv_ring_setup_def)
  from consumer_claim_exclusive [OF this, of 200] this show ?thesis
    by simp
qed

end
