(* ===== verification/Ring_Concurrent.thy ===== *)
theory Ring_Concurrent
  imports Ring
begin

text \<open>
  The ring under concurrency: any number of producer threads inside \<open>hv_ring_push\<close> and the one
  consumer inside \<open>hv_ring_drain\<close>, interleaved at their shared-memory accesses. Every atomic
  operation and every plain store into a claimed slot is one step. The two ghost components
  record, in claim order, the arguments of every push that claimed a slot, and the events the
  consumer has handed to its caller.
\<close>

section \<open>Threads and steps\<close>

datatype producer_pc =
    PIdle
  | PLoadHead push_args
  | PLoadTail push_args u64
  | PCas push_args u64
  | PWrite push_args u64 nat
  | PCount
  | PDrop push_args

datatype consumer_pc =
    CIdle
  | CLoadHead u32 u64
  | CLoop u32 u64 u64 "hv_event list"
  | CCopy u32 u64 u64 "hv_event list" u8
  | CStore u64 "hv_event list"

record ring_sys =
  ring :: hv_ring
  producers :: "nat \<Rightarrow> producer_pc"
  consumer :: consumer_pc
  claimed :: "push_args list"
  delivered :: "hv_event list"

definition upd_producer :: "nat \<Rightarrow> producer_pc \<Rightarrow> ring_sys \<Rightarrow> ring_sys" where
  "upd_producer p pc s = s\<lparr>producers := (producers s)(p := pc)\<rparr>"

inductive producer_step :: "nat \<Rightarrow> ring_sys \<Rightarrow> ring_sys \<Rightarrow> bool" for p where
  call: "producers s p = PIdle \<Longrightarrow> producer_step p s (upd_producer p (PLoadHead a) s)"
| load_head: "producers s p = PLoadHead a \<Longrightarrow>
    producer_step p s (upd_producer p (PLoadTail a (head (ring s))) s)"
| load_tail_full: "producers s p = PLoadTail a h \<Longrightarrow> h - tail (ring s) \<ge> capacity (ring s) \<Longrightarrow>
    producer_step p s (upd_producer p (PDrop a) s)"
| load_tail_room: "producers s p = PLoadTail a h \<Longrightarrow> \<not> h - tail (ring s) \<ge> capacity (ring s) \<Longrightarrow>
    producer_step p s (upd_producer p (PCas a h) s)"
| count_drop: "producers s p = PDrop a \<Longrightarrow>
    producer_step p s (upd_producer p PIdle (s\<lparr>ring := (ring s)\<lparr>dropped := dropped (ring s) + 1\<rparr>\<rparr>))"
| cas_ok: "producers s p = PCas a h \<Longrightarrow> head (ring s) = h \<Longrightarrow>
    producer_step p s (upd_producer p (PWrite a h 0)
      (s\<lparr>ring := (ring s)\<lparr>head := h + 1\<rparr>, claimed := claimed s @ [a]\<rparr>))"
| cas_fail: "producers s p = PCas a h \<Longrightarrow> producer_step p s (upd_producer p (PLoadHead a) s)"
| store_field: "producers s p = PWrite a q k \<Longrightarrow> k < n_fields \<Longrightarrow>
    producer_step p s (upd_producer p (PWrite a q (Suc k))
      (s\<lparr>ring := set_slot (ring s) q (write_field a k (slot_at (ring s) q))\<rparr>))"
| publish: "producers s p = PWrite a q k \<Longrightarrow> k = n_fields \<Longrightarrow>
    producer_step p s (upd_producer p PCount
      (s\<lparr>ring := set_slot (ring s) q
           ((slot_at (ring s) q)\<lparr>ev_op := published_op (capacity_log2 (ring s)) q (pa_opcode a)\<rparr>)\<rparr>))"
| count_event: "producers s p = PCount \<Longrightarrow>
    producer_step p s (upd_producer p PIdle
      (s\<lparr>ring := (ring s)\<lparr>total_events := total_events (ring s) + 1\<rparr>\<rparr>))"

text \<open>The number of events copied so far is the length of the output list.\<close>

inductive consumer_step :: "ring_sys \<Rightarrow> ring_sys \<Rightarrow> bool" where
  c_load_tail: "consumer s = CIdle \<Longrightarrow>
    consumer_step s (s\<lparr>consumer := CLoadHead mx (tail (ring s))\<rparr>)"
| c_load_head: "consumer s = CLoadHead mx t \<Longrightarrow>
    consumer_step s (s\<lparr>consumer := CLoop mx t (head (ring s)) []\<rparr>)"
| c_load_op: "consumer s = CLoop mx t h out \<Longrightarrow> length out < unat mx \<Longrightarrow> t \<noteq> h \<Longrightarrow>
    consumer_step s (s\<lparr>consumer := CCopy mx t h out (ev_op (slot_at (ring s) t))\<rparr>)"
| c_copy: "consumer s = CCopy mx t h out op \<Longrightarrow> slot_ready (capacity_log2 (ring s)) t op \<Longrightarrow>
    consumer_step s (s\<lparr>consumer := CLoop mx (t + 1) h
      (out @ [(slot_at (ring s) t)\<lparr>ev_op := op AND HV_OP_MASK\<rparr>])\<rparr>)"
| c_break: "consumer s = CCopy mx t h out op \<Longrightarrow> \<not> slot_ready (capacity_log2 (ring s)) t op \<Longrightarrow>
    consumer_step s (s\<lparr>consumer := CStore t out\<rparr>)"
| c_exit: "consumer s = CLoop mx t h out \<Longrightarrow> \<not> (length out < unat mx \<and> t \<noteq> h) \<Longrightarrow>
    consumer_step s (s\<lparr>consumer := CStore t out\<rparr>)"
| c_store_tail: "consumer s = CStore t out \<Longrightarrow>
    consumer_step s (s\<lparr>ring := (if out \<noteq> [] then (ring s)\<lparr>tail := t\<rparr> else ring s),
      consumer := CIdle, delivered := delivered s @ out\<rparr>)"

inductive sys_step :: "ring_sys \<Rightarrow> ring_sys \<Rightarrow> bool" where
  by_producer: "producer_step p s t \<Longrightarrow> sys_step s t"
| by_consumer: "consumer_step s t \<Longrightarrow> sys_step s t"

definition init_sys :: "hv_ring \<Rightarrow> ring_sys" where
  "init_sys r = \<lparr>ring = r, producers = (\<lambda>_. PIdle), consumer = CIdle, claimed = [], delivered = []\<rparr>"

inductive reachable :: "hv_ring \<Rightarrow> ring_sys \<Rightarrow> bool" for r where
  start: "reachable r (init_sys r)"
| step: "reachable r s \<Longrightarrow> sys_step s t \<Longrightarrow> reachable r t"

section \<open>The invariant\<close>

text \<open>
  Positions are counted in \<open>nat\<close>: \<open>claimed\<close> is the history of claims, so its length is the number
  of claims and position \<open>x\<close> of the stream is \<open>claimed s ! x\<close>. The window of live positions starts
  at the tail and spans one lap.
\<close>

definition lap :: "ring_sys \<Rightarrow> nat" where
  "lap s = 2 ^ unat (capacity_log2 (ring s))"

definition tpos :: "ring_sys \<Rightarrow> nat" where
  "tpos s = unat (tail (ring s))"

definition hpos :: "ring_sys \<Rightarrow> nat" where
  "hpos s = length (claimed s)"

definition slotn :: "ring_sys \<Rightarrow> nat \<Rightarrow> hv_event" where
  "slotn s x = slots (ring s) ! (x mod lap s)"

definition cpos :: "ring_sys \<Rightarrow> nat" where
  "cpos s = (case consumer s of CLoop mx t h out \<Rightarrow> unat t | CCopy mx t h out op \<Rightarrow> unat t
     | CStore t out \<Rightarrow> unat t | _ \<Rightarrow> tpos s)"

definition in_flight :: "ring_sys \<Rightarrow> nat \<Rightarrow> bool" where
  "in_flight s x \<longleftrightarrow> (\<exists>p a q k. producers s p = PWrite a q k \<and> unat q = x)"

definition raw_event :: "u32 \<Rightarrow> u64 \<Rightarrow> push_args \<Rightarrow> hv_event" where
  "raw_event cl q a = (event_of a)\<lparr>ev_op := published_op cl q (pa_opcode a)\<rparr>"

text \<open>How far a producer has got with its plain stores.\<close>

definition fields_match :: "nat \<Rightarrow> push_args \<Rightarrow> hv_event \<Rightarrow> bool" where
  "fields_match k a e \<longleftrightarrow>
     (0 < k \<longrightarrow> ev_timestamp e = pa_timestamp a) \<and> (1 < k \<longrightarrow> ev_ptr e = pa_ptr a) \<and>
     (2 < k \<longrightarrow> ev_size e = pa_size a) \<and> (3 < k \<longrightarrow> ev_usable e = pa_usable a) \<and>
     (4 < k \<longrightarrow> ev_tid e = ev_tid (event_of a))"

definition shape_inv :: "ring_sys \<Rightarrow> bool" where
  "shape_inv s \<longleftrightarrow> unat (capacity_log2 (ring s)) < 64 \<and> capacity (ring s) = 2 ^ unat (capacity_log2 (ring s)) \<and>
     length (slots (ring s)) = lap s \<and> unat (head (ring s)) = hpos s \<and>
     tpos s \<le> hpos s \<and> hpos s \<le> tpos s + lap s"

definition producer_inv :: "ring_sys \<Rightarrow> producer_pc \<Rightarrow> bool" where
  "producer_inv s pc \<longleftrightarrow> (case pc of
       PLoadTail a h \<Rightarrow> unat h \<le> hpos s
     | PCas a h \<Rightarrow> unat h \<le> hpos s \<and> unat h < tpos s + lap s
     | PWrite a q k \<Rightarrow> cpos s \<le> unat q \<and> unat q < hpos s \<and> claimed s ! unat q = a \<and>
         k \<le> n_fields \<and> fields_match k a (slotn s (unat q))
     | _ \<Rightarrow> True)"

definition owners_inv :: "ring_sys \<Rightarrow> bool" where
  "owners_inv s \<longleftrightarrow> (\<forall>p p' a a' q k k'. producers s p = PWrite a q k \<longrightarrow>
     producers s p' = PWrite a' q k' \<longrightarrow> p = p')"

definition slots_inv :: "ring_sys \<Rightarrow> bool" where
  "slots_inv s \<longleftrightarrow> (\<forall>x. tpos s \<le> x \<and> x < tpos s + lap s \<longrightarrow>
     (if x < hpos s \<and> \<not> in_flight s x
      then slotn s x = raw_event (capacity_log2 (ring s)) (of_nat x) (claimed s ! x)
      else \<not> slot_ready (capacity_log2 (ring s)) (of_nat x) (ev_op (slotn s x))))"

definition batch_inv :: "ring_sys \<Rightarrow> u64 \<Rightarrow> hv_event list \<Rightarrow> bool" where
  "batch_inv s t out \<longleftrightarrow> tpos s \<le> unat t \<and> unat t \<le> hpos s \<and>
     out = map event_of (drop (tpos s) (take (unat t) (claimed s)))"

definition consumer_inv :: "ring_sys \<Rightarrow> bool" where
  "consumer_inv s \<longleftrightarrow> (case consumer s of
       CIdle \<Rightarrow> True
     | CLoadHead mx t \<Rightarrow> t = tail (ring s)
     | CLoop mx t h out \<Rightarrow> batch_inv s t out \<and> unat t \<le> unat h \<and> unat h \<le> hpos s
     | CCopy mx t h out op \<Rightarrow> batch_inv s t out \<and> unat t < unat h \<and> unat h \<le> hpos s \<and>
         (slot_ready (capacity_log2 (ring s)) t op \<longrightarrow>
            \<not> in_flight s (unat t) \<and> op = ev_op (slotn s (unat t)))
     | CStore t out \<Rightarrow> batch_inv s t out)"

definition conc_inv :: "ring_sys \<Rightarrow> bool" where
  "conc_inv s \<longleftrightarrow> shape_inv s \<and> (\<forall>p. producer_inv s (producers s p)) \<and> owners_inv s \<and>
     slots_inv s \<and> consumer_inv s \<and> delivered s = map event_of (take (tpos s) (claimed s))"

lemmas pos_defs = lap_def tpos_def hpos_def slotn_def cpos_def in_flight_def upd_producer_def

section \<open>Preservation by producer steps\<close>

definition idle_like :: "producer_pc \<Rightarrow> bool" where
  "idle_like pc \<longleftrightarrow> (\<forall>a q k. pc \<noteq> PWrite a q k)"

text \<open>A step that leaves the slots and the cursors alone only has to justify its new pc.\<close>

lemma conc_inv_local:
  assumes inv: "conc_inv s" and old: "idle_like (producers s p)" and new: "idle_like pc"
    and pc: "producer_inv s pc"
    and ring: "capacity_log2 r = capacity_log2 (ring s)" "capacity r = capacity (ring s)"
      "slots r = slots (ring s)" "head r = head (ring s)" "tail r = tail (ring s)"
  shows "conc_inv (upd_producer p pc (s\<lparr>ring := r\<rparr>))"
proof -
  let ?t = "upd_producer p pc (s\<lparr>ring := r\<rparr>)"
  have pos: "lap ?t = lap s" "tpos ?t = tpos s" "hpos ?t = hpos s" "slotn ?t = slotn s"
    "cpos ?t = cpos s" "claimed ?t = claimed s" "delivered ?t = delivered s"
    "consumer ?t = consumer s" "ring ?t = r"
    by (simp_all add: pos_defs ring fun_eq_iff split: consumer_pc.splits)
  have fly: "in_flight ?t = in_flight s"
    using old new by (auto simp: in_flight_def upd_producer_def idle_like_def fun_eq_iff) metis
  have pinv: "producer_inv ?t = producer_inv s"
    by (simp add: producer_inv_def pos fun_eq_iff split: producer_pc.splits)
  have "owners_inv ?t"
    using inv old new by (auto simp: conc_inv_def owners_inv_def upd_producer_def idle_like_def)
  moreover have "\<forall>p'. producer_inv ?t (producers ?t p')"
    unfolding pinv using inv pc by (simp add: conc_inv_def upd_producer_def)
  moreover have "shape_inv ?t" "slots_inv ?t" "consumer_inv ?t"
    using inv unfolding conc_inv_def shape_inv_def slots_inv_def consumer_inv_def batch_inv_def
      pos fly ring by blast+
  ultimately show ?thesis
    using inv by (simp add: conc_inv_def pos)
qed

lemma conc_invD:
  assumes "conc_inv s"
  shows "shape_inv s" "producer_inv s (producers s p)" "owners_inv s" "slots_inv s" "consumer_inv s"
    "delivered s = map event_of (take (tpos s) (claimed s))"
  using assms by (auto simp: conc_inv_def)

lemma shape_invD:
  assumes "shape_inv s"
  shows "unat (capacity_log2 (ring s)) < 64" "capacity (ring s) = 2 ^ unat (capacity_log2 (ring s))"
    "length (slots (ring s)) = lap s" "unat (head (ring s)) = hpos s"
    "tpos s \<le> hpos s" "hpos s \<le> tpos s + lap s"
  using assms by (auto simp: shape_inv_def)

lemma in_flightI: "producers s p = PWrite a q k \<Longrightarrow> in_flight s (unat q)"
  by (auto simp: in_flight_def)

lemma in_flightD:
  assumes "conc_inv s" and "in_flight s x"
  shows "cpos s \<le> x" "x < hpos s"
proof -
  obtain p a q k where "producers s p = PWrite a q k" "unat q = x"
    using assms(2) by (auto simp: in_flight_def)
  then show "cpos s \<le> x" "x < hpos s"
    using conc_invD(2) [OF assms(1), of p] by (auto simp: producer_inv_def)
qed

lemma producer_inv_mono:
  assumes "producer_inv s pc" and "hpos s \<le> hpos t" and "tpos s + lap s \<le> tpos t + lap t"
    and "\<And>a q k. pc = PWrite a q k \<Longrightarrow> unat q < hpos s \<Longrightarrow> cpos s \<le> unat q \<Longrightarrow>
      fields_match k a (slotn s (unat q)) \<Longrightarrow>
      cpos t \<le> unat q \<and> claimed t ! unat q = claimed s ! unat q \<and> fields_match k a (slotn t (unat q))"
  shows "producer_inv t pc"
  using assms by (cases pc) (auto simp: producer_inv_def)

lemma cas_ok_inv:
  assumes inv: "conc_inv s" and pc: "producers s p = PCas a h" and hd: "head (ring s) = h"
    and room: "Suc (hpos s) < 2 ^ 64"
  shows "conc_inv (upd_producer p (PWrite a h 0)
    (s\<lparr>ring := (ring s)\<lparr>head := h + 1\<rparr>, claimed := claimed s @ [a]\<rparr>))"
    (is "conc_inv ?t")
proof -
  note S = shape_invD [OF conc_invD(1) [OF inv]]
  have h: "unat h = hpos s" "hpos s < tpos s + lap s"
    using S(4) hd conc_invD(2) [OF inv, of p] by (auto simp: pc producer_inv_def)
  have pos: "lap ?t = lap s" "tpos ?t = tpos s" "hpos ?t = Suc (hpos s)" "slotn ?t = slotn s"
    "cpos ?t = cpos s" "claimed ?t = claimed s @ [a]" "consumer ?t = consumer s"
    "delivered ?t = delivered s"
    "capacity_log2 (ring ?t) = capacity_log2 (ring s)" "tail (ring ?t) = tail (ring s)"
    by (simp_all add: pos_defs fun_eq_iff split: consumer_pc.splits)
  have fly: "in_flight ?t x \<longleftrightarrow> in_flight s x \<or> x = hpos s" for x
    using h pc by (auto simp: in_flight_def upd_producer_def) (metis producer_pc.distinct)
  have "unat (h + 1) = Suc (unat h)"
    using room h by (simp add: unat_plus1_small)
  then have "shape_inv ?t"
    using S h by (simp add: shape_inv_def pos) (simp add: upd_producer_def)
  moreover have "producer_inv ?t (producers ?t p')" for p'
  proof (cases "p' = p")
    case True
    have "cpos s \<le> hpos s"
      using conc_invD(5) [OF inv] S(5)
      by (auto simp: cpos_def consumer_inv_def batch_inv_def split: consumer_pc.splits)
    then have "producer_inv ?t (PWrite a h 0)"
      unfolding producer_inv_def pos using h by (simp add: hpos_def fields_match_def)
    with True show ?thesis
      by (simp add: upd_producer_def)
  next
    case False
    have "producer_inv ?t (producers s p')"
      by (rule producer_inv_mono [OF conc_invD(2) [OF inv]])
        (auto simp: pos, auto simp: hpos_def nth_append)
    with False show ?thesis
      by (simp add: upd_producer_def)
  qed
  moreover have "owners_inv ?t"
  proof -
    have "q \<noteq> h" if "producers s p' = PWrite a' q k" for p' a' q k
      using conc_invD(2) [OF inv, of p'] h that by (auto simp: producer_inv_def)
    then show ?thesis
      using conc_invD(3) [OF inv] by (auto simp: owners_inv_def upd_producer_def)
  qed
  moreover have "slots_inv ?t"
    using conc_invD(4) [OF inv] by (auto simp: slots_inv_def pos fly nth_append hpos_def)
  moreover have "consumer_inv ?t"
    using conc_invD(5) [OF inv] 
    by (auto simp: consumer_inv_def batch_inv_def pos fly split: consumer_pc.splits) (auto simp: hpos_def)
  ultimately show ?thesis
    using conc_invD(6) [OF inv] S(5) by (simp add: conc_inv_def pos) (simp add: hpos_def)
qed

text \<open>Both kinds of slot store, and what they leave alone.\<close>

lemma window_inj:
  assumes "tpos s \<le> x" "x < tpos s + lap s" "tpos s \<le> y" "y < tpos s + lap s"
  shows "x mod lap s = y mod lap s \<longleftrightarrow> x = y"
proof
  assume "x mod lap s = y mod lap s"
  then have "x - tpos s = y - tpos s"
    using assms mod_add_inj [of "tpos s" "x - tpos s" "lap s" "y - tpos s"] by simp
  with assms show "x = y"
    by simp
qed simp

lemma slot_at_slotn: "shape_inv s \<Longrightarrow> slot_at (ring s) q = slotn s (unat q)"
  by (simp add: slot_at_def slotn_def lap_def shape_invD(2) hv_ring_slot_mod)

lemma cpos_ge: "conc_inv s \<Longrightarrow> tpos s \<le> cpos s"
  by (auto simp: conc_inv_def consumer_inv_def batch_inv_def cpos_def split: consumer_pc.splits)

lemma slot_store_pos:
  assumes "t = upd_producer p pc (s\<lparr>ring := set_slot (ring s) q e\<rparr>)"
  shows "lap t = lap s" "tpos t = tpos s" "hpos t = hpos s" "cpos t = cpos s" "claimed t = claimed s"
    "consumer t = consumer s" "delivered t = delivered s" "capacity (ring t) = capacity (ring s)"
    "capacity_log2 (ring t) = capacity_log2 (ring s)" "tail (ring t) = tail (ring s)"
    "head (ring t) = head (ring s)" "length (slots (ring t)) = length (slots (ring s))"
  unfolding assms by (simp_all add: pos_defs set_slot_def split: consumer_pc.splits)

lemma slot_store_slotn:
  assumes inv: "conc_inv s" and q: "tpos s \<le> unat q" "unat q < hpos s"
    and t: "t = upd_producer p pc (s\<lparr>ring := set_slot (ring s) q e\<rparr>)"
    and x: "tpos s \<le> x" "x < tpos s + lap s"
  shows "slotn t x = (if x = unat q then e else slotn s x)"
proof -
  note S = shape_invD [OF conc_invD(1) [OF inv]]
  have "slots (ring t) = (slots (ring s))[unat q mod lap s := e]"
    using S by (simp add: t upd_producer_def set_slot_def hv_ring_slot_mod lap_def)
  moreover have "x mod lap s = unat q mod lap s \<longleftrightarrow> x = unat q"
    using q x S by (intro window_inj) auto
  moreover have "unat q mod lap s < length (slots (ring s))"
    using S by (simp add: lap_def)
  ultimately show ?thesis
    using slot_store_pos(1) [OF t] by (simp add: slotn_def nth_list_update) metis
qed

text \<open>
  A store into the slot a producer owns: the other producers own other positions, the consumer
  has not reached this one, and the slot array changes nowhere else in the window.
\<close>

lemma slot_store_inv:
  assumes inv: "conc_inv s" and pc: "producers s p = PWrite a q k"
    and t: "t = upd_producer p pc' (s\<lparr>ring := set_slot (ring s) q e\<rparr>)"
    and new: "producer_inv t pc'" "pc' = PWrite a q k' \<or> idle_like pc'"
    and slot: "if pc' = PWrite a q k' then \<not> slot_ready (capacity_log2 (ring s)) q (ev_op e)
      else e = raw_event (capacity_log2 (ring s)) q a"
  shows "conc_inv t"
proof -
  note S = shape_invD [OF conc_invD(1) [OF inv]] and T = slot_store_pos [OF t]
  have q: "cpos s \<le> unat q" "unat q < hpos s" "claimed s ! unat q = a" "tpos s \<le> unat q"
    using conc_invD(2) [OF inv, of p] cpos_ge [OF inv] by (auto simp: pc producer_inv_def)
  have at: "slotn t x = (if x = unat q then e else slotn s x)"
    if "tpos s \<le> x" "x < tpos s + lap s" for x
    using slot_store_slotn [OF inv q(4,2) t that] .
  have owner: "p' = p" if "producers s p' = PWrite a' q' k''" "unat q' = unat q" for p' a' q' k''
    using conc_invD(3) [OF inv] pc that by (metis owners_inv_def word_unat_eqI)
  have fly: "in_flight t x \<longleftrightarrow> (if x = unat q then pc' = PWrite a q k' else in_flight s x)" for x
  proof (cases "x = unat q")
    case True
    then show ?thesis
      using owner new(2) by (auto simp: in_flight_def t upd_producer_def idle_like_def)
  next
    case False
    then show ?thesis
      using pc new(2) by (auto simp: in_flight_def t upd_producer_def idle_like_def)
        (metis producer_pc.inject(4))+
  qed
  have "producer_inv t (producers t p')" for p'
  proof (cases "p' = p")
    case True
    with new(1) show ?thesis by (simp add: t upd_producer_def)
  next
    case False
    have "producer_inv t (producers s p')"
    proof (rule producer_inv_mono [OF conc_invD(2) [OF inv]])
      fix a' q' k''
      assume w: "producers s p' = PWrite a' q' k''" "unat q' < hpos s" "cpos s \<le> unat q'"
        and "fields_match k'' a' (slotn s (unat q'))"
      moreover have "unat q' \<noteq> unat q"
        using owner [OF w(1)] False by blast
      ultimately show "cpos t \<le> unat q' \<and> claimed t ! unat q' = claimed s ! unat q' \<and>
          fields_match k'' a' (slotn t (unat q'))"
        using at [of "unat q'"] S cpos_ge [OF inv] by (simp add: T)
    qed (simp_all add: T)
    with False show ?thesis by (simp add: t upd_producer_def)
  qed
  moreover have "owners_inv t"
    using conc_invD(3) [OF inv] pc new(2) 
    by (auto simp: owners_inv_def t upd_producer_def idle_like_def)
  moreover have "slots_inv t"
    using conc_invD(4) [OF inv] at fly slot q S(6) by (auto simp: slots_inv_def T)
  moreover have "consumer_inv t"
  proof -
    have "in_flight s (unat q)"
      using pc by (auto simp: in_flight_def)
    then show ?thesis
      using conc_invD(5) [OF inv] at fly q S(6)
      by (auto simp: consumer_inv_def batch_inv_def T cpos_def split: consumer_pc.splits)
  qed
  moreover have "shape_inv t"
    using conc_invD(1) [OF inv] by (simp add: shape_inv_def T)
  ultimately show ?thesis
    using conc_invD(6) [OF inv] by (simp add: conc_inv_def T)
qed

lemma fields_match_step:
  "fields_match k a e \<Longrightarrow> k < n_fields \<Longrightarrow> fields_match (Suc k) a (write_field a k e)"
  by (auto simp: fields_match_def write_field.simps n_fields_def event_of_def hv_event_set_tid_def)

lemma write_field_op: "ev_op (write_field a k e) = ev_op e"
  by (simp add: write_field.simps hv_event_set_tid_def)

lemma fields_match_all:
  "fields_match n_fields a e \<Longrightarrow> e\<lparr>ev_op := published_op cl q (pa_opcode a)\<rparr> = raw_event cl q a"
  by (cases e) (auto simp: fields_match_def n_fields_def raw_event_def event_of_def hv_event_set_tid_def)

lemma store_field_inv:
  assumes inv: "conc_inv s" and pc: "producers s p = PWrite a q k" and k: "k < n_fields"
  shows "conc_inv (upd_producer p (PWrite a q (Suc k))
    (s\<lparr>ring := set_slot (ring s) q (write_field a k (slot_at (ring s) q))\<rparr>))"
proof -
  let ?e = "write_field a k (slot_at (ring s) q)"
  let ?t = "upd_producer p (PWrite a q (Suc k)) (s\<lparr>ring := set_slot (ring s) q ?e\<rparr>)"
  note S = shape_invD [OF conc_invD(1) [OF inv]]
  have q: "cpos s \<le> unat q" "unat q < hpos s" "claimed s ! unat q = a"
    "fields_match k a (slotn s (unat q))" "tpos s \<le> unat q"
    using conc_invD(2) [OF inv, of p] cpos_ge [OF inv] by (auto simp: pc producer_inv_def)
  have e: "?e = write_field a k (slotn s (unat q))"
    using slot_at_slotn [OF conc_invD(1) [OF inv]] by simp
  have "in_flight s (unat q)"
    using pc by (auto simp: in_flight_def)
  then have "\<not> slot_ready (capacity_log2 (ring s)) q (ev_op ?e)"
    using conc_invD(4) [OF inv] q S(6) by (auto simp: slots_inv_def e write_field_op)
  moreover have "slotn ?t (unat q) = ?e"
    using slot_store_slotn [OF inv q(5,2) refl q(5)] q S(6) by simp
  then have "producer_inv ?t (PWrite a q (Suc k))"
    using q k fields_match_step slot_store_pos [OF refl, of p "PWrite a q (Suc k)" s q ?e]
    by (simp add: producer_inv_def e)
  ultimately show ?thesis
    using slot_store_inv [OF inv pc refl, of "PWrite a q (Suc k)" ?e "Suc k"] by simp
qed

lemma publish_inv:
  assumes inv: "conc_inv s" and pc: "producers s p = PWrite a q n_fields"
  shows "conc_inv (upd_producer p PCount (s\<lparr>ring := set_slot (ring s) q
    ((slot_at (ring s) q)\<lparr>ev_op := published_op (capacity_log2 (ring s)) q (pa_opcode a)\<rparr>)\<rparr>))"
proof -
  have "fields_match n_fields a (slot_at (ring s) q)"
    using conc_invD(2) [OF inv, of p] slot_at_slotn [OF conc_invD(1) [OF inv]]
    by (auto simp: pc producer_inv_def)
  then show ?thesis
    using slot_store_inv [OF inv pc refl, of PCount]
    by (simp add: producer_inv_def idle_like_def fields_match_all)
qed

lemma producer_step_inv:
  assumes "producer_step p s t" and inv: "conc_inv s" and bound: "length (claimed t) < 2 ^ 64"
  shows "conc_inv t"
  using assms(1)
proof cases
  case (call a)
  then show ?thesis
    using conc_inv_local [OF inv, of p "PLoadHead a" "ring s"] by (simp add: idle_like_def producer_inv_def)
next
  case (load_head a)
  then show ?thesis
    using conc_inv_local [OF inv, of p "PLoadTail a (head (ring s))" "ring s"]
      shape_invD(4) [OF conc_invD(1) [OF inv]]
    by (simp add: idle_like_def producer_inv_def)
next
  case (load_tail_full a h)
  then show ?thesis
    using conc_inv_local [OF inv, of p "PDrop a" "ring s"] by (simp add: idle_like_def producer_inv_def)
next
  case (load_tail_room a h)
  have "unat h \<le> hpos s"
    using conc_invD(2) [OF inv, of p] by (simp add: load_tail_room producer_inv_def)
  moreover have "unat h < tpos s + lap s"
    using load_tail_room shape_invD [OF conc_invD(1) [OF inv]]
    by (auto simp: word_le_nat_alt unat_sub_if' tpos_def lap_def unat_two_power split: if_splits)
  ultimately show ?thesis
    using conc_inv_local [OF inv, of p "PCas a h" "ring s"] load_tail_room
    by (simp add: idle_like_def producer_inv_def)
next
  case (count_drop a)
  then show ?thesis
    using conc_inv_local [OF inv, of p PIdle] by (simp add: idle_like_def producer_inv_def)
next
  case (cas_ok a h)
  then show ?thesis
    using cas_ok_inv [OF inv] bound by (simp add: hpos_def upd_producer_def)
next
  case (cas_fail a h)
  then show ?thesis
    using conc_inv_local [OF inv, of p "PLoadHead a" "ring s"] by (simp add: idle_like_def producer_inv_def)
next
  case (store_field a q k)
  then show ?thesis
    using store_field_inv [OF inv] by simp
next
  case (publish a q k)
  then show ?thesis
    using publish_inv [OF inv] by simp
next
  case count_event
  then show ?thesis
    using conc_inv_local [OF inv, of p PIdle] by (simp add: idle_like_def producer_inv_def)
qed

section \<open>Preservation by consumer steps\<close>

lemma conc_inv_consumer:
  assumes inv: "conc_inv s" and new: "consumer_inv (s\<lparr>consumer := c\<rparr>)"
    and adv: "\<And>x. in_flight s x \<Longrightarrow> cpos (s\<lparr>consumer := c\<rparr>) \<le> x"
  shows "conc_inv (s\<lparr>consumer := c\<rparr>)"
proof -
  let ?t = "s\<lparr>consumer := c\<rparr>"
  have pos: "lap ?t = lap s" "tpos ?t = tpos s" "hpos ?t = hpos s" "slotn ?t = slotn s"
    "in_flight ?t = in_flight s" "ring ?t = ring s" "claimed ?t = claimed s"
    by (simp_all add: pos_defs fun_eq_iff)
  have "producer_inv ?t (producers s p)" for p
    by (rule producer_inv_mono [OF conc_invD(2) [OF inv]]) (auto simp: pos intro!: adv in_flightI)
  moreover have "shape_inv ?t" "owners_inv ?t" "slots_inv ?t"
    using inv unfolding conc_inv_def shape_inv_def owners_inv_def slots_inv_def pos by simp_all
  ultimately show ?thesis
    using inv new by (simp add: conc_inv_def pos)
qed

lemma published_slot:
  assumes inv: "conc_inv s" and t: "tpos s \<le> unat t" "unat t < hpos s" and fly: "\<not> in_flight s (unat t)"
  shows "slotn s (unat t) = raw_event (capacity_log2 (ring s)) t (claimed s ! unat t)"
  using conc_invD(4) [OF inv] t fly shape_invD(6) [OF conc_invD(1) [OF inv]]
  by (auto simp: slots_inv_def)

lemma ready_published:
  assumes inv: "conc_inv s" and t: "tpos s \<le> unat t" "unat t < hpos s"
    and ready: "slot_ready (capacity_log2 (ring s)) t (ev_op (slotn s (unat t)))"
  shows "\<not> in_flight s (unat t)"
proof
  assume "in_flight s (unat t)"
  then have "\<not> slot_ready (capacity_log2 (ring s)) t (ev_op (slotn s (unat t)))"
    using conc_invD(4) [OF inv] t shape_invD(6) [OF conc_invD(1) [OF inv]]
    by (auto simp: slots_inv_def)
  with ready show False by blast
qed

lemma copy_inv:
  assumes inv: "conc_inv s" and c: "consumer s = CCopy mx t h out op"
    and ready: "slot_ready (capacity_log2 (ring s)) t op"
  shows "conc_inv (s\<lparr>consumer := CLoop mx (t + 1) h
    (out @ [(slot_at (ring s) t)\<lparr>ev_op := op AND HV_OP_MASK\<rparr>])\<rparr>)"
    (is "conc_inv (s\<lparr>consumer := CLoop mx _ h ?out\<rparr>)")
proof -
  have b: "batch_inv s t out" "unat t < unat h" "unat h \<le> hpos s" "\<not> in_flight s (unat t)"
    "op = ev_op (slotn s (unat t))"
    using conc_invD(5) [OF inv] ready by (auto simp: consumer_inv_def c)
  have t1: "unat (t + 1) = Suc (unat t)"
    using b(2) unat_lt_exp [of h] by (intro unat_plus1_small) simp
  have "(slot_at (ring s) t)\<lparr>ev_op := op AND HV_OP_MASK\<rparr> = event_of (claimed s ! unat t)"
    using published_slot [OF inv _ _ b(4)] b slot_at_slotn [OF conc_invD(1) [OF inv]]
    by (simp add: batch_inv_def raw_event_def published_op_fields)
      (simp add: event_of_def hv_event_set_tid_def)
  then have "?out = map event_of (drop (tpos s) (take (Suc (unat t)) (claimed s)))"
    using b by (simp add: batch_inv_def take_Suc_conv_app_nth hpos_def)
  then have "consumer_inv (s\<lparr>consumer := CLoop mx (t + 1) h ?out\<rparr>)"
    using b t1 by (simp add: consumer_inv_def batch_inv_def) (simp add: pos_defs)
  moreover have "unat (t + 1) \<le> x" if "in_flight s x" for x
    using in_flightD(1) [OF inv that] b(4) that t1 by (auto simp: cpos_def c Suc_le_eq le_less)
  ultimately show ?thesis
    by (intro conc_inv_consumer [OF inv]) (simp_all add: cpos_def)
qed

lemma store_tail_inv:
  assumes inv: "conc_inv s" and c: "consumer s = CStore t out"
    and u: "u = s\<lparr>ring := (if out \<noteq> [] then (ring s)\<lparr>tail := t\<rparr> else ring s),
      consumer := CIdle, delivered := delivered s @ out\<rparr>"
  shows "conc_inv u"
proof -
  note S = shape_invD [OF conc_invD(1) [OF inv]]
  have b: "tpos s \<le> unat t" "unat t \<le> hpos s"
    "out = map event_of (drop (tpos s) (take (unat t) (claimed s)))"
    using conc_invD(5) [OF inv] by (auto simp: consumer_inv_def c batch_inv_def)
  have T: "tpos u = unat t"
    using b by (auto simp: tpos_def hpos_def u)
  have pos: "lap u = lap s" "hpos u = hpos s" "slotn u = slotn s" "in_flight u = in_flight s"
    "claimed u = claimed s" "consumer u = CIdle" "cpos u = unat t" "cpos s = unat t"
    "capacity_log2 (ring u) = capacity_log2 (ring s)" "producers u = producers s"
    "capacity (ring u) = capacity (ring s)" "slots (ring u) = slots (ring s)"
    "head (ring u) = head (ring s)" "delivered u = delivered s @ out"
    using T by (simp_all add: pos_defs c fun_eq_iff u)
  have "producer_inv u (producers s p)" for p
    by (rule producer_inv_mono [OF conc_invD(2) [OF inv]]) (use T b in \<open>auto simp: pos\<close>)
  moreover have "slots_inv u"
    unfolding slots_inv_def T pos
  proof (intro allI impI)
    fix x
    assume x: "unat t \<le> x \<and> x < unat t + lap s"
    show "if x < hpos s \<and> \<not> in_flight s x
      then slotn s x = raw_event (capacity_log2 (ring s)) (of_nat x) (claimed s ! x)
      else \<not> slot_ready (capacity_log2 (ring s)) (of_nat x) (ev_op (slotn s x))"
    proof (cases "x < tpos s + lap s")
      case True
      then show ?thesis
        using conc_invD(4) [OF inv] x b by (auto simp: slots_inv_def)
    next
      case False
      define y where "y = x - lap s"
      have y: "x = y + lap s" "tpos s \<le> y" "y < unat t"
        using False x by (auto simp: y_def)
      have "y < 2 ^ 64"
        using y(3) unat_lt_exp [of t] by simp
      then have uy: "unat (of_nat y :: u64) = y"
        by (intro unat_of_nat_small) simp
      have "\<not> in_flight s y"
        using in_flightD(1) [OF inv, of y] y(3) pos(8) by auto
      then have "slotn s y = raw_event (capacity_log2 (ring s)) (of_nat y) (claimed s ! y)"
        using published_slot [OF inv, of "of_nat y"] y b uy by simp
      then have "slot_ready (capacity_log2 (ring s)) (of_nat y) (ev_op (slotn s y))"
        by (simp add: raw_event_def slot_ready_published)
      then have "\<not> slot_ready (capacity_log2 (ring s)) (of_nat x) (ev_op (slotn s y))"
        using not_ready_next_lap [OF S(1)] by (simp add: y(1) lap_def)
      moreover have "slotn s x = slotn s y"
        by (simp add: slotn_def y(1))
      moreover have "\<not> x < hpos s"
        using False S(6) by simp
      ultimately show ?thesis
        by simp
    qed
  qed
  moreover have "shape_inv u"
    using S b T by (simp add: shape_inv_def pos)
  moreover have "owners_inv u"
    using conc_invD(3) [OF inv] by (simp add: owners_inv_def pos)
  moreover have "delivered u = map event_of (take (unat t) (claimed s))"
    unfolding pos conc_invD(6) [OF inv] b(3) map_append [symmetric]
    using b(1) by (metis append_take_drop_id min.absorb1 take_take)
  ultimately show ?thesis
    by (simp add: conc_inv_def consumer_inv_def T pos)
qed

lemma consumer_step_inv:
  assumes "consumer_step s t" and inv: "conc_inv s"
  shows "conc_inv t"
  using assms(1)
proof cases
  case (c_load_tail mx)
  have "tpos s \<le> x" if "in_flight s x" for x
    using in_flightD(1) [OF inv that] cpos_ge [OF inv] by simp
  then show ?thesis
    unfolding c_load_tail
    by (intro conc_inv_consumer [OF inv]) (simp_all add: consumer_inv_def cpos_def, simp add: tpos_def)
next
  case (c_load_head mx t')
  note S = shape_invD [OF conc_invD(1) [OF inv]]
  have t': "unat t' = tpos s"
    using conc_invD(5) [OF inv] by (simp add: consumer_inv_def c_load_head tpos_def)
  have "cpos s = tpos s"
    by (simp add: cpos_def c_load_head)
  then have "tpos s \<le> x" if "in_flight s x" for x
    using in_flightD(1) [OF inv that] by simp
  then show ?thesis
    unfolding c_load_head using S t'
    by (intro conc_inv_consumer [OF inv])
      (simp_all add: consumer_inv_def batch_inv_def cpos_def, simp_all add: tpos_def hpos_def)
next
  case (c_load_op mx t' h out)
  have b: "batch_inv s t' out" "unat t' < unat h" "unat h \<le> hpos s"
    using conc_invD(5) [OF inv] c_load_op
    by (auto simp: consumer_inv_def le_less word_unat_eqI)
  have op: "slot_at (ring s) t' = slotn s (unat t')"
    using slot_at_slotn conc_invD(1) [OF inv] by blast
  have "consumer_inv (s\<lparr>consumer := CCopy mx t' h out (ev_op (slot_at (ring s) t'))\<rparr>)"
    using b ready_published [OF inv, of t'] op
    by (simp add: consumer_inv_def batch_inv_def) (simp add: pos_defs)
  moreover have "unat t' \<le> x" if "in_flight s x" for x
    using in_flightD(1) [OF inv that] by (simp add: cpos_def c_load_op)
  ultimately show ?thesis
    unfolding c_load_op by (intro conc_inv_consumer [OF inv]) (simp_all add: cpos_def)
next
  case (c_copy mx t' h out op)
  then show ?thesis
    using copy_inv [OF inv] by simp
next
  case (c_break mx t' h out op)
  have "unat t' \<le> x" if "in_flight s x" for x
    using in_flightD(1) [OF inv that] by (simp add: cpos_def c_break)
  then show ?thesis
    unfolding c_break using conc_invD(5) [OF inv] c_break(2)
    by (intro conc_inv_consumer [OF inv]) (auto simp: consumer_inv_def batch_inv_def pos_defs)
next
  case (c_exit mx t' h out)
  have "unat t' \<le> x" if "in_flight s x" for x
    using in_flightD(1) [OF inv that] by (simp add: cpos_def c_exit)
  then show ?thesis
    unfolding c_exit using conc_invD(5) [OF inv] c_exit(2)
    by (intro conc_inv_consumer [OF inv]) (auto simp: consumer_inv_def batch_inv_def pos_defs)
next
  case (c_store_tail t' out)
  then show ?thesis
    using store_tail_inv [OF inv] by simp
qed

section \<open>Reachable states\<close>

lemma claimed_mono: "sys_step s t \<Longrightarrow> length (claimed s) \<le> length (claimed t)"
  by (auto elim!: sys_step.cases producer_step.cases consumer_step.cases simp: upd_producer_def)

lemma conc_inv_init:
  assumes "hv_is_pow2 cap"
  shows "conc_inv (init_sys (hv_ring_setup cap pid now cm))"
proof -
  obtain k where k: "k < 64" "cap = 2 ^ k"
    using assms by (auto simp: hv_is_pow2_iff)
  have "slots (hv_ring_setup cap pid now cm) ! i = zero_event" if "i < 2 ^ k" for i
    using that k by (simp add: hv_ring_setup_def unat_two_power)
  moreover have "unat (hv_log2_pow2 cap) = k"
    using k hv_log2_pow2_exp by simp
  ultimately show ?thesis
    using k by (simp add: conc_inv_def shape_inv_def producer_inv_def owners_inv_def slots_inv_def
        consumer_inv_def init_sys_def pos_defs not_ready_zero zero_event_def hv_ring_setup_def unat_two_power)
qed

lemma reachable_conc_inv:
  assumes "reachable (hv_ring_setup cap pid now cm) s" and "hv_is_pow2 cap"
    and "length (claimed s) < 2 ^ 64"
  shows "conc_inv s"
  using assms
proof (induction rule: reachable.induct)
  case start
  then show ?case by (intro conc_inv_init)
next
  case (step s t)
  then have "conc_inv s"
    using claimed_mono by fastforce
  with step show ?case
    by (auto elim!: sys_step.cases intro: producer_step_inv consumer_step_inv)
qed

section \<open>Uninterrupted runs\<close>

text \<open>
  The sequential model of \<^verbatim>\<open>Ring\<close> is the run of this system in which one thread takes all the
  steps.
\<close>

inductive producer_run :: "nat \<Rightarrow> ring_sys \<Rightarrow> ring_sys \<Rightarrow> bool" for p where
  stop: "producer_run p s s"
| go: "producer_step p s t \<Longrightarrow> producer_run p t u \<Longrightarrow> producer_run p s u"

lemma producer_run_1: "producer_step p s t \<Longrightarrow> producer_run p s t"
  by (blast intro: producer_run.intros)

lemma producer_run_trans: "producer_run p s t \<Longrightarrow> producer_run p t u \<Longrightarrow> producer_run p s u"
  by (induction rule: producer_run.induct) (auto intro: producer_run.intros)

lemma producer_run_2: "producer_step p s t \<Longrightarrow> producer_step p t' u \<Longrightarrow> t = t' \<Longrightarrow> producer_run p s u"
  by (blast intro: producer_run.intros)

lemma upd_producer_twice [simp]:
  "upd_producer p x (upd_producer p y s) = upd_producer p x s"
  "upd_producer p x ((upd_producer p y s)\<lparr>ring := r\<rparr>) = upd_producer p x (s\<lparr>ring := r\<rparr>)"
  "upd_producer p x ((upd_producer p y s)\<lparr>ring := r, claimed := c\<rparr>) = upd_producer p x (s\<lparr>ring := r, claimed := c\<rparr>)"
  "producers (upd_producer p y s) p = y" "ring (upd_producer p y s) = ring s"
  "claimed (upd_producer p y s) = claimed s"
  by (simp_all add: upd_producer_def)

lemma write_run:
  assumes "j \<le> n_fields" and "hv_ring_slot (capacity r) q < length (slots r)"
  shows "producer_run p (upd_producer p (PWrite a q 0) (s\<lparr>ring := r\<rparr>))
    (upd_producer p (PWrite a q j) (s\<lparr>ring := set_slot r q (fold (write_field a) [0..<j] (slot_at r q))\<rparr>))"
  using assms(1)
proof (induction j)
  case 0
  have "set_slot r q (slot_at r q) = r"
    by (simp add: set_slot_def slot_at_def)
  then show ?case
    by (simp add: producer_run.stop)
next
  case (Suc j)
  let ?r = "set_slot r q (fold (write_field a) [0..<j] (slot_at r q))"
  have "producer_step p (upd_producer p (PWrite a q j) (s\<lparr>ring := ?r\<rparr>))
      (upd_producer p (PWrite a q (Suc j))
        ((upd_producer p (PWrite a q j) (s\<lparr>ring := ?r\<rparr>))\<lparr>ring := set_slot ?r q (write_field a j (slot_at ?r q))\<rparr>))"
    using Suc.prems producer_step.store_field [where p = p and a = a and q = q and k = j
        and s = "upd_producer p (PWrite a q j) (s\<lparr>ring := ?r\<rparr>)"] by simp
  moreover have "slot_at ?r q = fold (write_field a) [0..<j] (slot_at r q)"
    using assms(2) by (simp add: slot_at_set_slot)
  ultimately have "producer_step p (upd_producer p (PWrite a q j) (s\<lparr>ring := ?r\<rparr>))
      (upd_producer p (PWrite a q (Suc j))
        (s\<lparr>ring := set_slot r q (fold (write_field a) [0..<Suc j] (slot_at r q))\<rparr>))"
    by (simp add: set_slot_def)
  then show ?case
    using Suc producer_run_trans [OF _ producer_run_1] by simp
qed

lemma claimed_ring_comm: "s\<lparr>claimed := c, ring := r\<rparr> = s\<lparr>ring := r, claimed := c\<rparr>" for s :: ring_sys
  by (cases s) simp

lemma push_run:
  assumes idle: "producers s p = PIdle" and range: "hv_ring_slot (capacity (ring s)) (head (ring s)) < length (slots (ring s))"
  shows "producer_run p s (upd_producer p PIdle
    (s\<lparr>ring := snd (hv_ring_push (ring s) a),
       claimed := claimed s @ (if fst (hv_ring_push (ring s) a) then [a] else [])\<rparr>))"
    (is "producer_run p s ?final")
proof -
  let ?h = "head (ring s)"
  let ?s1 = "upd_producer p (PLoadTail a ?h) s"
  have loaded: "producer_run p s ?s1"
    using producer_run_2 [OF producer_step.call [of s p a]
          producer_step.load_head [of "upd_producer p (PLoadHead a) s" p a]] idle by simp
  show ?thesis
  proof (cases "capacity (ring s) \<le> ?h - tail (ring s)")
    case True
    have "producer_run p ?s1 (upd_producer p PIdle (s\<lparr>ring := (ring s)\<lparr>dropped := dropped (ring s) + 1\<rparr>\<rparr>))"
      using producer_run_2 [OF producer_step.load_tail_full [of ?s1 p a ?h]
          producer_step.count_drop [of "upd_producer p (PDrop a) s" p a]] True by simp
    moreover have "upd_producer p PIdle (s\<lparr>ring := (ring s)\<lparr>dropped := dropped (ring s) + 1\<rparr>\<rparr>) = ?final"
      using True by (simp add: hv_ring_push_def upd_producer_def)
    ultimately show ?thesis
      using producer_run_trans [OF loaded] by simp
  next
    case False
    let ?r1 = "(ring s)\<lparr>head := ?h + 1\<rparr>" and ?c = "claimed s @ [a]"
    let ?s3 = "upd_producer p (PWrite a ?h 0) (s\<lparr>ring := ?r1, claimed := ?c\<rparr>)"
    let ?r2 = "set_slot ?r1 ?h (fill_slot a (slot_at ?r1 ?h))"
    let ?s4 = "upd_producer p (PWrite a ?h n_fields) (s\<lparr>ring := ?r2, claimed := ?c\<rparr>)"
    let ?r3 = "set_slot ?r2 ?h ((slot_at ?r2 ?h)\<lparr>ev_op := published_op (capacity_log2 (ring s)) ?h (pa_opcode a)\<rparr>)"
    let ?s5 = "upd_producer p PCount (s\<lparr>ring := ?r3, claimed := ?c\<rparr>)"
    have "producer_run p ?s1 ?s3"
      using producer_run_2 [OF producer_step.load_tail_room [of ?s1 p a ?h]
          producer_step.cas_ok [of "upd_producer p (PCas a ?h) s" p a ?h]] False by simp
    moreover have "producer_run p ?s3 ?s4"
      using write_run [of n_fields ?r1 ?h p a "s\<lparr>claimed := ?c\<rparr>"] range
      by (simp add: fill_slot_def claimed_ring_comm)
    moreover have "producer_run p ?s4 ?s5"
      using producer_run_1 [OF producer_step.publish [of ?s4 p a ?h n_fields]]
      by (simp add: set_slot_def upd_producer_def claimed_ring_comm)
    moreover have "producer_run p ?s5 ?final"
    proof -
      have "slot_at ?r2 ?h = fill_slot a (slot_at ?r1 ?h)"
        using range by (simp add: slot_at_set_slot)
      then have "?final = upd_producer p PIdle
          (?s5\<lparr>ring := (ring ?s5)\<lparr>total_events := total_events (ring ?s5) + 1\<rparr>\<rparr>)"
        using False by (simp add: hv_ring_push_def Let_def set_slot_def upd_producer_def claimed_ring_comm)
      then show ?thesis
        using producer_run_1 [OF producer_step.count_event [of ?s5 p]] by simp
    qed
    ultimately show ?thesis
      using loaded by (blast intro: producer_run_trans)
  qed
qed

inductive consumer_run :: "ring_sys \<Rightarrow> ring_sys \<Rightarrow> bool" where
  c_stop: "consumer_run s s"
| c_go: "consumer_step s t \<Longrightarrow> consumer_run t u \<Longrightarrow> consumer_run s u"

lemma consumer_run_snoc: "consumer_run s t \<Longrightarrow> consumer_step t u \<Longrightarrow> consumer_run s u"
  by (induction rule: consumer_run.induct) (auto intro: consumer_run.intros)

lemma drain_loop_run:
  "length out \<le> unat mx \<Longrightarrow> drain_loop (unat mx - length out) (ring s) t h out = (t', out') \<Longrightarrow>
    consumer_run (s\<lparr>consumer := CLoop mx t h out\<rparr>) (s\<lparr>consumer := CStore t' out'\<rparr>)"
proof (induction "unat mx - length out" arbitrary: t out)
  case 0
  then have "consumer_step (s\<lparr>consumer := CLoop mx t h out\<rparr>) (s\<lparr>consumer := CStore t out\<rparr>)"
    using consumer_step.c_exit [of "s\<lparr>consumer := CLoop mx t h out\<rparr>" mx t h out] by simp
  with 0 show ?case
    by (auto intro: consumer_run.intros)
next
  case (Suc m)
  let ?s = "s\<lparr>consumer := CLoop mx t h out\<rparr>"
  let ?op = "ev_op (slot_at (ring s) t)"
  have n: "length out < unat mx" "unat mx - length out = Suc m"
    using Suc.hyps(2) by auto
  show ?case
  proof (cases "t = h")
    case True
    then have "consumer_step ?s (s\<lparr>consumer := CStore t out\<rparr>)"
      using consumer_step.c_exit [of ?s mx t h out] by simp
    with Suc.prems n True show ?thesis
      by (auto intro: consumer_run.intros)
  next
    case False
    let ?c = "s\<lparr>consumer := CCopy mx t h out ?op\<rparr>"
    have load: "consumer_step ?s ?c"
      using consumer_step.c_load_op [of ?s mx t h out] False n by simp
    show ?thesis
    proof (cases "slot_ready (capacity_log2 (ring s)) t ?op")
      case True
      have "consumer_step ?c (s\<lparr>consumer := CLoop mx (t + 1) h (out @ [clean_op (slot_at (ring s) t)])\<rparr>)"
        using consumer_step.c_copy [of ?c mx t h out ?op] True by (simp add: clean_op_def)
      moreover have m: "m = unat mx - length (out @ [clean_op (slot_at (ring s) t)])"
        using n by simp
      have "drain_loop m (ring s) (t + 1) h (out @ [clean_op (slot_at (ring s) t)]) = (t', out')"
        using Suc.prems(2) n False True by simp
      then have "consumer_run (s\<lparr>consumer := CLoop mx (t + 1) h (out @ [clean_op (slot_at (ring s) t)])\<rparr>)
          (s\<lparr>consumer := CStore t' out'\<rparr>)"
        using Suc.hyps(1) [OF m, of "t + 1", folded m] n by simp
      ultimately show ?thesis
        using load by (blast intro: consumer_run.intros)
    next
      case nr: False
      have "consumer_step ?c (s\<lparr>consumer := CStore t out\<rparr>)"
        using consumer_step.c_break [of ?c mx t h out ?op] nr by simp
      then have "consumer_run ?s (s\<lparr>consumer := CStore t out\<rparr>)"
        using load by (blast intro: consumer_run.intros)
      with Suc.prems n False nr show ?thesis
        by auto
    qed
  qed
qed

lemma drain_run:
  assumes idle: "consumer s = CIdle"
  shows "consumer_run s (s\<lparr>ring := snd (hv_ring_drain (ring s) mx), consumer := CIdle,
    delivered := delivered s @ fst (hv_ring_drain (ring s) mx)\<rparr>)"
proof -
  obtain t out where d: "drain_loop (unat mx) (ring s) (tail (ring s)) (head (ring s)) [] = (t, out)"
    by (metis surj_pair)
  let ?s1 = "s\<lparr>consumer := CLoadHead mx (tail (ring s))\<rparr>"
  let ?s2 = "s\<lparr>consumer := CLoop mx (tail (ring s)) (head (ring s)) []\<rparr>"
  have "consumer_step s ?s1"
    using idle by (rule consumer_step.c_load_tail)
  moreover have "consumer_step ?s1 ?s2"
    using consumer_step.c_load_head [of ?s1 mx "tail (ring s)"] by simp
  moreover have "consumer_run ?s2 (s\<lparr>consumer := CStore t out\<rparr>)"
    using drain_loop_run [of "[]" mx s "tail (ring s)" "head (ring s)" t out] d by simp
  moreover have "consumer_step (s\<lparr>consumer := CStore t out\<rparr>)
      (s\<lparr>ring := snd (hv_ring_drain (ring s) mx), consumer := CIdle,
         delivered := delivered s @ fst (hv_ring_drain (ring s) mx)\<rparr>)"
    using consumer_step.c_store_tail [of "s\<lparr>consumer := CStore t out\<rparr>" t out] d
    by (cases s) (auto simp: hv_ring_drain_def)
  ultimately show ?thesis
    by (blast intro: consumer_run.intros consumer_run_snoc)
qed

lemma reachable_producer_run: "producer_run p s t \<Longrightarrow> reachable r s \<Longrightarrow> reachable r t"
  by (induction rule: producer_run.induct) (auto intro: reachable.step sys_step.by_producer)

lemma reachable_consumer_run: "consumer_run s t \<Longrightarrow> reachable r s \<Longrightarrow> reachable r t"
  by (induction rule: consumer_run.induct) (auto intro: reachable.step sys_step.by_consumer)

section \<open>Properties\<close>

text \<open>
  (C3) Exactly once and in order: in every reachable state of the ring with any number of
  producers, what the consumer has delivered is the stream of claimed events up to the tail,
  each event carrying exactly the arguments its push was called with.
\<close>

theorem ring_exactly_once_in_order:
  assumes "hv_is_pow2 cap" and "reachable (hv_ring_setup cap pid now cm) s"
    and "length (claimed s) < 2 ^ 64"
  shows "delivered s = map event_of (take (unat (tail (ring s))) (claimed s))"
  using conc_invD(6) [OF reachable_conc_inv [OF assms(2,1,3)]] by (simp add: tpos_def)

definition sample_args :: push_args where
  "sample_args = \<lparr>pa_timestamp = 7, pa_ptr = 4096, pa_size = 24, pa_usable = 24, pa_tid = 77, pa_opcode = 0\<rparr>"

theorem ring_exactly_once_in_order_witness:
  "delivered (upd_producer 3 (PLoadHead sample_args) (init_sys (hv_ring_setup 1024 1 0 [])))
     = map event_of (take 0 [])"
proof -
  let ?s = "init_sys (hv_ring_setup 1024 1 0 [])"
  have pow: "hv_is_pow2 1024"
    by (simp add: hv_is_pow2_def)
  have "sys_step ?s (upd_producer 3 (PLoadHead sample_args) ?s)"
    by (rule sys_step.by_producer [OF producer_step.call]) (simp add: init_sys_def)
  then have "reachable (hv_ring_setup 1024 1 0 []) (upd_producer 3 (PLoadHead sample_args) ?s)"
    by (rule reachable.step [OF reachable.start])
  from ring_exactly_once_in_order [OF pow this] show ?thesis
    by (simp add: init_sys_def hv_ring_setup_def)
qed

text \<open>
  No overrun and exclusive slots: in every reachable state the claimed and not yet consumed
  events fit the capacity, and two producers that are both writing never write the same slot.
\<close>

theorem ring_no_overrun:
  assumes "hv_is_pow2 cap" and "reachable (hv_ring_setup cap pid now cm) s"
    and "length (claimed s) < 2 ^ 64"
  shows "unat (hv_ring_used (ring s)) \<le> unat (capacity (ring s)) \<and>
    (producers s p = PWrite a q k \<longrightarrow> producers s p' = PWrite a' q' k' \<longrightarrow> p \<noteq> p' \<longrightarrow>
       hv_ring_slot (capacity (ring s)) q \<noteq> hv_ring_slot (capacity (ring s)) q')"
proof -
  have inv: "conc_inv s"
    by (rule reachable_conc_inv [OF assms(2,1,3)])
  note S = shape_invD [OF conc_invD(1) [OF inv]]
  have "unat (hv_ring_used (ring s)) \<le> unat (capacity (ring s))"
    using S by (simp add: hv_ring_used_def unat_sub word_le_nat_alt tpos_def unat_two_power lap_def)
  moreover have "hv_ring_slot (capacity (ring s)) q \<noteq> hv_ring_slot (capacity (ring s)) q'"
    if w: "producers s p = PWrite a q k" "producers s p' = PWrite a' q' k'" "p \<noteq> p'"
  proof -
    have "q \<noteq> q'"
      using conc_invD(3) [OF inv] w by (auto simp: owners_inv_def)
    then have "unat q \<noteq> unat q'"
      using word_unat_eqI by blast
    moreover have "tpos s \<le> unat x \<and> unat x < tpos s + lap s" if "in_flight s (unat x)" for x
      using in_flightD [OF inv that] cpos_ge [OF inv] S(6) by simp
    ultimately have "unat q mod lap s \<noteq> unat q' mod lap s"
      using window_inj [of s "unat q" "unat q'"] in_flightI [OF w(1)] in_flightI [OF w(2)] by blast
    then show ?thesis
      using S by (simp add: hv_ring_slot_mod lap_def)
  qed
  ultimately show ?thesis
    by blast
qed

theorem ring_no_overrun_witness:
  "unat (hv_ring_used (ring (init_sys (hv_ring_setup 1024 1 0 [])))) \<le> 1024"
proof -
  have "hv_is_pow2 1024"
    by (simp add: hv_is_pow2_def)
  then show ?thesis
    using ring_no_overrun [OF _ reachable.start, of 1024 1 0 "[]" 0 sample_args 0 0 1 sample_args 0 0]
    by (simp add: init_sys_def hv_ring_setup_def)
qed

text \<open>
  An uninterrupted push of the step system computes the sequential push: the thread returns to
  idle with the ring \<open>hv_ring_push\<close> produces, having recorded a claim exactly when the push
  reports success.
\<close>

theorem push_simulated:
  assumes "producers s p = PIdle"
    and "hv_ring_slot (capacity (ring s)) (head (ring s)) < length (slots (ring s))"
  shows "\<exists>t. producer_run p s t \<and> producers t p = PIdle \<and> ring t = snd (hv_ring_push (ring s) a) \<and>
    claimed t = claimed s @ (if fst (hv_ring_push (ring s) a) then [a] else [])"
  using push_run [OF assms] by (intro exI conjI) (assumption | simp)+

theorem push_simulated_witness:
  "\<exists>t. producer_run 5 (init_sys (hv_ring_setup 1024 1 0 [])) t \<and> producers t 5 = PIdle \<and>
    ring t = snd (hv_ring_push (hv_ring_setup 1024 1 0 []) sample_args)"
proof -
  let ?s = "init_sys (hv_ring_setup 1024 1 0 [])"
  have "producers ?s 5 = PIdle"
    by (simp add: init_sys_def)
  moreover have "hv_ring_slot (capacity (ring ?s)) (head (ring ?s)) < length (slots (ring ?s))"
    by (simp add: init_sys_def hv_ring_setup_def hv_ring_slot_def)
  ultimately show ?thesis
    using push_simulated [of ?s 5 sample_args] by (auto simp: init_sys_def)
qed

text \<open>
  A drain that runs alone computes the sequential drain: the consumer returns to idle with the
  tail and the events \<open>hv_ring_drain\<close> produces.
\<close>

theorem drain_simulated:
  assumes "consumer s = CIdle"
  shows "\<exists>t. consumer_run s t \<and> consumer t = CIdle \<and> ring t = snd (hv_ring_drain (ring s) mx) \<and>
    delivered t = delivered s @ fst (hv_ring_drain (ring s) mx)"
  using drain_run [OF assms] by (intro exI conjI) (assumption | simp)+

theorem drain_simulated_witness:
  "\<exists>t. consumer_run (init_sys (snd (hv_ring_push (hv_ring_setup 1024 1 0 []) sample_args))) t \<and>
    delivered t = [event_of sample_args]"
proof -
  let ?r = "hv_ring_setup 1024 1 0 []"
  let ?r1 = "snd (hv_ring_push ?r sample_args)"
  have pow: "hv_is_pow2 1024"
    by (simp add: hv_is_pow2_def)
  note ok = hv_ring_setup_ok [OF pow, of 1 0 "[]"]
  have "ring_contents ?r1 = [event_of sample_args]"
    using push_refines(2) [OF ok(1), of sample_args] ok(2)
    by (simp add: hv_ring_used_def hv_ring_setup_def)
  then have "fst (hv_ring_drain ?r1 1) = [event_of sample_args]"
    using drain_out [OF push_refines(1) [OF ok(1)]] by simp
  then show ?thesis
    using drain_simulated [of "init_sys ?r1" 1] by (auto simp: init_sys_def)
qed

text \<open>
  A push can be dropped although the ring is empty: a producer that loads \<open>head\<close>, is overtaken
  by a complete push and a complete drain, and then loads \<open>tail\<close>, sees the tail ahead of its stale
  head; the unsigned difference wraps and the event is counted as dropped.
\<close>

theorem push_dropped_on_empty_ring:
  "\<exists>s. reachable (hv_ring_setup 1024 1 0 []) s \<and> producers s 0 = PDrop sample_args \<and>
     hv_ring_used (ring s) = 0 \<and> capacity (ring s) = 1024"
proof -
  let ?r = "hv_ring_setup 1024 1 0 []"
  let ?s0 = "upd_producer 0 (PLoadTail sample_args 0) (init_sys ?r)"
  have pow: "hv_is_pow2 1024"
    by (simp add: hv_is_pow2_def)
  note ok = hv_ring_setup_ok [OF pow, of 1 0 "[]"]
  have "producer_run 0 (init_sys ?r) ?s0"
    using producer_run_2 [OF producer_step.call [of "init_sys ?r" 0 sample_args]
        producer_step.load_head [of "upd_producer 0 (PLoadHead sample_args) (init_sys ?r)" 0 sample_args]]
    by (simp add: init_sys_def hv_ring_setup_def)
  then have r0: "reachable ?r ?s0"
    using reachable.start reachable_producer_run by blast
  define r1 where "r1 = snd (hv_ring_push ?r sample_args)"
  have push: "fst (hv_ring_push ?r sample_args)" "ring_ok r1" "head r1 = 1" "tail r1 = 0" "capacity r1 = 1024"
    using push_refines [OF ok(1), of sample_args] ok(2)
    by (auto simp: r1_def hv_ring_used_def hv_ring_push_def hv_ring_setup_def Let_def set_slot_def)
  have "ring ?s0 = ?r" "producers ?s0 1 = PIdle" "claimed ?s0 = []"
    by (simp_all add: init_sys_def upd_producer_def)
  then have "producer_run 1 ?s0 (upd_producer 1 PIdle (?s0\<lparr>ring := r1, claimed := [sample_args]\<rparr>))"
    using push_run [of ?s0 1 sample_args] push(1) slot_in_range [OF ok(1)] by (simp add: r1_def)
  then have "reachable ?r (upd_producer 1 PIdle (?s0\<lparr>ring := r1, claimed := [sample_args]\<rparr>))"
    using r0 reachable_producer_run by blast
  then obtain s1 where s1: "reachable ?r s1" "ring s1 = r1" "consumer s1 = CIdle"
    "producers s1 0 = PLoadTail sample_args 0"
    by (auto simp: init_sys_def upd_producer_def)
  let ?s2 = "s1\<lparr>ring := snd (hv_ring_drain (ring s1) 1), consumer := CIdle,
    delivered := delivered s1 @ fst (hv_ring_drain (ring s1) 1)\<rparr>"
  have r2: "reachable ?r ?s2"
    using drain_run [OF s1(3)] s1(1) reachable_consumer_run by blast
  have tail2: "tail (ring ?s2) = 1" "head (ring ?s2) = 1" "capacity (ring ?s2) = 1024"
    using push by (simp_all add: s1(2) drain_eq hv_ring_used_def)
  then have "sys_step ?s2 (upd_producer 0 (PDrop sample_args) ?s2)"
    using s1(4) by (intro sys_step.by_producer [OF producer_step.load_tail_full]) auto
  then have "reachable ?r (upd_producer 0 (PDrop sample_args) ?s2)"
    by (rule reachable.step [OF r2])
  with tail2 show ?thesis
    by (intro exI [of _ "upd_producer 0 (PDrop sample_args) ?s2"]) (simp add: hv_ring_used_def)
qed

end
