(* ===== verification/Grid.thy ===== *)
theory Grid
  imports Text_Format
begin

text \<open>
  The address bucketizer of \<^verbatim>\<open>tui/grid.h\<close> and \<^verbatim>\<open>tui/grid.cpp\<close>. Addresses and cell widths are 64-bit
  words, the viewport's \<^verbatim>\<open>int\<close> dimensions are \<open>int\<close> (they are only compared and converted), flat
  indices are \<open>nat\<close>.
\<close>

section \<open>The grid\<close>

definition kMinCellBytes :: u64 where [hv_consts]: "kMinCellBytes = 64"
definition kMaxCellBytes :: u64 where [hv_consts]: "kMaxCellBytes = push_bit 30 1"
definition kGutterWidth :: nat where [hv_consts]: "kGutterWidth = 7"

record grid =
  g_base :: u64
  g_end :: u64
  g_cell_bytes :: u64
  g_log2_cell_bytes :: nat
  g_cols :: int
  g_rows :: int
  g_valid :: bool

definition grid_new :: grid where
  "grid_new = \<lparr>g_base = 0, g_end = 0, g_cell_bytes = kMinCellBytes, g_log2_cell_bytes = 6,
     g_cols = 0, g_rows = 0, g_valid = False\<rparr>"

definition clamped_pow2 :: "u64 \<Rightarrow> u64" where
  "clamped_pow2 v =
     (if v \<le> kMinCellBytes then kMinCellBytes
      else if v \<ge> kMaxCellBytes then kMaxCellBytes
      else of_nat (bit_ceil (unat v)))"

definition grid_configure :: "grid \<Rightarrow> u64 \<Rightarrow> u64 \<Rightarrow> int \<Rightarrow> int \<Rightarrow> bool \<times> grid" where
  "grid_configure g base end' cols rows =
     (let cols' = (if cols > 0 then cols else 0);
          rows' = (if rows > 0 then rows else 0);
          g' = g\<lparr>g_base := base, g_end := end', g_cols := cols', g_rows := rows', g_valid := False\<rparr>
      in if end' \<le> base \<or> cols' = 0 \<or> rows' = 0
         then (False, g'\<lparr>g_cell_bytes := kMinCellBytes,
                        g_log2_cell_bytes := countr_zero (unat kMinCellBytes)\<rparr>)
         else
           (let span = end' - base;
                cells = (of_int cols' :: u64) * of_int rows';
                per_cell = span div cells;
                per_cell' = (if span mod cells \<noteq> 0 then per_cell + 1 else per_cell);
                bytes = clamped_pow2 per_cell'
            in (True, g'\<lparr>g_cell_bytes := bytes, g_log2_cell_bytes := countr_zero (unat bytes),
                         g_valid := True\<rparr>)))"

definition grid_set_bounds :: "grid \<Rightarrow> u64 \<Rightarrow> u64 \<Rightarrow> bool \<times> grid" where
  "grid_set_bounds g base end' = grid_configure g base end' (g_cols g) (g_rows g)"

definition grid_set_viewport :: "grid \<Rightarrow> int \<Rightarrow> int \<Rightarrow> bool \<times> grid" where
  "grid_set_viewport g cols rows = grid_configure g (g_base g) (g_end g) cols rows"

definition grid_span :: "grid \<Rightarrow> u64" where
  "grid_span g = g_end g - g_base g"

definition cell_count :: "grid \<Rightarrow> nat" where
  "cell_count g = (if g_cols g \<le> 0 \<or> g_rows g \<le> 0 then 0 else nat (g_cols g) * nat (g_rows g))"

definition index_of :: "grid \<Rightarrow> u64 \<Rightarrow> nat option" where
  "index_of g addr =
     (if \<not> g_valid g \<or> addr < g_base g then None
      else (let index = unat (drop_bit (g_log2_cell_bytes g) (addr - g_base g))
            in if index \<ge> cell_count g then None else Some index))"

definition row_of :: "grid \<Rightarrow> nat \<Rightarrow> int" where
  "row_of g index = (if g_cols g \<le> 0 then 0 else int (index div nat (g_cols g)))"

definition col_of :: "grid \<Rightarrow> nat \<Rightarrow> int" where
  "col_of g index = (if g_cols g \<le> 0 then 0 else int (index mod nat (g_cols g)))"

definition offset_of_row :: "grid \<Rightarrow> int \<Rightarrow> u64" where
  "offset_of_row g row =
     (if \<not> g_valid g \<or> row < 0 then 0 else of_int row * of_int (g_cols g) * g_cell_bytes g)"

definition addr_of_row :: "grid \<Rightarrow> int \<Rightarrow> u64" where
  "addr_of_row g row = g_base g + offset_of_row g row"

definition covers_whole_span :: "grid \<Rightarrow> bool" where
  "covers_whole_span g =
     (if \<not> g_valid g then False
      else (let cells = (of_nat (cell_count g) :: u64);
                needed = grid_span g div g_cell_bytes g + (if grid_span g mod g_cell_bytes g \<noteq> 0 then 1 else 0)
            in cells \<ge> needed))"

section \<open>Labels\<close>

definition kUnits :: "string list" where
  "kUnits = [''B'', ''KB'', ''MB'', ''GB'', ''TB'', ''PB'', ''EB'']"

function scale_loop :: "nat \<Rightarrow> nat \<Rightarrow> nat \<Rightarrow> nat \<times> nat \<times> nat" where
  "scale_loop v unit rem =
     (if v \<ge> 1024 \<and> unit < length kUnits - 1 then scale_loop (v div 1024) (unit + 1) (v mod 1024)
      else (v, unit, rem))"
  by pat_completeness auto
termination
  by (relation "measure (\<lambda>(v, unit, rem). v)") simp_all

declare scale_loop.simps [simp del]

text \<open>The unit index, the scaled value and the tenths.\<close>

definition scale_bytes :: "u64 \<Rightarrow> nat \<times> nat \<times> nat" where
  "scale_bytes bytes =
     (let (v, unit, rem) = scale_loop (unat bytes) 0 0
      in (unit, v, if unit > 0 \<and> v < 10 then rem * 10 div 1024 else 0))"

text \<open>
  \<^verbatim>\<open>snprintf(buf, n, ...)\<close> writes the text cut to \<open>n - 1\<close> characters and returns the length of the
  whole text. The result of a formatting function is the text left in the buffer and the returned
  length.
\<close>

definition size_text :: "string \<Rightarrow> nat \<times> nat \<times> nat \<Rightarrow> string" where
  "size_text sep s = (case s of (unit, whole, tenths) \<Rightarrow>
     (if tenths \<noteq> 0 then dec_string whole @ ''.'' @ dec_string tenths @ sep @ kUnits ! unit
      else dec_string whole @ sep @ kUnits ! unit))"

definition format_byte_size :: "nat \<Rightarrow> u64 \<Rightarrow> string option \<times> nat" where
  "format_byte_size n bytes =
     (if n = 0 then (None, 0)
      else (let txt = size_text '' '' (scale_bytes bytes) in (Some (take (n - 1) txt), length txt)))"

definition format_offset :: "nat \<Rightarrow> u64 \<Rightarrow> string option \<times> nat" where
  "format_offset n offset =
     (if n < kGutterWidth + 1 then (if n > 0 then Some [] else None, 0)
      else
        (let txt = size_text [] (scale_bytes offset);
             body = take 31 txt;
             body_len = (if length txt > kGutterWidth then kGutterWidth else length txt);
             pad = kGutterWidth - body_len
         in (Some (replicate pad (CHR '' '') @ take body_len body), kGutterWidth)))"


section \<open>Granularity\<close>

lemma unat_kMaxCellBytes: "unat kMaxCellBytes = 2 ^ 30" and unat_kMinCellBytes: "unat kMinCellBytes = 2 ^ 6"
  by (simp_all add: kMaxCellBytes_def kMinCellBytes_def)

lemma clamped_pow2_cases:
  obtains "unat v \<le> 2 ^ 6" "unat (clamped_pow2 v) = 2 ^ 6"
  | "2 ^ 30 \<le> unat v" "unat (clamped_pow2 v) = 2 ^ 30"
  | k where "6 < k" "k \<le> 30" "unat v \<le> 2 ^ k" "2 ^ k < 2 * unat v" "unat (clamped_pow2 v) = 2 ^ k"
proof -
  consider "unat v \<le> 2 ^ 6" | "2 ^ 30 \<le> unat v" "\<not> unat v \<le> 2 ^ 6" | "2 ^ 6 < unat v" "unat v < 2 ^ 30"
    by linarith
  then show thesis
  proof cases
    case 1
    then show thesis
      by (intro that(1)) (simp_all add: clamped_pow2_def word_le_nat_alt unat_kMinCellBytes)
  next
    case 2
    then show thesis
      by (intro that(2)) (simp_all add: clamped_pow2_def word_le_nat_alt unat_kMinCellBytes unat_kMaxCellBytes)
  next
    case 3
    obtain k where k: "bit_ceil (unat v) = 2 ^ k"
      using bit_ceil_pow2 by blast
    have ge: "unat v \<le> 2 ^ k" and lt: "2 ^ k \<le> 2 * (unat v - 1)"
      using bit_ceil_ge [of "unat v"] bit_ceil_le [of "unat v"] 3 by (simp_all add: k)
    have b: "(2 :: nat) ^ 6 < 2 ^ k" "(2 :: nat) ^ k < 2 ^ 31"
      using ge lt 3 by simp_all
    have "6 < k" "k < 31"
      using b by (auto intro: power_less_imp_less_exp [of "2 :: nat", rotated])
    moreover have "unat (clamped_pow2 v) = 2 ^ k"
      using 3 b(2) unat_two_power [of k, where 'a=64] \<open>k < 31\<close>
      by (simp add: clamped_pow2_def word_le_nat_alt unat_kMinCellBytes unat_kMaxCellBytes k)
    ultimately show thesis
      using ge lt 3 by (intro that(3) [of k]) simp_all
  qed
qed

lemma clamped_pow2_exp: "\<exists>k. 6 \<le> k \<and> k \<le> 30 \<and> clamped_pow2 v = 2 ^ k"
proof -
  have pow: "\<exists>k. 6 \<le> k \<and> k \<le> 30 \<and> clamped_pow2 v = 2 ^ k" if "6 \<le> k" "k \<le> 30" "unat (clamped_pow2 v) = 2 ^ k" for k
  proof -
    have "unat ((2 :: u64) ^ k) = 2 ^ k"
      using that by (intro unat_two_power) simp
    then show ?thesis
      using that word_unat_eqI by metis
  qed
  show ?thesis
    by (cases v rule: clamped_pow2_cases) (use pow [of 6] pow [of 30] pow in simp_all)
qed

definition ceil_div :: "nat \<Rightarrow> nat \<Rightarrow> nat" where
  "ceil_div n c = n div c + (if n mod c \<noteq> 0 then 1 else 0)"

lemma ceil_div_le:
  assumes "0 < c"
  shows "ceil_div n c \<le> q \<longleftrightarrow> n \<le> q * c"
proof -
  have n: "n = n div c * c + n mod c" and r: "n mod c < c"
    using assms by simp_all
  show ?thesis
  proof (cases "n mod c = 0")
    case True
    then have "n = n div c * c"
      using n by simp
    then have "n \<le> q * c \<longleftrightarrow> n div c * c \<le> q * c"
      by simp
    then show ?thesis
      using True assms by (simp add: ceil_div_def)
  next
    case False
    have "n \<le> q * c" if "n div c < q"
    proof -
      have "Suc (n div c) * c \<le> q * c"
        using that by (intro mult_le_mono1) simp
      moreover have "n \<le> Suc (n div c) * c"
        using r dividend_less_times_div [OF assms, of n] by (simp add: mult.commute)
      ultimately show ?thesis
        by (rule le_trans [rotated])
    qed
    moreover have "n div c < q" if "n \<le> q * c"
    proof (rule ccontr)
      assume "\<not> n div c < q"
      then have "q * c \<le> n div c * c"
        by (intro mult_le_mono1) simp
      then show False
        using that n False by linarith
    qed
    ultimately show ?thesis
      using False by (auto simp: ceil_div_def)
  qed
qed

text \<open>A valid grid, as \<open>configure\<close> leaves it for a viewport of \<^verbatim>\<open>int\<close> dimensions.\<close>

definition grid_ok :: "grid \<Rightarrow> bool" where
  "grid_ok g \<longleftrightarrow> (g_valid g \<longrightarrow> g_base g < g_end g \<and> 0 < g_cols g \<and> 0 < g_rows g \<and>
     g_cols g < 2 ^ 31 \<and> g_rows g < 2 ^ 31 \<and> 6 \<le> g_log2_cell_bytes g \<and> g_log2_cell_bytes g \<le> 30 \<and>
     g_cell_bytes g = 2 ^ g_log2_cell_bytes g)"

lemma grid_okD:
  assumes "grid_ok g" "g_valid g"
  shows "g_base g < g_end g" "0 < g_cols g" "0 < g_rows g" "g_cols g < 2 ^ 31" "g_rows g < 2 ^ 31"
    "6 \<le> g_log2_cell_bytes g" "g_log2_cell_bytes g \<le> 30" "unat (g_cell_bytes g) = 2 ^ g_log2_cell_bytes g"
    "cell_count g = nat (g_cols g) * nat (g_rows g)" "0 < cell_count g" "cell_count g < 2 ^ 62"
proof -
  show 1: "g_base g < g_end g" "0 < g_cols g" "0 < g_rows g" "g_cols g < 2 ^ 31" "g_rows g < 2 ^ 31"
    "6 \<le> g_log2_cell_bytes g" "g_log2_cell_bytes g \<le> 30"
    using assms by (simp_all add: grid_ok_def)
  show "unat (g_cell_bytes g) = 2 ^ g_log2_cell_bytes g"
    using assms 1(7) unat_two_power [of "g_log2_cell_bytes g", where 'a=64] by (simp add: grid_ok_def)
  show c: "cell_count g = nat (g_cols g) * nat (g_rows g)"
    using 1 by (simp add: cell_count_def)
  show "0 < cell_count g"
    using 1 c by simp
  have "nat (g_cols g) * nat (g_rows g) < 2 ^ 31 * 2 ^ 31"
    using 1(4,5) by (intro mult_strict_mono) simp_all
  then show "cell_count g < 2 ^ 62"
    by (simp add: c)
qed

lemma unat_cells:
  assumes "0 < c" "c < 2 ^ 31" "0 < r" "r < 2 ^ 31"
  shows "unat ((of_int c :: u64) * of_int r) = nat c * nat r"
proof -
  have "nat c * nat r < 2 ^ 31 * 2 ^ 31"
    using assms by (intro mult_strict_mono) simp_all
  moreover have "(of_int c :: u64) * of_int r = of_nat (nat c * nat r)"
    using assms by simp
  ultimately show ?thesis
    by (simp add: unat_of_nat_small del: of_nat_mult of_nat_nat)
qed

lemma unat_ceil:
  fixes s c :: "'a::len word"
  assumes "c \<noteq> 0"
  shows "unat (s div c + (if s mod c \<noteq> 0 then 1 else 0)) = ceil_div (unat s) (unat c)"
proof -
  have c: "0 < unat c"
    using assms by (simp add: unat_gt_0)
  have "ceil_div (unat s) (unat c) \<le> unat s"
    using c by (simp add: ceil_div_le)
  then have lt: "ceil_div (unat s) (unat c) < 2 ^ LENGTH('a)"
    using unat_lt_exp [of s] by (rule le_less_trans)
  have "s mod c = 0 \<longleftrightarrow> unat s mod unat c = 0"
    by (metis unat_eq_zero unat_mod_distrib)
  then have "s div c + (if s mod c \<noteq> 0 then 1 else 0) = of_nat (ceil_div (unat s) (unat c))"
    by (auto simp: ceil_div_def word_unat_eq_iff unat_div_distrib unat_word_ariths unat_of_nat mod_Suc_eq)
  then show ?thesis
    using lt by (simp add: unat_of_nat_small)
qed


section \<open>Configuration\<close>

lemma configure_valid:
  assumes cfg: "grid_configure g base end' cols rows = (True, g')" and dims: "cols < 2 ^ 31" "rows < 2 ^ 31"
  shows "grid_ok g'" "g_valid g'" "g_base g' = base" "g_end g' = end'" "g_cols g' = cols" "g_rows g' = rows"
    "\<exists>v. unat v = ceil_div (unat (grid_span g')) (cell_count g') \<and> g_cell_bytes g' = clamped_pow2 v"
proof -
  have pos: "base < end'" "0 < cols" "0 < rows"
    using cfg by (auto simp: grid_configure_def Let_def split: if_splits)
  let ?cells = "(of_int cols :: u64) * of_int rows" and ?span = "end' - base"
  let ?per = "?span div ?cells + (if ?span mod ?cells \<noteq> 0 then 1 else 0)"
  have g': "g' = g\<lparr>g_base := base, g_end := end', g_cols := cols, g_rows := rows, g_valid := True,
      g_cell_bytes := clamped_pow2 ?per, g_log2_cell_bytes := countr_zero (unat (clamped_pow2 ?per))\<rparr>"
    using cfg pos by (auto simp: grid_configure_def Let_def split: if_splits)
  show "g_valid g'" "g_base g' = base" "g_end g' = end'" "g_cols g' = cols" "g_rows g' = rows"
    by (simp_all add: g')
  have cells: "unat ?cells = nat cols * nat rows"
    using unat_cells pos dims by blast
  then have nz: "?cells \<noteq> 0"
    using pos by (metis mult_eq_0_iff nat_eq_iff2 not_less_iff_gr_or_eq unat_0 zero_less_nat_eq)
  have count: "cell_count g' = nat cols * nat rows"
    using pos by (simp add: cell_count_def g')
  have "unat ?per = ceil_div (unat (grid_span g')) (cell_count g')"
    using unat_ceil [OF nz, of ?span] cells count by (simp add: grid_span_def g')
  then show "\<exists>v. unat v = ceil_div (unat (grid_span g')) (cell_count g') \<and> g_cell_bytes g' = clamped_pow2 v"
    by (intro exI [of _ ?per]) (simp add: g')
  obtain k where k: "6 \<le> k" "k \<le> 30" "clamped_pow2 ?per = 2 ^ k"
    using clamped_pow2_exp by blast
  have "countr_zero (unat ((2 :: u64) ^ k)) = k"
    using unat_two_power [of k, where 'a=64] k(2) by (simp add: countr_zero_pow2)
  then show "grid_ok g'"
    using pos dims k by (simp add: grid_ok_def g')
qed

lemma unat_minus: "(b :: 'a::len word) \<le> a \<Longrightarrow> unat (a - b) = unat a - unat b"
  by (rule unat_sub)

lemma covers_iff:
  assumes "grid_ok g" "g_valid g"
  shows "covers_whole_span g \<longleftrightarrow> unat (g_end g) - unat (g_base g) \<le> cell_count g * unat (g_cell_bytes g)"
proof -
  note D = grid_okD [OF assms]
  have nz: "g_cell_bytes g \<noteq> 0"
    using D(8) by auto
  have "unat (grid_span g) = unat (g_end g) - unat (g_base g)"
    using D(1) by (simp add: grid_span_def unat_minus less_imp_le)
  moreover have "unat (of_nat (cell_count g) :: u64) = cell_count g"
    using D(11) by (intro unat_of_nat_small) simp
  ultimately show ?thesis
    using assms(2) unat_ceil [OF nz, of "grid_span g"] ceil_div_le [of "unat (g_cell_bytes g)"] nz
    by (simp add: covers_whole_span_def Let_def word_le_nat_alt unat_gt_0)
qed

lemma index_of_iff:
  assumes "grid_ok g" "g_valid g"
  shows "index_of g addr = Some i \<longleftrightarrow> i < cell_count g \<and>
    unat (g_base g) + i * unat (g_cell_bytes g) \<le> unat addr \<and> unat addr < unat (g_base g) + Suc i * unat (g_cell_bytes g)"
proof (cases "addr < g_base g")
  case True
  then show ?thesis
    by (auto simp: index_of_def word_less_nat_alt)
next
  case False
  let ?c = "unat (g_cell_bytes g)" and ?d = "unat addr - unat (g_base g)"
  have le: "unat (g_base g) \<le> unat addr"
    using False by (simp add: word_less_nat_alt)
  have c: "0 < ?c" "?c = 2 ^ g_log2_cell_bytes g"
    using grid_okD(8) [OF assms] by simp_all
  have "unat (drop_bit (g_log2_cell_bytes g) (addr - g_base g)) = ?d div ?c"
    using False by (simp add: unat_drop_bit_div unat_minus not_less c(2))
  then have "index_of g addr = Some i \<longleftrightarrow> i < cell_count g \<and> ?d div ?c = i"
    using assms(2) False by (auto simp: index_of_def Let_def split: if_splits)
  also have "?d div ?c = i \<longleftrightarrow> i * ?c \<le> ?d \<and> ?d < Suc i * ?c"
    using c(1) div_nat_eqI [of ?c i ?d] div_times_less_eq_dividend [of ?d ?c] dividend_less_div_times [OF c(1), of ?d]
    by (auto simp: mult.commute)
  finally show ?thesis
    using le by (auto simp: algebra_simps)
qed

lemma index_of_less: "index_of g addr = Some i \<Longrightarrow> i < cell_count g"
  by (auto simp: index_of_def Let_def split: if_splits)

section \<open>Properties\<close>

text \<open>
  (C22) In a grid that \<open>configure\<close> accepted, an address is in cell \<open>i\<close> exactly when it lies in the \<open>i\<close>-th
  span of \<open>cell_bytes\<close> bytes above the base, and \<open>covers_whole_span\<close> reports exactly whether every
  address of the configured range has a cell.
\<close>

theorem grid_buckets:
  assumes "grid_configure g base end' cols rows = (True, g')" and "cols < 2 ^ 31" and "rows < 2 ^ 31"
  shows "(\<forall>addr i. index_of g' addr = Some i \<longleftrightarrow> i < nat cols * nat rows \<and>
      unat base + i * unat (g_cell_bytes g') \<le> unat addr \<and> unat addr < unat base + Suc i * unat (g_cell_bytes g')) \<and>
    (covers_whole_span g' \<longleftrightarrow> (\<forall>addr. base \<le> addr \<and> addr < end' \<longrightarrow> index_of g' addr \<noteq> None))"
proof -
  note cfg = configure_valid [OF assms]
  note D = grid_okD [OF cfg(1,2)]
  have iff: "index_of g' addr = Some i \<longleftrightarrow> i < nat cols * nat rows \<and>
      unat base + i * unat (g_cell_bytes g') \<le> unat addr \<and> unat addr < unat base + Suc i * unat (g_cell_bytes g')" for addr i
    using index_of_iff [OF cfg(1,2)] D(9) cfg by simp
  let ?c = "unat (g_cell_bytes g')" and ?n = "cell_count g'"
  have c: "0 < ?c"
    using D(8) by simp
  have lt: "unat base < unat end'"
    using D(1) cfg by (simp add: word_less_nat_alt)
  have cov: "covers_whole_span g' \<longleftrightarrow> unat end' - unat base \<le> ?n * ?c"
    using covers_iff [OF cfg(1,2)] cfg by simp
  have "index_of g' addr \<noteq> None" if "covers_whole_span g'" "base \<le> addr" "addr < end'" for addr
  proof -
    let ?i = "(unat addr - unat base) div ?c"
    have a: "unat base \<le> unat addr" "unat addr < unat end'"
      using that by (simp_all add: word_le_nat_alt word_less_nat_alt)
    then have "?i < ?n"
      using that(1) cov by (simp add: div_less_iff_less_mult c)
    moreover have "?i * ?c \<le> unat addr - unat base" "unat addr - unat base < Suc ?i * ?c"
      using dividend_less_div_times [OF c, of "unat addr - unat base"] by (simp_all add: mult.commute)
    then have "unat base + ?i * ?c \<le> unat addr" "unat addr < unat base + Suc ?i * ?c"
      using a(1) by linarith+
    ultimately have "index_of g' addr = Some ?i"
      using index_of_iff [OF cfg(1,2), of addr ?i] cfg(3) by simp
    then show ?thesis by simp
  qed
  moreover have "\<exists>addr. base \<le> addr \<and> addr < end' \<and> index_of g' addr = None" if "\<not> covers_whole_span g'"
  proof -
    have ge: "unat base + ?n * ?c \<le> unat (end' - 1)" and e1: "unat (end' - 1) = unat end' - 1"
      using that cov lt by (auto simp: unat_minus word_le_nat_alt)
    have "index_of g' (end' - 1) \<noteq> Some i" for i
    proof
      assume "index_of g' (end' - 1) = Some i"
      then have "i < ?n" "unat (end' - 1) < unat base + Suc i * ?c"
        using index_of_iff [OF cfg(1,2)] cfg by auto
      moreover have "Suc i * ?c \<le> ?n * ?c"
        using calculation(1) by (intro mult_le_mono1) simp
      ultimately show False
        using ge by linarith
    qed
    then show ?thesis
      using lt e1 by (intro exI [of _ "end' - 1"]) (auto simp: word_le_nat_alt word_less_nat_alt)
  qed
  ultimately show ?thesis
    using iff by blast
qed

theorem grid_buckets_witness:
  "index_of (snd (grid_configure grid_new 4096 8192 8 4)) 4352 = Some 2 \<and>
   covers_whole_span (snd (grid_configure grid_new 4096 8192 8 4))"
proof -
  have "grid_configure grid_new 4096 8192 8 4 = (True, snd (grid_configure grid_new 4096 8192 8 4))"
    by code_simp
  note g = grid_buckets [OF this]
  have "unat (g_cell_bytes (snd (grid_configure grid_new 4096 8192 8 4))) = 128"
    by code_simp
  then have "index_of (snd (grid_configure grid_new 4096 8192 8 4)) 4352 = Some 2"
    using g by simp
  moreover have "covers_whole_span (snd (grid_configure grid_new 4096 8192 8 4))"
    by code_simp
  ultimately show ?thesis by blast
qed


lemma pow2_between:
  assumes "2 ^ j < (2 :: nat) ^ k"
  shows "2 * 2 ^ j \<le> (2 :: nat) ^ k"
proof -
  have "j < k"
    using assms by (rule power_less_imp_less_exp [rotated]) simp
  then have "(2 :: nat) ^ Suc j \<le> 2 ^ k"
    by (intro power_increasing) simp_all
  then show ?thesis by simp
qed

text \<open>
  The granularity is the finest one: every smaller power of two of at least 64 bytes would leave
  some address of the range without a cell, and the whole range is covered whenever cells of one
  gigabyte would cover it.
\<close>

theorem grid_finest:
  assumes "grid_configure g base end' cols rows = (True, g')" and "cols < 2 ^ 31" and "rows < 2 ^ 31"
  shows "(\<forall>j. 6 \<le> j \<longrightarrow> 2 ^ j < unat (g_cell_bytes g') \<longrightarrow> cell_count g' * 2 ^ j < unat end' - unat base) \<and>
    (unat end' - unat base \<le> cell_count g' * 2 ^ 30 \<longrightarrow> covers_whole_span g')"
proof -
  note cfg = configure_valid [OF assms]
  note D = grid_okD [OF cfg(1,2)]
  let ?s = "unat end' - unat base" and ?n = "cell_count g'"
  obtain v where v: "unat v = ceil_div (unat (grid_span g')) ?n" "g_cell_bytes g' = clamped_pow2 v"
    using cfg(7) by blast
  have "unat (grid_span g') = ?s"
    using D(1) cfg by (simp add: grid_span_def unat_minus less_imp_le)
  then have le: "unat v \<le> q \<longleftrightarrow> ?s \<le> q * ?n" for q
    using v(1) D(10) by (simp add: ceil_div_le)
  have fine: "?n * 2 ^ j < ?s" if "6 \<le> j" "2 ^ j < unat (g_cell_bytes g')" for j
  proof -
    have "\<not> unat v \<le> 2 ^ j"
    proof (cases v rule: clamped_pow2_cases)
      case 1
      have "(2 :: nat) ^ 6 \<le> 2 ^ j"
        using that(1) by (intro power_increasing) simp_all
      then show ?thesis
        using 1 that(2) v(2) by simp
    next
      case 2
      then show ?thesis
        using that(2) v(2) by simp
    next
      case (3 k)
      then show ?thesis
        using that(2) v(2) pow2_between [of j k] by simp
    qed
    then show ?thesis
      using le [of "2 ^ j"] by (simp add: mult.commute)
  qed
  have cover: "covers_whole_span g'" if "?s \<le> ?n * 2 ^ 30"
  proof -
    have "unat v \<le> 2 ^ 30"
      using that le [of "2 ^ 30"] by (simp add: mult.commute)
    then have "unat v \<le> unat (g_cell_bytes g')"
      unfolding v(2) by (cases v rule: clamped_pow2_cases) auto
    then have "?s \<le> ?n * unat (g_cell_bytes g')"
      using le by (simp add: mult.commute)
    then show ?thesis
      using covers_iff [OF cfg(1,2)] cfg by simp
  qed
  show ?thesis
    using fine cover by blast
qed

theorem grid_finest_witness:
  "cell_count (snd (grid_configure grid_new 4096 8192 8 4)) * 2 ^ 6 < 8192 - 4096 \<and>
   covers_whole_span (snd (grid_configure grid_new 4096 8192 8 4))"
proof -
  have cfg: "grid_configure grid_new 4096 8192 8 4 = (True, snd (grid_configure grid_new 4096 8192 8 4))"
    by code_simp
  have eval: "unat (g_cell_bytes (snd (grid_configure grid_new 4096 8192 8 4))) = 128"
    "cell_count (snd (grid_configure grid_new 4096 8192 8 4)) = 32"
    by code_simp+
  have small: "(4 :: int) < 2 ^ 31" "(8 :: int) < 2 ^ 31"
    by simp_all
  note g = grid_finest [OF cfg small(2,1)]
  show ?thesis
    using g [THEN conjunct1, rule_format, of 6] g [THEN conjunct2] eval by simp
qed


lemma unat_row_offset:
  assumes "r * c * b < 2 ^ 64"
  shows "unat (of_nat r * of_nat c * of_nat b :: u64) = r * c * b"
proof -
  have "of_nat r * of_nat c * of_nat b = (of_nat (r * c * b) :: u64)"
    by simp
  then show ?thesis
    using assms unat_of_nat_small [of "r * c * b", where 'a=64] by simp
qed

text \<open>
  The row and column of a bucketed address are on the screen and give back its flat index, and
  the address the gutter prints for that row is the first address of the row: the bucketed address
  lies at or above it, by less than one row.
\<close>

theorem gutter_labels_row:
  assumes "grid_configure g base end' cols rows = (True, g')" and "cols < 2 ^ 31" and "rows < 2 ^ 31"
    and "index_of g' addr = Some i"
  shows "0 \<le> row_of g' i \<and> row_of g' i < rows \<and> 0 \<le> col_of g' i \<and> col_of g' i < cols \<and>
    row_of g' i * cols + col_of g' i = int i \<and> addr_of_row g' (row_of g' i) \<le> addr \<and>
    unat addr < unat (addr_of_row g' (row_of g' i)) + nat cols * unat (g_cell_bytes g')"
proof -
  note cfg = configure_valid [OF assms(1-3)]
  note D = grid_okD [OF cfg(1,2)]
  let ?C = "nat cols" and ?b = "unat (g_cell_bytes g')"
  let ?R = "i div ?C"
  have C: "0 < ?C" "int ?C = cols"
    using D(2) cfg by simp_all
  have i: "i < ?C * nat rows" "unat base + i * ?b \<le> unat addr" "unat addr < unat base + Suc i * ?b"
    using index_of_iff [OF cfg(1,2), of addr i] assms(4) D(9) cfg by simp_all
  have R: "?R < nat rows" "?R * ?C \<le> i" "i < ?R * ?C + ?C"
    using i(1) C dividend_less_div_times [OF C(1), of i] by (simp_all add: div_less_iff_less_mult mult.commute)
  have row: "row_of g' i = int ?R" "col_of g' i = int (i mod ?C)"
    using D(2) cfg by (simp_all add: row_of_def col_of_def)
  have off: "?R * ?C * ?b \<le> i * ?b"
    using R(2) by (rule mult_le_mono1)
  then have lt: "?R * ?C * ?b < 2 ^ 64"
  proof (rule le_less_trans)
    show "i * ?b < 2 ^ 64"
      using i(2) unat_lt_exp [of addr] by simp
  qed
  have "offset_of_row g' (int ?R) = of_nat ?R * of_nat ?C * of_nat ?b"
    using cfg D(2) by (simp add: offset_of_row_def)
  then have "unat (offset_of_row g' (int ?R)) = ?R * ?C * ?b"
    using unat_row_offset [OF lt] by simp
  moreover have "unat base + ?R * ?C * ?b < 2 ^ 64"
  proof (rule le_less_trans)
    show "unat base + ?R * ?C * ?b \<le> unat addr"
      using off i(2) by linarith
    show "unat addr < 2 ^ 64"
      using unat_lt_exp [of addr] by simp
  qed
  ultimately have first: "unat (addr_of_row g' (int ?R)) = unat base + ?R * ?C * ?b"
    using cfg(3) by (simp add: addr_of_row_def unat_word_ariths)
  have "Suc i * ?b \<le> (?R * ?C + ?C) * ?b"
    using R(3) by (intro mult_le_mono1) simp
  then have "unat addr < unat base + ?R * ?C * ?b + ?C * ?b"
    using i(3) by (simp add: distrib_right)
  moreover have "int ?R * int ?C + int (i mod ?C) = int i"
    by (metis div_mult_mod_eq of_nat_add of_nat_mult)
  then have "int ?R * cols + int (i mod ?C) = int i"
    by (simp only: C(2))
  moreover have "int (i mod ?C) < cols"
    using C by (metis mod_less_divisor of_nat_less_iff)
  moreover have "int ?R < rows"
    using R(1) by linarith
  moreover have "unat base + ?R * ?C * ?b \<le> unat addr"
    using off i(2) by linarith
  ultimately show ?thesis
    using row first by (simp add: word_le_nat_alt)
qed

theorem gutter_labels_row_witness:
  "addr_of_row (snd (grid_configure grid_new 4096 8192 8 4)) (row_of (snd (grid_configure grid_new 4096 8192 8 4)) 9) \<le> 5300"
proof -
  have cfg: "grid_configure grid_new 4096 8192 8 4 = (True, snd (grid_configure grid_new 4096 8192 8 4))"
    by code_simp
  have small: "(4 :: int) < 2 ^ 31" "(8 :: int) < 2 ^ 31"
    by simp_all
  have "index_of (snd (grid_configure grid_new 4096 8192 8 4)) 5300 = Some 9"
    by code_simp
  from gutter_labels_row [OF cfg small(2,1) this] show ?thesis
    by blast
qed

lemma scale_loop_spec:
  assumes "u \<le> 6" and "scale_loop v u r = (v', u', r')"
  shows "u \<le> u' \<and> u' \<le> 6 \<and> v' = v div 1024 ^ (u' - u) \<and> (v' < 1024 \<or> u' = 6) \<and> (r < 1024 \<longrightarrow> r' < 1024)"
  using assms
proof (induction v u r rule: scale_loop.induct)
  case (1 v u r)
  show ?case
  proof (cases "1024 \<le> v \<and> u < length kUnits - 1")
    case True
    then have u: "u < 6"
      by (simp add: kUnits_def)
    have rec: "scale_loop (v div 1024) (u + 1) (v mod 1024) = (v', u', r')"
      using "1.prems"(2) scale_loop.simps [of v u r] True by simp
    then have IH: "u + 1 \<le> u'" "u' \<le> 6" "v' = v div 1024 div 1024 ^ (u' - (u + 1))" "v' < 1024 \<or> u' = 6" "r' < 1024"
      using "1.IH" [OF True] u by auto
    have "u' - u = Suc (u' - (u + 1))"
      using IH(1) by simp
    then show ?thesis
      using IH by (simp add: div_mult2_eq)
  next
    case False
    then show ?thesis
      using "1.prems" scale_loop.simps [of v u r] by (auto simp: kUnits_def)
  qed
qed

lemma scale_bytes_spec:
  assumes "scale_bytes bytes = (unit, whole, tenths)"
  shows "unit \<le> 6" "whole < 1024" "tenths < 10" "tenths \<noteq> 0 \<Longrightarrow> whole < 10" "whole = unat bytes div 1024 ^ unit"
proof -
  obtain r where s: "scale_loop (unat bytes) 0 0 = (whole, unit, r)"
    and t: "tenths = (if unit > 0 \<and> whole < 10 then r * 10 div 1024 else 0)"
    using assms by (auto simp: scale_bytes_def split: prod.splits)
  have *: "unit \<le> 6" "whole = unat bytes div 1024 ^ unit" "whole < 1024 \<or> unit = 6" "r < 1024"
    using scale_loop_spec [OF _ s] by auto
  show "unit \<le> 6" "whole = unat bytes div 1024 ^ unit"
    using * by simp_all
  have "unat bytes < 2 ^ 64"
    using unat_lt_exp [of bytes] by simp
  then have "unat bytes div 1024 ^ 6 < 1024"
    by (simp add: div_less_iff_less_mult)
  then show "whole < 1024"
    using *(2,3) by auto
  show "tenths < 10" "tenths \<noteq> 0 \<Longrightarrow> whole < 10"
    using t *(4) by (auto simp: div_less_iff_less_mult split: if_splits)
qed

lemma length_unit: "u \<le> 6 \<Longrightarrow> length (kUnits ! u) \<le> 2"
  by (auto simp: kUnits_def le_Suc_eq numeral_eq_Suc)

text \<open>
  A gutter label is always exactly seven columns: the size text, never cut, preceded by spaces.
  The number in it is the offset in the chosen unit, rounded down, and has at most four digits.
\<close>

theorem format_offset_aligned:
  assumes "kGutterWidth < n"
  shows "\<exists>unit whole tenths. scale_bytes offset = (unit, whole, tenths) \<and>
    format_offset n offset = (Some (replicate (kGutterWidth - length (size_text [] (unit, whole, tenths))) (CHR '' '') @
      size_text [] (unit, whole, tenths)), kGutterWidth) \<and>
    length (size_text [] (unit, whole, tenths)) \<le> 6 \<and>
    whole * 1024 ^ unit \<le> unat offset \<and> unat offset < Suc whole * 1024 ^ unit \<and> whole < 1024"
proof -
  obtain unit whole tenths where s: "scale_bytes offset = (unit, whole, tenths)"
    by (cases "scale_bytes offset") auto
  note spec = scale_bytes_spec [OF s]
  have "length (dec_string whole) \<le> 4" "tenths \<noteq> 0 \<Longrightarrow> length (dec_string whole) \<le> 1" "length (dec_string tenths) \<le> 1"
    using length_dec_string [of whole 3] length_dec_string [of whole 0] length_dec_string [of tenths 0] spec by simp_all
  then have len: "length (size_text [] (unit, whole, tenths)) \<le> 6"
    using length_unit [OF spec(1)] by (auto simp: size_text_def)
  then have "format_offset n offset = (Some (replicate (kGutterWidth - length (size_text [] (unit, whole, tenths))) (CHR '' '') @
      size_text [] (unit, whole, tenths)), kGutterWidth)"
    using assms s by (simp add: format_offset_def Let_def kGutterWidth_def)
  moreover have "whole * 1024 ^ unit \<le> unat offset" "unat offset < Suc whole * 1024 ^ unit"
    unfolding spec(5) using dividend_less_div_times [of "1024 ^ unit" "unat offset"] by (simp_all add: mult.commute)
  ultimately show ?thesis
    using s len spec(2) by blast
qed

theorem format_offset_aligned_witness: "fst (format_offset 8 1536) = Some ''  1.5KB''"
proof -
  have w: "kGutterWidth < 8"
    by (simp add: kGutterWidth_def)
  obtain unit whole tenths where f: "scale_bytes 1536 = (unit, whole, tenths)"
    "format_offset 8 1536 = (Some (replicate (kGutterWidth - length (size_text [] (unit, whole, tenths))) (CHR '' '') @
      size_text [] (unit, whole, tenths)), kGutterWidth)"
    using format_offset_aligned [OF w, of 1536] by blast
  have "scale_bytes 1536 = (1, 1, 5)"
    by code_simp
  then have "(unit, whole, tenths) = (1, 1, 5)"
    using f(1) by simp
  moreover have "size_text [] (1, 1, 5) = ''1.5KB''"
    by code_simp
  ultimately show ?thesis
    unfolding f(2) by (simp add: kGutterWidth_def numeral_2_eq_2)
qed

end
