(* ===== verification/Interval_Search.thy ===== *)
theory Interval_Search
  imports Heapviz_Prelude
begin

text \<open>
  The binary search over ascending, disjoint half-open intervals that the scanner's \<open>find\<close> and the
  region map's two lookups share: \<open>lo\<close> and \<open>hi\<close> read the bounds of an element.
\<close>

function isearch :: "('a \<Rightarrow> 'k::linorder) \<Rightarrow> ('a \<Rightarrow> 'k) \<Rightarrow> 'a list \<Rightarrow> 'k \<Rightarrow> nat \<Rightarrow> nat \<Rightarrow> 'a option" where
  "isearch lo hi xs a l h =
     (if l < h then
        (let mid = l + (h - l) div 2; s = xs ! mid
         in if a < lo s then isearch lo hi xs a l mid
            else if a \<ge> hi s then isearch lo hi xs a (mid + 1) h
            else Some s)
      else None)"
  by pat_completeness auto
termination
  by (relation "measure (\<lambda>(lo, hi, xs, a, l, h). h - l)") auto

declare isearch.simps [simp del]

text \<open>Each interval ends at or before the next one begins.\<close>

definition ascending :: "('a \<Rightarrow> 'k::linorder) \<Rightarrow> ('a \<Rightarrow> 'k) \<Rightarrow> 'a list \<Rightarrow> bool" where
  "ascending lo hi xs \<longleftrightarrow> sorted_wrt (\<lambda>x y. hi x \<le> lo y) xs \<and> (\<forall>x \<in> set xs. lo x \<le> hi x)"

lemma ascending_nth:
  assumes "ascending lo hi xs" "i < j" "j < length xs"
  shows "hi (xs ! i) \<le> lo (xs ! j)"
  using assms by (auto simp: ascending_def sorted_wrt_iff_nth_less)

lemma isearch_sound:
  "isearch lo hi xs a l h = Some s \<Longrightarrow> h \<le> length xs \<Longrightarrow> \<exists>i. l \<le> i \<and> i < h \<and> s = xs ! i \<and> lo s \<le> a \<and> a < hi s"
proof (induction lo hi xs a l h rule: isearch.induct)
  case (1 lo hi xs a l h)
  let ?m = "l + (h - l) div 2"
  have lh: "l < h"
    using "1.prems"(1) by (subst (asm) isearch.simps) (simp split: if_splits)
  then have m: "l \<le> ?m" "?m < h"
    by auto
  consider "a < lo (xs ! ?m)" | "\<not> a < lo (xs ! ?m)" "a \<ge> hi (xs ! ?m)" | "\<not> a < lo (xs ! ?m)" "\<not> a \<ge> hi (xs ! ?m)"
    by blast
  then show ?case
  proof cases
    case 1
    then have "isearch lo hi xs a l ?m = Some s"
      using "1.prems"(1) lh by (simp add: isearch.simps [of lo hi xs a l h] Let_def)
    then obtain i where "l \<le> i" "i < ?m" "s = xs ! i" "lo s \<le> a" "a < hi s"
      using "1.IH"(1) [OF lh refl refl 1] "1.prems"(2) m by auto
    then show ?thesis
      using m by (intro exI [of _ i]) auto
  next
    case 2
    then have "isearch lo hi xs a (?m + 1) h = Some s"
      using "1.prems"(1) lh by (simp add: isearch.simps [of lo hi xs a l h] Let_def)
    then obtain i where "?m + 1 \<le> i" "i < h" "s = xs ! i" "lo s \<le> a" "a < hi s"
      using "1.IH"(2) [OF lh refl refl 2] "1.prems"(2) by auto
    then show ?thesis
      using m by (intro exI [of _ i]) auto
  next
    case 3
    then show ?thesis
      using "1.prems"(1) lh m by (intro exI [of _ ?m]) (auto simp: isearch.simps [of lo hi xs a l h] Let_def)
  qed
qed

lemma isearch_complete:
  "ascending lo hi xs \<Longrightarrow> h \<le> length xs \<Longrightarrow> l \<le> i \<Longrightarrow> i < h \<Longrightarrow> lo (xs ! i) \<le> a \<Longrightarrow> a < hi (xs ! i) \<Longrightarrow>
    isearch lo hi xs a l h = Some (xs ! i)"
proof (induction lo hi xs a l h rule: isearch.induct)
  case (1 lo hi xs a l h)
  let ?m = "l + (h - l) div 2"
  have lh: "l < h" and m: "l \<le> ?m" "?m < h"
    using "1.prems"(3,4) by auto
  have below: "i \<le> ?m" if "a < hi (xs ! ?m)"
    using ascending_nth [OF "1.prems"(1), of ?m i] that "1.prems" by (meson dual_order.strict_trans1 leD le_less_trans not_le)
  have above: "?m \<le> i" if "lo (xs ! ?m) \<le> a"
    using ascending_nth [OF "1.prems"(1), of i ?m] that "1.prems" m by (meson dual_order.strict_trans1 leD le_less_trans less_le_trans not_le)
  consider "a < lo (xs ! ?m)" | "\<not> a < lo (xs ! ?m)" "a \<ge> hi (xs ! ?m)" | "\<not> a < lo (xs ! ?m)" "\<not> a \<ge> hi (xs ! ?m)"
    by blast
  then show ?case
  proof cases
    case 1
    have "lo (xs ! ?m) \<le> hi (xs ! ?m)"
      using "1.prems"(1,2) m by (auto simp: ascending_def)
    then have "i \<noteq> ?m" "i \<le> ?m"
      using 1 below "1.prems"(5) by auto
    then have "isearch lo hi xs a l ?m = Some (xs ! i)"
      using "1.IH"(1) [OF lh refl refl 1 "1.prems"(1)] "1.prems" m by simp
    then show ?thesis
      using 1 lh by (simp add: isearch.simps [of lo hi xs a l h] Let_def)
  next
    case 2
    then have "i \<noteq> ?m" "?m \<le> i"
      using above "1.prems"(6) by auto
    then have "isearch lo hi xs a (?m + 1) h = Some (xs ! i)"
      using "1.IH"(2) [OF lh refl refl 2 "1.prems"(1)] "1.prems" by simp
    then show ?thesis
      using 2 lh by (simp add: isearch.simps [of lo hi xs a l h] Let_def)
  next
    case 3
    then have "i = ?m"
      using below above by (meson le_antisym not_le)
    then show ?thesis
      using 3 lh by (simp add: isearch.simps [of lo hi xs a l h] Let_def)
  qed
qed

lemma isearch_iff:
  assumes "ascending lo hi xs"
  shows "isearch lo hi xs a 0 (length xs) = Some s \<longleftrightarrow> s \<in> set xs \<and> lo s \<le> a \<and> a < hi s"
  using isearch_sound [of lo hi xs a 0 "length xs" s] isearch_complete [OF assms, of "length xs" 0 _ a]
  by (auto simp: in_set_conv_nth)


text \<open>The search sees nothing of an element but its bounds.\<close>

lemma isearch_map:
  "h \<le> length xs \<Longrightarrow>
    map_option f (isearch (\<lambda>x. lo (f x)) (\<lambda>x. hi (f x)) xs a l h) = isearch lo hi (map f xs) a l h"
proof (induction "h - l" arbitrary: l h rule: less_induct)
  case less
  show ?case
  proof (cases "l < h")
    case False
    then show ?thesis
      by (simp add: isearch.simps [where l = l])
  next
    case True
    let ?m = "l + (h - l) div 2"
    have m: "?m < h" "l \<le> ?m"
      using True by auto
    have "map_option f (isearch (\<lambda>x. lo (f x)) (\<lambda>x. hi (f x)) xs a l ?m) = isearch lo hi (map f xs) a l ?m"
      "map_option f (isearch (\<lambda>x. lo (f x)) (\<lambda>x. hi (f x)) xs a (?m + 1) h) = isearch lo hi (map f xs) a (?m + 1) h"
      using less.hyps [of ?m l] less.hyps [of h "?m + 1"] less.prems m by auto
    then show ?thesis
      using m less.prems True by (simp add: isearch.simps [where l = l and h = h] Let_def)
  qed
qed

end
