(* ===== verification/Proc_Maps.thy ===== *)
theory Proc_Maps
  imports Text_Format Interval_Search "HOL-Library.Monad_Syntax"
begin

text \<open>
  The memory map scanner of \<^verbatim>\<open>tui/proc_maps.h\<close> and \<^verbatim>\<open>tui/proc_maps.cpp\<close>. The cursor \<^verbatim>\<open>i\<close> into a line
  is the rest of the line; a parser returns \<open>None\<close> where the source returns false. Reading the file is
  outside the model: \<open>scan\<close> takes the status and the text \<^verbatim>\<open>read_all\<close> produced.
\<close>

section \<open>Data\<close>

definition kRescanIntervalMs :: u32 where "kRescanIntervalMs = 500"
definition kThreadArenaAlign :: u64 where "kThreadArenaAlign = push_bit 20 64"
definition kArenaLabelMax :: nat where "kArenaLabelMax = 32"

definition kPermRead :: u8 where "kPermRead = 1"
definition kPermWrite :: u8 where "kPermWrite = 2"
definition kPermExec :: u8 where "kPermExec = 4"
definition kPermPrivate :: u8 where "kPermPrivate = 8"

datatype region_kind = RHeap | RAnon | RStack | RFile | ROther

datatype scan_status = ScanOk | TargetGone | Denied | ReadFailed

record region =
  r_start :: u64
  r_end :: u64
  r_file_offset :: u64
  r_inode :: u64
  r_kind :: region_kind
  r_perms :: u8
  r_thread_arena :: bool

definition r_size :: "region \<Rightarrow> u64" where
  "r_size r = r_end r - r_start r"

definition r_contains :: "region \<Rightarrow> u64 \<Rightarrow> bool" where
  "r_contains r addr \<longleftrightarrow> addr \<ge> r_start r \<and> addr < r_end r"

definition allocatable :: "region \<Rightarrow> bool" where
  "allocatable r \<longleftrightarrow> r_kind r = RHeap \<or> r_kind r = RAnon"

record addr_range =
  ar_base :: u64
  ar_end :: u64

definition ar_empty :: "addr_range \<Rightarrow> bool" where
  "ar_empty b \<longleftrightarrow> ar_end b \<le> ar_base b"

definition ar_span :: "addr_range \<Rightarrow> u64" where
  "ar_span b = (if ar_empty b then 0 else ar_end b - ar_base b)"

section \<open>Fields of a line\<close>

definition hex_digit :: "char \<Rightarrow> nat option" where
  "hex_digit c =
     (let v = (of_char c :: nat)
      in if 48 \<le> v \<and> v \<le> 57 then Some (v - 48)
         else if 97 \<le> v \<and> v \<le> 102 then Some (v - 97 + 10)
         else if 65 \<le> v \<and> v \<le> 70 then Some (v - 65 + 10)
         else None)"

text \<open>The number of digits read so far, the value, and the rest of the line.\<close>

fun hex_run :: "nat \<Rightarrow> u64 \<Rightarrow> string \<Rightarrow> (nat \<times> u64 \<times> string) option" where
  "hex_run n v [] = Some (n, v, [])"
| "hex_run n v (c # cs) =
     (case hex_digit c of
        None \<Rightarrow> Some (n, v, c # cs)
      | Some d \<Rightarrow> if n \<ge> 16 then None else hex_run (n + 1) (push_bit 4 v OR of_nat d) cs)"

definition parse_hex :: "string \<Rightarrow> (u64 \<times> string) option" where
  "parse_hex s = do { (n, v, rest) \<leftarrow> hex_run 0 0 s; if n = 0 then None else Some (v, rest) }"

fun dec_run :: "nat \<Rightarrow> u64 \<Rightarrow> string \<Rightarrow> (nat \<times> u64 \<times> string) option" where
  "dec_run n v [] = Some (n, v, [])"
| "dec_run n v (c # cs) =
     (case digit_value c of
        None \<Rightarrow> Some (n, v, c # cs)
      | Some d \<Rightarrow> if v > (-1 - 9) div 10 then None else dec_run (n + 1) (v * 10 + of_nat d) cs)"

definition parse_dec :: "string \<Rightarrow> (u64 \<times> string) option" where
  "parse_dec s = do { (n, v, rest) \<leftarrow> dec_run 0 0 s; if n = 0 then None else Some (v, rest) }"

definition skip_spaces :: "string \<Rightarrow> string option" where
  "skip_spaces s = (let rest = dropWhile (\<lambda>c. c = CHR '' '') s in if length rest \<noteq> length s then Some rest else None)"

fun expect :: "char \<Rightarrow> string \<Rightarrow> string option" where
  "expect c [] = None"
| "expect c (x # xs) = (if x = c then Some xs else None)"

text \<open>The four permission characters.\<close>

fun parse_perms :: "(char \<times> u8) list \<Rightarrow> u8 \<Rightarrow> string \<Rightarrow> (u8 \<times> string) option" where
  "parse_perms [] perms s = Some (perms, s)"
| "parse_perms (b # bs) perms [] = None"
| "parse_perms (b # bs) perms (c # cs) =
     (if c = fst b then parse_perms bs (perms OR snd b) cs
      else if c = CHR ''-'' then parse_perms bs perms cs
      else if bs = [] \<and> c = CHR ''s'' then parse_perms bs perms cs
      else None)"

definition kLetters :: "(char \<times> u8) list" where
  "kLetters = [(CHR ''r'', kPermRead), (CHR ''w'', kPermWrite), (CHR ''x'', kPermExec), (CHR ''p'', kPermPrivate)]"

definition classify :: "string \<Rightarrow> u64 \<Rightarrow> u8 \<Rightarrow> region_kind" where
  "classify path inode perms =
     (if path = ''[heap]'' then RHeap
      else if path = ''[stack]'' then RStack
      else if path \<noteq> [] \<and> path ! 0 = CHR ''['' then ROther
      else if path \<noteq> [] \<or> inode \<noteq> 0 then RFile
      else (let want = kPermRead OR kPermWrite OR kPermPrivate
            in if perms AND want = want then RAnon else ROther))"

definition strip_newline :: "string \<Rightarrow> string" where
  "strip_newline line = rev (dropWhile (\<lambda>c. c = CHR 0x0A \<or> c = CHR 0x0D) (rev line))"

definition parse_maps_line :: "string \<Rightarrow> region option" where
  "parse_maps_line raw = do {
     let line = strip_newline raw;
     (start, s) \<leftarrow> parse_hex line;
     s \<leftarrow> expect (CHR ''-'') s;
     (end', s) \<leftarrow> parse_hex s;
     if end' < start then None else do {
       s \<leftarrow> skip_spaces s;
       (perms, s) \<leftarrow> parse_perms kLetters 0 s;
       s \<leftarrow> skip_spaces s;
       (off, s) \<leftarrow> parse_hex s;
       s \<leftarrow> skip_spaces s;
       (_, s) \<leftarrow> parse_hex s;
       s \<leftarrow> expect (CHR '':'') s;
       (_, s) \<leftarrow> parse_hex s;
       s \<leftarrow> skip_spaces s;
       (inode, s) \<leftarrow> parse_dec s;
       let path = dropWhile (\<lambda>c. c = CHR '' '') s;
       let kind = classify path inode perms;
       Some \<lparr>r_start = start, r_end = end', r_file_offset = off, r_inode = inode, r_kind = kind, r_perms = perms,
         r_thread_arena = (kind = RAnon \<and> start AND (kThreadArenaAlign - 1) = 0 \<and> end' - start \<le> kThreadArenaAlign)\<rparr>
     }
   }"

definition region_kind_str :: "region_kind \<Rightarrow> string" where
  "region_kind_str k = (case k of RHeap \<Rightarrow> ''heap'' | RAnon \<Rightarrow> ''anon'' | RStack \<Rightarrow> ''stack'' | RFile \<Rightarrow> ''file'' | ROther \<Rightarrow> ''other'')"

definition scan_status_str :: "scan_status \<Rightarrow> string" where
  "scan_status_str s = (case s of ScanOk \<Rightarrow> ''ok'' | TargetGone \<Rightarrow> ''target exited'' | Denied \<Rightarrow> ''permission denied''
     | ReadFailed \<Rightarrow> ''read failed'')"

text \<open>The label left in the buffer and the returned length.\<close>

definition format_arena_label :: "nat \<Rightarrow> bool \<Rightarrow> u32 \<Rightarrow> string option \<times> nat" where
  "format_arena_label n main_arena thread_arenas =
     (if n = 0 then (None, 0)
      else
        (let threads = dec_string (unat thread_arenas) @ '' thread'' @ (if thread_arenas = 1 then [] else ''s'');
             txt = (if main_arena \<and> thread_arenas = 0 then ''Main''
                    else if main_arena then ''Main + '' @ threads
                    else if thread_arenas \<noteq> 0 then threads
                    else ''None'')
         in if length txt \<ge> n then (Some [], 0) else (Some txt, length txt)))"

section \<open>The scanner\<close>

record maps_scanner =
  ms_pid :: int
  ms_regions :: "region list"
  ms_bounds :: addr_range
  ms_status :: scan_status
  ms_last_scan_ms :: u32
  ms_forced :: bool
  ms_main_arena :: bool
  ms_thread_arenas :: u32
  ms_scans :: nat
  ms_malformed :: nat

definition maps_scanner_new :: "int \<Rightarrow> maps_scanner" where
  "maps_scanner_new pid = \<lparr>ms_pid = pid, ms_regions = [], ms_bounds = \<lparr>ar_base = 0, ar_end = 0\<rparr>,
     ms_status = ScanOk, ms_last_scan_ms = 0, ms_forced = True, ms_main_arena = False,
     ms_thread_arenas = 0, ms_scans = 0, ms_malformed = 0\<rparr>"

definition widen :: "addr_range \<Rightarrow> region \<Rightarrow> addr_range" where
  "widen b r =
     (if \<not> allocatable r \<or> r_size r = 0 then b
      else if ar_empty b then \<lparr>ar_base = r_start r, ar_end = r_end r\<rparr>
      else \<lparr>ar_base = min (ar_base b) (r_start r), ar_end = max (ar_end b) (r_end r)\<rparr>)"

definition maps_rebuild :: "maps_scanner \<Rightarrow> u32 \<Rightarrow> maps_scanner" where
  "maps_rebuild m now_ms = m\<lparr>ms_bounds := fold (\<lambda>r b. widen b r) (ms_regions m) \<lparr>ar_base = 0, ar_end = 0\<rparr>,
     ms_last_scan_ms := now_ms, ms_forced := False, ms_scans := ms_scans m + 1\<rparr>"

definition note_line :: "maps_scanner \<Rightarrow> string \<Rightarrow> maps_scanner" where
  "note_line m line =
     (if line = [] then m
      else case parse_maps_line line of
        None \<Rightarrow> m\<lparr>ms_malformed := ms_malformed m + 1\<rparr>
      | Some r \<Rightarrow> m\<lparr>ms_main_arena := (ms_main_arena m \<or> r_kind r = RHeap),
          ms_thread_arenas := ms_thread_arenas m + (if r_thread_arena r then 1 else 0),
          ms_regions := ms_regions m @ [r]\<rparr>)"

function scan_lines :: "maps_scanner \<Rightarrow> string \<Rightarrow> maps_scanner" where
  "scan_lines m text =
     (if text = [] then m
      else (let line = takeWhile (\<lambda>c. c \<noteq> CHR 0x0A) text
            in scan_lines (note_line m line) (drop (length line + 1) text)))"
  by pat_completeness auto
termination
  by (relation "measure (\<lambda>(m, text). length text)") auto

declare scan_lines.simps [simp del]

definition scan_text :: "maps_scanner \<Rightarrow> string \<Rightarrow> u32 \<Rightarrow> scan_status \<times> maps_scanner" where
  "scan_text m text now_ms =
     (let m' = scan_lines (m\<lparr>ms_regions := [], ms_main_arena := False, ms_thread_arenas := 0\<rparr>) text
      in (ScanOk, maps_rebuild (m'\<lparr>ms_status := ScanOk\<rparr>) now_ms))"

definition maps_scan :: "maps_scanner \<Rightarrow> scan_status \<Rightarrow> string \<Rightarrow> u32 \<Rightarrow> scan_status \<times> maps_scanner" where
  "maps_scan m read_status text now_ms =
     (let st = (if read_status = ScanOk \<and> text = [] then TargetGone else read_status)
      in if st \<noteq> ScanOk then (st, m\<lparr>ms_status := st, ms_last_scan_ms := now_ms, ms_forced := False\<rparr>)
         else scan_text m text now_ms)"

definition maps_due :: "maps_scanner \<Rightarrow> u32 \<Rightarrow> bool" where
  "maps_due m now_ms \<longleftrightarrow> ms_forced m \<or> now_ms - ms_last_scan_ms m \<ge> kRescanIntervalMs"

definition note_address :: "maps_scanner \<Rightarrow> u64 \<Rightarrow> maps_scanner" where
  "note_address m addr =
     (if ms_forced m then m
      else if ms_status m = TargetGone then m
      else if ar_empty (ms_bounds m) \<or> addr < ar_base (ms_bounds m) \<or> addr \<ge> ar_end (ms_bounds m)
      then m\<lparr>ms_forced := True\<rparr> else m)"

definition maps_find :: "maps_scanner \<Rightarrow> u64 \<Rightarrow> region option" where
  "maps_find m addr = isearch r_start r_end (ms_regions m) addr 0 (length (ms_regions m))"


section \<open>Reading back a printed line\<close>

lemma hex_digit_char: "d < 16 \<Longrightarrow> hex_digit (hex_char d) = Some d"
  by (auto simp: hex_digit_def hex_char_def Let_def)

definition stops :: "(char \<Rightarrow> nat option) \<Rightarrow> string \<Rightarrow> bool" where
  "stops f s \<longleftrightarrow> (case s of [] \<Rightarrow> True | c # _ \<Rightarrow> f c = None)"

lemma hex_run_stop: "stops hex_digit s \<Longrightarrow> hex_run n v s = Some (n, v, s)"
  by (cases s) (simp_all add: stops_def)

lemma dec_run_stop: "stops digit_value s \<Longrightarrow> dec_run n v s = Some (n, v, s)"
  by (cases s) (simp_all add: stops_def)

lemma shift_or_digit:
  assumes "d < 16"
  shows "push_bit 4 v OR of_nat d = v * 16 + (of_nat d :: u64)"
proof -
  have "\<not> bit (of_nat d :: u64) n" if "4 \<le> n" for n
  proof -
    have "(16 :: nat) \<le> 2 ^ n"
      using power_increasing [OF that, of "2 :: nat"] by simp
    then have "\<not> bit d n"
      using assms by (simp add: bit_nat_div)
    then show ?thesis
      by (simp add: bit_simps)
  qed
  then have "push_bit 4 v AND (of_nat d :: u64) = 0"
    by (auto intro!: bit_word_eqI simp: bit_simps)
  then have "push_bit 4 v OR of_nat d = push_bit 4 v + (of_nat d :: u64)"
    by (simp add: disjunctive_add_eq_or)
  then show ?thesis
    by (simp add: push_bit_eq_mult)
qed

lemma hex_run_string:
  "n + length (hex_string k) \<le> 16 \<Longrightarrow>
    hex_run n 0 (hex_string k @ rest) = hex_run (n + length (hex_string k)) (of_nat k) rest"
proof (induction k arbitrary: rest rule: hex_string.induct)
  case (1 k)
  show ?case
  proof (cases "k < 16")
    case True
    then show ?thesis
      using "1.prems" by (simp add: hex_string.simps [of k] hex_digit_char)
  next
    case False
    have "n + length (hex_string (k div 16)) \<le> 15"
      using "1.prems" False by (simp add: hex_string.simps [of k])
    moreover have "of_nat (k div 16) * 16 + of_nat (k mod 16) = (of_nat k :: u64)"
      by (metis div_mult_mod_eq of_nat_add of_nat_mult of_nat_numeral)
    ultimately show ?thesis
      using "1.IH" [OF False] False shift_or_digit [of "k mod 16" "of_nat (k div 16)"]
      by (simp add: hex_string.simps [of k] hex_digit_char)
  qed
qed

text \<open>A zero-padded hexadecimal field.\<close>

definition hex_field :: "nat \<Rightarrow> nat \<Rightarrow> string" where
  "hex_field w k = replicate (w - length (hex_string k)) (CHR ''0'') @ hex_string k"

lemma hex_run_zeros: "n + z \<le> 16 \<Longrightarrow> hex_run n 0 (replicate z (CHR ''0'') @ s) = hex_run (n + z) 0 s"
  by (induction z arbitrary: n) (simp_all add: hex_digit_def)

lemma parse_hex_field:
  assumes "w \<le> 16" and "stops hex_digit rest"
  shows "parse_hex (hex_field w (unat v) @ rest) = Some (v, rest)"
proof -
  let ?s = "hex_string (unat v)"
  have "unat v < 16 ^ Suc 15"
    using unat_lt_exp [of v] by simp
  then have len: "length ?s \<le> 16"
    using length_hex_string [of "unat v" 15] by simp
  then have sum: "w - length ?s + length ?s \<le> 16"
    using assms(1) by linarith
  have "hex_run 0 0 (hex_field w (unat v) @ rest) = hex_run (w - length ?s) 0 (?s @ rest)"
    using hex_run_zeros [of 0 "w - length ?s"] sum by (simp add: hex_field_def)
  also have "\<dots> = Some (w - length ?s + length ?s, v, rest)"
    using hex_run_string [OF sum] hex_run_stop [OF assms(2)] by simp
  finally show ?thesis
    by (simp add: parse_hex_def)
qed

lemma dec_run_string:
  "k \<le> 18446744073709551609 \<Longrightarrow> dec_run n 0 (dec_string k @ rest) = dec_run (n + length (dec_string k)) (of_nat k) rest"
proof (induction k arbitrary: rest rule: dec_string.induct)
  case (1 k)
  show ?case
  proof (cases "k < 10")
    case True
    then show ?thesis
      by (simp add: dec_string.simps [of k] digit_value_char)
  next
    case False
    have le: "k div 10 \<le> 1844674407370955160"
      using "1.prems" by simp
    have "unat (of_nat (k div 10) :: u64) = k div 10"
      using le by (intro unat_of_nat_small) simp
    then have "\<not> (of_nat (k div 10) :: u64) > (-1 - 9) div 10"
      using le by (simp add: word_less_nat_alt unat_div_distrib)
    moreover have "of_nat (k div 10) * 10 + of_nat (k mod 10) = (of_nat k :: u64)"
      by (metis div_mult_mod_eq of_nat_add of_nat_mult of_nat_numeral)
    ultimately show ?thesis
      using "1.IH" [OF False] False le by (simp add: dec_string.simps [of k] digit_value_char)
  qed
qed

lemma parse_dec_string:
  assumes "unat v \<le> 18446744073709551609" and "stops digit_value rest"
  shows "parse_dec (dec_string (unat v) @ rest) = Some (v, rest)"
  using dec_run_string [OF assms(1), of 0 rest] dec_run_stop [OF assms(2)] by (simp add: parse_dec_def)


text \<open>
  A line as the kernel prints it: zero-padded hexadecimal addresses, four permission letters, the
  file offset, the device, the inode and the padded path.
\<close>

definition perm_text :: "bool \<Rightarrow> bool \<Rightarrow> bool \<Rightarrow> bool \<Rightarrow> string" where
  "perm_text r w x p = [if r then CHR ''r'' else CHR ''-'', if w then CHR ''w'' else CHR ''-'',
     if x then CHR ''x'' else CHR ''-'', if p then CHR ''p'' else CHR ''s'']"

definition perm_bits :: "bool \<Rightarrow> bool \<Rightarrow> bool \<Rightarrow> bool \<Rightarrow> u8" where
  "perm_bits r w x p = (if r then kPermRead else 0) OR (if w then kPermWrite else 0) OR
     (if x then kPermExec else 0) OR (if p then kPermPrivate else 0)"

definition maps_line :: "u64 \<Rightarrow> u64 \<Rightarrow> string \<Rightarrow> u64 \<Rightarrow> u64 \<Rightarrow> u64 \<Rightarrow> u64 \<Rightarrow> nat \<Rightarrow> string \<Rightarrow> string" where
  "maps_line start end' perms off dev_major dev_minor inode pad path =
     hex_field 8 (unat start) @ ''-'' @ hex_field 8 (unat end') @ '' '' @ perms @ '' '' @
     hex_field 8 (unat off) @ '' '' @ hex_field 2 (unat dev_major) @ '':'' @ hex_field 2 (unat dev_minor) @ '' '' @
     dec_string (unat inode) @ replicate pad (CHR '' '') @ path"

lemma hex_char_not_space: "d < 16 \<Longrightarrow> hex_char d \<noteq> CHR '' ''"
  using hex_digit_char [of d] by (auto simp: hex_digit_def)

lemma hex_string_first: "\<exists>d < 16. hd (hex_string k) = hex_char d"
proof (induction k rule: hex_string.induct)
  case (1 k)
  then show ?case
    by (cases "k < 16") (auto simp: hex_string.simps [of k])
qed

lemma dec_string_first: "\<exists>d < 10. hd (dec_string k) = digit_char d"
  using set_dec_string [of "hd (dec_string k)" k] by simp

lemma hex_field_first: "hd (hex_field w k) \<noteq> CHR '' ''" "hex_field w k \<noteq> []"
proof -
  obtain d where "d < 16" "hd (hex_string k) = hex_char d"
    using hex_string_first by blast
  then have "hd (hex_string k) \<noteq> CHR '' ''"
    using hex_char_not_space [of d] by simp
  then show "hd (hex_field w k) \<noteq> CHR '' ''" "hex_field w k \<noteq> []"
    by (simp_all add: hex_field_def hd_append)
qed

lemma skip_one_space:
  assumes "s \<noteq> []" "hd s \<noteq> CHR '' ''"
  shows "skip_spaces (CHR '' '' # s) = Some s"
  using assms by (cases s) (simp_all add: skip_spaces_def Let_def)

lemma skip_to_hex: "skip_spaces (CHR '' '' # hex_field w k @ s) = Some (hex_field w k @ s)"
  using hex_field_first [of w k] by (intro skip_one_space) (simp_all add: hd_append)

lemma skip_to_dec: "skip_spaces (CHR '' '' # dec_string k @ s) = Some (dec_string k @ s)"
proof (rule skip_one_space)
  obtain d where "d < 10" "hd (dec_string k) = digit_char d"
    using dec_string_first by blast
  then show "hd (dec_string k @ s) \<noteq> CHR '' ''"
    using digit_value_char [of d] by (auto simp: digit_value_def)
qed simp

lemma skip_to_perms: "skip_spaces (CHR '' '' # perm_text r w x p @ s) = Some (perm_text r w x p @ s)"
  by (intro skip_one_space) (simp_all add: perm_text_def)

lemma parse_perm_text: "parse_perms kLetters 0 (perm_text r w x p @ s) = Some (perm_bits r w x p, s)"
  by (cases r; cases w; cases x; cases p) (simp_all add: kLetters_def perm_text_def perm_bits_def or.assoc)

lemma drop_pad:
  assumes "path \<noteq> [] \<longrightarrow> hd path \<noteq> CHR '' ''"
  shows "dropWhile (\<lambda>c. c = CHR '' '') (replicate pad (CHR '' '') @ path) = path"
  using assms by (induction pad) (cases path, simp_all)+

definition line_tail_ok :: "nat \<Rightarrow> string \<Rightarrow> bool" where
  "line_tail_ok pad path \<longleftrightarrow> (path \<noteq> [] \<longrightarrow> 0 < pad \<and> hd path \<noteq> CHR '' '' \<and> last path \<noteq> CHR 0x0A \<and> last path \<noteq> CHR 0x0D)"

lemma strip_newline_id:
  "s \<noteq> [] \<Longrightarrow> last s \<noteq> CHR 0x0A \<Longrightarrow> last s \<noteq> CHR 0x0D \<Longrightarrow> strip_newline s = s"
  by (cases s rule: rev_cases) (simp_all add: strip_newline_def)

lemma strip_maps_line:
  assumes "line_tail_ok pad path"
  shows "strip_newline (maps_line start end' perms off dev_major dev_minor inode pad path) =
    maps_line start end' perms off dev_major dev_minor inode pad path"
proof -
  have "last (dec_string (unat inode)) \<in> set (dec_string (unat inode))"
    by simp
  then obtain d where d: "d < 10" "last (dec_string (unat inode)) = digit_char d"
    using set_dec_string by blast
  have "digit_char d \<noteq> CHR 0x0A" "digit_char d \<noteq> CHR 0x0D"
    using digit_value_char [OF d(1)] by (auto simp: digit_value_def)
  then have "last (dec_string (unat inode) @ replicate pad (CHR '' '') @ path) \<noteq> CHR 0x0A \<and>
      last (dec_string (unat inode) @ replicate pad (CHR '' '') @ path) \<noteq> CHR 0x0D"
    using assms d(2) by (cases "path = []"; cases "pad = 0") (auto simp: line_tail_ok_def last_append)
  then show ?thesis
    by (intro strip_newline_id) (simp_all add: maps_line_def last_append)
qed

text \<open>
  (C27) A line of the map in the kernel's format parses to exactly the fields that were printed, the
  permission bits included, with the kind its path, inode and permissions give; paths keep their
  spaces.
\<close>

theorem parse_maps_line_roundtrip:
  assumes "start \<le> end'" and "line_tail_ok pad path" and "unat inode \<le> 18446744073709551609"
  shows "\<exists>r. parse_maps_line (maps_line start end' (perm_text pr pw px pp) off dev_major dev_minor inode pad path) = Some r \<and>
    r_start r = start \<and> r_end r = end' \<and> r_file_offset r = off \<and> r_inode r = inode \<and>
    r_perms r = perm_bits pr pw px pp \<and> r_kind r = classify path inode (perm_bits pr pw px pp)"
proof -
  have tail: "stops digit_value (replicate pad (CHR '' '') @ path)"
    using assms(2) by (cases pad; cases path) (auto simp: stops_def line_tail_ok_def digit_value_def)
  have st: "stops hex_digit (CHR ''-'' # s)" "stops hex_digit (CHR '' '' # s)" "stops hex_digit (CHR '':'' # s)" for s
    by (simp_all add: stops_def hex_digit_def)
  have path: "dropWhile (\<lambda>c. c = CHR '' '') (replicate pad (CHR '' '') @ path) = path"
    using assms(2) by (intro drop_pad) (simp add: line_tail_ok_def)
  show ?thesis
    unfolding parse_maps_line_def strip_maps_line [OF assms(2)] Let_def
    unfolding maps_line_def
    using assms(1,3) tail path
    by (simp add: parse_hex_field st skip_to_hex skip_to_dec skip_to_perms parse_perm_text parse_dec_string not_less)
qed

theorem parse_maps_line_roundtrip_witness:
  "\<exists>r. parse_maps_line (maps_line 0x55a4c8e00000 0x55a4c8e21000 (perm_text True True False True) 0 0 0 0 5 ''[heap]'') = Some r \<and>
    r_start r = 0x55a4c8e00000 \<and> r_end r = 0x55a4c8e21000 \<and> r_file_offset r = 0 \<and> r_inode r = 0 \<and>
    r_perms r = perm_bits True True False True \<and> r_kind r = RHeap"
proof -
  have h: "(0x55a4c8e00000 :: u64) \<le> 0x55a4c8e21000" "line_tail_ok 5 ''[heap]''" "unat (0 :: u64) \<le> 18446744073709551609"
    by (simp_all add: line_tail_ok_def)
  have "classify ''[heap]'' 0 (perm_bits True True False True) = RHeap"
    by (simp add: classify_def)
  then show ?thesis
    using parse_maps_line_roundtrip [OF h, of True True False True 0 0 0] by simp
qed


section \<open>Scanning a map\<close>

text \<open>The non-empty lines of a text.\<close>

function text_lines :: "string \<Rightarrow> string list" where
  "text_lines text =
     (if text = [] then []
      else (let line = takeWhile (\<lambda>c. c \<noteq> CHR 0x0A) text
            in (if line = [] then [] else [line]) @ text_lines (drop (length line + 1) text)))"
  by pat_completeness auto
termination
  by (relation "measure length") auto

declare text_lines.simps [simp del]

lemma note_line_fold:
  "scan_lines m tx = fold (\<lambda>line m. note_line m line) (text_lines tx) m"
proof (induction m tx rule: scan_lines.induct)
  case (1 m tx)
  show ?case
  proof (cases "tx = []")
    case True
    then show ?thesis by (simp add: scan_lines.simps text_lines.simps)
  next
    case False
    then show ?thesis
      using "1.IH" [OF False refl] by (simp add: scan_lines.simps [of m tx] text_lines.simps [of tx] Let_def note_line_def)
  qed
qed

lemma fold_note_line:
  assumes "[] \<notin> set ls"
  shows "ms_regions (fold (\<lambda>line m. note_line m line) ls m) = ms_regions m @ List.map_filter parse_maps_line ls \<and>
    ms_malformed (fold (\<lambda>line m. note_line m line) ls m) = ms_malformed m + length (filter (\<lambda>l. parse_maps_line l = None) ls) \<and>
    ms_main_arena (fold (\<lambda>line m. note_line m line) ls m) = (ms_main_arena m \<or> (\<exists>r \<in> set (List.map_filter parse_maps_line ls). r_kind r = RHeap)) \<and>
    ms_thread_arenas (fold (\<lambda>line m. note_line m line) ls m) = ms_thread_arenas m + of_nat (length (filter r_thread_arena (List.map_filter parse_maps_line ls)))"
  using assms
proof (induction ls arbitrary: m)
  case (Cons l ls)
  then show ?case
    using Cons.IH [of "note_line m l"]
    by (cases "parse_maps_line l") (auto simp: note_line_def map_filter_simps)
qed (simp add: map_filter_simps)

lemma text_lines_nonempty: "[] \<notin> set (text_lines tx)"
proof (induction tx rule: text_lines.induct)
  case (1 tx)
  then show ?case
    by (cases "tx = []") (simp add: text_lines.simps, auto simp: text_lines.simps [of tx] Let_def)
qed

text \<open>
  A scan keeps exactly the regions of the lines that parse, in their order, counts every other
  non-empty line as malformed and nothing else, and reports the main arena and the number of thread
  arenas of what it kept: a torn line costs its own region only.
\<close>

theorem scan_text_torn_line:
  "ms_regions (snd (scan_text m tx now_ms)) = List.map_filter parse_maps_line (text_lines tx) \<and>
   ms_malformed (snd (scan_text m tx now_ms)) =
     ms_malformed m + length (filter (\<lambda>l. parse_maps_line l = None) (text_lines tx)) \<and>
   ms_main_arena (snd (scan_text m tx now_ms)) =
     (\<exists>r. r \<in> set (List.map_filter parse_maps_line (text_lines tx)) \<and> r_kind r = RHeap) \<and>
   ms_thread_arenas (snd (scan_text m tx now_ms)) =
     of_nat (length (filter r_thread_arena (List.map_filter parse_maps_line (text_lines tx))))"
  using fold_note_line [OF text_lines_nonempty, of tx "m\<lparr>ms_regions := [], ms_main_arena := False, ms_thread_arenas := 0\<rparr>"]
  by (auto simp: scan_text_def maps_rebuild_def Let_def note_line_fold)

section \<open>Bounds\<close>

lemma widen_covers:
  assumes "\<forall>r \<in> set rs. r_start r \<le> r_end r"
  shows "(r \<in> set rs \<and> allocatable r \<and> r_contains r a \<longrightarrow>
      ar_base (fold (\<lambda>r b. widen b r) rs b) \<le> a \<and> a < ar_end (fold (\<lambda>r b. widen b r) rs b)) \<and>
    (ar_base b \<le> a \<and> a < ar_end b \<longrightarrow>
      ar_base (fold (\<lambda>r b. widen b r) rs b) \<le> a \<and> a < ar_end (fold (\<lambda>r b. widen b r) rs b))"
  using assms
proof (induction rs arbitrary: b)
  case (Cons x xs)
  have x: "ar_base (widen b x) \<le> a \<and> a < ar_end (widen b x)" if "allocatable x" "r_contains x a"
  proof -
    have "r_size x \<noteq> 0"
      using that by (auto simp: r_size_def r_contains_def)
    then show ?thesis
      using that by (auto simp: widen_def r_contains_def min_def max_def)
  qed
  have b: "ar_base (widen b x) \<le> a \<and> a < ar_end (widen b x)" if "ar_base b \<le> a" "a < ar_end b"
    using that by (auto simp: widen_def ar_empty_def min_def max_def)
  show ?case
    using Cons.IH [of "widen b x"] Cons.prems x b by auto
qed simp

text \<open>
  After a scan of well-formed regions, an address inside any allocatable region is inside the
  bounds, so an event at that address does not force another scan.
\<close>

theorem bounds_cover_heap:
  assumes "\<forall>r \<in> set (ms_regions m). r_start r \<le> r_end r" and "r \<in> set (ms_regions m)"
    and "allocatable r" and "r_contains r addr"
  shows "ar_base (ms_bounds (maps_rebuild m now_ms)) \<le> addr \<and> addr < ar_end (ms_bounds (maps_rebuild m now_ms)) \<and>
    note_address (maps_rebuild m now_ms) addr = maps_rebuild m now_ms"
proof -
  have "ar_base (ms_bounds (maps_rebuild m now_ms)) \<le> addr \<and> addr < ar_end (ms_bounds (maps_rebuild m now_ms))"
    using widen_covers [OF assms(1)] assms(2-4) by (simp add: maps_rebuild_def)
  then show ?thesis
    by (auto simp: note_address_def ar_empty_def)
qed

definition demo_region :: region where
  "demo_region = \<lparr>r_start = 4096, r_end = 8192, r_file_offset = 0, r_inode = 0, r_kind = RHeap, r_perms = 11, r_thread_arena = False\<rparr>"

theorem bounds_cover_heap_witness:
  "ar_base (ms_bounds (maps_rebuild ((maps_scanner_new 7)\<lparr>ms_regions := [demo_region]\<rparr>) 0)) \<le> 5000"
proof -
  have h: "\<forall>r \<in> set (ms_regions ((maps_scanner_new 7)\<lparr>ms_regions := [demo_region]\<rparr>)). r_start r \<le> r_end r"
    "demo_region \<in> set (ms_regions ((maps_scanner_new 7)\<lparr>ms_regions := [demo_region]\<rparr>))"
    "allocatable demo_region" "r_contains demo_region 5000"
    by (simp_all add: demo_region_def allocatable_def r_contains_def)
  show ?thesis
    using bounds_cover_heap [OF h, of 0] by simp
qed

section \<open>Cadence\<close>

text \<open>
  A failed read of a finished target keeps the regions, bounds and arenas of the last scan, and
  from then on the target is polled only by the clock: no event forces a scan, and the next one is
  due exactly when 500 ms have passed, across the wrap of the 32-bit clock.
\<close>

theorem dead_target_backoff:
  assumes "maps_scan m read_status tx now_ms = (TargetGone, m')"
  shows "ms_regions m' = ms_regions m \<and> ms_bounds m' = ms_bounds m \<and> ms_main_arena m' = ms_main_arena m \<and>
    ms_thread_arenas m' = ms_thread_arenas m \<and>
    (\<forall>addrs d. maps_due (fold (\<lambda>a s. note_address s a) addrs m') (now_ms + d) \<longleftrightarrow> 500 \<le> d)"
proof -
  have m': "m' = m\<lparr>ms_status := TargetGone, ms_last_scan_ms := now_ms, ms_forced := False\<rparr>"
    using assms by (auto simp: maps_scan_def scan_text_def Let_def split: if_splits)
  then have "note_address m' a = m'" for a
    by (simp add: note_address_def)
  then have "fold (\<lambda>a s. note_address s a) addrs m' = m'" for addrs
    by (induction addrs) simp_all
  then show ?thesis
    by (simp add: m' maps_due_def kRescanIntervalMs_def)
qed

theorem dead_target_backoff_witness:
  "maps_due (snd (maps_scan (maps_scanner_new 7) TargetGone [] 0xFFFFFFF0)) (0xFFFFFFF0 + 500)"
proof -
  have "maps_scan (maps_scanner_new 7) TargetGone [] 0xFFFFFFF0 =
      (TargetGone, snd (maps_scan (maps_scanner_new 7) TargetGone [] 0xFFFFFFF0))"
    by (simp add: maps_scan_def)
  from dead_target_backoff [OF this, THEN conjunct2, THEN conjunct2, THEN conjunct2, THEN conjunct2, rule_format, of "[]" 500]
  show ?thesis by simp
qed


section \<open>Lookup\<close>

text \<open>
  On regions in ascending order, as the kernel emits them, the binary search returns the region
  that contains the address, and none exactly when no region does.
\<close>

theorem maps_find_correct:
  assumes "ascending r_start r_end (ms_regions m)"
  shows "maps_find m addr = Some r \<longleftrightarrow> r \<in> set (ms_regions m) \<and> r_contains r addr"
  using isearch_iff [OF assms, of addr r] by (auto simp: maps_find_def r_contains_def)

theorem maps_find_correct_witness:
  "maps_find ((maps_scanner_new 7)\<lparr>ms_regions := [demo_region, demo_region\<lparr>r_start := 8192, r_end := 12288\<rparr>]\<rparr>) 8200 =
    Some (demo_region\<lparr>r_start := 8192, r_end := 12288\<rparr>)"
proof -
  have "ascending r_start r_end (ms_regions ((maps_scanner_new 7)\<lparr>ms_regions := [demo_region, demo_region\<lparr>r_start := 8192, r_end := 12288\<rparr>]\<rparr>))"
    by (simp add: ascending_def demo_region_def)
  then show ?thesis
    by (subst maps_find_correct) (simp_all add: r_contains_def demo_region_def)
qed

end
