(* ===== verification/Address_Map_Spec.thy ===== *)
theory Address_Map_Spec
  imports Heapviz_Prelude
begin

text \<open>
  What a client of a coordinate translation relies on: the two directions are inverse to each other
  wherever they are defined, so a coordinate names at most one address. A cell of the display and the
  address its row is labelled with therefore speak of the same byte.
\<close>

locale address_map =
  fixes ok :: "'m \<Rightarrow> bool"
    and fwd :: "'m \<Rightarrow> 'a \<Rightarrow> 'b option"
    and bwd :: "'m \<Rightarrow> 'b \<Rightarrow> 'a option"
  assumes fwd_bwd: "ok m \<Longrightarrow> fwd m a = Some b \<Longrightarrow> bwd m b = Some a"
    and bwd_fwd: "ok m \<Longrightarrow> bwd m b = Some a \<Longrightarrow> fwd m a = Some b"
begin

lemma fwd_iff: "ok m \<Longrightarrow> fwd m a = Some b \<longleftrightarrow> bwd m b = Some a"
  using fwd_bwd bwd_fwd by blast

lemma fwd_inj: "ok m \<Longrightarrow> fwd m a = Some c \<Longrightarrow> fwd m b = Some c \<Longrightarrow> a = b"
  using fwd_bwd by (metis option.inject)

lemma fwd_bij: "ok m \<Longrightarrow> bij_betw (\<lambda>a. the (fwd m a)) {a. fwd m a \<noteq> None} {b. bwd m b \<noteq> None}"
proof (rule bij_betw_byWitness [where f' = "\<lambda>b. the (bwd m b)"])
  assume ok: "ok m"
  show "\<forall>a \<in> {a. fwd m a \<noteq> None}. the (bwd m (the (fwd m a))) = a"
    using fwd_bwd [OF ok] by auto
  show "\<forall>b \<in> {b. bwd m b \<noteq> None}. the (fwd m (the (bwd m b))) = b"
    using bwd_fwd [OF ok] by auto
  show "(\<lambda>a. the (fwd m a)) ` {a. fwd m a \<noteq> None} \<subseteq> {b. bwd m b \<noteq> None}"
    using fwd_bwd [OF ok] by fastforce
  show "(\<lambda>b. the (bwd m b)) ` {b. bwd m b \<noteq> None} \<subseteq> {a. fwd m a \<noteq> None}"
    using bwd_fwd [OF ok] by fastforce
qed

end

end
