(* ===== verification/Region_Map.thy ===== *)
theory Region_Map
  imports Proc_Maps Address_Map_Spec
begin

text \<open>
  The packed coordinate space of \<^verbatim>\<open>tui/region_map.h\<close> and \<^verbatim>\<open>tui/region_map.cpp\<close>: the allocatable
  regions laid end to end, with the translations between addresses and packed offsets.
\<close>

section \<open>Spans\<close>

record span =
  s_start :: u64
  s_end :: u64
  s_flat :: u64
  s_kind :: region_kind
  s_thread_arena :: bool

definition s_size :: "span \<Rightarrow> u64" where
  "s_size s = s_end s - s_start s"

definition contains_addr :: "span \<Rightarrow> u64 \<Rightarrow> bool" where
  "contains_addr s a \<longleftrightarrow> a \<ge> s_start s \<and> a < s_end s"

definition contains_flat :: "span \<Rightarrow> u64 \<Rightarrow> bool" where
  "contains_flat s f \<longleftrightarrow> f \<ge> s_flat s \<and> f < s_flat s + s_size s"

record region_map =
  rm_spans :: "span list"
  rm_total :: u64
  rm_repacks :: nat

definition region_map_new :: region_map where
  "region_map_new = \<lparr>rm_spans = [], rm_total = 0, rm_repacks = 0\<rparr>"

section \<open>Rebuilding\<close>

text \<open>The loop over the scan: the spans so far, the index, the packed offset and the changed flag.\<close>

definition rebuild_step :: "region \<Rightarrow> span list \<times> nat \<times> u64 \<times> bool \<Rightarrow> span list \<times> nat \<times> u64 \<times> bool" where
  "rebuild_step r st = (case st of (spans, i, flat, changed) \<Rightarrow>
     if \<not> allocatable r \<or> r_size r = 0 then (spans, i, flat, changed)
     else
       (let s = \<lparr>s_start = r_start r, s_end = r_end r, s_flat = flat, s_kind = r_kind r,
                 s_thread_arena = r_thread_arena r\<rparr>;
            (spans', changed') =
              (if i < length spans
               then (let old = spans ! i
                     in (spans[i := s], changed \<or> s_start old \<noteq> s_start s \<or> s_end old \<noteq> s_end s \<or> s_flat old \<noteq> s_flat s))
               else (spans @ [s], True))
        in (spans', i + 1, flat + s_size s, changed')))"

definition region_map_rebuild :: "region_map \<Rightarrow> region list \<Rightarrow> bool \<times> region_map" where
  "region_map_rebuild m regions =
     (case fold rebuild_step regions (rm_spans m, 0, 0, False) of (spans, i, flat, changed) \<Rightarrow>
        (let (spans', changed') = (if i < length spans then (take i spans, True) else (spans, changed))
         in (changed', m\<lparr>rm_spans := spans', rm_total := flat,
              rm_repacks := rm_repacks m + (if changed' then 1 else 0)\<rparr>)))"

definition region_map_clear :: "region_map \<Rightarrow> region_map" where
  "region_map_clear m = m\<lparr>rm_spans := [], rm_total := 0\<rparr>"

section \<open>Translation\<close>

definition span_at_addr :: "region_map \<Rightarrow> u64 \<Rightarrow> span option" where
  "span_at_addr m addr = isearch s_start s_end (rm_spans m) addr 0 (length (rm_spans m))"

definition span_at_flat :: "region_map \<Rightarrow> u64 \<Rightarrow> span option" where
  "span_at_flat m flat = isearch s_flat (\<lambda>s. s_flat s + s_size s) (rm_spans m) flat 0 (length (rm_spans m))"

definition to_flat :: "region_map \<Rightarrow> u64 \<Rightarrow> u64 option" where
  "to_flat m addr = map_option (\<lambda>s. s_flat s + (addr - s_start s)) (span_at_addr m addr)"

definition to_addr :: "region_map \<Rightarrow> u64 \<Rightarrow> u64 option" where
  "to_addr m flat = map_option (\<lambda>s. s_start s + (flat - s_flat s)) (span_at_flat m flat)"

definition is_boundary :: "region_map \<Rightarrow> u64 \<Rightarrow> bool" where
  "is_boundary m flat = (if flat = 0 then False else list_ex (\<lambda>s. s_flat s = flat) (rm_spans m))"

section \<open>The packed layout\<close>

definition kept :: "region list \<Rightarrow> region list" where
  "kept rs = filter (\<lambda>r. allocatable r \<and> r_size r \<noteq> 0) rs"

fun pack :: "u64 \<Rightarrow> region list \<Rightarrow> span list" where
  "pack flat [] = []"
| "pack flat (r # rs) = \<lparr>s_start = r_start r, s_end = r_end r, s_flat = flat, s_kind = r_kind r,
     s_thread_arena = r_thread_arena r\<rparr> # pack (flat + r_size r) rs"

definition total_size :: "region list \<Rightarrow> u64" where
  "total_size rs = (\<Sum>r\<leftarrow>rs. r_size r)"

lemma length_pack [simp]: "length (pack flat rs) = length rs"
  by (induction rs arbitrary: flat) simp_all

definition layout_of :: "span \<Rightarrow> u64 \<times> u64 \<times> u64" where
  "layout_of s = (s_start s, s_end s, s_flat s)"

lemma rebuild_step_fold:
  "i \<le> length spans \<Longrightarrow> fold rebuild_step rs (spans, i, flat, changed) =
    (take i spans @ pack flat (kept rs) @ drop (i + length (kept rs)) spans, i + length (kept rs),
     flat + total_size (kept rs),
     changed \<or> length spans < i + length (kept rs) \<or>
       map layout_of (take (length (kept rs)) (drop i spans)) \<noteq> map layout_of (pack flat (kept rs)))"
proof (induction rs arbitrary: spans i flat changed)
  case Nil
  then show ?case by (simp add: kept_def total_size_def)
next
  case (Cons r rs)
  let ?s = "\<lparr>s_start = r_start r, s_end = r_end r, s_flat = flat, s_kind = r_kind r, s_thread_arena = r_thread_arena r\<rparr>"
  show ?case
  proof (cases "allocatable r \<and> r_size r \<noteq> 0")
    case False
    then show ?thesis
      using Cons by (auto simp: kept_def rebuild_step_def)
  next
    case True
    have k: "kept (r # rs) = r # kept rs"
      using True by (simp add: kept_def)
    have tot: "flat + s_size ?s + total_size (kept rs) = flat + total_size (kept (r # rs))"
      by (simp add: k total_size_def r_size_def s_size_def)
    show ?thesis
    proof (cases "i < length spans")
      case lt: True
      have drop_i: "drop i spans = spans ! i # drop (Suc i) spans"
        using lt by (rule Cons_nth_drop_Suc [symmetric])
      have tk: "take (Suc i) (spans[i := ?s]) = take i spans @ [?s]"
        using lt by (simp add: take_Suc_conv_app_nth)
      show ?thesis
        using True lt Cons.IH [of "i + 1" "spans[i := ?s]"] tot
        by (auto simp: rebuild_step_def k Let_def tk drop_i layout_of_def r_size_def s_size_def)
    next
      case False
      then have i: "i = length spans"
        using Cons.prems by simp
      show ?thesis
        using True Cons.IH [of "Suc (length spans)" "spans @ [?s]"] tot
        by (simp add: rebuild_step_def k Let_def i r_size_def s_size_def)
    qed
  qed
qed

lemma rebuild_eq:
  "region_map_rebuild m rs =
    (map layout_of (rm_spans m) \<noteq> map layout_of (pack 0 (kept rs)),
     m\<lparr>rm_spans := pack 0 (kept rs), rm_total := total_size (kept rs),
       rm_repacks := rm_repacks m + (if map layout_of (rm_spans m) \<noteq> map layout_of (pack 0 (kept rs)) then 1 else 0)\<rparr>)"
proof -
  let ?k = "kept rs" and ?old = "rm_spans m"
  have len: "map layout_of ?old \<noteq> map layout_of (pack 0 ?k)" if "length ?old \<noteq> length ?k"
    using that by (metis length_map length_pack)
  consider "length ?k < length ?old" | "length ?k = length ?old" | "length ?old < length ?k"
    by linarith
  then show ?thesis
    by cases (use len in \<open>auto simp: region_map_rebuild_def rebuild_step_fold\<close>)
qed


section \<open>A well-formed layout\<close>

text \<open>
  Spans ascend in both coordinates, and a packed offset never exceeds the address it stands for, so
  that no packed bound wraps around.
\<close>

definition rm_ok :: "region_map \<Rightarrow> bool" where
  "rm_ok m \<longleftrightarrow> ascending s_start s_end (rm_spans m) \<and> ascending s_flat (\<lambda>s. s_flat s + s_size s) (rm_spans m) \<and>
     (\<forall>s \<in> set (rm_spans m). s_start s < s_end s \<and> s_flat s \<le> s_start s)"

lemma unat_span:
  assumes "s_start s < s_end s" "s_flat s \<le> s_start s"
  shows "unat (s_size s) = unat (s_end s) - unat (s_start s)" "unat (s_flat s + s_size s) = unat (s_flat s) + unat (s_size s)"
proof -
  show 1: "unat (s_size s) = unat (s_end s) - unat (s_start s)"
    using assms(1) by (simp add: s_size_def unat_sub less_imp_le)
  have "unat (s_flat s) + unat (s_size s) < 2 ^ 64"
    using assms 1 unat_lt_exp [of "s_end s"] by (simp add: word_less_nat_alt word_le_nat_alt)
  then show "unat (s_flat s + s_size s) = unat (s_flat s) + unat (s_size s)"
    by (simp add: unat_word_ariths)
qed

lemma translate_span:
  assumes s: "s_start s < s_end s" "s_flat s \<le> s_start s"
  shows "contains_addr s a \<Longrightarrow> contains_flat s (s_flat s + (a - s_start s)) \<and> s_start s + (s_flat s + (a - s_start s) - s_flat s) = a"
    and "contains_flat s f \<Longrightarrow> contains_addr s (s_start s + (f - s_flat s)) \<and> s_flat s + (s_start s + (f - s_flat s) - s_start s) = f"
proof -
  note u = unat_span [OF s]
  have lt: "unat (s_start s) < unat (s_end s)" "unat (s_flat s) \<le> unat (s_start s)"
    using s by (simp_all add: word_less_nat_alt word_le_nat_alt)
  show "contains_flat s (s_flat s + (a - s_start s)) \<and> s_start s + (s_flat s + (a - s_start s) - s_flat s) = a"
    if "contains_addr s a"
  proof -
    have a: "unat (s_start s) \<le> unat a" "unat a < unat (s_end s)" "unat (a - s_start s) = unat a - unat (s_start s)"
      using that by (simp_all add: contains_addr_def word_le_nat_alt word_less_nat_alt unat_sub)
    have "unat (s_flat s) + (unat a - unat (s_start s)) < 2 ^ 64"
      using a lt unat_lt_exp [of "s_end s"] by simp
    then have "unat (s_flat s + (a - s_start s)) = unat (s_flat s) + (unat a - unat (s_start s))"
      using a(3) by (simp add: unat_word_ariths)
    then show ?thesis
      unfolding contains_flat_def word_le_nat_alt word_less_nat_alt u using a(1,2) by auto
  qed
  show "contains_addr s (s_start s + (f - s_flat s)) \<and> s_flat s + (s_start s + (f - s_flat s) - s_start s) = f"
    if "contains_flat s f"
  proof -
    have f: "unat (s_flat s) \<le> unat f" "unat f < unat (s_flat s) + unat (s_size s)" "unat (f - s_flat s) = unat f - unat (s_flat s)"
      using that u(2) by (simp_all add: contains_flat_def word_le_nat_alt word_less_nat_alt unat_sub)
    have "unat (s_start s) + (unat f - unat (s_flat s)) < 2 ^ 64"
      using f u(1) lt unat_lt_exp [of "s_end s"] by simp
    then have "unat (s_start s + (f - s_flat s)) = unat (s_start s) + (unat f - unat (s_flat s))"
      using f(3) by (simp add: unat_word_ariths)
    then show ?thesis
      unfolding contains_addr_def word_le_nat_alt word_less_nat_alt using f(1,2) u(1) lt by auto
  qed
qed

lemma span_at_addr_iff:
  assumes "rm_ok m"
  shows "span_at_addr m a = Some s \<longleftrightarrow> s \<in> set (rm_spans m) \<and> contains_addr s a"
  using assms isearch_iff [of s_start s_end "rm_spans m" a s] by (auto simp: span_at_addr_def rm_ok_def contains_addr_def)

lemma span_at_flat_iff:
  assumes "rm_ok m"
  shows "span_at_flat m f = Some s \<longleftrightarrow> s \<in> set (rm_spans m) \<and> contains_flat s f"
  using assms isearch_iff [of s_flat "\<lambda>s. s_flat s + s_size s" "rm_spans m" f s]
  by (auto simp: span_at_flat_def rm_ok_def contains_flat_def)

lemma to_flat_to_addr:
  assumes ok: "rm_ok m" and "to_flat m a = Some f"
  shows "to_addr m f = Some a"
proof -
  obtain s where s: "span_at_addr m a = Some s" "f = s_flat s + (a - s_start s)"
    using assms(2) by (auto simp: to_flat_def)
  have mem: "s \<in> set (rm_spans m)" "contains_addr s a"
    using s(1) span_at_addr_iff [OF ok] by auto
  then have w: "s_start s < s_end s" "s_flat s \<le> s_start s"
    using ok by (auto simp: rm_ok_def)
  show ?thesis
    using translate_span(1) [OF w mem(2)] mem(1) span_at_flat_iff [OF ok, of f s] s(2) by (simp add: to_addr_def)
qed

lemma to_addr_to_flat:
  assumes ok: "rm_ok m" and "to_addr m f = Some a"
  shows "to_flat m a = Some f"
proof -
  obtain s where s: "span_at_flat m f = Some s" "a = s_start s + (f - s_flat s)"
    using assms(2) by (auto simp: to_addr_def)
  have mem: "s \<in> set (rm_spans m)" "contains_flat s f"
    using s(1) span_at_flat_iff [OF ok] by auto
  then have w: "s_start s < s_end s" "s_flat s \<le> s_start s"
    using ok by (auto simp: rm_ok_def)
  show ?thesis
    using translate_span(2) [OF w mem(2)] mem(1) span_at_addr_iff [OF ok, of a s] s(2) by (simp add: to_flat_def)
qed

interpretation packed: address_map rm_ok to_flat to_addr
  by unfold_locales (rule to_flat_to_addr to_addr_to_flat; assumption)+


section \<open>Rebuilding gives a well-formed layout\<close>

lemma ascending_Cons:
  "ascending lo hi (x # xs) \<longleftrightarrow> lo x \<le> hi x \<and> (\<forall>y \<in> set xs. hi x \<le> lo y) \<and> ascending lo hi xs"
  by (auto simp: ascending_def)

lemma ascending_filter: "ascending lo hi xs \<Longrightarrow> ascending lo hi (filter P xs)"
  by (auto simp: ascending_def sorted_wrt_filter)

lemma kept_positive:
  assumes "ascending r_start r_end rs" "r \<in> set (kept rs)"
  shows "r_start r < r_end r"
  using assms by (auto simp: kept_def ascending_def r_size_def)

lemma pack_spec:
  assumes "ascending r_start r_end rs" and "\<forall>r \<in> set rs. r_start r < r_end r" and "\<forall>r \<in> set rs. flat \<le> r_start r"
  shows "ascending s_start s_end (pack flat rs) \<and> ascending s_flat (\<lambda>s. s_flat s + s_size s) (pack flat rs) \<and>
    (\<forall>s \<in> set (pack flat rs). s_start s < s_end s \<and> s_flat s \<le> s_start s \<and> flat \<le> s_flat s) \<and>
    (\<lambda>s. (s_start s, s_end s)) ` set (pack flat rs) = (\<lambda>r. (r_start r, r_end r)) ` set rs"
  using assms
proof (induction rs arbitrary: flat)
  case Nil
  then show ?case by (simp add: ascending_def)
next
  case (Cons r rs)
  let ?s = "\<lparr>s_start = r_start r, s_end = r_end r, s_flat = flat, s_kind = r_kind r, s_thread_arena = r_thread_arena r\<rparr>"
  have w: "s_start ?s < s_end ?s" "s_flat ?s \<le> s_start ?s"
    using Cons.prems by simp_all
  note u = unat_span [OF w]
  have sz: "s_size ?s = r_size r"
    by (simp add: s_size_def r_size_def)
  have le: "flat \<le> flat + r_size r" "flat + r_size r \<le> r_end r"
    using u sz w by (auto simp: word_le_nat_alt word_less_nat_alt)
  have below: "\<forall>r' \<in> set rs. r_end r \<le> r_start r'"
    using Cons.prems(1) by (simp add: ascending_Cons)
  then have "\<forall>r' \<in> set rs. flat + r_size r \<le> r_start r'"
    using le(2) by (meson order_trans)
  then have IH: "ascending s_start s_end (pack (flat + r_size r) rs)"
    "ascending s_flat (\<lambda>s. s_flat s + s_size s) (pack (flat + r_size r) rs)"
    "\<forall>s \<in> set (pack (flat + r_size r) rs). s_start s < s_end s \<and> s_flat s \<le> s_start s \<and> flat + r_size r \<le> s_flat s"
    "(\<lambda>s. (s_start s, s_end s)) ` set (pack (flat + r_size r) rs) = (\<lambda>r. (r_start r, r_end r)) ` set rs"
    using Cons.IH [of "flat + r_size r"] Cons.prems by (auto simp: ascending_Cons)
  have starts: "\<forall>s \<in> set (pack (flat + r_size r) rs). r_end r \<le> s_start s"
  proof
    fix s assume "s \<in> set (pack (flat + r_size r) rs)"
    then have "(s_start s, s_end s) \<in> (\<lambda>r. (r_start r, r_end r)) ` set rs"
      using IH(4) by blast
    then show "r_end r \<le> s_start s"
      using below by auto
  qed
  have asc1: "ascending s_start s_end (pack flat (r # rs))"
    using IH(1) starts w by (simp add: ascending_Cons)
  have asc2: "ascending s_flat (\<lambda>s. s_flat s + s_size s) (pack flat (r # rs))"
    using IH(2,3) le(1) sz by (simp add: ascending_Cons)
  have "\<forall>s \<in> set (pack flat (r # rs)). s_start s < s_end s \<and> s_flat s \<le> s_start s \<and> flat \<le> s_flat s"
    using IH(3) w le(1) by (auto intro: order_trans)
  then show ?case
    using asc1 asc2 IH(4) by simp
qed

lemma rebuild_ok:
  assumes "ascending r_start r_end rs"
  shows "rm_ok (snd (region_map_rebuild m rs))"
    and "(\<lambda>s. (s_start s, s_end s)) ` set (rm_spans (snd (region_map_rebuild m rs))) = (\<lambda>r. (r_start r, r_end r)) ` set (kept rs)"
proof -
  have k: "ascending r_start r_end (kept rs)" "\<forall>r \<in> set (kept rs). r_start r < r_end r" "\<forall>r \<in> set (kept rs). 0 \<le> r_start r"
    using ascending_filter [OF assms] kept_positive [OF assms] by (simp_all add: kept_def)
  show "rm_ok (snd (region_map_rebuild m rs))"
    "(\<lambda>s. (s_start s, s_end s)) ` set (rm_spans (snd (region_map_rebuild m rs))) = (\<lambda>r. (r_start r, r_end r)) ` set (kept rs)"
    using pack_spec [OF k] by (simp_all add: rebuild_eq rm_ok_def)
qed

text \<open>Two layouts with the same bounds and offsets translate alike.\<close>

lemma to_flat_layout:
  "to_flat m x = map_option (\<lambda>(st, en, fl). fl + (x - st))
    (isearch fst (\<lambda>p. fst (snd p)) (map layout_of (rm_spans m)) x 0 (length (rm_spans m)))"
proof -
  have "to_flat m x = map_option (\<lambda>(st, en, fl). fl + (x - st)) (map_option layout_of
      (isearch (\<lambda>s. fst (layout_of s)) (\<lambda>s. fst (snd (layout_of s))) (rm_spans m) x 0 (length (rm_spans m))))"
    by (simp add: to_flat_def span_at_addr_def layout_of_def option.map_comp comp_def)
  then show ?thesis
    by (simp add: isearch_map [where f = layout_of and lo = fst and hi = "\<lambda>p. fst (snd p)"])
qed

lemma to_addr_layout:
  "to_addr m x = map_option (\<lambda>(st, en, fl). st + (x - fl))
    (isearch (\<lambda>p. snd (snd p)) (\<lambda>p. snd (snd p) + (fst (snd p) - fst p)) (map layout_of (rm_spans m)) x 0 (length (rm_spans m)))"
proof -
  have "to_addr m x = map_option (\<lambda>(st, en, fl). st + (x - fl)) (map_option layout_of
      (isearch (\<lambda>s. snd (snd (layout_of s))) (\<lambda>s. snd (snd (layout_of s)) + (fst (snd (layout_of s)) - fst (layout_of s)))
        (rm_spans m) x 0 (length (rm_spans m))))"
    by (simp add: to_addr_def span_at_flat_def layout_of_def s_size_def option.map_comp comp_def)
  then show ?thesis
    by (simp add: isearch_map [where f = layout_of and lo = "\<lambda>p. snd (snd p)" and hi = "\<lambda>p. snd (snd p) + (fst (snd p) - fst p)"])
qed

lemma same_layout:
  assumes "map layout_of (rm_spans m1) = map layout_of (rm_spans m2)"
  shows "to_flat m1 x = to_flat m2 x \<and> to_addr m1 x = to_addr m2 x"
proof -
  have "length (rm_spans m1) = length (rm_spans m2)"
    using assms by (metis length_map)
  then show ?thesis
    using assms by (simp add: to_flat_layout to_addr_layout)
qed

section \<open>Properties\<close>

text \<open>
  (C19) After repacking an ascending scan, the two translations are inverse to each other, an address
  has a packed offset exactly when it lies in a non-empty allocatable region, and translation is a
  bijection between those addresses and the packed offsets.
\<close>

theorem region_map_bijection:
  assumes "ascending r_start r_end rs" and "region_map_rebuild m rs = (changed, m')"
  shows "(\<forall>a f. to_flat m' a = Some f \<longleftrightarrow> to_addr m' f = Some a) \<and>
    (\<forall>a. to_flat m' a \<noteq> None \<longleftrightarrow> (\<exists>r. r \<in> set rs \<and> allocatable r \<and> r_contains r a)) \<and>
    bij_betw (\<lambda>a. the (to_flat m' a)) {a. to_flat m' a \<noteq> None} {f. to_addr m' f \<noteq> None}"
proof -
  have m': "m' = snd (region_map_rebuild m rs)"
    using assms(2) by simp
  have ok: "rm_ok m'"
    using rebuild_ok(1) [OF assms(1)] m' by simp
  have ex: "(\<exists>s. s \<in> set (rm_spans m') \<and> contains_addr s a) \<longleftrightarrow> (\<exists>r. r \<in> set rs \<and> allocatable r \<and> r_contains r a)" for a
  proof -
    have "(\<exists>s. s \<in> set (rm_spans m') \<and> contains_addr s a) \<longleftrightarrow>
        (\<exists>p \<in> (\<lambda>s. (s_start s, s_end s)) ` set (rm_spans m'). fst p \<le> a \<and> a < snd p)"
      by (auto simp: contains_addr_def)
    also have "\<dots> \<longleftrightarrow> (\<exists>r \<in> set (kept rs). r_contains r a)"
      unfolding m' rebuild_ok(2) [OF assms(1)] by (auto simp: r_contains_def)
    also have "\<dots> \<longleftrightarrow> (\<exists>r. r \<in> set rs \<and> allocatable r \<and> r_contains r a)"
      by (auto simp: kept_def r_contains_def r_size_def)
    finally show ?thesis .
  qed
  have "to_flat m' a \<noteq> None \<longleftrightarrow> (\<exists>s. span_at_addr m' a = Some s)" for a
    by (auto simp: to_flat_def)
  then show ?thesis
    using packed.fwd_iff [OF ok] packed.fwd_bij [OF ok] ex span_at_addr_iff [OF ok] by auto
qed

theorem region_map_bijection_witness:
  "to_addr (snd (region_map_rebuild region_map_new [demo_region, demo_region\<lparr>r_start := 65536, r_end := 69632\<rparr>])) 4100 = Some 65540"
proof -
  let ?rs = "[demo_region, demo_region\<lparr>r_start := 65536, r_end := 69632\<rparr>]"
  have asc: "ascending r_start r_end ?rs"
    by (simp add: ascending_def demo_region_def)
  have "region_map_rebuild region_map_new ?rs = (True, snd (region_map_rebuild region_map_new ?rs))"
    by code_simp
  note b = region_map_bijection [OF asc this, THEN conjunct1]
  have "to_flat (snd (region_map_rebuild region_map_new ?rs)) 65540 = Some 4100"
    by code_simp
  then show ?thesis
    using b by blast
qed

text \<open>
  The layout after a repack depends on the scan alone, repacking the same scan again reports no
  change, and a repack that reports no change leaves every translation as it was, so the aggregates
  cached under the old layout still hold.
\<close>

theorem rebuild_change_flag:
  "(\<forall>m2. rm_spans (snd (region_map_rebuild m rs)) = rm_spans (snd (region_map_rebuild m2 rs))) \<and>
   region_map_rebuild (snd (region_map_rebuild m rs)) rs = (False, snd (region_map_rebuild m rs)) \<and>
   (fst (region_map_rebuild m rs) \<or>
     (\<forall>x. to_flat (snd (region_map_rebuild m rs)) x = to_flat m x \<and> to_addr (snd (region_map_rebuild m rs)) x = to_addr m x))"
  using same_layout [of "snd (region_map_rebuild m rs)" m] by (auto simp: rebuild_eq)

end
