(* ===== verification/Chunk_Table.thy ===== *)
theory Chunk_Table
  imports Heapviz_Prelude "HOL-Library.Monad_Syntax" "HOL-Library.Product_Lexorder"
begin

text \<open>
  The live chunk table of \<^verbatim>\<open>src/tui/chunk_table.h\<close> and \<^verbatim>\<open>src/tui/chunk_table.cpp\<close>: an open-addressing
  Robin Hood table keyed by pointer, with backward-shift erasure, growth at 85% load and a bounded
  mode that evicts the oldest freed records. A loop of the source that has no bound of its own runs
  with as many steps as the table has slots; running out of them (\<open>None\<close>) is the loop that never
  ends. \<^verbatim>\<open>std::size_t\<close> counters are \<open>nat\<close>, and the wrap of \<open>slot - ideal\<close> is written out.
\<close>

section \<open>Data\<close>

datatype chunk_state = ChunkEmpty | ChunkLive | ChunkFreed

definition kChunkFlagRefined :: u8 where "kChunkFlagRefined = 1"
definition kChunkFlagMmapped :: u8 where "kChunkFlagMmapped = 2"
definition kChunkFlagNonMain :: u8 where "kChunkFlagNonMain = 4"

definition kHeaderFlagMask :: u8 where
  "kHeaderFlagMask = kChunkFlagMmapped OR kChunkFlagNonMain"

record chunk =
  c_key :: u64
  c_size :: u32
  c_usable :: u32
  c_alloc_ms :: u32
  c_free_ms :: u32
  c_tid :: u32
  c_state :: chunk_state
  c_flags :: u8
  c_overhead_exact :: u16

definition kEmptySlot :: chunk where
  "kEmptySlot = \<lparr>c_key = 0, c_size = 0, c_usable = 0, c_alloc_ms = 0, c_free_ms = 0, c_tid = 0,
     c_state = ChunkEmpty, c_flags = 0, c_overhead_exact = 0\<rparr>"

record table_stats =
  st_inserts :: nat
  st_updates :: nat
  st_erases :: nat
  st_rehashes :: nat
  st_evictions :: nat
  st_drops :: nat
  st_max_probe :: nat

record chunk_table =
  ct_slots :: "chunk list"
  ct_size :: nat
  ct_mask :: nat
  ct_shift :: nat
  ct_max_entries :: nat
  ct_freed_fifo :: "u64 list"
  ct_freed_head :: nat
  ct_freed_tail :: nat
  ct_stats :: table_stats

section \<open>Geometry\<close>

definition kFibonacci :: u64 where "kFibonacci = 0x9E3779B97F4A7C15"
definition kMinCapacity :: nat where "kMinCapacity = 16"
definition kLoadNumerator :: nat where "kLoadNumerator = 85"
definition kLoadDenominator :: nat where "kLoadDenominator = 100"

definition round_capacity :: "nat \<Rightarrow> nat" where
  "round_capacity n = (if n \<le> kMinCapacity then kMinCapacity else bit_ceil n)"

definition zero_stats :: table_stats where
  "zero_stats = \<lparr>st_inserts = 0, st_updates = 0, st_erases = 0, st_rehashes = 0, st_evictions = 0,
     st_drops = 0, st_max_probe = 0\<rparr>"

definition chunk_table_new :: "nat \<Rightarrow> chunk_table" where
  "chunk_table_new initial_capacity =
     (let cap = round_capacity initial_capacity
      in \<lparr>ct_slots = replicate cap kEmptySlot, ct_size = 0, ct_mask = cap - 1,
          ct_shift = 64 - countr_zero cap, ct_max_entries = 0, ct_freed_fifo = [],
          ct_freed_head = 0, ct_freed_tail = 0, ct_stats = zero_stats\<rparr>)"

definition ideal_slot :: "chunk_table \<Rightarrow> u64 \<Rightarrow> nat" where
  "ideal_slot t key = unat (drop_bit (ct_shift t) (key * kFibonacci))"

definition probe_distance :: "chunk_table \<Rightarrow> nat \<Rightarrow> nat" where
  "probe_distance t slot =
     ((slot + 2 ^ 64 - ideal_slot t (c_key (ct_slots t ! slot))) mod 2 ^ 64) AND ct_mask t"

lemma nat_and_le: "(a :: nat) AND b \<le> b"
proof -
  have "int (a AND b) = int a AND int b"
    by (simp add: and_nat_def)
  also have "\<dots> \<le> int b"
    by (rule AND_upper2) simp
  finally show ?thesis by simp
qed

lemma probe_distance_le: "probe_distance t slot \<le> ct_mask t"
  by (simp add: probe_distance_def nat_and_le)

section \<open>Lookup\<close>

text \<open>The pointer \<open>find\<close> returns is the index of a slot.\<close>

function find_loop :: "chunk_table \<Rightarrow> u64 \<Rightarrow> nat \<Rightarrow> nat \<Rightarrow> nat option" where
  "find_loop t key slot dist =
     (let cur = ct_slots t ! slot
      in if c_state cur = ChunkEmpty then None
         else if c_key cur = key then Some slot
         else if dist > probe_distance t slot then None
         else find_loop t key ((slot + 1) AND ct_mask t) (dist + 1))"
  by pat_completeness auto
termination
  by (relation "measure (\<lambda>(t, key, slot, dist). Suc (ct_mask t) - dist)")
    (auto simp: not_less dest!: order_trans [OF _ probe_distance_le])

declare find_loop.simps [simp del]

definition find :: "chunk_table \<Rightarrow> u64 \<Rightarrow> nat option" where
  "find t key = (if key = 0 \<or> ct_slots t = [] then None else find_loop t key (ideal_slot t key) 0)"

section \<open>Placement and growth\<close>

definition note_probe :: "nat \<Rightarrow> chunk_table \<Rightarrow> chunk_table" where
  "note_probe dist t =
     (if dist > st_max_probe (ct_stats t)
      then t\<lparr>ct_stats := (ct_stats t)\<lparr>st_max_probe := dist\<rparr>\<rparr> else t)"

fun place_loop :: "nat \<Rightarrow> chunk_table \<Rightarrow> chunk \<Rightarrow> nat \<Rightarrow> nat \<Rightarrow> chunk_table option" where
  "place_loop 0 t rec slot dist = None"
| "place_loop (Suc fuel) t rec slot dist =
     (let cur = ct_slots t ! slot
      in if c_state cur = ChunkEmpty
         then Some (note_probe dist (t\<lparr>ct_slots := (ct_slots t)[slot := rec]\<rparr>))
         else
           (let cur_dist = probe_distance t slot;
                (t', rec', dist') =
                  (if cur_dist < dist then (t\<lparr>ct_slots := (ct_slots t)[slot := rec]\<rparr>, cur, cur_dist)
                   else (t, rec, dist))
            in place_loop fuel (note_probe (dist' + 1) t') rec'
                 ((slot + 1) AND ct_mask t) (dist' + 1)))"

definition place :: "chunk_table \<Rightarrow> chunk \<Rightarrow> chunk_table option" where
  "place t rec = place_loop (length (ct_slots t)) t rec (ideal_slot t (c_key rec)) 0"

fun place_all :: "chunk_table \<Rightarrow> chunk list \<Rightarrow> chunk_table option" where
  "place_all t [] = Some t"
| "place_all t (c # cs) =
     (if c_state c \<noteq> ChunkEmpty then Option.bind (place t c) (\<lambda>t'. place_all t' cs)
      else place_all t cs)"

definition grow_to :: "chunk_table \<Rightarrow> nat \<Rightarrow> (bool \<times> chunk_table) option" where
  "grow_to t new_capacity =
     (let cap = round_capacity new_capacity
      in if cap \<le> length (ct_slots t) then Some (True, t)
         else do {
           t' \<leftarrow> place_all (t\<lparr>ct_slots := replicate cap kEmptySlot, ct_mask := cap - 1,
                    ct_shift := 64 - countr_zero cap\<rparr>) (ct_slots t);
           Some (True, t'\<lparr>ct_stats := (ct_stats t')\<lparr>st_rehashes := st_rehashes (ct_stats t') + 1\<rparr>\<rparr>)
         })"

definition reserve :: "chunk_table \<Rightarrow> nat \<Rightarrow> (bool \<times> chunk_table) option" where
  "reserve t entries =
     (let needed = (entries * kLoadDenominator) mod 2 ^ 64 div kLoadNumerator + 1
      in if needed \<le> length (ct_slots t) then Some (True, t)
         else grow_to t (round_capacity needed))"

definition clear :: "chunk_table \<Rightarrow> chunk_table" where
  "clear t = t\<lparr>ct_slots := map (\<lambda>_. kEmptySlot) (ct_slots t), ct_size := 0,
     ct_freed_head := 0, ct_freed_tail := 0\<rparr>"

section \<open>Erasure\<close>

fun shift_back :: "nat \<Rightarrow> chunk_table \<Rightarrow> nat \<Rightarrow> chunk_table option" where
  "shift_back 0 t i = None"
| "shift_back (Suc fuel) t i =
     (let j = (i + 1) AND ct_mask t
      in if c_state (ct_slots t ! j) = ChunkEmpty \<or> probe_distance t j = 0
         then Some (t\<lparr>ct_slots := (ct_slots t)[i := kEmptySlot]\<rparr>)
         else shift_back fuel (t\<lparr>ct_slots := (ct_slots t)[i := ct_slots t ! j]\<rparr>) j)"

definition erase :: "chunk_table \<Rightarrow> u64 \<Rightarrow> (bool \<times> chunk_table) option" where
  "erase t key = (case find t key of None \<Rightarrow> Some (False, t)
     | Some i \<Rightarrow> do {
         t' \<leftarrow> shift_back (length (ct_slots t)) t i;
         Some (True, t'\<lparr>ct_size := ct_size t' - 1,
           ct_stats := (ct_stats t')\<lparr>st_erases := st_erases (ct_stats t') + 1\<rparr>\<rparr>)
       })"

section \<open>The eviction queue\<close>

definition push_freed :: "chunk_table \<Rightarrow> u64 \<Rightarrow> chunk_table" where
  "push_freed t key =
     (if ct_freed_fifo t = [] then t
      else
        (let n = length (ct_freed_fifo t);
             tl' = (ct_freed_tail t + 1) mod n;
             t' = t\<lparr>ct_freed_fifo := (ct_freed_fifo t)[ct_freed_tail t := key], ct_freed_tail := tl'\<rparr>
         in if tl' = ct_freed_head t' then t'\<lparr>ct_freed_head := (ct_freed_head t' + 1) mod n\<rparr> else t'))"

text \<open>Each round of the loop consumes one queued key, so the length of the queue bounds it.\<close>

fun pop_loop :: "nat \<Rightarrow> chunk_table \<Rightarrow> (bool \<times> chunk_table) option" where
  "pop_loop 0 t = (if ct_freed_head t = ct_freed_tail t then Some (False, t) else None)"
| "pop_loop (Suc fuel) t =
     (if ct_freed_head t = ct_freed_tail t then Some (False, t)
      else
        (let key = ct_freed_fifo t ! ct_freed_head t;
             t' = t\<lparr>ct_freed_head := (ct_freed_head t + 1) mod length (ct_freed_fifo t)\<rparr>
         in case find t' key of
              None \<Rightarrow> pop_loop fuel t'
            | Some i \<Rightarrow>
                if c_state (ct_slots t' ! i) \<noteq> ChunkFreed then pop_loop fuel t'
                else do {
                  (_, t'') \<leftarrow> erase t' key;
                  Some (True, t''\<lparr>ct_stats := (ct_stats t'')\<lparr>st_evictions := st_evictions (ct_stats t'') + 1\<rparr>\<rparr>)
                }))"

definition pop_evictable :: "chunk_table \<Rightarrow> (bool \<times> chunk_table) option" where
  "pop_evictable t = pop_loop (length (ct_freed_fifo t)) t"

definition freed_by_age :: "chunk list \<Rightarrow> (u32 \<times> u64) list" where
  "freed_by_age cs = sort (map (\<lambda>c. (c_free_ms c, c_key c)) (filter (\<lambda>c. c_state c = ChunkFreed) cs))"

definition refill_freed_queue :: "chunk_table \<Rightarrow> chunk_table" where
  "refill_freed_queue t =
     (if ct_freed_fifo t = [] then t
      else
        (let freed = freed_by_age (ct_slots t);
             room = length (ct_freed_fifo t) - 1;
             n = (if length freed < room then length freed else room)
         in fold (\<lambda>p t. push_freed t (snd p)) (take n freed)
              (t\<lparr>ct_freed_head := 0, ct_freed_tail := 0\<rparr>)))"

definition make_room :: "chunk_table \<Rightarrow> (bool \<times> chunk_table) option" where
  "make_room t = do {
     (ok, t1) \<leftarrow> pop_evictable t;
     if ok then Some (True, t1) else pop_evictable (refill_freed_queue t1)
   }"

fun shrink_loop :: "nat \<Rightarrow> chunk_table \<Rightarrow> chunk_table option" where
  "shrink_loop 0 t = (if ct_size t > ct_max_entries t then None else Some t)"
| "shrink_loop (Suc fuel) t =
     (if ct_size t > ct_max_entries t then do {
        (ok, t') \<leftarrow> make_room t;
        if ok then shrink_loop fuel t' else Some t'
      } else Some t)"

definition set_max_entries :: "chunk_table \<Rightarrow> nat \<Rightarrow> chunk_table option" where
  "set_max_entries t n =
     (if n = 0
      then Some (t\<lparr>ct_max_entries := 0, ct_freed_fifo := [], ct_freed_head := 0, ct_freed_tail := 0\<rparr>)
      else shrink_loop (ct_size t) (refill_freed_queue
        (t\<lparr>ct_max_entries := n, ct_freed_fifo := replicate (n + 1) 0, ct_freed_head := 0, ct_freed_tail := 0\<rparr>)))"

section \<open>Updates\<close>

definition bump_drops :: "chunk_table \<Rightarrow> chunk_table" where
  "bump_drops t = t\<lparr>ct_stats := (ct_stats t)\<lparr>st_drops := st_drops (ct_stats t) + 1\<rparr>\<rparr>"

definition upd_slot :: "chunk_table \<Rightarrow> nat \<Rightarrow> (chunk \<Rightarrow> chunk) \<Rightarrow> chunk_table" where
  "upd_slot t i f = t\<lparr>ct_slots := (ct_slots t)[i := f (ct_slots t ! i)]\<rparr>"

definition live_chunk :: "u64 \<Rightarrow> u32 \<Rightarrow> u32 \<Rightarrow> u32 \<Rightarrow> u32 \<Rightarrow> chunk" where
  "live_chunk key sz us ms td = kEmptySlot\<lparr>c_key := key, c_size := sz, c_usable := us,
     c_alloc_ms := ms, c_free_ms := 0, c_tid := td, c_state := ChunkLive\<rparr>"

definition insert_live ::
    "chunk_table \<Rightarrow> u64 \<Rightarrow> u32 \<Rightarrow> u32 \<Rightarrow> u32 \<Rightarrow> u32 \<Rightarrow> (bool \<times> chunk_table) option" where
  "insert_live t key sz us ms td =
     (if key = 0 then Some (False, t)
      else case find t key of
        Some i \<Rightarrow>
          (let t' = upd_slot t i (\<lambda>c. c\<lparr>c_size := sz, c_usable := us, c_alloc_ms := ms, c_free_ms := 0,
                       c_tid := td, c_state := ChunkLive\<rparr>)
           in Some (True, t'\<lparr>ct_stats := (ct_stats t')\<lparr>st_updates := st_updates (ct_stats t') + 1\<rparr>\<rparr>))
      | None \<Rightarrow> do {
          (ok, t1) \<leftarrow> (if ct_max_entries t \<noteq> 0 \<and> ct_size t \<ge> ct_max_entries t
                       then make_room t else Some (True, t));
          if \<not> ok then Some (False, bump_drops t1)
          else do {
            (grown, t2) \<leftarrow> (if (ct_size t1 + 1) * kLoadDenominator > length (ct_slots t1) * kLoadNumerator
                            then grow_to t1 (length (ct_slots t1) * 2) else Some (True, t1));
            if \<not> grown then Some (False, bump_drops t2)
            else do {
              t3 \<leftarrow> place t2 (live_chunk key sz us ms td);
              Some (True, t3\<lparr>ct_size := ct_size t3 + 1,
                ct_stats := (ct_stats t3)\<lparr>st_inserts := st_inserts (ct_stats t3) + 1\<rparr>\<rparr>)
            }
          }
        })"

definition mark_refined :: "chunk_table \<Rightarrow> u64 \<Rightarrow> u32 \<Rightarrow> u8 \<Rightarrow> bool \<times> chunk_table" where
  "mark_refined t key exact_overhead header_flags =
     (if exact_overhead > 0xFFFF then (False, t)
      else case find t key of None \<Rightarrow> (False, t)
        | Some i \<Rightarrow> (True, upd_slot t i (\<lambda>c. c\<lparr>c_overhead_exact := ucast exact_overhead,
            c_flags := c_flags c OR kChunkFlagRefined OR (header_flags AND kHeaderFlagMask)\<rparr>)))"

definition clear_refined :: "chunk_table \<Rightarrow> chunk_table" where
  "clear_refined t = t\<lparr>ct_slots := map (\<lambda>c. c\<lparr>c_flags := c_flags c AND NOT (kChunkFlagRefined OR kHeaderFlagMask),
     c_overhead_exact := 0\<rparr>) (ct_slots t)\<rparr>"

definition mark_freed :: "chunk_table \<Rightarrow> u64 \<Rightarrow> u32 \<Rightarrow> bool \<times> chunk_table" where
  "mark_freed t key free_ms = (case find t key of None \<Rightarrow> (False, t)
     | Some i \<Rightarrow> (True, push_freed (upd_slot t i (\<lambda>c. c\<lparr>c_state := ChunkFreed, c_free_ms := free_ms\<rparr>)) key))"

end
