(* ===== verification/Robin_Hood.thy ===== *)
theory Robin_Hood
  imports Chunk_Table
begin

text \<open>
  The Robin Hood discipline on a slot array, independent of the rest of the table: \<open>ih\<close> is the home
  slot of a key, \<open>dst\<close> the distance of a record from its home. The run invariant is local: a
  displaced record has an occupied predecessor that is at most one step closer to its home. It makes
  the early exit of a lookup sound, and placement and backward shift both keep it.
\<close>

section \<open>Runs and keys\<close>

definition occ :: "chunk \<Rightarrow> bool" where
  "occ c \<longleftrightarrow> c_state c \<noteq> ChunkEmpty"

definition dst :: "(u64 \<Rightarrow> nat) \<Rightarrow> chunk list \<Rightarrow> nat \<Rightarrow> nat" where
  "dst ih xs i = cdist (length xs) i (ih (c_key (xs ! i)))"

definition rh_run :: "(u64 \<Rightarrow> nat) \<Rightarrow> chunk list \<Rightarrow> bool" where
  "rh_run ih xs \<longleftrightarrow> (\<forall>i < length xs. occ (xs ! i) \<longrightarrow> 0 < dst ih xs i \<longrightarrow>
     occ (xs ! prv (length xs) i) \<and> dst ih xs i \<le> Suc (dst ih xs (prv (length xs) i)))"

definition rh_keys :: "chunk list \<Rightarrow> bool" where
  "rh_keys xs \<longleftrightarrow> (\<forall>i < length xs. occ (xs ! i) \<longleftrightarrow> c_key (xs ! i) \<noteq> 0) \<and>
     (\<forall>i < length xs. \<forall>j < length xs. occ (xs ! i) \<longrightarrow> c_key (xs ! i) = c_key (xs ! j) \<longrightarrow> i = j)"

definition entries :: "chunk list \<Rightarrow> u64 \<rightharpoonup> chunk" where
  "entries xs = map_of (map (\<lambda>c. (c_key c, c)) (filter occ xs))"

lemma occ_kEmptySlot [simp]: "\<not> occ kEmptySlot" "c_key kEmptySlot = 0"
  by (simp_all add: occ_def kEmptySlot_def)

lemma rh_runD:
  "rh_run ih xs \<Longrightarrow> i < length xs \<Longrightarrow> occ (xs ! i) \<Longrightarrow> 0 < dst ih xs i \<Longrightarrow>
    occ (xs ! prv (length xs) i) \<and> dst ih xs i \<le> Suc (dst ih xs (prv (length xs) i))"
  by (simp add: rh_run_def)

lemma rh_keysD:
  assumes "rh_keys xs"
  shows "i < length xs \<Longrightarrow> occ (xs ! i) \<longleftrightarrow> c_key (xs ! i) \<noteq> 0"
    "i < length xs \<Longrightarrow> j < length xs \<Longrightarrow> occ (xs ! i) \<Longrightarrow> c_key (xs ! i) = c_key (xs ! j) \<Longrightarrow> i = j"
  using assms by (auto simp: rh_keys_def)

lemma entries_Some:
  assumes "rh_keys xs"
  shows "entries xs k = Some c \<longleftrightarrow> (\<exists>i < length xs. xs ! i = c \<and> occ c \<and> c_key c = k)"
proof -
  have "distinct (map c_key (filter occ xs))"
  proof -
    have "c_key (xs ! i) \<noteq> c_key (xs ! j)" if "i < length xs" "j < length xs" "i \<noteq> j" "occ (xs ! i)" for i j
      using rh_keysD(2) [OF assms] that by blast
    then have "distinct (map c_key (filter occ ys))" if "\<exists>zs. xs = zs @ ys" for ys
      using that
    proof (induction ys)
      case (Cons y ys)
      then obtain zs where zs: "xs = zs @ y # ys" by auto
      have "c_key y \<notin> c_key ` set (filter occ ys)" if "occ y"
      proof
        assume "c_key y \<in> c_key ` set (filter occ ys)"
        then obtain j where j: "j < length ys" "c_key (ys ! j) = c_key y" "occ (ys ! j)"
          by (auto simp: in_set_conv_nth)
        then show False
          using rh_keysD(2) [OF assms, of "length zs" "length zs + Suc j"] that
          by (simp add: zs nth_append)
      qed
      moreover have "\<exists>zs. xs = zs @ ys"
        using zs by (intro exI [of _ "zs @ [y]"]) simp
      ultimately show ?case
        using Cons by auto
    qed simp
    then show ?thesis by blast
  qed
  then have "distinct (map fst (map (\<lambda>c. (c_key c, c)) (filter occ xs)))"
    by (simp add: comp_def)
  then have "entries xs k = Some c \<longleftrightarrow> (k, c) \<in> set (map (\<lambda>c. (c_key c, c)) (filter occ xs))"
    by (simp add: entries_def)
  also have "\<dots> \<longleftrightarrow> (\<exists>i < length xs. xs ! i = c \<and> occ c \<and> c_key c = k)"
    by (auto simp: in_set_conv_nth)
  finally show ?thesis .
qed

lemma entries_None:
  assumes "rh_keys xs"
  shows "entries xs k = None \<longleftrightarrow> (\<forall>i < length xs. occ (xs ! i) \<longrightarrow> c_key (xs ! i) \<noteq> k)"
proof -
  have "entries xs k = None \<longleftrightarrow> (\<forall>c. entries xs k \<noteq> Some c)"
    by auto
  then show ?thesis
    by (auto simp: entries_Some [OF assms])
qed

lemma entries_nth: "rh_keys xs \<Longrightarrow> i < length xs \<Longrightarrow> occ (xs ! i) \<Longrightarrow> entries xs (c_key (xs ! i)) = Some (xs ! i)"
  by (auto simp: entries_Some)

lemma entries_zero: "rh_keys xs \<Longrightarrow> entries xs 0 = None"
  using rh_keysD(1) by (auto simp: entries_None)

text \<open>Every slot between the home of a displaced position and that position is occupied.\<close>

lemma run_before:
  assumes run: "rh_run ih xs" and h: "h < length xs" and slot: "slot < length xs"
    and pre: "0 < cdist (length xs) slot h \<longrightarrow> occ (xs ! prv (length xs) slot) \<and>
      cdist (length xs) slot h \<le> Suc (dst ih xs (prv (length xs) slot))"
    and s: "s < length xs" "cdist (length xs) s h < cdist (length xs) slot h"
  shows "occ (xs ! s) \<and> cdist (length xs) s h \<le> dst ih xs s"
  using s
proof (induction "cdist (length xs) slot h - Suc (cdist (length xs) s h)" arbitrary: s rule: less_induct)
  case less
  let ?n = "length xs"
  have "cdist ?n slot h < ?n"
    using slot by (intro cdist_less) auto
  then have next_dist: "cdist ?n (nxt ?n s) h = Suc (cdist ?n s h)"
    using less.prems h by (intro cdist_nxt) auto
  show ?case
  proof (cases "nxt ?n s = slot")
    case True
    then have "prv ?n slot = s"
      using less.prems(1) by auto
    with pre next_dist True show ?thesis
      by auto
  next
    case False
    have "cdist ?n (nxt ?n s) h \<noteq> cdist ?n slot h"
      using False less.prems(1) slot h by (simp add: cdist_inj)
    then have lt: "cdist ?n (nxt ?n s) h < cdist ?n slot h"
      using less.prems(2) next_dist by simp
    have "occ (xs ! nxt ?n s) \<and> cdist ?n (nxt ?n s) h \<le> dst ih xs (nxt ?n s)"
      using less.hyps [of "nxt ?n s"] lt next_dist less.prems by simp
    then show ?thesis
      using rh_runD [OF run, of "nxt ?n s"] less.prems(1) next_dist by auto
  qed
qed

lemma run_upto:
  assumes run: "rh_run ih xs" and j: "j < length xs" "occ (xs ! j)" and home: "ih (c_key (xs ! j)) < length xs"
    and s: "s < length xs" "cdist (length xs) s (ih (c_key (xs ! j))) \<le> dst ih xs j"
  shows "occ (xs ! s) \<and> cdist (length xs) s (ih (c_key (xs ! j))) \<le> dst ih xs s"
proof (cases "s = j")
  case True
  with j show ?thesis by (simp add: dst_def)
next
  case False
  let ?h = "ih (c_key (xs ! j))" and ?n = "length xs"
  have "cdist ?n s ?h \<noteq> cdist ?n j ?h"
    using False s(1) j home by (simp add: cdist_inj)
  then have "cdist ?n s ?h < cdist ?n j ?h"
    using s(2) by (simp add: dst_def)
  then show ?thesis
    using run_before [OF run home j(1) _ s(1)] rh_runD [OF run j] by (simp add: dst_def)
qed

section \<open>Putting a record into a slot\<close>

lemma dst_upd:
  "i < length xs \<Longrightarrow> slot < length xs \<Longrightarrow>
    dst ih (xs[slot := c]) i = (if i = slot then cdist (length xs) slot (ih (c_key c)) else dst ih xs i)"
  by (simp add: dst_def)

lemma rh_run_put:
  assumes run: "rh_run ih xs" and slot: "slot < length xs" and n: "1 < length xs" and c: "occ c"
    and pre: "0 < cdist (length xs) slot (ih (c_key c)) \<longrightarrow> occ (xs ! prv (length xs) slot) \<and>
      cdist (length xs) slot (ih (c_key c)) \<le> Suc (dst ih xs (prv (length xs) slot))"
    and steal: "occ (xs ! slot) \<longrightarrow> dst ih xs slot \<le> cdist (length xs) slot (ih (c_key c))"
  shows "rh_run ih (xs[slot := c])"
  unfolding rh_run_def
proof (intro allI impI)
  fix i
  let ?n = "length xs" and ?ys = "xs[slot := c]"
  assume i: "i < length ?ys" "occ (?ys ! i)" "0 < dst ih ?ys i"
  have ne: "prv ?n slot \<noteq> slot"
    using slot n by (auto simp: prv_if)
  show "occ (?ys ! prv (length ?ys) i) \<and> dst ih ?ys i \<le> Suc (dst ih ?ys (prv (length ?ys) i))"
  proof (cases "i = slot")
    case True
    then show ?thesis
      using i pre slot ne by (simp add: dst_upd)
  next
    case False
    then have old: "occ (xs ! i)" "0 < dst ih xs i" "dst ih ?ys i = dst ih xs i"
      using i slot by (simp_all add: dst_upd)
    then have "occ (xs ! prv ?n i)" "dst ih xs i \<le> Suc (dst ih xs (prv ?n i))"
      using rh_runD [OF run] i by auto
    then show ?thesis
      using i slot c steal old by (cases "prv ?n i = slot") (auto simp: dst_upd)
  qed
qed

lemma rh_keys_put:
  assumes keys: "rh_keys xs" and slot: "slot < length xs" and c: "occ c" "c_key c \<noteq> 0"
    and new: "\<forall>i < length xs. i \<noteq> slot \<longrightarrow> occ (xs ! i) \<longrightarrow> c_key (xs ! i) \<noteq> c_key c"
  shows "rh_keys (xs[slot := c])"
proof -
  have "occ (xs ! i)" if "i < length xs" "c_key (xs ! i) = c_key c" for i
    using rh_keysD(1) [OF keys] that c by auto
  then show ?thesis
    using keys slot c new by (auto simp: rh_keys_def nth_list_update)
qed

lemma entries_put:
  assumes keys: "rh_keys xs" and slot: "slot < length xs" and c: "occ c" "c_key c \<noteq> 0"
    and new: "\<forall>i < length xs. i \<noteq> slot \<longrightarrow> occ (xs ! i) \<longrightarrow> c_key (xs ! i) \<noteq> c_key c"
  shows "entries (xs[slot := c]) = ((entries xs)(c_key (xs ! slot) := None))(c_key c \<mapsto> c)"
proof (rule map_eqI_Some)
  fix k d
  note keys' = rh_keys_put [OF assms]
  show "entries (xs[slot := c]) k = Some d \<longleftrightarrow>
      (((entries xs)(c_key (xs ! slot) := None))(c_key c \<mapsto> c)) k = Some d"
  proof (cases "k = c_key c")
    case True
    then show ?thesis
      using new c slot by (auto simp: entries_Some [OF keys'] nth_list_update)
  next
    case False
    show ?thesis
    proof (cases "k = c_key (xs ! slot)")
      case True
      have "\<not> (occ (xs ! i) \<and> c_key (xs ! i) = k)" if "i < length xs" "i \<noteq> slot" for i
        using rh_keysD(2) [OF keys, of i slot] that slot True by auto
      then show ?thesis
        using False True slot by (auto simp: entries_Some [OF keys'] nth_list_update)
    next
      case other: False
      then show ?thesis
        using False slot by (auto simp: entries_Some [OF keys'] entries_Some [OF keys] nth_list_update)
    qed
  qed
qed

section \<open>Closing a gap\<close>

text \<open>
  During a backward shift the slot \<open>i\<close> is a hole: whatever it still holds has been removed or moved.
  The run invariant holds everywhere except across the hole, where the record behind it may be
  moved into it.
\<close>

definition hole_run :: "(u64 \<Rightarrow> nat) \<Rightarrow> chunk list \<Rightarrow> nat \<Rightarrow> bool" where
  "hole_run ih xs i \<longleftrightarrow>
     (\<forall>j < length xs. j \<noteq> i \<longrightarrow> j \<noteq> nxt (length xs) i \<longrightarrow> occ (xs ! j) \<longrightarrow> 0 < dst ih xs j \<longrightarrow>
        occ (xs ! prv (length xs) j) \<and> dst ih xs j \<le> Suc (dst ih xs (prv (length xs) j))) \<and>
     (occ (xs ! nxt (length xs) i) \<longrightarrow> 1 < dst ih xs (nxt (length xs) i) \<longrightarrow>
        occ (xs ! prv (length xs) i) \<and> dst ih xs (nxt (length xs) i) \<le> Suc (Suc (dst ih xs (prv (length xs) i))))"

lemma hole_runD:
  "hole_run ih xs i \<Longrightarrow> j < length xs \<Longrightarrow> j \<noteq> i \<Longrightarrow> j \<noteq> nxt (length xs) i \<Longrightarrow> occ (xs ! j) \<Longrightarrow>
    0 < dst ih xs j \<Longrightarrow> occ (xs ! prv (length xs) j) \<and> dst ih xs j \<le> Suc (dst ih xs (prv (length xs) j))"
  by (simp add: hole_run_def)

lemma hole_run_start:
  assumes "rh_run ih xs" and "i < length xs" and "occ (xs ! i)"
  shows "hole_run ih xs i"
proof -
  have "occ (xs ! prv (length xs) i) \<and>
      dst ih xs (nxt (length xs) i) \<le> Suc (Suc (dst ih xs (prv (length xs) i)))"
    if "occ (xs ! nxt (length xs) i)" "1 < dst ih xs (nxt (length xs) i)"
    using rh_runD [OF assms(1), of "nxt (length xs) i"] rh_runD [OF assms(1), of i] that assms(2,3) by auto
  then show ?thesis
    using assms rh_runD [OF assms(1)] by (auto simp: hole_run_def)
qed

lemma hole_run_stop:
  assumes hole: "hole_run ih xs i" and i: "i < length xs"
    and stop: "\<not> occ (xs ! nxt (length xs) i) \<or> dst ih xs (nxt (length xs) i) = 0"
    and n: "1 < length xs"
  shows "rh_run ih (xs[i := kEmptySlot])"
  unfolding rh_run_def
proof (intro allI impI)
  fix j
  let ?ys = "xs[i := kEmptySlot]" and ?n = "length xs"
  assume j: "j < length ?ys" "occ (?ys ! j)" "0 < dst ih ?ys j"
  have "j \<noteq> i"
    using j i by auto
  moreover have "j \<noteq> nxt ?n i"
    using j stop i calculation by (auto simp: dst_upd)
  moreover have "prv ?n j \<noteq> i"
    using calculation(2) j i prv_eq_iff [of i ?n j] by auto
  ultimately show "occ (?ys ! prv (length ?ys) j) \<and> dst ih ?ys j \<le> Suc (dst ih ?ys (prv (length ?ys) j))"
    using hole j i by (auto simp: hole_run_def dst_upd)
qed

lemma hole_run_step:
  assumes hole: "hole_run ih xs i" and i: "i < length xs" and n: "2 < length xs"
    and next_rec: "occ (xs ! nxt (length xs) i)" "0 < dst ih xs (nxt (length xs) i)"
    and home: "ih (c_key (xs ! nxt (length xs) i)) < length xs"
  shows "hole_run ih (xs[i := xs ! nxt (length xs) i]) (nxt (length xs) i)"
proof -
  let ?n = "length xs" and ?j = "nxt (length xs) i"
  let ?ys = "xs[i := xs ! ?j]"
  have j: "?j < ?n" "?j \<noteq> i" "prv ?n ?j = i" "nxt ?n ?j < ?n" "nxt ?n ?j \<noteq> i" "nxt ?n ?j \<noteq> ?j"
    using i n nxt_neq [of i ?n] nxt_neq [of ?j ?n] nxt_nxt_neq [of i ?n] by auto
  have d_i: "dst ih ?ys i = dst ih xs ?j - 1"
    using cdist_prv [of ?j ?n "ih (c_key (xs ! ?j))"] j home next_rec i by (simp add: dst_upd) (simp add: dst_def)
  have prv_i: "prv ?n i \<noteq> i" "prv ?n i < ?n"
    using i n by (auto simp: prv_if)
  have local: "occ (?ys ! prv ?n k) \<and> dst ih ?ys k \<le> Suc (dst ih ?ys (prv ?n k))"
    if k: "k < ?n" "k \<noteq> ?j" "k \<noteq> nxt ?n ?j" "occ (?ys ! k)" "0 < dst ih ?ys k" for k
  proof (cases "k = i")
    case True
    then have "1 < dst ih xs ?j"
      using k(5) d_i by simp
    then show ?thesis
      using hole next_rec True d_i prv_i i by (auto simp: hole_run_def dst_upd)
  next
    case False
    then have "prv ?n k \<noteq> i" "prv ?n k < ?n"
      using k i prv_eq_iff [of i ?n k] by auto
    then show ?thesis
      using hole k False i by (auto simp: hole_run_def dst_upd)
  qed
  moreover have "dst ih ?ys (nxt ?n ?j) \<le> Suc (Suc (dst ih ?ys i))"
    if "occ (?ys ! nxt ?n ?j)" "1 < dst ih ?ys (nxt ?n ?j)"
  proof -
    have same: "dst ih ?ys (nxt ?n ?j) = dst ih xs (nxt ?n ?j)" "?ys ! nxt ?n ?j = xs ! nxt ?n ?j"
      using j i by (auto simp: dst_upd)
    then have "dst ih xs (nxt ?n ?j) \<le> Suc (dst ih xs (prv ?n (nxt ?n ?j)))"
      using hole_runD [OF hole j(4-6)] that by simp
    moreover have "prv ?n (nxt ?n ?j) = ?j"
      using j(1) by (rule prv_nxt)
    ultimately show ?thesis
      using d_i next_rec(2) same by simp
  qed
  ultimately show ?thesis
    using next_rec i j by (auto simp: hole_run_def)
qed

text \<open>Moving a record into the hole changes where it is, not what the table holds.\<close>

lemma hole_move:
  assumes keys: "rh_keys (xs[i := kEmptySlot])" and i: "i < length xs" "j < length xs" "i \<noteq> j"
  shows "rh_keys ((xs[i := xs ! j])[j := kEmptySlot])"
    and "entries ((xs[i := xs ! j])[j := kEmptySlot]) = entries (xs[i := kEmptySlot])"
proof -
  let ?x = "xs[i := kEmptySlot]" and ?y = "(xs[i := xs ! j])[j := kEmptySlot]"
  define f where "f k = (if k = i then j else if k = j then i else k)" for k
  have swap: "?y ! k = ?x ! f k" "f k < length xs" "f (f k) = k" if "k < length xs" for k
    using that i by (auto simp: nth_list_update f_def)
  have inj: "f k = f l \<Longrightarrow> k = l" for k l
    by (auto simp: f_def split: if_splits)
  show k': "rh_keys ?y"
    unfolding rh_keys_def
  proof (intro conjI allI impI)
    fix k
    assume "k < length ?y"
    then show "occ (?y ! k) \<longleftrightarrow> c_key (?y ! k) \<noteq> 0"
      using swap [of k] rh_keysD(1) [OF keys, of "f k"] by simp
  next
    fix k l
    assume kl: "k < length ?y" "l < length ?y" "occ (?y ! k)" "c_key (?y ! k) = c_key (?y ! l)"
    then have "f k = f l"
      using swap(1,2) [of k] swap(1,2) [of l] by (intro rh_keysD(2) [OF keys]) (auto simp del: nth_list_update)
    then show "k = l"
      by (rule inj)
  qed
  show "entries ?y = entries ?x"
  proof (rule map_eqI_Some)
    fix key c
    have "(\<exists>k < length xs. ?y ! k = c) \<longleftrightarrow> (\<exists>k < length xs. ?x ! k = c)"
      using swap by metis
    then show "entries ?y key = Some c \<longleftrightarrow> entries ?x key = Some c"
      unfolding entries_Some [OF k'] entries_Some [OF keys] by auto
  qed
qed

end
