(* ===== verification/Chunk_Index.thy ===== *)
theory Chunk_Index
  imports Robin_Hood
begin

text \<open>
  The chunk table implements a finite map from pointers to records. The table invariant ties the
  mask and the hash shift to a power-of-two slot count, keeps the Robin Hood discipline, and keeps
  the load below 85% so that every probe meets an empty slot.
\<close>

section \<open>Geometry\<close>

definition ct_geom :: "chunk_table \<Rightarrow> bool" where
  "ct_geom t \<longleftrightarrow> (\<exists>k. 4 \<le> k \<and> k \<le> 64 \<and> length (ct_slots t) = 2 ^ k \<and>
     ct_mask t = 2 ^ k - 1 \<and> ct_shift t = 64 - k)"

lemma round_capacity_pow2: "\<exists>k. 4 \<le> k \<and> round_capacity n = 2 ^ k"
proof (cases "n \<le> kMinCapacity")
  case True
  then show ?thesis
    by (intro exI [of _ 4]) (simp add: round_capacity_def kMinCapacity_def)
next
  case False
  obtain k where k: "bit_ceil n = 2 ^ k"
    using bit_ceil_pow2 by blast
  have "(2 :: nat) ^ 4 < 2 ^ k"
    using False bit_ceil_ge [of n] by (simp add: kMinCapacity_def flip: k)
  then have "4 < k"
    by (rule power_less_imp_less_exp [rotated]) simp
  with False k show ?thesis
    by (intro exI [of _ k]) (simp add: round_capacity_def)
qed

lemma ct_geomE:
  assumes "ct_geom t"
  obtains k where "4 \<le> k" "k \<le> 64" "length (ct_slots t) = 2 ^ k" "ct_mask t = 2 ^ k - 1" "ct_shift t = 64 - k"
  using assms by (auto simp: ct_geom_def)

lemma ct_geom_length: "ct_geom t \<Longrightarrow> 16 \<le> length (ct_slots t)"
  using power_increasing [of 4 _ "2 :: nat"] by (auto simp: ct_geom_def)

lemma ct_step: "ct_geom t \<Longrightarrow> (slot + 1) AND ct_mask t = nxt (length (ct_slots t)) slot"
  by (auto simp: ct_geom_def nxt_def nat_and_mask simp del: One_nat_def)

lemma ideal_slot_less:
  assumes "ct_geom t"
  shows "ideal_slot t key < length (ct_slots t)"
proof -
  obtain k where k: "k \<le> 64" "length (ct_slots t) = 2 ^ k" "ct_shift t = 64 - k"
    using assms by (auto simp: ct_geom_def)
  have "unat (key * kFibonacci) < 2 ^ k * 2 ^ (64 - k)"
    using unat_lt_exp [of "key * kFibonacci"] k(1) by (simp flip: power_add)
  then show ?thesis
    by (simp add: ideal_slot_def unat_drop_bit_div k less_mult_imp_div_less)
qed

lemma probe_distance_cdist:
  assumes "ct_geom t" and "slot < length (ct_slots t)"
  shows "probe_distance t slot = dst (ideal_slot t) (ct_slots t) slot"
proof -
  obtain k where k: "k \<le> 64" "length (ct_slots t) = 2 ^ k" "ct_mask t = 2 ^ k - 1"
    using assms(1) by (auto simp: ct_geom_def)
  let ?h = "ideal_slot t (c_key (ct_slots t ! slot))"
  have h: "?h < 2 ^ k"
    using ideal_slot_less [OF assms(1)] k by simp
  have dvd: "(2 :: nat) ^ k dvd 2 ^ 64"
    using k(1) by (rule le_imp_power_dvd)
  then obtain m where m: "(2 :: nat) ^ 64 = 2 ^ k * m"
    by (rule dvdE)
  then have "0 < m"
    by (cases m) simp_all
  then have split: "slot + 2 ^ 64 - ?h = (slot + 2 ^ k - ?h) + 2 ^ k * (m - 1)"
    using h m by (cases m) (simp_all add: algebra_simps)
  have "probe_distance t slot = (slot + 2 ^ 64 - ?h) mod 2 ^ k"
    using dvd by (simp add: probe_distance_def k nat_and_mask mod_mod_cancel del: One_nat_def)
  also have "\<dots> = (slot + 2 ^ k - ?h) mod 2 ^ k"
    unfolding split by (rule mod_mult_self2)
  finally show ?thesis
    by (simp add: dst_def cdist_def k)
qed

section \<open>The invariant\<close>

definition ct_ok :: "chunk_table \<Rightarrow> bool" where
  "ct_ok t \<longleftrightarrow> ct_geom t \<and> rh_run (ideal_slot t) (ct_slots t) \<and> rh_keys (ct_slots t) \<and>
     ct_size t = length (filter occ (ct_slots t)) \<and>
     ct_size t * kLoadDenominator \<le> length (ct_slots t) * kLoadNumerator \<and>
     (ct_freed_fifo t \<noteq> [] \<longrightarrow>
        ct_freed_head t < length (ct_freed_fifo t) \<and> ct_freed_tail t < length (ct_freed_fifo t))"

definition ct_map :: "chunk_table \<Rightarrow> u64 \<rightharpoonup> chunk" where
  "ct_map t = entries (ct_slots t)"

lemma ct_okD:
  assumes "ct_ok t"
  shows "ct_geom t" "rh_run (ideal_slot t) (ct_slots t)" "rh_keys (ct_slots t)"
    "ct_size t = length (filter occ (ct_slots t))"
    "ct_size t * kLoadDenominator \<le> length (ct_slots t) * kLoadNumerator"
  using assms by (auto simp: ct_ok_def)

lemma empty_slot_exists:
  assumes "length (filter occ xs) < length xs"
  shows "\<exists>e < length xs. \<not> occ (xs ! e)"
proof (rule ccontr)
  assume "\<not> ?thesis"
  then have "filter occ xs = xs"
    by (auto simp: filter_id_conv in_set_conv_nth)
  with assms show False by simp
qed

lemma ct_empty_slot:
  assumes "ct_ok t"
  shows "\<exists>e < length (ct_slots t). \<not> occ (ct_slots t ! e)"
proof (rule empty_slot_exists)
  have "ct_size t * 100 \<le> length (ct_slots t) * 85" "16 \<le> length (ct_slots t)"
    using ct_okD [OF assms] ct_geom_length by (simp_all add: kLoadDenominator_def kLoadNumerator_def)
  then show "length (filter occ (ct_slots t)) < length (ct_slots t)"
    using ct_okD(4) [OF assms] by linarith
qed

section \<open>Lookup\<close>

lemma find_loop_sound:
  assumes geom: "ct_geom t"
  shows "slot < length (ct_slots t) \<Longrightarrow> find_loop t key slot d = Some i \<Longrightarrow>
    i < length (ct_slots t) \<and> occ (ct_slots t ! i) \<and> c_key (ct_slots t ! i) = key"
proof (induction "Suc (ct_mask t) - d" arbitrary: slot d rule: less_induct)
  case less
  let ?cur = "ct_slots t ! slot"
  show ?case
  proof (cases "c_state ?cur = ChunkEmpty \<or> c_key ?cur = key \<or> probe_distance t slot < d")
    case True
    then show ?thesis
      using less.prems by (auto simp: find_loop.simps [of t key slot d] occ_def Let_def split: if_splits)
  next
    case False
    then have "find_loop t key (nxt (length (ct_slots t)) slot) (d + 1) = Some i"
      using less.prems ct_step [OF geom, of slot] by (simp add: find_loop.simps [of t key slot d])
    moreover have "Suc (ct_mask t) - (d + 1) < Suc (ct_mask t) - d"
      using False probe_distance_le [of t slot] by linarith
    ultimately show ?thesis
      using less.hyps [of "d + 1" "nxt (length (ct_slots t)) slot"] less.prems(1) by simp
  qed
qed

lemma find_loop_complete:
  assumes ok: "ct_geom t" "rh_run (ideal_slot t) (ct_slots t)" "rh_keys (ct_slots t)"
    and j: "j < length (ct_slots t)" "occ (ct_slots t ! j)" "c_key (ct_slots t ! j) = key"
  shows "slot < length (ct_slots t) \<Longrightarrow> d = cdist (length (ct_slots t)) slot (ideal_slot t key) \<Longrightarrow>
    d \<le> dst (ideal_slot t) (ct_slots t) j \<Longrightarrow> find_loop t key slot d = Some j"
proof (induction "dst (ideal_slot t) (ct_slots t) j - d" arbitrary: slot d rule: less_induct)
  case less
  let ?xs = "ct_slots t" and ?n = "length (ct_slots t)"
  have run: "occ (?xs ! slot) \<and> d \<le> dst (ideal_slot t) ?xs slot"
    using run_upto [OF ok(2) j(1,2) _ less.prems(1)] less.prems ideal_slot_less [OF ok(1)] j(3) by simp
  show ?case
  proof (cases "slot = j")
    case True
    then show ?thesis
      using j by (simp add: find_loop.simps [of t key j d] occ_def)
  next
    case False
    then have "c_key (?xs ! slot) \<noteq> key"
      using rh_keysD(2) [OF ok(3) j(1) less.prems(1) j(2)] j(3) by auto
    moreover have "\<not> probe_distance t slot < d"
      using run probe_distance_cdist [OF ok(1) less.prems(1)] by simp
    ultimately have "find_loop t key slot d = find_loop t key (nxt ?n slot) (d + 1)"
      using run ct_step [OF ok(1), of slot] by (simp add: find_loop.simps [of t key slot d] occ_def)
    moreover have lt: "d < dst (ideal_slot t) ?xs j"
      using False less.prems j ideal_slot_less [OF ok(1)] cdist_inj by (auto simp: dst_def le_less)
    moreover have "dst (ideal_slot t) ?xs j < ?n"
      using j(1) by (auto simp: dst_def intro!: cdist_less)
    then have "cdist ?n (nxt ?n slot) (ideal_slot t key) = d + 1"
      using cdist_nxt [OF less.prems(1) ideal_slot_less [OF ok(1)], of key] lt less.prems(2) by simp
    ultimately show ?thesis
      using less.hyps [of "d + 1" "nxt ?n slot"] less.prems(1) by simp
  qed
qed

lemma find_Some:
  assumes ok: "ct_geom t" "rh_run (ideal_slot t) (ct_slots t)" "rh_keys (ct_slots t)"
  shows "find t key = Some i \<longleftrightarrow>
    i < length (ct_slots t) \<and> occ (ct_slots t ! i) \<and> c_key (ct_slots t ! i) = key"
proof
  assume "find t key = Some i"
  then show "i < length (ct_slots t) \<and> occ (ct_slots t ! i) \<and> c_key (ct_slots t ! i) = key"
    using find_loop_sound [OF ok(1) ideal_slot_less [OF ok(1)]] by (simp add: find_def split: if_splits)
next
  assume i: "i < length (ct_slots t) \<and> occ (ct_slots t ! i) \<and> c_key (ct_slots t ! i) = key"
  then have "key \<noteq> 0" "ct_slots t \<noteq> []"
    using rh_keysD(1) [OF ok(3), of i] by auto
  then show "find t key = Some i"
    using find_loop_complete [OF ok, of i key "ideal_slot t key" 0] i ideal_slot_less [OF ok(1)]
    by (simp add: find_def)
qed

lemma find_map:
  assumes "ct_ok t"
  shows "ct_map t key = map_option (\<lambda>i. ct_slots t ! i) (find t key)"
proof (cases "find t key")
  case (Some i)
  then have "i < length (ct_slots t)" "occ (ct_slots t ! i)" "c_key (ct_slots t ! i) = key"
    using find_Some [OF ct_okD(1-3) [OF assms]] by auto
  then show ?thesis
    using entries_nth [OF ct_okD(3) [OF assms], of i] by (simp add: ct_map_def Some)
next
  case None
  then show ?thesis
    using find_Some [OF ct_okD(1-3) [OF assms], of key] entries_None [OF ct_okD(3) [OF assms], of key]
    by (auto simp: ct_map_def)
qed

section \<open>Placement\<close>

text \<open>Everything but the slot contents and the statistics.\<close>

definition ct_frame :: "chunk_table \<Rightarrow> chunk_table \<Rightarrow> bool" where
  "ct_frame t t' \<longleftrightarrow> length (ct_slots t') = length (ct_slots t) \<and> ct_mask t' = ct_mask t \<and>
     ct_shift t' = ct_shift t \<and> ct_size t' = ct_size t \<and> ct_max_entries t' = ct_max_entries t \<and>
     ct_freed_fifo t' = ct_freed_fifo t \<and> ct_freed_head t' = ct_freed_head t \<and>
     ct_freed_tail t' = ct_freed_tail t"

lemma ct_frame_refl [simp]: "ct_frame t t"
  by (simp add: ct_frame_def)

lemma ct_frame_trans: "ct_frame t u \<Longrightarrow> ct_frame u v \<Longrightarrow> ct_frame t v"
  by (simp add: ct_frame_def)

lemma ct_frame_geom: "ct_frame t t' \<Longrightarrow> ct_geom t \<Longrightarrow> ct_geom t'"
  by (simp add: ct_frame_def ct_geom_def)

lemma ct_frame_ideal: "ct_frame t t' \<Longrightarrow> ideal_slot t' = ideal_slot t"
  by (simp add: ct_frame_def ideal_slot_def fun_eq_iff)

lemma note_probe_simps [simp]:
  "ct_slots (note_probe d t) = ct_slots t" "ct_mask (note_probe d t) = ct_mask t"
  "ct_shift (note_probe d t) = ct_shift t" "ct_size (note_probe d t) = ct_size t"
  "ct_max_entries (note_probe d t) = ct_max_entries t" "ct_freed_fifo (note_probe d t) = ct_freed_fifo t"
  "ct_freed_head (note_probe d t) = ct_freed_head t" "ct_freed_tail (note_probe d t) = ct_freed_tail t"
  by (simp_all add: note_probe_def)

lemma ideal_slot_simps [simp]:
  "ideal_slot (note_probe d t) = ideal_slot t" "ideal_slot (t\<lparr>ct_slots := xs\<rparr>) = ideal_slot t"
  "ideal_slot (t\<lparr>ct_stats := st\<rparr>) = ideal_slot t" "ideal_slot (t\<lparr>ct_size := m\<rparr>) = ideal_slot t"
  "ideal_slot (t\<lparr>ct_freed_head := m\<rparr>) = ideal_slot t" "ideal_slot (t\<lparr>ct_freed_tail := m\<rparr>) = ideal_slot t"
  "ideal_slot (t\<lparr>ct_freed_fifo := f\<rparr>) = ideal_slot t" "ideal_slot (t\<lparr>ct_max_entries := m\<rparr>) = ideal_slot t"
  by (simp_all add: ideal_slot_def fun_eq_iff note_probe_def)

definition rh_table :: "chunk_table \<Rightarrow> bool" where
  "rh_table t \<longleftrightarrow> ct_geom t \<and> rh_run (ideal_slot t) (ct_slots t) \<and> rh_keys (ct_slots t)"

lemma rh_tableD:
  "rh_table t \<Longrightarrow> ct_geom t" "rh_table t \<Longrightarrow> rh_run (ideal_slot t) (ct_slots t)"
  "rh_table t \<Longrightarrow> rh_keys (ct_slots t)"
  by (simp_all add: rh_table_def)

lemma put_table:
  assumes "rh_table t" and slot: "slot < length (ct_slots t)" and c: "occ c" "c_key c \<noteq> 0"
    and new: "\<forall>i < length (ct_slots t). i \<noteq> slot \<longrightarrow> occ (ct_slots t ! i) \<longrightarrow> c_key (ct_slots t ! i) \<noteq> c_key c"
    and pre: "0 < cdist (length (ct_slots t)) slot (ideal_slot t (c_key c)) \<longrightarrow>
      occ (ct_slots t ! prv (length (ct_slots t)) slot) \<and>
      cdist (length (ct_slots t)) slot (ideal_slot t (c_key c))
        \<le> Suc (dst (ideal_slot t) (ct_slots t) (prv (length (ct_slots t)) slot))"
    and steal: "occ (ct_slots t ! slot) \<longrightarrow>
      dst (ideal_slot t) (ct_slots t) slot \<le> cdist (length (ct_slots t)) slot (ideal_slot t (c_key c))"
    and t': "ct_frame t t'" "ct_slots t' = (ct_slots t)[slot := c]"
  shows "rh_table t'"
    and "entries (ct_slots t') = ((entries (ct_slots t))(c_key (ct_slots t ! slot) := None))(c_key c \<mapsto> c)"
proof -
  have "1 < length (ct_slots t)"
    using ct_geom_length [OF rh_tableD(1) [OF assms(1)]] by simp
  then show "rh_table t'"
    using rh_run_put [OF rh_tableD(2) [OF assms(1)] slot _ c(1) pre steal]
      rh_keys_put [OF rh_tableD(3) [OF assms(1)] slot c new] t' assms(1)
      ct_frame_geom [OF t'(1)] ct_frame_ideal [OF t'(1)] by (simp add: rh_table_def)
  show "entries (ct_slots t') = ((entries (ct_slots t))(c_key (ct_slots t ! slot) := None))(c_key c \<mapsto> c)"
    using entries_put [OF rh_tableD(3) [OF assms(1)] slot c new] t' by simp
qed

definition probe_pre :: "chunk_table \<Rightarrow> u64 \<Rightarrow> nat \<Rightarrow> nat \<Rightarrow> bool" where
  "probe_pre t key slot d \<longleftrightarrow> slot < length (ct_slots t) \<and>
     d = cdist (length (ct_slots t)) slot (ideal_slot t key) \<and>
     (0 < d \<longrightarrow> occ (ct_slots t ! prv (length (ct_slots t)) slot) \<and>
        d \<le> Suc (dst (ideal_slot t) (ct_slots t) (prv (length (ct_slots t)) slot)))"

text \<open>A probe that has not met the empty slot \<open>e\<close> yet is less than a lap away from home.\<close>

lemma probe_not_lapped:
  assumes "rh_table t" and pre: "probe_pre t key slot d" and occ: "occ (ct_slots t ! slot)"
    and e: "e < length (ct_slots t)" "\<not> occ (ct_slots t ! e)"
  shows "Suc d < length (ct_slots t)"
proof (rule ccontr)
  let ?n = "length (ct_slots t)" and ?h = "ideal_slot t key"
  assume "\<not> Suc d < ?n"
  moreover have "d < ?n"
    using pre by (auto simp: probe_pre_def intro!: cdist_less)
  ultimately have d: "Suc d = ?n"
    by linarith
  have "e \<noteq> slot"
    using occ e by auto
  then have "cdist ?n e ?h \<noteq> d"
    using pre e ideal_slot_less [OF rh_tableD(1) [OF assms(1)]] cdist_inj [of e ?n slot ?h]
    by (auto simp: probe_pre_def)
  moreover have "cdist ?n e ?h < ?n"
    using e by (intro cdist_less) auto
  ultimately have "cdist ?n e ?h < cdist ?n slot ?h"
    using d pre by (simp add: probe_pre_def)
  then show False
    using run_before [OF rh_tableD(2) [OF assms(1)] ideal_slot_less [OF rh_tableD(1) [OF assms(1)]] _ _ e(1)]
      pre e by (auto simp: probe_pre_def)
qed

lemma place_loop_correct:
  assumes "rh_table t" and pre: "probe_pre t (c_key c) slot d" and c: "occ c" "c_key c \<noteq> 0"
    and new: "entries (ct_slots t) (c_key c) = None"
    and e: "e < length (ct_slots t)" "\<not> occ (ct_slots t ! e)" "cdist (length (ct_slots t)) e slot < fuel"
  shows "\<exists>t'. place_loop fuel t c slot d = Some t' \<and> ct_frame t t' \<and> rh_table t' \<and>
    entries (ct_slots t') = (entries (ct_slots t))(c_key c \<mapsto> c)"
  using assms
proof (induction fuel arbitrary: t c slot d)
  case 0
  then show ?case by simp
next
  case (Suc fuel)
  let ?xs = "ct_slots t" and ?n = "length (ct_slots t)" and ?cur = "ct_slots t ! slot"
  note rh = Suc.prems(1) and c = Suc.prems(3,4) and e = Suc.prems(6-8)
  have slot: "slot < ?n" and d: "d = cdist ?n slot (ideal_slot t (c_key c))"
    and pre: "0 < d \<longrightarrow> occ (?xs ! prv ?n slot) \<and> d \<le> Suc (dst (ideal_slot t) ?xs (prv ?n slot))"
    using Suc.prems(2) by (auto simp: probe_pre_def)
  have fresh: "\<forall>i < ?n. i \<noteq> slot \<longrightarrow> occ (?xs ! i) \<longrightarrow> c_key (?xs ! i) \<noteq> c_key c"
    using Suc.prems(5) entries_None [OF rh_tableD(3) [OF rh]] by auto
  have pd: "probe_distance t slot = dst (ideal_slot t) ?xs slot"
    using probe_distance_cdist [OF rh_tableD(1) [OF rh] slot] .
  show ?case
  proof (cases "occ ?cur")
    case False
    let ?t = "note_probe d (t\<lparr>ct_slots := ?xs[slot := c]\<rparr>)"
    have "rh_table ?t" "entries (ct_slots ?t) = ((entries ?xs)(c_key ?cur := None))(c_key c \<mapsto> c)"
      using put_table [OF rh slot c fresh, of ?t] d pre False by (auto simp: ct_frame_def)
    moreover have "c_key ?cur = 0"
      using False rh_keysD(1) [OF rh_tableD(3) [OF rh] slot] by simp
    ultimately show ?thesis
      using False entries_zero [OF rh_tableD(3) [OF rh]]
      by (auto simp: occ_def ct_frame_def fun_upd_idem)
  next
    case True
    have "e \<noteq> slot"
      using True e by auto
    then have fuel: "cdist ?n e (nxt ?n slot) < fuel"
      using cdist_from_nxt [OF slot e(1)] e(3) by simp
    have not_lapped: "Suc d < ?n"
      using probe_not_lapped [OF rh Suc.prems(2) True e(1,2)] .
    show ?thesis
    proof (cases "dst (ideal_slot t) ?xs slot < d")
      case steal: True
      let ?t = "note_probe (dst (ideal_slot t) ?xs slot + 1) (t\<lparr>ct_slots := ?xs[slot := c]\<rparr>)"
      have fr: "ct_frame t ?t"
        by (simp add: ct_frame_def)
      have rh': "rh_table ?t"
        and ent: "entries (ct_slots ?t) = ((entries ?xs)(c_key ?cur := None))(c_key c \<mapsto> c)"
        using put_table [OF rh slot c fresh, of ?t] d pre steal fr by auto
      have cur: "c_key ?cur \<noteq> 0" "c_key ?cur \<noteq> c_key c"
        using True rh_keysD(1) [OF rh_tableD(3) [OF rh] slot] Suc.prems(5)
          entries_None [OF rh_tableD(3) [OF rh]] slot by auto
      have dc: "dst (ideal_slot t) ?xs slot = cdist ?n slot (ideal_slot t (c_key ?cur))"
        by (simp add: dst_def)
      have pp: "probe_pre ?t (c_key ?cur) (nxt ?n slot) (dst (ideal_slot t) ?xs slot + 1)"
        using slot c steal not_lapped d ideal_slot_less [OF rh_tableD(1) [OF rh]] dc
        by (auto simp: probe_pre_def cdist_nxt dst_upd)
      have gone: "entries (ct_slots ?t) (c_key ?cur) = None"
        unfolding ent using cur by simp
      have e': "e < length (ct_slots ?t)" "\<not> occ (ct_slots ?t ! e)"
        "cdist (length (ct_slots ?t)) e (nxt ?n slot) < fuel"
        using e fuel \<open>e \<noteq> slot\<close> by simp_all
      obtain t' where t': "place_loop fuel ?t ?cur (nxt ?n slot) (dst (ideal_slot t) ?xs slot + 1) = Some t'"
        "ct_frame ?t t'" "rh_table t'" "entries (ct_slots t') = (entries (ct_slots ?t))(c_key ?cur \<mapsto> ?cur)"
        using Suc.IH [OF rh' pp True cur(1) gone e'] by blast
      have "entries (ct_slots t') = (entries ?xs)(c_key c \<mapsto> c)"
        unfolding t'(4) ent using entries_nth [OF rh_tableD(3) [OF rh] slot True] cur by (auto simp: fun_eq_iff)
      moreover have "place_loop (Suc fuel) t c slot d = Some t'"
        using True steal pd ct_step [OF rh_tableD(1) [OF rh], of slot] t'(1) by (simp add: occ_def Let_def)
      ultimately show ?thesis
        using ct_frame_trans [OF fr t'(2)] t'(3) by blast
    next
      case keep: False
      let ?t = "note_probe (d + 1) t"
      have fr: "ct_frame t ?t"
        by (simp add: ct_frame_def)
      have rh': "rh_table ?t"
        using rh ct_frame_geom [OF fr] ct_frame_ideal [OF fr] by (simp add: rh_table_def)
      have pp: "probe_pre ?t (c_key c) (nxt ?n slot) (d + 1)"
        using slot True keep not_lapped d ideal_slot_less [OF rh_tableD(1) [OF rh]]
        by (simp add: probe_pre_def cdist_nxt)
      have e': "entries (ct_slots ?t) (c_key c) = None" "e < length (ct_slots ?t)" "\<not> occ (ct_slots ?t ! e)"
        "cdist (length (ct_slots ?t)) e (nxt ?n slot) < fuel"
        using e fuel Suc.prems(5) by simp_all
      obtain t' where t': "place_loop fuel ?t c (nxt ?n slot) (d + 1) = Some t'"
        "ct_frame ?t t'" "rh_table t'" "entries (ct_slots t') = (entries (ct_slots ?t))(c_key c \<mapsto> c)"
        using Suc.IH [OF rh' pp c e'] by blast
      have "place_loop (Suc fuel) t c slot d = Some t'"
        using True keep pd ct_step [OF rh_tableD(1) [OF rh], of slot] t'(1) by (simp add: occ_def Let_def)
      then show ?thesis
        using ct_frame_trans [OF fr t'(2)] t'(3,4) unfolding note_probe_simps by blast
    qed
  qed
qed

lemma place_correct:
  assumes rh: "rh_table t" and c: "occ c" "c_key c \<noteq> 0" "entries (ct_slots t) (c_key c) = None"
    and e: "e < length (ct_slots t)" "\<not> occ (ct_slots t ! e)"
  shows "\<exists>t'. place t c = Some t' \<and> ct_frame t t' \<and> rh_table t' \<and>
    entries (ct_slots t') = (entries (ct_slots t))(c_key c \<mapsto> c)"
proof -
  let ?h = "ideal_slot t (c_key c)"
  have h: "?h < length (ct_slots t)"
    using ideal_slot_less [OF rh_tableD(1) [OF rh]] .
  then have "probe_pre t (c_key c) ?h 0"
    by (simp add: probe_pre_def)
  moreover have "cdist (length (ct_slots t)) e ?h < length (ct_slots t)"
    using e by (intro cdist_less) auto
  ultimately show ?thesis
    unfolding place_def using place_loop_correct [OF rh _ c e] by blast
qed

text \<open>The number of occupied slots is the number of keys.\<close>

lemma card_dom_entries:
  assumes "rh_keys xs"
  shows "length (filter occ xs) = card (dom (entries xs))"
proof -
  have "bij_betw (\<lambda>i. c_key (xs ! i)) {i. i < length xs \<and> occ (xs ! i)} (dom (entries xs))"
  proof (rule bij_betwI')
    show "c_key (xs ! x) = c_key (xs ! y) \<longleftrightarrow> x = y"
      if "x \<in> {i. i < length xs \<and> occ (xs ! i)}" "y \<in> {i. i < length xs \<and> occ (xs ! i)}" for x y
      using rh_keysD(2) [OF assms, of x y] that by auto
    show "c_key (xs ! x) \<in> dom (entries xs)" if "x \<in> {i. i < length xs \<and> occ (xs ! i)}" for x
      using entries_nth [OF assms] that by auto
    show "\<exists>x \<in> {i. i < length xs \<and> occ (xs ! i)}. y = c_key (xs ! x)" if y: "y \<in> dom (entries xs)" for y
    proof -
      obtain v where "entries xs y = Some v"
        using y by auto
      then show ?thesis
        unfolding entries_Some [OF assms] by auto
    qed
  qed
  then show ?thesis
    by (simp add: bij_betw_same_card length_filter_conv_card)
qed

lemma place_count:
  assumes "rh_table t" "rh_table t'" and "entries (ct_slots t) k = None"
    and "entries (ct_slots t') = (entries (ct_slots t))(k \<mapsto> c)"
  shows "length (filter occ (ct_slots t')) = Suc (length (filter occ (ct_slots t)))"
proof -
  have "finite (dom (entries (ct_slots t)))"
    by (simp add: entries_def finite_dom_map_of)
  then show ?thesis
    using assms(3) by (simp add: card_dom_entries [OF rh_tableD(3)] assms domIff)
qed

section \<open>Growth\<close>

lemma place_all_correct:
  assumes "rh_table t" and "\<forall>c \<in> set cs. occ c \<longrightarrow> c_key c \<noteq> 0" and "distinct (map c_key (filter occ cs))"
    and "\<forall>c \<in> set cs. occ c \<longrightarrow> entries (ct_slots t) (c_key c) = None"
    and "length (filter occ (ct_slots t)) + length (filter occ cs) < length (ct_slots t)"
  shows "\<exists>t'. place_all t cs = Some t' \<and> ct_frame t t' \<and> rh_table t' \<and>
    entries (ct_slots t') = entries (ct_slots t) ++ entries cs"
  using assms
proof (induction cs arbitrary: t)
  case Nil
  then show ?case by (simp add: entries_def)
next
  case (Cons c cs)
  show ?case
  proof (cases "occ c")
    case False
    then show ?thesis
      using Cons by (simp add: occ_def entries_def)
  next
    case True
    obtain e where e: "e < length (ct_slots t)" "\<not> occ (ct_slots t ! e)"
      using empty_slot_exists [of "ct_slots t"] Cons.prems(5) by auto
    obtain t1 where t1: "place t c = Some t1" "ct_frame t t1" "rh_table t1"
      "entries (ct_slots t1) = (entries (ct_slots t))(c_key c \<mapsto> c)"
      using place_correct [OF Cons.prems(1) True _ _ e] Cons.prems True by auto
    have "c_key c \<notin> c_key ` set (filter occ cs)"
      using Cons.prems(3) True by simp
    then have notin: "entries cs (c_key c) = None" "\<forall>d \<in> set cs. occ d \<longrightarrow> c_key d \<noteq> c_key c"
      by (auto simp: entries_def map_of_eq_None_iff image_iff)
    have "length (filter occ (ct_slots t1)) = Suc (length (filter occ (ct_slots t)))"
      using place_count [OF Cons.prems(1) t1(3) _ t1(4)] Cons.prems(4) True by simp
    moreover have "length (ct_slots t1) = length (ct_slots t)"
      using t1(2) by (simp add: ct_frame_def)
    ultimately obtain t2 where t2: "place_all t1 cs = Some t2" "ct_frame t1 t2" "rh_table t2"
      "entries (ct_slots t2) = entries (ct_slots t1) ++ entries cs"
      using Cons.IH [OF t1(3)] Cons.prems notin t1(4) True by (auto simp del: fun_upd_apply) (auto simp: fun_upd_def)
    have "entries (c # cs) = (entries cs)(c_key c \<mapsto> c)"
      using True by (simp add: entries_def)
    then have "entries (ct_slots t1) ++ entries cs = entries (ct_slots t) ++ entries (c # cs)"
      unfolding t1(4) using notin(1) by (auto simp: map_add_def fun_eq_iff split: option.splits)
    then show ?thesis
      using t1 t2 True ct_frame_trans [OF t1(2) t2(2)] by (auto simp: occ_def)
  qed
qed

text \<open>Growing rehashes every record into a table at least twice as large; no record is lost.\<close>

lemma rh_keys_distinct:
  assumes "rh_keys xs"
  shows "distinct (map c_key (filter occ xs))"
proof -
  have "card (c_key ` set (filter occ xs)) = length (filter occ xs)"
    using card_dom_entries [OF assms] by (simp add: entries_def dom_map_of_conv_image_fst image_image)
  then show ?thesis
    by (metis card_distinct length_map list.set_map)
qed

lemma fresh_table:
  assumes "cap = 2 ^ k" "4 \<le> k" "k \<le> 64"
  shows "rh_table (t\<lparr>ct_slots := replicate cap kEmptySlot, ct_mask := cap - 1, ct_shift := 64 - countr_zero cap\<rparr>)"
  using assms by (auto simp: rh_table_def ct_geom_def countr_zero_pow2 rh_run_def rh_keys_def)

lemma entries_replicate [simp]: "entries (replicate n kEmptySlot) = Map.empty"
  by (simp add: entries_def)

lemma grow_to_correct:
  assumes ok: "ct_ok t" and new: "round_capacity new_capacity \<le> 2 ^ 64"
  shows "\<exists>t'. grow_to t new_capacity = Some (True, t') \<and> ct_ok t' \<and> ct_map t' = ct_map t \<and>
    ct_size t' = ct_size t \<and> length (ct_slots t') = max (length (ct_slots t)) (round_capacity new_capacity) \<and>
    ct_max_entries t' = ct_max_entries t \<and> ct_freed_fifo t' = ct_freed_fifo t \<and>
    ct_freed_head t' = ct_freed_head t \<and> ct_freed_tail t' = ct_freed_tail t"
proof (cases "round_capacity new_capacity \<le> length (ct_slots t)")
  case True
  then show ?thesis
    using ok by (simp add: grow_to_def Let_def max_def)
next
  case False
  let ?cap = "round_capacity new_capacity"
  let ?t0 = "t\<lparr>ct_slots := replicate ?cap kEmptySlot, ct_mask := ?cap - 1, ct_shift := 64 - countr_zero ?cap\<rparr>"
  obtain k where k: "4 \<le> k" "?cap = 2 ^ k"
    using round_capacity_pow2 by blast
  have "k \<le> 64"
    using new unfolding k(2) by (rule power_le_imp_le_exp [rotated]) simp
  then have rh0: "rh_table ?t0"
    by (intro fresh_table [OF k(2,1)])
  note D = ct_okD [OF ok]
  have nz: "\<forall>c \<in> set (ct_slots t). occ c \<longrightarrow> c_key c \<noteq> 0"
    using rh_keysD(1) [OF D(3)] by (metis in_set_conv_nth)
  have "length (filter occ (ct_slots t)) < length (ct_slots t)"
    using ct_empty_slot [OF ok] by (metis length_filter_less nth_mem)
  then obtain t1 where t1: "place_all ?t0 (ct_slots t) = Some t1" "ct_frame ?t0 t1" "rh_table t1"
    "entries (ct_slots t1) = entries (ct_slots ?t0) ++ entries (ct_slots t)"
    using place_all_correct [OF rh0 nz rh_keys_distinct [OF D(3)]] False by auto
  let ?t2 = "t1\<lparr>ct_stats := (ct_stats t1)\<lparr>st_rehashes := st_rehashes (ct_stats t1) + 1\<rparr>\<rparr>"
  have f: "ct_size t1 = ct_size t" "length (ct_slots t1) = ?cap" "ct_max_entries t1 = ct_max_entries t"
    "ct_freed_fifo t1 = ct_freed_fifo t" "ct_freed_head t1 = ct_freed_head t" "ct_freed_tail t1 = ct_freed_tail t"
    using t1(2) by (simp_all add: ct_frame_def)
  have "entries (ct_slots t1) = entries (ct_slots t)"
    using t1(4) by simp
  then have "length (filter occ (ct_slots t1)) = ct_size t"
    using card_dom_entries [OF rh_tableD(3) [OF t1(3)]] card_dom_entries [OF D(3)] D(4) by simp
  moreover have "ct_size t * kLoadDenominator \<le> ?cap * kLoadNumerator"
    using D(5) False by (meson le_trans mult_le_mono1 nat_le_linear)
  ultimately have "ct_ok ?t2"
    using t1(3) f ok by (simp add: ct_ok_def rh_table_def ct_geom_def)
  then show ?thesis
    using False t1 f by (simp add: grow_to_def Let_def ct_map_def max_def)
qed

section \<open>Erasure\<close>

lemma hole_start:
  assumes "ct_ok t" and "i < length (ct_slots t)" and "occ (ct_slots t ! i)"
  shows "rh_keys ((ct_slots t)[i := kEmptySlot])"
    and "entries ((ct_slots t)[i := kEmptySlot]) = (entries (ct_slots t))(c_key (ct_slots t ! i) := None)"
proof -
  let ?xs = "ct_slots t"
  note K = ct_okD(3) [OF assms(1)]
  have nz: "c_key (?xs ! j) \<noteq> 0" if "j < length ?xs" "occ (?xs ! j)" for j
    using rh_keysD(1) [OF K] that by blast
  show keys: "rh_keys (?xs[i := kEmptySlot])"
    unfolding rh_keys_def
  proof (intro conjI allI impI)
    fix j assume "j < length (?xs[i := kEmptySlot])"
    then show "occ (?xs[i := kEmptySlot] ! j) \<longleftrightarrow> c_key (?xs[i := kEmptySlot] ! j) \<noteq> 0"
      using rh_keysD(1) [OF K, of j] assms(2) by (cases "j = i") simp_all
  next
    fix j l
    assume "j < length (?xs[i := kEmptySlot])" "l < length (?xs[i := kEmptySlot])"
      "occ (?xs[i := kEmptySlot] ! j)" "c_key (?xs[i := kEmptySlot] ! j) = c_key (?xs[i := kEmptySlot] ! l)"
    then show "j = l"
      using rh_keysD(2) [OF K, of j l] nz [of j] assms(2) by (auto simp: nth_list_update split: if_splits)
  qed
  show "entries (?xs[i := kEmptySlot]) = (entries ?xs)(c_key (?xs ! i) := None)"
  proof (rule map_eqI_Some)
    fix k c
    have uniq: "j = i" if "j < length ?xs" "occ (?xs ! j)" "c_key (?xs ! j) = c_key (?xs ! i)" for j
      using rh_keysD(2) [OF K that(1) assms(2) that(2,3)] .
    have "(\<exists>j < length ?xs. ?xs[i := kEmptySlot] ! j = c \<and> occ c \<and> c_key c = k) \<longleftrightarrow>
        (\<exists>j < length ?xs. j \<noteq> i \<and> ?xs ! j = c \<and> occ c \<and> c_key c = k)"
      using assms(2) by (metis nth_list_update_eq nth_list_update_neq occ_kEmptySlot(1))
    also have "\<dots> \<longleftrightarrow> (\<exists>j < length ?xs. ?xs ! j = c \<and> occ c \<and> c_key c = k) \<and> k \<noteq> c_key (?xs ! i)"
      using uniq by blast
    finally show "entries (?xs[i := kEmptySlot]) k = Some c \<longleftrightarrow> ((entries ?xs)(c_key (?xs ! i) := None)) k = Some c"
      by (simp add: entries_Some [OF keys] entries_Some [OF K])
  qed
qed

lemma shift_back_correct:
  assumes geom: "ct_geom t" and hole: "hole_run (ideal_slot t) (ct_slots t) i" and i: "i < length (ct_slots t)"
    and keys: "rh_keys ((ct_slots t)[i := kEmptySlot])"
    and e: "e < length (ct_slots t)" "\<not> occ (ct_slots t ! e)" "e \<noteq> i" "cdist (length (ct_slots t)) e i \<le> fuel"
  shows "\<exists>t'. shift_back fuel t i = Some t' \<and> ct_frame t t' \<and> ct_stats t' = ct_stats t \<and> rh_table t' \<and>
    entries (ct_slots t') = entries ((ct_slots t)[i := kEmptySlot])"
  using assms
proof (induction fuel arbitrary: t i)
  case 0
  then show ?case by (simp add: cdist_0_iff)
next
  case (Suc fuel)
  let ?xs = "ct_slots t" and ?n = "length (ct_slots t)"
  let ?j = "nxt ?n i"
  note geom = Suc.prems(1) and i = Suc.prems(3) and e = Suc.prems(5-8)
  have n: "2 < ?n"
    using ct_geom_length [OF geom] by simp
  have j: "?j < ?n" "?j \<noteq> i"
    using i n nxt_neq [of i ?n] by auto
  have pd: "probe_distance t ?j = dst (ideal_slot t) ?xs ?j"
    using probe_distance_cdist [OF geom j(1)] .
  show ?case
  proof (cases "\<not> occ (?xs ! ?j) \<or> dst (ideal_slot t) ?xs ?j = 0")
    case True
    let ?t = "t\<lparr>ct_slots := ?xs[i := kEmptySlot]\<rparr>"
    have "shift_back (Suc fuel) t i = Some ?t"
      using True pd ct_step [OF geom, of i] by (auto simp: occ_def Let_def)
    moreover have "rh_table ?t"
      using hole_run_stop [OF Suc.prems(2) i True] n geom Suc.prems(4) by (simp add: rh_table_def ct_geom_def)
    ultimately show ?thesis
      by (simp add: ct_frame_def)
  next
    case False
    let ?t = "t\<lparr>ct_slots := ?xs[i := ?xs ! ?j]\<rparr>"
    have "e \<noteq> ?j"
      using False e by auto
    moreover have "cdist ?n e ?j \<le> fuel"
      using cdist_from_nxt [OF i e(1,3)] e(4) by simp
    moreover have "hole_run (ideal_slot ?t) (ct_slots ?t) ?j"
      using hole_run_step [OF Suc.prems(2) i n] False ideal_slot_less [OF geom] by simp
    moreover have "ct_geom ?t"
      using geom by (simp add: ct_geom_def)
    ultimately obtain t' where t': "shift_back fuel ?t ?j = Some t'" "ct_frame ?t t'" "ct_stats t' = ct_stats ?t"
      "rh_table t'" "entries (ct_slots t') = entries ((ct_slots ?t)[?j := kEmptySlot])"
      using Suc.IH [of ?t ?j] hole_move(1) [OF Suc.prems(4) i j(1)] j e by auto
    have "shift_back (Suc fuel) t i = Some t'"
      using False pd ct_step [OF geom, of i] t'(1) by (simp add: occ_def Let_def)
    moreover have "entries (ct_slots t') = entries (?xs[i := kEmptySlot])"
      using t'(5) hole_move(2) [OF Suc.prems(4) i j(1)] j by simp
    moreover have "ct_frame t t'"
      using t'(2) by (simp add: ct_frame_def)
    ultimately show ?thesis
      using t'(3,4) by simp
  qed
qed

lemma erase_correct:
  assumes ok: "ct_ok t"
  shows "\<exists>t'. erase t key = Some (ct_map t key \<noteq> None, t') \<and> ct_ok t' \<and> ct_map t' = (ct_map t)(key := None) \<and>
    ct_size t' = ct_size t - (if ct_map t key = None then 0 else 1) \<and> length (ct_slots t') = length (ct_slots t) \<and>
    ct_max_entries t' = ct_max_entries t \<and> ct_freed_fifo t' = ct_freed_fifo t \<and>
    ct_freed_head t' = ct_freed_head t \<and> ct_freed_tail t' = ct_freed_tail t"
proof (cases "find t key")
  case None
  then have "ct_map t key = None"
    using find_map [OF ok] by simp
  with None ok show ?thesis
    by (simp add: erase_def fun_upd_idem)
next
  case (Some i)
  let ?xs = "ct_slots t"
  note D = ct_okD [OF ok]
  have i: "i < length ?xs" "occ (?xs ! i)" "c_key (?xs ! i) = key"
    using find_Some [OF D(1-3)] Some by auto
  obtain e where e: "e < length ?xs" "\<not> occ (?xs ! e)"
    using ct_empty_slot [OF ok] by blast
  have "e \<noteq> i"
    using e i by auto
  moreover have "cdist (length ?xs) e i \<le> length ?xs"
    using e by (intro less_imp_le [OF cdist_less]) auto
  ultimately obtain t1 where t1: "shift_back (length ?xs) t i = Some t1" "ct_frame t t1" "rh_table t1"
    "entries (ct_slots t1) = (entries ?xs)(key := None)"
    using shift_back_correct [OF D(1) hole_run_start [OF D(2) i(1,2)] i(1) hole_start(1) [OF ok i(1,2)] e]
      hole_start(2) [OF ok i(1,2)] i(3) by auto
  let ?t2 = "t1\<lparr>ct_size := ct_size t1 - 1, ct_stats := (ct_stats t1)\<lparr>st_erases := st_erases (ct_stats t1) + 1\<rparr>\<rparr>"
  have mem: "entries ?xs key = Some (?xs ! i)"
    using entries_nth [OF D(3) i(1,2)] i(3) by simp
  have "finite (dom (entries ?xs))"
    by (simp add: entries_def finite_dom_map_of)
  then have "length (filter occ (ct_slots t1)) = ct_size t - 1"
    using card_dom_entries [OF rh_tableD(3) [OF t1(3)]] card_dom_entries [OF D(3)] D(4) mem
    by (simp add: t1(4) card_Diff_singleton domIff)
  moreover have "(ct_size t - 1) * kLoadDenominator \<le> length ?xs * kLoadNumerator"
    using D(5) by (meson diff_le_self le_trans mult_le_mono1)
  ultimately have "ct_ok ?t2"
    using t1(2,3) ok by (auto simp: ct_ok_def rh_table_def ct_geom_def ct_frame_def)
  then show ?thesis
    using Some t1 mem by (auto simp: erase_def ct_map_def ct_frame_def)
qed

end
