(* ===== verification/Op_Refinement.thy ===== *)
theory Op_Refinement
  imports Heapviz_Prelude
begin

text \<open>
  The contract between a component and the data type it implements. Each operation of the component
  returns, keeps the invariant and has the effect of the abstract operation. The invariant is
  indexed by a budget, the number of further operations the component is able to take, since a
  component may run out of address space.
\<close>

fun run_ops :: "('op \<Rightarrow> 's \<Rightarrow> 's option) \<Rightarrow> 'op list \<Rightarrow> 's \<Rightarrow> 's option" where
  "run_ops run [] s = Some s"
| "run_ops run (x # xs) s = Option.bind (run x s) (run_ops run xs)"

lemma run_ops_append: "run_ops run (xs @ ys) s = Option.bind (run_ops run xs s) (run_ops run ys)"
  by (induction xs arbitrary: s) (simp_all split: bind_split)

locale op_refinement =
  fixes run :: "'op \<Rightarrow> 's \<Rightarrow> 's option"
    and spec :: "'op \<Rightarrow> 'a \<Rightarrow> 'a"
    and abs :: "'s \<Rightarrow> 'a"
    and ok :: "nat \<Rightarrow> 's \<Rightarrow> bool"
  assumes step: "ok (Suc n) s \<Longrightarrow> \<exists>s'. run x s = Some s' \<and> ok n s' \<and> abs s' = spec x (abs s)"
begin

text \<open>A sequence of operations within the budget returns, with the effect of the abstract ones.\<close>

lemma run_refines:
  assumes "ok (n + length xs) s"
  shows "\<exists>s'. run_ops run xs s = Some s' \<and> ok n s' \<and> abs s' = fold spec xs (abs s)"
  using assms
proof (induction xs arbitrary: s)
  case (Cons x xs)
  then obtain s' where "run x s = Some s'" "ok (n + length xs) s'" "abs s' = spec x (abs s)"
    using step [of "n + length xs" s x] by auto
  then show ?case
    using Cons.IH [of s'] by simp
qed simp

text \<open>What every abstract operation keeps, the component keeps.\<close>

lemma run_invariant:
  assumes "ok (length xs) s" and "P (abs s)" and "\<And>x a. P a \<Longrightarrow> P (spec x a)"
  shows "\<exists>s'. run_ops run xs s = Some s' \<and> P (abs s')"
proof -
  have "P (fold spec xs (abs s))"
    using assms(2) by (induction xs arbitrary: s rule: rev_induct) (simp_all add: assms(3))
  then show ?thesis
    using run_refines [of 0 xs s] assms(1) by auto
qed

end

end
