(* ===== verification/Chunk_Store.thy ===== *)
theory Chunk_Store
  imports Chunk_Index Op_Refinement
begin

text \<open>
  The operations of the chunk table against the finite map they implement: updates in place, the
  queue of freed records, eviction under a cap, and insertion with growth. Eviction only ever
  removes a freed record, and it fails only when there is none.
\<close>

section \<open>New and cleared tables\<close>

lemma chunk_table_new_ok:
  assumes "round_capacity n \<le> 2 ^ 64"
  shows "ct_ok (chunk_table_new n)" "ct_map (chunk_table_new n) = Map.empty"
proof -
  obtain k where k: "4 \<le> k" "round_capacity n = 2 ^ k"
    using round_capacity_pow2 by blast
  have "k \<le> 64"
    using assms unfolding k(2) by (rule power_le_imp_le_exp [rotated]) simp
  then show "ct_ok (chunk_table_new n)"
    using k by (auto simp: ct_ok_def ct_geom_def chunk_table_new_def Let_def rh_run_def rh_keys_def countr_zero_pow2)
  show "ct_map (chunk_table_new n) = Map.empty"
    by (simp add: ct_map_def chunk_table_new_def Let_def)
qed

lemma map_const_replicate: "map (\<lambda>_. c) xs = replicate (length xs) c"
  by (rule nth_equalityI) simp_all

lemma clear_correct:
  assumes "ct_ok t"
  shows "ct_ok (clear t)" "ct_map (clear t) = Map.empty" "ct_size (clear t) = 0"
  using assms
  by (auto simp: ct_ok_def ct_geom_def clear_def ct_map_def rh_run_def rh_keys_def map_const_replicate)

section \<open>Updates in place\<close>

lemma rh_run_keys_cong:
  assumes "length ys = length xs" and "\<And>i. i < length xs \<Longrightarrow> occ (ys ! i) = occ (xs ! i)"
    and "\<And>i. i < length xs \<Longrightarrow> c_key (ys ! i) = c_key (xs ! i)"
  shows "rh_run ih ys = rh_run ih xs" "rh_keys ys = rh_keys xs"
    "length (filter occ ys) = length (filter occ xs)"
proof -
  have "dst ih ys i = dst ih xs i" if "i < length xs" for i
    using assms that by (simp add: dst_def)
  moreover have "prv (length xs) i < length xs" if "i < length xs" for i
    using that by simp
  ultimately show "rh_run ih ys = rh_run ih xs"
    using assms by (simp add: rh_run_def)
  show "rh_keys ys = rh_keys xs"
    using assms by (simp add: rh_keys_def)
  have "{i. i < length xs \<and> occ (ys ! i)} = {i. i < length xs \<and> occ (xs ! i)}"
    using assms by auto
  then show "length (filter occ ys) = length (filter occ xs)"
    by (simp add: length_filter_conv_card assms(1))
qed

lemma ct_ok_relabel:
  assumes ok: "ct_ok t" and t': "ct_frame t t'"
    and same: "\<And>i. i < length (ct_slots t) \<Longrightarrow> occ (ct_slots t' ! i) = occ (ct_slots t ! i)"
      "\<And>i. i < length (ct_slots t) \<Longrightarrow> c_key (ct_slots t' ! i) = c_key (ct_slots t ! i)"
  shows "ct_ok t'"
proof -
  have len: "length (ct_slots t') = length (ct_slots t)"
    using t' by (simp add: ct_frame_def)
  show ?thesis
    using ok ct_frame_geom [OF t'] ct_frame_ideal [OF t'] rh_run_keys_cong [OF len same] t'
    by (auto simp: ct_ok_def ct_frame_def)
qed

lemma upd_slot_correct:
  assumes ok: "ct_ok t" and found: "find t key = Some i"
    and f: "c_key (f (ct_slots t ! i)) = key" "occ (f (ct_slots t ! i))"
  shows "ct_ok (upd_slot t i f)" "ct_map (upd_slot t i f) = (ct_map t)(key \<mapsto> f (ct_slots t ! i))"
    "ct_frame t (upd_slot t i f)" "ct_stats (upd_slot t i f) = ct_stats t"
proof -
  note D = ct_okD [OF ok]
  have i: "i < length (ct_slots t)" "occ (ct_slots t ! i)" "c_key (ct_slots t ! i) = key"
    using find_Some [OF D(1-3)] found by auto
  show fr: "ct_frame t (upd_slot t i f)"
    by (simp add: upd_slot_def ct_frame_def)
  show "ct_ok (upd_slot t i f)"
    using i f by (intro ct_ok_relabel [OF ok fr]) (auto simp: upd_slot_def nth_list_update)
  have nz: "c_key (f (ct_slots t ! i)) \<noteq> 0"
    using rh_keysD(1) [OF D(3) i(1)] i(2,3) f(1) by simp
  have "\<forall>j < length (ct_slots t). j \<noteq> i \<longrightarrow> occ (ct_slots t ! j) \<longrightarrow> c_key (ct_slots t ! j) \<noteq> c_key (f (ct_slots t ! i))"
    using rh_keysD(2) [OF D(3) _ i(1)] i(3) f(1) by metis
  then have "entries ((ct_slots t)[i := f (ct_slots t ! i)]) =
      ((entries (ct_slots t))(c_key (ct_slots t ! i) := None))(c_key (f (ct_slots t ! i)) \<mapsto> f (ct_slots t ! i))"
    by (rule entries_put [OF D(3) i(1) f(2) nz])
  then show "ct_map (upd_slot t i f) = (ct_map t)(key \<mapsto> f (ct_slots t ! i))"
    unfolding i(3) f(1) ct_map_def upd_slot_def by simp
  show "ct_stats (upd_slot t i f) = ct_stats t"
    by (simp add: upd_slot_def)
qed

lemma clear_refined_correct:
  assumes ok: "ct_ok t"
  shows "ct_ok (clear_refined t)"
    and "ct_map (clear_refined t) = (\<lambda>k. map_option (\<lambda>c. c\<lparr>c_flags := c_flags c AND NOT (kChunkFlagRefined OR kHeaderFlagMask),
     c_overhead_exact := 0\<rparr>) (ct_map t k))"
proof -
  let ?f = "\<lambda>c :: chunk. c\<lparr>c_flags := c_flags c AND NOT (kChunkFlagRefined OR kHeaderFlagMask), c_overhead_exact := 0\<rparr>"
  show "ct_ok (clear_refined t)"
    by (rule ct_ok_relabel [OF ok]) (simp_all add: clear_refined_def ct_frame_def occ_def)
  have "filter occ (map ?f xs) = map ?f (filter occ xs)" for xs
    by (simp add: filter_map comp_def occ_def [abs_def])
  then have "entries (map ?f xs) = map_of (map (\<lambda>(k, c). (k, ?f c)) (map (\<lambda>c. (c_key c, c)) (filter occ xs)))" for xs
    by (simp add: entries_def comp_def)
  then have "entries (map ?f xs) = map_option ?f \<circ> entries xs" for xs
    unfolding map_of_map entries_def by simp
  then show "ct_map (clear_refined t) = (\<lambda>k. map_option ?f (ct_map t k))"
    by (simp add: ct_map_def clear_refined_def comp_def)
qed

section \<open>The freed queue\<close>

lemma push_freed_simps [simp]:
  "ct_slots (push_freed t k) = ct_slots t" "ct_mask (push_freed t k) = ct_mask t"
  "ct_shift (push_freed t k) = ct_shift t" "ct_size (push_freed t k) = ct_size t"
  "ct_max_entries (push_freed t k) = ct_max_entries t" "ct_stats (push_freed t k) = ct_stats t"
  "length (ct_freed_fifo (push_freed t k)) = length (ct_freed_fifo t)"
  by (auto simp: push_freed_def Let_def)

lemma push_freed_ideal [simp]: "ideal_slot (push_freed t k) = ideal_slot t"
  by (simp add: ideal_slot_def fun_eq_iff)

lemma push_freed_correct:
  assumes "ct_ok t"
  shows "ct_ok (push_freed t k)" "ct_map (push_freed t k) = ct_map t"
proof -
  have "ct_freed_fifo (push_freed t k) \<noteq> [] \<longleftrightarrow> ct_freed_fifo t \<noteq> []"
    by (metis length_0_conv push_freed_simps(7))
  then show "ct_ok (push_freed t k)"
    using assms by (auto simp: ct_ok_def ct_geom_def) (auto simp: push_freed_def Let_def)
  show "ct_map (push_freed t k) = ct_map t"
    by (simp add: ct_map_def)
qed

lemma mark_freed_correct:
  assumes ok: "ct_ok t"
  shows "ct_ok (snd (mark_freed t key ms))" "fst (mark_freed t key ms) = (ct_map t key \<noteq> None)"
    "ct_map (snd (mark_freed t key ms)) =
      (case ct_map t key of None \<Rightarrow> ct_map t
       | Some c \<Rightarrow> (ct_map t)(key \<mapsto> c\<lparr>c_state := ChunkFreed, c_free_ms := ms\<rparr>))"
    "ct_size (snd (mark_freed t key ms)) = ct_size t"
    "length (ct_slots (snd (mark_freed t key ms))) = length (ct_slots t)"
proof -
  let ?f = "\<lambda>c :: chunk. c\<lparr>c_state := ChunkFreed, c_free_ms := ms\<rparr>"
  have "ct_ok (upd_slot t i ?f) \<and> ct_map (upd_slot t i ?f) = (ct_map t)(key \<mapsto> ?f (ct_slots t ! i)) \<and>
      ct_frame t (upd_slot t i ?f)" if "find t key = Some i" for i
  proof -
    have "c_key (ct_slots t ! i) = key"
      using find_Some [OF ct_okD(1-3) [OF ok]] that by auto
    then show ?thesis
      using upd_slot_correct(1-3) [OF ok that, of ?f] by (simp add: occ_def)
  qed
  then show "ct_ok (snd (mark_freed t key ms))" "fst (mark_freed t key ms) = (ct_map t key \<noteq> None)"
    "ct_map (snd (mark_freed t key ms)) = (case ct_map t key of None \<Rightarrow> ct_map t | Some c \<Rightarrow> (ct_map t)(key \<mapsto> ?f c))"
    "ct_size (snd (mark_freed t key ms)) = ct_size t"
    "length (ct_slots (snd (mark_freed t key ms))) = length (ct_slots t)"
    using ok push_freed_correct find_map [OF ok, of key]
    by (auto simp: mark_freed_def ct_frame_def split: option.splits)
qed

lemma mark_refined_correct:
  assumes ok: "ct_ok t"
  shows "ct_ok (snd (mark_refined t key ov fl))"
    "fst (mark_refined t key ov fl) = (ct_map t key \<noteq> None \<and> ov \<le> 0xFFFF)"
    "ct_map (snd (mark_refined t key ov fl)) =
      (case ct_map t key of None \<Rightarrow> ct_map t
       | Some c \<Rightarrow> if ov \<le> 0xFFFF then (ct_map t)(key \<mapsto> c\<lparr>c_overhead_exact := ucast ov,
            c_flags := c_flags c OR kChunkFlagRefined OR (fl AND kHeaderFlagMask)\<rparr>) else ct_map t)"
    "ct_frame t (snd (mark_refined t key ov fl))"
proof -
  let ?f = "\<lambda>c. c\<lparr>c_overhead_exact := ucast ov, c_flags := c_flags c OR kChunkFlagRefined OR (fl AND kHeaderFlagMask)\<rparr>"
  have "ct_ok (upd_slot t i ?f) \<and> ct_map (upd_slot t i ?f) = (ct_map t)(key \<mapsto> ?f (ct_slots t ! i)) \<and>
      ct_frame t (upd_slot t i ?f)" if "find t key = Some i" for i
  proof -
    have "c_key (ct_slots t ! i) = key" "occ (ct_slots t ! i)"
      using find_Some [OF ct_okD(1-3) [OF ok]] that by auto
    then show ?thesis
      using upd_slot_correct(1-3) [OF ok that, of ?f] by (simp add: occ_def)
  qed
  then show "ct_ok (snd (mark_refined t key ov fl))"
    "fst (mark_refined t key ov fl) = (ct_map t key \<noteq> None \<and> ov \<le> 0xFFFF)"
    "ct_map (snd (mark_refined t key ov fl)) =
      (case ct_map t key of None \<Rightarrow> ct_map t | Some c \<Rightarrow> if ov \<le> 0xFFFF then (ct_map t)(key \<mapsto> ?f c) else ct_map t)"
    "ct_frame t (snd (mark_refined t key ov fl))"
    using ok find_map [OF ok, of key] by (auto simp: mark_refined_def not_less split: option.splits)
qed


section \<open>Eviction\<close>

definition freed_rec :: "chunk_table \<Rightarrow> u64 \<Rightarrow> bool" where
  "freed_rec t k \<longleftrightarrow> (\<exists>c. ct_map t k = Some c \<and> c_state c = ChunkFreed)"

lemma freed_rec_find:
  assumes "ct_ok t"
  shows "freed_rec t k \<longleftrightarrow> (\<exists>i. find t k = Some i \<and> c_state (ct_slots t ! i) = ChunkFreed)"
  by (auto simp: freed_rec_def find_map [OF assms])

text \<open>The keys still queued, oldest first.\<close>

definition queued :: "chunk_table \<Rightarrow> u64 list" where
  "queued t = map (\<lambda>i. ct_freed_fifo t ! ((ct_freed_head t + i) mod length (ct_freed_fifo t)))
     [0..<cdist (length (ct_freed_fifo t)) (ct_freed_tail t) (ct_freed_head t)]"

definition evicted_from :: "chunk_table \<Rightarrow> chunk_table \<Rightarrow> bool" where
  "evicted_from t t' \<longleftrightarrow> (\<exists>k. freed_rec t k \<and> ct_map t' = (ct_map t)(k := None)) \<and> Suc (ct_size t') = ct_size t"

definition ct_caps :: "chunk_table \<Rightarrow> chunk_table \<Rightarrow> bool" where
  "ct_caps t t' \<longleftrightarrow> length (ct_slots t') = length (ct_slots t) \<and> ct_max_entries t' = ct_max_entries t \<and>
     length (ct_freed_fifo t') = length (ct_freed_fifo t)"

lemma set_head_ok:
  assumes "ct_ok t" and "ct_freed_fifo t \<noteq> []" and "h < length (ct_freed_fifo t)"
  shows "ct_ok (t\<lparr>ct_freed_head := h\<rparr>)" "ct_map (t\<lparr>ct_freed_head := h\<rparr>) = ct_map t"
  using assms by (auto simp: ct_ok_def ct_geom_def ct_map_def)

lemma ct_map_queue [simp]: "ct_map (t\<lparr>ct_freed_head := h\<rparr>) = ct_map t" "ct_map (t\<lparr>ct_freed_tail := h\<rparr>) = ct_map t"
  by (simp_all add: ct_map_def)

lemma ct_ok_stats [simp]: "ct_ok (t\<lparr>ct_stats := s\<rparr>) = ct_ok t" "ct_map (t\<lparr>ct_stats := s\<rparr>) = ct_map t"
  by (simp_all add: ct_ok_def ct_geom_def ct_map_def)

lemma ct_size_card: "ct_ok t \<Longrightarrow> ct_size t = card (dom (ct_map t))"
  using card_dom_entries [OF ct_okD(3)] ct_okD(4) by (simp add: ct_map_def)

lemma ct_size_pos: "ct_ok t \<Longrightarrow> ct_map t k \<noteq> None \<Longrightarrow> 0 < ct_size t"
  unfolding ct_size_card by (auto simp: card_gt_0_iff ct_map_def entries_def finite_dom_map_of)

lemma pop_loop_correct:
  assumes "ct_ok t" and "ct_freed_fifo t \<noteq> [] \<or> ct_freed_head t = ct_freed_tail t"
    and "cdist (length (ct_freed_fifo t)) (ct_freed_tail t) (ct_freed_head t) \<le> fuel"
  shows "\<exists>ok t'. pop_loop fuel t = Some (ok, t') \<and> ct_ok t' \<and> ct_caps t t' \<and>
    (if ok then evicted_from t t' else ct_map t' = ct_map t \<and> ct_size t' = ct_size t \<and> (\<forall>k \<in> set (queued t). \<not> freed_rec t k))"
  using assms
proof (induction fuel arbitrary: t)
  case 0
  have "ct_freed_head t = ct_freed_tail t"
    using 0 by (cases "ct_freed_fifo t = []") (simp_all add: cdist_0_iff ct_ok_def)
  then show ?case
    using 0 by (auto simp: ct_caps_def queued_def intro: exI [of _ False])
next
  case (Suc fuel)
  let ?n = "length (ct_freed_fifo t)" and ?h = "ct_freed_head t"
  show ?case
  proof (cases "?h = ct_freed_tail t")
    case True
    have "queued t = []"
      using True by (cases "ct_freed_fifo t = []") (auto simp: queued_def cdist_def)
    then show ?thesis
      using True Suc.prems by (auto simp: ct_caps_def intro: exI [of _ False])
  next
    case False
    let ?key = "ct_freed_fifo t ! ?h" and ?t = "t\<lparr>ct_freed_head := (?h + 1) mod ?n\<rparr>"
    have ne: "ct_freed_fifo t \<noteq> []" and h: "?h < ?n" "ct_freed_tail t < ?n"
      using Suc.prems False by (auto simp: ct_ok_def)
    have ok: "ct_ok ?t" and m: "ct_map ?t = ct_map t"
      using set_head_ok [OF Suc.prems(1) ne, of "(?h + 1) mod ?n"] ne by simp_all
    have dist: "Suc (cdist ?n (ct_freed_tail t) (nxt ?n ?h)) = cdist ?n (ct_freed_tail t) ?h"
      using cdist_from_nxt [OF h] False by simp
    have "(?h + Suc i) mod ?n = (nxt ?n ?h + i) mod ?n" for i
      by (simp add: nxt_def mod_add_left_eq)
    then have q: "queued t = ?key # queued ?t"
      unfolding queued_def dist [symmetric] using h(1) by (simp add: map_upt_Suc nxt_def del: upt_Suc)
    have "ct_freed_fifo ?t \<noteq> [] \<or> ct_freed_head ?t = ct_freed_tail ?t"
      using ne by simp
    moreover have "cdist (length (ct_freed_fifo ?t)) (ct_freed_tail ?t) (ct_freed_head ?t) \<le> fuel"
      using dist Suc.prems(3) by (simp add: nxt_def)
    ultimately obtain b t' where IH: "pop_loop fuel ?t = Some (b, t')" "ct_ok t'" "ct_caps ?t t'"
      "if b then evicted_from ?t t' else ct_map t' = ct_map ?t \<and> ct_size t' = ct_size ?t \<and> (\<forall>k \<in> set (queued ?t). \<not> freed_rec ?t k)"
      using Suc.IH [OF ok] by blast
    have skip: ?thesis if "\<not> freed_rec t ?key" and "pop_loop (Suc fuel) t = pop_loop fuel ?t"
    proof -
      have "if b then evicted_from t t' else ct_map t' = ct_map t \<and> ct_size t' = ct_size t \<and> (\<forall>k \<in> set (queued t). \<not> freed_rec t k)"
        using IH(4) m that(1) unfolding q by (auto simp: evicted_from_def freed_rec_def)
      then show ?thesis
        using IH(1-3) that(2) by (auto simp: ct_caps_def)
    qed
    show ?thesis
    proof (cases "find ?t ?key")
      case None
      then have "\<not> freed_rec t ?key"
        using freed_rec_find [OF ok, of ?key] by (simp add: freed_rec_def m)
      then show ?thesis
        using skip None False by (simp add: Let_def)
    next
      case (Some i)
      show ?thesis
      proof (cases "c_state (ct_slots t ! i) = ChunkFreed")
        case False': False
        then have "\<not> freed_rec t ?key"
          using freed_rec_find [OF ok, of ?key] Some by (simp add: freed_rec_def m)
        then show ?thesis
          using skip Some False False' by (simp add: Let_def)
      next
        case True
        then have fr: "freed_rec t ?key"
          using freed_rec_find [OF ok, of ?key] Some by (simp add: freed_rec_def m)
        then have mem: "ct_map ?t ?key \<noteq> None"
          by (auto simp: freed_rec_def m)
        obtain t' where "erase ?t ?key = Some (ct_map ?t ?key \<noteq> None, t')" "ct_ok t'" "ct_map t' = (ct_map ?t)(?key := None)"
          "ct_size t' = ct_size ?t - 1" "length (ct_slots t') = length (ct_slots ?t)"
          "ct_max_entries t' = ct_max_entries ?t" "ct_freed_fifo t' = ct_freed_fifo ?t"
          using erase_correct [OF ok, of ?key] mem by auto
        then show ?thesis
          using Some True False m fr ct_size_pos [OF ok mem]
          by (auto simp: Let_def evicted_from_def ct_caps_def)
      qed
    qed
  qed
qed


text \<open>Refilling an exhausted queue takes the freed records in the order they were freed.\<close>

lemma push_freed_front:
  assumes "ct_freed_head t = 0" and "ct_freed_tail t + 1 < length (ct_freed_fifo t)"
  shows "ct_freed_head (push_freed t k) = 0" "ct_freed_tail (push_freed t k) = ct_freed_tail t + 1"
    "take (ct_freed_tail t + 1) (ct_freed_fifo (push_freed t k)) = take (ct_freed_tail t) (ct_freed_fifo t) @ [k]"
  using assms by (auto simp: push_freed_def Let_def take_Suc_conv_app_nth)

lemma push_all_front:
  assumes "ct_freed_head t = 0" and "ct_freed_tail t + length ps < length (ct_freed_fifo t)"
  shows "ct_freed_head (fold (\<lambda>p t. push_freed t (snd p)) ps t) = 0 \<and>
    ct_freed_tail (fold (\<lambda>p t. push_freed t (snd p)) ps t) = ct_freed_tail t + length ps \<and>
    take (ct_freed_tail t + length ps) (ct_freed_fifo (fold (\<lambda>p t. push_freed t (snd p)) ps t)) =
      take (ct_freed_tail t) (ct_freed_fifo t) @ map snd ps"
  using assms
proof (induction ps arbitrary: t)
  case (Cons p ps)
  have p: "ct_freed_head (push_freed t (snd p)) = 0" "ct_freed_tail (push_freed t (snd p)) = ct_freed_tail t + 1"
    "take (ct_freed_tail t + 1) (ct_freed_fifo (push_freed t (snd p))) = take (ct_freed_tail t) (ct_freed_fifo t) @ [snd p]"
    using push_freed_front [of t "snd p"] Cons.prems by simp_all
  show ?case
    using Cons.IH [of "push_freed t (snd p)"] Cons.prems p by simp
qed simp

lemma fold_push_frame:
  "ct_ok t \<Longrightarrow> ct_ok (fold (\<lambda>p t. push_freed t (snd p)) ps t) \<and> ct_map (fold (\<lambda>p t. push_freed t (snd p)) ps t) = ct_map t \<and>
    ct_caps t (fold (\<lambda>p t. push_freed t (snd p)) ps t) \<and> ct_size (fold (\<lambda>p t. push_freed t (snd p)) ps t) = ct_size t"
proof (induction ps arbitrary: t)
  case (Cons p ps)
  then show ?case
    using push_freed_correct [OF Cons.prems, of "snd p"] by (simp add: ct_caps_def)
qed (simp add: ct_caps_def)

lemma queued_front: "ct_freed_head t = 0 \<Longrightarrow> ct_freed_tail t < length (ct_freed_fifo t) \<Longrightarrow>
    queued t = take (ct_freed_tail t) (ct_freed_fifo t)"
  by (rule nth_equalityI) (auto simp: queued_def cdist_def)

lemma refill_correct:
  assumes ok: "ct_ok t"
  shows "ct_ok (refill_freed_queue t)" "ct_map (refill_freed_queue t) = ct_map t" "ct_caps t (refill_freed_queue t)"
    "ct_size (refill_freed_queue t) = ct_size t"
    "ct_freed_fifo t \<noteq> [] \<Longrightarrow> queued (refill_freed_queue t) =
      take (length (ct_freed_fifo t) - 1) (map snd (freed_by_age (ct_slots t)))"
proof -
  let ?t = "t\<lparr>ct_freed_head := 0, ct_freed_tail := 0\<rparr>"
  let ?m = "length (ct_freed_fifo t) - 1" and ?freed = "freed_by_age (ct_slots t)"
  let ?r = "fold (\<lambda>p t. push_freed t (snd p)) (take ?m ?freed) ?t"
  have "ct_ok ?t"
    using ok by (auto simp: ct_ok_def ct_geom_def)
  note fr = fold_push_frame [OF this, of "take ?m ?freed"]
  have eq: "refill_freed_queue t = (if ct_freed_fifo t = [] then t else ?r)"
    by (simp add: refill_freed_queue_def Let_def not_less)
  show "ct_ok (refill_freed_queue t)" "ct_map (refill_freed_queue t) = ct_map t" "ct_caps t (refill_freed_queue t)"
    "ct_size (refill_freed_queue t) = ct_size t"
    using fr ok by (auto simp: eq ct_caps_def ct_map_def)
  show "queued (refill_freed_queue t) = take ?m (map snd ?freed)" if ne: "ct_freed_fifo t \<noteq> []"
  proof -
    have "length (take ?m ?freed) < length (ct_freed_fifo ?t)"
      using ne by (cases "ct_freed_fifo t") auto
    then have "ct_freed_head ?r = 0" "ct_freed_tail ?r = length (take ?m ?freed)"
      "take (length (take ?m ?freed)) (ct_freed_fifo ?r) = map snd (take ?m ?freed)"
      "ct_freed_tail ?r < length (ct_freed_fifo ?r)"
      using push_all_front [of ?t "take ?m ?freed"] fr by (simp_all add: ct_caps_def)
    then show ?thesis
      using queued_front [of ?r] ne by (simp add: eq take_map)
  qed
qed

lemma freed_by_age_keys:
  assumes "ct_ok t"
  shows "snd ` set (freed_by_age (ct_slots t)) = {k. freed_rec t k}"
proof -
  have "snd ` set (freed_by_age (ct_slots t)) = c_key ` {c \<in> set (ct_slots t). c_state c = ChunkFreed}"
    by (simp add: freed_by_age_def image_image)
  also have "\<dots> = {k. freed_rec t k}"
    unfolding freed_rec_def ct_map_def entries_Some [OF ct_okD(3) [OF assms]]
    by (auto simp: in_set_conv_nth occ_def image_iff) (metis chunk_state.distinct(3))+
  finally show ?thesis .
qed


section \<open>The table invariant with its cap\<close>

text \<open>
  The queue has one slot more than the cap, or none without a cap. The slot array stays addressable:
  \<^verbatim>\<open>new Chunk[n]\<close> of a larger table cannot succeed in a 64-bit address space.
\<close>

definition table_inv :: "chunk_table \<Rightarrow> bool" where
  "table_inv t \<longleftrightarrow> ct_ok t \<and> length (ct_slots t) \<le> 2 ^ 63 \<and>
     length (ct_freed_fifo t) = (if ct_max_entries t = 0 then 0 else ct_max_entries t + 1) \<and>
     (ct_max_entries t = 0 \<longrightarrow> ct_freed_head t = ct_freed_tail t)"

lemma table_invD:
  assumes "table_inv t"
  shows "ct_ok t" "length (ct_slots t) \<le> 2 ^ 63" "ct_freed_fifo t \<noteq> [] \<or> ct_freed_head t = ct_freed_tail t"
    "ct_freed_fifo t = [] \<longleftrightarrow> ct_max_entries t = 0"
  using assms unfolding table_inv_def by (auto split: if_splits)

lemma table_inv_caps:
  assumes "table_inv t" "ct_ok t'" "ct_caps t t'" "ct_max_entries t \<noteq> 0"
  shows "table_inv t'"
  using assms by (simp add: table_inv_def ct_caps_def)

lemma ct_caps_trans: "ct_caps t u \<Longrightarrow> ct_caps u v \<Longrightarrow> ct_caps t v"
  by (simp add: ct_caps_def)

lemma pop_evictable_correct:
  assumes inv: "table_inv t"
  shows "\<exists>ok t'. pop_evictable t = Some (ok, t') \<and> ct_ok t' \<and> ct_caps t t' \<and>
    (if ok then evicted_from t t' else ct_map t' = ct_map t \<and> ct_size t' = ct_size t \<and> (\<forall>k \<in> set (queued t). \<not> freed_rec t k))"
proof -
  have "cdist (length (ct_freed_fifo t)) (ct_freed_tail t) (ct_freed_head t) \<le> length (ct_freed_fifo t)"
  proof (cases "ct_freed_fifo t = []")
    case True
    then show ?thesis
      using table_invD(3) [OF inv] by (simp add: cdist_def)
  next
    case False
    then show ?thesis
      by (intro less_imp_le [OF cdist_less]) simp
  qed
  then show ?thesis
    unfolding pop_evictable_def by (rule pop_loop_correct [OF table_invD(1,3) [OF inv]])
qed

lemma make_room_correct:
  assumes inv: "table_inv t" and cap: "ct_max_entries t \<noteq> 0"
  shows "\<exists>ok t'. make_room t = Some (ok, t') \<and> table_inv t' \<and> ct_caps t t' \<and>
    (if ok then evicted_from t t' else ct_map t' = ct_map t \<and> ct_size t' = ct_size t \<and> (\<forall>k. \<not> freed_rec t k))"
proof -
  obtain ok1 t1 where 1: "pop_evictable t = Some (ok1, t1)" "ct_ok t1" "ct_caps t t1"
    "if ok1 then evicted_from t t1 else ct_map t1 = ct_map t \<and> ct_size t1 = ct_size t"
    using pop_evictable_correct [OF inv] by auto
  have inv1: "table_inv t1"
    using table_inv_caps [OF inv 1(2,3) cap] .
  show ?thesis
  proof (cases ok1)
    case True
    then show ?thesis
      using 1 inv1 by (auto simp: make_room_def intro: exI [of _ True])
  next
    case False
    let ?r = "refill_freed_queue t1"
    note r = refill_correct [OF 1(2)]
    have cap1: "ct_max_entries t1 \<noteq> 0" "ct_freed_fifo t1 \<noteq> []"
      using cap 1(3) table_invD(4) [OF inv1] by (auto simp: ct_caps_def)
    have invr: "table_inv ?r"
      using table_inv_caps [OF inv1 r(1,3) cap1(1)] .
    obtain ok2 t2 where 2: "pop_evictable ?r = Some (ok2, t2)" "ct_ok t2" "ct_caps ?r t2"
      "if ok2 then evicted_from ?r t2 else ct_map t2 = ct_map ?r \<and> ct_size t2 = ct_size ?r \<and> (\<forall>k \<in> set (queued ?r). \<not> freed_rec ?r k)"
      using pop_evictable_correct [OF invr] by auto
    have caps: "ct_caps t t2"
      using ct_caps_trans [OF 1(3) ct_caps_trans [OF r(3) 2(3)]] .
    have same: "freed_rec ?r = freed_rec t" "ct_map t1 = ct_map t" "ct_size t1 = ct_size t"
      using r(2) 1(4) False by (simp_all add: freed_rec_def fun_eq_iff)
    have "\<not> freed_rec t k" if "\<not> ok2" for k
    proof
      assume "freed_rec t k"
      then have "snd ` set (freed_by_age (ct_slots t1)) \<noteq> {}"
        using freed_by_age_keys [OF 1(2)] same by (auto simp: freed_rec_def)
      then obtain p ps where ps: "freed_by_age (ct_slots t1) = p # ps"
        by (cases "freed_by_age (ct_slots t1)") auto
      have "2 \<le> length (ct_freed_fifo t1)"
        using inv1 cap1(1) by (simp add: table_inv_def)
      then have "snd p \<in> set (queued ?r)"
        using r(5) [OF cap1(2)] ps by (cases "length (ct_freed_fifo t1) - 1") auto
      moreover have "freed_rec t (snd p)"
        using freed_by_age_keys [OF 1(2)] ps same(2) by (auto simp: freed_rec_def)
      ultimately show False
        using 2(4) that same by auto
    qed
    then have "if ok2 then evicted_from t t2 else ct_map t2 = ct_map t \<and> ct_size t2 = ct_size t \<and> (\<forall>k. \<not> freed_rec t k)"
      using 2(4) same r(2,4) by (auto simp: evicted_from_def)
    then show ?thesis
      using 1(1) 2(1) False table_inv_caps [OF inv 2(2) caps cap] caps by (simp add: make_room_def)
  qed
qed

lemma shrink_loop_correct:
  assumes "table_inv t" and "ct_max_entries t \<noteq> 0" and "ct_size t \<le> fuel"
  shows "\<exists>t'. shrink_loop fuel t = Some t' \<and> table_inv t' \<and> ct_caps t t' \<and> ct_map t' \<subseteq>\<^sub>m ct_map t \<and>
    (\<forall>k c. ct_map t k = Some c \<longrightarrow> c_state c \<noteq> ChunkFreed \<longrightarrow> ct_map t' k = Some c) \<and>
    (ct_size t' \<le> ct_max_entries t \<or> (\<forall>k. \<not> freed_rec t' k))"
  using assms
proof (induction fuel arbitrary: t)
  case 0
  then show ?case by (simp add: ct_caps_def)
next
  case (Suc fuel)
  show ?case
  proof (cases "ct_size t > ct_max_entries t")
    case False
    then show ?thesis
      using Suc.prems by (simp add: ct_caps_def)
  next
    case True
    obtain ok t1 where 1: "make_room t = Some (ok, t1)" "table_inv t1" "ct_caps t t1"
      "if ok then evicted_from t t1 else ct_map t1 = ct_map t \<and> ct_size t1 = ct_size t \<and> (\<forall>k. \<not> freed_rec t k)"
      using make_room_correct [OF Suc.prems(1,2)] by auto
    show ?thesis
    proof (cases ok)
      case False
      then show ?thesis
        using 1 True by (auto simp: freed_rec_def)
    next
      case ok: True
      have "ct_size t1 \<le> fuel" "ct_max_entries t1 = ct_max_entries t"
        using 1(3,4) ok Suc.prems(3) by (auto simp: evicted_from_def ct_caps_def)
      then obtain t2 where 2: "shrink_loop fuel t1 = Some t2" "table_inv t2" "ct_caps t1 t2" "ct_map t2 \<subseteq>\<^sub>m ct_map t1"
        "\<forall>k c. ct_map t1 k = Some c \<longrightarrow> c_state c \<noteq> ChunkFreed \<longrightarrow> ct_map t2 k = Some c"
        "ct_size t2 \<le> ct_max_entries t \<or> (\<forall>k. \<not> freed_rec t2 k)"
        using Suc.IH [OF 1(2)] Suc.prems(2) by auto
      obtain k0 where k0: "freed_rec t k0" "ct_map t1 = (ct_map t)(k0 := None)"
        using 1(4) ok by (auto simp: evicted_from_def)
      have "ct_map t1 \<subseteq>\<^sub>m ct_map t" "\<forall>k c. ct_map t k = Some c \<longrightarrow> c_state c \<noteq> ChunkFreed \<longrightarrow> ct_map t1 k = Some c"
        using k0 by (auto simp: map_le_def freed_rec_def)
      then have "ct_map t2 \<subseteq>\<^sub>m ct_map t" "\<forall>k c. ct_map t k = Some c \<longrightarrow> c_state c \<noteq> ChunkFreed \<longrightarrow> ct_map t2 k = Some c"
        using 2(4,5) map_le_trans by blast+
      then show ?thesis
        using True ok 1(1) 2(1,2,6) ct_caps_trans [OF 1(3) 2(3)] by simp
    qed
  qed
qed


lemma fresh_queue_inv:
  assumes "table_inv t" and "n \<noteq> 0"
  shows "table_inv (t\<lparr>ct_max_entries := n, ct_freed_fifo := replicate (n + 1) 0, ct_freed_head := 0, ct_freed_tail := 0\<rparr>)"
  using assms by (auto simp: table_inv_def ct_ok_def ct_geom_def)

lemma set_max_entries_correct:
  assumes inv: "table_inv t"
  shows "\<exists>t'. set_max_entries t n = Some t' \<and> table_inv t' \<and> ct_max_entries t' = n \<and> ct_map t' \<subseteq>\<^sub>m ct_map t \<and>
    (\<forall>k c. ct_map t k = Some c \<longrightarrow> c_state c \<noteq> ChunkFreed \<longrightarrow> ct_map t' k = Some c) \<and>
    (n = 0 \<and> ct_map t' = ct_map t \<or> n \<noteq> 0 \<and> (ct_size t' \<le> n \<or> (\<forall>k. \<not> freed_rec t' k)))"
proof (cases "n = 0")
  case True
  then show ?thesis
    using inv by (auto simp: set_max_entries_def table_inv_def ct_ok_def ct_geom_def ct_map_def ideal_slot_def)
next
  case False
  let ?t = "t\<lparr>ct_max_entries := n, ct_freed_fifo := replicate (n + 1) 0, ct_freed_head := 0, ct_freed_tail := 0\<rparr>"
  note invt = fresh_queue_inv [OF inv False]
  have mt: "ct_map ?t = ct_map t"
    by (simp add: ct_map_def)
  note r = refill_correct [OF table_invD(1) [OF invt]]
  have n: "ct_max_entries ?t \<noteq> 0"
    using False by simp
  have "ct_size (refill_freed_queue ?t) \<le> ct_size t" "ct_max_entries (refill_freed_queue ?t) = n"
    using r(3,4) by (simp_all add: ct_caps_def)
  then obtain t' where "shrink_loop (ct_size t) (refill_freed_queue ?t) = Some t'" "table_inv t'"
    "ct_caps (refill_freed_queue ?t) t'" "ct_map t' \<subseteq>\<^sub>m ct_map t"
    "\<forall>k c. ct_map t k = Some c \<longrightarrow> c_state c \<noteq> ChunkFreed \<longrightarrow> ct_map t' k = Some c"
    "ct_size t' \<le> n \<or> (\<forall>k. \<not> freed_rec t' k)"
    using shrink_loop_correct [OF table_inv_caps [OF invt r(1,3) n], of "ct_size t"] False r(2) mt by auto
  then show ?thesis
    using False r(3) by (simp add: set_max_entries_def ct_caps_def)
qed

section \<open>Insertion\<close>

text \<open>What an insertion may have removed to make room: nothing, or one freed record at the cap.\<close>

definition room_from :: "chunk_table \<Rightarrow> u64 \<Rightarrow> (u64 \<rightharpoonup> chunk) \<Rightarrow> bool" where
  "room_from t key m \<longleftrightarrow>
     (if ct_map t key = None \<and> ct_max_entries t \<noteq> 0 \<and> ct_max_entries t \<le> ct_size t
      then \<exists>k. freed_rec t k \<and> m = (ct_map t)(k := None) else m = ct_map t)"

lemma table_inv_stats [simp]: "table_inv (t\<lparr>ct_stats := s\<rparr>) = table_inv t"
  by (simp add: table_inv_def)

lemma place_live:
  assumes inv: "table_inv t" and key: "key \<noteq> 0" "ct_map t key = None"
    and room: "(ct_size t + 1) * kLoadDenominator \<le> length (ct_slots t) * kLoadNumerator"
  shows "\<exists>t'. place t (live_chunk key sz us ms td) = Some t' \<and> ct_size t' = ct_size t \<and> ct_max_entries t' = ct_max_entries t \<and>
    (\<forall>st. table_inv (t'\<lparr>ct_size := ct_size t + 1, ct_stats := st\<rparr>)) \<and>
    ct_map t' = (ct_map t)(key \<mapsto> live_chunk key sz us ms td)"
proof -
  let ?c = "live_chunk key sz us ms td"
  note ok = table_invD(1) [OF inv]
  have rh: "rh_table t"
    using ct_okD(1-3) [OF ok] by (simp add: rh_table_def)
  have c: "occ ?c" "c_key ?c = key"
    by (simp_all add: live_chunk_def occ_def)
  obtain e where e: "e < length (ct_slots t)" "\<not> occ (ct_slots t ! e)"
    using ct_empty_slot [OF ok] by blast
  obtain t' where t': "place t ?c = Some t'" "ct_frame t t'" "rh_table t'"
    "entries (ct_slots t') = (entries (ct_slots t))(key \<mapsto> ?c)"
    using place_correct [OF rh c(1) _ _ e] c(2) key by (auto simp: ct_map_def)
  have "length (filter occ (ct_slots t')) = Suc (ct_size t)"
    using place_count [OF rh t'(3) _ t'(4)] key ct_okD(4) [OF ok] by (simp add: ct_map_def)
  then have "table_inv (t'\<lparr>ct_size := ct_size t + 1, ct_stats := st\<rparr>)" for st
    using t'(2,3) inv room by (auto simp: table_inv_def ct_ok_def rh_table_def ct_geom_def ct_frame_def)
  then show ?thesis
    using t' by (auto simp: ct_map_def ct_frame_def)
qed

lemma grow_for_one:
  assumes inv: "table_inv t" and size: "ct_size t < 2 ^ 62"
  shows "\<exists>t'. (if (ct_size t + 1) * kLoadDenominator > length (ct_slots t) * kLoadNumerator
      then grow_to t (length (ct_slots t) * 2) else Some (True, t)) = Some (True, t') \<and>
    table_inv t' \<and> ct_map t' = ct_map t \<and> ct_size t' = ct_size t \<and> ct_max_entries t' = ct_max_entries t \<and>
    (ct_size t' + 1) * kLoadDenominator \<le> length (ct_slots t') * kLoadNumerator"
proof (cases "(ct_size t + 1) * kLoadDenominator > length (ct_slots t) * kLoadNumerator")
  case False
  then show ?thesis
    using inv by simp
next
  case True
  note ok = table_invD(1) [OF inv]
  obtain k where k: "4 \<le> k" "length (ct_slots t) = 2 ^ k"
    using ct_okD(1) [OF ok] by (auto simp: ct_geom_def)
  have "k < 63"
  proof (rule ccontr)
    assume "\<not> k < 63"
    then have "(2 :: nat) ^ 63 \<le> 2 ^ k"
      by (intro power_increasing) simp_all
    then show False
      using True size by (simp add: k kLoadDenominator_def kLoadNumerator_def)
  qed
  have "(16 :: nat) \<le> 2 ^ k"
    using power_increasing [OF k(1), of "2 :: nat"] by simp
  then have cap: "round_capacity (length (ct_slots t) * 2) = 2 ^ Suc k"
    using bit_ceil_exp [of "Suc k"] by (simp add: round_capacity_def k kMinCapacity_def mult.commute)
  have le: "(2 :: nat) ^ Suc k \<le> 2 ^ 63"
    using \<open>k < 63\<close> by (intro power_increasing) simp_all
  have cap_le: "round_capacity (length (ct_slots t) * 2) \<le> 2 ^ 64"
    unfolding cap using le by (rule le_trans) simp
  obtain t' where t': "grow_to t (length (ct_slots t) * 2) = Some (True, t')" "ct_ok t'" "ct_map t' = ct_map t"
    "ct_size t' = ct_size t" "length (ct_slots t') = 2 ^ Suc k"
    "ct_max_entries t' = ct_max_entries t" "ct_freed_fifo t' = ct_freed_fifo t"
    "ct_freed_head t' = ct_freed_head t" "ct_freed_tail t' = ct_freed_tail t"
    using grow_to_correct [OF ok cap_le] unfolding cap by (auto simp: max_def k(2))
  have "table_inv t'"
    using t' inv le by (simp add: table_inv_def)
  moreover have "(ct_size t' + 1) * kLoadDenominator \<le> length (ct_slots t') * kLoadNumerator"
    using ct_okD(5) [OF ok] \<open>16 \<le> 2 ^ k\<close> t'(4,5) k(2) by (simp add: kLoadDenominator_def kLoadNumerator_def)
  ultimately show ?thesis
    using True t' by simp
qed


definition live_update :: "u32 \<Rightarrow> u32 \<Rightarrow> u32 \<Rightarrow> u32 \<Rightarrow> chunk \<Rightarrow> chunk" where
  "live_update sz us ms td c =
     c\<lparr>c_size := sz, c_usable := us, c_alloc_ms := ms, c_free_ms := 0, c_tid := td, c_state := ChunkLive\<rparr>"

definition live_record :: "(u64 \<rightharpoonup> chunk) \<Rightarrow> u64 \<Rightarrow> u32 \<Rightarrow> u32 \<Rightarrow> u32 \<Rightarrow> u32 \<Rightarrow> chunk" where
  "live_record m key sz us ms td =
     (case m key of None \<Rightarrow> live_chunk key sz us ms td | Some c \<Rightarrow> live_update sz us ms td c)"

lemma insert_live_existing:
  assumes inv: "table_inv t" and key: "ct_map t key = Some c"
  shows "\<exists>t'. insert_live t key sz us ms td = Some (True, t') \<and> table_inv t' \<and>
    ct_max_entries t' = ct_max_entries t \<and> ct_size t' = ct_size t \<and>
    ct_map t' = (ct_map t)(key \<mapsto> live_update sz us ms td c)"
proof -
  note ok = table_invD(1) [OF inv]
  obtain i where i: "find t key = Some i" "ct_slots t ! i = c"
    using find_map [OF ok, of key] key by (cases "find t key") auto
  have k: "c_key c = key" "key \<noteq> 0"
    using find_Some [OF ct_okD(1-3) [OF ok], of key i] i rh_keysD(1) [OF ct_okD(3) [OF ok], of i] by auto
  let ?f = "\<lambda>c. c\<lparr>c_size := sz, c_usable := us, c_alloc_ms := ms, c_free_ms := 0, c_tid := td, c_state := ChunkLive\<rparr>"
  have u: "ct_ok (upd_slot t i ?f)" "ct_map (upd_slot t i ?f) = (ct_map t)(key \<mapsto> ?f c)" "ct_frame t (upd_slot t i ?f)"
    using upd_slot_correct(1-3) [OF ok i(1), of ?f] i(2) k(1) by (simp_all add: occ_def)
  then have "table_inv (upd_slot t i ?f)"
    using inv by (simp add: table_inv_def ct_frame_def)
  then show ?thesis
    using u i(1) k(2) by (simp add: insert_live_def Let_def live_update_def ct_frame_def)
qed

lemma insert_live_correct:
  assumes inv: "table_inv t" and key: "key \<noteq> 0" and size: "ct_size t < 2 ^ 62"
  shows "\<exists>ok t'. insert_live t key sz us ms td = Some (ok, t') \<and> table_inv t' \<and> ct_max_entries t' = ct_max_entries t \<and>
    (if ok then \<exists>m. room_from t key m \<and> ct_map t' = m(key \<mapsto> live_record (ct_map t) key sz us ms td) \<and> ct_size t' \<le> Suc (ct_size t)
     else ct_map t key = None \<and> ct_map t' = ct_map t \<and> ct_size t' = ct_size t \<and> ct_max_entries t \<noteq> 0 \<and>
       ct_max_entries t \<le> ct_size t \<and> (\<forall>k. \<not> freed_rec t k))"
proof (cases "ct_map t key")
  case (Some c)
  obtain t' where "insert_live t key sz us ms td = Some (True, t')" "table_inv t'" "ct_size t' = ct_size t"
    "ct_max_entries t' = ct_max_entries t" "ct_map t' = (ct_map t)(key \<mapsto> live_record (ct_map t) key sz us ms td)"
    using insert_live_existing [OF inv Some, of sz us ms td] Some by (auto simp: live_record_def)
  moreover have "room_from t key (ct_map t)"
    using Some by (simp add: room_from_def)
  ultimately show ?thesis
    by (intro exI [of _ True] exI [of _ t']) (simp, blast)
next
  case None
  let ?full = "ct_max_entries t \<noteq> 0 \<and> ct_size t \<ge> ct_max_entries t"
  have nf: "find t key = None"
    using None find_map [OF table_invD(1) [OF inv], of key] by simp
  obtain ok1 t1 where 1: "(if ?full then make_room t else Some (True, t)) = Some (ok1, t1)" "table_inv t1" "ct_max_entries t1 = ct_max_entries t"
    "if ok1 then room_from t key (ct_map t1) \<and> ct_size t1 \<le> ct_size t \<and> ct_map t1 \<subseteq>\<^sub>m ct_map t
     else ?full \<and> ct_map t1 = ct_map t \<and> ct_size t1 = ct_size t \<and> (\<forall>k. \<not> freed_rec t k)"
  proof (cases ?full)
    case True
    then obtain ok' t' where "make_room t = Some (ok', t')" "table_inv t'" "ct_max_entries t' = ct_max_entries t"
      "if ok' then evicted_from t t' else ct_map t' = ct_map t \<and> ct_size t' = ct_size t \<and> (\<forall>k. \<not> freed_rec t k)"
      using make_room_correct [OF inv] by (auto simp: ct_caps_def)
    moreover have "room_from t key (ct_map t') \<and> ct_size t' \<le> ct_size t \<and> ct_map t' \<subseteq>\<^sub>m ct_map t" if "evicted_from t t'"
      using that True None by (auto simp: evicted_from_def room_from_def map_le_def split: if_splits)
    ultimately show ?thesis
      using that [of ok' t'] True by (simp split: if_splits)
  next
    case False
    then show ?thesis
      using that [of True t] inv by (auto simp: room_from_def)
  qed
  show ?thesis
  proof (cases ok1)
    case False
    then have "insert_live t key sz us ms td = Some (False, bump_drops t1)"
      using 1(1) nf key by (simp add: insert_live_def)
    then show ?thesis
      using 1(2-4) False None by (auto simp: bump_drops_def intro: exI [of _ False])
  next
    case True
    then obtain t2 where 2: "(if (ct_size t1 + 1) * kLoadDenominator > length (ct_slots t1) * kLoadNumerator
        then grow_to t1 (length (ct_slots t1) * 2) else Some (True, t1)) = Some (True, t2)"
      "table_inv t2" "ct_map t2 = ct_map t1" "ct_size t2 = ct_size t1" "ct_max_entries t2 = ct_max_entries t1"
      "(ct_size t2 + 1) * kLoadDenominator \<le> length (ct_slots t2) * kLoadNumerator"
      using grow_for_one [OF 1(2)] 1(4) size by auto
    have "ct_map t2 key = None"
      using True 1(4) None 2(3) by (auto simp: map_le_def) (metis domI domIff)
    then obtain t3 where 3: "place t2 (live_chunk key sz us ms td) = Some t3" "ct_size t3 = ct_size t2" "ct_max_entries t3 = ct_max_entries t2"
      "\<forall>st. table_inv (t3\<lparr>ct_size := ct_size t2 + 1, ct_stats := st\<rparr>)"
      "ct_map t3 = (ct_map t2)(key \<mapsto> live_chunk key sz us ms td)"
      using place_live [OF 2(2) key _ 2(6)] by blast
    let ?t = "t3\<lparr>ct_size := ct_size t3 + 1, ct_stats := (ct_stats t3)\<lparr>st_inserts := st_inserts (ct_stats t3) + 1\<rparr>\<rparr>"
    have "insert_live t key sz us ms td = Some (True, ?t)"
      using 1(1) 2(1) 3(1) True nf key by (simp add: insert_live_def split: if_splits)
    moreover have "table_inv ?t" "ct_map ?t = (ct_map t1)(key \<mapsto> live_record (ct_map t) key sz us ms td)"
      using 3(2,4,5) 2(3) None by (simp_all add: live_record_def ct_map_def)
    ultimately show ?thesis
      using 1(3,4) True 2(4,5) 3(2,3) by (auto intro!: exI [of _ True] exI [of _ "ct_map t1"])
  qed
qed


section \<open>The table as a finite map\<close>

datatype table_op =
    OpInsert u64 u32 u32 u32 u32
  | OpFree u64 u32
  | OpRefine u64 u32 u8
  | OpErase u64
  | OpClearRefined
  | OpClear

fun table_run :: "table_op \<Rightarrow> chunk_table \<Rightarrow> chunk_table option" where
  "table_run (OpInsert key sz us ms td) t = map_option snd (insert_live t key sz us ms td)"
| "table_run (OpFree key ms) t = Some (snd (mark_freed t key ms))"
| "table_run (OpRefine key ov fl) t = Some (snd (mark_refined t key ov fl))"
| "table_run (OpErase key) t = map_option snd (erase t key)"
| "table_run OpClearRefined t = Some (clear_refined t)"
| "table_run OpClear t = Some (clear t)"

fun map_run :: "table_op \<Rightarrow> (u64 \<rightharpoonup> chunk) \<Rightarrow> (u64 \<rightharpoonup> chunk)" where
  "map_run (OpInsert key sz us ms td) m =
     (if key = 0 then m else m(key \<mapsto> live_record m key sz us ms td))"
| "map_run (OpFree key ms) m = (case m key of None \<Rightarrow> m
     | Some c \<Rightarrow> m(key \<mapsto> c\<lparr>c_state := ChunkFreed, c_free_ms := ms\<rparr>))"
| "map_run (OpRefine key ov fl) m = (case m key of None \<Rightarrow> m
     | Some c \<Rightarrow> if ov \<le> 0xFFFF then m(key \<mapsto> c\<lparr>c_overhead_exact := ucast ov,
          c_flags := c_flags c OR kChunkFlagRefined OR (fl AND kHeaderFlagMask)\<rparr>) else m)"
| "map_run (OpErase key) m = m(key := None)"
| "map_run OpClearRefined m = (\<lambda>k. map_option (\<lambda>c. c\<lparr>c_flags := c_flags c AND NOT (kChunkFlagRefined OR kHeaderFlagMask),
     c_overhead_exact := 0\<rparr>) (m k))"
| "map_run OpClear m = Map.empty"

definition uncapped_ok :: "nat \<Rightarrow> chunk_table \<Rightarrow> bool" where
  "uncapped_ok n t \<longleftrightarrow> table_inv t \<and> ct_max_entries t = 0 \<and> ct_size t + n \<le> 2 ^ 62"

lemma insert_live_uncapped:
  assumes "table_inv t" "ct_max_entries t = 0" "key \<noteq> 0" "ct_size t < 2 ^ 62"
  shows "\<exists>t'. insert_live t key sz us ms td = Some (True, t') \<and> table_inv t' \<and> ct_max_entries t' = 0 \<and>
    ct_size t' \<le> Suc (ct_size t) \<and> ct_map t' = (ct_map t)(key \<mapsto> live_record (ct_map t) key sz us ms td)"
  using insert_live_correct [OF assms(1,3,4), of sz us ms td] assms(2)
  by (auto simp: room_from_def split: if_splits)


lemma table_inv_frame: "table_inv t \<Longrightarrow> ct_ok t' \<Longrightarrow> ct_frame t t' \<Longrightarrow> table_inv t'"
  by (simp add: table_inv_def ct_frame_def)

lemma push_freed_uncapped: "ct_freed_fifo t = [] \<Longrightarrow> push_freed t k = t"
  by (simp add: push_freed_def)

lemma mark_freed_inv:
  assumes inv: "table_inv t"
  shows "table_inv (snd (mark_freed t key ms))" "ct_max_entries (snd (mark_freed t key ms)) = ct_max_entries t"
proof -
  have caps: "ct_caps t (snd (mark_freed t key ms))"
    by (auto simp: mark_freed_def ct_caps_def upd_slot_def split: option.splits)
  then show "ct_max_entries (snd (mark_freed t key ms)) = ct_max_entries t"
    by (simp add: ct_caps_def)
  show "table_inv (snd (mark_freed t key ms))"
  proof (cases "ct_max_entries t = 0")
    case True
    then have "ct_freed_fifo t = []"
      using table_invD(4) [OF inv] by simp
    then have "ct_freed_head (snd (mark_freed t key ms)) = ct_freed_head t"
      "ct_freed_tail (snd (mark_freed t key ms)) = ct_freed_tail t"
      by (auto simp: mark_freed_def upd_slot_def push_freed_uncapped split: option.splits)
    then show ?thesis
      using inv mark_freed_correct(1) [OF table_invD(1) [OF inv]] caps by (simp add: table_inv_def ct_caps_def)
  next
    case False
    then show ?thesis
      using table_inv_caps [OF inv mark_freed_correct(1) [OF table_invD(1) [OF inv]] caps] by simp
  qed
qed

lemma erase_inv:
  assumes inv: "table_inv t"
  shows "\<exists>t'. erase t key = Some (ct_map t key \<noteq> None, t') \<and> table_inv t' \<and> ct_map t' = (ct_map t)(key := None) \<and>
    ct_max_entries t' = ct_max_entries t \<and> ct_size t' \<le> ct_size t"
  using erase_correct [OF table_invD(1) [OF inv], of key] inv by (auto simp: table_inv_def)

lemma clear_inv: "table_inv t \<Longrightarrow> table_inv (clear t) \<and> ct_max_entries (clear t) = ct_max_entries t"
  using clear_correct(1) by (auto simp: table_inv_def clear_def)

lemma table_step:
  assumes ok: "uncapped_ok (Suc n) t"
  shows "\<exists>t'. table_run op t = Some t' \<and> uncapped_ok n t' \<and> ct_map t' = map_run op (ct_map t)"
proof (cases op)
  case (OpInsert key sz us ms td)
  show ?thesis
  proof (cases "key = 0")
    case True
    then show ?thesis
      using ok OpInsert by (simp add: insert_live_def uncapped_ok_def)
  next
    case False
    then show ?thesis
      using insert_live_uncapped [of t key sz us ms td] ok OpInsert by (auto simp: uncapped_ok_def)
  qed
next
  case (OpFree key ms)
  then show ?thesis
    using mark_freed_inv [of t key ms] mark_freed_correct(3,4) [of t key ms] ok table_invD(1)
    by (simp add: uncapped_ok_def)
next
  case (OpRefine key ov fl)
  have inv: "table_inv t"
    using ok by (simp add: uncapped_ok_def)
  note r = mark_refined_correct [OF table_invD(1) [OF inv], of key ov fl]
  have "uncapped_ok n (snd (mark_refined t key ov fl))"
    using table_inv_frame [OF inv r(1,4)] r(4) ok by (simp add: uncapped_ok_def ct_frame_def)
  then show ?thesis
    using OpRefine r(3) by simp
next
  case (OpErase key)
  then show ?thesis
    using erase_inv [of t key] ok by (auto simp: uncapped_ok_def)
next
  case OpClearRefined
  have "ct_frame t (clear_refined t)"
    by (simp add: clear_refined_def ct_frame_def)
  then show ?thesis
    using OpClearRefined clear_refined_correct [of t] ok table_inv_frame [of t "clear_refined t"] table_invD(1) [of t]
    by (simp add: uncapped_ok_def ct_frame_def)
next
  case OpClear
  then show ?thesis
    using clear_inv [of t] clear_correct(2,3) [of t] ok table_invD(1) [of t] by (simp add: uncapped_ok_def)
qed

interpretation chunk_map: op_refinement table_run map_run ct_map uncapped_ok
  by unfold_locales (rule table_step)

lemma new_uncapped_ok:
  assumes "round_capacity cap \<le> 2 ^ 63" and "n \<le> 2 ^ 62"
  shows "uncapped_ok n (chunk_table_new cap)"
proof -
  have le: "round_capacity cap \<le> 2 ^ 64"
    using assms(1) by (rule le_trans) simp
  show ?thesis
    using chunk_table_new_ok(1) [OF le] assms
    by (simp add: uncapped_ok_def table_inv_def) (simp add: chunk_table_new_def Let_def)
qed

end
