(* ===== verification/Heat_Map.thy ===== *)
theory Heat_Map
  imports Grid Region_Map Chunk_Store
begin

text \<open>
  The per-cell aggregates of \<^verbatim>\<open>tui/heatmap.h\<close> and \<^verbatim>\<open>tui/heatmap.cpp\<close>: the state of a cell as a pure
  function of its aggregate and the clock, the incremental updates and the rebuild from the chunk
  table. The pointer to a cell is its index; the pointer to the region map is an optional region map.
\<close>

section \<open>Aggregates and cell states\<close>

definition kNoTime :: u32 where "kNoTime = 0xFFFFFFFF"

record heat_timings =
  malloc_pulse_ms :: u32
  malloc_fade_ms :: u32
  free_flash_ms :: u32
  free_fade_ms :: u32

definition kDefaultTimings :: heat_timings where
  "kDefaultTimings = \<lparr>malloc_pulse_ms = 200, malloc_fade_ms = 800, free_flash_ms = 300, free_fade_ms = 2000\<rparr>"

datatype cell_state_kind = CellEmpty | CellOverhead | CellLive | CellRecentMalloc | CellRecentFree

record cell_aggregate =
  a_live_bytes :: u64
  a_n_live :: u32
  a_overhead_bytes :: u32
  a_last_alloc_ms :: u32
  a_last_free_ms :: u32

definition kEmptyAggregate :: cell_aggregate where
  "kEmptyAggregate = \<lparr>a_live_bytes = 0, a_n_live = 0, a_overhead_bytes = 0, a_last_alloc_ms = kNoTime,
     a_last_free_ms = kNoTime\<rparr>"

definition cell_occupied :: "cell_aggregate \<Rightarrow> bool" where
  "cell_occupied a \<longleftrightarrow> a_n_live a \<noteq> 0 \<or> a_overhead_bytes a \<noteq> 0"

definition bump :: "u32 \<Rightarrow> u32 \<Rightarrow> u32" where
  "bump slot value = (if slot = kNoTime \<or> value > slot then value else slot)"

definition overhead_of :: "u32 \<Rightarrow> u32 \<Rightarrow> u32" where
  "overhead_of sz us = (if us > sz then us - sz else 0)"

definition within :: "u32 \<Rightarrow> u32 \<Rightarrow> u32 \<Rightarrow> bool" where
  "within stamp now window = (if stamp = kNoTime then False else now - stamp < window)"

definition cell_state_str :: "cell_state_kind \<Rightarrow> string" where
  "cell_state_str s = (case s of CellEmpty \<Rightarrow> ''empty'' | CellOverhead \<Rightarrow> ''overhead'' | CellLive \<Rightarrow> ''live''
     | CellRecentMalloc \<Rightarrow> ''recent malloc'' | CellRecentFree \<Rightarrow> ''recent free'')"

definition cell_state :: "cell_aggregate \<Rightarrow> heat_timings \<Rightarrow> u32 \<Rightarrow> cell_state_kind" where
  "cell_state a t now_ms =
     (if within (a_last_free_ms a) now_ms (free_flash_ms t) then CellRecentFree
      else if within (a_last_alloc_ms a) now_ms (malloc_pulse_ms t) then CellRecentMalloc
      else if a_n_live a > 0 then CellLive
      else if a_overhead_bytes a > 0 then CellOverhead
      else CellEmpty)"

section \<open>The map\<close>

record heat_map =
  hm_regions :: "region_map option"
  hm_grid :: grid
  hm_cells :: "cell_aggregate list"
  hm_timings :: heat_timings
  hm_total_live_bytes :: u64
  hm_total_live :: u64
  hm_rebuilds :: nat

definition heat_map_new :: heat_map where
  "heat_map_new = \<lparr>hm_regions = None, hm_grid = grid_new, hm_cells = [], hm_timings = kDefaultTimings,
     hm_total_live_bytes = 0, hm_total_live = 0, hm_rebuilds = 0\<rparr>"

definition heat_configure :: "heat_map \<Rightarrow> grid \<Rightarrow> bool \<times> heat_map" where
  "heat_configure h g =
     (let same = (g_valid (hm_grid h) = g_valid g \<and> g_base (hm_grid h) = g_base g \<and>
                  g_cell_bytes (hm_grid h) = g_cell_bytes g \<and> g_cols (hm_grid h) = g_cols g \<and>
                  g_rows (hm_grid h) = g_rows g)
      in if same \<and> length (hm_cells h) = cell_count g then (False, h)
         else (True, h\<lparr>hm_grid := g, hm_cells := replicate (cell_count g) kEmptyAggregate,
                hm_total_live_bytes := 0, hm_total_live := 0\<rparr>))"

definition coordinate_of :: "heat_map \<Rightarrow> u64 \<Rightarrow> u64 option" where
  "coordinate_of h ptr = (case hm_regions h of None \<Rightarrow> Some ptr | Some r \<Rightarrow> to_flat r ptr)"

definition rebuild_chunk :: "chunk \<Rightarrow> heat_map \<Rightarrow> heat_map" where
  "rebuild_chunk ch h =
     (if c_state ch = ChunkEmpty then h
      else case coordinate_of h (c_key ch) of
        None \<Rightarrow> h
      | Some coord \<Rightarrow>
          (case index_of (hm_grid h) coord of
             None \<Rightarrow> h
           | Some i \<Rightarrow>
               (let cell = hm_cells h ! i;
                    cell' = cell\<lparr>a_last_alloc_ms := bump (a_last_alloc_ms cell) (c_alloc_ms ch)\<rparr>
                in if c_state ch = ChunkLive
                   then h\<lparr>hm_cells := (hm_cells h)[i := cell'\<lparr>a_n_live := a_n_live cell' + 1,
                            a_live_bytes := a_live_bytes cell' + ucast (c_usable ch),
                            a_overhead_bytes := a_overhead_bytes cell' + overhead_of (c_size ch) (c_usable ch)\<rparr>],
                          hm_total_live := hm_total_live h + 1,
                          hm_total_live_bytes := hm_total_live_bytes h + ucast (c_usable ch)\<rparr>
                   else h\<lparr>hm_cells := (hm_cells h)[i := cell'\<lparr>a_last_free_ms := bump (a_last_free_ms cell') (c_free_ms ch)\<rparr>]\<rparr>)))"

definition heat_rebuild :: "heat_map \<Rightarrow> chunk_table \<Rightarrow> heat_map" where
  "heat_rebuild h table =
     (let h' = h\<lparr>hm_rebuilds := hm_rebuilds h + 1, hm_cells := map (\<lambda>_. kEmptyAggregate) (hm_cells h),
                hm_total_live_bytes := 0, hm_total_live := 0\<rparr>
      in if \<not> g_valid (hm_grid h') then h' else fold rebuild_chunk (ct_slots table) h')"

definition cell_for :: "heat_map \<Rightarrow> u64 \<Rightarrow> nat option" where
  "cell_for h ptr = (case coordinate_of h ptr of None \<Rightarrow> None
     | Some coord \<Rightarrow> (case index_of (hm_grid h) coord of None \<Rightarrow> None
         | Some i \<Rightarrow> if i \<ge> length (hm_cells h) then None else Some i))"

definition on_alloc :: "heat_map \<Rightarrow> u64 \<Rightarrow> u32 \<Rightarrow> u32 \<Rightarrow> u32 \<Rightarrow> heat_map" where
  "on_alloc h ptr sz us now_ms = (case cell_for h ptr of None \<Rightarrow> h
     | Some i \<Rightarrow>
         (let cell = hm_cells h ! i
          in h\<lparr>hm_cells := (hm_cells h)[i := cell\<lparr>a_n_live := a_n_live cell + 1,
                 a_live_bytes := a_live_bytes cell + ucast us,
                 a_overhead_bytes := a_overhead_bytes cell + overhead_of sz us,
                 a_last_alloc_ms := bump (a_last_alloc_ms cell) now_ms\<rparr>],
               hm_total_live := hm_total_live h + 1,
               hm_total_live_bytes := hm_total_live_bytes h + ucast us\<rparr>))"

text \<open>Every decrement of the source saturates at zero.\<close>

definition sat_sub :: "'a::len word \<Rightarrow> 'a word \<Rightarrow> 'a word" where
  "sat_sub a b = a - (if a \<ge> b then b else a)"

definition on_free :: "heat_map \<Rightarrow> u64 \<Rightarrow> u32 \<Rightarrow> u32 \<Rightarrow> u32 \<Rightarrow> heat_map" where
  "on_free h ptr sz us now_ms = (case cell_for h ptr of None \<Rightarrow> h
     | Some i \<Rightarrow>
         (let cell = hm_cells h ! i;
              (cell', h') =
                (if a_n_live cell > 0
                 then (cell\<lparr>a_n_live := a_n_live cell - 1,
                         a_live_bytes := sat_sub (a_live_bytes cell) (ucast us),
                         a_overhead_bytes := sat_sub (a_overhead_bytes cell) (overhead_of sz us)\<rparr>,
                       h\<lparr>hm_total_live := (if hm_total_live h > 0 then hm_total_live h - 1 else hm_total_live h),
                         hm_total_live_bytes := sat_sub (hm_total_live_bytes h) (ucast us)\<rparr>)
                 else (cell, h))
          in h'\<lparr>hm_cells := (hm_cells h')[i := cell'\<lparr>a_last_free_ms := bump (a_last_free_ms cell') now_ms\<rparr>]\<rparr>))"

definition refine_overhead :: "heat_map \<Rightarrow> u64 \<Rightarrow> u32 \<Rightarrow> u32 \<Rightarrow> bool \<times> heat_map" where
  "refine_overhead h ptr old_ov new_ov = (case cell_for h ptr of None \<Rightarrow> (False, h)
     | Some i \<Rightarrow>
         (let cell = hm_cells h ! i
          in (True, h\<lparr>hm_cells := (hm_cells h)[i := cell\<lparr>a_overhead_bytes := sat_sub (a_overhead_bytes cell) old_ov + new_ov\<rparr>]\<rparr>)))"

definition state_at :: "heat_map \<Rightarrow> nat \<Rightarrow> u32 \<Rightarrow> cell_state_kind" where
  "state_at h i now_ms =
     (if i \<ge> length (hm_cells h) then CellEmpty else cell_state (hm_cells h ! i) (hm_timings h) now_ms)"

definition heat_at :: "heat_map \<Rightarrow> nat \<Rightarrow> cell_aggregate" where
  "heat_at h i = (if i \<ge> length (hm_cells h) then kEmptyAggregate else hm_cells h ! i)"

end
