(* ===== verification/Cursor.thy ===== *)
theory Cursor
  imports Heat_Map
begin

text \<open>
  The cursor over the map of \<^verbatim>\<open>tui/cursor.h\<close> and \<^verbatim>\<open>tui/cursor.cpp\<close>: it holds a coordinate, resolves it
  to a cell of whatever grid is current, and moves between the cells that cover memory.
\<close>

section \<open>Cells and coordinates\<close>

definition coord_of_cell :: "grid \<Rightarrow> nat \<Rightarrow> u64" where
  "coord_of_cell g i = g_base g + push_bit (g_log2_cell_bytes g) (of_nat i)"

definition last_heap_cell :: "grid \<Rightarrow> nat" where
  "last_heap_cell g =
     (let n = cell_count g
      in if \<not> g_valid g \<or> n = 0 then 0
         else (let lst = unat (drop_bit (g_log2_cell_bytes g) (grid_span g - 1))
               in if lst \<ge> n then n - 1 else lst))"

section \<open>Moves\<close>

definition kCursorJump :: nat where "kCursorJump = 10"

datatype cursor_motion = MLeft | MRight | MUp | MDown | MLeftFar | MRightFar | MUpFar | MDownFar
  | MStart | MEnd | MNextLive | MPrevLive

definition cursor_move_for_key :: "char \<Rightarrow> cursor_motion option" where
  "cursor_move_for_key byte =
     (if byte = CHR ''h'' then Some MLeft
      else if byte = CHR ''l'' then Some MRight
      else if byte = CHR ''k'' then Some MUp
      else if byte = CHR ''j'' then Some MDown
      else if byte = CHR ''H'' then Some MLeftFar
      else if byte = CHR ''L'' then Some MRightFar
      else if byte = CHR ''K'' then Some MUpFar
      else if byte = CHR ''J'' then Some MDownFar
      else if byte = CHR ''g'' then Some MStart
      else if byte = CHR ''G'' then Some MEnd
      else if byte = CHR ''n'' then Some MNextLive
      else if byte = CHR ''N'' then Some MPrevLive
      else None)"

record map_cursor =
  cur_coord :: u64

definition map_cursor_new :: map_cursor where
  "map_cursor_new = \<lparr>cur_coord = 0\<rparr>"

definition cursor_index :: "map_cursor \<Rightarrow> grid \<Rightarrow> nat" where
  "cursor_index cur g =
     (if \<not> g_valid g then 0
      else (let lst = last_heap_cell g
            in case index_of g (cur_coord cur) of
                 None \<Rightarrow> if cur_coord cur \<le> g_base g then 0 else lst
               | Some i \<Rightarrow> if i < lst then i else lst))"

text \<open>The two scans: the first occupied cell after \<open>from'\<close> up to the last one, and the first before it.\<close>

definition next_live :: "heat_map \<Rightarrow> nat \<Rightarrow> nat \<Rightarrow> nat option" where
  "next_live h lst from' =
     (let n = length (hm_cells h);
          end' = (if lst < n then lst else if n = 0 then 0 else n - 1)
      in if n = 0 then None else List.find (\<lambda>i. cell_occupied (heat_at h i)) [from' + 1..<end' + 1])"

definition prev_live :: "heat_map \<Rightarrow> nat \<Rightarrow> nat option" where
  "prev_live h from' =
     (let n = length (hm_cells h)
      in if n = 0 then None
         else List.find (\<lambda>i. i < n \<and> cell_occupied (heat_at h i)) (rev [0..<from']))"

definition move_target :: "heat_map \<Rightarrow> nat \<Rightarrow> nat \<Rightarrow> nat \<Rightarrow> cursor_motion \<Rightarrow> nat" where
  "move_target h lst cols from' mv =
     (case mv of
        MLeft \<Rightarrow> if from' > 0 then from' - 1 else from'
      | MRight \<Rightarrow> if from' < lst then from' + 1 else from'
      | MLeftFar \<Rightarrow> if from' > kCursorJump then from' - kCursorJump else 0
      | MRightFar \<Rightarrow> if lst - from' > kCursorJump then from' + kCursorJump else lst
      | MUp \<Rightarrow> from' - cols * (if 1 < from' div cols then 1 else from' div cols)
      | MUpFar \<Rightarrow> from' - cols * (if kCursorJump < from' div cols then kCursorJump else from' div cols)
      | MDown \<Rightarrow> from' + cols * (if 1 < (lst - from') div cols then 1 else (lst - from') div cols)
      | MDownFar \<Rightarrow> from' + cols * (if kCursorJump < (lst - from') div cols then kCursorJump else (lst - from') div cols)
      | MStart \<Rightarrow> 0
      | MEnd \<Rightarrow> lst
      | MNextLive \<Rightarrow> (case next_live h lst from' of Some i \<Rightarrow> i | None \<Rightarrow> from')
      | MPrevLive \<Rightarrow> (case prev_live h from' of Some i \<Rightarrow> i | None \<Rightarrow> from'))"

definition cursor_move :: "map_cursor \<Rightarrow> heat_map \<Rightarrow> cursor_motion \<Rightarrow> bool \<times> map_cursor" where
  "cursor_move cur h mv =
     (let g = hm_grid h
      in if \<not> g_valid g \<or> g_cols g \<le> 0 then (False, cur)
         else (let lst = last_heap_cell g;
                   from' = cursor_index cur g;
                   to' = move_target h lst (nat (g_cols g)) from' mv
               in if to' = from' then (False, cur) else (True, cur\<lparr>cur_coord := coord_of_cell g to'\<rparr>)))"

definition cursor_refit :: "map_cursor \<Rightarrow> grid \<Rightarrow> bool \<times> map_cursor" where
  "cursor_refit cur g =
     (if \<not> g_valid g then (False, cur)
      else if (case index_of g (cur_coord cur) of None \<Rightarrow> False | Some i \<Rightarrow> i \<le> last_heap_cell g) then (False, cur)
      else (True, cur\<lparr>cur_coord := coord_of_cell g (cursor_index cur g)\<rparr>))"

definition cursor_set_coord :: "map_cursor \<Rightarrow> grid \<Rightarrow> u64 \<Rightarrow> bool \<times> map_cursor" where
  "cursor_set_coord cur g coord =
     (if \<not> g_valid g then (False, cur)
      else (let was = cur_coord cur;
                cur1 = cur\<lparr>cur_coord := coord\<rparr>;
                cur2 = cur1\<lparr>cur_coord := coord_of_cell g (cursor_index cur1 g)\<rparr>
            in (cur_coord cur2 \<noteq> was, cur2)))"

section \<open>The cells of the heap\<close>

lemma last_heap_cell_le:
  assumes "grid_ok g" "g_valid g"
  shows "last_heap_cell g < cell_count g"
    "unat (g_base g) + last_heap_cell g * unat (g_cell_bytes g) < unat (g_end g)"
proof -
  note D = grid_okD [OF assms]
  let ?s = "unat (g_end g) - unat (g_base g)" and ?c = "unat (g_cell_bytes g)"
  have lt: "unat (g_base g) < unat (g_end g)"
    using D(1) by (simp add: word_less_nat_alt)
  have span: "unat (grid_span g) = ?s"
    using D(1) by (simp add: grid_span_def unat_minus less_imp_le)
  then have "(1 :: u64) \<le> grid_span g"
    using lt by (simp add: word_le_nat_alt)
  then have "unat (grid_span g - 1) = ?s - 1"
    using span by (simp add: unat_minus)
  then have l: "last_heap_cell g = (if (?s - 1) div ?c \<ge> cell_count g then cell_count g - 1 else (?s - 1) div ?c)"
    using assms(2) D(8,10) by (simp add: last_heap_cell_def Let_def unat_drop_bit_div)
  then show "last_heap_cell g < cell_count g"
    using D(10) by simp
  have "last_heap_cell g * ?c \<le> (?s - 1) div ?c * ?c"
    using l by (intro mult_le_mono1) auto
  also have "\<dots> \<le> ?s - 1"
    by (rule div_times_less_eq_dividend)
  finally show "unat (g_base g) + last_heap_cell g * ?c < unat (g_end g)"
    using lt by linarith
qed

lemma coord_of_cell:
  assumes "grid_ok g" "g_valid g" "i \<le> last_heap_cell g"
  shows "unat (coord_of_cell g i) = unat (g_base g) + i * unat (g_cell_bytes g)"
    "g_base g \<le> coord_of_cell g i" "coord_of_cell g i < g_end g" "index_of g (coord_of_cell g i) = Some i"
proof -
  note D = grid_okD [OF assms(1,2)] and L = last_heap_cell_le [OF assms(1,2)]
  let ?c = "unat (g_cell_bytes g)"
  have "i * ?c \<le> last_heap_cell g * ?c"
    using assms(3) by (rule mult_le_mono1)
  then have b: "unat (g_base g) + i * ?c < unat (g_end g)"
    using L(2) by linarith
  then have lt: "unat (g_base g) + i * ?c < 2 ^ 64"
    using unat_lt_exp [of "g_end g"] by simp
  have "coord_of_cell g i = of_nat (unat (g_base g) + i * ?c)"
    using assms(1,2) by (simp add: coord_of_cell_def push_bit_eq_mult grid_ok_def)
  then show u: "unat (coord_of_cell g i) = unat (g_base g) + i * ?c"
    using unat_of_nat_small [where 'a=64, of "unat (g_base g) + i * ?c"] lt by simp
  show "g_base g \<le> coord_of_cell g i" "coord_of_cell g i < g_end g"
    using b by (simp_all add: word_le_nat_alt word_less_nat_alt u)
  show "index_of g (coord_of_cell g i) = Some i"
    using L(1) assms(3) D(8) by (simp add: index_of_iff [OF assms(1,2)] u)
qed

section \<open>Where a move lands\<close>

lemma cursor_index_le: "cursor_index cur g \<le> last_heap_cell g"
  by (auto simp: cursor_index_def Let_def split: option.splits)

lemma cursor_index_coord:
  assumes "grid_ok g" "g_valid g" "i \<le> last_heap_cell g"
  shows "cursor_index (cur\<lparr>cur_coord := coord_of_cell g i\<rparr>) g = i"
  using coord_of_cell(4) [OF assms] assms(2,3) by (simp add: cursor_index_def Let_def)

lemma find_upt_Some:
  "List.find P [a..<b] = Some i \<longleftrightarrow> a \<le> i \<and> i < b \<and> P i \<and> (\<forall>j. a \<le> j \<and> j < i \<longrightarrow> \<not> P j)"
proof (induction "b - a" arbitrary: a)
  case 0
  then show ?case by auto
next
  case (Suc n)
  then have lt: "a < b" and eq: "[a..<b] = a # [Suc a..<b]"
    by (simp_all add: upt_conv_Cons)
  have IH: "List.find P [Suc a..<b] = Some i \<longleftrightarrow> Suc a \<le> i \<and> i < b \<and> P i \<and> (\<forall>j. Suc a \<le> j \<and> j < i \<longrightarrow> \<not> P j)"
    using Suc(1) [of "Suc a"] Suc(2) by simp
  show ?case
  proof (cases "P a")
    case True
    have "a = i" if "a \<le> i" "\<forall>j. a \<le> j \<and> j < i \<longrightarrow> \<not> P j"
      using that(1) that(2) [rule_format, of a] True by (auto simp: le_less)
    then show ?thesis
      unfolding eq using lt True by auto
  next
    case False
    then have "a \<le> j \<and> P j \<longleftrightarrow> Suc a \<le> j \<and> P j" for j
      by (cases "j = a") auto
    then show ?thesis
      unfolding eq using False by (simp add: IH) blast
  qed
qed

lemma find_rev_upt_Some:
  "List.find P (rev [0..<b]) = Some i \<longleftrightarrow> i < b \<and> P i \<and> (\<forall>j. i < j \<and> j < b \<longrightarrow> \<not> P j)"
  by (induction b) (auto simp: less_Suc_eq)

lemma next_live_Some:
  "next_live h lst from' = Some i \<longleftrightarrow> from' < i \<and> i \<le> lst \<and> i < length (hm_cells h) \<and> cell_occupied (heat_at h i) \<and>
     (\<forall>j. from' < j \<and> j < i \<longrightarrow> \<not> cell_occupied (heat_at h j))"
  by (auto simp: next_live_def Let_def find_upt_Some less_Suc_eq_le Suc_le_eq simp del: upt_Suc)

lemma prev_live_Some:
  "prev_live h from' = Some i \<longleftrightarrow> i < from' \<and> i < length (hm_cells h) \<and> cell_occupied (heat_at h i) \<and>
     (\<forall>j. i < j \<and> j < from' \<longrightarrow> \<not> (j < length (hm_cells h) \<and> cell_occupied (heat_at h j)))"
  by (auto simp: prev_live_def Let_def find_rev_upt_Some)

lemma next_live_None:
  "next_live h lst from' = None \<longleftrightarrow> (\<forall>j. from' < j \<and> j \<le> lst \<and> j < length (hm_cells h) \<longrightarrow> \<not> cell_occupied (heat_at h j))"
  by (auto simp: next_live_def Let_def find_None_iff simp del: upt_Suc)

lemma prev_live_None:
  "prev_live h from' = None \<longleftrightarrow> (\<forall>j. j < from' \<and> j < length (hm_cells h) \<longrightarrow> \<not> cell_occupied (heat_at h j))"
  by (auto simp: prev_live_def Let_def find_None_iff)

lemma move_target_le:
  assumes "from' \<le> lst" "0 < cols"
  shows "move_target h lst cols from' mv \<le> lst"
proof -
  have down: "from' + cols * k \<le> lst" if "k \<le> (lst - from') div cols" for k
  proof -
    have "cols * k \<le> cols * ((lst - from') div cols)"
      using that by simp
    also have "\<dots> \<le> lst - from'"
      by (rule times_div_less_eq_dividend)
    finally show ?thesis
      using assms(1) by linarith
  qed
  show ?thesis
  proof (cases mv)
    case MNextLive
    then show ?thesis
      using assms by (auto simp: move_target_def next_live_Some split: option.splits)
  next
    case MPrevLive
    then show ?thesis
      using assms by (auto simp: move_target_def prev_live_Some split: option.splits)
  next
    case MDown
    then show ?thesis
      using down [of 1] down [of "(lst - from') div cols"] by (simp add: move_target_def)
  next
    case MDownFar
    then show ?thesis
      using down [of kCursorJump] down [of "(lst - from') div cols"] by (simp add: move_target_def)
  qed (use assms in \<open>auto simp: move_target_def\<close>)
qed

lemma move_target_column:
  assumes "mv \<in> {MUp, MUpFar, MDown, MDownFar}"
  shows "move_target h lst cols from' mv mod cols = from' mod cols"
proof -
  have up: "(from' - cols * k) mod cols = from' mod cols" if "k \<le> from' div cols" for k
  proof -
    have "cols * k \<le> cols * (from' div cols)"
      using that by simp
    also have "\<dots> \<le> from'"
      by (rule times_div_less_eq_dividend)
    finally have "(from' - cols * k + cols * k) mod cols = from' mod cols" by simp
    then show ?thesis by simp
  qed
  have down: "(from' + cols * k) mod cols = from' mod cols" for k
    by simp
  show ?thesis
    using assms unfolding move_target_def
    by (elim insertE emptyE) (simp_all only: cursor_motion.case down, (rule up, simp)+)
qed

lemma cursor_move_lands:
  assumes "grid_ok (hm_grid h)" "g_valid (hm_grid h)" and "cursor_move cur h mv = (moved, cur')"
  shows "cursor_index cur' (hm_grid h) =
      move_target h (last_heap_cell (hm_grid h)) (nat (g_cols (hm_grid h))) (cursor_index cur (hm_grid h)) mv"
    "moved \<longleftrightarrow> cursor_index cur' (hm_grid h) \<noteq> cursor_index cur (hm_grid h)"
    "moved \<Longrightarrow> cur' = cur\<lparr>cur_coord := coord_of_cell (hm_grid h) (cursor_index cur' (hm_grid h))\<rparr>"
    "\<not> moved \<Longrightarrow> cur' = cur"
proof -
  let ?g = "hm_grid h"
  let ?t = "move_target h (last_heap_cell ?g) (nat (g_cols ?g)) (cursor_index cur ?g) mv"
  have cols: "0 < g_cols ?g"
    using grid_okD(2) [OF assms(1,2)] .
  then have "?t \<le> last_heap_cell ?g"
    by (intro move_target_le cursor_index_le) simp
  then have ix: "cursor_index (cur\<lparr>cur_coord := coord_of_cell ?g ?t\<rparr>) ?g = ?t"
    by (rule cursor_index_coord [OF assms(1,2)])
  have "(moved, cur') = (if ?t = cursor_index cur ?g then (False, cur) else (True, cur\<lparr>cur_coord := coord_of_cell ?g ?t\<rparr>))"
    using assms(2,3) cols by (simp add: cursor_move_def Let_def)
  then show "cursor_index cur' ?g = ?t" "moved \<longleftrightarrow> cursor_index cur' ?g \<noteq> cursor_index cur ?g"
    "moved \<Longrightarrow> cur' = cur\<lparr>cur_coord := coord_of_cell ?g (cursor_index cur' ?g)\<rparr>" "\<not> moved \<Longrightarrow> cur' = cur"
    using ix by (auto split: if_splits)
qed

section \<open>Properties\<close>

text \<open>
  Every move keeps the cursor on memory the target has: it lands on the first byte of a cell at or
  before the last heap cell, inside the configured range, and resolves back to exactly that cell. It
  reports a move exactly when the cell changed, leaves the cursor alone otherwise, and a vertical move
  keeps the column.
\<close>

theorem cursor_move_on_heap:
  assumes "grid_ok (hm_grid h)" and "g_valid (hm_grid h)" and "cursor_move cur h mv = (moved, cur')"
  shows "(moved \<longleftrightarrow> cursor_index cur' (hm_grid h) \<noteq> cursor_index cur (hm_grid h)) \<and> (\<not> moved \<longrightarrow> cur' = cur) \<and>
    cursor_index cur' (hm_grid h) \<le> last_heap_cell (hm_grid h) \<and>
    (moved \<longrightarrow> g_base (hm_grid h) \<le> cur_coord cur' \<and> cur_coord cur' < g_end (hm_grid h) \<and>
       index_of (hm_grid h) (cur_coord cur') = Some (cursor_index cur' (hm_grid h))) \<and>
    (mv \<in> {MUp, MUpFar, MDown, MDownFar} \<longrightarrow>
       col_of (hm_grid h) (cursor_index cur' (hm_grid h)) = col_of (hm_grid h) (cursor_index cur (hm_grid h)))"
proof -
  note L = cursor_move_lands [OF assms]
  note C = coord_of_cell [OF assms(1,2) cursor_index_le [of cur']]
  have "cur_coord cur' = coord_of_cell (hm_grid h) (cursor_index cur' (hm_grid h))" if moved
    using arg_cong [OF L(3) [OF that], of cur_coord] by simp
  then show ?thesis
    using L(2,4) C(2-4) cursor_index_le [of cur' "hm_grid h"] move_target_column [of mv] L(1) by (auto simp: col_of_def)
qed

theorem cursor_move_on_heap_witness:
  "cursor_index (snd (cursor_move \<lparr>cur_coord = 64\<rparr> (heat_map_new\<lparr>hm_grid := snd (grid_configure grid_new 0 256 2 2)\<rparr>) MDown))
     (snd (grid_configure grid_new 0 256 2 2)) \<le> 3"
proof -
  let ?h = "heat_map_new\<lparr>hm_grid := snd (grid_configure grid_new 0 256 2 2)\<rparr>"
  have c: "grid_configure grid_new 0 256 2 2 = (True, hm_grid ?h)" and l: "last_heap_cell (hm_grid ?h) = 3"
    by code_simp+
  have "cursor_move \<lparr>cur_coord = 64\<rparr> ?h MDown =
      (fst (cursor_move \<lparr>cur_coord = 64\<rparr> ?h MDown), snd (cursor_move \<lparr>cur_coord = 64\<rparr> ?h MDown))"
    by simp
  from cursor_move_on_heap [OF configure_valid(1,2) [OF c] this] show ?thesis
    using l by simp
qed

text \<open>
  The keys that skip to an allocation stop at the nearest one: \<open>n\<close> goes to the first occupied cell
  after the cursor that is still heap, \<open>N\<close> to the last occupied cell before it, and either leaves the
  cursor where it is exactly when there is none.
\<close>

theorem cursor_skips_to_nearest:
  assumes "grid_ok (hm_grid h)" and "g_valid (hm_grid h)" and "length (hm_cells h) = cell_count (hm_grid h)"
    and "cursor_index cur (hm_grid h) = i" and "occupied = (\<lambda>j. j \<le> last_heap_cell (hm_grid h) \<and> cell_occupied (heat_at h j))"
  shows "(case cursor_move cur h MNextLive of (moved, cur') \<Rightarrow>
      if moved then occupied (cursor_index cur' (hm_grid h)) \<and> i < cursor_index cur' (hm_grid h) \<and>
        (\<forall>j. i < j \<and> j < cursor_index cur' (hm_grid h) \<longrightarrow> \<not> occupied j)
      else cur' = cur \<and> (\<forall>j. i < j \<longrightarrow> \<not> occupied j)) \<and>
    (case cursor_move cur h MPrevLive of (moved, cur') \<Rightarrow>
      if moved then occupied (cursor_index cur' (hm_grid h)) \<and> cursor_index cur' (hm_grid h) < i \<and>
        (\<forall>j. cursor_index cur' (hm_grid h) < j \<and> j < i \<longrightarrow> \<not> occupied j)
      else cur' = cur \<and> (\<forall>j. j < i \<longrightarrow> \<not> occupied j))"
proof -
  let ?g = "hm_grid h"
  have len: "j < length (hm_cells h)" if "j \<le> last_heap_cell ?g" for j
    using that last_heap_cell_le(1) [OF assms(1,2)] assms(3) by simp
  have i: "i \<le> last_heap_cell ?g"
    using cursor_index_le assms(4) by blast
  obtain m1 c1 m2 c2 where e: "cursor_move cur h MNextLive = (m1, c1)" "cursor_move cur h MPrevLive = (m2, c2)"
    by fastforce
  note L1 = cursor_move_lands [OF assms(1,2) e(1)] and L2 = cursor_move_lands [OF assms(1,2) e(2)]
  have "if m1 then occupied (cursor_index c1 ?g) \<and> i < cursor_index c1 ?g \<and>
        (\<forall>j. i < j \<and> j < cursor_index c1 ?g \<longrightarrow> \<not> occupied j)
      else c1 = cur \<and> (\<forall>j. i < j \<longrightarrow> \<not> occupied j)"
  proof (cases "next_live h (last_heap_cell ?g) i")
    case None
    then have "\<not> m1 \<and> c1 = cur"
      using L1 assms(4) by (simp add: move_target_def)
    then show ?thesis
      using None len i by (auto simp: next_live_None assms(5))
  next
    case (Some k)
    then have "cursor_index c1 ?g = k \<and> (m1 \<longleftrightarrow> k \<noteq> i)"
      using L1 assms(4) by (simp add: move_target_def)
    then show ?thesis
      using Some len i by (auto simp: next_live_Some assms(5))
  qed
  moreover have "if m2 then occupied (cursor_index c2 ?g) \<and> cursor_index c2 ?g < i \<and>
        (\<forall>j. cursor_index c2 ?g < j \<and> j < i \<longrightarrow> \<not> occupied j)
      else c2 = cur \<and> (\<forall>j. j < i \<longrightarrow> \<not> occupied j)"
  proof (cases "prev_live h i")
    case None
    then have "\<not> m2 \<and> c2 = cur"
      using L2 assms(4) by (simp add: move_target_def)
    then show ?thesis
      using None len i by (auto simp: prev_live_None assms(5))
  next
    case (Some k)
    then have "cursor_index c2 ?g = k \<and> (m2 \<longleftrightarrow> k \<noteq> i)"
      using L2 assms(4) by (simp add: move_target_def)
    then show ?thesis
      using Some len i by (auto simp: prev_live_Some assms(5))
  qed
  ultimately show ?thesis
    by (simp add: e)
qed

definition demo_map :: heat_map where
  "demo_map = heat_map_new\<lparr>hm_grid := snd (grid_configure grid_new 0 256 2 2),
     hm_cells := [kEmptyAggregate, kEmptyAggregate, kEmptyAggregate\<lparr>a_n_live := 1\<rparr>, kEmptyAggregate]\<rparr>"

theorem cursor_skips_to_nearest_witness:
  "cursor_index (snd (cursor_move \<lparr>cur_coord = 0\<rparr> demo_map MNextLive)) (hm_grid demo_map) = 2"
proof -
  let ?g = "hm_grid demo_map"
  define occupied where "occupied = (\<lambda>j. j \<le> last_heap_cell ?g \<and> cell_occupied (heat_at demo_map j))"
  have c: "grid_configure grid_new 0 256 2 2 = (True, ?g)" and l: "length (hm_cells demo_map) = cell_count ?g"
    and i: "cursor_index \<lparr>cur_coord = 0\<rparr> ?g = 0" and last3: "last_heap_cell ?g = 3"
    and o: "\<not> cell_occupied (heat_at demo_map 1)" "cell_occupied (heat_at demo_map 2)" "\<not> cell_occupied (heat_at demo_map 3)"
    by code_simp+
  obtain moved cur' where m: "cursor_move \<lparr>cur_coord = 0\<rparr> demo_map MNextLive = (moved, cur')"
    by fastforce
  note P = conjunct1 [OF cursor_skips_to_nearest [OF configure_valid(1,2) [OF c] l i occupied_def, unfolded m prod.case]]
  have o: "occupied 2" "\<not> occupied 1"
    using o last3 by (simp_all add: occupied_def)
  then have moved
    using P by (auto split: if_splits)
  then have "occupied (cursor_index cur' ?g)" "0 < cursor_index cur' ?g" "\<not> 2 < cursor_index cur' ?g"
    using P o by auto
  then have "cursor_index cur' ?g = 2"
    using o(2) by (auto simp: not_less le_Suc_eq numeral_2_eq_2)
  then show ?thesis
    using m by simp
qed

end
