(* ===== verification/Chunk_Reader.thy ===== *)
theory Chunk_Reader
  imports Text_Format
begin

text \<open>
  Reading ptmalloc chunk headers out of the target: \<^verbatim>\<open>tui/chunk_reader.h\<close> and \<^verbatim>\<open>tui/chunk_reader.cpp\<close>.
  The system call \<^verbatim>\<open>process_vm_readv\<close> is a parameter \<open>rd\<close>: given the number of the call and the remote
  addresses, it returns the headers it transferred, a prefix of those asked for since the call never
  splits a vector element, or an error code. The reader's buffer is assigned anew by every pass, so it is
  a local value here.
\<close>

section \<open>Headers\<close>

definition kChunkPrevInUse :: u64 where "kChunkPrevInUse = 1"
definition kChunkIsMmapped :: u64 where "kChunkIsMmapped = 2"
definition kChunkNonMainArena :: u64 where "kChunkNonMainArena = 4"
definition kChunkSizeMask :: u64 where "kChunkSizeMask = NOT 7"
definition kMinChunkBytes :: u64 where "kMinChunkBytes = 32"
definition kChunkAlign :: u64 where "kChunkAlign = 16"
definition kChunkHeaderBytes :: u64 where "kChunkHeaderBytes = 16"
definition kChunkMinOverheadBytes :: u64 where "kChunkMinOverheadBytes = 8"
definition kMaxChunkBytes :: u64 where "kMaxChunkBytes = push_bit 30 64"
definition kMaxVectors :: nat where "kMaxVectors = 1024"

record raw_chunk_header =
  raw_prev_size :: u64
  raw_size :: u64

definition zero_header :: raw_chunk_header where
  "zero_header = \<lparr>raw_prev_size = 0, raw_size = 0\<rparr>"

record chunk_info =
  ci_user_ptr :: u64
  ci_chunk_size :: u64
  ci_overhead :: u32
  ci_mmapped :: bool
  ci_non_main_arena :: bool
  ci_prev_in_use :: bool
  ci_valid :: bool

definition no_info :: chunk_info where
  "no_info = \<lparr>ci_user_ptr = 0, ci_chunk_size = 0, ci_overhead = 0, ci_mmapped = False,
     ci_non_main_arena = False, ci_prev_in_use = False, ci_valid = False\<rparr>"

datatype read_status = RdOk | RdDenied | RdTargetGone | RdPartial | RdFailed

definition read_status_str :: "read_status \<Rightarrow> string" where
  "read_status_str s = (case s of RdOk \<Rightarrow> ''ok'' | RdDenied \<Rightarrow> ''ptrace denied: overhead unavailable''
     | RdTargetGone \<Rightarrow> ''target exited'' | RdPartial \<Rightarrow> ''partial read'' | RdFailed \<Rightarrow> ''read failed'')"

definition decode_chunk :: "raw_chunk_header \<Rightarrow> u64 \<Rightarrow> u64 \<Rightarrow> u64 \<Rightarrow> chunk_info option" where
  "decode_chunk raw user_ptr requested region_span =
     (let size = raw_size raw AND kChunkSizeMask
      in if size < kMinChunkBytes then None
         else if size AND (kChunkAlign - 1) \<noteq> 0 then None
         else if size > kMaxChunkBytes then None
         else if region_span \<noteq> 0 \<and> size > region_span then None
         else if requested \<noteq> 0 \<and> size < requested + kChunkMinOverheadBytes then None
         else Some \<lparr>ci_user_ptr = user_ptr, ci_chunk_size = size,
                ci_overhead = (if requested \<noteq> 0 \<and> size \<ge> requested
                               then (let over = size - requested in if over > 0xFFFFFFFF then 0xFFFFFFFF else ucast over)
                               else 0),
                ci_mmapped = (raw_size raw AND kChunkIsMmapped \<noteq> 0),
                ci_non_main_arena = (raw_size raw AND kChunkNonMainArena \<noteq> 0),
                ci_prev_in_use = (raw_size raw AND kChunkPrevInUse \<noteq> 0), ci_valid = True\<rparr>)"

section \<open>The reader\<close>

datatype errno = EPERM | EACCES | ESRCH | EFAULT | EOther

datatype readv_result = RvError errno | RvHeaders "raw_chunk_header list"

record chunk_reader =
  cr_pid :: int
  cr_denied :: bool
  cr_gone :: bool
  cr_reads :: nat
  cr_headers :: nat
  cr_rejected :: nat

definition chunk_reader_new :: "int \<Rightarrow> chunk_reader" where
  "chunk_reader_new pid =
     \<lparr>cr_pid = pid, cr_denied = False, cr_gone = False, cr_reads = 0, cr_headers = 0, cr_rejected = 0\<rparr>"

definition reader_available :: "chunk_reader \<Rightarrow> bool" where
  "reader_available r \<longleftrightarrow> \<not> cr_denied r"

definition reader_hint :: "chunk_reader \<Rightarrow> string option" where
  "reader_hint r = (if cr_denied r then Some ''ptrace denied: overhead unavailable''
     else if cr_gone r then Some ''target exited: chunk detail frozen'' else None)"

text \<open>One local vector per pointer that has room for a header below it, filled in order.\<close>

definition remote_of :: "u64 list \<Rightarrow> u64 list" where
  "remote_of batch = map (\<lambda>p. p - kChunkHeaderBytes) (filter (\<lambda>p. \<not> p < kChunkHeaderBytes) batch)"

fun scatter :: "u64 list \<Rightarrow> raw_chunk_header list \<Rightarrow> raw_chunk_header list" where
  "scatter [] hs = []"
| "scatter (p # ps) hs =
     (if p < kChunkHeaderBytes then zero_header # scatter ps hs
      else case hs of [] \<Rightarrow> zero_header # scatter ps [] | h # hs' \<Rightarrow> h # scatter ps hs')"

function read_loop ::
    "(nat \<Rightarrow> u64 list \<Rightarrow> readv_result) \<Rightarrow> chunk_reader \<Rightarrow> u64 list \<Rightarrow> raw_chunk_header list \<Rightarrow> read_status \<Rightarrow>
     (read_status + read_status \<times> raw_chunk_header list) \<times> chunk_reader" where
  "read_loop rd r rest buf status =
     (if rest = [] then (Inr (status, buf), r)
      else
        (let batch = take kMaxVectors rest;
             addrs = remote_of batch;
             unread = replicate (length batch) zero_header
         in if addrs = [] then read_loop rd r (drop kMaxVectors rest) (buf @ unread) status
            else
              (let r1 = r\<lparr>cr_reads := cr_reads r + 1\<rparr>
               in case rd (cr_reads r) addrs of
                    RvError e \<Rightarrow>
                      (case e of
                         EPERM \<Rightarrow> (Inl RdDenied, r1\<lparr>cr_denied := True\<rparr>)
                       | EACCES \<Rightarrow> (Inl RdDenied, r1\<lparr>cr_denied := True\<rparr>)
                       | ESRCH \<Rightarrow> (Inl RdTargetGone, r1\<lparr>cr_gone := True\<rparr>)
                       | EFAULT \<Rightarrow> read_loop rd r1 (drop kMaxVectors rest) (buf @ unread) RdPartial
                       | EOther \<Rightarrow> (Inl RdFailed, r1))
                  | RvHeaders hs \<Rightarrow>
                      read_loop rd r1 (drop kMaxVectors rest) (buf @ scatter batch hs)
                        (if length hs < length addrs then RdPartial else status))))"
  by pat_completeness auto
termination
  by (relation "measure (\<lambda>(rd, r, rest, buf, status). length rest)") (auto simp: kMaxVectors_def)

declare read_loop.simps [simp del]

definition decode_all :: "raw_chunk_header list \<Rightarrow> u64 list \<Rightarrow> u64 list option \<Rightarrow> chunk_info option list" where
  "decode_all buf ptrs requested =
     map (\<lambda>i. decode_chunk (buf ! i) (ptrs ! i) (case requested of None \<Rightarrow> 0 | Some w \<Rightarrow> w ! i) 0) [0..<length ptrs]"

definition reader_read ::
    "(nat \<Rightarrow> u64 list \<Rightarrow> readv_result) \<Rightarrow> chunk_reader \<Rightarrow> u64 list \<Rightarrow> u64 list option \<Rightarrow> chunk_info list \<Rightarrow>
     read_status \<times> chunk_info list \<times> chunk_reader" where
  "reader_read rd r ptrs requested out =
     (if ptrs = [] then (RdOk, out, r)
      else if cr_denied r then (RdDenied, out, r)
      else if cr_gone r then (RdTargetGone, out, r)
      else
        (let cleared = replicate (length ptrs) no_info @ drop (length ptrs) out
         in case read_loop rd r ptrs [] RdOk of
              (Inl status, r1) \<Rightarrow> (status, cleared, r1)
            | (Inr (status, buf), r1) \<Rightarrow>
                (let infos = decode_all buf ptrs requested
                 in (status, map (case_option no_info id) infos @ drop (length ptrs) out,
                     r1\<lparr>cr_rejected := cr_rejected r1 + length (filter (\<lambda>o'. o' = None) infos),
                        cr_headers := cr_headers r1 + length (filter (\<lambda>o'. o' \<noteq> None) infos)\<rparr>))))"

section \<open>What the buffer holds\<close>

text \<open>
  \<open>faithful_reads\<close>: a call transfers a prefix of the headers it was asked for, each the contents of its own
  address in the memory \<open>mem\<close>.
\<close>

definition faithful_reads :: "(u64 \<Rightarrow> raw_chunk_header) \<Rightarrow> (nat \<Rightarrow> u64 list \<Rightarrow> readv_result) \<Rightarrow> bool" where
  "faithful_reads mem rd \<longleftrightarrow> (\<forall>k as hs. rd k as = RvHeaders hs \<longrightarrow> (\<exists>j \<le> length as. hs = map mem (take j as)))"

lemma scatter_none: "scatter ps [] = replicate (length ps) zero_header"
  by (induction ps) simp_all

text \<open>
  A buffer entry is zero or the pointer's own header; in a pass that has met no gap (\<open>full\<close>) it is the
  latter for every pointer that has a header below it.
\<close>

definition own_header :: "(u64 \<Rightarrow> raw_chunk_header) \<Rightarrow> bool \<Rightarrow> u64 \<Rightarrow> raw_chunk_header \<Rightarrow> bool" where
  "own_header mem full p h \<longleftrightarrow>
     (h = zero_header \<or> kChunkHeaderBytes \<le> p \<and> h = mem (p - kChunkHeaderBytes)) \<and>
     (full \<longrightarrow> kChunkHeaderBytes \<le> p \<longrightarrow> h = mem (p - kChunkHeaderBytes))"

lemma remote_of_simps [simp]:
  "remote_of [] = []"
  "remote_of (p # ps) = (if p < kChunkHeaderBytes then remote_of ps else (p - kChunkHeaderBytes) # remote_of ps)"
  by (simp_all add: remote_of_def)

lemma own_header_cases:
  "p < kChunkHeaderBytes \<Longrightarrow> own_header mem full p zero_header"
  "\<not> p < kChunkHeaderBytes \<Longrightarrow> own_header mem full p (mem (p - kChunkHeaderBytes))"
  "own_header mem False p zero_header"
  by (auto simp: own_header_def)

lemma scatter_own:
  "list_all2 (own_header mem (length (remote_of ps) \<le> j)) ps (scatter ps (map mem (take j (remote_of ps))))"
proof (induction ps arbitrary: j)
  case Nil
  then show ?case by simp
next
  case (Cons p ps)
  have nil: "list_all2 (own_header mem (remote_of ps = [])) ps (scatter ps [])"
    using Cons.IH [of 0] by simp
  then have part: "list_all2 (own_header mem False) ps (scatter ps [])"
    by (rule list_all2_mono) (simp add: own_header_def)
  show ?case
  proof (cases "p < kChunkHeaderBytes")
    case True
    then show ?thesis
      using Cons.IH [of j] by (simp add: own_header_cases(1))
  next
    case False
    then show ?thesis
      using Cons.IH [of "j - 1"] part by (cases j) (simp_all add: own_header_cases)
  qed
qed

lemma unread_own: "list_all2 (own_header mem (remote_of ps = [])) ps (replicate (length ps) zero_header)"
  using scatter_own [of mem ps 0] by (simp add: scatter_none)

lemma own_weaken: "list_all2 (own_header mem full) ps hs \<Longrightarrow> (full' \<Longrightarrow> full) \<Longrightarrow> list_all2 (own_header mem full') ps hs"
  by (erule list_all2_mono) (auto simp: own_header_def)

lemma read_loop_own:
  assumes "faithful_reads mem rd" and "read_loop rd r rest buf status = (Inr (status', buf'), r')"
    and "list_all2 (own_header mem (status = RdOk)) pre buf"
  shows "list_all2 (own_header mem (status' = RdOk)) (pre @ rest) buf'"
  using assms(2,3)
proof (induction "length rest" arbitrary: r rest buf status pre rule: less_induct)
  case less
  note prems = less.prems
  show ?case
  proof (cases "rest = []")
    case True
    then show ?thesis
      using prems by (simp add: read_loop.simps)
  next
    case False
    let ?b = "take kMaxVectors rest" and ?d = "drop kMaxVectors rest"
    have IH: "list_all2 (own_header mem (status' = RdOk)) (pre @ rest) buf'"
      if "read_loop rd r1 ?d (buf @ hs) st = (Inr (status', buf'), r')" "list_all2 (own_header mem (st = RdOk)) ?b hs"
        "st = RdOk \<Longrightarrow> status = RdOk" for r1 hs st
    proof -
      have "list_all2 (own_header mem (st = RdOk)) (pre @ ?b) (buf @ hs)"
        using own_weaken [OF prems(2) that(3)] that(2) by (rule list_all2_appendI)
      then show ?thesis
        using less.hyps [of ?d r1 "buf @ hs" st "pre @ ?b"] that(1) False by (simp add: kMaxVectors_def)
    qed
    have un: "list_all2 (own_header mem (st = RdOk)) ?b (replicate (length ?b) zero_header)"
      if "st = RdOk \<Longrightarrow> remote_of ?b = []" for st
      using own_weaken [OF unread_own that] .
    show ?thesis
    proof (cases "remote_of ?b = []")
      case True
      then show ?thesis
        using prems(1) False IH [OF _ un] by (subst (asm) read_loop.simps) (simp add: Let_def)
    next
      case nonempty: False
      show ?thesis
      proof (cases "rd (cr_reads r) (remote_of ?b)")
        case (RvError e)
        then have "e = EFAULT" "read_loop rd (r\<lparr>cr_reads := cr_reads r + 1\<rparr>) ?d
            (buf @ replicate (length ?b) zero_header) RdPartial = (Inr (status', buf'), r')"
          using prems(1) False nonempty by (subst (asm) read_loop.simps, simp add: Let_def split: errno.splits)+
        then show ?thesis
          using IH [OF _ un [of RdPartial]] by simp
      next
        case (RvHeaders hs)
        obtain j where j: "j \<le> length (remote_of ?b)" "hs = map mem (take j (remote_of ?b))"
          using assms(1) RvHeaders unfolding faithful_reads_def by blast
        let ?st = "if length hs < length (remote_of ?b) then RdPartial else status"
        have "read_loop rd (r\<lparr>cr_reads := cr_reads r + 1\<rparr>) ?d (buf @ scatter ?b hs) ?st = (Inr (status', buf'), r')"
          using prems(1) False nonempty RvHeaders by (subst (asm) read_loop.simps) (simp add: Let_def)
        moreover have "list_all2 (own_header mem (?st = RdOk)) ?b (scatter ?b hs)"
          unfolding j(2) by (rule own_weaken [OF scatter_own]) (use j(1) in \<open>auto split: if_splits\<close>)
        ultimately show ?thesis
          by (rule IH) (simp split: if_splits)
      qed
    qed
  qed
qed

lemma read_loop_failed: "read_loop rd r rest buf status = (Inl st, r1) \<Longrightarrow> st \<noteq> RdOk"
proof (induction "length rest" arbitrary: r rest buf status rule: less_induct)
  case less
  have shorter: "rest \<noteq> [] \<Longrightarrow> length (drop kMaxVectors rest) < length rest"
    by (simp add: kMaxVectors_def)
  show ?case
    using less.prems less.hyps [OF shorter]
    by (subst (asm) read_loop.simps) (auto simp: Let_def split: if_splits readv_result.splits errno.splits)
qed

lemma decode_zero: "decode_chunk zero_header p w s = None"
  by (simp add: decode_chunk_def zero_header_def kMinChunkBytes_def)

lemma decode_valid: "decode_chunk raw p w s = Some c \<Longrightarrow> ci_valid c"
  by (auto simp: decode_chunk_def Let_def split: if_splits)

section \<open>Properties\<close>

text \<open>
  A pass reports a chunk as valid only when it is the decoding of the header that lies directly below
  that very pointer, however the calls fail, fall short or are split into batches, and although pointers
  too low to have a header are left out of the vectors: no header of another pointer and nothing left
  from an earlier pass is ever reported. When the pass reports success every pointer was decoded so.
\<close>

theorem reader_reports_own_headers:
  assumes "faithful_reads mem rd" and "reader_read rd r ptrs requested out = (status, out', r')"
    and "\<not> cr_denied r" and "\<not> cr_gone r" and "i < length ptrs"
    and "want = (case requested of None \<Rightarrow> 0 | Some w \<Rightarrow> w ! i)"
  shows "(ci_valid (out' ! i) \<longrightarrow> kChunkHeaderBytes \<le> ptrs ! i \<and>
      decode_chunk (mem (ptrs ! i - kChunkHeaderBytes)) (ptrs ! i) want 0 = Some (out' ! i)) \<and>
    (status = RdOk \<and> kChunkHeaderBytes \<le> ptrs ! i \<longrightarrow>
      out' ! i = case_option no_info id (decode_chunk (mem (ptrs ! i - kChunkHeaderBytes)) (ptrs ! i) want 0))"
proof (cases "fst (read_loop rd r ptrs [] RdOk)")
  case (Inl st)
  then obtain r1 where l: "read_loop rd r ptrs [] RdOk = (Inl st, r1)"
    by (cases "read_loop rd r ptrs [] RdOk") simp
  have "ptrs \<noteq> []"
    using assms(5) by auto
  then have "status = st" "out' ! i = no_info"
    using assms(2-5) l by (auto simp: reader_read_def nth_append)
  then show ?thesis
    using read_loop_failed [OF l] by (simp add: no_info_def)
next
  case (Inr b)
  obtain st buf r1 where l: "read_loop rd r ptrs [] RdOk = (Inr (st, buf), r1)"
    using Inr by (cases "read_loop rd r ptrs [] RdOk", cases b) simp
  have own: "own_header mem (st = RdOk) (ptrs ! i) (buf ! i)"
    using read_loop_own [OF assms(1) l, of "[]"] assms(5) by (simp add: list_all2_conv_all_nth)
  have "ptrs \<noteq> []"
    using assms(5) by auto
  then have "status = st" "out' ! i = case_option no_info id (decode_chunk (buf ! i) (ptrs ! i) want 0)"
    using assms(2-6) l by (auto simp: reader_read_def Let_def decode_all_def nth_append)
  then show ?thesis
    using own by (auto simp: own_header_def decode_zero no_info_def split: option.splits)
qed

theorem reader_reports_own_headers_witness:
  "(\<lambda>mem rd. ci_overhead (fst (snd (reader_read rd (chunk_reader_new 7) [8, 4112] (Some [1, 24]) [])) ! 1) = 8)
     (\<lambda>a. \<lparr>raw_prev_size = 0, raw_size = 33\<rparr>) (\<lambda>k as. RvHeaders (map (\<lambda>a. \<lparr>raw_prev_size = 0, raw_size = 33\<rparr>) as))"
proof -
  let ?mem = "\<lambda>a :: u64. \<lparr>raw_prev_size = 0, raw_size = 33\<rparr>"
  let ?rd = "\<lambda>(k :: nat) as. RvHeaders (map ?mem as)"
  obtain status out' r' where e: "reader_read ?rd (chunk_reader_new 7) [8, 4112] (Some [1, 24]) [] = (status, out', r')"
    by (metis prod_cases3)
  have "faithful_reads ?mem ?rd"
    by (auto simp: faithful_reads_def)
  from reader_reports_own_headers [OF this e, of 1 24] 
  have "status = RdOk \<longrightarrow> out' ! 1 = case_option no_info id (decode_chunk (?mem (4112 - kChunkHeaderBytes)) 4112 24 0)"
    by (simp add: chunk_reader_new_def kChunkHeaderBytes_def)
  moreover have "fst (reader_read ?rd (chunk_reader_new 7) [8, 4112] (Some [1, 24]) []) = RdOk"
    "ci_overhead (case_option no_info id (decode_chunk (?mem (4112 - kChunkHeaderBytes)) 4112 24 0)) = 8"
    by code_simp+
  ultimately show ?thesis
    by (simp add: e)
qed

end
