(* ===== verification/Fragmentation.thy ===== *)
theory Fragmentation
  imports Region_Map Chunk_Store Chunk_Reader
begin

text \<open>
  The fragmentation pass of \<^verbatim>\<open>tui/fragmentation.h\<close> and \<^verbatim>\<open>tui/fragmentation.cpp\<close>: one linear pass over the
  chunk table accumulates a span and a sum of footprints per region, and a sorted walk finds the largest
  hole. The buffers the analyzer reuses across passes are assigned anew by each, so they are local here.
  Live records have distinct addresses, so the order \<^verbatim>\<open>std::sort\<close> leaves equal keys in does not matter.
\<close>

section \<open>Data\<close>

definition kFragIntervalMs :: u32 where "kFragIntervalMs = 250"
definition kFragMaxSorted :: nat where "kFragMaxSorted = 2 ^ 18"

record frag_report =
  fr_span_bytes :: u64
  fr_used_bytes :: u64
  fr_gap_bytes :: u64
  fr_largest_gap :: u64
  fr_chunks :: u64
  fr_outside :: u64
  fr_regions :: nat
  fr_largest_gap_known :: bool
  fr_percent :: int

definition frag_report_new :: frag_report where
  "frag_report_new = \<lparr>fr_span_bytes = 0, fr_used_bytes = 0, fr_gap_bytes = 0, fr_largest_gap = 0, fr_chunks = 0,
     fr_outside = 0, fr_regions = 0, fr_largest_gap_known = False, fr_percent = -1\<rparr>"

record region_acc =
  ra_lo :: u64
  ra_hi :: u64
  ra_used :: u64
  ra_chunks :: u64

definition region_acc_new :: region_acc where
  "region_acc_new = \<lparr>ra_lo = 0, ra_hi = 0, ra_used = 0, ra_chunks = 0\<rparr>"

record extent =
  ex_start :: u64
  ex_end :: u64

record frag_analyzer =
  fa_report :: frag_report
  fa_interval_ms :: u32
  fa_last_ms :: u32
  fa_ran :: bool
  fa_max_sorted :: nat

definition frag_analyzer_new :: frag_analyzer where
  "frag_analyzer_new = \<lparr>fa_report = frag_report_new, fa_interval_ms = kFragIntervalMs, fa_last_ms = 0,
     fa_ran = False, fa_max_sorted = kFragMaxSorted\<rparr>"

section \<open>The pass\<close>

definition frag_due :: "frag_analyzer \<Rightarrow> u32 \<Rightarrow> bool" where
  "frag_due f now_ms = (if \<not> fa_ran f then True else now_ms - fa_last_ms f \<ge> fa_interval_ms f)"

record frag_pass =
  fp_acc :: "region_acc list"
  fp_chunks :: u64
  fp_outside :: u64
  fp_extents :: "extent list"

text \<open>The pointer difference \<open>s - spans.data()\<close>: the position of the span in the list.\<close>

definition span_index :: "region_map \<Rightarrow> span \<Rightarrow> nat" where
  "span_index regions s = length (takeWhile (\<lambda>x. x \<noteq> s) (rm_spans regions))"

definition add_extent :: "extent \<Rightarrow> region_acc \<Rightarrow> region_acc" where
  "add_extent e a =
     (let start = ex_start e; end' = ex_end e;
          (lo, hi) = (if ra_chunks a = 0 then (start, end')
                      else (if start < ra_lo a then start else ra_lo a, if end' > ra_hi a then end' else ra_hi a))
      in \<lparr>ra_lo = lo, ra_hi = hi, ra_used = ra_used a + (end' - start), ra_chunks = ra_chunks a + 1\<rparr>)"

definition chunk_extent :: "span \<Rightarrow> chunk \<Rightarrow> extent" where
  "chunk_extent s c =
     (let start = c_key c;
          end' = start + ucast (c_usable c) + kChunkMinOverheadBytes
      in \<lparr>ex_start = start, ex_end = (if end' > s_end s then s_end s else end')\<rparr>)"

definition frag_step :: "region_map \<Rightarrow> bool \<Rightarrow> chunk \<Rightarrow> frag_pass \<Rightarrow> frag_pass" where
  "frag_step regions collect c p =
     (if c_state c \<noteq> ChunkLive \<or> c_key c = 0 then p
      else case span_at_addr regions (c_key c) of
        None \<Rightarrow> p\<lparr>fp_outside := fp_outside p + 1\<rparr>
      | Some s \<Rightarrow>
          (let ri = span_index regions s; e = chunk_extent s c
           in if ex_end e \<le> ex_start e then p
              else p\<lparr>fp_acc := (fp_acc p)[ri := add_extent e (fp_acc p ! ri)],
                     fp_chunks := fp_chunks p + 1,
                     fp_extents := (if collect then fp_extents p @ [e] else fp_extents p)\<rparr>))"

definition sum_region :: "region_acc \<Rightarrow> nat \<times> u64 \<times> u64 \<Rightarrow> nat \<times> u64 \<times> u64" where
  "sum_region a t = (case t of (n, sp, us) \<Rightarrow>
     if ra_chunks a = 0 then (n, sp, us) else (n + 1, sp + (ra_hi a - ra_lo a), us + ra_used a))"

text \<open>The ordered walk: the cursor over the regions is the list of those not yet passed.\<close>

fun hole_walk :: "span list \<Rightarrow> extent list \<Rightarrow> u64 \<Rightarrow> u64" where
  "hole_walk spans (a # b # es) best =
     (let spans' = dropWhile (\<lambda>s. s_end s \<le> ex_start a) spans
      in case spans' of
           [] \<Rightarrow> best
         | s # _ \<Rightarrow>
             if ex_start b \<ge> s_end s then hole_walk spans' (b # es) best
             else hole_walk spans' (b # es)
                    (if ex_start b > ex_end a \<and> ex_start b - ex_end a > best then ex_start b - ex_end a else best))"
| "hole_walk spans _ best = best"

definition frag_report_of :: "region_map \<Rightarrow> bool \<Rightarrow> frag_pass \<Rightarrow> frag_report" where
  "frag_report_of regions collect p =
     (case fold sum_region (fp_acc p) (0, 0, 0) of (n, span_bytes, used_bytes) \<Rightarrow>
        (let gap = (if span_bytes > used_bytes then span_bytes - used_bytes else 0);
             sorted = collect \<and> fp_extents p \<noteq> []
         in \<lparr>fr_span_bytes = span_bytes, fr_used_bytes = used_bytes, fr_gap_bytes = gap,
             fr_largest_gap = (if sorted then hole_walk (rm_spans regions) (sort_key ex_start (fp_extents p)) 0 else 0),
             fr_chunks = fp_chunks p, fr_outside = fp_outside p, fr_regions = n, fr_largest_gap_known = sorted,
             fr_percent = (if span_bytes \<noteq> 0 then sint (ucast (gap * 100 div span_bytes) :: u32) else -1)\<rparr>))"

definition frag_analyze :: "frag_analyzer \<Rightarrow> chunk_table \<Rightarrow> region_map \<Rightarrow> u32 \<Rightarrow> bool \<times> frag_analyzer" where
  "frag_analyze f table regions now_ms =
     (if \<not> frag_due f now_ms then (False, f)
      else
        (let prev = fa_report f;
             nr = length (rm_spans regions);
             collect = (nr \<noteq> 0 \<and> ct_size table \<le> fa_max_sorted f);
             p = fold (frag_step regions collect) (ct_slots table)
                   \<lparr>fp_acc = replicate nr region_acc_new, fp_chunks = 0, fp_outside = 0, fp_extents = []\<rparr>;
             r = frag_report_of regions collect p
         in (fr_percent r \<noteq> fr_percent prev \<or> fr_largest_gap r \<noteq> fr_largest_gap prev \<or>
               fr_largest_gap_known r \<noteq> fr_largest_gap_known prev,
             f\<lparr>fa_last_ms := now_ms, fa_ran := True, fa_report := r\<rparr>)))"

section \<open>What each region accumulates\<close>

text \<open>The extents of the live records of one region, in table order.\<close>

definition region_extents :: "region_map \<Rightarrow> span \<Rightarrow> chunk list \<Rightarrow> extent list" where
  "region_extents regions s cs =
     filter (\<lambda>e. ex_start e < ex_end e)
       (map (chunk_extent s) (filter (\<lambda>c. c_state c = ChunkLive \<and> c_key c \<noteq> 0 \<and> span_at_addr regions (c_key c) = Some s) cs))"

lemma rm_spans_distinct:
  assumes "rm_ok m" shows "distinct (rm_spans m)"
proof -
  have asc: "ascending s_start s_end (rm_spans m)" and pos: "\<And>s. s \<in> set (rm_spans m) \<Longrightarrow> s_start s < s_end s"
    using assms by (auto simp: rm_ok_def)
  have "rm_spans m ! i \<noteq> rm_spans m ! j" if "i < j" "j < length (rm_spans m)" for i j
    using ascending_nth [OF asc that] pos [OF nth_mem, of j] that by auto
  then show ?thesis
    by (metis distinct_conv_nth linorder_neqE_nat)
qed

lemma span_index_nth:
  assumes "rm_ok m" "i < length (rm_spans m)"
  shows "span_index m (rm_spans m ! i) = i"
proof -
  have "takeWhile (\<lambda>x. x \<noteq> rm_spans m ! i) (rm_spans m) = take i (rm_spans m)"
    using rm_spans_distinct [OF assms(1)] assms(2)
    by (intro takeWhile_eq_take_P_nth) (auto simp: nth_eq_iff_index_eq)
  then show ?thesis
    using assms(2) by (simp add: span_index_def)
qed

lemma frag_fold_acc:
  assumes ok: "rm_ok m" and i: "i < length (rm_spans m)" and len: "length (fp_acc p) = length (rm_spans m)"
  shows "fp_acc (fold (frag_step m collect) cs p) ! i = fold add_extent (region_extents m (rm_spans m ! i) cs) (fp_acc p ! i) \<and>
    length (fp_acc (fold (frag_step m collect) cs p)) = length (rm_spans m)"
  using len
proof (induction cs arbitrary: p)
  case Nil
  then show ?case by (simp add: region_extents_def)
next
  case (Cons c cs)
  have len': "length (fp_acc (frag_step m collect c p)) = length (rm_spans m)"
    using Cons.prems by (auto simp: frag_step_def Let_def split: option.splits)
  have "fp_acc (frag_step m collect c p) ! i = fold add_extent (region_extents m (rm_spans m ! i) [c]) (fp_acc p ! i)"
  proof (cases "c_state c = ChunkLive \<and> c_key c \<noteq> 0 \<and> span_at_addr m (c_key c) \<noteq> None")
    case False
    then show ?thesis
      by (auto simp: frag_step_def region_extents_def split: option.splits)
  next
    case True
    then obtain s where s: "span_at_addr m (c_key c) = Some s" by auto
    then obtain j where j: "j < length (rm_spans m)" "s = rm_spans m ! j"
      using span_at_addr_iff [OF ok] by (auto simp: in_set_conv_nth)
    have "s = rm_spans m ! i \<longleftrightarrow> j = i"
      using rm_spans_distinct [OF ok] i j by (auto simp: nth_eq_iff_index_eq)
    then show ?thesis
      using True s span_index_nth [OF ok j(1)] Cons.prems j
      by (auto simp: frag_step_def region_extents_def Let_def nth_list_update)
  qed
  moreover have "region_extents m s (c # cs) = region_extents m s [c] @ region_extents m s cs" for s
    by (simp add: region_extents_def)
  ultimately show ?case
    using Cons.IH [OF len'] by simp
qed

end
