(* ===== verification/Fragmentation_Properties.thy ===== *)
theory Fragmentation_Properties
  imports Fragmentation
begin

text \<open>
  The identity behind the fragmentation figure of \<^verbatim>\<open>tui/fragmentation.cpp\<close>: the sum of the gaps between live
  chunks is the span minus the footprints, so it needs no sort.
\<close>

section \<open>Disjoint intervals\<close>

lemma card_ivls:
  fixes lo hi :: "'a \<Rightarrow> nat"
  assumes "sorted_wrt (\<lambda>x y. {lo x..<hi x} \<inter> {lo y..<hi y} = {}) xs"
  shows "card (\<Union>x \<in> set xs. {lo x..<hi x}) = (\<Sum>x \<leftarrow> xs. hi x - lo x)"
  using assms
proof (induction xs)
  case (Cons x xs)
  have "{lo x..<hi x} \<inter> (\<Union>y \<in> set xs. {lo y..<hi y}) = {}"
    using Cons.prems by auto
  then show ?case
    using Cons by (simp add: card_Un_disjoint)
qed simp

definition extent_bytes :: "extent \<Rightarrow> nat set" where
  "extent_bytes e = {unat (ex_start e)..<unat (ex_end e)}"

definition covered :: "extent list \<Rightarrow> nat set" where
  "covered es = (\<Union>e \<in> set es. extent_bytes e)"

definition disjoint_extents :: "extent list \<Rightarrow> bool" where
  "disjoint_extents es \<longleftrightarrow> sorted_wrt (\<lambda>e f. extent_bytes e \<inter> extent_bytes f = {}) es"

lemma extents_apart: "ex_end e \<le> ex_start f \<Longrightarrow> extent_bytes e \<inter> extent_bytes f = {}"
  by (auto simp: extent_bytes_def word_le_nat_alt)

text \<open>The bytes trapped between live chunks: some chunk below, some chunk above, and in none.\<close>

definition trapped :: "extent list \<Rightarrow> nat set" where
  "trapped es = {a. (\<exists>e \<in> set es. unat (ex_start e) \<le> a) \<and> (\<exists>e \<in> set es. a < unat (ex_end e)) \<and> a \<notin> covered es}"

definition footprint :: "extent list \<Rightarrow> nat" where
  "footprint es = (\<Sum>e \<leftarrow> es. unat (ex_end e) - unat (ex_start e))"

lemma card_covered: "disjoint_extents es \<Longrightarrow> card (covered es) = footprint es"
  unfolding disjoint_extents_def covered_def footprint_def extent_bytes_def by (rule card_ivls)

section \<open>One region\<close>

definition summary :: "extent list \<Rightarrow> region_acc" where
  "summary es = fold add_extent es region_acc_new"

lemma summary_snoc: "summary (es @ [e]) = add_extent e (summary es)"
  by (simp add: summary_def)

lemma add_extent_simps:
  "ra_chunks (add_extent e a) = ra_chunks a + 1" "ra_used (add_extent e a) = ra_used a + (ex_end e - ex_start e)"
  "ra_lo (add_extent e a) = (if ra_chunks a = 0 then ex_start e else min (ex_start e) (ra_lo a))"
  "ra_hi (add_extent e a) = (if ra_chunks a = 0 then ex_end e else max (ex_end e) (ra_hi a))"
  by (auto simp: add_extent_def Let_def min_def max_def)

lemma summary_chunks: "ra_chunks (summary es) = of_nat (length es)"
  by (induction es rule: rev_induct) (simp_all add: summary_snoc add_extent_simps, simp add: summary_def region_acc_new_def)

lemma summary_empty_iff:
  assumes "length es < 2 ^ 64"
  shows "ra_chunks (summary es) = 0 \<longleftrightarrow> es = []"
  using unat_of_nat_small [of "length es", where 'a=64] assms by (auto simp: summary_chunks)

lemma summary_bounds_all:
  assumes "es \<noteq> []" "length es < 2 ^ 64"
  shows "ra_lo (summary es) \<in> ex_start ` set es \<and> ra_hi (summary es) \<in> ex_end ` set es \<and>
    (\<forall>e \<in> set es. ra_lo (summary es) \<le> ex_start e \<and> ex_end e \<le> ra_hi (summary es))"
  using assms
proof (induction es rule: rev_induct)
  case (snoc x es)
  have z: "ra_chunks (summary es) = 0 \<longleftrightarrow> es = []"
    using snoc.prems by (intro summary_empty_iff) simp
  show ?case
  proof (cases "es = []")
    case True
    then show ?thesis
      using z summary_snoc [of "[]" x] by (simp add: add_extent_simps)
  next
    case False
    then show ?thesis
      using z snoc.IH snoc.prems by (auto simp: summary_snoc add_extent_simps min_def max_def)
  qed
qed simp

lemma summary_bounds:
  assumes "es \<noteq> []" "length es < 2 ^ 64"
  shows "ra_lo (summary es) \<in> ex_start ` set es" "ra_hi (summary es) \<in> ex_end ` set es"
    "e \<in> set es \<Longrightarrow> ra_lo (summary es) \<le> ex_start e" "e \<in> set es \<Longrightarrow> ex_end e \<le> ra_hi (summary es)"
  using summary_bounds_all [OF assms] by auto

lemma summary_used:
  assumes "\<And>e. e \<in> set es \<Longrightarrow> ex_start e \<le> ex_end e"
  shows "ra_used (summary es) = of_nat (footprint es)"
  using assms
proof (induction es rule: rev_induct)
  case Nil
  then show ?case by (simp add: summary_def region_acc_new_def footprint_def)
next
  case (snoc x es)
  have "ex_end x - ex_start x = of_nat (unat (ex_end x) - unat (ex_start x))"
    using snoc.prems by (simp add: unat_sub [symmetric])
  then show ?case
    using snoc by (simp add: summary_snoc add_extent_simps footprint_def)
qed

lemma region_gap:
  assumes ne: "es \<noteq> []" and len: "length es < 2 ^ 64" and "\<And>e. e \<in> set es \<Longrightarrow> ex_start e < ex_end e" and dis: "disjoint_extents es"
  shows "unat (ra_used (summary es)) = footprint es"
    "unat (ra_hi (summary es) - ra_lo (summary es)) = footprint es + card (trapped es)"
    "unat (ra_hi (summary es)) - unat (ra_lo (summary es)) = footprint es + card (trapped es)"
    "ra_lo (summary es) \<le> ra_hi (summary es)"
proof -
  let ?lo = "ra_lo (summary es)" and ?hi = "ra_hi (summary es)"
  note B = summary_bounds [OF ne len]
  have hull: "covered es \<union> trapped es = {unat ?lo..<unat ?hi}"
    using B by (auto simp: covered_def trapped_def extent_bytes_def word_le_nat_alt) (meson le_trans less_le_trans)+
  have "covered es \<inter> trapped es = {}" "finite (covered es)"
    by (auto simp: trapped_def covered_def extent_bytes_def)
  then have card: "card {unat ?lo..<unat ?hi} = footprint es + card (trapped es)"
    using hull card_covered [OF dis] by (metis card_Un_disjoint finite_Un finite_atLeastLessThan)
  then show "unat ?hi - unat ?lo = footprint es + card (trapped es)" by simp
  obtain e where e: "e \<in> set es" using ne by (cases es) auto
  then show le: "?lo \<le> ?hi"
    using B(3,4) [OF e] assms(3) [OF e] by simp
  then show "unat (?hi - ?lo) = footprint es + card (trapped es)"
    using card by (simp add: unat_sub)
  have "footprint es < 2 ^ 64"
    using card unat_lt_exp [of ?hi] by simp
  then show "unat (ra_used (summary es)) = footprint es"
    using summary_used [of es] assms(3) unat_of_nat_small [of "footprint es", where 'a=64] by (simp add: less_imp_le)
qed

section \<open>All regions\<close>

lemma region_extents_inside:
  assumes "rm_ok m" "s \<in> set (rm_spans m)" "e \<in> set (region_extents m s cs)"
  shows "ex_start e < ex_end e" "s_start s \<le> ex_start e" "ex_end e \<le> s_end s"
proof -
  obtain c where c: "e = chunk_extent s c" "span_at_addr m (c_key c) = Some s" "ex_start e < ex_end e"
    using assms(3) by (auto simp: region_extents_def)
  then show "ex_start e < ex_end e" "s_start s \<le> ex_start e" "ex_end e \<le> s_end s"
    using span_at_addr_iff [OF assms(1)] by (auto simp: chunk_extent_def contains_addr_def Let_def)
qed

definition hull :: "extent list \<Rightarrow> nat" where
  "hull es = footprint es + card (trapped es)"

lemma hull_in_span:
  assumes "rm_ok m" "s \<in> set (rm_spans m)" "length es < 2 ^ 64" "disjoint_extents es" "es = region_extents m s cs"
  shows "hull es \<le> unat (s_end s) - unat (s_start s)"
proof (cases "es = []")
  case True
  then show ?thesis by (simp add: hull_def footprint_def trapped_def)
next
  case False
  note I = region_extents_inside [OF assms(1,2), of _ cs, folded assms(5)]
  note B = summary_bounds [OF False assms(3)]
  have "s_start s \<le> ra_lo (summary es)" "ra_hi (summary es) \<le> s_end s"
    using B(1,2) I by auto
  then show ?thesis
    using region_gap(3) [OF False assms(3) I(1) assms(4)] by (simp add: hull_def word_le_nat_alt)
qed

lemma spans_fit:
  assumes "rm_ok m"
  shows "(\<Sum>s \<leftarrow> rm_spans m. unat (s_end s) - unat (s_start s)) < 2 ^ 64"
proof -
  have "sorted_wrt (\<lambda>s t. s_end s \<le> s_start t) (rm_spans m)"
    using assms by (simp add: rm_ok_def ascending_def)
  then have "sorted_wrt (\<lambda>s t. {unat (s_start s)..<unat (s_end s)} \<inter> {unat (s_start t)..<unat (s_end t)} = {}) (rm_spans m)"
    by (rule sorted_wrt_mono_rel [rotated]) (auto simp: word_le_nat_alt)
  then have "(\<Sum>s \<leftarrow> rm_spans m. unat (s_end s) - unat (s_start s)) =
      card (\<Union>s \<in> set (rm_spans m). {unat (s_start s)..<unat (s_end s)})"
    by (rule card_ivls [symmetric])
  also have "\<dots> \<le> card {0..<2 ^ 64 - 1 :: nat}"
  proof (rule card_mono)
    have "x < 2 ^ 64 - 1" if "x < unat (s_end s)" for x s
      using unat_lt_exp [of "s_end s"] that by simp
    then show "(\<Union>s \<in> set (rm_spans m). {unat (s_start s)..<unat (s_end s)}) \<subseteq> {0..<2 ^ 64 - 1}"
      by auto
  qed simp
  finally show ?thesis by simp
qed

lemma frag_acc_length: "length (fp_acc (fold (frag_step m collect) cs p)) = length (fp_acc p)"
  by (induction cs arbitrary: p) (auto simp: frag_step_def Let_def split: option.splits)

lemma sint_small:
  assumes "unat (x :: u64) \<le> 100"
  shows "sint (ucast x :: u32) = int (unat x)"
proof -
  have "sint (ucast x :: u32) = signed_take_bit 31 (uint x)"
    by (simp add: signed_ucast_eq)
  also have "\<dots> = uint x"
  proof (rule signed_take_bit_int_eq_self)
    show "- (2 ^ 31) \<le> uint x"
      by (rule order_trans [OF _ unsigned_greater_eq]) simp
    show "uint x < 2 ^ 31"
    proof -
      have "int (unat x) \<le> 100"
        using assms by linarith
      then show ?thesis by simp
    qed
  qed
  finally show ?thesis by simp
qed

lemma fold_sum_region:
  assumes "\<And>es. es \<in> set ess \<Longrightarrow> length es < 2 ^ 64 \<and> disjoint_extents es \<and> (\<forall>e \<in> set es. ex_start e < ex_end e)"
  shows "fold sum_region (map summary ess) (n, sp, us) =
    (n + length (filter (\<lambda>es. es \<noteq> []) ess), sp + of_nat (\<Sum>es \<leftarrow> ess. hull es), us + of_nat (\<Sum>es \<leftarrow> ess. footprint es))"
  using assms
proof (induction ess arbitrary: n sp us)
  case (Cons es ess)
  have "sum_region (summary es) (n, sp, us) =
      (if es = [] then n else n + 1, sp + of_nat (hull es), us + of_nat (footprint es))"
  proof (cases "es = []")
    case True
    then show ?thesis
      by (simp add: sum_region_def summary_def region_acc_new_def hull_def footprint_def trapped_def)
  next
    case False
    have P: "length es < 2 ^ 64" "disjoint_extents es" "\<And>e. e \<in> set es \<Longrightarrow> ex_start e < ex_end e"
      using Cons.prems by auto
    note G = region_gap [OF False P(1) P(3) P(2)]
    have "ra_used (summary es) = of_nat (footprint es)" "ra_hi (summary es) - ra_lo (summary es) = of_nat (hull es)"
      using arg_cong [OF G(1), of "of_nat :: nat \<Rightarrow> u64"] arg_cong [OF G(2), of "of_nat :: nat \<Rightarrow> u64"] by (simp_all add: hull_def)
    then show ?thesis
      using False summary_empty_iff [OF P(1)] by (simp add: sum_region_def)
  qed
  moreover have IH: "fold sum_region (map summary ess) (n, sp, us) =
      (n + length (filter (\<lambda>es. es \<noteq> []) ess), sp + of_nat (\<Sum>es \<leftarrow> ess. hull es), us + of_nat (\<Sum>es \<leftarrow> ess. footprint es))" for n sp us
    by (rule Cons.IH, rule Cons.prems) simp
  ultimately show ?case
    by (simp add: IH)
qed simp

text \<open>
  (C37) When the live chunks of a region do not overlap, the pass computes the fragmentation exactly although
  it never sorts: the gap figure is the number of bytes that have a live chunk of the same region below
  and above them and lie in none, summed over the regions; the used figure is the sum of the footprints,
  the span the sum of both, and the percentage is their truncated ratio, between 0 and 100.
\<close>

theorem frag_gap_exact:
  assumes "rm_ok regions" and "length (ct_slots table) < 2 ^ 64"
    and "\<forall>s \<in> set (rm_spans regions). disjoint_extents (region_extents regions s (ct_slots table))"
    and "frag_due f now_ms" and "frag_analyze f table regions now_ms = (changed, f')"
    and "gaps = (\<Sum>s \<leftarrow> rm_spans regions. card (trapped (region_extents regions s (ct_slots table))))"
    and "used = (\<Sum>s \<leftarrow> rm_spans regions. footprint (region_extents regions s (ct_slots table)))"
  shows "unat (fr_gap_bytes (fa_report f')) = gaps \<and> unat (fr_used_bytes (fa_report f')) = used \<and>
    unat (fr_span_bytes (fa_report f')) = used + gaps \<and>
    (0 < used + gaps \<and> used + gaps < 2 ^ 57 \<longrightarrow>
       fr_percent (fa_report f') = int (gaps * 100 div (used + gaps)) \<and> fr_percent (fa_report f') \<le> 100)"
proof -
  let ?cs = "ct_slots table" and ?spans = "rm_spans regions"
  let ?ess = "map (\<lambda>s. region_extents regions s ?cs) ?spans"
  let ?collect = "length ?spans \<noteq> 0 \<and> ct_size table \<le> fa_max_sorted f"
  let ?p = "fold (frag_step regions ?collect) ?cs
      \<lparr>fp_acc = replicate (length ?spans) region_acc_new, fp_chunks = 0, fp_outside = 0, fp_extents = []\<rparr>"
  have acc: "fp_acc ?p = map summary ?ess"
    using frag_fold_acc [OF assms(1), of _ "\<lparr>fp_acc = replicate (length ?spans) region_acc_new, fp_chunks = 0, fp_outside = 0, fp_extents = []\<rparr>"
        ?collect ?cs]
    by (cases "?spans = []") (auto intro!: nth_equalityI simp: summary_def frag_acc_length)
  have small: "length (region_extents regions s ?cs) < 2 ^ 64" for s
    by (rule le_less_trans [OF _ assms(2)]) (simp add: region_extents_def length_filter_le le_trans [OF length_filter_le])
  have P: "length es < 2 ^ 64 \<and> disjoint_extents es \<and> (\<forall>e \<in> set es. ex_start e < ex_end e)" if "es \<in> set ?ess" for es
    using that small assms(3) region_extents_inside(1) [OF assms(1)] by auto
  have tot: "fold sum_region (fp_acc ?p) (0, 0, 0) =
      (length (filter (\<lambda>es. es \<noteq> []) ?ess), of_nat (used + gaps), of_nat used)"
    unfolding acc using fold_sum_region [of ?ess 0 0 0] P
    by (simp add: assms(6,7) hull_def comp_def sum_list_addf)
  have "used + gaps = (\<Sum>s \<leftarrow> ?spans. hull (region_extents regions s ?cs))"
    by (simp add: assms(6,7) hull_def sum_list_addf)
  also have "\<dots> \<le> (\<Sum>s \<leftarrow> ?spans. unat (s_end s) - unat (s_start s))"
    by (rule sum_list_mono) (use hull_in_span [OF assms(1) _ small _ refl] assms(3) in blast)
  finally have lt: "used + gaps < 2 ^ 64"
    using spans_fit [OF assms(1)] by linarith
  then have u: "unat (of_nat (used + gaps) :: u64) = used + gaps" "unat (of_nat used :: u64) = used"
    by (simp_all add: unat_of_nat_small del: of_nat_add)
  have r: "fa_report f' = frag_report_of regions ?collect ?p"
    using assms(4,5) by (auto simp: frag_analyze_def Let_def)
  let ?span = "of_nat (used + gaps) :: u64" and ?gap = "(if (of_nat (used + gaps) :: u64) > of_nat used then of_nat (used + gaps) - of_nat used else 0 :: u64)"
  have F: "fr_span_bytes (fa_report f') = ?span" "fr_used_bytes (fa_report f') = of_nat used" "fr_gap_bytes (fa_report f') = ?gap"
    "fr_percent (fa_report f') = (if ?span \<noteq> 0 then sint (ucast (?gap * 100 div ?span) :: u32) else -1)"
    unfolding r frag_report_of_def tot by (simp_all add: Let_def)
  have g: "unat ?gap = gaps"
    using u by (simp add: word_less_nat_alt unat_sub word_le_nat_alt del: of_nat_add)
  have "fr_percent (fa_report f') = int (gaps * 100 div (used + gaps)) \<and> fr_percent (fa_report f') \<le> 100"
    if "0 < used + gaps" "used + gaps < 2 ^ 57"
  proof -
    have "unat (?gap * 100) = gaps * 100"
      using g that(2) by (simp add: unat_word_ariths del: of_nat_add)
    then have q: "unat (?gap * 100 div ?span) = gaps * 100 div (used + gaps)"
      using u(1) by (simp add: unat_div_distrib del: of_nat_add)
    have le: "gaps * 100 div (used + gaps) \<le> 100"
      by (rule less_mult_imp_div_less [THEN less_Suc_eq_le [THEN iffD1]]) (use that(1) in auto)
    have "?span \<noteq> 0"
      using u(1) that(1) by (metis less_irrefl unat_0)
    then have "fr_percent (fa_report f') = sint (ucast (?gap * 100 div ?span) :: u32)"
      unfolding F(4) by (rule if_P)
    also have "\<dots> = int (unat (?gap * 100 div ?span))"
      by (rule sint_small) (simp only: q le)
    finally have "fr_percent (fa_report f') = int (gaps * 100 div (used + gaps))"
      by (simp only: q)
    then show ?thesis
      using le by simp
  qed
  then show ?thesis
    unfolding F(1-3) g using u by blast
qed

definition demo_spans :: region_map where
  "demo_spans = region_map_new\<lparr>rm_spans := [\<lparr>s_start = 4096, s_end = 8192, s_flat = 0, s_kind = RHeap, s_thread_arena = False\<rparr>]\<rparr>"

definition demo_table :: chunk_table where
  "demo_table = (chunk_table_new 16)\<lparr>ct_slots := [live_chunk 4112 24 24 0 0, kEmptySlot, live_chunk 4176 24 24 0 0]\<rparr>"

theorem frag_gap_exact_witness:
  "unat (fr_used_bytes (fa_report (snd (frag_analyze frag_analyzer_new demo_table demo_spans 5)))) = 64"
proof -
  let ?s = "\<lparr>s_start = 4096, s_end = 8192, s_flat = 0, s_kind = RHeap, s_thread_arena = False\<rparr>"
  have spans: "rm_spans demo_spans = [?s]" and slots: "length (ct_slots demo_table) = 3"
    by (simp_all add: demo_spans_def demo_table_def)
  have ok: "rm_ok demo_spans"
    by (simp add: rm_ok_def demo_spans_def ascending_def s_size_def)
  have at: "span_at_addr demo_spans 4112 = Some ?s" "span_at_addr demo_spans 4176 = Some ?s"
    using span_at_addr_iff [OF ok] by (simp_all add: spans contains_addr_def)
  have ext: "region_extents demo_spans ?s (ct_slots demo_table) =
      [\<lparr>ex_start = 4112, ex_end = 4144\<rparr>, \<lparr>ex_start = 4176, ex_end = 4208\<rparr>]"
    by (simp add: region_extents_def demo_table_def live_chunk_def kEmptySlot_def at chunk_extent_def
        kChunkMinOverheadBytes_def)
  have "disjoint_extents (region_extents demo_spans ?s (ct_slots demo_table))"
    unfolding ext by (simp add: disjoint_extents_def extents_apart)
  then have dis: "\<forall>s \<in> set (rm_spans demo_spans). disjoint_extents (region_extents demo_spans s (ct_slots demo_table))"
    by (simp add: spans)
  have due: "frag_due frag_analyzer_new 5"
    by (simp add: frag_due_def frag_analyzer_new_def)
  obtain changed f' where f': "frag_analyze frag_analyzer_new demo_table demo_spans 5 = (changed, f')"
    by fastforce
  have "unat (fr_used_bytes (fa_report f')) = (\<Sum>s \<leftarrow> rm_spans demo_spans. footprint (region_extents demo_spans s (ct_slots demo_table)))"
    using frag_gap_exact [OF ok _ dis due f' refl refl] slots by simp
  also have "\<dots> = 64"
    by (simp add: spans ext footprint_def)
  finally show ?thesis
    using f' by simp
qed

end
