(* ===== verification/Session.thy ===== *)
theory Session
  imports Ring
begin

text \<open>
  Sessions (\<^verbatim>\<open>src/tui/session.h\<close>, \<^verbatim>\<open>session.cpp\<close>): attaching to the shared-memory ring of a target, the
  accessors the application reads it with, launching a target under the interceptor and quoting the
  last line of its output. What the operating system answers is an argument: one \<open>os_view\<close> per poll of
  the attach loop, one \<open>launch_os\<close> for a launch, the bytes of the log file for its last line.
\<close>

section \<open>Statuses\<close>

datatype attach_status = AttachOk | NoSegment | AttachTargetGone | AbiMismatch | AlreadyWatched | MapFailed

definition attach_status_str :: "attach_status \<Rightarrow> string" where
  "attach_status_str s = (case s of
     AttachOk \<Rightarrow> ''attached''
   | NoSegment \<Rightarrow> ''target is not running libheapviz.so''
   | AttachTargetGone \<Rightarrow> ''target exited before it could be attached to''
   | AbiMismatch \<Rightarrow> ''target was built against a different heapviz ABI''
   | AlreadyWatched \<Rightarrow> ''target is already being watched by another heapviz''
   | MapFailed \<Rightarrow> ''could not map the target's shared memory'')"

datatype launch_status = LaunchOk | NoPreload | IoFailed | ForkFailed | ExecFailed

definition launch_status_str :: "launch_status \<Rightarrow> string" where
  "launch_status_str s = (case s of
     LaunchOk \<Rightarrow> ''launched''
   | NoPreload \<Rightarrow> ''could not find libheapviz.so to inject''
   | IoFailed \<Rightarrow> ''could not isolate target input/output''
   | ForkFailed \<Rightarrow> ''could not fork''
   | ExecFailed \<Rightarrow> ''could not run the command'')"

section \<open>The ring session\<close>

text \<open>\<^verbatim>\<open>ring_\<close> points into memory shared with the producer: \<open>rs_ring\<close> is its current contents.\<close>

record ring_session =
  rs_ring :: "hv_ring option"
  rs_bytes :: u64
  rs_pid :: int
  rs_other_consumer :: u32
  rs_target_abi :: u32
  rs_comm :: string

definition ring_session_new :: ring_session where
  "ring_session_new = \<lparr>rs_ring = None, rs_bytes = 0, rs_pid = 0, rs_other_consumer = 0, rs_target_abi = 0, rs_comm = []\<rparr>"

definition c_string :: "string \<Rightarrow> string" where
  "c_string s = takeWhile (\<lambda>c. of_char c \<noteq> (0 :: nat)) s"

definition session_detach :: "bool \<Rightarrow> u32 \<Rightarrow> ring_session \<Rightarrow> hv_ring option \<times> ring_session" where
  "session_detach spurious self s =
     (case rs_ring s of None \<Rightarrow> (None, s)
      | Some r \<Rightarrow> (Some (hv_ring_release spurious r self), s\<lparr>rs_ring := None, rs_bytes := 0, rs_comm := []\<rparr>))"

text \<open>What one poll sees: the segment, if \<^verbatim>\<open>shm_open\<close> finds it; whether the process is there; whether the
  header maps; the ring when the full mapping is claimed, if it maps; the spurious failures of the
  weak compare-and-swap.\<close>

record os_view =
  ov_segment :: "hv_ring option"
  ov_alive :: bool
  ov_probe_maps :: bool
  ov_full :: "hv_ring option"
  ov_spurious :: "bool list"

definition kPollIntervalMs :: int where "kPollIntervalMs = 5"

definition attach_ready :: "u32 \<Rightarrow> u64 \<Rightarrow> int \<Rightarrow> os_view \<Rightarrow> hv_ring \<Rightarrow> ring_session \<Rightarrow> (attach_status \<times> ring_session) option" where
  "attach_ready self page pid v hdr s =
     (if abi_version hdr \<noteq> HEAPVIZ_ABI_VERSION \<or> event_size hdr \<noteq> ucast sizeof_event
      then Some (AbiMismatch, s\<lparr>rs_target_abi := abi_version hdr\<rparr>)
      else
        (let cap = capacity hdr;
             s1 = s\<lparr>rs_comm := c_string (take 16 (comm hdr))\<rparr>;
             bytes = hv_mapping_size cap page
         in case ov_full v of
              None \<Rightarrow> Some (MapFailed, s1)
            | Some ring \<Rightarrow>
                (case hv_ring_claim (ov_spurious v) ring self of
                   None \<Rightarrow> None
                 | Some (Some owner, _) \<Rightarrow> Some (AlreadyWatched, s1\<lparr>rs_other_consumer := owner\<rparr>)
                 | Some (None, ring') \<Rightarrow> Some (AttachOk, s1\<lparr>rs_ring := Some ring', rs_bytes := bytes, rs_pid := pid\<rparr>))))"

function attach_loop :: "(nat \<Rightarrow> os_view) \<Rightarrow> u32 \<Rightarrow> u64 \<Rightarrow> int \<Rightarrow> int \<Rightarrow> int \<Rightarrow> nat \<Rightarrow> ring_session \<Rightarrow> (attach_status \<times> ring_session) option" where
  "attach_loop os self page pid timeout_ms waited n s =
     (let v = os n
      in case ov_segment v of
           None \<Rightarrow>
             if \<not> ov_alive v then Some (AttachTargetGone, s)
             else if waited \<ge> timeout_ms then Some (NoSegment, s)
             else attach_loop os self page pid timeout_ms (waited + kPollIntervalMs) (Suc n) s
         | Some hdr \<Rightarrow>
             if \<not> ov_probe_maps v then Some (MapFailed, s)
             else if magic hdr \<noteq> HEAPVIZ_ABI_MAGIC then
               (if waited \<ge> timeout_ms then Some (NoSegment, s)
                else attach_loop os self page pid timeout_ms (waited + kPollIntervalMs) (Suc n) s)
             else attach_ready self page pid v hdr s)"
  by pat_completeness auto
termination
  by (relation "measure (\<lambda>(os, self, page, pid, timeout_ms, waited, n, s). nat (timeout_ms - waited))")
    (simp_all add: kPollIntervalMs_def)

declare attach_loop.simps [simp del]

definition session_attach :: "(nat \<Rightarrow> os_view) \<Rightarrow> bool \<Rightarrow> u32 \<Rightarrow> u64 \<Rightarrow> int \<Rightarrow> int \<Rightarrow> ring_session \<Rightarrow> (attach_status \<times> ring_session) option" where
  "session_attach os spurious self page pid timeout_ms s =
     attach_loop os self page pid timeout_ms 0 0 (snd (session_detach spurious self s))"

definition session_observe :: "int \<Rightarrow> string option \<Rightarrow> ring_session \<Rightarrow> ring_session" where
  "session_observe pid proc_comm s =
     (let s1 = s\<lparr>rs_pid := pid, rs_comm := []\<rparr>
      in case proc_comm of None \<Rightarrow> s1
         | Some text' \<Rightarrow>
             (let got = take 16 text'
              in if got = [] then s1
                 else s1\<lparr>rs_comm := takeWhile (\<lambda>c. of_char c \<noteq> (10 :: nat)) (c_string got)\<rparr>))"

definition attached :: "ring_session \<Rightarrow> bool" where
  "attached s \<longleftrightarrow> rs_ring s \<noteq> None"

definition session_drain :: "ring_session \<Rightarrow> u32 \<Rightarrow> hv_event list \<times> ring_session" where
  "session_drain s mx =
     (case rs_ring s of None \<Rightarrow> ([], s)
      | Some r \<Rightarrow> if mx = 0 then ([], s)
                 else (case hv_ring_drain r mx of (out, r') \<Rightarrow> (out, s\<lparr>rs_ring := Some r'\<rparr>)))"

definition session_capacity :: "ring_session \<Rightarrow> u64" where
  "session_capacity s = (case rs_ring s of None \<Rightarrow> 0 | Some r \<Rightarrow> capacity r)"

definition session_queued :: "ring_session \<Rightarrow> u64" where
  "session_queued s = (case rs_ring s of None \<Rightarrow> 0 | Some r \<Rightarrow> head r - tail r)"

definition session_dropped :: "ring_session \<Rightarrow> u64" where
  "session_dropped s = (case rs_ring s of None \<Rightarrow> 0 | Some r \<Rightarrow> dropped r)"

definition session_total_events :: "ring_session \<Rightarrow> u64" where
  "session_total_events s = (case rs_ring s of None \<Rightarrow> 0 | Some r \<Rightarrow> total_events r)"

definition session_producer_exited :: "ring_session \<Rightarrow> bool" where
  "session_producer_exited s \<longleftrightarrow> (case rs_ring s of None \<Rightarrow> False | Some r \<Rightarrow> producer_exited r \<noteq> 0)"

text \<open>\<^verbatim>\<open>kill(pid, 0)\<close> and \<^verbatim>\<open>waitpid\<close> are arguments: the error number, if any.\<close>

datatype kill_result = KillOk | KillESRCH | KillOther

definition process_alive :: "int \<Rightarrow> kill_result \<Rightarrow> bool" where
  "process_alive pid k \<longleftrightarrow> (if pid \<le> 0 then False else if k = KillOk then True else k \<noteq> KillESRCH)"

datatype wait_result = WaitPid int | WaitECHILD | WaitError

definition reap_if_exited :: "int \<Rightarrow> wait_result \<Rightarrow> bool" where
  "reap_if_exited pid r \<longleftrightarrow> \<not> pid \<le> 0 \<and> (r = WaitPid pid \<or> r = WaitECHILD)"

section \<open>The last line of a target's output\<close>

definition kMaxOutputLine :: nat where "kMaxOutputLine = 200"
definition kTail :: nat where "kTail = 4096"

definition is_eol :: "char \<Rightarrow> bool" where
  "is_eol c \<longleftrightarrow> of_char c = (10 :: nat) \<or> of_char c = (13 :: nat)"

definition strip_eol :: "string \<Rightarrow> string" where
  "strip_eol s = rev (dropWhile is_eol (rev s))"

definition after_last_newline :: "string \<Rightarrow> string" where
  "after_last_newline s = rev (takeWhile (\<lambda>c. of_char c \<noteq> (10 :: nat)) (rev s))"

lemma length_after_final: "length (drop (Suc 0) (dropWhile P xs)) < Suc (Suc (length xs))"
  using length_dropWhile_le [of P xs] by simp

function drop_controls :: "string \<Rightarrow> string" where
  "drop_controls [] = []"
| "drop_controls (c # cs) =
     (if of_char c = (27 :: nat) then
        (case cs of
           [] \<Rightarrow> []
         | d # ds \<Rightarrow>
             if of_char d = (91 :: nat) then drop_controls (drop 1 (dropWhile (\<lambda>e. of_char e < (64 :: nat)) ds))
             else drop_controls ds)
      else if of_char c \<ge> (32 :: nat) then c # drop_controls cs
      else drop_controls cs)"
  by pat_completeness auto
termination
  by (relation "measure length") (simp_all add: length_after_final del: length_drop)

definition last_output_line :: "string \<Rightarrow> string option \<Rightarrow> string" where
  "last_output_line path file =
     (if path = [] then []
      else case file of None \<Rightarrow> []
         | Some bytes \<Rightarrow>
             (let text1 = (if length bytes > kTail then drop (length bytes - kTail) bytes else bytes);
                  line = after_last_newline (strip_eol text1)
              in take kMaxOutputLine (drop_controls line)))"

section \<open>What attaching decides\<close>

text \<open>A poll that ends the wait, and the answer it gives.\<close>

definition decisive :: "os_view \<Rightarrow> bool" where
  "decisive v \<longleftrightarrow> (case ov_segment v of None \<Rightarrow> \<not> ov_alive v
     | Some hdr \<Rightarrow> \<not> ov_probe_maps v \<or> magic hdr = HEAPVIZ_ABI_MAGIC)"

definition attach_answer :: "u32 \<Rightarrow> u64 \<Rightarrow> int \<Rightarrow> os_view \<Rightarrow> ring_session \<Rightarrow> (attach_status \<times> ring_session) option" where
  "attach_answer self page pid v s =
     (case ov_segment v of
        None \<Rightarrow> Some (if ov_alive v then NoSegment else AttachTargetGone, s)
      | Some hdr \<Rightarrow>
          if \<not> ov_probe_maps v then Some (MapFailed, s)
          else if magic hdr = HEAPVIZ_ABI_MAGIC then attach_ready self page pid v hdr s
          else Some (NoSegment, s))"

lemma attach_loop_step:
  "attach_loop os self page pid timeout_ms waited n s =
     (if decisive (os n) \<or> waited \<ge> timeout_ms then attach_answer self page pid (os n) s
      else attach_loop os self page pid timeout_ms (waited + kPollIntervalMs) (Suc n) s)"
  by (subst attach_loop.simps) (simp add: Let_def decisive_def attach_answer_def split: option.splits)

lemma attach_loop_first:
  assumes "n \<le> k" "decisive (os k) \<or> int k * kPollIntervalMs \<ge> timeout_ms"
    and "\<And>j. n \<le> j \<Longrightarrow> j < k \<Longrightarrow> \<not> decisive (os j) \<and> int j * kPollIntervalMs < timeout_ms"
  shows "attach_loop os self page pid timeout_ms (int n * kPollIntervalMs) n s = attach_answer self page pid (os k) s"
  using assms
proof (induction "k - n" arbitrary: n)
  case 0
  then show ?case by (subst attach_loop_step) simp
next
  case (Suc d)
  then have "\<not> decisive (os n)" "int n * kPollIntervalMs < timeout_ms" by auto
  moreover have "int n * kPollIntervalMs + kPollIntervalMs = int (Suc n) * kPollIntervalMs"
    by (simp add: algebra_simps)
  ultimately have "attach_loop os self page pid timeout_ms (int n * kPollIntervalMs) n s =
      attach_loop os self page pid timeout_ms (int (Suc n) * kPollIntervalMs) (Suc n) s"
    by (subst attach_loop_step) simp
  also have "\<dots> = attach_answer self page pid (os k) s"
    using Suc by (intro Suc.hyps(1)) auto
  finally show ?case .
qed

lemma session_attach_poll:
  "\<exists>k \<le> nat timeout_ms div 5 + 1.
     (decisive (os k) \<or> int k * kPollIntervalMs \<ge> timeout_ms) \<and>
     (\<forall>j < k. \<not> decisive (os j) \<and> int j * kPollIntervalMs < timeout_ms) \<and>
     session_attach os spurious self page pid timeout_ms s =
       attach_answer self page pid (os k) (snd (session_detach spurious self s))"
proof -
  define stop where "stop k \<longleftrightarrow> decisive (os k) \<or> int k * kPollIntervalMs \<ge> timeout_ms" for k
  have "timeout_ms \<le> int (nat timeout_ms div 5 + 1) * 5"
  proof -
    have "nat timeout_ms < (nat timeout_ms div 5 + 1) * 5" using dividend_less_times_div [of 5 "nat timeout_ms"] by simp
    then have "int (nat timeout_ms) < int ((nat timeout_ms div 5 + 1) * 5)" by (simp only: of_nat_less_iff)
    then show ?thesis by simp
  qed
  then have "stop (nat timeout_ms div 5 + 1)"
    unfolding stop_def kPollIntervalMs_def by blast
  moreover define k where "k = (LEAST k. stop k)"
  ultimately have k: "stop k" "k \<le> nat timeout_ms div 5 + 1"
    by (simp_all add: k_def LeastI Least_le)
  have before: "\<not> decisive (os j) \<and> int j * kPollIntervalMs < timeout_ms" if "j < k" for j
    using not_less_Least [of j stop] that unfolding k_def [symmetric] by (simp add: stop_def not_le)
  have "session_attach os spurious self page pid timeout_ms s =
      attach_answer self page pid (os k) (snd (session_detach spurious self s))"
    using attach_loop_first [of 0 k os timeout_ms self page pid] k(1) before by (simp add: session_attach_def stop_def)
  with k before show ?thesis
    unfolding stop_def by blast
qed

section \<open>Properties\<close>

text \<open>
  (C23) Attaching is decided by one poll: it is the first poll at which the target is known to be gone,
  the header cannot be mapped, the producer has published its magic, or the timeout has run out, and
  there are at most \<^term>\<open>nat timeout_ms div 5 + 2\<close> polls. So the call ends, and a producer that publishes within the timeout is
  judged on its published header and not on a half-initialised one.
\<close>

theorem attach_decided_by_one_poll:
  "\<exists>k \<le> nat timeout_ms div 5 + 1.
     (decisive (os k) \<or> int k * kPollIntervalMs \<ge> timeout_ms) \<and>
     (\<forall>j < k. \<not> decisive (os j) \<and> int j * kPollIntervalMs < timeout_ms) \<and>
     session_attach os spurious self page pid timeout_ms s =
       attach_answer self page pid (os k) (snd (session_detach spurious self s))"
  by (rule session_attach_poll)

lemma claim_success: "hv_ring_claim sp r self = Some (None, r') \<Longrightarrow> consumer_pid r = 0 \<and> r' = r\<lparr>consumer_pid := self\<rparr>"
  by (induction sp r self rule: hv_ring_claim.induct) (auto split: if_splits)

text \<open>
  A session that reports success owns the ring it reads: the header had the version and event size
  of this build, no other consumer held the ring, the ring now names this process as its consumer, and
  the mapping has the size the producer's capacity needs. On every other status no ring is held.
\<close>

theorem attach_ok_owns_ring:
  assumes "session_attach os spurious self page pid timeout_ms s = Some (st, s')"
  shows "(attached s' \<longleftrightarrow> st = AttachOk) \<and>
    (st = AttachOk \<longrightarrow>
      (\<exists>n hdr ring. ov_segment (os n) = Some hdr \<and> ov_full (os n) = Some ring \<and> magic hdr = HEAPVIZ_ABI_MAGIC \<and>
         abi_version hdr = HEAPVIZ_ABI_VERSION \<and> event_size hdr = ucast sizeof_event \<and> consumer_pid ring = 0 \<and>
         rs_ring s' = Some (ring\<lparr>consumer_pid := self\<rparr>) \<and> rs_bytes s' = hv_mapping_size (capacity hdr) page \<and> rs_pid s' = pid))"
proof -
  let ?s = "snd (session_detach spurious self s)"
  obtain k where k: "attach_answer self page pid (os k) ?s = Some (st, s')"
    using session_attach_poll [of timeout_ms os spurious self page pid s] assms by auto
  have none: "rs_ring ?s = None"
    by (simp add: session_detach_def split: option.splits)
  show ?thesis
  proof (cases "ov_segment (os k)")
    case None
    with k none show ?thesis by (auto simp: attach_answer_def attached_def split: if_splits)
  next
    case (Some hdr)
    show ?thesis
    proof (cases "ov_probe_maps (os k) \<and> magic hdr = HEAPVIZ_ABI_MAGIC")
      case False
      with k none Some show ?thesis by (auto simp: attach_answer_def attached_def split: if_splits)
    next
      case True
      with k Some have "attach_ready self page pid (os k) hdr ?s = Some (st, s')"
        by (simp add: attach_answer_def)
      with none True Some show ?thesis
        unfolding attach_ready_def Let_def attached_def
        by (auto dest!: claim_success split: option.splits if_splits prod.splits intro!: exI [of _ k])
    qed
  qed
qed

definition demo_view :: os_view where
  "demo_view = \<lparr>ov_segment = Some (hv_ring_setup 4 7 0 ''demo''), ov_alive = True, ov_probe_maps = True,
     ov_full = Some (hv_ring_setup 4 7 0 ''demo''), ov_spurious = [True, False]\<rparr>"

theorem attach_decided_by_one_poll_witness:
  "session_attach (\<lambda>n. if n = 0 then demo_view\<lparr>ov_segment := None\<rparr> else demo_view) False 9 4096 7 3 ring_session_new =
     attach_answer 9 4096 7 demo_view ring_session_new"
proof -
  let ?os = "\<lambda>n :: nat. if n = 0 then demo_view\<lparr>ov_segment := None\<rparr> else demo_view"
  obtain k where k: "decisive (?os k) \<or> int k * kPollIntervalMs \<ge> 3"
    "session_attach ?os False 9 4096 7 3 ring_session_new =
       attach_answer 9 4096 7 (?os k) (snd (session_detach False 9 ring_session_new))"
    using attach_decided_by_one_poll [of 3 ?os False 9 4096 7 ring_session_new] by blast
  have "k \<noteq> 0"
  proof
    assume "k = 0"
    with k(1) show False by (simp add: decisive_def demo_view_def)
  qed
  then show ?thesis
    using k(2) by (simp add: session_detach_def ring_session_new_def)
qed

lemma demo_attach:
  "\<exists>s'. session_attach (\<lambda>n. demo_view) False 9 4096 7 3 ring_session_new = Some (AttachOk, s')"
  by (simp add: session_attach_def session_detach_def ring_session_new_def attach_loop.simps Let_def demo_view_def
      attach_ready_def hv_ring_setup_def HEAPVIZ_ABI_VERSION_def sizeof_event_def)

theorem attach_ok_owns_ring_witness:
  "\<exists>s'. session_attach (\<lambda>n. demo_view) False 9 4096 7 3 ring_session_new = Some (AttachOk, s') \<and> attached s' \<and>
     map_option consumer_pid (rs_ring s') = Some 9"
proof -
  obtain s' where s': "session_attach (\<lambda>n. demo_view) False 9 4096 7 3 ring_session_new = Some (AttachOk, s')"
    using demo_attach by blast
  then show ?thesis
    using attach_ok_owns_ring [OF s'] by auto
qed

lemma drop_controls_printable: "c \<in> set (drop_controls s) \<Longrightarrow> of_char c \<ge> (32 :: nat)"
  by (induction s rule: drop_controls.induct) (auto split: if_splits list.splits)

lemma drop_controls_id: "\<forall>c \<in> set s. of_char c \<ge> (32 :: nat) \<Longrightarrow> drop_controls s = s"
  by (induction s) auto

lemma strip_eol_append:
  assumes "\<forall>c \<in> set eols. is_eol c" "line \<noteq> []" "\<not> is_eol (last line)"
  shows "strip_eol (s @ line @ eols) = s @ line"
proof -
  have "dropWhile is_eol (rev (s @ line @ eols)) = dropWhile is_eol (rev line @ rev s)"
    using assms(1) by (simp add: dropWhile_append)
  also have "\<dots> = rev line @ rev s"
    using assms(2,3) by (cases line rule: rev_cases) auto
  finally show ?thesis
    by (simp add: strip_eol_def)
qed

text \<open>
  Quoting a target's output is harmless and honest: whatever bytes the log holds, the note has no byte
  below a space, hence no escape sequence and no line break, and is at most 200 bytes long; and when the
  log ends in a line of printable bytes, followed by line ends, the note is that line cut at 200 bytes.
\<close>

theorem output_line_sanitised:
  "(\<forall>c \<in> set (last_output_line path file). of_char c \<ge> (32 :: nat)) \<and>
   length (last_output_line path file) \<le> 200 \<and>
   (path \<noteq> [] \<and> file = Some (earlier @ line @ eols) \<and> length (earlier @ line @ eols) \<le> kTail \<and>
      (earlier = [] \<or> of_char (last earlier) = (10 :: nat)) \<and>
      line \<noteq> [] \<and> (\<forall>c \<in> set line. of_char c \<ge> (32 :: nat)) \<and> (\<forall>c \<in> set eols. is_eol c)
    \<longrightarrow> last_output_line path file = take 200 line)"
proof (intro conjI impI)
  show "\<forall>c \<in> set (last_output_line path file). of_char c \<ge> (32 :: nat)"
    by (auto simp: last_output_line_def Let_def dest: in_set_takeD drop_controls_printable split: option.splits)
  show "length (last_output_line path file) \<le> 200"
    by (simp add: last_output_line_def Let_def kMaxOutputLine_def split: option.splits)
  assume a: "path \<noteq> [] \<and> file = Some (earlier @ line @ eols) \<and> length (earlier @ line @ eols) \<le> kTail \<and>
      (earlier = [] \<or> of_char (last earlier) = (10 :: nat)) \<and>
      line \<noteq> [] \<and> (\<forall>c \<in> set line. of_char c \<ge> (32 :: nat)) \<and> (\<forall>c \<in> set eols. is_eol c)"
  then have "of_char (last line) \<ge> (32 :: nat)"
    by simp
  then have "\<not> is_eol (last line)"
    unfolding is_eol_def by linarith
  then have strip: "strip_eol (earlier @ line @ eols) = earlier @ line"
    using a by (intro strip_eol_append) simp_all
  have "takeWhile (\<lambda>c. of_char c \<noteq> (10 :: nat)) (rev line @ rev earlier) = rev line"
    using a by (subst takeWhile_append2) (force, cases earlier rule: rev_cases, auto)
  then have "after_last_newline (earlier @ line) = line"
    by (simp add: after_last_newline_def)
  then show "last_output_line path file = take 200 line"
    using a strip drop_controls_id [of line] by (simp add: last_output_line_def Let_def kMaxOutputLine_def)
qed

theorem output_line_sanitised_witness:
  "last_output_line ''log'' (Some (''one'' @ [char_of (10 :: nat)] @ ''two'' @ [char_of (13 :: nat), char_of (10 :: nat)])) = ''two''"
  using output_line_sanitised [of "''log''" "Some ((''one'' @ [char_of (10 :: nat)]) @ ''two'' @ [char_of (13 :: nat), char_of (10 :: nat)])"
      "''one'' @ [char_of (10 :: nat)]" "''two''" "[char_of (13 :: nat), char_of (10 :: nat)]"]
  by (simp add: kTail_def is_eol_def)

end
