(* ===== verification/Launch.thy ===== *)
theory Launch
  imports Session
begin

text \<open>
  Launching a target (\<^verbatim>\<open>launch_target\<close>, \<^verbatim>\<open>exec_instrumented_target\<close> and \<^verbatim>\<open>find_preload\<close> of
  \<^verbatim>\<open>src/tui/session.cpp\<close>). The calls into the operating system are the steps of a trace; their
  results are the fields of an argument.
\<close>

section \<open>Finding the interceptor\<close>

definition find_preload :: "string option \<Rightarrow> string \<Rightarrow> (string \<Rightarrow> bool) \<Rightarrow> string" where
  "find_preload env dir file_exists =
     (case env of
        Some e \<Rightarrow> if e \<noteq> [] then e else
          (if dir \<noteq> [] then
             (let beside = dir @ ''/libheapviz.so''; installed = dir @ ''/../lib/libheapviz.so''
              in if file_exists beside then beside else if file_exists installed then installed else [])
           else [])
      | None \<Rightarrow>
          (if dir \<noteq> [] then
             (let beside = dir @ ''/libheapviz.so''; installed = dir @ ''/../lib/libheapviz.so''
              in if file_exists beside then beside else if file_exists installed then installed else [])
           else []))"

definition exe_dir :: "string option \<Rightarrow> string" where
  "exe_dir link =
     (case link of None \<Rightarrow> []
      | Some path \<Rightarrow>
          (if CHR ''/'' \<in> set path then rev (tl (dropWhile (\<lambda>c. c \<noteq> CHR ''/'') (rev path))) else []))"

section \<open>The launch\<close>

datatype target_io = Inherit | Isolate

record launch =
  la_status :: launch_status
  la_pid :: int
  la_err :: int
  la_output_path :: string
  la_argv0 :: string

definition launch_new :: launch where
  "launch_new = \<lparr>la_status = LaunchOk, la_pid = -1, la_err = 0, la_output_path = [], la_argv0 = []\<rparr>"

type_synonym fd = nat

datatype os_step = OpenFd fd | CloseFd fd | CreateFile string | UnlinkFile string | RenameFile string string
  | Fork | ReapChild int

text \<open>The answers of \<^verbatim>\<open>getenv\<close>, \<^verbatim>\<open>mkstemp\<close>, \<^verbatim>\<open>open\<close>, \<^verbatim>\<open>pipe\<close>, \<^verbatim>\<open>fork\<close>, \<^verbatim>\<open>rename\<close> and of the read from the pipe; a failing
  call answers with its error number.\<close>

record launch_os =
  lo_ld_preload :: "string option"
  lo_wait_env :: bool
  lo_mkstemp :: "int + (fd \<times> string)"
  lo_devnull :: "int + fd"
  lo_pipe :: "int + (fd \<times> fd)"
  lo_fork :: "int + int"
  lo_rename :: bool
  lo_child_errno :: "int option"

definition preload_value :: "string \<Rightarrow> string option \<Rightarrow> string" where
  "preload_value preload existing =
     (case existing of None \<Rightarrow> preload | Some e \<Rightarrow> if e \<noteq> [] then preload @ '':'' @ e else preload)"

definition wait_value :: "int \<Rightarrow> bool \<Rightarrow> string option" where
  "wait_value wait_ms already_set = (if wait_ms > 0 \<and> \<not> already_set then Some (dec_string (nat wait_ms)) else None)"

definition close_io :: "(fd \<times> string) option \<Rightarrow> fd option \<Rightarrow> os_step list" where
  "close_io log inp =
     (case log of None \<Rightarrow> [] | Some (l, path) \<Rightarrow> [CloseFd l, UnlinkFile path]) @
     (case inp of None \<Rightarrow> [] | Some i \<Rightarrow> [CloseFd i])"

definition launch_parent ::
  "launch_os \<Rightarrow> target_io \<Rightarrow> (fd \<times> string) option \<Rightarrow> fd option \<Rightarrow> launch \<Rightarrow> launch \<times> os_step list" where
  "launch_parent os io log inp out =
     (case lo_pipe os of
        Inl e \<Rightarrow> (out\<lparr>la_status := ForkFailed, la_err := e\<rparr>, close_io log inp)
      | Inr (r, w) \<Rightarrow>
          (case lo_fork os of
             Inl e \<Rightarrow> (out\<lparr>la_err := e, la_status := ForkFailed\<rparr>, [OpenFd r, OpenFd w, CloseFd r, CloseFd w] @ close_io log inp)
           | Inr child \<Rightarrow>
               (let named = ''/tmp/heapviz-target-'' @ dec_string (nat child) @ ''.log'';
                    closing = [CloseFd w] @ (case inp of None \<Rightarrow> [] | Some i \<Rightarrow> [CloseFd i]) @
                       (case log of None \<Rightarrow> [] | Some (l, _) \<Rightarrow> [CloseFd l]);
                    (renaming, out1) =
                      (if io = Isolate \<and> lo_rename os
                       then ([RenameFile (la_output_path out) named], out\<lparr>la_output_path := named\<rparr>) else ([], out));
                    done' = [OpenFd r, OpenFd w, Fork] @ closing @ renaming @ [CloseFd r]
                in case lo_child_errno os of
                     Some e \<Rightarrow>
                       (out1\<lparr>la_status := ExecFailed, la_err := e, la_output_path := []\<rparr>,
                        done' @ [ReapChild child] @
                        (if la_output_path out1 \<noteq> [] then [UnlinkFile (la_output_path out1)] else []))
                   | None \<Rightarrow> (out1\<lparr>la_status := LaunchOk, la_pid := child\<rparr>, done'))))"

definition launch_target :: "launch_os \<Rightarrow> string list \<Rightarrow> string \<Rightarrow> target_io \<Rightarrow> launch \<times> os_step list" where
  "launch_target os argv preload io =
     (if argv = [] \<or> preload = [] then (launch_new\<lparr>la_status := NoPreload\<rparr>, [])
      else
        (let out = launch_new\<lparr>la_argv0 := hd argv\<rparr>
         in if io = Isolate then
              (case lo_mkstemp os of
                 Inl e \<Rightarrow> (out\<lparr>la_status := IoFailed, la_err := e\<rparr>, [])
               | Inr (log, path) \<Rightarrow>
                   (case lo_devnull os of
                      Inl e \<Rightarrow> (out\<lparr>la_status := IoFailed, la_err := e\<rparr>,
                        [OpenFd log, CreateFile path, CloseFd log, UnlinkFile path])
                    | Inr inp \<Rightarrow>
                        (case launch_parent os io (Some (log, path)) (Some inp) (out\<lparr>la_output_path := path\<rparr>) of
                           (res, steps) \<Rightarrow> (res, [OpenFd log, CreateFile path, OpenFd inp] @ steps))))
            else launch_parent os io None None out))"

text \<open>The environment the child runs the command in.\<close>

definition child_env :: "launch_os \<Rightarrow> string \<Rightarrow> int \<Rightarrow> (string \<times> string) list" where
  "child_env os preload wait_ms =
     [(''LD_PRELOAD'', preload_value preload (lo_ld_preload os))] @
     (case wait_value wait_ms (lo_wait_env os) of None \<Rightarrow> [] | Some v \<Rightarrow> [(''HEAPVIZ_WAIT_MS'', v)])"

text \<open>\<^verbatim>\<open>exec_instrumented_target\<close>: the environment set before the exec, and the error number returned, if
  the process was not replaced.\<close>

definition EINVAL :: int where "EINVAL = 22"

definition exec_instrumented_target ::
  "(string \<Rightarrow> string \<Rightarrow> int option) \<Rightarrow> int \<Rightarrow> string option \<Rightarrow> bool \<Rightarrow> string list \<Rightarrow> string \<Rightarrow> int \<Rightarrow> (string \<times> string) list \<times> int" where
  "exec_instrumented_target setenv exec_errno existing already_set argv preload wait_ms =
     (if argv = [] \<or> preload = [] then ([], EINVAL)
      else
        (let pv = preload_value preload existing;
             setp = (\<lambda>env. case setenv ''LD_PRELOAD'' pv of Some e \<Rightarrow> (env, e)
                      | None \<Rightarrow> (env @ [(''LD_PRELOAD'', pv)], exec_errno))
         in case wait_value wait_ms already_set of
              None \<Rightarrow> setp []
            | Some v \<Rightarrow>
                (case setenv ''HEAPVIZ_WAIT_MS'' v of Some e \<Rightarrow> ([], e) | None \<Rightarrow> setp [(''HEAPVIZ_WAIT_MS'', v)])))"

section \<open>Resources\<close>

fun open_fds :: "os_step list \<Rightarrow> fd list \<Rightarrow> fd list" where
  "open_fds [] fds = fds"
| "open_fds (OpenFd f # xs) fds = open_fds xs (f # fds)"
| "open_fds (CloseFd f # xs) fds = open_fds xs (remove1 f fds)"
| "open_fds (_ # xs) fds = open_fds xs fds"

fun closes_only_open :: "os_step list \<Rightarrow> fd list \<Rightarrow> bool" where
  "closes_only_open [] fds \<longleftrightarrow> True"
| "closes_only_open (OpenFd f # xs) fds \<longleftrightarrow> closes_only_open xs (f # fds)"
| "closes_only_open (CloseFd f # xs) fds \<longleftrightarrow> f \<in> set fds \<and> closes_only_open xs (remove1 f fds)"
| "closes_only_open (_ # xs) fds \<longleftrightarrow> closes_only_open xs fds"

fun files_left :: "os_step list \<Rightarrow> string list \<Rightarrow> string list" where
  "files_left [] fs = fs"
| "files_left (CreateFile p # xs) fs = files_left xs (p # fs)"
| "files_left (UnlinkFile p # xs) fs = files_left xs (removeAll p fs)"
| "files_left (RenameFile p q # xs) fs = files_left xs (map (\<lambda>f. if f = p then q else f) fs)"
| "files_left (_ # xs) fs = files_left xs fs"

text \<open>The kernel hands out descriptors that are not in use.\<close>

definition fresh_fds :: "launch_os \<Rightarrow> bool" where
  "fresh_fds os \<longleftrightarrow> distinct
     ((case lo_mkstemp os of Inl _ \<Rightarrow> [] | Inr (l, _) \<Rightarrow> [l]) @ (case lo_devnull os of Inl _ \<Rightarrow> [] | Inr i \<Rightarrow> [i]) @
      (case lo_pipe os of Inl _ \<Rightarrow> [] | Inr (r, w) \<Rightarrow> [r, w]))"

definition names_path :: "launch_os \<Rightarrow> bool" where
  "names_path os \<longleftrightarrow> (\<forall>l p. lo_mkstemp os = Inr (l, p) \<longrightarrow> p \<noteq> [])"

text \<open>
  A launch leaves nothing behind: on every path through the launch, whichever call fails, the parent
  closes each descriptor it opened, closes only descriptors it holds, and the only file left in
  \<^verbatim>\<open>/tmp\<close> is the log of an isolated target that was started, under the name the result gives.
\<close>

theorem launch_leaves_nothing:
  assumes "fresh_fds os" "names_path os" "launch_target os argv preload io = (res, steps)"
  shows "open_fds steps [] = [] \<and> closes_only_open steps [] \<and>
    files_left steps [] = (if la_status res = LaunchOk \<and> io = Isolate then [la_output_path res] else [])"
proof (cases "argv = [] \<or> preload = []")
  case True
  with assms(3) show ?thesis by (auto simp: launch_target_def launch_new_def)
next
  case False
  with assms show ?thesis
    by (cases io; cases "lo_mkstemp os"; cases "lo_devnull os"; cases "lo_pipe os"; cases "lo_fork os";
        cases "lo_child_errno os"; cases "lo_rename os")
      (auto simp: launch_target_def launch_parent_def close_io_def launch_new_def fresh_fds_def names_path_def Let_def)
qed

definition demo_os :: launch_os where
  "demo_os = \<lparr>lo_ld_preload = None, lo_wait_env = False, lo_mkstemp = Inr (3, ''/tmp/heapviz-target-a1b2c3''), lo_devnull = Inr 4,
     lo_pipe = Inr (5, 6), lo_fork = Inr 77, lo_rename = True, lo_child_errno = Some 2\<rparr>"

theorem launch_leaves_nothing_witness:
  "open_fds (snd (launch_target demo_os [''nosuch''] ''libheapviz.so'' Isolate)) [] = [] \<and>
   files_left (snd (launch_target demo_os [''nosuch''] ''libheapviz.so'' Isolate)) [] = []"
proof -
  obtain res steps where r: "launch_target demo_os [''nosuch''] ''libheapviz.so'' Isolate = (res, steps)"
    by fastforce
  then have "la_status res = ExecFailed"
    by (simp add: launch_target_def launch_parent_def demo_os_def Let_def) auto
  moreover have "fresh_fds demo_os" "names_path demo_os"
    by (simp_all add: fresh_fds_def names_path_def demo_os_def)
  ultimately show ?thesis
    using launch_leaves_nothing [OF _ _ r] r by simp
qed

end
