(* ===== verification/Metrics.thy ===== *)
theory Metrics
  imports Heapviz_Prelude
begin

text \<open>
  The metrics panel (\<^verbatim>\<open>src/tui/metrics.h\<close>, \<^verbatim>\<open>metrics.cpp\<close>): the ring pressure and fragmentation
  badges, the column split with the inspector and the counters the panel accumulates. The drawing
  of the panel is in \<open>Panel_Draw\<close>.
\<close>

section \<open>Constants and badges\<close>

definition kMetricsMinCols :: int where [hv_consts]: "kMetricsMinCols = 28"
definition kRingWarnPct :: u32 where [hv_consts]: "kRingWarnPct = 50"
definition kRingBadPct :: u32 where [hv_consts]: "kRingBadPct = 80"
definition kFragMedPct :: int where [hv_consts]: "kFragMedPct = 15"
definition kFragHighPct :: int where [hv_consts]: "kFragHighPct = 40"

datatype frag_badge_kind = BadgeUnknown | BadgeLow | BadgeMed | BadgeHigh

definition frag_badge :: "int \<Rightarrow> frag_badge_kind" where
  "frag_badge pct = (if pct < 0 then BadgeUnknown
     else if pct < kFragMedPct then BadgeLow
     else if pct < kFragHighPct then BadgeMed
     else BadgeHigh)"

definition frag_badge_str :: "frag_badge_kind \<Rightarrow> string" where
  "frag_badge_str b = (case b of BadgeUnknown \<Rightarrow> [] | BadgeLow \<Rightarrow> ''[Low]'' | BadgeMed \<Rightarrow> ''[Med]'' | BadgeHigh \<Rightarrow> ''[High]'')"

definition metrics_split :: "int \<Rightarrow> int \<Rightarrow> int" where
  "metrics_split total_w other_min_cols =
     (if total_w \<le> 0 \<or> other_min_cols < 0 then 0
      else (let mw = total_w * 2 div 5;
                mw' = (if mw < kMetricsMinCols then kMetricsMinCols else mw)
            in if total_w - mw' < other_min_cols then 0 else mw'))"

datatype pressure_kind = PressureCalm | PressureWarn | PressureBad

definition ring_percent :: "u64 \<Rightarrow> u64 \<Rightarrow> u32" where
  "ring_percent queued cap =
     (if cap = 0 \<or> queued = 0 then 0
      else if queued \<ge> cap then 100
      else (let pct = queued * 100 div cap in if pct = 0 then 1 else ucast pct))"

definition ring_pressure :: "u64 \<Rightarrow> u64 \<Rightarrow> pressure_kind" where
  "ring_pressure queued cap =
     (let pct = ring_percent queued cap
      in if pct \<ge> kRingBadPct then PressureBad else if pct \<ge> kRingWarnPct then PressureWarn else PressureCalm)"

section \<open>The counters\<close>

record metrics_sample =
  ms_live_chunks :: u64
  ms_live_bytes :: u64
  ms_ring_queued :: u64
  ms_ring_capacity :: u64
  ms_dropped :: u64
  ms_now_ms :: u32

definition metrics_sample_new :: metrics_sample where
  "metrics_sample_new = \<lparr>ms_live_chunks = 0, ms_live_bytes = 0, ms_ring_queued = 0, ms_ring_capacity = 0,
     ms_dropped = 0, ms_now_ms = 0\<rparr>"

record metrics =
  mt_live :: metrics_sample
  mt_total_bytes :: u64
  mt_total_allocs :: u64
  mt_peak_bytes :: u64
  mt_peak_ms :: u32
  mt_largest_gap :: u64
  mt_gap_known :: bool
  mt_cumulative_known :: bool
  mt_frag_pct :: int

definition metrics_new :: metrics where
  "metrics_new = \<lparr>mt_live = metrics_sample_new, mt_total_bytes = 0, mt_total_allocs = 0, mt_peak_bytes = 0,
     mt_peak_ms = 0, mt_largest_gap = 0, mt_gap_known = False, mt_cumulative_known = True, mt_frag_pct = -1\<rparr>"

definition metrics_on_alloc :: "metrics \<Rightarrow> u64 \<Rightarrow> metrics" where
  "metrics_on_alloc m usable =
     (let m1 = (if mt_total_bytes m > - 1 - usable then m\<lparr>mt_total_bytes := - 1\<rparr>
                else m\<lparr>mt_total_bytes := mt_total_bytes m + usable\<rparr>)
      in if mt_total_allocs m1 \<noteq> - 1 then m1\<lparr>mt_total_allocs := mt_total_allocs m1 + 1\<rparr> else m1)"

definition metrics_reset :: "metrics \<Rightarrow> metrics_sample \<Rightarrow> metrics" where
  "metrics_reset m baseline = m\<lparr>mt_live := baseline, mt_total_bytes := 0, mt_total_allocs := 0,
     mt_peak_bytes := ms_live_bytes baseline, mt_peak_ms := ms_now_ms baseline\<rparr>"

definition metrics_take_sample :: "metrics \<Rightarrow> metrics_sample \<Rightarrow> bool \<times> metrics" where
  "metrics_take_sample m s =
     (let (changed, m1) = (if ms_live_bytes s > mt_peak_bytes m
              then (True, m\<lparr>mt_peak_bytes := ms_live_bytes s, mt_peak_ms := ms_now_ms s\<rparr>) else (False, m));
          changed1 = (if ms_live_chunks s \<noteq> ms_live_chunks (mt_live m1) \<or> ms_live_bytes s \<noteq> ms_live_bytes (mt_live m1) \<or>
              ms_dropped s \<noteq> ms_dropped (mt_live m1) \<or> ms_ring_capacity s \<noteq> ms_ring_capacity (mt_live m1)
              then True else changed);
          changed2 = (if ring_percent (ms_ring_queued s) (ms_ring_capacity s) \<noteq>
              ring_percent (ms_ring_queued (mt_live m1)) (ms_ring_capacity (mt_live m1)) then True else changed1)
      in (changed2, m1\<lparr>mt_live := s\<rparr>))"

definition set_fragmentation :: "metrics \<Rightarrow> int \<Rightarrow> metrics" where
  "set_fragmentation m pct = m\<lparr>mt_frag_pct := pct\<rparr>"

definition set_largest_gap :: "metrics \<Rightarrow> u64 \<Rightarrow> bool \<Rightarrow> metrics" where
  "set_largest_gap m bytes known = m\<lparr>mt_largest_gap := bytes, mt_gap_known := known\<rparr>"

definition set_cumulative_known :: "metrics \<Rightarrow> bool \<Rightarrow> metrics" where
  "set_cumulative_known m known = m\<lparr>mt_cumulative_known := known\<rparr>"

section \<open>The share of the ring in use\<close>

text \<open>Below a capacity of \<^term>\<open>2 ^ 57\<close> events the product does not wrap, and the figure is the truncated
  percentage, raised to one for a ring that is not empty.\<close>

lemma ring_percent_exact:
  assumes "unat cap \<le> 2 ^ 57" "0 < unat queued" "unat queued < unat cap"
  shows "unat (ring_percent queued cap) = max 1 (unat queued * 100 div unat cap)"
proof -
  have q: "unat (queued * 100) = unat queued * 100"
    using assms by (simp add: unat_word_ariths)
  have lt: "unat queued * 100 div unat cap < 100"
    using assms by (simp add: div_less_iff_less_mult)
  have pct: "unat (queued * 100 div cap) = unat queued * 100 div unat cap"
    by (simp add: unat_div_distrib q)
  have "unat (ucast (queued * 100 div cap) :: u32) = unat queued * 100 div unat cap"
    using lt pct by (simp add: unsigned_ucast_eq take_bit_eq_mod)
  moreover have "queued * 100 div cap = 0 \<longleftrightarrow> unat queued * 100 div unat cap = 0"
    using pct by (metis unat_eq_zero)
  ultimately show ?thesis
    using assms by (auto simp: ring_percent_def Let_def word_le_nat_alt max_def)
qed

section \<open>The measurement window\<close>

text \<open>A session seen from the panel: allocations, frames and resets.\<close>

datatype metrics_op = MAlloc u64 | MSample metrics_sample | MReset metrics_sample

fun metrics_run :: "metrics_op \<Rightarrow> metrics \<Rightarrow> metrics" where
  "metrics_run (MAlloc u) m = metrics_on_alloc m u"
| "metrics_run (MSample s) m = snd (metrics_take_sample m s)"
| "metrics_run (MReset b) m = metrics_reset m b"

text \<open>What the window has seen: the saturating sums of the allocations since the last reset, the
  largest live figure sampled since and the first moment it was sampled.\<close>

fun window_ops :: "metrics_op list \<Rightarrow> metrics_sample option \<times> metrics_op list" where
  "window_ops [] = (None, [])"
| "window_ops (x # xs) =
     (case window_ops xs of
        (Some b, ys) \<Rightarrow> (Some b, ys)
      | (None, ys) \<Rightarrow> (case x of MReset b \<Rightarrow> (Some b, ys) | _ \<Rightarrow> (None, x # ys)))"

definition alloc_sizes :: "metrics_op list \<Rightarrow> nat list" where
  "alloc_sizes ops = concat (map (\<lambda>x. case x of MAlloc u \<Rightarrow> [unat u] | _ \<Rightarrow> []) ops)"

definition sampled_bytes :: "metrics_op list \<Rightarrow> u64 list" where
  "sampled_bytes ops = concat (map (\<lambda>x. case x of MSample s \<Rightarrow> [ms_live_bytes s] | _ \<Rightarrow> []) ops)"

lemma window_snoc:
  "window_ops (xs @ [x]) = (case x of MReset b \<Rightarrow> (Some b, [])
     | _ \<Rightarrow> (fst (window_ops xs), snd (window_ops xs) @ [x]))"
  by (induction xs) (auto split: prod.splits option.splits metrics_op.splits)

lemma on_alloc_totals:
  "unat (mt_total_bytes (metrics_on_alloc m u)) = min (2 ^ 64 - 1) (unat (mt_total_bytes m) + unat u)"
  "unat (mt_total_allocs (metrics_on_alloc m u)) = min (2 ^ 64 - 1) (unat (mt_total_allocs m) + 1)"
proof -
  have top: "unat (- 1 :: u64) = 2 ^ 64 - 1"
    by (simp add: unsigned_minus_1_eq_mask mask_eq_exp_minus_1)
  have left: "unat (- 1 - u) = 2 ^ 64 - 1 - unat u"
    using unat_lt_exp [of u] by (simp add: unat_sub top word_le_nat_alt)
  have ne: "mt_total_allocs m = - 1 \<longleftrightarrow> unat (mt_total_allocs m) = 2 ^ 64 - 1"
    by (metis top unsigned_word_eqI)
  show "unat (mt_total_bytes (metrics_on_alloc m u)) = min (2 ^ 64 - 1) (unat (mt_total_bytes m) + unat u)"
    using unat_lt_exp [of u] unat_lt_exp [of "mt_total_bytes m"]
    by (auto simp: metrics_on_alloc_def Let_def word_less_nat_alt left top unat_word_ariths min_def)
  show "unat (mt_total_allocs (metrics_on_alloc m u)) = min (2 ^ 64 - 1) (unat (mt_total_allocs m) + 1)"
    using unat_lt_exp [of "mt_total_allocs m"] ne
    by (auto simp: metrics_on_alloc_def Let_def top unat_word_ariths min_def)
qed

lemma on_alloc_peak [simp]: "mt_peak_bytes (metrics_on_alloc m u) = mt_peak_bytes m"
  by (simp add: metrics_on_alloc_def Let_def)

lemma sample_fields [simp]:
  "mt_total_bytes (snd (metrics_take_sample m s)) = mt_total_bytes m"
  "mt_total_allocs (snd (metrics_take_sample m s)) = mt_total_allocs m"
  "mt_peak_bytes (snd (metrics_take_sample m s)) = max (mt_peak_bytes m) (ms_live_bytes s)"
  by (auto simp: metrics_take_sample_def Let_def max_def)

text \<open>
  The metrics window: after any sequence of allocations, samples and resets, the totals are the
  sums over the allocations since the last reset, saturating at the width of the counter and never
  wrapping, and the peak is the largest live figure among the reset baseline and the samples since.
\<close>

theorem metrics_window_exact:
  "let m = fold metrics_run ops metrics_new;
       (baseline, w) = window_ops ops
   in unat (mt_total_bytes m) = min (2 ^ 64 - 1) (sum_list (alloc_sizes w)) \<and>
      unat (mt_total_allocs m) = min (2 ^ 64 - 1) (length (alloc_sizes w)) \<and>
      mt_peak_bytes m = fold max (sampled_bytes w) (case baseline of None \<Rightarrow> 0 | Some b \<Rightarrow> ms_live_bytes b)"
proof (induction ops rule: rev_induct)
  case (snoc x xs)
  then show ?case
    by (cases x) (auto simp: window_snoc alloc_sizes_def sampled_bytes_def metrics_reset_def on_alloc_totals Let_def
       max.commute split: prod.splits)
qed (simp add: alloc_sizes_def sampled_bytes_def metrics_new_def)

end
