(* ===== verification/Screen_Layout.thy ===== *)
theory Screen_Layout
  imports Grid
begin

text \<open>
  Screen geometry: the layout of the application (\<^verbatim>\<open>src/tui/layout.h\<close>, \<^verbatim>\<open>layout.cpp\<close>) and the layout of the
  map inside its rectangle (\<^verbatim>\<open>map_layout\<close> and \<^verbatim>\<open>fit_grid\<close> of \<^verbatim>\<open>map_view.cpp\<close>). Screen dimensions are mathematical
  integers: they come from the terminal driver, which reports them as 16-bit numbers.
\<close>

section \<open>The application layout\<close>

record rect =
  rx :: int
  ry :: int
  rw :: int
  rh :: int

definition mk_rect :: "int \<Rightarrow> int \<Rightarrow> int \<Rightarrow> int \<Rightarrow> rect" where
  "mk_rect x y w h = \<lparr>rx = x, ry = y, rw = w, rh = h\<rparr>"

definition no_rect :: rect where
  "no_rect = mk_rect 0 0 0 0"

record app_layout =
  al_title :: rect
  al_address :: rect
  al_section :: rect
  al_map :: rect
  al_inspector :: rect
  al_metrics :: rect
  al_footer :: rect
  al_legend :: bool
  al_panels_stacked :: bool

definition app_layout_new :: app_layout where
  "app_layout_new = \<lparr>al_title = no_rect, al_address = no_rect, al_section = no_rect, al_map = no_rect,
     al_inspector = no_rect, al_metrics = no_rect, al_footer = no_rect, al_legend = True, al_panels_stacked = False\<rparr>"

definition panel_h :: int where "panel_h = 7"

definition solve_layout :: "int \<Rightarrow> int \<Rightarrow> app_layout" where
  "solve_layout w h =
     (if w \<le> 0 \<or> h \<le> 0 then app_layout_new
      else
        (let out0 = app_layout_new\<lparr>al_footer := mk_rect 0 (h - 1) w 1\<rparr>;
             bottom0 = h - 1;
             (out1, top1) = (if 0 < bottom0 then (out0\<lparr>al_title := mk_rect 0 0 w 1\<rparr>, 1) else (out0, 0));
             (out2, top2) = (if top1 < bottom0 then (out1\<lparr>al_address := mk_rect 0 top1 w 1\<rparr>, top1 + 1) else (out1, top1));
             (out3, tp) = (if top2 < bottom0 then (out2\<lparr>al_section := mk_rect 0 top2 w 1\<rparr>, top2 + 1) else (out2, top2));
             out4 = out3\<lparr>al_legend := h \<ge> 30, al_panels_stacked := w < 100\<rparr>;
             available = bottom0 - tp;
             (out5, bottom) =
               (if \<not> al_panels_stacked out4 \<and> available \<ge> panel_h + 4 then
                  (let inspector_w = w * 3 div 5
                   in (out4\<lparr>al_inspector := mk_rect 0 (bottom0 - panel_h) inspector_w panel_h,
                            al_metrics := mk_rect inspector_w (bottom0 - panel_h) (w - inspector_w) panel_h\<rparr>,
                       bottom0 - panel_h))
                else if al_panels_stacked out4 \<and> available \<ge> panel_h * 2 + 4 then
                  (let b1 = bottom0 - panel_h; b2 = b1 - panel_h
                   in (out4\<lparr>al_metrics := mk_rect 0 b1 w panel_h, al_inspector := mk_rect 0 b2 w panel_h\<rparr>, b2))
                else if available \<ge> panel_h + 4 then
                  (out4\<lparr>al_inspector := mk_rect 0 (bottom0 - panel_h) w panel_h\<rparr>, bottom0 - panel_h)
                else (out4, bottom0))
         in out5\<lparr>al_map := mk_rect 0 tp w (max 0 (bottom - tp))\<rparr>))"

section \<open>The map inside its rectangle\<close>

definition kMinMapCols :: int where "kMinMapCols = 8"

record map_layout =
  ml_legend :: rect
  ml_cells :: rect
  ml_gutter_x :: int
  ml_valid :: bool

definition map_layout_new :: map_layout where
  "map_layout_new = \<lparr>ml_legend = no_rect, ml_cells = no_rect, ml_gutter_x = -1, ml_valid = False\<rparr>"

definition map_layout_of :: "rect \<Rightarrow> bool \<Rightarrow> map_layout" where
  "map_layout_of area show_legend =
     (if rw area \<le> 0 \<or> rh area \<le> 0 then map_layout_new
      else
        (let legend = (show_legend \<and> rh area \<ge> 2);
             lrect = (if legend then mk_rect (rx area) (ry area) (rw area) 1 else no_rect);
             cells_y = ry area + (if legend then 1 else 0);
             cells_h = rh area - (if legend then 1 else 0);
             gutter_cols = int kGutterWidth + 1;
             gutter = (rw area \<ge> gutter_cols + kMinMapCols);
             cells = mk_rect (rx area + (if gutter then gutter_cols else 0)) cells_y
                       (rw area - (if gutter then gutter_cols else 0)) cells_h
         in \<lparr>ml_legend = lrect, ml_cells = cells, ml_gutter_x = (if gutter then rx area else -1),
             ml_valid = (rw cells > 0 \<and> rh cells > 0)\<rparr>))"

definition fit_grid :: "grid \<Rightarrow> rect \<Rightarrow> bool \<Rightarrow> bool \<Rightarrow> bool \<times> grid" where
  "fit_grid g area half_block show_legend =
     (let l = map_layout_of area show_legend
      in if \<not> ml_valid l then (False, snd (grid_set_viewport g 0 0))
         else grid_set_viewport g (rw (ml_cells l)) (rh (ml_cells l) * (if half_block then 2 else 1)))"

section \<open>Tilings\<close>

definition rect_covers :: "rect \<Rightarrow> int \<Rightarrow> int \<Rightarrow> bool" where
  "rect_covers r x y \<longleftrightarrow> rx r \<le> x \<and> x < rx r + rw r \<and> ry r \<le> y \<and> y < ry r + rh r"

definition layout_rects :: "app_layout \<Rightarrow> rect list" where
  "layout_rects l = [al_title l, al_address l, al_section l, al_map l, al_inspector l, al_metrics l, al_footer l]"

definition map_rects :: "rect \<Rightarrow> map_layout \<Rightarrow> rect list" where
  "map_rects area l = [ml_legend l, ml_cells l,
     (if ml_gutter_x l < 0 then no_rect
      else mk_rect (ml_gutter_x l) (ry (ml_cells l)) (int kGutterWidth + 1) (rh (ml_cells l)))]"

definition covering :: "rect list \<Rightarrow> int \<Rightarrow> int \<Rightarrow> nat" where
  "covering rs x y = length (filter (\<lambda>r. rect_covers r x y) rs)"

lemma no_rect_covers [simp]: "\<not> rect_covers no_rect x y"
  by (simp add: rect_covers_def no_rect_def mk_rect_def)

lemma mk_rect_covers [simp]: "rect_covers (mk_rect a b w h) x y \<longleftrightarrow> a \<le> x \<and> x < a + w \<and> b \<le> y \<and> y < b + h"
  by (simp add: rect_covers_def mk_rect_def)

lemma mk_rect_sel [simp]: "rx (mk_rect a b w h) = a" "ry (mk_rect a b w h) = b" "rw (mk_rect a b w h) = w" "rh (mk_rect a b w h) = h"
  by (simp_all add: mk_rect_def)

lemma covering_simps [simp]:
  "covering [] x y = 0"
  "covering (r # rs) x y = (if rect_covers r x y then Suc (covering rs x y) else covering rs x y)"
  by (simp_all add: covering_def)

text \<open>The rectangles in use, by the height left for panels.\<close>

lemma layout_low:
  assumes "0 < w" "0 < h" "h < 4"
  shows "covering (layout_rects (solve_layout w h)) x y = (if 0 \<le> x \<and> x < w \<and> 0 \<le> y \<and> y < h then 1 else 0)"
proof -
  from assms consider "h = 1" | "h = 2" | "h = 3" by linarith
  then show ?thesis
    using assms(1) by cases (auto simp: solve_layout_def Let_def layout_rects_def panel_h_def app_layout_new_def)
qed

definition bands :: "int \<Rightarrow> int \<Rightarrow> rect list \<Rightarrow> int \<Rightarrow> rect list" where
  "bands w h panels tp =
     [mk_rect 0 0 w 1, mk_rect 0 1 w 1, mk_rect 0 2 w 1, mk_rect 0 3 w (tp - 3)] @ panels @ [mk_rect 0 (h - 1) w 1]"

lemma layout_high:
  assumes "0 < w" "4 \<le> h"
  shows "layout_rects (solve_layout w h) =
    (if w \<ge> 100 \<and> h \<ge> 15 then
       bands w h [mk_rect 0 (h - 8) (w * 3 div 5) 7, mk_rect (w * 3 div 5) (h - 8) (w - w * 3 div 5) 7] (h - 8)
     else if w < 100 \<and> h \<ge> 22 then bands w h [mk_rect 0 (h - 15) w 7, mk_rect 0 (h - 8) w 7] (h - 15)
     else if h \<ge> 15 then bands w h [mk_rect 0 (h - 8) w 7, no_rect] (h - 8)
     else bands w h [no_rect, no_rect] (h - 1))"
  using assms by (simp add: solve_layout_def Let_def layout_rects_def panel_h_def app_layout_new_def bands_def)

lemma bands_tile:
  assumes "4 \<le> h" "3 \<le> tp" "tp \<le> h - 1"
    and "covering panels x y = (if 0 \<le> x \<and> x < w \<and> tp \<le> y \<and> y < h - 1 then 1 else 0)"
  shows "covering (bands w h panels tp) x y = (if 0 \<le> x \<and> x < w \<and> 0 \<le> y \<and> y < h then 1 else 0)"
proof -
  have app: "covering (rs @ qs) x y = covering rs x y + covering qs x y" for rs qs
    by (simp add: covering_def)
  show ?thesis
    using assms by (auto simp: bands_def app)
qed

text \<open>
  (C34) The panels tile the screen: whatever the terminal size, every character cell of the screen is
  covered by exactly one rectangle of the layout, and no rectangle reaches outside the screen.
\<close>

theorem layout_tiles_screen:
  "covering (layout_rects (solve_layout w h)) x y = (if 0 \<le> x \<and> x < w \<and> 0 \<le> y \<and> y < h then 1 else 0)"
proof -
  consider "w \<le> 0 \<or> h \<le> 0" | "0 < w" "0 < h" "h < 4" | "0 < w" "4 \<le> h" by linarith
  then show ?thesis
  proof cases
    case 1
    then show ?thesis by (auto simp: solve_layout_def layout_rects_def app_layout_new_def)
  next
    case 2
    then show ?thesis by (rule layout_low)
  next
    case 3
    have third: "w * 3 div 5 \<le> w" "0 \<le> w * 3 div 5" using 3 by simp_all
    have "covering (layout_rects (solve_layout w h)) x y = covering (bands w h ps tp) x y"
      if "layout_rects (solve_layout w h) = bands w h ps tp" for ps tp using that by simp
    note tile = trans [OF this bands_tile [OF 3(2)]]
    consider "w \<ge> 100" "h \<ge> 15" | "w < 100" "h \<ge> 22" | "w < 100" "15 \<le> h" "h < 22" | "h < 15" by linarith
    then show ?thesis
      by cases (rule tile, simp add: layout_high [OF 3], (use third 3 in auto)[3])+
  qed
qed

end
