(* ===== verification/Inspector.thy ===== *)
theory Inspector
  imports Cursor Chunk_Store "HOL-Library.Product_Lexorder"
begin

text \<open>
  The chunk inspector (\<^verbatim>\<open>src/tui/inspector.h\<close>, \<^verbatim>\<open>inspector.cpp\<close>): the chunks in the cell under the cursor,
  the selection that \<^verbatim>\<open>Tab\<close> moves through them and the throttled rescan of the chunk table, with the
  test \<^verbatim>\<open>cell_animating\<close> of \<^verbatim>\<open>heat_color.cpp\<close> it relies on. The drawing of the panel is in \<open>Panel_Draw\<close>.
\<close>

section \<open>Cells that are still fading\<close>

definition age_of :: "u32 \<Rightarrow> u32 \<Rightarrow> u32 \<Rightarrow> u32" where
  "age_of stamp now none = (if stamp = kNoTime then none else now - stamp)"

definition cell_animating :: "cell_aggregate \<Rightarrow> heat_timings \<Rightarrow> u32 \<Rightarrow> bool" where
  "cell_animating a t now_ms \<longleftrightarrow>
     age_of (a_last_alloc_ms a) now_ms kNoTime < malloc_pulse_ms t + malloc_fade_ms t \<or>
     age_of (a_last_free_ms a) now_ms kNoTime < free_flash_ms t + free_fade_ms t"

definition map_animating :: "heat_map \<Rightarrow> u32 \<Rightarrow> bool" where
  "map_animating h now_ms \<longleftrightarrow>
     list_ex (\<lambda>i. cell_animating (heat_at h i) (hm_timings h) now_ms) [0..<length (hm_cells h)]"

section \<open>The panel's model\<close>

definition kInspectorCandidates :: nat where "kInspectorCandidates = 64"
definition kInspectRefreshMs :: u32 where "kInspectRefreshMs = 250"
definition SIZE_MAX :: nat where "SIZE_MAX = 2 ^ 64 - 1"

datatype chunk_status = StUnallocated | StActive | StMmapped | StFreed

definition chunk_status_str :: "chunk_status \<Rightarrow> string" where
  "chunk_status_str s = (case s of StUnallocated \<Rightarrow> ''UNALLOCATED'' | StActive \<Rightarrow> ''ACTIVE (ptmalloc)''
     | StMmapped \<Rightarrow> ''MMAPPED'' | StFreed \<Rightarrow> ''FREED'')"

record chunk_detail =
  d_addr :: u64
  d_size :: u32
  d_usable :: u32
  d_overhead :: u32
  d_alloc_ms :: u32
  d_free_ms :: u32
  d_tid :: u32
  d_status :: chunk_status
  d_exact :: bool

definition kNothing :: chunk_detail where
  "kNothing = \<lparr>d_addr = 0, d_size = 0, d_usable = 0, d_overhead = 0, d_alloc_ms = 0, d_free_ms = 0, d_tid = 0,
     d_status = StUnallocated, d_exact = False\<rparr>"

definition chunk_bytes :: "chunk_detail \<Rightarrow> u64" where
  "chunk_bytes d = ucast (d_size d) + ucast (d_overhead d)"

record inspector =
  in_first_seen :: bool
  in_found :: "chunk_detail list"
  in_total :: nat
  in_pos :: nat
  in_cell :: nat
  in_last_ms :: u32
  in_selected :: u64
  in_scans :: nat

definition inspector_new :: inspector where
  "inspector_new = \<lparr>in_first_seen = False, in_found = [], in_total = 0, in_pos = 0, in_cell = SIZE_MAX,
     in_last_ms = 0, in_selected = 0, in_scans = 0\<rparr>"

definition inspector_current :: "inspector \<Rightarrow> chunk_detail" where
  "inspector_current s = (if in_pos s \<ge> length (in_found s) then kNothing else in_found s ! in_pos s)"

section \<open>Operations\<close>

definition detail_of :: "chunk \<Rightarrow> chunk_detail" where
  "detail_of c =
     (let exact = (c_flags c AND kChunkFlagRefined \<noteq> 0)
      in \<lparr>d_addr = c_key c, d_size = c_size c, d_usable = c_usable c,
          d_overhead = (if exact then ucast (c_overhead_exact c) else overhead_of (c_size c) (c_usable c)),
          d_alloc_ms = c_alloc_ms c, d_free_ms = c_free_ms c, d_tid = c_tid c,
          d_status = (if c_state c = ChunkFreed then StFreed
                      else if c_flags c AND kChunkFlagMmapped \<noteq> 0 then StMmapped else StActive),
          d_exact = exact\<rparr>)"

text \<open>\<^verbatim>\<open>std::min_element\<close>: the index of the first smallest element.\<close>

fun min_index :: "nat \<Rightarrow> nat \<Rightarrow> chunk_detail list \<Rightarrow> chunk_detail list \<Rightarrow> nat" where
  "min_index best i xs [] = best"
| "min_index best i xs (d # ds) = min_index (if d_size d < d_size (xs ! best) then i else best) (Suc i) xs ds"

definition keep_largest :: "chunk_detail \<Rightarrow> chunk_detail list \<Rightarrow> chunk_detail list" where
  "keep_largest d found =
     (if length found < kInspectorCandidates then found @ [d]
      else (let smallest = min_index 0 0 found found
            in if smallest < length found \<and> d_size (found ! smallest) < d_size d then found[smallest := d] else found))"

definition in_cell_of :: "heat_map \<Rightarrow> nat \<Rightarrow> chunk \<Rightarrow> bool" where
  "in_cell_of map' cell c \<longleftrightarrow> \<not> (c_state c = ChunkEmpty \<or> c_key c = 0) \<and>
     (case coordinate_of map' (c_key c) of None \<Rightarrow> False
      | Some coord \<Rightarrow> (case index_of (hm_grid map') coord of None \<Rightarrow> False | Some idx \<Rightarrow> \<not> idx \<noteq> cell))"

definition rescan_step :: "heat_map \<Rightarrow> nat \<Rightarrow> chunk \<Rightarrow> nat \<times> chunk_detail list \<Rightarrow> nat \<times> chunk_detail list" where
  "rescan_step map' cell c = (\<lambda>(total, found).
     if in_cell_of map' cell c then (total + 1, keep_largest (detail_of c) found) else (total, found))"

text \<open>The comparison of \<^verbatim>\<open>std::sort\<close>: larger sizes first, ties by address.\<close>

definition detail_order :: "chunk_detail \<Rightarrow> int \<times> u64" where
  "detail_order d = (- uint (d_size d), d_addr d)"

fun find_addr :: "u64 \<Rightarrow> nat \<Rightarrow> chunk_detail list \<Rightarrow> nat option" where
  "find_addr a i [] = None"
| "find_addr a i (d # ds) = (if d_addr d = a then Some i else find_addr a (Suc i) ds)"

definition rescan :: "inspector \<Rightarrow> chunk_table \<Rightarrow> heat_map \<Rightarrow> nat \<Rightarrow> inspector" where
  "rescan s table map' cell =
     (let (total, found) = fold (rescan_step map' cell) (ct_slots table) (0, []);
          found' = sort_key detail_order found;
          pos = (if in_selected s \<noteq> 0 then (case find_addr (in_selected s) 0 found' of None \<Rightarrow> 0 | Some i \<Rightarrow> i) else 0)
      in s\<lparr>in_found := found', in_total := total, in_scans := in_scans s + 1, in_pos := pos,
           in_selected := (if found' = [] then 0 else d_addr (found' ! pos)), in_cell := cell\<rparr>)"

definition inspector_refresh :: "inspector \<Rightarrow> chunk_table \<Rightarrow> heat_map \<Rightarrow> map_cursor \<Rightarrow> u32 \<Rightarrow> bool \<Rightarrow> bool \<times> inspector" where
  "inspector_refresh s table map' cur now_ms dirty =
     (let g = hm_grid map'
      in if \<not> g_valid g then
           (in_found s \<noteq> [], s\<lparr>in_found := [], in_total := 0, in_pos := 0, in_cell := SIZE_MAX\<rparr>)
         else
           (let cell = cursor_index cur g;
                moved = (cell \<noteq> in_cell s);
                due = (now_ms - in_last_ms s \<ge> kInspectRefreshMs)
            in if \<not> moved \<and> \<not> dirty \<and> \<not> due then (False, s)
               else
                 (let s1 = s\<lparr>in_last_ms := now_ms\<rparr>;
                      was_addr = (if in_found s1 = [] then 0 else d_addr (in_found s1 ! in_pos s1));
                      was_total = in_total s1;
                      possible = (cell < length (hm_cells map') \<and>
                        (cell_occupied (heat_at map' cell) \<or> cell_animating (heat_at map' cell) (hm_timings map') now_ms))
                  in if \<not> possible then
                       (was_addr \<noteq> 0 \<or> was_total \<noteq> 0 \<or> moved,
                        s1\<lparr>in_found := [], in_total := 0, in_pos := 0, in_selected := 0, in_cell := cell\<rparr>)
                     else
                       (let s2 = rescan s1 table map' cell;
                            now_addr = (if in_found s2 = [] then 0 else d_addr (in_found s2 ! in_pos s2))
                        in if was_addr \<noteq> now_addr \<or> was_total \<noteq> in_total s2 \<or> moved then (True, s2)
                           else (in_found s2 \<noteq> [] \<and> d_status (inspector_current s2) \<noteq> StFreed, s2)))))"

definition inspector_cycle :: "inspector \<Rightarrow> bool \<times> inspector" where
  "inspector_cycle s =
     (if length (in_found s) < 2 then (False, s)
      else (let pos = (in_pos s + 1) mod length (in_found s)
            in (True, s\<lparr>in_pos := pos, in_selected := d_addr (in_found s ! pos)\<rparr>)))"

section \<open>The candidates\<close>

lemma min_index_spec:
  assumes "best < length xs" "i + length ds = length xs" "ds = drop i xs"
    and "\<forall>j < i. d_size (xs ! best) \<le> d_size (xs ! j)"
  shows "min_index best i xs ds < length xs \<and> (\<forall>j < length xs. d_size (xs ! min_index best i xs ds) \<le> d_size (xs ! j))"
  using assms
proof (induction best i xs ds rule: min_index.induct)
  case (2 best i xs d ds)
  have d: "d = xs ! i" "ds = drop (Suc i) xs"
    using 2(3,4) by (metis nth_via_drop, metis drop_Suc_Cons drop_0 drop_drop plus_1_eq_Suc add.commute)
  show ?case
    unfolding min_index.simps
    by (rule "2.IH") (use 2 d in \<open>auto simp: less_Suc_eq intro: order.trans less_imp_le\<close>)
qed simp

text \<open>What the list of candidates is, over the chunks seen so far: the largest ones, up to the limit.\<close>

definition top_sizes :: "nat \<Rightarrow> chunk_detail list \<Rightarrow> chunk_detail list \<Rightarrow> bool" where
  "top_sizes k found seen \<longleftrightarrow> length found = min k (length seen) \<and> set found \<subseteq> set seen \<and>
     (\<forall>d \<in> set seen - set found. \<forall>f \<in> set found. d_size d \<le> d_size f)"

lemma keep_largest_top:
  assumes "top_sizes kInspectorCandidates found seen" "distinct found" "distinct seen" "d \<notin> set seen"
  shows "top_sizes kInspectorCandidates (keep_largest d found) (seen @ [d]) \<and> distinct (keep_largest d found)"
proof (cases "length found < kInspectorCandidates")
  case True
  then have "length found = length seen" "set found \<subseteq> set seen"
    using assms(1) by (auto simp: top_sizes_def)
  then have "set found = set seen"
    using assms(2,3) by (metis List.finite_set card_subset_eq distinct_card)
  moreover have "keep_largest d found = found @ [d]"
    using True by (simp add: keep_largest_def)
  ultimately show ?thesis
    using assms(2,4) True \<open>length found = length seen\<close> by (simp add: top_sizes_def)
next
  case False
  define i where "i = min_index 0 0 found found"
  have len: "length found = kInspectorCandidates" "0 < length found" and sub: "set found \<subseteq> set seen"
    using False assms(1) by (auto simp: top_sizes_def kInspectorCandidates_def)
  have i: "i < length found" "\<And>f. f \<in> set found \<Longrightarrow> d_size (found ! i) \<le> d_size f"
    using min_index_spec [of 0 found 0 found] len(2) by (auto simp: i_def in_set_conv_nth)
  have full: "kInspectorCandidates \<le> length seen"
    using assms(1) len(1) by (simp add: top_sizes_def) (metis min.cobounded2)
  have out: "d_size e \<le> d_size f" if "e \<in> set seen - set found" "f \<in> set found" for e f
    using assms(1) that by (simp add: top_sizes_def)
  show ?thesis
  proof (cases "d_size (found ! i) < d_size d")
    case True
    have set: "set (found[i := d]) = insert d (set found - {found ! i})"
      using i(1) assms(2) by (rule set_update_distinct [rotated])
    have "d_size e \<le> d_size f" if "e \<in> set (seen @ [d]) - set (found[i := d])" "f \<in> set (found[i := d])" for e f
    proof -
      have e: "e \<in> set seen" "e = found ! i \<or> e \<notin> set found"
        using that(1) assms(4) by (auto simp: set)
      have "d_size e \<le> d_size (found ! i)"
        using e out [of e "found ! i"] i(1) by auto
      moreover have "d_size (found ! i) \<le> d_size f"
        using that(2) True i(2) by (auto simp: set)
      ultimately show ?thesis by simp
    qed
    moreover have "distinct (found[i := d])"
      using assms(2,4) sub by (meson distinct_list_update subset_iff Diff_subset)
    moreover have "set (found[i := d]) \<subseteq> set (seen @ [d])"
      using sub by (auto simp: set)
    ultimately show ?thesis
      using True i(1) len full by (simp add: keep_largest_def top_sizes_def i_def [symmetric] min_def)
  next
    case small: False
    then have "keep_largest d found = found"
      using False by (simp add: keep_largest_def i_def [symmetric])
    moreover have "d_size d \<le> d_size f" if "f \<in> set found" for f
      using small i(2) [OF that] by simp
    ultimately show ?thesis
      using assms(2) sub len full out by (auto simp: top_sizes_def)
  qed
qed

lemma rescan_fold:
  "fold (rescan_step map' cell) slots (n, found) =
     (n + length (filter (in_cell_of map' cell) slots),
      fold keep_largest (map detail_of (filter (in_cell_of map' cell) slots)) found)"
  by (induction slots arbitrary: n found) (simp_all add: rescan_step_def)

lemma fold_keep_largest:
  assumes "distinct ds"
  shows "top_sizes kInspectorCandidates (fold keep_largest ds []) ds \<and> distinct (fold keep_largest ds [])"
  using assms
proof (induction ds rule: rev_induct)
  case (snoc d ds)
  then show ?case
    using keep_largest_top [of "fold keep_largest ds []" ds d] by simp
qed (simp add: top_sizes_def)

lemma detail_fields [simp]: "d_addr (detail_of c) = c_key c" "d_size (detail_of c) = c_size c"
  by (simp_all add: detail_of_def Let_def)

lemma here_distinct:
  assumes "ct_ok table"
  shows "distinct (map c_key (filter (in_cell_of map' cell) (ct_slots table)))"
proof -
  have "distinct (map c_key (filter occ (ct_slots table)))"
    using ct_okD(3) [OF assms] by (rule rh_keys_distinct)
  moreover have "filter (in_cell_of map' cell) (ct_slots table) = filter (in_cell_of map' cell) (filter occ (ct_slots table))"
    by (auto simp: in_cell_of_def occ_def intro!: filter_cong)
  ultimately show ?thesis
    by (metis distinct_map_filter)
qed

lemma find_addr_spec:
  "find_addr a i ds = None \<longleftrightarrow> a \<notin> d_addr ` set ds"
  "find_addr a i ds = Some j \<Longrightarrow> i \<le> j \<and> j - i < length ds \<and> d_addr (ds ! (j - i)) = a"
proof (induction ds arbitrary: i)
  case (Cons d ds)
  {
    case 1
    then show ?case using Cons.IH(1) by auto
  next
    case 2
    then show ?case
      using Cons.IH(2) [of "Suc i"] by (auto split: if_splits simp: nth_Cons' Suc_le_eq)
  }
qed simp_all

section \<open>Properties\<close>

text \<open>
  (C24) The inspector names the largest chunks of the cell: after a rescan of a well-formed table the total
  counts exactly the records of the cell, the candidates are records of the table, each listed once,
  as many as the limit allows, ordered by size and then by address, and no record left out is larger than one
  that is listed. The selection stays on the chunk that was selected if that is still listed, and is
  otherwise the largest.
\<close>

theorem inspector_shows_largest:
  assumes "ct_ok table"
  shows "let s' = rescan s table map' cell; here = filter (in_cell_of map' cell) (ct_slots table) in
    in_total s' = length here \<and> length (in_found s') = min kInspectorCandidates (length here) \<and>
    distinct (map d_addr (in_found s')) \<and> sorted_wrt (\<lambda>a b. detail_order a < detail_order b) (in_found s') \<and>
    (\<forall>d \<in> set (in_found s'). \<exists>c. ct_map table (d_addr d) = Some c \<and> in_cell_of map' cell c \<and> d = detail_of c) \<and>
    (\<forall>c \<in> set here. detail_of c \<notin> set (in_found s') \<longrightarrow> (\<forall>d \<in> set (in_found s'). c_size c \<le> d_size d)) \<and>
    (if in_selected s \<noteq> 0 \<and> in_selected s \<in> d_addr ` set (in_found s')
     then d_addr (inspector_current s') = in_selected s
     else in_found s' \<noteq> [] \<longrightarrow> inspector_current s' = hd (in_found s'))"
proof -
  let ?here = "filter (in_cell_of map' cell) (ct_slots table)"
  define found where "found = sort_key detail_order (fold keep_largest (map detail_of ?here) [])"
  define s' where "s' = rescan s table map' cell"
  have s': "in_total s' = length ?here" "in_found s' = found"
    "in_pos s' = (if in_selected s \<noteq> 0 then (case find_addr (in_selected s) 0 found of None \<Rightarrow> 0 | Some i \<Rightarrow> i) else 0)"
    by (simp_all add: s'_def rescan_def Let_def rescan_fold found_def)
  have keys: "distinct (map c_key ?here)"
    by (rule here_distinct [OF assms])
  then have "distinct (map detail_of ?here)"
    by (metis (mono_tags, lifting) detail_fields(1) distinct_map inj_on_def)
  from fold_keep_largest [OF this]
  have top: "length found = min kInspectorCandidates (length ?here)" "set found \<subseteq> detail_of ` set ?here" "distinct found"
    and left: "\<And>e d. e \<in> detail_of ` set ?here - set found \<Longrightarrow> d \<in> set found \<Longrightarrow> d_size e \<le> d_size d"
    by (simp_all add: found_def top_sizes_def)
  have out: "c_size c \<le> d_size d" if "c \<in> set ?here" "detail_of c \<notin> set found" "d \<in> set found" for c d
    using left [of "detail_of c" d] that by simp
  have same: "a = b" if "a \<in> set found" "b \<in> set found" "d_addr a = d_addr b" for a b
  proof -
    obtain ca cb where c: "ca \<in> set ?here" "a = detail_of ca" "cb \<in> set ?here" "b = detail_of cb"
      using \<open>a \<in> set found\<close> \<open>b \<in> set found\<close> top(2) by blast
    then have "ca = cb"
      using keys \<open>d_addr a = d_addr b\<close> unfolding distinct_map inj_on_def by (metis detail_fields(1))
    with c show ?thesis by simp
  qed
  have addrs: "distinct (map d_addr found)"
    using top(3) same by (auto simp: distinct_map inj_on_def)
  then have "distinct (map detail_order found)"
    by (auto simp: distinct_map inj_on_def detail_order_def)
  then have "sorted_wrt (<) (map detail_order found)"
    by (simp add: strict_sorted_iff found_def)
  moreover have "ct_map table (c_key c) = Some c" if "c \<in> set ?here" for c
    using that entries_nth [OF ct_okD(3) [OF assms]]
    by (auto simp: ct_map_def in_set_conv_nth in_cell_of_def occ_def)
  moreover have "if in_selected s \<noteq> 0 \<and> in_selected s \<in> d_addr ` set found
     then d_addr (inspector_current s') = in_selected s
     else found \<noteq> [] \<longrightarrow> inspector_current s' = hd found"
    using find_addr_spec [of "in_selected s" 0 found]
    by (auto simp: inspector_current_def s' hd_conv_nth split: option.splits)
  ultimately show ?thesis
    unfolding Let_def s'_def [symmetric] s'
    using top addrs out by (auto simp: sorted_wrt_map)
qed

lemma one_chunk_table:
  assumes "key \<noteq> 0"
  shows "\<exists>table. ct_ok table \<and> (\<exists>c. ct_map table = [key \<mapsto> c] \<and> c_key c = key \<and> c_state c = ChunkLive)"
proof -
  have "uncapped_ok 1 (chunk_table_new 16)"
    by (rule new_uncapped_ok) (simp_all add: round_capacity_def kMinCapacity_def bit_ceil.simps)
  then obtain t' where "table_inv t'" "ct_map t' = (ct_map (chunk_table_new 16))(key \<mapsto> live_record (ct_map (chunk_table_new 16)) key 24 32 12 1)"
    using insert_live_uncapped [of "chunk_table_new 16" key 24 32 12 1] assms by (auto simp: uncapped_ok_def)
  moreover have "ct_map (chunk_table_new 16) = Map.empty"
    by (rule chunk_table_new_ok) (simp add: round_capacity_def kMinCapacity_def bit_ceil.simps)
  ultimately have "ct_ok t'" "ct_map t' = [key \<mapsto> live_chunk key 24 32 12 1]"
    using table_invD(1) by (auto simp: live_record_def)
  then show ?thesis
    by (intro exI [of _ t'] exI [of _ "live_chunk key 24 32 12 1"] conjI) (simp_all add: live_chunk_def)
qed

theorem inspector_shows_largest_witness:
  "\<exists>table. ct_ok table \<and> d_addr (inspector_current (rescan inspector_new table demo_map 2)) = 130"
proof -
  obtain table c where t: "ct_ok table" "ct_map table = [130 \<mapsto> c]" "c_key c = 130" "c_state c = ChunkLive"
    using one_chunk_table [of 130] by auto
  let ?s' = "rescan inspector_new table demo_map 2"
  let ?here = "filter (in_cell_of demo_map 2) (ct_slots table)"
  have all: "length (in_found ?s') = min kInspectorCandidates (length ?here)"
    "\<forall>d \<in> set (in_found ?s'). \<exists>c. ct_map table (d_addr d) = Some c \<and> in_cell_of demo_map 2 c \<and> d = detail_of c"
    "if in_selected inspector_new \<noteq> 0 \<and> in_selected inspector_new \<in> d_addr ` set (in_found ?s')
     then d_addr (inspector_current ?s') = in_selected inspector_new
     else in_found ?s' \<noteq> [] \<longrightarrow> inspector_current ?s' = hd (in_found ?s')"
    using inspector_shows_largest [OF t(1), of inspector_new demo_map 2] unfolding Let_def by blast+
  have "c \<in> set (ct_slots table)"
    using t(2) ct_okD(3) [OF t(1)] by (metis ct_map_def entries_Some map_upd_Some_unfold nth_mem)
  moreover have "in_cell_of demo_map 2 c"
    using t(3,4) by (simp add: in_cell_of_def) (code_simp)
  ultimately have "?here \<noteq> []"
    by (metis filter_empty_conv)
  then have "in_found ?s' \<noteq> []"
    using all(1) by (metis kInspectorCandidates_def length_0_conv min_def zero_neq_numeral)
  then have "inspector_current ?s' = hd (in_found ?s')" "hd (in_found ?s') \<in> set (in_found ?s')"
    using all(3) by (simp_all add: inspector_new_def)
  then have "d_addr (inspector_current ?s') = 130"
    using all(2) t(2) by (metis map_upd_Some_unfold option.distinct(1))
  then show ?thesis
    using t(1) by blast
qed

end
