(* ===== verification/Heat_Agreement.thy ===== *)
theory Heat_Agreement
  imports Heat_Map
begin

text \<open>
  The heat map against the chunk table: every counter of a cell is a sum over the live records that
  bucket into it. The incremental updates and the rebuild both keep this, which is why they agree.
\<close>

section \<open>Sums over the live records\<close>

definition contrib :: "(chunk \<Rightarrow> nat) \<Rightarrow> (u64 \<Rightarrow> bool) \<Rightarrow> u64 \<Rightarrow> chunk option \<Rightarrow> nat" where
  "contrib w P k oc = (case oc of None \<Rightarrow> 0 | Some c \<Rightarrow> if c_state c = ChunkLive \<and> P k then w c else 0)"

definition live_sum :: "(chunk \<Rightarrow> nat) \<Rightarrow> (u64 \<Rightarrow> bool) \<Rightarrow> (u64 \<rightharpoonup> chunk) \<Rightarrow> nat" where
  "live_sum w P m = (\<Sum>k \<in> dom m. contrib w P k (m k))"

lemma live_sum_superset:
  assumes "finite A" "dom m \<subseteq> A"
  shows "live_sum w P m = (\<Sum>k \<in> A. contrib w P k (m k))"
  unfolding live_sum_def
  by (rule sum.mono_neutral_left [OF assms]) (auto simp: contrib_def dom_def)

lemma live_sum_upd:
  assumes "finite (dom m)"
  shows "live_sum w P (m(k := oc)) + contrib w P k (m k) = live_sum w P m + contrib w P k oc"
proof -
  let ?A = "insert k (dom m)"
  have fin: "finite ?A"
    using assms by simp
  have "live_sum w P (m(k := oc)) = (\<Sum>x \<in> ?A. contrib w P x ((m(k := oc)) x))"
    using fin by (intro live_sum_superset) auto
  also have "\<dots> = contrib w P k oc + (\<Sum>x \<in> ?A - {k}. contrib w P x ((m(k := oc)) x))"
    using fin by (subst sum.remove [of ?A k]) auto
  also have "(\<Sum>x \<in> ?A - {k}. contrib w P x ((m(k := oc)) x)) = (\<Sum>x \<in> ?A - {k}. contrib w P x (m x))"
    by (rule sum.cong) auto
  finally have 1: "live_sum w P (m(k := oc)) = contrib w P k oc + (\<Sum>x \<in> ?A - {k}. contrib w P x (m x))" .
  have "live_sum w P m = (\<Sum>x \<in> ?A. contrib w P x (m x))"
    using fin by (intro live_sum_superset) auto
  also have "\<dots> = contrib w P k (m k) + (\<Sum>x \<in> ?A - {k}. contrib w P x (m x))"
    using fin by (subst sum.remove [of ?A k]) auto
  finally show ?thesis
    using 1 by simp
qed

definition live_at :: "(u64 \<rightharpoonup> chunk) \<Rightarrow> u64 \<Rightarrow> bool" where
  "live_at m k \<longleftrightarrow> (\<exists>c. m k = Some c \<and> c_state c = ChunkLive)"

lemma live_sum_add:
  assumes "finite (dom m)" "\<not> live_at m k" "c_state c = ChunkLive"
  shows "live_sum w P (m(k \<mapsto> c)) = live_sum w P m + (if P k then w c else 0)"
  using live_sum_upd [OF assms(1), of w P k "Some c"] assms(2,3)
  by (auto simp: contrib_def live_at_def split: option.splits)

lemma live_sum_remove:
  assumes "finite (dom m)" "m k = Some c" "c_state c = ChunkLive" "c_state c' \<noteq> ChunkLive"
  shows "live_sum w P (m(k \<mapsto> c')) + (if P k then w c else 0) = live_sum w P m"
  using live_sum_upd [OF assms(1), of w P k "Some c'"] assms(2-4) by (simp add: contrib_def)

lemma live_sum_skip:
  assumes "finite (dom m)" "\<not> live_at m k" "c_state c \<noteq> ChunkLive"
  shows "live_sum w P (m(k \<mapsto> c)) = live_sum w P m"
  using live_sum_upd [OF assms(1), of w P k "Some c"] assms(2,3)
  by (auto simp: contrib_def live_at_def split: option.splits)

lemma live_sum_empty [simp]: "live_sum w P Map.empty = 0"
  by (simp add: live_sum_def)

lemma live_sum_le: "live_sum w P m \<le> (\<Sum>k \<in> dom m. w (the (m k)))"
  unfolding live_sum_def by (rule sum_mono) (auto simp: contrib_def)

section \<open>Agreement\<close>

definition in_cell :: "heat_map \<Rightarrow> nat \<Rightarrow> u64 \<Rightarrow> bool" where
  "in_cell h i k \<longleftrightarrow> cell_for h k = Some i"

definition on_map :: "heat_map \<Rightarrow> u64 \<Rightarrow> bool" where
  "on_map h k \<longleftrightarrow> cell_for h k \<noteq> None"

text \<open>\<open>ov\<close> is the overhead a record is charged: the approximation, or the exact figure once refined.\<close>

definition heat_agrees :: "(chunk \<Rightarrow> u32) \<Rightarrow> heat_map \<Rightarrow> (u64 \<rightharpoonup> chunk) \<Rightarrow> bool" where
  "heat_agrees ov h m \<longleftrightarrow> finite (dom m) \<and> length (hm_cells h) = cell_count (hm_grid h) \<and>
     (\<forall>i < length (hm_cells h).
        unat (a_n_live (hm_cells h ! i)) = live_sum (\<lambda>_. 1) (in_cell h i) m \<and>
        unat (a_live_bytes (hm_cells h ! i)) = live_sum (\<lambda>c. unat (c_usable c)) (in_cell h i) m \<and>
        unat (a_overhead_bytes (hm_cells h ! i)) = live_sum (\<lambda>c. unat (ov c)) (in_cell h i) m) \<and>
     unat (hm_total_live h) = live_sum (\<lambda>_. 1) (on_map h) m \<and>
     unat (hm_total_live_bytes h) = live_sum (\<lambda>c. unat (c_usable c)) (on_map h) m"

text \<open>What the counters must be able to hold: fewer than \<open>2 ^ 32\<close> records, and a cell's overhead.\<close>

definition heat_fits :: "(chunk \<Rightarrow> u32) \<Rightarrow> heat_map \<Rightarrow> (u64 \<rightharpoonup> chunk) \<Rightarrow> bool" where
  "heat_fits ov h m \<longleftrightarrow> card (dom m) < 2 ^ 32 \<and> (\<forall>i. live_sum (\<lambda>c. unat (ov c)) (in_cell h i) m < 2 ^ 32)"

lemma fits_bounds:
  assumes "heat_fits ov h m"
  shows "live_sum (\<lambda>_. 1) P m < 2 ^ 32" "live_sum (\<lambda>c. unat (c_usable c)) P m < 2 ^ 64"
    "live_sum (\<lambda>c. unat (ov c)) (in_cell h i) m < 2 ^ 32"
proof -
  have card: "card (dom m) < 2 ^ 32"
    using assms by (simp add: heat_fits_def)
  show "live_sum (\<lambda>_. 1) P m < 2 ^ 32"
    using live_sum_le [of "\<lambda>_. 1" P m] card by simp
  have "unat (c_usable (the (m k))) \<le> 2 ^ 32" for k
    using unat_lt_exp [of "c_usable (the (m k))"] by simp
  then have "(\<Sum>k \<in> dom m. unat (c_usable (the (m k)))) \<le> card (dom m) * 2 ^ 32"
    using sum_bounded_above [of "dom m" "\<lambda>k. unat (c_usable (the (m k)))" "2 ^ 32"] by simp
  then show "live_sum (\<lambda>c. unat (c_usable c)) P m < 2 ^ 64"
    using live_sum_le [of "\<lambda>c. unat (c_usable c)" P m] card by simp
  show "live_sum (\<lambda>c. unat (ov c)) (in_cell h i) m < 2 ^ 32"
    using assms by (simp add: heat_fits_def)
qed

text \<open>An update that leaves the geometry alone leaves every bucket alone.\<close>

definition same_geometry :: "heat_map \<Rightarrow> heat_map \<Rightarrow> bool" where
  "same_geometry h h' \<longleftrightarrow> hm_regions h' = hm_regions h \<and> hm_grid h' = hm_grid h \<and> length (hm_cells h') = length (hm_cells h)"

lemma same_geometry_cell: "same_geometry h h' \<Longrightarrow> cell_for h' = cell_for h"
  by (rule ext) (auto simp: same_geometry_def cell_for_def coordinate_of_def split: option.splits)

lemma same_geometry_buckets:
  assumes "same_geometry h h'"
  shows "in_cell h' = in_cell h" "on_map h' = on_map h" "heat_fits ov h' = heat_fits ov h"
proof -
  show i: "in_cell h' = in_cell h" and "on_map h' = on_map h"
    using same_geometry_cell [OF assms] by (simp_all add: in_cell_def on_map_def fun_eq_iff)
  show "heat_fits ov h' = heat_fits ov h"
    by (simp add: heat_fits_def i fun_eq_iff)
qed

lemma cell_for_less: "cell_for h k = Some i \<Longrightarrow> i < length (hm_cells h)"
  by (auto simp: cell_for_def split: option.splits if_splits)


lemma heat_agreesD:
  assumes "heat_agrees ov h m"
  shows "finite (dom m)" "length (hm_cells h) = cell_count (hm_grid h)"
    "i < length (hm_cells h) \<Longrightarrow> unat (a_n_live (hm_cells h ! i)) = live_sum (\<lambda>_. 1) (in_cell h i) m"
    "i < length (hm_cells h) \<Longrightarrow> unat (a_live_bytes (hm_cells h ! i)) = live_sum (\<lambda>c. unat (c_usable c)) (in_cell h i) m"
    "i < length (hm_cells h) \<Longrightarrow> unat (a_overhead_bytes (hm_cells h ! i)) = live_sum (\<lambda>c. unat (ov c)) (in_cell h i) m"
    "unat (hm_total_live h) = live_sum (\<lambda>_. 1) (on_map h) m"
    "unat (hm_total_live_bytes h) = live_sum (\<lambda>c. unat (c_usable c)) (on_map h) m"
  using assms by (auto simp: heat_agrees_def)

text \<open>
  What one update does to the counters: the cell of \<open>k\<close>, if there is one, and the totals change by the
  given amounts, and every other cell keeps its counters.
\<close>

definition counters :: "heat_map \<Rightarrow> nat \<Rightarrow> nat \<times> nat \<times> nat" where
  "counters h i = (unat (a_n_live (hm_cells h ! i)), unat (a_live_bytes (hm_cells h ! i)), unat (a_overhead_bytes (hm_cells h ! i)))"

definition totals :: "heat_map \<Rightarrow> nat \<times> nat" where
  "totals h = (unat (hm_total_live h), unat (hm_total_live_bytes h))"

lemma heat_agrees_counters:
  "heat_agrees ov h m \<longleftrightarrow> finite (dom m) \<and> length (hm_cells h) = cell_count (hm_grid h) \<and>
     (\<forall>i < length (hm_cells h). counters h i =
        (live_sum (\<lambda>_. 1) (in_cell h i) m, live_sum (\<lambda>c. unat (c_usable c)) (in_cell h i) m,
         live_sum (\<lambda>c. unat (ov c)) (in_cell h i) m)) \<and>
     totals h = (live_sum (\<lambda>_. 1) (on_map h) m, live_sum (\<lambda>c. unat (c_usable c)) (on_map h) m)"
  by (auto simp: heat_agrees_def counters_def totals_def)

lemma agrees_change:
  assumes ag: "heat_agrees ov h m" and geo: "same_geometry h h'" and fin: "finite (dom m')"
    and cell: "\<And>i. i < length (hm_cells h) \<Longrightarrow> counters h' i =
      (live_sum (\<lambda>_. 1) (in_cell h i) m', live_sum (\<lambda>c. unat (c_usable c)) (in_cell h i) m',
       live_sum (\<lambda>c. unat (ov' c)) (in_cell h i) m')"
    and tot: "totals h' = (live_sum (\<lambda>_. 1) (on_map h) m', live_sum (\<lambda>c. unat (c_usable c)) (on_map h) m')"
  shows "heat_agrees ov' h' m'"
  using heat_agreesD(2) [OF ag] geo fin cell tot same_geometry_buckets [OF geo]
  by (simp add: heat_agrees_counters same_geometry_def)

lemma unat_plus_small: "unat a + unat b < 2 ^ LENGTH('a) \<Longrightarrow> unat ((a :: 'a::len word) + b) = unat a + unat b"
  by (simp add: unat_word_ariths)

lemma unat_ucast_usable: "unat (ucast (us :: u32) :: u64) = unat us"
proof -
  have "unat us < 2 ^ 64"
    using unat_lt_exp [of us] by simp
  then show ?thesis
    by (simp add: unsigned_ucast_eq take_bit_nat_eq_self)
qed

lemma unat_sat_sub: "unat b \<le> unat a \<Longrightarrow> unat (sat_sub a b) = unat a - unat b"
  by (simp add: sat_sub_def word_le_nat_alt unat_sub)

lemma on_alloc_agrees:
  assumes ag: "heat_agrees ov h m" and new: "\<not> live_at m k"
    and c: "c_state c = ChunkLive" "c_usable c = us" "ov c = overhead_of sz us"
    and fits: "heat_fits ov h (m(k \<mapsto> c))"
  shows "heat_agrees ov (on_alloc h k sz us ms) (m(k \<mapsto> c))"
proof -
  note D = heat_agreesD [OF ag]
  note add = live_sum_add [OF D(1) new c(1)]
  note B = fits_bounds [OF fits]
  let ?h = "on_alloc h k sz us ms"
  have geo: "same_geometry h ?h"
    by (auto simp: on_alloc_def same_geometry_def Let_def split: option.splits)
  show ?thesis
  proof (cases "cell_for h k")
    case None
    then have "?h = h" "in_cell h i k = False" "on_map h k = False" for i
      by (simp_all add: on_alloc_def in_cell_def on_map_def)
    then show ?thesis
      using ag add by (intro agrees_change [OF ag geo]) (auto simp: heat_agrees_counters)
  next
    case (Some j)
    have j: "j < length (hm_cells h)"
      using Some by (rule cell_for_less)
    have P: "in_cell h i k \<longleftrightarrow> i = j" "on_map h k" for i
      using Some by (auto simp: in_cell_def on_map_def)
    show ?thesis
    proof (rule agrees_change [OF ag geo])
      show "finite (dom (m(k \<mapsto> c)))"
        using D(1) by simp
      show "counters ?h i = (live_sum (\<lambda>_. 1) (in_cell h i) (m(k \<mapsto> c)),
          live_sum (\<lambda>c. unat (c_usable c)) (in_cell h i) (m(k \<mapsto> c)), live_sum (\<lambda>c. unat (ov c)) (in_cell h i) (m(k \<mapsto> c)))"
        if i: "i < length (hm_cells h)" for i
        using B(1) [of "in_cell h i"] B(2) [of "in_cell h i"] B(3) [of i] D(3-5) [OF i] i P c(2,3) Some
        unfolding add
        by (cases "i = j") (simp_all add: counters_def on_alloc_def Let_def unat_plus_small unat_ucast_usable)
      show "totals ?h = (live_sum (\<lambda>_. 1) (on_map h) (m(k \<mapsto> c)), live_sum (\<lambda>c. unat (c_usable c)) (on_map h) (m(k \<mapsto> c)))"
        using B(1) [of "on_map h"] B(2) [of "on_map h"] D(6,7) P(2) c(2) Some
        unfolding add by (simp add: totals_def on_alloc_def Let_def unat_plus_small unat_ucast_usable)
    qed
  qed
qed


lemma on_free_agrees:
  assumes ag: "heat_agrees ov h m" and k: "m k = Some c" "c_state c = ChunkLive" "ov c = overhead_of (c_size c) (c_usable c)"
    and c': "c_state c' \<noteq> ChunkLive"
  shows "heat_agrees ov (on_free h k (c_size c) (c_usable c) ms) (m(k \<mapsto> c'))"
proof -
  note D = heat_agreesD [OF ag]
  note rem = live_sum_remove [OF D(1) k(1,2) c', symmetric]
  let ?h = "on_free h k (c_size c) (c_usable c) ms"
  have geo: "same_geometry h ?h"
    by (auto simp: on_free_def same_geometry_def Let_def split: option.splits)
  show ?thesis
  proof (cases "cell_for h k")
    case None
    then have "?h = h" "in_cell h i k = False" "on_map h k = False" for i
      by (simp_all add: on_free_def in_cell_def on_map_def)
    then show ?thesis
      using ag rem by (intro agrees_change [OF ag geo]) (auto simp: heat_agrees_counters)
  next
    case (Some j)
    have j: "j < length (hm_cells h)"
      using Some by (rule cell_for_less)
    have P: "in_cell h i k \<longleftrightarrow> i = j" "on_map h k" for i
      using Some by (auto simp: in_cell_def on_map_def)
    have pos: "a_n_live (hm_cells h ! j) > 0" "hm_total_live h > 0"
      using D(3) [OF j] D(6) rem [of "\<lambda>_. 1" "in_cell h j"] rem [of "\<lambda>_. 1" "on_map h"] P
      by (simp_all add: word_less_nat_alt)
    have one: "unat (a_n_live (hm_cells h ! j) - 1) = unat (a_n_live (hm_cells h ! j)) - 1"
      "unat (hm_total_live h - 1) = unat (hm_total_live h) - 1"
      using pos by (simp_all add: unat_minus_one word_neq_0_conv)
    show ?thesis
    proof (rule agrees_change [OF ag geo])
      show "finite (dom (m(k \<mapsto> c')))"
        using D(1) by simp
      show "counters ?h i = (live_sum (\<lambda>_. 1) (in_cell h i) (m(k \<mapsto> c')),
          live_sum (\<lambda>c. unat (c_usable c)) (in_cell h i) (m(k \<mapsto> c')), live_sum (\<lambda>c. unat (ov c)) (in_cell h i) (m(k \<mapsto> c')))"
        if i: "i < length (hm_cells h)" for i
        using D(3-5) [OF i] rem [of _ "in_cell h i"] P(1) [of i] k(3) Some pos one i
        by (cases "i = j") (simp_all add: counters_def on_free_def Let_def unat_sat_sub unat_ucast_usable)
      show "totals ?h = (live_sum (\<lambda>_. 1) (on_map h) (m(k \<mapsto> c')), live_sum (\<lambda>c. unat (c_usable c)) (on_map h) (m(k \<mapsto> c')))"
        using D(6,7) rem [of _ "on_map h"] P(2) Some pos one
        by (simp add: totals_def on_free_def Let_def unat_sat_sub unat_ucast_usable)
    qed
  qed
qed

text \<open>A correction swaps one record's charge; the counters other than the overhead stay.\<close>

lemma live_sum_cong:
  assumes "\<And>k c. m k = Some c \<Longrightarrow> m' k = Some (f k c) \<and> (c_state (f k c) = ChunkLive \<longleftrightarrow> c_state c = ChunkLive) \<and> w' (f k c) = w c"
    and "dom m' = dom m"
  shows "live_sum w' P m' = live_sum w P m"
  unfolding live_sum_def assms(2)
  by (rule sum.cong) (use assms(1) in \<open>force simp: contrib_def\<close>)+

lemma live_sum_swap:
  assumes "finite (dom m)" "m k = Some c" "c_state c = ChunkLive" "c_state c' = ChunkLive"
  shows "live_sum w P (m(k \<mapsto> c')) + (if P k then w c else 0) = live_sum w P m + (if P k then w c' else 0)"
  using live_sum_upd [OF assms(1), of w P k "Some c'"] assms(2-4) by (simp add: contrib_def)

lemma refine_agrees:
  assumes ag: "heat_agrees ov h m" and k: "m k = Some c" "c_state c = ChunkLive"
    and c': "c_state c' = ChunkLive" "c_usable c' = c_usable c"
    and fits: "heat_fits ov h (m(k \<mapsto> c'))"
  shows "heat_agrees ov (snd (refine_overhead h k (ov c) (ov c'))) (m(k \<mapsto> c'))"
proof -
  note D = heat_agreesD [OF ag]
  note swap = live_sum_swap [OF D(1) k c'(1)]
  note B = fits_bounds(3) [OF fits]
  let ?h = "snd (refine_overhead h k (ov c) (ov c'))"
  have geo: "same_geometry h ?h"
    by (auto simp: refine_overhead_def same_geometry_def Let_def split: option.splits)
  have keep: "live_sum (\<lambda>_. 1) P (m(k \<mapsto> c')) = live_sum (\<lambda>_. 1) P m"
    "live_sum (\<lambda>c. unat (c_usable c)) P (m(k \<mapsto> c')) = live_sum (\<lambda>c. unat (c_usable c)) P m" for P
    using swap [of "\<lambda>_. 1" P] swap [of "\<lambda>c. unat (c_usable c)" P] c'(2) by (simp_all split: if_splits)
  show ?thesis
  proof (cases "cell_for h k")
    case None
    then have "?h = h" "in_cell h i k = False" for i
      by (simp_all add: refine_overhead_def in_cell_def)
    moreover have "live_sum (\<lambda>c. unat (ov c)) (in_cell h i) (m(k \<mapsto> c')) = live_sum (\<lambda>c. unat (ov c)) (in_cell h i) m" for i
      using swap [of "\<lambda>c. unat (ov c)" "in_cell h i"] calculation(2) by simp
    ultimately show ?thesis
      using ag keep by (intro agrees_change [OF ag geo]) (auto simp: heat_agrees_counters)
  next
    case (Some j)
    have P: "in_cell h i k \<longleftrightarrow> i = j" for i
      using Some by (auto simp: in_cell_def)
    show ?thesis
    proof (rule agrees_change [OF ag geo])
      show "finite (dom (m(k \<mapsto> c')))"
        using D(1) by simp
      show "counters ?h i = (live_sum (\<lambda>_. 1) (in_cell h i) (m(k \<mapsto> c')),
          live_sum (\<lambda>c. unat (c_usable c)) (in_cell h i) (m(k \<mapsto> c')), live_sum (\<lambda>c. unat (ov c)) (in_cell h i) (m(k \<mapsto> c')))"
        if i: "i < length (hm_cells h)" for i
      proof (cases "i = j")
        case False
        then show ?thesis
          using D(3-5) [OF i] keep swap [of "\<lambda>c. unat (ov c)" "in_cell h i"] P [of i] Some
          by (simp add: counters_def refine_overhead_def Let_def)
      next
        case True
        let ?o = "a_overhead_bytes (hm_cells h ! i)"
        have s: "live_sum (\<lambda>c. unat (ov c)) (in_cell h i) (m(k \<mapsto> c')) + unat (ov c) = unat ?o + unat (ov c')"
          using swap [of "\<lambda>c. unat (ov c)" "in_cell h i"] P [of i] True D(5) [OF i] by simp
        have "unat (ov c) \<le> live_sum (\<lambda>c. unat (ov c)) (in_cell h i) m"
          using live_sum_upd [OF D(1), of "\<lambda>c. unat (ov c)" "in_cell h i" k None] k P [of i] True by (simp add: contrib_def)
        then have le: "unat (ov c) \<le> unat ?o"
          using D(5) [OF i] by simp
        have "unat (sat_sub ?o (ov c) + ov c') = unat ?o - unat (ov c) + unat (ov c')"
          using B [of i] s le by (subst unat_plus_small) (simp_all add: unat_sat_sub)
        then show ?thesis
          using D(3,4) [OF i] keep s le Some True i by (simp add: counters_def refine_overhead_def Let_def)
      qed
      show "totals ?h = (live_sum (\<lambda>_. 1) (on_map h) (m(k \<mapsto> c')), live_sum (\<lambda>c. unat (c_usable c)) (on_map h) (m(k \<mapsto> c')))"
        using D(6,7) keep Some by (simp add: totals_def refine_overhead_def Let_def)
    qed
  qed
qed


section \<open>The rebuild\<close>

definition approx :: "chunk \<Rightarrow> u32" where
  "approx c = overhead_of (c_size c) (c_usable c)"

lemma entries_snoc:
  assumes "distinct (map c_key (filter occ (xs @ [c])))"
  shows "entries (xs @ [c]) = (if occ c then (entries xs)(c_key c \<mapsto> c) else entries xs)"
    and "occ c \<Longrightarrow> entries xs (c_key c) = None"
proof -
  show none: "entries xs (c_key c) = None" if "occ c"
    using assms that by (auto simp: entries_def map_of_eq_None_iff)
  show "entries (xs @ [c]) = (if occ c then (entries xs)(c_key c \<mapsto> c) else entries xs)"
    using none by (auto simp: entries_def map_add_def fun_eq_iff split: option.splits)
qed

lemma finite_entries [simp]: "finite (dom (entries xs))"
  by (simp add: entries_def finite_dom_map_of)

lemma heat_fits_mono:
  assumes fits: "heat_fits ov h (m(k \<mapsto> c))" and fin: "finite (dom m)" and new: "m k = None"
  shows "heat_fits ov h m"
proof -
  have "live_sum w P m \<le> live_sum w P (m(k \<mapsto> c))" for w P
    using live_sum_upd [OF fin, of w P k "Some c"] new by (simp add: contrib_def)
  moreover have "card (dom m) \<le> card (dom (m(k \<mapsto> c)))"
    using fin by (intro card_mono) auto
  ultimately show ?thesis
    using fits unfolding heat_fits_def by (meson le_less_trans)
qed

lemma nth_upd: "i < length xs \<Longrightarrow> xs[j := x] ! i = (if j = i then x else xs ! i)"
  by auto

lemma aggregate_reorder:
  "(a :: cell_aggregate)\<lparr>a_last_alloc_ms := x, a_n_live := n, a_live_bytes := b, a_overhead_bytes := v\<rparr> =
    a\<lparr>a_n_live := n, a_live_bytes := b, a_overhead_bytes := v, a_last_alloc_ms := x\<rparr>"
  by (cases a) simp

lemma rebuild_chunk_agrees:
  assumes ag: "heat_agrees approx h m" and c: "occ c" "m (c_key c) = None" and fits: "heat_fits approx h (m(c_key c \<mapsto> c))"
  shows "heat_agrees approx (rebuild_chunk c h) (m(c_key c \<mapsto> c))"
proof -
  note D = heat_agreesD [OF ag]
  let ?h = "rebuild_chunk c h" and ?k = "c_key c"
  have geo: "same_geometry h ?h"
    by (auto simp: rebuild_chunk_def same_geometry_def Let_def split: option.splits)
  have cf: "cell_for h ?k = Option.bind (coordinate_of h ?k) (index_of (hm_grid h))"
    using index_of_less D(2) by (fastforce simp: cell_for_def split: option.splits)
  have nl: "\<not> live_at m ?k"
    using c(2) by (simp add: live_at_def)
  show ?thesis
  proof (cases "c_state c = ChunkLive")
    case True
    let ?a = "on_alloc h ?k (c_size c) (c_usable c) (c_alloc_ms c)"
    have "?h = ?a"
    proof (cases "coordinate_of h ?k")
      case None
      then show ?thesis
        using True by (simp add: rebuild_chunk_def on_alloc_def cf)
    next
      case (Some co)
      then show ?thesis
        using True by (cases "index_of (hm_grid h) co") (simp_all add: rebuild_chunk_def on_alloc_def cf Let_def aggregate_reorder)
    qed
    then show ?thesis
      using on_alloc_agrees [OF ag nl True refl _ fits] by (simp add: approx_def)
  next
    case False
    have "counters ?h i = counters h i" if "i < length (hm_cells h)" for i
      using False that by (auto simp: rebuild_chunk_def counters_def Let_def nth_upd split: option.splits)
    moreover have "totals ?h = totals h"
      using False by (auto simp: rebuild_chunk_def totals_def Let_def split: option.splits)
    ultimately show ?thesis
      using ag live_sum_skip [OF D(1) nl False] by (intro agrees_change [OF ag geo]) (auto simp: heat_agrees_counters)
  qed
qed

lemma rebuild_fold_agrees:
  assumes "distinct (map c_key (filter occ xs))" and "heat_agrees approx h Map.empty" and "heat_fits approx h (entries xs)"
  shows "heat_agrees approx (fold rebuild_chunk xs h) (entries xs) \<and> same_geometry h (fold rebuild_chunk xs h)"
  using assms
proof (induction xs rule: rev_induct)
  case Nil
  then show ?case by (simp add: entries_def same_geometry_def)
next
  case (snoc c xs)
  have d: "distinct (map c_key (filter occ xs))"
    using snoc.prems(1) by simp
  note es = entries_snoc [OF snoc.prems(1)]
  have step_geo: "same_geometry h' (rebuild_chunk c h')" for h'
    by (auto simp: rebuild_chunk_def same_geometry_def Let_def split: option.splits)
  show ?case
  proof (cases "occ c")
    case False
    then show ?thesis
      using snoc.IH [OF d snoc.prems(2)] snoc.prems(3) es by (simp add: rebuild_chunk_def occ_def)
  next
    case True
    have ent: "entries (xs @ [c]) = (entries xs)(c_key c \<mapsto> c)"
      using es(1) True by simp
    have IH: "heat_agrees approx (fold rebuild_chunk xs h) (entries xs)" "same_geometry h (fold rebuild_chunk xs h)"
      using snoc.IH [OF d snoc.prems(2)] heat_fits_mono [OF snoc.prems(3) [unfolded ent]] es(2) True by auto
    have "heat_fits approx (fold rebuild_chunk xs h) ((entries xs)(c_key c \<mapsto> c))"
      unfolding same_geometry_buckets(3) [OF IH(2)] ent [symmetric] by (rule snoc.prems(3))
    from rebuild_chunk_agrees [OF IH(1) True es(2) [OF True] this]
    have "heat_agrees approx (fold rebuild_chunk (xs @ [c]) h) (entries (xs @ [c]))"
      unfolding ent by simp
    moreover have "same_geometry h (fold rebuild_chunk (xs @ [c]) h)"
      using IH(2) step_geo [of "fold rebuild_chunk xs h"] by (simp add: same_geometry_def)
    ultimately show ?thesis by blast
  qed
qed

lemma rebuild_agrees:
  assumes ok: "ct_ok t" and len: "length (hm_cells h) = cell_count (hm_grid h)" and fits: "heat_fits approx h (ct_map t)"
  shows "heat_agrees approx (heat_rebuild h t) (ct_map t)" "same_geometry h (heat_rebuild h t)"
proof -
  let ?h = "h\<lparr>hm_rebuilds := hm_rebuilds h + 1, hm_cells := map (\<lambda>_. kEmptyAggregate) (hm_cells h),
                hm_total_live_bytes := 0, hm_total_live := 0\<rparr>"
  have geo: "same_geometry h ?h"
    by (simp add: same_geometry_def)
  have empty: "heat_agrees approx ?h Map.empty"
    using len by (simp add: heat_agrees_def kEmptyAggregate_def)
  show "heat_agrees approx (heat_rebuild h t) (ct_map t)"
  proof (cases "g_valid (hm_grid h)")
    case True
    then show ?thesis
      using rebuild_fold_agrees [OF rh_keys_distinct [OF ct_okD(3) [OF ok]] empty] fits same_geometry_buckets(3) [OF geo]
      by (simp add: heat_rebuild_def Let_def ct_map_def)
  next
    case False
    then have off: "cell_for ?h k = None" for k
      by (simp add: cell_for_def index_of_def split: option.splits)
    then have "in_cell ?h i k = False" "on_map ?h k = False" for i k
      by (simp_all add: in_cell_def on_map_def)
    then have "live_sum w (in_cell ?h i) (ct_map t) = 0" "live_sum w (on_map ?h) (ct_map t) = 0" for w i
      by (simp_all add: live_sum_def contrib_def split: option.splits)
    then show ?thesis
      using False len by (simp add: heat_rebuild_def Let_def heat_agrees_def kEmptyAggregate_def ct_map_def)
  qed
  have "same_geometry ?h (fold rebuild_chunk xs ?h)" for xs
    by (induction xs rule: rev_induct)
      (auto simp: same_geometry_def rebuild_chunk_def Let_def split: option.splits)
  then show "same_geometry h (heat_rebuild h t)"
    by (simp add: heat_rebuild_def Let_def same_geometry_def)
qed

end
