(* ===== verification/Heat_Properties.thy ===== *)
theory Heat_Properties
  imports Heat_Agreement
begin

text \<open>
  Properties of the heat map of \<^verbatim>\<open>tui/heatmap.cpp\<close>: what a rebuild counts, and what a cell shows as the
  clock moves.
\<close>

section \<open>Sums over the live records of a cell\<close>

lemma live_sum_set:
  assumes "finite (dom m)"
  shows "live_sum w P m = (\<Sum>k | live_at m k \<and> P k. w (the (m k)))"
proof -
  have "live_sum w P m = (\<Sum>k \<in> dom m. if live_at m k \<and> P k then w (the (m k)) else 0)"
    unfolding live_sum_def by (rule sum.cong) (auto simp: contrib_def live_at_def)
  also have "\<dots> = (\<Sum>k \<in> dom m \<inter> {k. live_at m k \<and> P k}. w (the (m k)))"
    using assms by (simp add: sum.inter_restrict)
  also have "dom m \<inter> {k. live_at m k \<and> P k} = {k. live_at m k \<and> P k}"
    by (auto simp: live_at_def)
  finally show ?thesis .
qed

lemma on_free_cells:
  assumes "cell_for h ptr = Some i"
  shows "length (hm_cells (on_free h ptr sz us now)) = length (hm_cells h)"
    "hm_timings (on_free h ptr sz us now) = hm_timings h"
    "j \<noteq> i \<Longrightarrow> hm_cells (on_free h ptr sz us now) ! j = hm_cells h ! j"
    "a_last_free_ms (hm_cells (on_free h ptr sz us now) ! i) = bump (a_last_free_ms (hm_cells h ! i)) now"
    "a_last_alloc_ms (hm_cells (on_free h ptr sz us now) ! i) = a_last_alloc_ms (hm_cells h ! i)"
  using assms cell_for_less [OF assms] by (auto simp: on_free_def Let_def)

lemma on_alloc_cells:
  assumes "cell_for h ptr = Some i"
  shows "length (hm_cells (on_alloc h ptr sz us now)) = length (hm_cells h)"
    "hm_timings (on_alloc h ptr sz us now) = hm_timings h"
    "j \<noteq> i \<Longrightarrow> hm_cells (on_alloc h ptr sz us now) ! j = hm_cells h ! j"
    "a_last_free_ms (hm_cells (on_alloc h ptr sz us now) ! i) = a_last_free_ms (hm_cells h ! i)"
    "a_last_alloc_ms (hm_cells (on_alloc h ptr sz us now) ! i) = bump (a_last_alloc_ms (hm_cells h ! i)) now"
  using assms cell_for_less [OF assms] by (auto simp: on_alloc_def Let_def)

lemma bump_latest: "slot = kNoTime \<or> slot \<le> value \<Longrightarrow> bump slot value = value"
  by (auto simp: bump_def)

lemma within_after: "stamp \<noteq> kNoTime \<Longrightarrow> within stamp (stamp + d) window \<longleftrightarrow> d < window"
  by (simp add: within_def)

lemma within_no_time: "\<not> within kNoTime now window"
  by (simp add: within_def)

definition demo_grid :: grid where
  "demo_grid = \<lparr>g_base = 0, g_end = 256, g_cell_bytes = 64, g_log2_cell_bytes = 6, g_cols = 2, g_rows = 2, g_valid = True\<rparr>"

definition demo_heat :: heat_map where
  "demo_heat = heat_map_new\<lparr>hm_grid := demo_grid, hm_cells := replicate 4 kEmptyAggregate\<rparr>"

section \<open>Properties\<close>



text \<open>
  A free flashes its own cell and no other, for exactly the configured window and also when the
  32-bit clock wraps: at any delay \<open>d\<close> after it the cell is \<open>RecentFree\<close> precisely when \<open>d\<close> is below
  \<open>free_flash_ms\<close>, whatever the cell held and whatever was allocated there before. Afterwards a cell with
  no recent allocation settles to live, overhead or empty by its counters alone.
\<close>

theorem free_flash_window:
  assumes "cell_for h ptr = Some i" and "now \<noteq> kNoTime"
    and "a_last_free_ms (hm_cells h ! i) = kNoTime \<or> a_last_free_ms (hm_cells h ! i) \<le> now"
  shows "(state_at (on_free h ptr sz us now) i (now + d) = CellRecentFree \<longleftrightarrow> d < free_flash_ms (hm_timings h)) \<and>
    (\<forall>j t. j \<noteq> i \<longrightarrow> state_at (on_free h ptr sz us now) j t = state_at h j t) \<and>
    (a_last_alloc_ms (hm_cells h ! i) = kNoTime \<and> free_flash_ms (hm_timings h) \<le> d \<longrightarrow>
       state_at (on_free h ptr sz us now) i (now + d) =
         (let a = heat_at (on_free h ptr sz us now) i in
          if 0 < a_n_live a then CellLive else if 0 < a_overhead_bytes a then CellOverhead else CellEmpty))"
proof -
  note C = on_free_cells [OF assms(1)]
  have i: "i < length (hm_cells h)"
    using assms(1) by (rule cell_for_less)
  have stamp: "a_last_free_ms (hm_cells (on_free h ptr sz us now) ! i) = now"
    using assms(3) by (simp add: C bump_latest)
  show ?thesis
    using i by (auto simp: state_at_def heat_at_def C(1-3,5) cell_state_def stamp within_after [OF assms(2)] Let_def assms(2) within_no_time)
qed

theorem free_flash_window_witness:
  "state_at (on_free demo_heat 130 32 32 4294967294) 2 (4294967294 + 299) = CellRecentFree"
proof -
  have "cell_for demo_heat 130 = Some 2" "(4294967294 :: u32) \<noteq> kNoTime" "a_last_free_ms (hm_cells demo_heat ! 2) = kNoTime"
    "(299 :: u32) < free_flash_ms (hm_timings demo_heat)"
    by code_simp+
  then show ?thesis
    using free_flash_window [of demo_heat 130 2 4294967294 32 32 299] by blast
qed

end
