(* ===== verification/Snapshot_Diff.thy ===== *)
theory Snapshot_Diff
  imports Heat_Properties
begin

text \<open>
  Snapshot marks and leak candidates: \<^verbatim>\<open>tui/snapshot.h\<close> and \<^verbatim>\<open>tui/snapshot.cpp\<close>. The wall clock that labels a
  mark is an argument of \<open>snap_take\<close>: the hour, minute and second, or nothing when the clock does not answer.
\<close>

section \<open>Data\<close>

definition kLeakIntervalMs :: u32 where "kLeakIntervalMs = 250"

record leak_report =
  lr_chunks :: u64
  lr_bytes :: u64
  lr_offmap :: u64

definition leak_report_new :: leak_report where
  "leak_report_new = \<lparr>lr_chunks = 0, lr_bytes = 0, lr_offmap = 0\<rparr>"

record snapshot_diff =
  sd_report :: leak_report
  sd_cells :: "u32 list"
  sd_hot :: "u32 list"
  sd_cells_hash :: u64
  sd_taken_ms :: u32
  sd_last_ms :: u32
  sd_interval_ms :: u32
  sd_taken :: bool
  sd_diff :: bool
  sd_ran :: bool
  sd_taken_at :: string

definition snapshot_diff_new :: snapshot_diff where
  "snapshot_diff_new = \<lparr>sd_report = leak_report_new, sd_cells = [], sd_hot = [], sd_cells_hash = 0, sd_taken_ms = 0,
     sd_last_ms = 0, sd_interval_ms = kLeakIntervalMs, sd_taken = False, sd_diff = False, sd_ran = False, sd_taken_at = []\<rparr>"

section \<open>Keys\<close>

definition reset_cells :: "snapshot_diff \<Rightarrow> nat \<Rightarrow> snapshot_diff" where
  "reset_cells s n = s\<lparr>sd_cells := (if length (sd_cells s) \<noteq> n then replicate n 0 else map (\<lambda>_. 0) (sd_cells s)),
     sd_hot := [], sd_cells_hash := 0\<rparr>"

definition two_digits :: "nat \<Rightarrow> string" where
  "two_digits n = (if n < 10 then CHR ''0'' # dec_string n else dec_string n)"

definition snap_take :: "snapshot_diff \<Rightarrow> (nat \<times> nat \<times> nat) option \<Rightarrow> u32 \<Rightarrow> snapshot_diff" where
  "snap_take s clock now_ms =
     (let s1 = s\<lparr>sd_taken_ms := now_ms, sd_taken := True,
                sd_taken_at := (case clock of None \<Rightarrow> []
                  | Some (h, m, sec) \<Rightarrow> two_digits h @ '':'' @ two_digits m @ '':'' @ two_digits sec),
                sd_report := leak_report_new\<rparr>
      in (reset_cells s1 (length (sd_cells s1)))\<lparr>sd_ran := False\<rparr>)"

definition snap_clear :: "snapshot_diff \<Rightarrow> snapshot_diff" where
  "snap_clear s =
     (let s1 = s\<lparr>sd_taken := False, sd_diff := False, sd_taken_ms := 0, sd_taken_at := [], sd_report := leak_report_new\<rparr>
      in (reset_cells s1 (length (sd_cells s1)))\<lparr>sd_ran := False\<rparr>)"

definition snap_toggle :: "snapshot_diff \<Rightarrow> bool \<times> snapshot_diff" where
  "snap_toggle s =
     (if \<not> sd_taken s then (False, s)
      else (let s1 = s\<lparr>sd_diff := \<not> sd_diff s\<rparr>;
                s2 = (if sd_diff s1 then s1\<lparr>sd_ran := False\<rparr>
                      else (let s1' = s1\<lparr>sd_report := leak_report_new\<rparr> in reset_cells s1' (length (sd_cells s1'))))
            in (sd_diff s2, s2)))"

definition snap_cell_count :: "snapshot_diff \<Rightarrow> nat \<Rightarrow> u32" where
  "snap_cell_count s i = (if i < length (sd_cells s) then sd_cells s ! i else 0)"

section \<open>The pass\<close>

definition snap_step :: "heat_map \<Rightarrow> chunk \<Rightarrow> snapshot_diff \<Rightarrow> snapshot_diff" where
  "snap_step map' c s =
     (if c_state c \<noteq> ChunkLive \<or> c_key c = 0 then s
      else if c_alloc_ms c < sd_taken_ms s then s
      else
        (let r = sd_report s;
             r1 = r\<lparr>lr_chunks := lr_chunks r + 1, lr_bytes := lr_bytes r + ucast (c_usable c)\<rparr>;
             offmap = s\<lparr>sd_report := r1\<lparr>lr_offmap := lr_offmap r1 + 1\<rparr>\<rparr>
         in case coordinate_of map' (c_key c) of
              None \<Rightarrow> offmap
            | Some coord \<Rightarrow>
                (case index_of (hm_grid map') coord of
                   None \<Rightarrow> offmap
                 | Some idx \<Rightarrow>
                     if idx \<ge> length (sd_cells s) then offmap
                     else s\<lparr>sd_report := r1, sd_cells := (sd_cells s)[idx := sd_cells s ! idx + 1],
                            sd_hot := (if sd_cells s ! idx = 0 then sd_hot s @ [of_nat idx] else sd_hot s)\<rparr>)))"

definition fnv1a :: "u32 list \<Rightarrow> u64" where
  "fnv1a cells = fold (\<lambda>c h. (h XOR ucast c) * 1099511628211) cells 1469598103934665603"

definition snap_analyze :: "snapshot_diff \<Rightarrow> chunk_table \<Rightarrow> heat_map \<Rightarrow> u32 \<Rightarrow> bool \<Rightarrow> bool \<times> snapshot_diff" where
  "snap_analyze s table map' now_ms force =
     (if \<not> sd_diff s \<or> \<not> sd_taken s then (False, s)
      else
        (let due = (\<not> sd_ran s \<or> force \<or> now_ms - sd_last_ms s \<ge> sd_interval_ms s)
         in if \<not> due then (False, s)
            else
              (let s1 = s\<lparr>sd_last_ms := now_ms, sd_ran := True\<rparr>;
                   prev = sd_report s1;
                   prev_hash = sd_cells_hash s1;
                   s2 = reset_cells (s1\<lparr>sd_report := leak_report_new\<rparr>) (length (hm_cells map'));
                   s3 = fold (snap_step map') (ct_slots table) s2;
                   h = fnv1a (sd_cells s3);
                   s4 = s3\<lparr>sd_cells_hash := h\<rparr>;
                   r = sd_report s4
               in (h \<noteq> prev_hash \<or> lr_chunks r \<noteq> lr_chunks prev \<or> lr_bytes r \<noteq> lr_bytes prev \<or>
                     lr_offmap r \<noteq> lr_offmap prev, s4))))"

section \<open>What a pass counts\<close>

definition candidate :: "u32 \<Rightarrow> chunk \<Rightarrow> bool" where
  "candidate mark c \<longleftrightarrow> c_state c = ChunkLive \<and> c_key c \<noteq> 0 \<and> mark \<le> c_alloc_ms c"

definition count :: "('a \<Rightarrow> bool) \<Rightarrow> 'a list \<Rightarrow> nat" where
  "count P xs = length (filter P xs)"

lemma count_simps [simp]: "count P [] = 0" "count P (x # xs) = (if P x then Suc (count P xs) else count P xs)"
  by (simp_all add: count_def)

lemma count_le: "count P xs \<le> length xs"
  by (simp add: count_def)

text \<open>The overlay lists exactly the cells that hold a candidate, each once.\<close>

definition hot_ok :: "snapshot_diff \<Rightarrow> bool" where
  "hot_ok s \<longleftrightarrow> distinct (sd_hot s) \<and> set (sd_hot s) = of_nat ` {i. i < length (sd_cells s) \<and> sd_cells s ! i \<noteq> 0}"

lemma snap_step_effect:
  assumes "length (sd_cells s) = length (hm_cells h)" and "candidate (sd_taken_ms s) c"
  shows "snap_step h c s =
    (case cell_for h (c_key c) of
       None \<Rightarrow> s\<lparr>sd_report := (sd_report s)\<lparr>lr_chunks := lr_chunks (sd_report s) + 1,
                 lr_bytes := lr_bytes (sd_report s) + ucast (c_usable c), lr_offmap := lr_offmap (sd_report s) + 1\<rparr>\<rparr>
     | Some i \<Rightarrow> s\<lparr>sd_report := (sd_report s)\<lparr>lr_chunks := lr_chunks (sd_report s) + 1,
                 lr_bytes := lr_bytes (sd_report s) + ucast (c_usable c)\<rparr>,
                 sd_cells := (sd_cells s)[i := sd_cells s ! i + 1],
                 sd_hot := (if sd_cells s ! i = 0 then sd_hot s @ [of_nat i] else sd_hot s)\<rparr>)"
  using assms by (auto simp: snap_step_def candidate_def cell_for_def Let_def not_less split: option.splits)

lemma snap_step_skip: "\<not> candidate (sd_taken_ms s) c \<Longrightarrow> snap_step h c s = s"
  by (auto simp: snap_step_def candidate_def not_le)

definition overlay_inv :: "heat_map \<Rightarrow> u32 \<Rightarrow> chunk list \<Rightarrow> snapshot_diff \<Rightarrow> bool" where
  "overlay_inv h mark seen s \<longleftrightarrow> sd_taken_ms s = mark \<and> length (sd_cells s) = length (hm_cells h) \<and> hot_ok s \<and>
     lr_chunks (sd_report s) = of_nat (count (candidate mark) seen) \<and>
     lr_offmap (sd_report s) = of_nat (count (\<lambda>c. candidate mark c \<and> cell_for h (c_key c) = None) seen) \<and>
     (\<forall>i < length (sd_cells s). sd_cells s ! i = of_nat (count (\<lambda>c. candidate mark c \<and> cell_for h (c_key c) = Some i) seen))"

lemma count_append [simp]: "count P (xs @ ys) = count P xs + count P ys"
  by (simp add: count_def)

lemma of_nat_inj32: "i < 2 ^ 32 \<Longrightarrow> j < 2 ^ 32 \<Longrightarrow> (of_nat i :: u32) = of_nat j \<longleftrightarrow> i = j"
proof -
  assume lt: "i < 2 ^ 32" "j < 2 ^ 32"
  have u: "unat (of_nat i :: u32) = i" "unat (of_nat j :: u32) = j"
    using lt by (intro unat_of_nat_small; simp)+
  show ?thesis
    using u arg_cong [of "of_nat i :: u32" "of_nat j" unat] by metis
qed

lemma hot_ok_bump:
  assumes hot: "hot_ok s" and i: "i < length (sd_cells s)" and len: "length (sd_cells s) < 2 ^ 32" and nz: "sd_cells s ! i + 1 \<noteq> 0"
  shows "hot_ok (s\<lparr>sd_report := r, sd_cells := (sd_cells s)[i := sd_cells s ! i + 1],
      sd_hot := (if sd_cells s ! i = 0 then sd_hot s @ [of_nat i] else sd_hot s)\<rparr>)"
proof -
  let ?hot = "\<lambda>cs :: u32 list. {j. j < length cs \<and> cs ! j \<noteq> 0}"
  have set': "?hot ((sd_cells s)[i := sd_cells s ! i + 1]) = insert i (?hot (sd_cells s))"
    using i nz by (auto simp: nth_list_update)
  show ?thesis
  proof (cases "sd_cells s ! i = 0")
    case True
    have "of_nat i \<notin> set (sd_hot s)"
      using hot True len i by (auto simp: hot_ok_def of_nat_inj32)
    then show ?thesis
      using hot True set' by (simp add: hot_ok_def)
  next
    case False
    then have "insert i (?hot (sd_cells s)) = ?hot (sd_cells s)"
      using i by auto
    then show ?thesis
      using hot False set' by (simp add: hot_ok_def)
  qed
qed

lemma overlay_step:
  assumes inv: "overlay_inv h mark seen s" and len: "length seen < 2 ^ 32 - 1" "length (hm_cells h) < 2 ^ 32"
  shows "overlay_inv h mark (seen @ [c]) (snap_step h c s)"
proof (cases "candidate mark c")
  case False
  then show ?thesis
    using inv snap_step_skip [of s c h] by (simp add: overlay_inv_def)
next
  case True
  note I = inv [unfolded overlay_inv_def]
  note E = snap_step_effect [of s h c]
  show ?thesis
  proof (cases "cell_for h (c_key c)")
    case None
    then show ?thesis
      using True I E by (simp add: overlay_inv_def hot_ok_def add.commute)
  next
    case (Some i)
    let ?P = "\<lambda>c. candidate mark c \<and> cell_for h (c_key c) = Some i"
    have i: "i < length (sd_cells s)"
      using Some I by (auto simp: cell_for_def split: option.splits if_splits)
    have "count ?P seen \<le> length seen"
      by (rule count_le)
    then have "Suc (count ?P seen) < 2 ^ 32"
      using len(1) by simp
    then have "unat (of_nat (Suc (count ?P seen)) :: u32) \<noteq> 0"
      using unat_of_nat_small [of "Suc (count ?P seen)", where 'a=32] by simp
    moreover have "sd_cells s ! i + 1 = of_nat (Suc (count ?P seen))"
      using I i by (simp add: add.commute)
    ultimately have nz: "sd_cells s ! i + 1 \<noteq> 0"
      using unat_0 by metis
    show ?thesis
      using True I E Some hot_ok_bump [OF _ i _ nz] len(2)
      by (auto simp: overlay_inv_def nth_list_update add.commute)
  qed
qed

lemma overlay_fold:
  assumes "overlay_inv h mark seen s" "length seen + length cs < 2 ^ 32" "length (hm_cells h) < 2 ^ 32"
  shows "overlay_inv h mark (seen @ cs) (fold (snap_step h) cs s)"
  using assms
proof (induction cs arbitrary: seen s)
  case (Cons c cs)
  have "overlay_inv h mark (seen @ [c]) (snap_step h c s)"
    using Cons.prems by (intro overlay_step) simp_all
  from Cons.IH [OF this] Cons.prems show ?case by simp
qed simp

section \<open>Properties\<close>



end
