(* ===== verification/Heap_Walker.thy ===== *)
theory Heap_Walker
  imports Chunk_Reader Proc_Maps
begin

text \<open>
  Recovering the live set of a process that was never instrumented: \<^verbatim>\<open>tui/heap_walker.h\<close> and
  \<^verbatim>\<open>tui/heap_walker.cpp\<close>. The system call behind \<open>read_block\<close> is a parameter \<open>rd\<close>: given the number of
  the call, an address and a length it returns the bytes it read, or an error code. Two calls may see
  different memory, since the target keeps running.
\<close>

section \<open>Data\<close>

definition kWalkBlockBytes :: u64 where "kWalkBlockBytes = 256 * 1024"
definition kMaxChunksPerRegion :: u64 where "kMaxChunksPerRegion = push_bit 20 4"
definition kMaxBlocksPerRegion :: nat where "kMaxBlocksPerRegion = 8192"
definition kWalkMinChunk :: u64 where "kWalkMinChunk = 32"
definition kWalkAlign :: u64 where "kWalkAlign = 16"
definition kMinChainProbe :: nat where "kMinChainProbe = 4"
definition kMaxProbeBytes :: nat where "kMaxProbeBytes = 8 * 1024"

record walked_chunk =
  wc_user_ptr :: u64
  wc_chunk_size :: u64
  wc_usable :: u64

datatype walk_status = WalkOk | WalkDenied | WalkTargetGone | WalkFailed

definition walk_status_str :: "walk_status \<Rightarrow> string" where
  "walk_status_str s = (case s of WalkOk \<Rightarrow> ''ok'' | WalkDenied \<Rightarrow> ''ptrace denied''
     | WalkTargetGone \<Rightarrow> ''target exited'' | WalkFailed \<Rightarrow> ''read failed'')"

record walk_result =
  wr_status :: walk_status
  wr_chunks :: u64
  wr_bytes :: u64
  wr_free_chunks :: u64
  wr_free_bytes :: u64
  wr_opaque_bytes :: u64
  wr_truncated :: bool

definition walk_result_new :: walk_result where
  "walk_result_new = \<lparr>wr_status = WalkOk, wr_chunks = 0, wr_bytes = 0, wr_free_chunks = 0, wr_free_bytes = 0,
     wr_opaque_bytes = 0, wr_truncated = False\<rparr>"

record heap_walker =
  hw_pid :: int
  hw_denied :: bool
  hw_gone :: bool
  hw_reads :: nat
  hw_blocks :: nat
  hw_cursor_start :: u64

definition heap_walker_new :: "int \<Rightarrow> heap_walker" where
  "heap_walker_new pid = \<lparr>hw_pid = pid, hw_denied = False, hw_gone = False, hw_reads = 0, hw_blocks = 0, hw_cursor_start = 0\<rparr>"

definition walker_available :: "heap_walker \<Rightarrow> bool" where
  "walker_available w \<longleftrightarrow> \<not> hw_denied w"

definition walker_hint :: "heap_walker \<Rightarrow> string option" where
  "walker_hint w =
     (if hw_denied w then Some ''cannot read this process: raise ptrace_scope or grant cap_sys_ptrace''
      else if hw_gone w then Some ''target exited: heap frozen'' else None)"

section \<open>Reading\<close>

datatype block_result = BlockError errno | Block "u8 list"

type_synonym block_reader = "nat \<Rightarrow> u64 \<Rightarrow> nat \<Rightarrow> block_result"

definition read_block :: "block_reader \<Rightarrow> heap_walker \<Rightarrow> u64 \<Rightarrow> nat \<Rightarrow> block_result \<times> heap_walker" where
  "read_block rd w addr len =
     (let w1 = w\<lparr>hw_reads := hw_reads w + 1\<rparr>;
          n = rd (hw_reads w) addr len
      in (n, case n of Block _ \<Rightarrow> w1
             | BlockError e \<Rightarrow>
                 (case e of EPERM \<Rightarrow> w1\<lparr>hw_denied := True\<rparr> | EACCES \<Rightarrow> w1\<lparr>hw_denied := True\<rparr>
                  | ESRCH \<Rightarrow> w1\<lparr>hw_gone := True\<rparr> | EFAULT \<Rightarrow> w1 | EOther \<Rightarrow> w1)))"

text \<open>\<^verbatim>\<open>memcpy\<close> of a 64-bit word out of the block, on a little-endian machine.\<close>

fun le_word :: "u8 list \<Rightarrow> u64" where
  "le_word [] = 0"
| "le_word (b # bs) = ucast b OR push_bit 8 (le_word bs)"

definition load_u64 :: "u8 list \<Rightarrow> nat \<Rightarrow> u64" where
  "load_u64 block off = le_word (take 8 (drop off block))"

definition size_of_field :: "u64 \<Rightarrow> u64" where
  "size_of_field size_field = size_field AND NOT 7"

section \<open>Finding the chain\<close>

function score_chain :: "u8 list \<Rightarrow> nat \<Rightarrow> u64 \<Rightarrow> nat \<Rightarrow> nat" where
  "score_chain block off region_span n =
     (if off + 16 \<le> length block \<and> n < 64
      then (let size = size_of_field (load_u64 block (off + 8))
            in if size < kWalkMinChunk \<or> size AND (kWalkAlign - 1) \<noteq> 0 \<or> size > region_span then n
               else score_chain block (off + unat size) region_span (n + 1))
      else n)"
  by pat_completeness auto
termination
  by (relation "measure (\<lambda>(block, off, region_span, n). 64 - n)") auto

declare score_chain.simps [simp del]

function probe_loop :: "u8 list \<Rightarrow> u64 \<Rightarrow> nat \<Rightarrow> nat \<Rightarrow> nat \<Rightarrow> nat \<Rightarrow> nat \<times> nat" where
  "probe_loop block region_span limit off best_off best_score =
     (if off + 16 \<le> limit
      then (let score = score_chain block off region_span 0
            in if score > best_score
               then (if score \<ge> 64 then (off, score)
                     else probe_loop block region_span limit (off + 16) off score)
               else probe_loop block region_span limit (off + 16) best_off best_score)
      else (best_off, best_score))"
  by pat_completeness auto
termination
  by (relation "measure (\<lambda>(block, region_span, limit, off, best_off, best_score). limit - off)") auto

declare probe_loop.simps [simp del]

definition find_chain_start :: "u8 list \<Rightarrow> u64 \<Rightarrow> nat option" where
  "find_chain_start block region_span =
     (let avail = length block;
          limit = (if avail < kMaxProbeBytes then avail else kMaxProbeBytes)
      in case probe_loop block region_span limit 0 0 0 of
           (best_off, best_score) \<Rightarrow> if best_score \<ge> kMinChainProbe then Some best_off else None)"

section \<open>Following the chain\<close>

text \<open>What the walk of one region carries: the output, the summary, the count and the chunk awaiting its verdict.\<close>

record walk_acc =
  wa_out :: "walked_chunk list"
  wa_sum :: walk_result
  wa_found :: u64
  wa_prev :: "(u64 \<times> u64) option"

definition walked :: "u64 \<Rightarrow> u64 \<Rightarrow> walked_chunk" where
  "walked addr sz = \<lparr>wc_user_ptr = addr + 16, wc_chunk_size = sz, wc_usable = sz - 8\<rparr>"

text \<open>The verdict on the previous chunk; the flag says that the ceiling on chunks was reached.\<close>

definition judge :: "bool \<Rightarrow> walk_acc \<Rightarrow> bool \<times> walk_acc" where
  "judge prev_in_use a =
     (case wa_prev a of
        None \<Rightarrow> (False, a)
      | Some (addr, sz) \<Rightarrow>
          if prev_in_use
          then (let c = walked addr sz;
                    s = wa_sum a;
                    s1 = s\<lparr>wr_chunks := wr_chunks s + 1, wr_bytes := wr_bytes s + wc_usable c\<rparr>;
                    a1 = a\<lparr>wa_out := wa_out a @ [c], wa_sum := s1, wa_found := wa_found a + 1\<rparr>
                in if wa_found a1 \<ge> kMaxChunksPerRegion
                   then (True, a1\<lparr>wa_sum := s1\<lparr>wr_truncated := True\<rparr>\<rparr>)
                   else (False, a1\<lparr>wa_prev := None\<rparr>))
          else (let s = wa_sum a
                in (False, a\<lparr>wa_sum := s\<lparr>wr_free_chunks := wr_free_chunks s + 1, wr_free_bytes := wr_free_bytes s + sz\<rparr>,
                             wa_prev := None\<rparr>)))"

definition bad_header :: "u64 \<Rightarrow> u64 \<Rightarrow> u64 \<Rightarrow> u64 \<Rightarrow> bool" where
  "bad_header start end' here sz \<longleftrightarrow>
     sz < kWalkMinChunk \<or> sz AND (kWalkAlign - 1) \<noteq> 0 \<or> here + sz > end' \<or> sz > end' - start"

lemma good_header_size: "\<not> bad_header start end' here sz \<Longrightarrow> 32 \<le> unat sz"
  by (auto simp: bad_header_def kWalkMinChunk_def word_less_nat_alt not_less)

function walk_block :: "u64 \<Rightarrow> u64 \<Rightarrow> u64 \<Rightarrow> u8 list \<Rightarrow> nat \<Rightarrow> walk_acc \<Rightarrow> bool \<times> nat \<times> walk_acc" where
  "walk_block start end' cursor block off a =
     (if off + 16 \<le> length block
      then (let size_field = load_u64 block (off + 8);
                size = size_of_field size_field;
                here = cursor + of_nat off;
                (full, a1) = judge (size_field AND 1 \<noteq> 0) a
            in if full then (False, off, a1)
               else if bad_header start end' here size then (False, off, a1)
               else walk_block start end' cursor block (off + unat size) (a1\<lparr>wa_prev := Some (here, size)\<rparr>))
      else (True, off, a))"
  by pat_completeness auto
termination
  by (relation "measure (\<lambda>(start, end', cursor, block, off, a). length block - off)") (auto dest!: good_header_size)

declare walk_block.simps [simp del]

function walk_blocks ::
    "block_reader \<Rightarrow> u64 \<Rightarrow> u64 \<Rightarrow> nat \<Rightarrow> u64 \<Rightarrow> walk_acc \<Rightarrow> heap_walker \<Rightarrow> walk_acc \<times> heap_walker" where
  "walk_blocks rd start end' blocks cursor a w =
     (if cursor + 16 \<le> end'
      then (if blocks + 1 > kMaxBlocksPerRegion
            then (a\<lparr>wa_sum := (wa_sum a)\<lparr>wr_truncated := True\<rparr>\<rparr>, w)
            else
              (let remaining = end' - cursor;
                   want = unat (if remaining < kWalkBlockBytes then remaining else kWalkBlockBytes)
               in case read_block rd w cursor want of
                    (BlockError e, w1) \<Rightarrow> (a, w1)
                  | (Block block, w1) \<Rightarrow>
                      if block = [] then (a, w1)
                      else
                        (let w2 = w1\<lparr>hw_blocks := hw_blocks w1 + 1\<rparr>
                         in case walk_block start end' cursor block 0 a of
                              (block_ok, off, a1) \<Rightarrow>
                                if \<not> block_ok \<or> off = 0 then (a1, w2)
                                else walk_blocks rd start end' (blocks + 1) (cursor + of_nat off) a1 w2)))
      else (a, w))"
  by pat_completeness auto
termination
  by (relation "measure (\<lambda>(rd, start, end', blocks, cursor, a, w). kMaxBlocksPerRegion - blocks)") auto

declare walk_blocks.simps [simp del]

definition walk_region ::
    "block_reader \<Rightarrow> heap_walker \<Rightarrow> region \<Rightarrow> walked_chunk list \<Rightarrow> walk_result \<Rightarrow>
     bool \<times> walked_chunk list \<times> walk_result \<times> heap_walker" where
  "walk_region rd w r out smry =
     (let start = r_start r; end' = r_end r
      in if end' \<le> start \<or> end' - start < kWalkMinChunk then (False, out, smry, w)
         else
           (let span = end' - start;
                probe_len = unat (if span < kWalkBlockBytes then span else kWalkBlockBytes)
            in case read_block rd w start probe_len of
                 (BlockError e, w1) \<Rightarrow> (False, out, smry, w1)
               | (Block block, w1) \<Rightarrow>
                   if block = [] then (False, out, smry, w1)
                   else (case find_chain_start block span of
                           None \<Rightarrow> (False, out, smry, w1)
                         | Some off \<Rightarrow>
                             (let w2 = w1\<lparr>hw_cursor_start := start + of_nat off\<rparr>
                              in case walk_blocks rd start end' 0 (hw_cursor_start w2)
                                        \<lparr>wa_out = out, wa_sum = smry, wa_found = 0, wa_prev = None\<rparr> w2 of
                                   (a, w3) \<Rightarrow> (wa_found a > 0, wa_out a, wa_sum a, w3)))))"

definition accounted :: "region \<Rightarrow> walked_chunk list \<Rightarrow> u64" where
  "accounted r out = sum_list (map wc_chunk_size (filter (\<lambda>c. wc_user_ptr c \<ge> r_start r \<and> wc_user_ptr c < r_end r) out))"

fun walk_regions ::
    "block_reader \<Rightarrow> region list \<Rightarrow> walked_chunk list \<Rightarrow> walk_result \<Rightarrow> heap_walker \<Rightarrow>
     walk_result \<times> walked_chunk list \<times> heap_walker" where
  "walk_regions rd [] out smry w = (smry, out, w)"
| "walk_regions rd (r # rs) out smry w =
     (if \<not> allocatable r then walk_regions rd rs out smry w
      else if r_perms r AND kPermRead = 0 then walk_regions rd rs out smry w
      else (case walk_region rd w r out smry of
              (chained, out1, smry1, w1) \<Rightarrow>
                if hw_denied w1 then (smry1\<lparr>wr_status := WalkDenied\<rparr>, out1, w1)
                else if hw_gone w1 then (smry1\<lparr>wr_status := WalkTargetGone\<rparr>, out1, w1)
                else
                  (let acc = accounted r out1;
                       span = r_end r - r_start r;
                       more = (if chained then (if span > acc then span - acc else 0) else span)
                   in walk_regions rd rs out1 (smry1\<lparr>wr_opaque_bytes := wr_opaque_bytes smry1 + more\<rparr>) w1)))"

definition walker_walk :: "block_reader \<Rightarrow> heap_walker \<Rightarrow> region list \<Rightarrow> walk_result \<times> walked_chunk list \<times> heap_walker" where
  "walker_walk rd w regions =
     (let smry = walk_result_new
      in if hw_denied w then (smry\<lparr>wr_status := WalkDenied\<rparr>, [], w)
         else if hw_gone w then (smry\<lparr>wr_status := WalkTargetGone\<rparr>, [], w)
         else walk_regions rd regions [] smry w)"

end
