(* ===== verification/Heap_App.thy ===== *)
theory Heap_App
  imports Session Metrics Screen_Layout Inspector Snapshot_Diff Fragmentation Heap_Walker
begin

text \<open>
  The application (\<^verbatim>\<open>src/tui/heap_app.h\<close>, \<^verbatim>\<open>heap_app.cpp\<close>): the state of an attached session and the
  callbacks the event loop drives it with. Drawing is in \<open>App_Draw\<close>. What a frame learns from the
  operating system is an argument, the record \<open>frame_env\<close>.

  The heat map holds a pointer to the region map of the application. A repack changes both: \<open>sync_regions\<close>
  writes the new layout through the pointer.
\<close>

section \<open>State\<close>

definition kMaxEventsPerFrame :: u32 where "kMaxEventsPerFrame = 32768"
definition kEnrichPerPass :: nat where "kEnrichPerPass = 512"
definition kEnrichIntervalMs :: u32 where "kEnrichIntervalMs = 250"
definition kInteractiveExitMs :: u32 where "kInteractiveExitMs = 3000"
definition kSnapshotIntervalMs :: u32 where "kSnapshotIntervalMs = 250"
definition kSnapshotDutyFactor :: u32 where "kSnapshotDutyFactor = 8"

datatype session_state = SessLive | SessExited | SessDetached

record heap_app =
  ha_session :: ring_session
  ha_unicode :: bool
  ha_table :: chunk_table
  ha_map :: heat_map
  ha_grid :: grid
  ha_scanner :: maps_scanner
  ha_regions :: region_map
  ha_reader :: chunk_reader
  ha_cursor :: map_cursor
  ha_inspect :: inspector
  ha_metrics :: metrics
  ha_frag :: frag_analyzer
  ha_snap :: snapshot_diff
  ha_staged :: "hv_event list"
  ha_staged_head :: nat
  ha_enrich_out :: "chunk_info list"
  ha_enrich_cursor :: nat
  ha_enrich_last_ms :: u32
  ha_refined :: u64
  ha_exact_overhead :: u64
  ha_walker :: "heap_walker option"
  ha_walk :: walk_result
  ha_walked :: "walked_chunk list"
  ha_walk_last_ms :: u32
  ha_walk_cost_ms :: u32
  ha_walk_interval_ms :: u32
  ha_walked_once :: bool
  ha_snapshot_mode :: bool
  ha_origin_ns :: u64
  ha_now_ms :: u32
  ha_exited_ms :: u32
  ha_launch_log :: string
  ha_launch_argv0 :: string
  ha_exit_note :: string
  ha_events :: u64
  ha_frees_unknown :: u64
  ha_dropped_at_attach :: u64
  ha_live :: u64
  ha_live_bytes :: u64
  ha_bounds :: addr_range
  ha_hidden_regions :: int
  ha_state :: session_state
  ha_width :: int
  ha_height :: int
  ha_geometry_dirty :: bool
  ha_paused :: bool
  ha_help_visible :: bool
  ha_reset_loop_stats :: bool
  ha_animations :: bool
  ha_quit :: bool
  ha_layout :: app_layout

definition clamp_u32 :: "u64 \<Rightarrow> u32" where
  "clamp_u32 v = (if v > 0xFFFFFFFF then 0xFFFFFFFF else ucast v)"

definition heap_app_with :: "ring_session \<Rightarrow> bool \<Rightarrow> bool \<Rightarrow> u64 \<Rightarrow> chunk_table \<Rightarrow> heap_app" where
  "heap_app_with session unicode animations monotonic_ns table =
      \<lparr>ha_session = session, ha_unicode = unicode, ha_table = table, ha_map = heat_map_new, ha_grid = grid_new,
       ha_scanner = maps_scanner_new (rs_pid session), ha_regions = region_map_new, ha_reader = chunk_reader_new (rs_pid session),
       ha_cursor = map_cursor_new, ha_inspect = inspector_new, ha_metrics = metrics_new, ha_frag = frag_analyzer_new,
       ha_snap = snapshot_diff_new, ha_staged = [], ha_staged_head = 0, ha_enrich_out = replicate kEnrichPerPass no_info,
       ha_enrich_cursor = 0, ha_enrich_last_ms = 0, ha_refined = 0, ha_exact_overhead = 0, ha_walker = None,
       ha_walk = walk_result_new, ha_walked = [], ha_walk_last_ms = 0, ha_walk_cost_ms = 0,
       ha_walk_interval_ms = kSnapshotIntervalMs, ha_walked_once = False, ha_snapshot_mode = False,
       ha_origin_ns = monotonic_ns, ha_now_ms = 0, ha_exited_ms = 0, ha_launch_log = [], ha_launch_argv0 = [],
       ha_exit_note = [], ha_events = 0, ha_frees_unknown = 0,
       ha_dropped_at_attach = (if attached session then session_dropped session else 0),
       ha_live = 0, ha_live_bytes = 0, ha_bounds = \<lparr>ar_base = 0, ar_end = 0\<rparr>, ha_hidden_regions = 0,
       ha_state = (if attached session then SessLive else SessDetached), ha_width = 0, ha_height = 0,
       ha_geometry_dirty = True, ha_paused = False, ha_help_visible = False, ha_reset_loop_stats = False,
       ha_animations = animations, ha_quit = False, ha_layout = app_layout_new\<rparr>"

definition heap_app_new :: "ring_session \<Rightarrow> bool \<Rightarrow> bool \<Rightarrow> u64 \<Rightarrow> heap_app option" where
  "heap_app_new session unicode animations monotonic_ns =
     map_option (\<lambda>(_, table). heap_app_with session unicode animations monotonic_ns table)
       (reserve (chunk_table_new 1024) (2 ^ 16))"

section \<open>Events\<close>

definition event_ms :: "heap_app \<Rightarrow> u64 \<Rightarrow> u32" where
  "event_ms a timestamp_ns =
     (if timestamp_ns \<le> ha_origin_ns a then 0 else clamp_u32 ((timestamp_ns - ha_origin_ns a) div 1000000))"

definition min_u64 :: "u64 \<Rightarrow> u64 \<Rightarrow> u64" where
  "min_u64 x y = (if y < x then y else x)"

definition apply_free :: "heap_app \<Rightarrow> hv_event \<Rightarrow> u32 \<Rightarrow> heap_app" where
  "apply_free a e ms =
     (case find (ha_table a) (ev_ptr e) of
        Some i \<Rightarrow>
          (let c = ct_slots (ha_table a) ! i;
               m1 = (if c_flags c AND kChunkFlagRefined \<noteq> 0
                     then snd (refine_overhead (ha_map a) (ev_ptr e) (ucast (c_overhead_exact c)) (overhead_of (c_size c) (c_usable c)))
                     else ha_map a);
               a1 = (if c_state c = ChunkLive
                     then a\<lparr>ha_live := (if ha_live a \<noteq> 0 then ha_live a - 1 else ha_live a),
                            ha_live_bytes := ha_live_bytes a - min_u64 (ha_live_bytes a) (ucast (c_usable c))\<rparr>
                     else a)
           in a1\<lparr>ha_map := on_free m1 (ev_ptr e) (c_size c) (c_usable c) ms,
                 ha_table := snd (mark_freed (ha_table a) (ev_ptr e) ms)\<rparr>)
      | None \<Rightarrow>
          a\<lparr>ha_frees_unknown := ha_frees_unknown a + 1,
            ha_map := on_free (ha_map a) (ev_ptr e) (ev_usable e) (ev_usable e) ms\<rparr>)"

definition apply_alloc :: "heap_app \<Rightarrow> hv_event \<Rightarrow> u32 \<Rightarrow> heap_app option" where
  "apply_alloc a e ms =
     (let sz = clamp_u32 (ev_size e);
          a1 = (case find (ha_table a) (ev_ptr e) of
                  None \<Rightarrow> a\<lparr>ha_live := ha_live a + 1\<rparr>
                | Some i \<Rightarrow>
                    (let prev = ct_slots (ha_table a) ! i
                     in if c_state prev \<noteq> ChunkLive then a\<lparr>ha_live := ha_live a + 1\<rparr>
                        else a\<lparr>ha_live_bytes := ha_live_bytes a - min_u64 (ha_live_bytes a) (ucast (c_usable prev))\<rparr>));
          a2 = a1\<lparr>ha_live_bytes := ha_live_bytes a1 + ucast (ev_usable e),
                  ha_metrics := metrics_on_alloc (ha_metrics a1) (ucast (ev_usable e)),
                  ha_map := on_alloc (ha_map a1) (ev_ptr e) sz (ev_usable e) ms\<rparr>
      in map_option (\<lambda>(_, t). a2\<lparr>ha_table := t\<rparr>)
           (insert_live (ha_table a) (ev_ptr e) sz (ev_usable e) ms (hv_event_get_tid e)))"

definition apply_event :: "heap_app \<Rightarrow> hv_event \<Rightarrow> heap_app option" where
  "apply_event a e =
     (let ms = event_ms a (ev_timestamp e);
          a1 = a\<lparr>ha_scanner := note_address (ha_scanner a) (ev_ptr e)\<rparr>
      in if ev_op e AND HV_OP_MASK = opcode_value HV_OP_FREE then Some (apply_free a1 e ms) else apply_alloc a1 e ms)"

fun apply_events :: "hv_event list \<Rightarrow> heap_app \<Rightarrow> heap_app option" where
  "apply_events [] a = Some a"
| "apply_events (e # es) a = Option.bind (apply_event a e) (apply_events es)"

definition staged_events :: "heap_app \<Rightarrow> nat" where
  "staged_events a = length (ha_staged a) - ha_staged_head a"

definition replay_staged :: "heap_app \<Rightarrow> (u32 \<times> heap_app) option" where
  "replay_staged a =
     (let waiting = staged_events a
      in if waiting = 0 then Some (0, a)
         else
           (let n = min waiting (unat kMaxEventsPerFrame)
            in map_option (\<lambda>a1.
                 (let h = ha_staged_head a1 + n
                  in (of_nat n, if h = length (ha_staged a1) then a1\<lparr>ha_staged := [], ha_staged_head := 0\<rparr>
                                else a1\<lparr>ha_staged_head := h\<rparr>)))
               (apply_events (take n (drop (ha_staged_head a) (ha_staged a))) a)))"

definition app_drain :: "heap_app \<Rightarrow> (u32 \<times> heap_app) option" where
  "app_drain a =
     (if \<not> attached (ha_session a) then Some (0, a)
      else if ha_paused a then
        (case session_drain (ha_session a) kMaxEventsPerFrame of
           (batch, s') \<Rightarrow> Some (0, a\<lparr>ha_session := s', ha_staged := ha_staged a @ batch\<rparr>))
      else do {
        (applied, a1) \<leftarrow> replay_staged a;
        (applied', a2) \<leftarrow>
          (if applied < kMaxEventsPerFrame \<and> ha_staged a1 = [] then
             (case session_drain (ha_session a1) (kMaxEventsPerFrame - applied) of
                (batch, s') \<Rightarrow>
                  map_option (\<lambda>a2. (applied + of_nat (length batch), a2)) (apply_events batch (a1\<lparr>ha_session := s'\<rparr>)))
           else Some (applied, a1));
        Some (applied', a2\<lparr>ha_events := ha_events a2 + ucast applied'\<rparr>)
      })"

section \<open>Geometry\<close>

definition sync_regions :: "heap_app \<Rightarrow> heap_app" where
  "sync_regions a = a\<lparr>ha_map := (ha_map a)\<lparr>hm_regions := map_option (\<lambda>_. ha_regions a) (hm_regions (ha_map a))\<rparr>\<rparr>"

definition repack :: "heap_app \<Rightarrow> bool \<times> heap_app" where
  "repack a =
     (case region_map_rebuild (ha_regions a) (ms_regions (ha_scanner a)) of
        (moved, rm) \<Rightarrow>
          (moved, (sync_regions (a\<lparr>ha_regions := rm\<rparr>))\<lparr>ha_hidden_regions := 0,
             ha_bounds := (if rm_spans rm = [] then \<lparr>ar_base = 0, ar_end = 0\<rparr> else \<lparr>ar_base = 0, ar_end = rm_total rm\<rparr>)\<rparr>))"

definition refit :: "heap_app \<Rightarrow> heap_app" where
  "refit a =
     (let a1 = a\<lparr>ha_map := (ha_map a)\<lparr>hm_regions := Some (ha_regions a)\<rparr>\<rparr>;
          g1 = snd (grid_set_bounds (ha_grid a1) (ar_base (ha_bounds a1)) (ar_end (ha_bounds a1)));
          (fits, g2) = fit_grid g1 (al_map (ha_layout a1)) (ha_unicode a1) (al_legend (ha_layout a1));
          a2 = a1\<lparr>ha_grid := g2\<rparr>
      in if \<not> fits then a2
         else
           (let (reconfigured, m) = heat_configure (ha_map a2) (ha_grid a2);
                a3 = (if reconfigured
                      then a2\<lparr>ha_map := heat_rebuild m (ha_table a2), ha_table := clear_refined (ha_table a2),
                              ha_refined := 0, ha_exact_overhead := 0\<rparr>
                      else a2\<lparr>ha_map := m\<rparr>)
            in a3\<lparr>ha_cursor := snd (cursor_refit (ha_cursor a3) (ha_grid a3)), ha_geometry_dirty := False\<rparr>))"

definition resized :: "heap_app \<Rightarrow> int \<Rightarrow> int \<Rightarrow> heap_app" where
  "resized a w h =
     (let a1 = a\<lparr>ha_width := w, ha_height := h, ha_layout := solve_layout w h, ha_geometry_dirty := True\<rparr>
      in if \<not> ar_empty (ha_bounds a1) then refit a1 else a1)"

section \<open>Exact overhead\<close>

fun enrich_collect :: "chunk list \<Rightarrow> nat \<Rightarrow> nat \<Rightarrow> chunk list \<Rightarrow> nat \<times> chunk list" where
  "enrich_collect recs 0 cursor picked = (cursor, picked)"
| "enrich_collect recs (Suc left) cursor picked =
     (if length picked \<ge> kEnrichPerPass then (cursor, picked)
      else
        (let c = recs ! cursor;
             cursor' = (cursor + 1) mod length recs
         in if c_state c \<noteq> ChunkLive \<or> c_flags c AND kChunkFlagRefined \<noteq> 0 \<or> c_key c = 0 \<or> c_size c = 0
            then enrich_collect recs left cursor' picked
            else enrich_collect recs left cursor' (picked @ [c])))"

definition header_flags :: "chunk_info \<Rightarrow> u8" where
  "header_flags info = (if ci_mmapped info then kChunkFlagMmapped else 0) OR (if ci_non_main_arena info then kChunkFlagNonMain else 0)"

definition enrich_one :: "chunk \<times> chunk_info \<Rightarrow> bool \<times> heap_app \<Rightarrow> bool \<times> heap_app" where
  "enrich_one = (\<lambda>(c, info) (changed, a).
     if \<not> ci_valid info then (changed, a)
     else
       (let (marked, t) = mark_refined (ha_table a) (c_key c) (ci_overhead info) (header_flags info)
        in if \<not> marked then (changed, a)
           else
             (let a1 = a\<lparr>ha_table := t, ha_refined := ha_refined a + 1, ha_exact_overhead := ha_exact_overhead a + ucast (ci_overhead info)\<rparr>;
                  (folded, m) = refine_overhead (ha_map a1) (c_key c) (overhead_of (c_size c) (c_usable c)) (ci_overhead info)
              in (if folded then True else changed, a1\<lparr>ha_map := m\<rparr>))))"

definition enrich :: "(nat \<Rightarrow> u64 list \<Rightarrow> readv_result) \<Rightarrow> heap_app \<Rightarrow> u32 \<Rightarrow> bool \<times> heap_app" where
  "enrich rd a now_ms =
     (if ha_snapshot_mode a then (False, a)
      else if \<not> reader_available (ha_reader a) \<or> ha_state a \<noteq> SessLive then (False, a)
      else if now_ms - ha_enrich_last_ms a < kEnrichIntervalMs then (False, a)
      else
        (let a1 = a\<lparr>ha_enrich_last_ms := now_ms\<rparr>;
             recs = ct_slots (ha_table a1)
         in if length recs = 0 then (False, a1)
            else
              (let (cursor, picked) = enrich_collect recs (length recs) (ha_enrich_cursor a1) [];
                   a2 = a1\<lparr>ha_enrich_cursor := cursor\<rparr>
               in if picked = [] then (False, a2)
                  else
                    (case reader_read rd (ha_reader a2) (map c_key picked) (Some (map (ucast \<circ> c_size) picked)) (ha_enrich_out a2) of
                       (st, out, r) \<Rightarrow>
                         (let a3 = a2\<lparr>ha_reader := r, ha_enrich_out := out\<rparr>
                          in if st = RdDenied \<or> st = RdTargetGone then (True, a3)
                             else fold enrich_one (zip picked out) (False, a3))))))"

section \<open>Snapshot mode\<close>

definition enable_snapshots :: "heap_app \<Rightarrow> heap_app" where
  "enable_snapshots a = a\<lparr>ha_snapshot_mode := True, ha_walker := Some (heap_walker_new (rs_pid (ha_session a))),
     ha_state := SessLive, ha_metrics := set_cumulative_known (ha_metrics a) False,
     ha_inspect := (ha_inspect a)\<lparr>in_first_seen := True\<rparr>\<rparr>"

definition first_seen :: "chunk_table \<Rightarrow> u32 \<Rightarrow> walked_chunk \<Rightarrow> u32" where
  "first_seen t now_ms c =
     (case find t (wc_user_ptr c) of None \<Rightarrow> now_ms
      | Some i \<Rightarrow> if c_state (ct_slots t ! i) = ChunkLive then c_alloc_ms (ct_slots t ! i) else now_ms)"

fun insert_walked :: "(walked_chunk \<times> u32) list \<Rightarrow> heap_app \<Rightarrow> heap_app option" where
  "insert_walked [] a = Some a"
| "insert_walked ((c, ms) # cs) a =
     (let usable = clamp_u32 (wc_usable c)
      in Option.bind (insert_live (ha_table a) (wc_user_ptr c) usable usable ms 0)
           (\<lambda>(_, t). insert_walked cs
              (a\<lparr>ha_table := t, ha_live := ha_live a + 1, ha_live_bytes := ha_live_bytes a + wc_usable c\<rparr>)))"

definition max_u32 :: "u32 \<Rightarrow> u32 \<Rightarrow> u32" where
  "max_u32 x y = (if x < y then y else x)"

definition snapshot :: "block_reader \<Rightarrow> u64 \<Rightarrow> u64 \<Rightarrow> heap_app \<Rightarrow> u32 \<Rightarrow> (bool \<times> heap_app) option" where
  "snapshot rd began_ns ended_ns a now_ms =
     (if \<not> ha_snapshot_mode a then Some (False, a)
      else case ha_walker a of
        None \<Rightarrow> Some (False, a)
      | Some walker \<Rightarrow>
          if ha_state a \<noteq> SessLive \<or> ha_paused a then Some (False, a)
          else if ha_walked_once a \<and> now_ms - ha_walk_last_ms a < ha_walk_interval_ms a then Some (False, a)
          else
            (case walker_walk rd walker (ms_regions (ha_scanner a)) of
               (r, found, walker') \<Rightarrow>
                 (let a1 = a\<lparr>ha_walk_last_ms := now_ms, ha_walked_once := True, ha_walker := Some walker',
                             ha_walked := found, ha_walk := r\<rparr>
                  in if wr_status r = WalkDenied \<or> wr_status r = WalkTargetGone
                     then Some (True, a1\<lparr>ha_walk_cost_ms := 0, ha_walk_interval_ms := kSnapshotIntervalMs\<rparr>)
                     else
                       (let seen = map (first_seen (ha_table a1) now_ms) found
                        in map_option (\<lambda>a2.
                             (let cost = clamp_u32 ((ended_ns - began_ns) div 1000000)
                              in (True, a2\<lparr>ha_map := heat_rebuild (ha_map a2) (ha_table a2), ha_walk_cost_ms := cost,
                                    ha_walk_interval_ms := max_u32 kSnapshotIntervalMs (cost * kSnapshotDutyFactor)\<rparr>)))
                           (insert_walked (zip found seen)
                              (a1\<lparr>ha_table := clear (ha_table a1), ha_live := 0, ha_live_bytes := 0\<rparr>))))))"

section \<open>One frame\<close>

record frame_env =
  fe_now_ns :: u64
  fe_alive :: kill_result
  fe_maps_status :: scan_status
  fe_maps_text :: string
  fe_blocks :: block_reader
  fe_walk_began :: u64
  fe_walk_ended :: u64
  fe_headers :: "nat \<Rightarrow> u64 list \<Rightarrow> readv_result"
  fe_log :: "string option"

definition build_exit_note :: "string option \<Rightarrow> heap_app \<Rightarrow> heap_app" where
  "build_exit_note log a =
     (if ha_launch_log a = [] then a\<lparr>ha_exit_note := []\<rparr>
      else if ha_exited_ms a \<noteq> 0 \<and> ha_exited_ms a < kInteractiveExitMs
      then a\<lparr>ha_exit_note := ''needs a terminal? run: heapviz --instrument '' @ ha_launch_argv0 a\<rparr>
      else a\<lparr>ha_exit_note := last_output_line (ha_launch_log a) log\<rparr>)"

definition set_launch :: "heap_app \<Rightarrow> string \<Rightarrow> string \<Rightarrow> heap_app" where
  "set_launch a output_path argv0 = a\<lparr>ha_launch_log := output_path, ha_launch_argv0 := argv0\<rparr>"

definition note_exit :: "frame_env \<Rightarrow> heap_app \<Rightarrow> bool \<times> heap_app" where
  "note_exit env a =
     (if ha_state a = SessLive \<and>
         (session_producer_exited (ha_session a) \<or> \<not> process_alive (rs_pid (ha_session a)) (fe_alive env))
      then (True, build_exit_note (fe_log env) (a\<lparr>ha_state := SessExited, ha_exited_ms := ha_now_ms a\<rparr>))
      else (False, a))"

definition rescan_maps :: "frame_env \<Rightarrow> heap_app \<Rightarrow> bool \<times> heap_app" where
  "rescan_maps env a =
     (if maps_due (ha_scanner a) (ha_now_ms a) then
        (let a1 = a\<lparr>ha_scanner := snd (maps_scan (ha_scanner a) (fe_maps_status env) (fe_maps_text env) (ha_now_ms a))\<rparr>;
             (moved, a2) = repack a1
         in if moved then (True, a2\<lparr>ha_geometry_dirty := True\<rparr>) else (False, a2))
      else (False, a))"

definition sample_of :: "heap_app \<Rightarrow> metrics_sample" where
  "sample_of a = \<lparr>ms_live_chunks = ha_live a, ms_live_bytes = ha_live_bytes a, ms_ring_queued = session_queued (ha_session a),
     ms_ring_capacity = session_capacity (ha_session a),
     ms_dropped = session_dropped (ha_session a) - ha_dropped_at_attach a, ms_now_ms = ha_now_ms a\<rparr>"

definition analyse :: "frame_env \<Rightarrow> bool \<Rightarrow> heap_app \<Rightarrow> bool \<times> heap_app" where
  "analyse env changed a =
     (let (enriched, a1) = enrich (fe_headers env) a (ha_now_ms a);
          changed1 = (if enriched then True else changed);
          (moved, f) = frag_analyze (ha_frag a1) (ha_table a1) (ha_regions a1) (ha_now_ms a1);
          a2 = a1\<lparr>ha_frag := f\<rparr>;
          (changed2, a3) =
            (if moved
             then (True, a2\<lparr>ha_metrics := set_largest_gap (set_fragmentation (ha_metrics a2) (fr_percent (fa_report f)))
                            (fr_largest_gap (fa_report f)) (fr_largest_gap_known (fa_report f))\<rparr>)
             else (changed1, a2));
          (leaks, s) = snap_analyze (ha_snap a3) (ha_table a3) (ha_map a3) (ha_now_ms a3) changed2;
          a4 = a3\<lparr>ha_snap := s\<rparr>;
          changed3 = (if leaks then True else changed2);
          (inspected, i) = inspector_refresh (ha_inspect a4) (ha_table a4) (ha_map a4) (ha_cursor a4) (ha_now_ms a4) changed3;
          a5 = a4\<lparr>ha_inspect := i\<rparr>;
          changed4 = (if inspected then True else changed3);
          (sampled, m) = metrics_take_sample (ha_metrics a5) (sample_of a5)
      in (if sampled then True else changed4, a5\<lparr>ha_metrics := m\<rparr>))"

definition app_update :: "frame_env \<Rightarrow> heap_app \<Rightarrow> (bool \<times> heap_app) option" where
  "app_update env a =
     (if ha_paused a then Some (False, a)
      else
        (let a0 = a\<lparr>ha_now_ms := clamp_u32 ((fe_now_ns env - ha_origin_ns a) div 1000000)\<rparr>;
             (exited, a1) = note_exit env a0;
             (moved, a2) = rescan_maps env a1
         in map_option (\<lambda>(found, a3).
              (let refitting = (ha_geometry_dirty a3 \<and> \<not> ar_empty (ha_bounds a3) \<and> ha_width a3 > 0);
                   a4 = (if refitting then refit a3 else a3)
               in analyse env (exited \<or> moved \<or> found \<or> refitting) a4))
            (snapshot (fe_blocks env) (fe_walk_began env) (fe_walk_ended env) a2 (ha_now_ms a2))))"

section \<open>Keys\<close>

definition reset_stats :: "heap_app \<Rightarrow> heap_app" where
  "reset_stats a =
     a\<lparr>ha_events := 0, ha_frees_unknown := 0, ha_dropped_at_attach := session_dropped (ha_session a),
       ha_metrics := metrics_reset (ha_metrics a) ((sample_of a)\<lparr>ms_dropped := 0\<rparr>), ha_reset_loop_stats := True\<rparr>"

definition take_stats_reset :: "heap_app \<Rightarrow> bool \<times> heap_app" where
  "take_stats_reset a = (ha_reset_loop_stats a, a\<lparr>ha_reset_loop_stats := False\<rparr>)"

definition app_animating :: "heap_app \<Rightarrow> bool" where
  "app_animating a \<longleftrightarrow> ha_animations a \<and> \<not> ha_paused a \<and> map_animating (ha_map a) (ha_now_ms a)"

definition app_key :: "(nat \<times> nat \<times> nat) option \<Rightarrow> char \<Rightarrow> heap_app \<Rightarrow> bool \<times> heap_app" where
  "app_key clock byte a =
     (if byte = CHR ''q'' then (False, a\<lparr>ha_quit := True\<rparr>)
      else if byte = CHR ''?'' then (True, a\<lparr>ha_help_visible := \<not> ha_help_visible a\<rparr>)
      else if byte = CHR '' '' \<and> (ha_state a = SessLive \<or> ha_paused a)
      then (True, a\<lparr>ha_paused := \<not> ha_paused a, ha_help_visible := False\<rparr>)
      else if byte = CHR ''r'' \<and> ha_state a \<noteq> SessDetached then (True, reset_stats a)
      else if ha_help_visible a \<or> ha_paused a then (False, a)
      else case cursor_move_for_key byte of
        Some m \<Rightarrow>
          (let (moved, cur) = cursor_move (ha_cursor a) (ha_map a) m
           in if \<not> moved then (False, a\<lparr>ha_cursor := cur\<rparr>)
              else (True, a\<lparr>ha_cursor := cur,
                     ha_inspect := snd (inspector_refresh (ha_inspect a) (ha_table a) (ha_map a) cur (ha_now_ms a) True)\<rparr>))
      | None \<Rightarrow>
          if byte = char_of (9 :: nat) then
            (let (cycled, i) = inspector_cycle (ha_inspect a) in (cycled, a\<lparr>ha_inspect := i\<rparr>))
          else if ha_state a = SessLive \<and> byte = CHR ''s'' then (True, a\<lparr>ha_snap := snap_take (ha_snap a) clock (ha_now_ms a)\<rparr>)
          else if ha_state a = SessLive \<and> byte = CHR ''S'' then (True, a\<lparr>ha_snap := snap_clear (ha_snap a)\<rparr>)
          else if ha_state a = SessLive \<and> byte = CHR ''d'' then
            (let s = snd (snap_toggle (ha_snap a)) in (sd_taken s, a\<lparr>ha_snap := s\<rparr>))
          else (False, a))"

end
