(* ===== verification/Chunk_Properties.thy ===== *)
theory Chunk_Properties
  imports Chunk_Store
begin

text \<open>
  What the chunk table promises its clients: it is a finite map for every sequence of operations,
  a cap never costs a live record, and eviction follows the order in which records were freed.
\<close>

section \<open>The table is a finite map\<close>

text \<open>
  (C5) Starting from a new table without a cap, every sequence of at most \<open>2 ^ 62\<close> insertions, frees,
  refinements, erasures and clears returns, and afterwards a lookup of any pointer yields exactly the
  record a finite map would hold after the same operations, whatever was displaced, shifted back or
  rehashed on the way.
\<close>

theorem chunk_table_is_map:
  assumes "round_capacity cap \<le> 2 ^ 63" and "length ops \<le> 2 ^ 62"
  shows "\<exists>t. run_ops table_run ops (chunk_table_new cap) = Some t \<and>
    (\<forall>key. map_option (\<lambda>i. ct_slots t ! i) (find t key) = fold map_run ops Map.empty key) \<and>
    ct_size t = card (dom (fold map_run ops Map.empty))"
proof -
  have new: "round_capacity cap \<le> 2 ^ 64"
    using assms(1) by (rule le_trans) simp
  obtain t where t: "run_ops table_run ops (chunk_table_new cap) = Some t" "uncapped_ok 0 t"
    "ct_map t = fold map_run ops (ct_map (chunk_table_new cap))"
    using chunk_map.run_refines [of 0 ops "chunk_table_new cap"] new_uncapped_ok [OF assms] by auto
  have ok: "ct_ok t"
    using t(2) table_invD(1) by (simp add: uncapped_ok_def)
  show ?thesis
    using t(1,3) find_map [OF ok] ct_size_card [OF ok] chunk_table_new_ok(2) [OF new] by simp
qed

theorem chunk_table_is_map_witness:
  "\<exists>t. run_ops table_run [OpInsert 4096 24 24 1 7, OpInsert 8192 100 104 2 7, OpFree 4096 3, OpErase 8192]
      (chunk_table_new 16) = Some t \<and>
    (\<forall>key. map_option (\<lambda>i. ct_slots t ! i) (find t key) =
      fold map_run [OpInsert 4096 24 24 1 7, OpInsert 8192 100 104 2 7, OpFree 4096 3, OpErase 8192] Map.empty key) \<and>
    ct_size t = card (dom (fold map_run
      [OpInsert 4096 24 24 1 7, OpInsert 8192 100 104 2 7, OpFree 4096 3, OpErase 8192] Map.empty))"
  using chunk_table_is_map [of 16 "[OpInsert 4096 24 24 1 7, OpInsert 8192 100 104 2 7, OpFree 4096 3, OpErase 8192]"]
  by (simp only: round_capacity_def kMinCapacity_def) simp

section \<open>Live records survive the cap\<close>

lemma card_dom_insert:
  assumes "finite (dom m)" and "m key = None"
  shows "card (dom (m(key \<mapsto> c))) = Suc (card (dom m))"
  using assms by (simp add: domIff)

lemma finite_dom_ct_map: "finite (dom (ct_map t))"
  by (simp add: ct_map_def entries_def finite_dom_map_of)

lemma insert_live_size:
  assumes inv: "table_inv t" "table_inv t'" and room: "room_from t key m" and m: "ct_map t' = m(key \<mapsto> r)"
    and size: "ct_size t \<le> ct_max_entries t" "ct_max_entries t \<noteq> 0"
  shows "ct_size t' \<le> ct_max_entries t"
proof (cases "ct_map t key")
  case (Some c)
  then have "dom (ct_map t') = dom (ct_map t)"
    using room m by (auto simp: room_from_def)
  then show ?thesis
    using size ct_size_card [OF table_invD(1) [OF inv(1)]] ct_size_card [OF table_invD(1) [OF inv(2)]] by simp
next
  case None
  then have mk: "m key = None" "finite (dom m)"
    using room finite_dom_ct_map [of t] by (auto simp: room_from_def split: if_splits)
  have s: "ct_size t' = Suc (card (dom m))"
    using ct_size_card [OF table_invD(1) [OF inv(2)]] m card_dom_insert [OF mk(2,1)] by simp
  show ?thesis
  proof (cases "ct_max_entries t \<le> ct_size t")
    case False
    then show ?thesis
      using room None s ct_size_card [OF table_invD(1) [OF inv(1)]] by (simp add: room_from_def)
  next
    case True
    then obtain k where k: "freed_rec t k" "m = (ct_map t)(k := None)"
      using room None size(2) by (auto simp: room_from_def)
    then have "k \<in> dom (ct_map t)"
      by (auto simp: freed_rec_def)
    then have "Suc (card (dom m)) = card (dom (ct_map t))"
      using k(2) card_Suc_Diff1 [OF finite_dom_ct_map, of k t] by simp
    then show ?thesis
      using s size(1) ct_size_card [OF table_invD(1) [OF inv(1)]] by simp
  qed
qed

text \<open>
  (C16) Inserting into a capped table returns, keeps the table invariant and never loses another
  record that is not freed. It is refused exactly when the pointer is new, the cap is reached and no
  record is freed; otherwise a lookup finds the new live record. A table within its cap stays within
  it.
\<close>

theorem insert_live_keeps_live:
  assumes "table_inv t" and "key \<noteq> 0" and "ct_size t < 2 ^ 62"
  shows "\<exists>ok t'. insert_live t key sz us ms td = Some (ok, t') \<and> table_inv t' \<and>
    (\<forall>k c. k \<noteq> key \<longrightarrow> ct_map t k = Some c \<longrightarrow> c_state c \<noteq> ChunkFreed \<longrightarrow> ct_map t' k = Some c) \<and>
    (ok \<longleftrightarrow> \<not> (ct_map t key = None \<and> ct_max_entries t \<noteq> 0 \<and> ct_max_entries t \<le> ct_size t \<and>
       (\<forall>k c. ct_map t k = Some c \<longrightarrow> c_state c \<noteq> ChunkFreed))) \<and>
    (ok \<longrightarrow> map_option (\<lambda>i. ct_slots t' ! i) (find t' key) = Some (live_record (ct_map t) key sz us ms td)) \<and>
    (ct_max_entries t \<noteq> 0 \<and> ct_size t \<le> ct_max_entries t \<longrightarrow> ct_size t' \<le> ct_max_entries t)"
proof -
  obtain ok t' where 1: "insert_live t key sz us ms td = Some (ok, t')" "table_inv t'"
    and 2: "if ok then \<exists>m. room_from t key m \<and> ct_map t' = m(key \<mapsto> live_record (ct_map t) key sz us ms td) \<and> ct_size t' \<le> Suc (ct_size t)
     else ct_map t key = None \<and> ct_map t' = ct_map t \<and> ct_size t' = ct_size t \<and> ct_max_entries t \<noteq> 0 \<and>
       ct_max_entries t \<le> ct_size t \<and> (\<forall>k. \<not> freed_rec t k)"
    using insert_live_correct [OF assms, of sz us ms td] by blast
  show ?thesis
  proof (cases ok)
    case False
    then show ?thesis
      using 1 2 by (intro exI [of _ False] exI [of _ t']) (auto simp: freed_rec_def)
  next
    case True
    then obtain m where m: "room_from t key m" "ct_map t' = m(key \<mapsto> live_record (ct_map t) key sz us ms td)"
      using 2 by auto
    have "ct_map t' k = Some c" if "k \<noteq> key" "ct_map t k = Some c" "c_state c \<noteq> ChunkFreed" for k c
      using m that by (auto simp: room_from_def freed_rec_def split: if_splits)
    moreover have "\<not> (ct_map t key = None \<and> ct_max_entries t \<noteq> 0 \<and> ct_max_entries t \<le> ct_size t \<and>
       (\<forall>k c. ct_map t k = Some c \<longrightarrow> c_state c \<noteq> ChunkFreed))"
      using m(1) by (auto simp: room_from_def freed_rec_def split: if_splits)
    moreover have "map_option (\<lambda>i. ct_slots t' ! i) (find t' key) = Some (live_record (ct_map t) key sz us ms td)"
      using m(2) find_map [OF table_invD(1) [OF 1(2)], of key] by simp
    ultimately show ?thesis
      using 1 True insert_live_size [OF assms(1) 1(2) m] by (intro exI [of _ True] exI [of _ t']) simp
  qed
qed

lemma small_capped_table:
  "table_inv ((chunk_table_new 16)\<lparr>ct_max_entries := 1, ct_freed_fifo := [0, 0], ct_freed_head := 0, ct_freed_tail := 0\<rparr>)"
proof -
  have "round_capacity 16 \<le> 2 ^ 63"
    by (simp add: round_capacity_def kMinCapacity_def)
  then have "table_inv (chunk_table_new 16)"
    using new_uncapped_ok [of 16 0] by (simp add: uncapped_ok_def)
  from fresh_queue_inv [OF this, of 1] show ?thesis
    by (simp add: numeral_2_eq_2)
qed

theorem insert_live_keeps_live_witness:
  "\<exists>ok t'. insert_live ((chunk_table_new 16)\<lparr>ct_max_entries := 1, ct_freed_fifo := [0, 0], ct_freed_head := 0, ct_freed_tail := 0\<rparr>) 4096 24 24 1 7 = Some (ok, t') \<and>
    table_inv t' \<and> (ct_size t' \<le> 1)"
  using insert_live_keeps_live [OF small_capped_table, of 4096 24 24 1 7]
  by (auto simp: chunk_table_new_def Let_def)

text \<open>
  Setting a cap returns, keeps every record that is not freed and evicts freed ones until the
  table fits or no freed record is left; removing the cap changes no record.
\<close>

theorem set_max_entries_evicts_freed_only:
  assumes "table_inv t"
  shows "\<exists>t'. set_max_entries t n = Some t' \<and> table_inv t' \<and> ct_max_entries t' = n \<and> ct_map t' \<subseteq>\<^sub>m ct_map t \<and>
    (\<forall>k c. ct_map t k = Some c \<longrightarrow> c_state c \<noteq> ChunkFreed \<longrightarrow> ct_map t' k = Some c) \<and>
    (n = 0 \<and> ct_map t' = ct_map t \<or>
     n \<noteq> 0 \<and> (ct_size t' \<le> n \<or> (\<forall>k c. ct_map t' k = Some c \<longrightarrow> c_state c \<noteq> ChunkFreed)))"
  using set_max_entries_correct [OF assms, of n] by (simp add: freed_rec_def)

theorem set_max_entries_evicts_freed_only_witness:
  "\<exists>t'. set_max_entries ((chunk_table_new 16)\<lparr>ct_max_entries := 1, ct_freed_fifo := [0, 0], ct_freed_head := 0, ct_freed_tail := 0\<rparr>) 3 = Some t' \<and>
    table_inv t' \<and> ct_max_entries t' = 3"
  using set_max_entries_evicts_freed_only [OF small_capped_table, of 3] by auto


section \<open>Eviction order\<close>

lemma pop_evictable_front:
  assumes inv: "table_inv t" and q: "queued t = k # ks" and fr: "freed_rec t k"
  shows "\<exists>t'. pop_evictable t = Some (True, t') \<and> ct_map t' = (ct_map t)(k := None)"
proof -
  let ?n = "length (ct_freed_fifo t)" and ?h = "ct_freed_head t"
  let ?t = "t\<lparr>ct_freed_head := (?h + 1) mod ?n\<rparr>"
  have pos: "0 < cdist ?n (ct_freed_tail t) ?h"
    using q by (cases "cdist ?n (ct_freed_tail t) ?h") (simp_all add: queued_def)
  have ne: "ct_freed_fifo t \<noteq> []"
    using pos table_invD(3) [OF inv] by (auto simp: cdist_def)
  then have h: "?h < ?n"
    using table_invD(1) [OF inv] by (simp add: ct_ok_def)
  have "?h \<noteq> ct_freed_tail t"
    using pos h by (auto simp: cdist_0_iff)
  moreover have "ct_freed_fifo t ! ?h = k"
  proof -
    have "queued t ! 0 = ct_freed_fifo t ! ?h"
      using pos h unfolding queued_def by (subst nth_map) simp_all
    then show ?thesis
      using q by simp
  qed
  moreover have ok: "ct_ok ?t"
    using set_head_ok(1) [OF table_invD(1) [OF inv] ne] ne by simp
  moreover obtain i where "find ?t k = Some i" "c_state (ct_slots t ! i) = ChunkFreed"
    using freed_rec_find [OF ok, of k] fr by (auto simp: freed_rec_def)
  moreover obtain t' where "erase ?t k = Some (ct_map ?t k \<noteq> None, t')" "ct_map t' = (ct_map ?t)(k := None)"
    using erase_correct [OF ok, of k] by blast
  moreover obtain m where "?n = Suc m"
    using ne by (cases ?n) auto
  ultimately show ?thesis
    by (simp add: pop_evictable_def Let_def)
qed

lemma pop_dry:
  assumes inv: "table_inv t" and q: "queued t = []"
  shows "\<exists>t1. pop_evictable t = Some (False, t1) \<and> ct_ok t1 \<and> ct_caps t t1 \<and> ct_map t1 = ct_map t"
proof -
  have "ct_freed_head t = ct_freed_tail t"
    using q table_invD(1,3) [OF inv] by (cases "ct_freed_fifo t = []") (auto simp: queued_def ct_ok_def cdist_0_iff)
  then show ?thesis
    using table_invD(1) [OF inv]
    by (cases "length (ct_freed_fifo t)") (auto simp: pop_evictable_def ct_caps_def)
qed

lemma freed_by_age_first:
  assumes ok: "ct_ok t" and ps: "freed_by_age (ct_slots t) = p # ps"
  shows "\<exists>c. ct_map t (snd p) = Some c \<and> c_state c = ChunkFreed \<and>
    (\<forall>k' c'. ct_map t k' = Some c' \<longrightarrow> c_state c' = ChunkFreed \<longrightarrow> c_free_ms c \<le> c_free_ms c')"
proof -
  have set: "set (freed_by_age (ct_slots t)) = (\<lambda>c. (c_free_ms c, c_key c)) ` {c \<in> set (ct_slots t). c_state c = ChunkFreed}"
    by (simp add: freed_by_age_def)
  have sorted: "sorted (freed_by_age (ct_slots t))"
    by (simp add: freed_by_age_def)
  have mem: "ct_map t k = Some c \<and> c_state c = ChunkFreed \<longleftrightarrow> c \<in> set (ct_slots t) \<and> c_state c = ChunkFreed \<and> c_key c = k" for k c
    unfolding ct_map_def entries_Some [OF ct_okD(3) [OF ok]] by (auto simp: in_set_conv_nth occ_def)
  have "p \<in> set (freed_by_age (ct_slots t))"
    using ps by simp
  then obtain c where c: "c \<in> set (ct_slots t)" "c_state c = ChunkFreed" "p = (c_free_ms c, c_key c)"
    unfolding set by auto
  have "c_free_ms c \<le> c_free_ms c'" if "ct_map t k' = Some c'" "c_state c' = ChunkFreed" for k' c'
  proof -
    have "(c_free_ms c', c_key c') \<in> set (p # ps)"
      using mem [of k' c'] that unfolding ps [symmetric] set by blast
    then have "p \<le> (c_free_ms c', c_key c')"
      using sorted ps by auto
    then show ?thesis
      using c(3) by (auto simp: less_eq_prod_def)
  qed
  then show ?thesis
    using mem [of "snd p" c] c by auto
qed

text \<open>
  When the queue has run dry and some record is freed, making room evicts a freed record that
  was freed no later than any other.
\<close>

theorem make_room_evicts_oldest:
  assumes "table_inv t" and "ct_max_entries t \<noteq> 0" and "queued t = []" and "ct_map t k = Some c" and "c_state c = ChunkFreed"
  shows "\<exists>t' k0 c0. make_room t = Some (True, t') \<and> ct_map t k0 = Some c0 \<and> c_state c0 = ChunkFreed \<and>
    c_free_ms c0 \<le> c_free_ms c \<and> ct_map t' = (ct_map t)(k0 := None)"
proof -
  note ok = table_invD(1) [OF assms(1)]
  obtain t1 where p1: "pop_evictable t = Some (False, t1)" "ct_ok t1" "ct_caps t t1" "ct_map t1 = ct_map t"
    using pop_dry [OF assms(1,3)] by blast
  have inv1: "table_inv t1" and cap1: "ct_max_entries t1 \<noteq> 0" "ct_freed_fifo t1 \<noteq> []"
    using table_inv_caps [OF assms(1) p1(2,3) assms(2)] p1(3) assms(2) table_invD(4)
    by (auto simp: ct_caps_def)
  note r = refill_correct [OF p1(2)]
  have invr: "table_inv (refill_freed_queue t1)"
    using table_inv_caps [OF inv1 r(1,3) cap1(1)] .
  have "k \<in> snd ` set (freed_by_age (ct_slots t1))"
    using freed_by_age_keys [OF p1(2)] assms(4,5) p1(4) by (simp add: freed_rec_def)
  then obtain p ps where ps: "freed_by_age (ct_slots t1) = p # ps"
    by (cases "freed_by_age (ct_slots t1)") auto
  obtain c0 where c0: "ct_map t1 (snd p) = Some c0" "c_state c0 = ChunkFreed"
    "\<forall>k' c'. ct_map t1 k' = Some c' \<longrightarrow> c_state c' = ChunkFreed \<longrightarrow> c_free_ms c0 \<le> c_free_ms c'"
    using freed_by_age_first [OF p1(2) ps] by blast
  have "2 \<le> length (ct_freed_fifo t1)"
    using inv1 cap1(1) by (simp add: table_inv_def)
  then obtain ks where "queued (refill_freed_queue t1) = snd p # ks"
    using r(5) [OF cap1(2)] ps by (cases "length (ct_freed_fifo t1) - 1") auto
  then obtain t2 where "pop_evictable (refill_freed_queue t1) = Some (True, t2)" "ct_map t2 = (ct_map t)(snd p := None)"
    using pop_evictable_front [OF invr] c0(1,2) r(2) p1(4) by (auto simp: freed_rec_def)
  then show ?thesis
    using p1(1,4) c0 assms(4,5) by (auto simp: make_room_def)
qed


lemma freed_table_exists:
  "\<exists>t. table_inv t \<and> ct_max_entries t = 1 \<and> queued t = [] \<and>
    ct_map t 4096 = Some ((live_chunk 4096 24 24 1 7)\<lparr>c_state := ChunkFreed, c_free_ms := 3\<rparr>)"
proof -
  have "round_capacity 16 \<le> 2 ^ 63" "round_capacity 16 \<le> 2 ^ 64"
    by (simp_all add: round_capacity_def kMinCapacity_def)
  then obtain t where t: "uncapped_ok 0 t" "ct_map t = fold map_run [OpInsert 4096 24 24 1 7, OpFree 4096 3] Map.empty"
    using chunk_map.run_refines [of 0 "[OpInsert 4096 24 24 1 7, OpFree 4096 3]" "chunk_table_new 16"]
      new_uncapped_ok [of 16 "Suc (Suc 0)"] chunk_table_new_ok(2) [of 16] by auto
  let ?t = "t\<lparr>ct_max_entries := 1, ct_freed_fifo := replicate (1 + 1) 0, ct_freed_head := 0, ct_freed_tail := 0\<rparr>"
  have "table_inv ?t"
    using t(1) fresh_queue_inv [of t 1] by (simp add: uncapped_ok_def)
  moreover have "ct_map ?t = ct_map t" "queued ?t = []"
    by (simp_all add: ct_map_def queued_def cdist_def)
  ultimately show ?thesis
    using t(2) by (intro exI [of _ ?t]) (simp add: live_record_def)
qed

theorem make_room_evicts_oldest_witness:
  "\<exists>t t' k0 c0. ct_map t 4096 \<noteq> None \<and> make_room t = Some (True, t') \<and> ct_map t k0 = Some c0 \<and>
    c_state c0 = ChunkFreed \<and> c_free_ms c0 \<le> 3 \<and> ct_map t' = (ct_map t)(k0 := None)"
proof -
  obtain t where t: "table_inv t" "ct_max_entries t = 1" "queued t = []"
    "ct_map t 4096 = Some ((live_chunk 4096 24 24 1 7)\<lparr>c_state := ChunkFreed, c_free_ms := 3\<rparr>)"
    using freed_table_exists by blast
  show ?thesis
    using make_room_evicts_oldest [OF t(1) _ t(3,4)] t(2,4) by auto
qed

end
