(* ===== verification/App_Delivery.thy ===== *)
theory App_Delivery
  imports Heap_App Chunk_Properties
begin

text \<open>
  From the ring to the model: how \<^verbatim>\<open>HeapApp::drain\<close> hands events to \<^verbatim>\<open>HeapApp::apply\<close>, across frames that
  are paused and frames that are not.
\<close>

section \<open>What applying an event touches\<close>

text \<open>The model without its transport: session, staging area and display modes.\<close>

definition model_of :: "heap_app \<Rightarrow> heap_app" where
  "model_of a = a\<lparr>ha_session := ring_session_new, ha_staged := [], ha_staged_head := 0, ha_events := 0,
     ha_paused := False, ha_help_visible := False\<rparr>"

definition transport :: "heap_app \<Rightarrow> ring_session \<times> hv_event list \<times> nat \<times> u64 \<times> bool \<times> bool" where
  "transport a = (ha_session a, ha_staged a, ha_staged_head a, ha_events a, ha_paused a, ha_help_visible a)"

lemma apply_free_model: "apply_free (model_of a) e ms = model_of (apply_free a e ms)"
  by (cases a) (simp add: apply_free_def model_of_def Let_def split: option.splits)

lemma apply_alloc_model: "apply_alloc (model_of a) e ms = map_option model_of (apply_alloc a e ms)"
proof (cases "insert_live (ha_table a) (ev_ptr e) (clamp_u32 (ev_size e)) (ev_usable e) ms (hv_event_get_tid e)")
  case None
  then show ?thesis
    by (simp add: apply_alloc_def model_of_def Let_def)
next
  case (Some p)
  then show ?thesis
    by (cases p, cases a) (simp add: apply_alloc_def model_of_def Let_def split: option.splits)
qed

lemma apply_event_model: "apply_event (model_of a) e = map_option model_of (apply_event a e)"
proof -
  have "(model_of a)\<lparr>ha_scanner := s\<rparr> = model_of (a\<lparr>ha_scanner := s\<rparr>)" for s
    by (cases a) (simp add: model_of_def)
  moreover have "ha_scanner (model_of a) = ha_scanner a" "event_ms (model_of a) = event_ms a"
    by (simp_all add: model_of_def event_ms_def fun_eq_iff)
  ultimately show ?thesis
    by (simp add: apply_event_def Let_def apply_free_model apply_alloc_model)
qed

lemma apply_event_transport: "apply_event a e = Some a' \<Longrightarrow> transport a' = transport a"
  by (auto simp: apply_event_def apply_free_def apply_alloc_def transport_def Let_def split: if_splits option.splits)

lemma apply_events_model: "apply_events es (model_of a) = map_option model_of (apply_events es a)"
proof (induction es arbitrary: a)
  case (Cons e es)
  then show ?case
    by (cases "apply_event a e") (simp_all add: apply_event_model)
qed simp

lemma apply_events_transport: "apply_events es a = Some a' \<Longrightarrow> transport a' = transport a"
proof (induction es arbitrary: a)
  case (Cons e es)
  then show ?case
    by (auto split: bind_splits dest: apply_event_transport)
qed simp

lemma apply_events_append: "apply_events (xs @ ys) a = Option.bind (apply_events xs a) (apply_events ys)"
  by (induction xs arbitrary: a) (simp_all split: bind_split)

lemma model_of_transport [simp]:
  "model_of (a\<lparr>ha_session := s\<rparr>) = model_of a" "model_of (a\<lparr>ha_staged := x\<rparr>) = model_of a"
  "model_of (a\<lparr>ha_staged_head := n\<rparr>) = model_of a" "model_of (a\<lparr>ha_events := k\<rparr>) = model_of a"
  "model_of (a\<lparr>ha_paused := p\<rparr>) = model_of a" "model_of (a\<lparr>ha_help_visible := p\<rparr>) = model_of a"
  by (cases a; simp add: model_of_def)+

section \<open>Events always apply\<close>

lemma apply_free_table:
  assumes "uncapped_ok n (ha_table a)"
  shows "uncapped_ok n (ha_table (apply_free a e ms))"
proof -
  have inv: "table_inv (ha_table a)" using assms by (simp add: uncapped_ok_def)
  have "ha_table (apply_free a e ms) = (if find (ha_table a) (ev_ptr e) = None then ha_table a
      else snd (mark_freed (ha_table a) (ev_ptr e) ms))"
    by (auto simp: apply_free_def Let_def split: option.splits)
  then show ?thesis
    using assms mark_freed_inv [OF inv] mark_freed_correct(4) [OF table_invD(1) [OF inv]] by (simp add: uncapped_ok_def)
qed

lemma apply_alloc_total:
  assumes "uncapped_ok (Suc n) (ha_table a)"
  shows "\<exists>a'. apply_alloc a e ms = Some a' \<and> uncapped_ok n (ha_table a')"
  using table_step [OF assms, of "OpInsert (ev_ptr e) (clamp_u32 (ev_size e)) (ev_usable e) ms (hv_event_get_tid e)"]
  by (auto simp: apply_alloc_def Let_def split_beta)

lemma uncapped_ok_mono: "uncapped_ok n t \<Longrightarrow> m \<le> n \<Longrightarrow> uncapped_ok m t"
  by (simp add: uncapped_ok_def)

lemma apply_event_total:
  assumes "uncapped_ok (Suc n) (ha_table a)"
  shows "\<exists>a'. apply_event a e = Some a' \<and> uncapped_ok n (ha_table a')"
  using apply_free_table [OF uncapped_ok_mono [OF assms]] apply_alloc_total [OF assms]
    apply_free_table [of n "a\<lparr>ha_scanner := note_address (ha_scanner a) (ev_ptr e)\<rparr>" e]
    apply_alloc_total [of n "a\<lparr>ha_scanner := note_address (ha_scanner a) (ev_ptr e)\<rparr>" e] assms uncapped_ok_mono [OF assms, of n]
  by (simp add: apply_event_def Let_def)

lemma apply_events_total:
  "uncapped_ok (length es + n) (ha_table a) \<Longrightarrow> \<exists>a'. apply_events es a = Some a' \<and> uncapped_ok n (ha_table a')"
proof (induction es arbitrary: a)
  case (Cons e es)
  then obtain a1 where "apply_event a e = Some a1" "uncapped_ok (length es + n) (ha_table a1)"
    using apply_event_total [of "length es + n" a e] by auto
  then show ?case
    using Cons.IH by simp
qed simp

section \<open>The backlog\<close>

text \<open>The events that were accepted by the ring and have not reached the model: those set aside during a
  pause, then those still in the ring.\<close>

definition backlog :: "heap_app \<Rightarrow> hv_event list" where
  "backlog a = drop (ha_staged_head a) (ha_staged a) @ (case rs_ring (ha_session a) of None \<Rightarrow> [] | Some r \<Rightarrow> ring_contents r)"

definition transport_ok :: "heap_app \<Rightarrow> bool" where
  "transport_ok a \<longleftrightarrow> (\<exists>r. rs_ring (ha_session a) = Some r \<and> ring_ok r) \<and>
     (ha_staged a = [] \<and> ha_staged_head a = 0 \<or> ha_staged_head a < length (ha_staged a))"

lemma session_drain_ring:
  assumes "rs_ring s = Some r" "ring_ok r"
  shows "session_drain s mx = (take (unat mx) (ring_contents r), snd (session_drain s mx)) \<and>
    (\<exists>r'. rs_ring (snd (session_drain s mx)) = Some r' \<and> ring_ok r' \<and> ring_contents r' = drop (unat mx) (ring_contents r))"
  using assms drain_refines [OF assms(2), of mx] drain_out [OF assms(2), of mx]
  by (auto simp: session_drain_def split: prod.splits)

lemma transport_eqD:
  "transport a = transport b \<Longrightarrow> ha_session a = ha_session b \<and> ha_staged a = ha_staged b \<and>
     ha_staged_head a = ha_staged_head b \<and> ha_paused a = ha_paused b"
  by (simp add: transport_def)

lemma unat_max_events [simp]: "unat kMaxEventsPerFrame = 32768"
  by (simp add: kMaxEventsPerFrame_def)

text \<open>A replay takes a prefix of the staged events to the model.\<close>

lemma replay_staged_correct:
  assumes ok: "transport_ok a" and room: "uncapped_ok (length (backlog a) + n) (ha_table a)"
  shows "\<exists>es k a'. replay_staged a = Some (of_nat k, a') \<and> transport_ok a' \<and> k \<le> 32768 \<and> ha_session a' = ha_session a \<and>
    apply_events es (model_of a) = Some (model_of a') \<and> backlog a = es @ backlog a' \<and>
    uncapped_ok (length (backlog a') + n) (ha_table a')"
proof (cases "staged_events a = 0")
  case True
  then show ?thesis
    using assms by (intro exI [of _ "[]"] exI [of _ 0] exI [of _ a]) (simp add: replay_staged_def)
next
  case False
  define k where "k = min (staged_events a) 32768"
  define es where "es = take k (drop (ha_staged_head a) (ha_staged a))"
  have lt: "ha_staged_head a < length (ha_staged a)" "k \<le> length (ha_staged a) - ha_staged_head a"
    using False by (auto simp: staged_events_def k_def)
  have len: "length es = k" using lt by (simp add: es_def)
  have split: "drop (ha_staged_head a) (ha_staged a) = es @ drop (ha_staged_head a + k) (ha_staged a)"
    by (simp add: es_def add.commute flip: drop_drop)
  have "length (backlog a) + n = length es + (length (backlog a) - k + n)"
    using len split by (simp add: backlog_def)
  then obtain a1 where a1: "apply_events es a = Some a1" "uncapped_ok (length (backlog a) - k + n) (ha_table a1)"
    using apply_events_total [of es "length (backlog a) - k + n" a] room by metis
  note tr = transport_eqD [OF apply_events_transport [OF a1(1)]]
  define a' where "a' = (if ha_staged_head a + k = length (ha_staged a)
      then a1\<lparr>ha_staged := [], ha_staged_head := 0\<rparr> else a1\<lparr>ha_staged_head := ha_staged_head a + k\<rparr>)"
  have "replay_staged a = Some (of_nat k, a')"
    using False a1(1) tr by (simp add: replay_staged_def Let_def k_def [symmetric] es_def [symmetric] a'_def)
  moreover have "transport_ok a'"
    using ok lt tr by (auto simp: transport_ok_def a'_def)
  moreover have "ha_session a' = ha_session a" "model_of a' = model_of a1" "ha_table a' = ha_table a1"
    using tr by (simp_all add: a'_def)
  moreover have "backlog a = es @ backlog a'"
    using tr split by (simp add: backlog_def a'_def)
  moreover have "apply_events es (model_of a) = Some (model_of a1)"
    using a1(1) by (simp add: apply_events_model)
  moreover have "length (backlog a) - k = length (backlog a')"
    using \<open>backlog a = es @ backlog a'\<close> len by simp
  moreover have "k \<le> 32768" by (simp add: k_def)
  ultimately show ?thesis
    using a1(2) by metis
qed

text \<open>So does a whole drain; a paused one only moves events from the ring to the staging area.\<close>

lemma app_drain_correct:
  assumes ok: "transport_ok a" and room: "uncapped_ok (length (backlog a) + n) (ha_table a)"
  shows "\<exists>es k a'. app_drain a = Some (k, a') \<and> transport_ok a' \<and> apply_events es (model_of a) = Some (model_of a') \<and>
    backlog a = es @ backlog a' \<and> (ha_paused a \<longrightarrow> es = []) \<and> uncapped_ok (length (backlog a') + n) (ha_table a')"
proof (cases "ha_paused a")
  case True
  obtain r where r: "rs_ring (ha_session a) = Some r" "ring_ok r"
    using ok by (auto simp: transport_ok_def)
  from session_drain_ring [OF r, of kMaxEventsPerFrame] obtain s' r' where
    s': "session_drain (ha_session a) kMaxEventsPerFrame = (take 32768 (ring_contents r), s')"
      "rs_ring s' = Some r'" "ring_ok r'" "ring_contents r' = drop 32768 (ring_contents r)"
    by (metis unat_max_events)
  define batch where "batch = take 32768 (ring_contents r)"
  define a' where "a' = a\<lparr>ha_session := s', ha_staged := ha_staged a @ batch\<rparr>"
  have "app_drain a = Some (0, a')"
    using True r(1) s'(1) by (simp add: app_drain_def attached_def a'_def batch_def)
  moreover have "backlog a' = backlog a"
    using ok s' r by (auto simp: backlog_def a'_def batch_def transport_ok_def)
  moreover have "transport_ok a'"
    using ok s' by (auto simp: transport_ok_def a'_def)
  moreover have "model_of a' = model_of a" "ha_table a' = ha_table a"
    by (simp_all add: a'_def)
  ultimately show ?thesis
    using room by (intro exI [of _ "[]"]) auto
next
  case False
  obtain es k a1 where 1: "replay_staged a = Some (of_nat k, a1)" "transport_ok a1" "k \<le> 32768"
    "apply_events es (model_of a) = Some (model_of a1)" "backlog a = es @ backlog a1"
    "uncapped_ok (length (backlog a1) + n) (ha_table a1)"
    using replay_staged_correct [OF assms] by blast
  have att: "attached (ha_session a)"
    using ok by (auto simp: transport_ok_def attached_def)
  show ?thesis
  proof (cases "of_nat k < kMaxEventsPerFrame \<and> ha_staged a1 = []")
    case more: False
    then have "app_drain a = Some (of_nat k, a1\<lparr>ha_events := ha_events a1 + ucast (of_nat k :: u32)\<rparr>)"
      using att False 1(1) by (auto simp: app_drain_def)
    then show ?thesis
      using 1 False by (intro exI [of _ es]) (auto simp: transport_ok_def backlog_def)
  next
    case True
    obtain r where r: "rs_ring (ha_session a1) = Some r" "ring_ok r"
      using 1(2) by (auto simp: transport_ok_def)
    define mx where "mx = kMaxEventsPerFrame - of_nat k"
    from session_drain_ring [OF r, of mx] obtain s' r' where
      s': "session_drain (ha_session a1) mx = (take (unat mx) (ring_contents r), s')"
        "rs_ring s' = Some r'" "ring_ok r'" "ring_contents r' = drop (unat mx) (ring_contents r)"
      by metis
    let ?batch = "take (unat mx) (ring_contents r)" and ?a = "a1\<lparr>ha_session := s'\<rparr>"
    have bl: "backlog a1 = ring_contents r" using True r(1) by (simp add: backlog_def)
    have "length (backlog a1) + n = length ?batch + (length (ring_contents r') + n)"
      using bl s'(4) by simp
    moreover have "ha_table ?a = ha_table a1" by simp
    ultimately obtain a2 where a2: "apply_events ?batch ?a = Some a2" "uncapped_ok (length (ring_contents r') + n) (ha_table a2)"
      using apply_events_total [of ?batch "length (ring_contents r') + n" ?a] 1(6) by metis
    note tr = transport_eqD [OF apply_events_transport [OF a2(1)]]
    define kk where "kk = (of_nat k :: u32) + of_nat (length ?batch)"
    define a' where "a' = a2\<lparr>ha_events := ha_events a2 + ucast kk\<rparr>"
    have "app_drain a = Some (kk, a')"
      using att False True 1(1) s'(1) a2(1) by (simp add: app_drain_def mx_def kk_def a'_def)
    moreover have "transport_ok a'" "backlog a' = ring_contents r'"
      using tr True s' 1(2) by (auto simp: transport_ok_def a'_def backlog_def)
    moreover have "apply_events (es @ ?batch) (model_of a) = Some (model_of a')"
      using 1(4) a2(1) apply_events_model [of ?batch ?a] by (simp add: apply_events_append a'_def)
    moreover have "backlog a = (es @ ?batch) @ backlog a'"
      using 1(5) bl s'(4) calculation(3) by simp
    ultimately show ?thesis
      using a2(2) False by (intro exI [of _ "es @ ?batch"] exI [of _ kk] exI [of _ a']) (simp add: a'_def)
  qed
qed

section \<open>Sessions\<close>

lemma app_key_space:
  "app_key clock (CHR '' '') a = (if ha_state a = SessLive \<or> ha_paused a
     then (True, a\<lparr>ha_paused := \<not> ha_paused a, ha_help_visible := False\<rparr>) else (False, a))"
proof -
  have "CHR '' '' \<noteq> char_of (9 :: nat)" by code_simp
  then show ?thesis by (simp add: app_key_def cursor_move_for_key_def)
qed

text \<open>What happens around a session: the target pushes, the loop drains, the user presses the pause key.\<close>

datatype app_op = AppPush push_args | AppDrain | AppPause

fun app_step :: "app_op \<Rightarrow> push_args list \<times> heap_app \<Rightarrow> (push_args list \<times> heap_app) option" where
  "app_step (AppPush p) (acc, a) =
     (case rs_ring (ha_session a) of None \<Rightarrow> Some (acc, a)
      | Some r \<Rightarrow>
          (case hv_ring_push r p of (ok, r') \<Rightarrow>
             Some (if ok then acc @ [p] else acc, a\<lparr>ha_session := (ha_session a)\<lparr>rs_ring := Some r'\<rparr>\<rparr>)))"
| "app_step AppDrain (acc, a) = map_option (\<lambda>(_, a'). (acc, a')) (app_drain a)"
| "app_step AppPause (acc, a) = Some (acc, snd (app_key None (CHR '' '') a))"

definition delivery_inv :: "heap_app \<Rightarrow> nat \<Rightarrow> push_args list \<times> heap_app \<Rightarrow> bool" where
  "delivery_inv a0 n = (\<lambda>(acc, a). transport_ok a \<and> uncapped_ok (length (backlog a) + n) (ha_table a) \<and>
     (\<exists>delivered. map event_of acc = delivered @ backlog a \<and> apply_events delivered (model_of a0) = Some (model_of a)))"

lemma app_step_delivery:
  assumes "delivery_inv a0 (Suc n) s"
  shows "\<exists>s'. app_step op s = Some s' \<and> delivery_inv a0 n s'"
proof -
  obtain acc a where s: "s = (acc, a)" by fastforce
  then obtain delivered where I: "transport_ok a" "uncapped_ok (length (backlog a) + Suc n) (ha_table a)"
    "map event_of acc = delivered @ backlog a" "apply_events delivered (model_of a0) = Some (model_of a)"
    using assms by (auto simp: delivery_inv_def)
  have room: "uncapped_ok (length (backlog a) + n) (ha_table a)"
    using I(2) by (rule uncapped_ok_mono) simp
  show ?thesis
  proof (cases op)
    case (AppPush p)
    obtain r where r: "rs_ring (ha_session a) = Some r" "ring_ok r"
      using I(1) by (auto simp: transport_ok_def)
    obtain ok r' where push: "hv_ring_push r p = (ok, r')" by fastforce
    have r': "ring_ok r'" "ring_contents r' = (if ok then ring_contents r @ [event_of p] else ring_contents r)"
      using push_refines [OF r(2), of p] push by auto
    define a' where "a' = a\<lparr>ha_session := (ha_session a)\<lparr>rs_ring := Some r'\<rparr>\<rparr>"
    have "backlog a' = backlog a @ (if ok then [event_of p] else [])"
      using r(1) r'(2) by (simp add: backlog_def a'_def)
    moreover have "transport_ok a'" "model_of a' = model_of a" "ha_table a' = ha_table a"
      using I(1) r'(1) by (simp_all add: transport_ok_def a'_def)
    ultimately show ?thesis
      using I room r(1) push by (auto simp: s AppPush delivery_inv_def a'_def [symmetric] uncapped_ok_def)
  next
    case AppDrain
    obtain es k a' where "app_drain a = Some (k, a')" "transport_ok a'" "apply_events es (model_of a) = Some (model_of a')"
      "backlog a = es @ backlog a'" "uncapped_ok (length (backlog a') + n) (ha_table a')"
      using app_drain_correct [OF I(1) room] by blast
    then show ?thesis
      using I(3,4) by (auto simp: s AppDrain delivery_inv_def apply_events_append intro!: exI [of _ "delivered @ es"])
  next
    case AppPause
    have "model_of (snd (app_key None (CHR '' '') a)) = model_of a" "ha_table (snd (app_key None (CHR '' '') a)) = ha_table a"
      "backlog (snd (app_key None (CHR '' '') a)) = backlog a" "transport_ok (snd (app_key None (CHR '' '') a))"
      using I(1) by (simp_all add: app_key_space backlog_def transport_ok_def)
    then show ?thesis
      using I room by (auto simp: s AppPause delivery_inv_def)
  qed
qed

interpretation app_delivery: op_refinement app_step "\<lambda>_ _. ()" "\<lambda>_. ()" "delivery_inv a0" for a0
  by unfold_locales (use app_step_delivery in auto)

text \<open>
  (C7) Pausing delays events and changes nothing else: for every interleaving of pushes by the target, drains
  by the loop and presses of the pause key, the run returns, and the events accepted by the ring split
  into those delivered and the backlog, in the order of the ring; the model is the one that applying the
  delivered events, in that order and without any pause, would give.
\<close>

theorem pause_only_delays:
  assumes "rs_ring (ha_session a) = Some r" "ring_ok r" "ring_contents r = []" "ha_staged a = []" "ha_staged_head a = 0"
    and "uncapped_ok (length ops) (ha_table a)"
  shows "\<exists>acc a' delivered. run_ops app_step ops ([], a) = Some (acc, a') \<and>
    map event_of acc = delivered @ backlog a' \<and> apply_events delivered (model_of a) = Some (model_of a')"
proof -
  have "delivery_inv a (0 + length ops) ([], a)"
    using assms by (auto simp: delivery_inv_def transport_ok_def backlog_def)
  then show ?thesis
    using app_delivery.run_refines [of a 0 ops "([], a)"] by (auto simp: delivery_inv_def)
qed

definition demo_app :: heap_app where
  "demo_app = heap_app_with (ring_session_new\<lparr>rs_ring := Some (hv_ring_setup 4 7 0 [])\<rparr>) True True 0 (chunk_table_new 16)"

lemma demo_table: "n \<le> 2 ^ 62 \<Longrightarrow> uncapped_ok n (chunk_table_new 16)"
  by (rule new_uncapped_ok) (simp_all add: round_capacity_def kMinCapacity_def)

theorem pause_only_delays_witness:
  "\<exists>acc a' delivered. run_ops app_step [AppPush sample_push, AppPause, AppDrain, AppPush sample_push, AppPause, AppDrain] ([], demo_app) = Some (acc, a') \<and>
    map event_of acc = delivered @ backlog a' \<and> apply_events delivered (model_of demo_app) = Some (model_of a')"
  by (rule pause_only_delays [where r = "hv_ring_setup 4 7 0 []"])
    (use hv_ring_setup_ok [of 4 7 0 "[]"] demo_table [of "Suc (Suc (Suc (Suc (Suc (Suc 0)))))"] in \<open>simp_all add: demo_app_def heap_app_with_def hv_is_pow2_def\<close>)

end
