(* ===== verification/App_Agreement.thy ===== *)
theory App_Agreement
  imports App_Delivery Heat_Properties
begin

text \<open>
  The consistency of the application's model: the chunk table, the cells of the heat map and the live
  counters, as the event stream changes them together in \<^verbatim>\<open>HeapApp::apply\<close>.
\<close>

section \<open>Agreement of the model with itself\<close>

text \<open>The overhead a record is charged in its cell: the exact figure once the header was read.\<close>

definition charge :: "chunk \<Rightarrow> u32" where
  "charge c = (if c_flags c AND kChunkFlagRefined \<noteq> 0 then ucast (c_overhead_exact c) else approx c)"

definition room :: "chunk \<Rightarrow> u32" where
  "room c = max (charge c) (approx c)"

definition everywhere :: "u64 \<Rightarrow> bool" where
  "everywhere k \<longleftrightarrow> True"

definition app_agrees :: "heap_app \<Rightarrow> bool" where
  "app_agrees a \<longleftrightarrow> (let m = ct_map (ha_table a) in
     heat_agrees charge (ha_map a) m \<and>
     unat (ha_live a) = live_sum (\<lambda>_. 1) everywhere m \<and>
     unat (ha_live_bytes a) = live_sum (\<lambda>c. unat (c_usable c)) everywhere m)"

section \<open>The stream, on the abstract table\<close>

definition is_free :: "hv_event \<Rightarrow> bool" where
  "is_free e \<longleftrightarrow> ev_op e AND HV_OP_MASK = opcode_value HV_OP_FREE"

definition event_effect :: "heap_app \<Rightarrow> hv_event \<Rightarrow> (u64 \<rightharpoonup> chunk) \<Rightarrow> (u64 \<rightharpoonup> chunk)" where
  "event_effect a e m =
     (let ms = event_ms a (ev_timestamp e)
      in if is_free e then map_run (OpFree (ev_ptr e) ms) m
         else map_run (OpInsert (ev_ptr e) (clamp_u32 (ev_size e)) (ev_usable e) ms (hv_event_get_tid e)) m)"

text \<open>The allocator's discipline: it frees what is live, and hands out what is not. A recycled address must
  not carry the refined mark of its previous chunk, which \<^verbatim>\<open>insert_live\<close> does not clear.\<close>

definition disciplined :: "(u64 \<rightharpoonup> chunk) \<Rightarrow> hv_event \<Rightarrow> bool" where
  "disciplined m e \<longleftrightarrow>
     (if is_free e then live_at m (ev_ptr e)
      else ev_ptr e \<noteq> 0 \<and>
        (case m (ev_ptr e) of None \<Rightarrow> True | Some c \<Rightarrow> c_state c \<noteq> ChunkLive \<and> c_flags c AND kChunkFlagRefined = 0))"

fun disciplined_stream :: "heap_app \<Rightarrow> hv_event list \<Rightarrow> (u64 \<rightharpoonup> chunk) \<Rightarrow> bool" where
  "disciplined_stream a [] m \<longleftrightarrow> True"
| "disciplined_stream a (e # es) m \<longleftrightarrow> disciplined m e \<and> heat_fits room (ha_map a) (event_effect a e m) \<and>
     disciplined_stream a es (event_effect a e m)"

lemma live_sum_mono:
  assumes "\<And>c. w c \<le> v c"
  shows "live_sum w P m \<le> live_sum v P m"
  unfolding live_sum_def by (rule sum_mono) (auto simp: contrib_def assms split: option.splits)

lemma fits_weaken:
  assumes "heat_fits room h m" "\<And>c. unat (w c) \<le> unat (room c)"
  shows "heat_fits w h m"
  using assms(1) live_sum_mono [of "\<lambda>c. unat (w c)" "\<lambda>c. unat (room c)" _ m] assms(2)
  by (auto simp: heat_fits_def intro: le_less_trans)

lemma room_ge: "unat (charge c) \<le> unat (room c)" "unat (approx c) \<le> unat (room c)"
  by (simp_all add: room_def flip: word_le_nat_alt)

section \<open>Frees\<close>

lemma unrefined_charge: "charge (c\<lparr>c_flags := 0\<rparr>) = overhead_of (c_size c) (c_usable c)"
  by (simp add: charge_def approx_def)

lemma live_sum_upd_le:
  assumes "m k = Some c" "c_state c = ChunkLive" "\<And>x. w x \<le> v x" "w c' \<le> v c"
  shows "live_sum w P (m(k \<mapsto> c')) \<le> live_sum v P m"
proof -
  have "dom (m(k \<mapsto> c')) = dom m" using assms(1) by auto
  then show ?thesis
    unfolding live_sum_def using assms by (auto simp: contrib_def intro!: sum_mono split: option.splits)
qed

lemma free_map_agrees:
  assumes ag: "heat_agrees charge h m" and fits: "heat_fits room h m" and c: "m k = Some c" "c_state c = ChunkLive"
    and c': "c_state c' \<noteq> ChunkLive"
  shows "heat_agrees charge
    (on_free (if c_flags c AND kChunkFlagRefined \<noteq> 0
              then snd (refine_overhead h k (ucast (c_overhead_exact c)) (overhead_of (c_size c) (c_usable c))) else h)
       k (c_size c) (c_usable c) ms) (m(k \<mapsto> c'))"
proof (cases "c_flags c AND kChunkFlagRefined = 0")
  case True
  then show ?thesis
    using on_free_agrees [OF ag c _ c'] by (simp add: charge_def approx_def)
next
  case False
  let ?c = "c\<lparr>c_flags := 0\<rparr>"
  have "unat (charge ?c) \<le> unat (room c)"
    using room_ge(2) [of c] by (simp add: unrefined_charge approx_def)
  then have "live_sum (\<lambda>c. unat (charge c)) P (m(k \<mapsto> ?c)) \<le> live_sum (\<lambda>c. unat (room c)) P m" for P
    using c room_ge(1) by (intro live_sum_upd_le) auto
  moreover have "dom (m(k \<mapsto> ?c)) = dom m" using c(1) by auto
  ultimately have "heat_fits charge h (m(k \<mapsto> ?c))"
    using fits unfolding heat_fits_def by (simp only: le_less_trans simp_thms) (meson le_less_trans)
  then have "heat_agrees charge (snd (refine_overhead h k (charge c) (charge ?c))) (m(k \<mapsto> ?c))"
    using refine_agrees [OF ag c, of ?c] c(2) by simp
  from on_free_agrees [OF this, of k ?c c'] show ?thesis
    using False c(2) c' by (simp add: approx_def charge_def)
qed

lemma find_chunk:
  assumes "ct_ok t" "ct_map t k = Some c"
  obtains i where "find t k = Some i" "ct_slots t ! i = c"
  using assms find_map [OF assms(1), of k] by auto

lemma unat_dec: "0 < unat (x :: u64) \<Longrightarrow> unat (x - 1) = unat x - 1"
  by (metis unat_minus_one unat_eq_zero less_numeral_extra(3))

lemma min_u64_unat: "unat (min_u64 x y) = min (unat x) (unat y)"
  by (simp add: min_u64_def word_less_nat_alt min_def)

lemma unat_sub_le: "unat (y :: u64) \<le> unat x \<Longrightarrow> unat (x - y) = unat x - unat y"
  by (simp add: unat_sub word_le_nat_alt)

lemma apply_free_agrees:
  assumes inv: "table_inv (ha_table a)" and ag: "app_agrees a" and fits: "heat_fits room (ha_map a) (ct_map (ha_table a))"
    and c: "ct_map (ha_table a) (ev_ptr e) = Some c" "c_state c = ChunkLive"
  shows "app_agrees (apply_free a e ms) \<and> ct_map (ha_table (apply_free a e ms)) = map_run (OpFree (ev_ptr e) ms) (ct_map (ha_table a))"
proof -
  let ?m = "ct_map (ha_table a)" and ?c = "c\<lparr>c_state := ChunkFreed, c_free_ms := ms\<rparr>"
  note D = ag [unfolded app_agrees_def Let_def]
  have ok: "ct_ok (ha_table a)" using inv by (rule table_invD)
  have fin: "finite (dom ?m)" using D by (simp add: heat_agrees_def)
  obtain i where i: "find (ha_table a) (ev_ptr e) = Some i" "ct_slots (ha_table a) ! i = c"
    using find_chunk [OF ok c(1)] .
  define a' where "a' = apply_free a e ms"
  have map: "ct_map (ha_table a') = ?m(ev_ptr e \<mapsto> ?c)" "ha_map a' = on_free (if c_flags c AND kChunkFlagRefined \<noteq> 0
      then snd (refine_overhead (ha_map a) (ev_ptr e) (ucast (c_overhead_exact c)) (overhead_of (c_size c) (c_usable c))) else ha_map a)
      (ev_ptr e) (c_size c) (c_usable c) ms"
    using mark_freed_correct(3) [OF ok, of "ev_ptr e" ms] i c by (simp_all add: a'_def apply_free_def Let_def)
  have one: "live_sum (\<lambda>_. 1) everywhere (?m(ev_ptr e \<mapsto> ?c)) + 1 = live_sum (\<lambda>_. 1) everywhere ?m"
    "live_sum (\<lambda>c. unat (c_usable c)) everywhere (?m(ev_ptr e \<mapsto> ?c)) + unat (c_usable c) = live_sum (\<lambda>c. unat (c_usable c)) everywhere ?m"
    using live_sum_remove [OF fin c, of ?c "\<lambda>_. 1" everywhere] live_sum_remove [OF fin c, of ?c "\<lambda>c. unat (c_usable c)" everywhere]
    by (simp_all add: everywhere_def)
  have "unat (ha_live a') = unat (ha_live a) - 1"
  proof -
    have "0 < unat (ha_live a)" using D one(1) by linarith
    then show ?thesis
      using i c(2) unat_dec [of "ha_live a"] by (auto simp: a'_def apply_free_def Let_def)
  qed
  moreover have "unat (ha_live_bytes a') = unat (ha_live_bytes a) - unat (c_usable c)"
    using i c(2) D one(2) by (simp add: a'_def apply_free_def Let_def unat_sub_le min_u64_unat unat_ucast_usable)
  ultimately have "unat (ha_live a') = live_sum (\<lambda>_. 1) everywhere (?m(ev_ptr e \<mapsto> ?c))"
    "unat (ha_live_bytes a') = live_sum (\<lambda>c. unat (c_usable c)) everywhere (?m(ev_ptr e \<mapsto> ?c))"
    using D one by linarith+
  moreover have "heat_agrees charge (ha_map a') (?m(ev_ptr e \<mapsto> ?c))"
    unfolding map(2) using D by (intro free_map_agrees [OF _ fits c]) simp_all
  ultimately show ?thesis
    unfolding a'_def [symmetric] app_agrees_def Let_def map(1) using c(1) by simp
qed

section \<open>Allocations\<close>

lemma apply_alloc_agrees:
  assumes ok: "uncapped_ok (Suc n) (ha_table a)" and ag: "app_agrees a" and e: "disciplined (ct_map (ha_table a)) e" "\<not> is_free e"
    and m': "m' = map_run (OpInsert (ev_ptr e) (clamp_u32 (ev_size e)) (ev_usable e) ms (hv_event_get_tid e)) (ct_map (ha_table a))"
    and fits: "heat_fits room (ha_map a) m'"
  shows "\<exists>a'. apply_alloc a e ms = Some a' \<and> app_agrees a' \<and> ct_map (ha_table a') = m'"
proof -
  let ?m = "ct_map (ha_table a)" and ?k = "ev_ptr e" and ?sz = "clamp_u32 (ev_size e)" and ?us = "ev_usable e"
  let ?c = "live_record ?m ?k ?sz ?us ms (hv_event_get_tid e)"
  note D = ag [unfolded app_agrees_def Let_def]
  have cok: "ct_ok (ha_table a)" using ok table_invD(1) by (simp add: uncapped_ok_def)
  have fin: "finite (dom ?m)" using D by (simp add: heat_agrees_def)
  have k: "?k \<noteq> 0" "\<not> live_at ?m ?k"
    using e by (auto simp: disciplined_def live_at_def)
  have m'': "m' = ?m(?k \<mapsto> ?c)" using m' k(1) by simp
  have c: "c_state ?c = ChunkLive" "c_usable ?c = ?us" "charge ?c = overhead_of ?sz ?us"
    using e by (auto simp: live_record_def live_update_def live_chunk_def disciplined_def charge_def approx_def kEmptySlot_def split: option.splits)
  have heat: "heat_agrees charge (on_alloc (ha_map a) ?k ?sz ?us ms) m'"
    unfolding m'' using D k(2) c fits_weaken [OF fits room_ge(1)] by (intro on_alloc_agrees) (simp_all add: m'')
  obtain t' where t': "insert_live (ha_table a) ?k ?sz ?us ms (hv_event_get_tid e) = Some t'" "ct_map (snd t') = m'"
    using table_step [OF ok, of "OpInsert ?k ?sz ?us ms (hv_event_get_tid e)"] m' by auto
  have sums: "live_sum (\<lambda>_. 1) everywhere m' = live_sum (\<lambda>_. 1) everywhere ?m + 1"
    "live_sum (\<lambda>c. unat (c_usable c)) everywhere m' = live_sum (\<lambda>c. unat (c_usable c)) everywhere ?m + unat ?us"
    unfolding m'' by (simp_all add: live_sum_add [OF fin k(2) c(1)] everywhere_def c(2))
  note B = fits_bounds(1,2) [OF fits, where P = everywhere]
  have "unat (ha_live a + 1) = unat (ha_live a) + 1"
    using D sums(1) B(1) by (intro trans [OF unat_plus_small]) simp_all
  moreover have "unat (ha_live_bytes a + ucast ?us) = unat (ha_live_bytes a) + unat ?us"
    using D sums(2) B(2) by (intro trans [OF unat_plus_small]) (simp_all add: unat_ucast_usable)
  moreover have "\<not> (\<exists>i. find (ha_table a) ?k = Some i \<and> c_state (ct_slots (ha_table a) ! i) = ChunkLive)"
    using k(2) find_map [OF cok, of ?k] by (auto simp: live_at_def)
  ultimately show ?thesis
    using t' heat sums D by (cases t') (auto simp: apply_alloc_def Let_def app_agrees_def split: option.splits)
qed

section \<open>Streams\<close>

lemma geometry_fits: "same_geometry h h' \<Longrightarrow> heat_fits ov h' m = heat_fits ov h m"
  by (simp add: heat_fits_def same_geometry_buckets)

lemma apply_event_geometry:
  assumes "apply_event a e = Some a'"
  shows "same_geometry (ha_map a) (ha_map a')" "ha_origin_ns a' = ha_origin_ns a"
proof -
  have free: "same_geometry h (on_free h k sz us ms)" and alloc: "same_geometry h (on_alloc h k sz us ms)"
    and refine: "same_geometry h (snd (refine_overhead h k x y))" for h k sz us ms x y
    by (auto simp: on_free_def on_alloc_def refine_overhead_def same_geometry_def Let_def split: option.splits)
  have "same_geometry h (on_free (snd (refine_overhead h k x y)) k sz us ms)" for h k x y sz us ms
    using refine [of h k x y] free [of "snd (refine_overhead h k x y)" k sz us ms] by (simp add: same_geometry_def)
  then show "same_geometry (ha_map a) (ha_map a')" "ha_origin_ns a' = ha_origin_ns a"
    using assms free alloc
    by (auto simp: apply_event_def apply_free_def apply_alloc_def Let_def split: if_splits option.splits)
qed

lemma apply_event_agrees:
  assumes ok: "uncapped_ok (Suc n) (ha_table a)" and ag: "app_agrees a" and fits: "heat_fits room (ha_map a) (ct_map (ha_table a))"
    and e: "disciplined (ct_map (ha_table a)) e" "heat_fits room (ha_map a) (event_effect a e (ct_map (ha_table a)))"
  shows "\<exists>a'. apply_event a e = Some a' \<and> app_agrees a' \<and> ct_map (ha_table a') = event_effect a e (ct_map (ha_table a))"
proof -
  define a1 where "a1 = a\<lparr>ha_scanner := note_address (ha_scanner a) (ev_ptr e)\<rparr>"
  have a1: "ha_table a1 = ha_table a" "ha_map a1 = ha_map a" "app_agrees a1"
    using ag by (simp_all add: a1_def app_agrees_def)
  have inv: "table_inv (ha_table a)" using ok by (simp add: uncapped_ok_def)
  show ?thesis
  proof (cases "is_free e")
    case True
    then obtain c where "ct_map (ha_table a1) (ev_ptr e) = Some c" "c_state c = ChunkLive"
      using e(1) a1 by (auto simp: disciplined_def live_at_def)
    from apply_free_agrees [OF _ a1(3) _ this] show ?thesis
      using True inv fits a1 by (simp add: apply_event_def is_free_def event_effect_def a1_def [symmetric] Let_def)
  next
    case False
    from apply_alloc_agrees [of n a1 e, OF _ a1(3) _ False refl] show ?thesis
      using False ok e a1 by (simp add: apply_event_def is_free_def event_effect_def a1_def [symmetric] Let_def)
  qed
qed

lemma apply_events_agree:
  assumes "uncapped_ok (length es) (ha_table a)" "app_agrees a" "heat_fits room (ha_map a) (ct_map (ha_table a))"
    and "disciplined_stream a es (ct_map (ha_table a))"
  shows "\<exists>a'. apply_events es a = Some a' \<and> app_agrees a' \<and>
    ct_map (ha_table a') = fold (event_effect a) es (ct_map (ha_table a))"
  using assms
proof (induction es arbitrary: a)
  case (Cons e es)
  obtain a1 where a1: "apply_event a e = Some a1" "app_agrees a1" "ct_map (ha_table a1) = event_effect a e (ct_map (ha_table a))"
    using apply_event_agrees [of "length es" a e] Cons.prems by auto
  have ok: "uncapped_ok (length es) (ha_table a1)"
    using apply_event_total [of "length es" a e] Cons.prems(1) a1(1) by auto
  note geo = apply_event_geometry [OF a1(1)]
  have eff: "event_effect a1 = event_effect a"
    using geo(2) by (simp add: event_effect_def event_ms_def fun_eq_iff)
  have "disciplined_stream a1 xs m = disciplined_stream a xs m" for xs m
    by (induction xs arbitrary: m) (simp_all add: eff geometry_fits [OF geo(1)])
  then show ?case
    using Cons.IH [of a1] Cons.prems(4) ok a1 geometry_fits [OF geo(1)] eff by simp
qed simp

text \<open>
  (C6) The model stays consistent with itself: along any event stream in which the allocator frees live chunks
  and hands out addresses that are not live, within the width of the counters, the table is what the
  events describe, each cell of the map counts exactly the live records it covers, with their bytes and
  their overhead (exact where it was read), and the live counters are the number and the bytes of all
  live records.
\<close>

theorem stream_keeps_model:
  assumes "uncapped_ok (length es) (ha_table a)" "app_agrees a" "heat_fits room (ha_map a) (ct_map (ha_table a))"
    and "disciplined_stream a es (ct_map (ha_table a))"
  shows "\<exists>a'. apply_events es a = Some a' \<and> app_agrees a' \<and>
    ct_map (ha_table a') = fold (event_effect a) es (ct_map (ha_table a))"
  using assms by (rule apply_events_agree)

section \<open>Concrete sessions\<close>

definition start_app :: heap_app where
  "start_app = demo_app\<lparr>ha_map := demo_heat\<rparr>"

definition malloc_event :: "u64 \<Rightarrow> hv_event" where
  "malloc_event p = \<lparr>ev_timestamp = 0, ev_ptr = p, ev_size = 24, ev_usable = 32, ev_tid = (1, 0, 0), ev_op = 0\<rparr>"

definition free_event :: "u64 \<Rightarrow> hv_event" where
  "free_event p = \<lparr>ev_timestamp = 0, ev_ptr = p, ev_size = 0, ev_usable = 32, ev_tid = (1, 0, 0), ev_op = 1\<rparr>"

lemma start_table: "ct_map (ha_table start_app) = Map.empty" "n \<le> 2 ^ 62 \<Longrightarrow> uncapped_ok n (ha_table start_app)"
  using demo_table [of n] chunk_table_new_ok(2) [of 16]
  by (simp_all add: start_app_def demo_app_def heap_app_with_def round_capacity_def kMinCapacity_def)

lemma start_agrees: "app_agrees start_app"
proof -
  have cells: "hm_cells demo_heat = replicate 4 kEmptyAggregate" "cell_count (hm_grid demo_heat) = 4"
    "hm_total_live demo_heat = 0" "hm_total_live_bytes demo_heat = 0"
    by code_simp+
  have "heat_agrees charge demo_heat Map.empty"
    by (simp add: heat_agrees_def cells) (simp add: kEmptyAggregate_def)
  moreover have "ha_map start_app = demo_heat" "ha_live start_app = 0" "ha_live_bytes start_app = 0"
    by (simp_all add: start_app_def demo_app_def heap_app_with_def)
  ultimately show ?thesis
    by (simp add: app_agrees_def start_table)
qed

lemma single_fits: "heat_fits ov h [k \<mapsto> c]"
proof -
  have "live_sum (\<lambda>c. unat (ov c)) P [k \<mapsto> c] < 2 ^ 32" for P
    using unat_lt_exp [of "ov c"] le_less_trans [OF live_sum_le [of "\<lambda>c. unat (ov c)" P "[k \<mapsto> c]"]] by simp
  then show ?thesis by (simp add: heat_fits_def)
qed

lemma malloc_effect:
  "event_effect start_app (malloc_event 130) Map.empty = [130 \<mapsto> live_chunk 130 24 32 0 1]"
  "\<not> is_free (malloc_event p)" "is_free (free_event p)"
  by (simp_all add: event_effect_def is_free_def malloc_event_def free_event_def HV_OP_MASK_def event_ms_def live_record_def
      clamp_u32_def hv_event_get_tid_def)

lemma first_malloc:
  "disciplined_stream start_app [malloc_event 130] (ct_map (ha_table start_app))"
  by (simp add: start_table malloc_effect single_fits disciplined_def) (simp add: malloc_event_def)

lemma empty_fits: "heat_fits ov h Map.empty"
  by (simp add: heat_fits_def)

theorem stream_keeps_model_witness:
  "\<exists>a'. apply_events [malloc_event 130] start_app = Some a' \<and> app_agrees a' \<and>
     ct_map (ha_table a') = [130 \<mapsto> live_chunk 130 24 32 0 1]"
  using stream_keeps_model [OF _ start_agrees _ first_malloc] start_table(2) [of "length [malloc_event 130]"]
  by (simp add: start_table(1) empty_fits malloc_effect)

text \<open>
  A free of a chunk that was allocated before the session started takes a live chunk of the same cell off
  the map: from a consistent model with one live chunk, such a free leaves a model that is not.
\<close>

theorem unknown_free_undercounts:
  "\<exists>a a' e. app_agrees a \<and> is_free e \<and> ct_map (ha_table a) (ev_ptr e) = None \<and> apply_event a e = Some a' \<and>
     \<not> app_agrees a' \<and> hm_total_live (ha_map a') = 0 \<and> live_at (ct_map (ha_table a')) 130"
proof -
  obtain a where a: "apply_events [malloc_event 130] start_app = Some a" "app_agrees a"
    "ct_map (ha_table a) = [130 \<mapsto> live_chunk 130 24 32 0 1]"
    using apply_events_agree [OF _ start_agrees _ first_malloc] start_table(2) [of "length [malloc_event 130]"]
    by (auto simp: start_table(1) empty_fits malloc_effect)
  have e1: "apply_event start_app (malloc_event 130) = Some a"
    using a(1) by (simp split: bind_splits)
  have "\<not> malloc_event 130 = free_event 130" "ev_op (malloc_event 130) AND HV_OP_MASK = 0"
    by (simp_all add: malloc_event_def free_event_def)
  then have map: "ha_map a = on_alloc demo_heat 130 24 32 0" "ha_origin_ns a = 0"
    using e1 by (auto simp: apply_event_def apply_alloc_def malloc_event_def event_ms_def start_app_def demo_app_def heap_app_with_def
        clamp_u32_def Let_def split: option.splits if_splits)
  have "table_inv (ha_table a)"
    using apply_event_total [of 0 start_app "malloc_event 130"] start_table(2) [of "Suc 0"] e1 by (auto simp: uncapped_ok_def)
  then have "find (ha_table a) 140 = None"
    using a(3) find_map [OF table_invD(1), of "ha_table a" 140] by auto
  then have a': "apply_event a (free_event 140) = Some (apply_free (a\<lparr>ha_scanner := note_address (ha_scanner a) 140\<rparr>) (free_event 140) 0)"
    "ha_table (apply_free (a\<lparr>ha_scanner := note_address (ha_scanner a) 140\<rparr>) (free_event 140) 0) = ha_table a"
    "ha_map (apply_free (a\<lparr>ha_scanner := note_address (ha_scanner a) 140\<rparr>) (free_event 140) 0) = on_free (on_alloc demo_heat 130 24 32 0) 140 32 32 0"
    using map by (simp_all add: apply_event_def apply_free_def free_event_def event_ms_def HV_OP_MASK_def)
  define a2 where "a2 = apply_free (a\<lparr>ha_scanner := note_address (ha_scanner a) 140\<rparr>) (free_event 140) 0"
  note a2 = a' [folded a2_def]
  have zero: "hm_total_live (on_free (on_alloc demo_heat 130 24 32 0) 140 32 32 0) = 0"
    "cell_for (on_free (on_alloc demo_heat 130 24 32 0) 140 32 32 0) 130 = Some 2"
    by code_simp+
  have "live_sum (\<lambda>_. 1) (on_map (ha_map a2)) (ct_map (ha_table a2)) = 1"
    using a2(2,3) a(3) zero(2) by (simp add: live_sum_def contrib_def on_map_def live_chunk_def)
  then have "\<not> app_agrees a2"
    using zero(1) a2(3) by (auto simp: app_agrees_def heat_agrees_def)
  then show ?thesis
    using a(2,3) a2 zero(1) malloc_effect(3) [of 140]
    by (intro exI [of _ a] exI [of _ a2] exI [of _ "free_event 140"]) (simp add: free_event_def live_at_def live_chunk_def)
qed

end
