(* ===== verification/Walk_Safety.thy ===== *)
theory Walk_Safety
  imports Heap_Walker
begin

text \<open>
  What a walk of a heap that is still moving can produce: whatever bytes the reads return, the chunks
  emitted for a region are well formed, lie inside it, ascend and do not overlap.
\<close>

section \<open>Packed chunks\<close>

definition sound_chunk :: "walked_chunk \<Rightarrow> bool" where
  "sound_chunk c \<longleftrightarrow> 16 \<le> unat (wc_user_ptr c) \<and> 32 \<le> unat (wc_chunk_size c) \<and> 16 dvd unat (wc_chunk_size c) \<and>
     unat (wc_usable c) = unat (wc_chunk_size c) - 8"

fun packed :: "nat \<Rightarrow> walked_chunk list \<Rightarrow> nat \<Rightarrow> bool" where
  "packed lo [] hi \<longleftrightarrow> lo \<le> hi"
| "packed lo (c # cs) hi \<longleftrightarrow> sound_chunk c \<and> lo \<le> unat (wc_user_ptr c) - 16 \<and>
     packed (unat (wc_user_ptr c) - 16 + unat (wc_chunk_size c)) cs hi"

lemma packed_mono: "packed lo cs hi \<Longrightarrow> hi \<le> hi' \<Longrightarrow> packed lo cs hi'"
  by (induction cs arbitrary: lo) auto

lemma packed_snoc:
  assumes "packed lo cs (unat (wc_user_ptr c) - 16)" "sound_chunk c"
  shows "packed lo (cs @ [c]) (unat (wc_user_ptr c) - 16 + unat (wc_chunk_size c))"
  using assms by (induction cs arbitrary: lo) auto

lemma packed_le: "packed lo cs hi \<Longrightarrow> lo \<le> hi"
  by (induction cs arbitrary: lo) fastforce+

lemma and_15: "(w :: u64) AND 15 = 0 \<Longrightarrow> 16 dvd unat w"
proof -
  assume "w AND 15 = 0"
  then have "unat (w AND (2 ^ 4 - 1)) = 0" by simp
  then show ?thesis
    unfolding unat_and_mask by (simp add: dvd_eq_mod_eq_0)
qed

lemma walked_sound:
  assumes "unat addr + unat sz < 2 ^ 63" "32 \<le> unat sz" "16 dvd unat sz"
  shows "sound_chunk (walked addr sz)" "unat (wc_user_ptr (walked addr sz)) - 16 = unat addr"
    "wc_chunk_size (walked addr sz) = sz"
proof -
  have "unat (addr + 16) = unat addr + 16"
    using assms by (simp add: unat_word_ariths)
  moreover have "unat (sz - 8) = unat sz - 8"
    using assms(2) by (simp add: unat_sub word_le_nat_alt)
  ultimately show "sound_chunk (walked addr sz)" "unat (wc_user_ptr (walked addr sz)) - 16 = unat addr"
    "wc_chunk_size (walked addr sz) = sz"
    using assms by (simp_all add: sound_chunk_def walked_def)
qed

section \<open>The invariant of the walk\<close>

definition emitted :: "walked_chunk list \<Rightarrow> walk_result \<Rightarrow> walked_chunk list \<Rightarrow> walk_acc \<Rightarrow> bool" where
  "emitted out s new a \<longleftrightarrow> wa_out a = out @ new \<and> wa_found a = of_nat (length new) \<and> length new \<le> 4194304 \<and>
     wr_chunks (wa_sum a) = wr_chunks s + of_nat (length new) \<and>
     wr_bytes (wa_sum a) = wr_bytes s + sum_list (map wc_usable new)"

definition walk_pos :: "u64 \<Rightarrow> walked_chunk list \<Rightarrow> (u64 \<times> u64) option \<Rightarrow> nat \<Rightarrow> bool" where
  "walk_pos start new prev here \<longleftrightarrow>
     (case prev of None \<Rightarrow> packed (unat start) new here
      | Some (p, s) \<Rightarrow> packed (unat start) new (unat p) \<and> unat p + unat s = here \<and> 32 \<le> unat s \<and> 16 dvd unat s)"

definition walk_inv :: "walked_chunk list \<Rightarrow> walk_result \<Rightarrow> u64 \<Rightarrow> nat \<Rightarrow> walk_acc \<Rightarrow> bool" where
  "walk_inv out s start here a \<longleftrightarrow>
     (\<exists>new. emitted out s new a \<and> length new < 4194304 \<and> walk_pos start new (wa_prev a) here)"

definition walk_done :: "walked_chunk list \<Rightarrow> walk_result \<Rightarrow> u64 \<Rightarrow> nat \<Rightarrow> walk_acc \<Rightarrow> bool" where
  "walk_done out s start hi a \<longleftrightarrow> (\<exists>new. emitted out s new a \<and> packed (unat start) new hi)"

lemma walk_inv_done: "walk_inv out s start here a \<Longrightarrow> here \<le> hi \<Longrightarrow> walk_done out s start hi a"
proof -
  assume "walk_inv out s start here a" "here \<le> hi"
  then obtain new where new: "emitted out s new a" "walk_pos start new (wa_prev a) here"
    by (auto simp: walk_inv_def)
  then have "packed (unat start) new hi"
    using \<open>here \<le> hi\<close> by (auto simp: walk_pos_def split: option.splits elim!: packed_mono)
  then show ?thesis
    using new(1) by (auto simp: walk_done_def)
qed

lemma judge_inv:
  assumes inv: "walk_inv out s start here a" and here: "here < 2 ^ 63" and j: "judge b a = (full, a1)"
  shows "if full then walk_done out s start here a1 else walk_inv out s start here a1 \<and> wa_prev a1 = None"
proof -
  obtain new where new: "emitted out s new a" "length new < 4194304" "walk_pos start new (wa_prev a) here"
    using inv by (auto simp: walk_inv_def)
  show ?thesis
  proof (cases "wa_prev a")
    case None
    then show ?thesis
      using inv j by (simp add: judge_def)
  next
    case (Some ps)
    obtain p sz where ps: "ps = (p, sz)" by fastforce
    have P: "packed (unat start) new (unat p)" "unat p + unat sz = here" "32 \<le> unat sz" "16 dvd unat sz"
      using new(3) Some ps by (simp_all add: walk_pos_def)
    note C = walked_sound [of p sz, OF _ P(3,4)]
    have sn: "packed (unat start) (new @ [walked p sz]) here"
      using packed_snoc [of "unat start" new "walked p sz"] P C here by simp
    have found: "kMaxChunksPerRegion \<le> wa_found a + 1 \<longleftrightarrow> 4194304 \<le> Suc (length new)"
    proof -
      have "wa_found a + 1 = of_nat (Suc (length new))"
        using new(1) by (simp add: emitted_def)
      moreover have "unat (of_nat (Suc (length new)) :: u64) = Suc (length new)"
        by (rule unat_of_nat_small) (use new(2) in simp)
      moreover have "unat kMaxChunksPerRegion = 4194304"
        by (simp add: kMaxChunksPerRegion_def)
      ultimately show ?thesis
        by (simp only: word_le_nat_alt)
    qed
    show ?thesis
    proof (cases b)
      case True
      let ?a = "a\<lparr>wa_out := wa_out a @ [walked p sz],
          wa_sum := (wa_sum a)\<lparr>wr_chunks := wr_chunks (wa_sum a) + 1, wr_bytes := wr_bytes (wa_sum a) + wc_usable (walked p sz)\<rparr>,
          wa_found := wa_found a + 1\<rparr>"
      have em: "emitted out s (new @ [walked p sz]) ?a"
        using new(1,2) by (simp add: emitted_def)
      show ?thesis
      proof (cases "4194304 \<le> Suc (length new)")
        case full: True
        then have "full" "a1 = ?a\<lparr>wa_sum := (wa_sum ?a)\<lparr>wr_truncated := True\<rparr>\<rparr>"
          using j Some ps True found by (simp_all add: judge_def Let_def)
        then show ?thesis
          using em sn unfolding walk_done_def by (auto simp: emitted_def intro!: exI [of _ "new @ [walked p sz]"])
      next
        case False
        then have "\<not> full" "a1 = ?a\<lparr>wa_prev := None\<rparr>"
          using j Some ps True found by (simp_all add: judge_def Let_def)
        then show ?thesis
          using em sn False unfolding walk_inv_def
          by (auto simp: emitted_def walk_pos_def intro!: exI [of _ "new @ [walked p sz]"])
      qed
    next
      case False
      then have "\<not> full" "wa_prev a1 = None" "emitted out s new a1"
        using j Some ps new(1) by (auto simp: judge_def Let_def emitted_def)
      moreover have "packed (unat start) new here"
        using packed_mono [OF P(1), of here] P(2) by simp
      ultimately show ?thesis
        using new(2) by (auto simp: walk_inv_def walk_pos_def)
    qed
  qed
qed

lemma good_headerD:
  assumes "\<not> bad_header start end' here sz" "start \<le> end'" "unat end' < 2 ^ 63" "here \<le> end'"
  shows "32 \<le> unat sz" "16 dvd unat sz" "unat here + unat sz \<le> unat end'" "unat (here + sz) = unat here + unat sz"
proof -
  have g: "\<not> sz < 32" "sz AND 15 = 0" "\<not> here + sz > end'" "\<not> sz > end' - start"
    using assms(1) by (auto simp: bad_header_def kWalkMinChunk_def kWalkAlign_def)
  show "32 \<le> unat sz" "16 dvd unat sz"
    using g(1) and_15 [OF g(2)] by (simp_all add: word_less_nat_alt not_less)
  have "unat sz \<le> unat end'"
    using g(4) assms(2) by (simp add: word_less_nat_alt not_less unat_sub)
  then have "unat here + unat sz < 2 ^ 64"
    using assms(3,4) by (simp add: word_le_nat_alt)
  then show "unat (here + sz) = unat here + unat sz"
    by (simp add: unat_word_ariths)
  then show "unat here + unat sz \<le> unat end'"
    using g(3) by (simp add: word_less_nat_alt not_less)
qed

lemma unat_here:
  assumes "unat cursor + off < 2 ^ 63"
  shows "unat (cursor + of_nat off :: u64) = unat cursor + off"
proof -
  have "unat (of_nat off :: u64) = off"
    by (rule unat_of_nat_small) (use assms in simp)
  then show ?thesis
    using assms by (simp add: unat_word_ariths)
qed

lemma walk_block_inv:
  assumes "unat end' < 2 ^ 63" "start \<le> end'" "unat cursor + off \<le> unat end'"
    and "walk_inv out s start (unat cursor + off) a" and "walk_block start end' cursor block off a = (ok, off', a')"
  shows "walk_done out s start (unat end') a' \<and>
    (ok \<longrightarrow> unat cursor + off' \<le> unat end' \<and> walk_inv out s start (unat cursor + off') a')"
  using assms(3-5)
proof (induction "length block - off" arbitrary: off a rule: less_induct)
  case less
  let ?h = "unat cursor + off"
  show ?case
  proof (cases "off + 16 \<le> length block")
    case False
    then show ?thesis
      using less.prems walk_inv_done by (auto simp: walk_block.simps [of _ _ _ _ off])
  next
    case True
    let ?f = "load_u64 block (off + 8)" and ?here = "cursor + of_nat off :: u64"
    let ?sz = "size_of_field ?f"
    obtain full a1 where j: "judge (?f AND 1 \<noteq> 0) a = (full, a1)" by fastforce
    have here: "unat ?here = ?h" and lt: "?h < 2 ^ 63"
      using less.prems(1) assms(1) by (simp_all add: unat_here)
    note J = judge_inv [OF less.prems(2) lt j]
    note step = less.prems(3) [unfolded walk_block.simps [of _ _ _ _ off], simplified True j Let_def prod.case if_True]
    show ?thesis
    proof (cases "full \<or> bad_header start end' ?here ?sz")
      case True
      then have "walk_done out s start ?h a1" "\<not> ok" "a' = a1"
        using J step walk_inv_done [of out s start ?h a1 ?h] by (auto split: if_splits)
      then show ?thesis
        using less.prems(1) by (auto simp: walk_done_def intro: packed_mono)
    next
      case False
      have le: "?here \<le> end'"
        using less.prems(1) here by (simp add: word_le_nat_alt)
      note G = good_headerD [OF _ assms(2,1) le, of ?sz]
      have inv: "walk_inv out s start (unat cursor + (off + unat ?sz)) (a1\<lparr>wa_prev := Some (?here, ?sz)\<rparr>)"
        using J False G here by (auto simp: walk_inv_def walk_pos_def emitted_def add.assoc)
      have "walk_block start end' cursor block (off + unat ?sz) (a1\<lparr>wa_prev := Some (?here, ?sz)\<rparr>) = (ok, off', a')"
        using step False by simp
      moreover have "length block - (off + unat ?sz) < length block - off"
        using G(1) False True by simp
      ultimately show ?thesis
        using less.hyps [OF _ _ inv] G(3) False here by simp
    qed
  qed
qed

lemma walk_blocks_inv:
  assumes "unat end' < 2 ^ 63" "start \<le> end'" "cursor \<le> end'"
    and "walk_inv out s start (unat cursor) a" and "walk_blocks rd start end' blocks cursor a w = (a', w')"
  shows "walk_done out s start (unat end') a'"
  using assms(3-5)
proof (induction "kMaxBlocksPerRegion - blocks" arbitrary: blocks cursor a w rule: less_induct)
  case less
  have now: "walk_done out s start (unat end') a"
    using walk_inv_done [OF less.prems(2)] less.prems(1) by (simp add: word_le_nat_alt)
  note eq = less.prems(3) [unfolded walk_blocks.simps [of _ _ _ blocks]]
  show ?case
  proof (cases "cursor + 16 \<le> end' \<and> \<not> blocks + 1 > kMaxBlocksPerRegion")
    case False
    then show ?thesis
      using eq now by (auto simp: walk_done_def emitted_def split: if_splits)
  next
    case True
    let ?want = "unat (if end' - cursor < kWalkBlockBytes then end' - cursor else kWalkBlockBytes)"
    obtain res w1 where rb: "read_block rd w cursor ?want = (res, w1)" by fastforce
    show ?thesis
    proof (cases "\<exists>block. res = Block block \<and> block \<noteq> []")
      case False
      then show ?thesis
        using eq True rb now by (cases res) (auto simp: Let_def)
    next
      case read: True
      then obtain block where block: "res = Block block" "block \<noteq> []" by blast
      obtain ok off a1 where wb: "walk_block start end' cursor block 0 a = (ok, off, a1)"
        by (metis prod_cases3)
      have W: "walk_done out s start (unat end') a1"
        "ok \<Longrightarrow> unat cursor + off \<le> unat end' \<and> walk_inv out s start (unat cursor + off) a1"
        using walk_block_inv [OF assms(1,2) _ _ wb, of out s] less.prems(1,2) by (auto simp: word_le_nat_alt)
      show ?thesis
      proof (cases "\<not> ok \<or> off = 0")
        case True
        then show ?thesis
          using eq \<open>cursor + 16 \<le> end' \<and> _\<close> rb block wb W(1) by (simp add: Let_def)
      next
        case False
        then have next': "walk_blocks rd start end' (blocks + 1) (cursor + of_nat off) a1 (w1\<lparr>hw_blocks := hw_blocks w1 + 1\<rparr>) = (a', w')"
          using eq True rb block wb by (simp add: Let_def)
        have u: "unat (cursor + of_nat off) = unat cursor + off"
          using W(2) False assms(1) by (intro unat_here) auto
        show ?thesis
          using less.hyps [OF _ _ _ next'] True W(2) False u by (auto simp: word_le_nat_alt)
      qed
    qed
  qed
qed

section \<open>Regions\<close>

text \<open>\<open>bounded_reads\<close>: a read returns no more bytes than it was asked for.\<close>

definition bounded_reads :: "block_reader \<Rightarrow> bool" where
  "bounded_reads rd \<longleftrightarrow> (\<forall>k a n bs. rd k a n = Block bs \<longrightarrow> length bs \<le> n)"

lemma probe_loop_bound:
  assumes "probe_loop block span limit off best_off best_score = (bo, bs)" "best_score = 0 \<or> best_off + 16 \<le> limit"
  shows "bs = 0 \<or> bo + 16 \<le> limit"
  using assms
proof (induction "limit - off" arbitrary: off best_off best_score rule: less_induct)
  case less
  let ?s = "score_chain block off span 0"
  have shorter: "limit - (off + 16) < limit - off" if "off + 16 \<le> limit"
    using that by simp
  show ?case
    using less.prems less.hyps [OF shorter, of off ?s] less.hyps [OF shorter, of best_off best_score]
    by (auto simp: probe_loop.simps [of block span limit off] Let_def split: if_splits)
qed

lemma find_chain_start_bound: "find_chain_start block span = Some off \<Longrightarrow> off + 16 \<le> length block"
  using probe_loop_bound [of block span "if length block < kMaxProbeBytes then length block else kMaxProbeBytes" 0 0 0]
  by (auto simp: find_chain_start_def Let_def kMinChainProbe_def split: prod.splits if_splits)

lemma walk_region_sound:
  assumes "bounded_reads rd" "unat (r_end r) < 2 ^ 63" "walk_region rd w r out smry = (chained, out', smry', w')"
  shows "\<exists>new. out' = out @ new \<and> packed (unat (r_start r)) new (max (unat (r_start r)) (unat (r_end r))) \<and>
    (chained \<longleftrightarrow> new \<noteq> []) \<and> wr_chunks smry' = wr_chunks smry + of_nat (length new) \<and>
    wr_bytes smry' = wr_bytes smry + sum_list (map wc_usable new)"
proof -
  let ?start = "r_start r" and ?lim = "r_end r"
  let ?len = "unat (if ?lim - ?start < kWalkBlockBytes then ?lim - ?start else kWalkBlockBytes)"
  obtain res w1 where rb: "read_block rd w ?start ?len = (res, w1)" by fastforce
  show ?thesis
  proof (cases "\<exists>block off. \<not> (?lim \<le> ?start \<or> ?lim - ?start < kWalkMinChunk) \<and> res = Block block \<and> block \<noteq> [] \<and>
      find_chain_start block (?lim - ?start) = Some off")
    case False
    then have "\<not> chained" "out' = out" "smry' = smry"
      using assms(3) rb by (auto simp: walk_region_def Let_def split: if_splits block_result.splits option.splits)
    then show ?thesis by simp
  next
    case True
    then obtain block off where b: "\<not> (?lim \<le> ?start \<or> ?lim - ?start < kWalkMinChunk)" "res = Block block" "block \<noteq> []"
      "find_chain_start block (?lim - ?start) = Some off" by blast
    have len: "length block \<le> ?len"
      using assms(1) rb b(2) by (auto simp: bounded_reads_def read_block_def Let_def split: block_result.splits)
    moreover have "?len \<le> unat (?lim - ?start)"
      by (simp add: word_le_nat_alt not_less)
    moreover have "unat (?lim - ?start) = unat ?lim - unat ?start" "unat ?start \<le> unat ?lim"
      using b(1) by (simp_all add: unat_sub not_le word_le_nat_alt less_imp_le)
    ultimately have off: "unat ?start + off \<le> unat ?lim"
      using find_chain_start_bound [OF b(4)] by linarith
    then have u: "unat (?start + of_nat off) = unat ?start + off"
      using assms(2) by (intro unat_here) simp
    let ?a = "\<lparr>wa_out = out, wa_sum = smry, wa_found = 0, wa_prev = None\<rparr>"
    obtain a w3 where wb: "walk_blocks rd ?start ?lim 0 (?start + of_nat off) ?a (w1\<lparr>hw_cursor_start := ?start + of_nat off\<rparr>) = (a, w3)"
      by fastforce
    have "walk_inv out smry ?start (unat (?start + of_nat off)) ?a"
      by (simp add: walk_inv_def walk_pos_def emitted_def u exI [of _ "[]"])
    from walk_blocks_inv [OF assms(2) _ _ this wb] obtain new where new: "emitted out smry new a" "packed (unat ?start) new (unat ?lim)"
      using b(1) off u by (auto simp: walk_done_def word_le_nat_alt)
    have "chained = (wa_found a > 0)" "out' = wa_out a" "smry' = wa_sum a"
      using assms(3) b rb wb by (simp_all add: walk_region_def Let_def)
    moreover have "wa_found a > 0 \<longleftrightarrow> new \<noteq> []"
    proof -
      have "unat (wa_found a) = length new"
        using new(1) unat_of_nat_small [of "length new", where 'a=64] by (simp add: emitted_def)
      then show ?thesis
        by (simp add: word_less_nat_alt)
    qed
    ultimately show ?thesis
      using new packed_mono by (auto simp: emitted_def)
  qed
qed

end
