(* ===== verification/Walk_Properties.thy ===== *)
theory Walk_Properties
  imports Walk_Safety
begin

text \<open>
  Properties of the heap walker of \<^verbatim>\<open>tui/heap_walker.cpp\<close>: the safety of a whole walk over arbitrary
  memory, and the equivalence of the block-wise walk with a walk that reads one header at a time.
\<close>

section \<open>All regions\<close>

definition chunk_start :: "walked_chunk \<Rightarrow> nat" where
  "chunk_start c = unat (wc_user_ptr c) - 16"

definition chunk_end :: "walked_chunk \<Rightarrow> nat" where
  "chunk_end c = chunk_start c + unat (wc_chunk_size c)"

definition inside :: "region \<Rightarrow> walked_chunk \<Rightarrow> bool" where
  "inside r c \<longleftrightarrow> allocatable r \<and> r_perms r AND kPermRead \<noteq> 0 \<and> unat (r_start r) \<le> chunk_start c \<and> chunk_end c \<le> unat (r_end r)"

lemma packed_mem:
  assumes "packed lo cs hi" "c \<in> set cs"
  shows "sound_chunk c" "lo \<le> chunk_start c" "chunk_end c \<le> hi"
  using assms
proof (induction cs arbitrary: lo)
  case (Cons d cs)
  {
    case 1
    then show ?case using Cons.IH(1) by auto
  next
    case 2
    have "chunk_start d \<le> chunk_start c" if "c \<in> set cs"
      using Cons.IH(2) [OF _ that] 2 by (fastforce simp: chunk_start_def)
    then show ?case
      using 2 by (auto simp: chunk_start_def)
  next
    case 3
    then show ?case
      using Cons.IH(3) packed_le by (auto simp: chunk_start_def chunk_end_def)
  }
qed simp_all

lemma packed_sorted: "packed lo cs hi \<Longrightarrow> sorted_wrt (\<lambda>c d. chunk_end c \<le> chunk_start d) cs"
  by (induction cs arbitrary: lo) (auto simp: chunk_end_def chunk_start_def dest: packed_mem(2))

lemma packed_append:
  assumes "packed lo cs m" "packed m ds hi"
  shows "packed lo (cs @ ds) hi"
  using assms
proof (induction cs arbitrary: lo)
  case Nil
  then show ?case by (cases ds) auto
qed auto

lemma packed_lower: "packed lo cs hi \<Longrightarrow> lo' \<le> lo \<Longrightarrow> packed lo' cs hi"
  by (cases cs) auto

lemma walk_regions_sound:
  assumes rd: "bounded_reads rd" and "\<And>r. r \<in> set rs \<Longrightarrow> unat (r_end r) < 2 ^ 63" and "ascending r_start r_end rs"
    and "lo < 2 ^ 63" "\<And>r. r \<in> set rs \<Longrightarrow> lo \<le> unat (r_start r)" and "walk_regions rd rs out smry w = (res, out', w')"
  shows "\<exists>new. out' = out @ new \<and> packed lo new (2 ^ 63) \<and> (\<forall>c \<in> set new. \<exists>r. r \<in> set rs \<and> inside r c) \<and>
    wr_chunks res = wr_chunks smry + of_nat (length new) \<and> wr_bytes res = wr_bytes smry + sum_list (map wc_usable new)"
  using assms(2-6)
proof (induction rs arbitrary: lo out smry w)
  case Nil
  then show ?case by simp
next
  case (Cons r rs)
  have asc: "ascending r_start r_end rs" "r_start r \<le> r_end r" and above: "\<And>q. q \<in> set rs \<Longrightarrow> r_end r \<le> r_start q"
    using Cons.prems(2) by (auto simp: ascending_def)
  note IH = Cons.IH [OF Cons.prems(1) asc(1)]
  show ?case
  proof (cases "\<not> allocatable r \<or> r_perms r AND kPermRead = 0")
    case True
    then have "walk_regions rd rs out smry w = (res, out', w')"
      using Cons.prems(5) by (simp split: if_splits)
    from IH [OF _ Cons.prems(3) _ this] obtain new where "out' = out @ new" "packed lo new (2 ^ 63)"
      "\<forall>c \<in> set new. \<exists>q. q \<in> set rs \<and> inside q c" "wr_chunks res = wr_chunks smry + of_nat (length new)"
      "wr_bytes res = wr_bytes smry + sum_list (map wc_usable new)"
      using Cons.prems(4) by auto
    then show ?thesis
      by (intro exI [of _ new]) auto
  next
    case False
    obtain chained out1 smry1 w1 where wr: "walk_region rd w r out smry = (chained, out1, smry1, w1)"
      by (metis prod_cases4)
    obtain n1 where n1: "out1 = out @ n1" "packed (unat (r_start r)) n1 (unat (r_end r))"
      "wr_chunks smry1 = wr_chunks smry + of_nat (length n1)" "wr_bytes smry1 = wr_bytes smry + sum_list (map wc_usable n1)"
      using walk_region_sound [OF rd _ wr] Cons.prems(1) asc(2) by (auto simp: word_le_nat_alt max_def)
    have p1: "packed lo n1 (unat (r_end r))" and end63: "unat (r_end r) < 2 ^ 63"
      using packed_lower [OF n1(2)] Cons.prems(1,4) by auto
    have in1: "\<exists>q. q \<in> set (r # rs) \<and> inside q c" if "c \<in> set n1" for c
      using packed_mem [OF n1(2) that] False by (auto simp: inside_def)
    show ?thesis
    proof (cases "hw_denied w1 \<or> hw_gone w1")
      case True
      then show ?thesis
        using Cons.prems(5) False wr n1 packed_mono [OF p1, of "2 ^ 63"] end63 in1
        by (auto split: if_splits)
    next
      case going: False
      let ?more = "if chained then (if r_end r - r_start r > accounted r out1 then r_end r - r_start r - accounted r out1 else 0)
        else r_end r - r_start r"
      have "walk_regions rd rs out1 (smry1\<lparr>wr_opaque_bytes := wr_opaque_bytes smry1 + ?more\<rparr>) w1 = (res, out', w')"
        using Cons.prems(5) False wr going by (simp add: Let_def)
      from IH [OF _ end63 _ this] obtain n2 where n2: "out' = out1 @ n2" "packed (unat (r_end r)) n2 (2 ^ 63)"
        "\<forall>c \<in> set n2. \<exists>q. q \<in> set rs \<and> inside q c"
        "wr_chunks res = wr_chunks smry1 + of_nat (length n2)" "wr_bytes res = wr_bytes smry1 + sum_list (map wc_usable n2)"
        using Cons.prems(1) above by (auto simp: word_le_nat_alt)
      show ?thesis
        using n1 n2 packed_append [OF p1 n2(2)] in1 by (intro exI [of _ "n1 @ n2"]) auto
    qed
  qed
qed


text \<open>A heap of six 32-byte chunks, all in use, that ends at the end of its region.\<close>

definition demo_image :: "u8 list" where
  "demo_image = concat (replicate 6 (replicate 8 0 @ 33 # replicate 23 0))"

definition demo_reads :: block_reader where
  "demo_reads k a n = Block (take n (drop (unat (a - 4096)) demo_image))"

definition demo_arena :: region where
  "demo_arena = \<lparr>r_start = 4096, r_end = 4288, r_file_offset = 0, r_inode = 0, r_kind = RHeap, r_perms = 11, r_thread_arena = False\<rparr>"

lemma demo_walk: "map wc_user_ptr (fst (snd (walker_walk demo_reads (heap_walker_new 7) [demo_arena]))) = [4112, 4144, 4176, 4208, 4240]"
  by code_simp


section \<open>One header at a time\<close>

text \<open>
  \<open>image_reads\<close>: the target stands still and is readable, so every read returns the bytes asked for.
\<close>

definition image_reads :: "(u64 \<Rightarrow> u8) \<Rightarrow> block_reader \<Rightarrow> bool" where
  "image_reads img rd \<longleftrightarrow> (\<forall>k a n. rd k a n = Block (map (\<lambda>j. img (a + of_nat j)) [0..<n]))"

text \<open>The reference: follow the chain through memory, one header after the other, to the end of the region.\<close>

function chain_ref :: "(u64 \<Rightarrow> u8) \<Rightarrow> u64 \<Rightarrow> u64 \<Rightarrow> nat \<Rightarrow> walk_acc \<Rightarrow> walk_acc" where
  "chain_ref img start end' here a =
     (if here + 16 \<le> unat end'
      then (let size_field = le_word (map (\<lambda>j. img (of_nat (here + 8 + j))) [0..<8]);
                size = size_of_field size_field;
                (full, a1) = judge (size_field AND 1 \<noteq> 0) a
            in if full \<or> bad_header start end' (of_nat here) size then a1
               else chain_ref img start end' (here + unat size) (a1\<lparr>wa_prev := Some (of_nat here, size)\<rparr>))
      else a)"
  by pat_completeness auto
termination
  by (relation "measure (\<lambda>(img, start, end', here, a). unat end' - here)") (auto dest!: good_header_size)

declare chain_ref.simps [simp del]

lemma load_image:
  assumes "off + 16 \<le> n"
  shows "load_u64 (map (\<lambda>j. img (cursor + of_nat j :: u64)) [0..<n]) (off + 8) =
    le_word (map (\<lambda>j. img (of_nat (unat cursor + off + 8 + j))) [0..<8])"
proof -
  have "take 8 (drop (off + 8) (map (\<lambda>j. img (cursor + of_nat j)) [0..<n])) =
      map (\<lambda>j. img (of_nat (unat cursor + off + 8 + j))) [0..<8]"
    using assms by (intro nth_equalityI) (simp_all add: algebra_simps)
  then show ?thesis
    by (simp add: load_u64_def)
qed

lemma walk_block_ref:
  assumes "unat cursor + n \<le> unat end'" "walk_block start end' cursor (map (\<lambda>j. img (cursor + of_nat j)) [0..<n]) off a = (ok, off', a')"
  shows "chain_ref img start end' (unat cursor + off) a = (if ok then chain_ref img start end' (unat cursor + off') a' else a') \<and>
    (ok \<longrightarrow> n < off' + 16)"
  using assms(2)
proof (induction "n - off" arbitrary: off a rule: less_induct)
  case less
  let ?block = "map (\<lambda>j. img (cursor + of_nat j)) [0..<n]"
  show ?case
  proof (cases "off + 16 \<le> n")
    case False
    then show ?thesis
      using less.prems by (auto simp: walk_block.simps [of _ _ _ _ off])
  next
    case True
    let ?f = "load_u64 ?block (off + 8)" and ?here = "of_nat (unat cursor + off) :: u64"
    obtain full a1 where j: "judge (?f AND 1 \<noteq> 0) a = (full, a1)" by fastforce
    have here: "cursor + of_nat off = ?here" by simp
    have ref: "chain_ref img start end' (unat cursor + off) a =
        (if full \<or> bad_header start end' ?here (size_of_field ?f) then a1
         else chain_ref img start end' (unat cursor + (off + unat (size_of_field ?f))) (a1\<lparr>wa_prev := Some (?here, size_of_field ?f)\<rparr>))"
    proof -
      have "unat cursor + off + 16 \<le> unat end'"
        using True assms(1) by simp
      then show ?thesis
        using j unfolding load_image [OF True]
        by (subst chain_ref.simps) (simp only: if_True Let_def prod.case add.assoc)
    qed
    have blk: "(ok, off', a') = (if full \<or> bad_header start end' ?here (size_of_field ?f) then (False, off, a1)
         else walk_block start end' cursor ?block (off + unat (size_of_field ?f)) (a1\<lparr>wa_prev := Some (?here, size_of_field ?f)\<rparr>))"
    proof -
      have "off + 16 \<le> length ?block"
        using True by simp
      then have "(ok, off', a') = (case (full, a1) of (full, a1) \<Rightarrow> if full then (False, off, a1)
          else if bad_header start end' ?here (size_of_field ?f) then (False, off, a1)
          else walk_block start end' cursor ?block (off + unat (size_of_field ?f)) (a1\<lparr>wa_prev := Some (?here, size_of_field ?f)\<rparr>))"
        using less.prems by (subst (asm) walk_block.simps) (simp only: if_True Let_def here j)
      then show ?thesis by auto
    qed
    show ?thesis
    proof (cases "full \<or> bad_header start end' ?here (size_of_field ?f)")
      case True
      then show ?thesis
        using ref blk by simp
    next
      case False
      then have "32 \<le> unat (size_of_field ?f)"
        using good_header_size by blast
      then show ?thesis
        using less.hyps [of "off + unat (size_of_field ?f)" "a1\<lparr>wa_prev := Some (?here, size_of_field ?f)\<rparr>"] ref blk False True by simp
    qed
  qed
qed

lemma walk_blocks_ref:
  assumes img: "image_reads img rd" and end63: "unat end' < 2 ^ 63" and se: "start \<le> end'" and "cursor \<le> end'"
    and "walk_inv out s start (unat cursor) a"
    and "unat end' < unat cursor + 16 \<or> unat end' - unat cursor \<le> (8192 - blocks) * 262129"
  shows "fst (walk_blocks rd start end' blocks cursor a w) = chain_ref img start end' (unat cursor) a"
  using assms(4-6)
proof (induction "8192 - blocks" arbitrary: blocks cursor a w rule: less_induct)
  case less
  note prems = less.prems
  have u16: "unat (cursor + 16) = unat cursor + 16"
    using prems(1) end63 by (simp add: word_le_nat_alt unat_word_ariths)
  show ?case
  proof (cases "unat cursor + 16 \<le> unat end'")
    case False
    then show ?thesis
      using u16 by (simp add: walk_blocks.simps [of _ _ _ blocks] chain_ref.simps [of _ _ _ "unat cursor"] word_le_nat_alt)
  next
    case True
    have blocks: "blocks < 8192"
    proof (rule ccontr)
      assume "\<not> blocks < 8192"
      then show False using prems(3) True by simp
    qed
    let ?n = "unat (if end' - cursor < kWalkBlockBytes then end' - cursor else kWalkBlockBytes)"
    let ?block = "map (\<lambda>j. img (cursor + of_nat j)) [0..<?n]"
    have rem: "unat (end' - cursor) = unat end' - unat cursor"
      using prems(1) by (simp add: unat_sub)
    have n: "?n = (if unat end' - unat cursor < 262144 then unat end' - unat cursor else 262144)"
      by (simp add: kWalkBlockBytes_def word_less_nat_alt rem)
    then have n16: "16 \<le> ?n" and fits: "unat cursor + ?n \<le> unat end'"
      using True by auto
    have rb: "read_block rd w cursor ?n = (Block ?block, w\<lparr>hw_reads := hw_reads w + 1\<rparr>)"
      using img by (simp add: read_block_def image_reads_def Let_def)
    obtain ok off a1 where wb: "walk_block start end' cursor ?block 0 a = (ok, off, a1)"
      by (metis prod_cases3)
    note R = walk_block_ref [OF fits wb]
    have ne: "?block \<noteq> []" and off: "ok \<Longrightarrow> off \<noteq> 0"
      using n16 R by auto
    let ?w = "w\<lparr>hw_reads := hw_reads w + 1, hw_blocks := hw_blocks w + 1\<rparr>"
    have eq: "walk_blocks rd start end' blocks cursor a w =
        (if \<not> ok then (a1, ?w) else walk_blocks rd start end' (blocks + 1) (cursor + of_nat off) a1 ?w)"
      using True blocks u16 rb ne off wb
      by (subst walk_blocks.simps) (auto simp: Let_def word_le_nat_alt kMaxBlocksPerRegion_def)
    show ?thesis
    proof (cases ok)
      case False
      then show ?thesis
        using eq R by simp
    next
      case True
      have W: "unat cursor + off \<le> unat end'" "walk_inv out s start (unat cursor + off) a1"
        using walk_block_inv [OF end63 se _ _ wb, of out s] prems(1,2) True by (auto simp: word_le_nat_alt)
      have u: "unat (cursor + of_nat off) = unat cursor + off"
        using W(1) end63 by (intro unat_here) simp
      have "unat end' < unat cursor + off + 16 \<or> unat end' - (unat cursor + off) \<le> (8192 - (blocks + 1)) * 262129"
      proof (cases "unat end' - unat cursor < 262144")
        case True
        then have "unat end' - unat cursor < off + 16"
          using R n \<open>ok\<close> by simp
        then have "unat end' < unat cursor + off + 16"
          using W(1) by linarith
        then show ?thesis ..
      next
        case False
        then have "262129 \<le> off"
          using R n \<open>ok\<close> by simp
        moreover have "(8192 - blocks) * 262129 = (8192 - (blocks + 1)) * 262129 + 262129"
          using blocks by (simp add: algebra_simps)
        ultimately show ?thesis
          using prems(3) by linarith
      qed
      then have "fst (walk_blocks rd start end' (blocks + 1) (cursor + of_nat off) a1 ?w) =
          chain_ref img start end' (unat (cursor + of_nat off)) a1"
        using less.hyps [of "blocks + 1" "cursor + of_nat off" a1 ?w] blocks W u by (simp add: word_le_nat_alt)
      then show ?thesis
        using eq R True u by simp
    qed
  qed
qed

text \<open>
  (C32) Reading a region in blocks and restarting each read at the cursor loses nothing: for a target that
  stands still, and a region of up to about 2 GiB, the walk of a region reports exactly what a walk
  that reads one header at a time reports, chunks that straddle a block boundary included.
\<close>

theorem walk_region_blockwise:
  assumes "image_reads img rd" and "r_start r \<le> r_end r" and "unat (r_end r) < 2 ^ 63"
    and "32 \<le> unat (r_end r) - unat (r_start r)" and "unat (r_end r) - unat (r_start r) \<le> 8192 * 262129"
    and "n = min (unat (r_end r) - unat (r_start r)) 262144"
    and "find_chain_start (map (\<lambda>j. img (r_start r + of_nat j)) [0..<n]) (r_end r - r_start r) = Some off"
  shows "\<exists>w'. walk_region rd w r out smry =
    (let a = chain_ref img (r_start r) (r_end r) (unat (r_start r) + off)
               \<lparr>wa_out = out, wa_sum = smry, wa_found = 0, wa_prev = None\<rparr>
     in (wa_found a > 0, wa_out a, wa_sum a, w'))"
proof -
  let ?s = "r_start r" and ?e = "r_end r"
  have span: "unat (?e - ?s) = unat ?e - unat ?s"
    using assms(2) by (simp add: unat_sub)
  have guard: "\<not> (?e \<le> ?s \<or> ?e - ?s < kWalkMinChunk)"
    using assms(4) by (auto simp: word_le_nat_alt word_less_nat_alt span kWalkMinChunk_def)
  have n: "unat (if ?e - ?s < kWalkBlockBytes then ?e - ?s else kWalkBlockBytes) = n"
    by (simp add: kWalkBlockBytes_def word_less_nat_alt span assms(6) min_def)
  have ob: "off + 16 \<le> n" and ne: "map (\<lambda>j. img (?s + of_nat j)) [0..<n] \<noteq> []"
    using find_chain_start_bound [OF assms(7)] by auto
  have le: "unat ?s + off \<le> unat ?e"
    using ob assms(4,6) by (auto simp: min_def split: if_splits)
  then have u: "unat (?s + of_nat off) = unat ?s + off"
    using assms(3) by (intro unat_here) simp
  let ?a = "\<lparr>wa_out = out, wa_sum = smry, wa_found = 0, wa_prev = None\<rparr>"
  let ?w = "w\<lparr>hw_reads := hw_reads w + 1, hw_cursor_start := ?s + of_nat off\<rparr>"
  have "walk_inv out smry ?s (unat (?s + of_nat off)) ?a"
    by (simp add: walk_inv_def walk_pos_def emitted_def u exI [of _ "[]"])
  moreover have "unat ?e - (unat ?s + off) \<le> 2147360768"
    using assms(5) by linarith
  ultimately have "fst (walk_blocks rd ?s ?e 0 (?s + of_nat off) ?a ?w) = chain_ref img ?s ?e (unat ?s + off) ?a"
    using walk_blocks_ref [OF assms(1,3,2), of "?s + of_nat off" out smry ?a 0 ?w] u le assms(5)
    by (simp add: word_le_nat_alt)
  moreover have "read_block rd w ?s n = (Block (map (\<lambda>j. img (?s + of_nat j)) [0..<n]), w\<lparr>hw_reads := hw_reads w + 1\<rparr>)"
    using assms(1) by (simp add: read_block_def image_reads_def Let_def)
  ultimately show ?thesis
    using guard ne assms(7) n
    by (intro exI [of _ "snd (walk_blocks rd ?s ?e 0 (?s + of_nat off) ?a ?w)"])
      (simp add: walk_region_def Let_def split_beta)
qed

definition demo_memory :: "u64 \<Rightarrow> u8" where
  "demo_memory a = (if a AND 31 = 8 then 33 else 0)"

theorem walk_region_blockwise_witness:
  "\<exists>w'. walk_region (\<lambda>k a n. Block (map (\<lambda>j. demo_memory (a + of_nat j)) [0..<n])) (heap_walker_new 7)
      demo_arena [] walk_result_new =
    (let a = chain_ref demo_memory 4096 4288 4096 \<lparr>wa_out = [], wa_sum = walk_result_new, wa_found = 0, wa_prev = None\<rparr>
     in (wa_found a > 0, wa_out a, wa_sum a, w'))"
proof -
  have img: "image_reads demo_memory (\<lambda>k a n. Block (map (\<lambda>j. demo_memory (a + of_nat j)) [0..<n]))"
    by (simp add: image_reads_def)
  have arena: "r_start demo_arena = 4096" "r_end demo_arena = 4288" "unat (4096 :: u64) + 0 = 4096" "(4288 :: u64) - 4096 = 192"
    by (simp_all add: demo_arena_def)
  have bounds: "r_start demo_arena \<le> r_end demo_arena" "unat (r_end demo_arena) < 2 ^ 63"
    "32 \<le> unat (r_end demo_arena) - unat (r_start demo_arena)"
    "unat (r_end demo_arena) - unat (r_start demo_arena) \<le> 8192 * 262129"
    "192 = min (unat (r_end demo_arena) - unat (r_start demo_arena)) 262144"
    by (simp_all add: demo_arena_def)
  have mem: "map (\<lambda>j. demo_memory (4096 + of_nat j)) [0..<192] = demo_image"
    by code_simp
  have "find_chain_start demo_image 192 = Some 0"
    by code_simp
  then have "find_chain_start (map (\<lambda>j. demo_memory (r_start demo_arena + of_nat j)) [0..<192])
      (r_end demo_arena - r_start demo_arena) = Some 0"
    by (simp only: arena mem)
  from walk_region_blockwise [OF img bounds this, of "heap_walker_new 7" "[]" walk_result_new] show ?thesis
    by (simp only: arena)
qed

end
