(* ===== verification/App_Frames.thy ===== *)
theory App_Frames
  imports App_Agreement Walk_Properties
begin

text \<open>
  Whole frames: the snapshot pass of \<^verbatim>\<open>HeapApp::snapshot\<close> replaces the model by what the heap walk found, and
  every sequence of callbacks of the event loop returns.
\<close>

section \<open>Tables that keep their records\<close>

lemma uncapped_refined: "uncapped_ok n t \<Longrightarrow> uncapped_ok n (snd (mark_refined t key ov fl))"
proof -
  assume ok: "uncapped_ok n t"
  then have inv: "table_inv t" by (simp add: uncapped_ok_def)
  note r = mark_refined_correct [OF table_invD(1) [OF inv], of key ov fl]
  show ?thesis
    using table_inv_frame [OF inv r(1,4)] r(4) ok by (simp add: uncapped_ok_def ct_frame_def)
qed

lemma uncapped_clear_refined: "uncapped_ok n t \<Longrightarrow> uncapped_ok n (clear_refined t)"
proof -
  assume ok: "uncapped_ok n t"
  have "ct_frame t (clear_refined t)"
    by (simp add: clear_refined_def ct_frame_def)
  then show ?thesis
    using ok clear_refined_correct [of t] table_inv_frame [of t "clear_refined t"] table_invD(1) [of t]
    by (simp add: uncapped_ok_def ct_frame_def)
qed

lemma uncapped_clear:
  assumes "uncapped_ok n t" "k \<le> 2 ^ 62"
  shows "uncapped_ok k (clear t)" "ct_map (clear t) = Map.empty"
  using assms clear_inv [of t] clear_correct(2,3) [of t] table_invD(1) [of t] by (simp_all add: uncapped_ok_def)

section \<open>The snapshot pass\<close>

definition walked_record :: "walked_chunk \<times> u32 \<Rightarrow> chunk" where
  "walked_record = (\<lambda>(c, ms). live_chunk (wc_user_ptr c) (clamp_u32 (wc_usable c)) (clamp_u32 (wc_usable c)) ms 0)"

definition walked_map :: "(walked_chunk \<times> u32) list \<Rightarrow> u64 \<rightharpoonup> chunk" where
  "walked_map cs = map_of (map (\<lambda>p. (wc_user_ptr (fst p), walked_record p)) cs)"

lemma walked_map_dom: "dom (walked_map cs) = (wc_user_ptr \<circ> fst) ` set cs"
  by (simp add: walked_map_def dom_map_of_conv_image_fst image_image o_def)

lemma insert_walked_correct:
  assumes "uncapped_ok (length cs + n) (ha_table a)" "distinct (map (wc_user_ptr \<circ> fst) cs)"
    and "\<And>p. p \<in> set cs \<Longrightarrow> wc_user_ptr (fst p) \<noteq> 0 \<and> ct_map (ha_table a) (wc_user_ptr (fst p)) = None"
  shows "\<exists>t. insert_walked cs a = Some (a\<lparr>ha_table := t, ha_live := ha_live a + of_nat (length cs),
       ha_live_bytes := ha_live_bytes a + sum_list (map (wc_usable \<circ> fst) cs)\<rparr>) \<and> uncapped_ok n t \<and>
       ct_map t = ct_map (ha_table a) ++ walked_map cs"
  using assms
proof (induction cs arbitrary: a)
  case Nil
  then show ?case by (intro exI [of _ "ha_table a"]) (simp add: walked_map_def)
next
  case (Cons p cs)
  obtain c ms where p: "p = (c, ms)" by fastforce
  let ?k = "wc_user_ptr c" and ?u = "clamp_u32 (wc_usable c)"
  have k: "?k \<noteq> 0" "ct_map (ha_table a) ?k = None"
    using Cons.prems(3) [of p] p by simp_all
  obtain bt where bt: "insert_live (ha_table a) ?k ?u ?u ms 0 = Some bt" "uncapped_ok (length cs + n) (snd bt)"
    "ct_map (snd bt) = (ct_map (ha_table a))(?k \<mapsto> walked_record p)"
    using table_step [of "length cs + n" "ha_table a" "OpInsert ?k ?u ?u ms 0"] Cons.prems(1) k p
    by (auto simp: live_record_def walked_record_def)
  let ?a = "a\<lparr>ha_table := snd bt, ha_live := ha_live a + 1, ha_live_bytes := ha_live_bytes a + wc_usable c\<rparr>"
  have fresh: "wc_user_ptr (fst q) \<noteq> 0 \<and> ct_map (ha_table ?a) (wc_user_ptr (fst q)) = None" if "q \<in> set cs" for q
    using that Cons.prems(2,3) bt(3) p by (auto simp: o_def rev_image_eqI)
  obtain t where t: "insert_walked cs ?a = Some (?a\<lparr>ha_table := t, ha_live := ha_live ?a + of_nat (length cs),
       ha_live_bytes := ha_live_bytes ?a + sum_list (map (wc_usable \<circ> fst) cs)\<rparr>)" "uncapped_ok n t"
       "ct_map t = ct_map (ha_table ?a) ++ walked_map cs"
  proof -
    have "uncapped_ok (length cs + n) (ha_table ?a)" "distinct (map (wc_user_ptr \<circ> fst) cs)"
      using bt(2) Cons.prems(2) by (simp_all add: o_def)
    from Cons.IH [OF this fresh] show thesis using that by blast
  qed
  have "?k \<notin> dom (walked_map cs)"
    unfolding walked_map_dom using Cons.prems(2) p by simp
  then have "ct_map t = ct_map (ha_table a) ++ walked_map (p # cs)"
    using t(3) bt(3) p by (auto simp: walked_map_def map_add_def fun_eq_iff split: option.splits)
  moreover have "insert_walked (p # cs) a = Some (a\<lparr>ha_table := t, ha_live := ha_live a + of_nat (length (p # cs)),
       ha_live_bytes := ha_live_bytes a + sum_list (map (wc_usable \<circ> fst) (p # cs))\<rparr>)"
    using t(1) bt(1) p by (cases bt) (simp add: Let_def algebra_simps)
  ultimately show ?case
    using t(2) by blast
qed

definition sane_regions :: "region list \<Rightarrow> bool" where
  "sane_regions rs \<longleftrightarrow> ascending r_start r_end rs \<and> (\<forall>r \<in> set rs. unat (r_end r) < 2 ^ 63)"

lemma packed_length: "packed lo cs hi \<Longrightarrow> lo + 32 * length cs \<le> hi"
  by (induction cs arbitrary: lo) (fastforce simp: sound_chunk_def)+

lemma walker_walk_sound:
  assumes "bounded_reads rd" "sane_regions rs" "walker_walk rd w rs = (r, ws, w')"
  shows "packed 0 ws (2 ^ 63)" "length ws \<le> 2 ^ 58" "distinct (map wc_user_ptr ws)" "\<forall>c \<in> set ws. wc_user_ptr c \<noteq> 0"
proof -
  show P: "packed 0 ws (2 ^ 63)"
    using walk_regions_sound [OF assms(1), of rs 0 "[]" walk_result_new w r ws w'] assms(2,3)
    by (auto simp: walker_walk_def sane_regions_def Let_def split: if_splits)
  show "length ws \<le> 2 ^ 58"
    using packed_length [OF P] by simp
  show "\<forall>c \<in> set ws. wc_user_ptr c \<noteq> 0"
    using packed_mem(1) [OF P] unfolding sound_chunk_def by (metis not_numeral_le_zero unat_0)
  have "sorted_wrt (\<lambda>c d. wc_user_ptr c < wc_user_ptr d) ws"
  proof (rule sorted_wrt_mono_rel [OF _ packed_sorted [OF P]])
    fix c d assume "c \<in> set ws" "d \<in> set ws" "chunk_end c \<le> chunk_start d"
    then show "wc_user_ptr c < wc_user_ptr d"
      using packed_mem(1) [OF P, of c] packed_mem(1) [OF P, of d]
      by (auto simp: sound_chunk_def chunk_start_def chunk_end_def word_less_nat_alt)
  qed
  then show "distinct (map wc_user_ptr ws)"
    by (metis (mono_tags) sorted_wrt_map strict_sorted_iff)
qed

definition snapshot_due :: "heap_app \<Rightarrow> u32 \<Rightarrow> bool" where
  "snapshot_due a now_ms \<longleftrightarrow> ha_snapshot_mode a \<and> ha_walker a \<noteq> None \<and> ha_state a = SessLive \<and> \<not> ha_paused a \<and>
     \<not> (ha_walked_once a \<and> now_ms - ha_walk_last_ms a < ha_walk_interval_ms a)"

text \<open>What a pass leaves in the model.\<close>

definition snapshot_result :: "heap_app \<Rightarrow> u32 \<Rightarrow> walked_chunk list \<Rightarrow> heap_app \<Rightarrow> bool" where
  "snapshot_result a now_ms ws a' \<longleftrightarrow>
     ct_map (ha_table a') = walked_map (zip ws (map (first_seen (ha_table a) now_ms) ws)) \<and>
     ha_live a' = of_nat (length ws) \<and> ha_live_bytes a' = sum_list (map wc_usable ws) \<and>
     (\<exists>h. same_geometry (ha_map a) h \<and> ha_map a' = heat_rebuild h (ha_table a'))"

lemma snapshot_step:
  assumes rd: "bounded_reads rd" and rs: "sane_regions (ms_regions (ha_scanner a))" and ok: "uncapped_ok n (ha_table a)"
    and due: "snapshot_due a now_ms" and k: "k \<le> 2 ^ 61"
    and walk: "walker_walk rd (the (ha_walker a)) (ms_regions (ha_scanner a)) = (r, ws, w')"
    and st: "wr_status r \<noteq> WalkDenied" "wr_status r \<noteq> WalkTargetGone"
  shows "\<exists>a'. snapshot rd b e a now_ms = Some (True, a') \<and> snapshot_result a now_ms ws a' \<and> uncapped_ok k (ha_table a') \<and>
    ha_scanner a' = ha_scanner a \<and> ha_inspect a' = ha_inspect a"
proof -
  note W = walker_walk_sound [OF rd rs walk]
  obtain walker where w: "ha_walker a = Some walker"
    using due by (auto simp: snapshot_due_def)
  define seen where "seen = map (first_seen (ha_table a) now_ms) ws"
  define a1 where "a1 = a\<lparr>ha_walk_last_ms := now_ms, ha_walked_once := True, ha_walker := Some w', ha_walked := ws, ha_walk := r,
      ha_table := clear (ha_table a), ha_live := 0, ha_live_bytes := 0\<rparr>"
  have "length (zip ws seen) + k \<le> 2 ^ 62"
    using W(2) k by (simp add: seen_def)
  then have "uncapped_ok (length (zip ws seen) + k) (ha_table a1)" and empty: "ct_map (ha_table a1) = Map.empty"
    using uncapped_clear [OF ok] by (simp_all add: a1_def)
  moreover have "map (wc_user_ptr \<circ> fst) (zip ws seen) = map wc_user_ptr ws" "map (wc_usable \<circ> fst) (zip ws seen) = map wc_usable ws"
    by (simp_all add: seen_def flip: map_map)
  moreover have "wc_user_ptr (fst p) \<noteq> 0" if "p \<in> set (zip ws seen)" for p
    using W(4) that by (cases p) (auto dest: set_zip_leftD)
  ultimately obtain t where t: "insert_walked (zip ws seen) a1 = Some (a1\<lparr>ha_table := t, ha_live := of_nat (length ws),
       ha_live_bytes := sum_list (map wc_usable ws)\<rparr>)" "uncapped_ok k t" "ct_map t = walked_map (zip ws seen)"
    using insert_walked_correct [of "zip ws seen" k a1] W(3) by (auto simp: a1_def seen_def)
  define cost where "cost = clamp_u32 ((e - b) div 1000000)"
  define a' where "a' = a1\<lparr>ha_table := t, ha_live := of_nat (length ws), ha_live_bytes := sum_list (map wc_usable ws),
      ha_map := heat_rebuild (ha_map a) t, ha_walk_cost_ms := cost, ha_walk_interval_ms := max_u32 kSnapshotIntervalMs (cost * kSnapshotDutyFactor)\<rparr>"
  have "snapshot rd b e a now_ms = Some (True, a')"
    using due w walk st t(1) unfolding snapshot_def snapshot_due_def
    by (auto simp: Let_def seen_def a1_def a'_def cost_def)
  moreover have "snapshot_result a now_ms ws a'"
    using t(3) by (auto simp: snapshot_result_def a'_def seen_def same_geometry_def)
  moreover have "uncapped_ok k (ha_table a')" "ha_scanner a' = ha_scanner a" "ha_inspect a' = ha_inspect a"
    using t(2) by (simp_all add: a'_def a1_def)
  ultimately show ?thesis by blast
qed

lemma walked_map_record:
  assumes "distinct (map wc_user_ptr ws)" "c \<in> set ws"
  shows "walked_map (zip ws (map f ws)) (wc_user_ptr c) = Some (walked_record (c, f c))"
proof -
  have "map fst (map (\<lambda>p. (wc_user_ptr (fst p), walked_record p)) (zip ws (map f ws))) = map wc_user_ptr ws"
    by (simp add: zip_map2 o_def split_beta) (simp add: zip_same_conv_map)
  moreover have "(c, f c) \<in> set (zip ws (map f ws))"
    using assms(2) by (auto simp: zip_map2 zip_same_conv_map)
  ultimately show ?thesis
    unfolding walked_map_def using assms(1) by (intro map_of_is_SomeI) (auto simp: image_iff intro!: bexI [of _ "(c, f c)"])
qed

lemma walked_fits:
  assumes "length cs < 2 ^ 32"
  shows "heat_fits approx h (walked_map cs)"
proof -
  have "approx r = 0" if "walked_map cs k = Some r" for k r
    using map_of_SomeD [OF that [unfolded walked_map_def]]
    by (auto simp: approx_def overhead_of_def walked_record_def live_chunk_def)
  then have "live_sum (\<lambda>c. unat (approx c)) P (walked_map cs) = 0" for P
    unfolding live_sum_def by (intro sum.neutral) (auto simp: contrib_def)
  moreover have "card (dom (walked_map cs)) \<le> length cs"
    unfolding walked_map_dom by (metis card_image_le card_length finite_set le_trans)
  ultimately show ?thesis
    using assms by (simp add: heat_fits_def)
qed


definition walk_app :: heap_app where
  "walk_app = (enable_snapshots start_app)\<lparr>ha_scanner := (maps_scanner_new 7)\<lparr>ms_regions := [demo_arena]\<rparr>, ha_walker := Some (heap_walker_new 7)\<rparr>"


section \<open>Every callback returns\<close>

definition inspector_ok :: "inspector \<Rightarrow> bool" where
  "inspector_ok s \<longleftrightarrow> in_found s = [] \<or> in_pos s < length (in_found s)"

definition app_ok :: "nat \<Rightarrow> heap_app \<Rightarrow> bool" where
  "app_ok n a \<longleftrightarrow> uncapped_ok n (ha_table a) \<and> sane_regions (ms_regions (ha_scanner a)) \<and> inspector_ok (ha_inspect a)"

text \<open>What a frame may rely on: a read returns no more bytes than asked for, and the maps file lists the
  regions in ascending order, below the user address limit.\<close>

definition frame_ok :: "frame_env \<Rightarrow> bool" where
  "frame_ok env \<longleftrightarrow> bounded_reads (fe_blocks env) \<and>
     (\<forall>m now. sane_regions (ms_regions m) \<longrightarrow>
        sane_regions (ms_regions (snd (maps_scan m (fe_maps_status env) (fe_maps_text env) now))))"

lemma rescan_ok: "inspector_ok (rescan s table map' cell)"
  using find_addr_spec(2) [of "in_selected s" 0]
  by (fastforce simp: rescan_def inspector_ok_def Let_def split: option.splits prod.splits)

lemma refresh_ok: "inspector_ok s \<Longrightarrow> inspector_ok (snd (inspector_refresh s table map' cur now dirty))"
  using rescan_ok by (auto simp: inspector_refresh_def Let_def inspector_ok_def)

lemma cycle_ok: "inspector_ok s \<Longrightarrow> inspector_ok (snd (inspector_cycle s))"
proof (cases "length (in_found s) < 2")
  case False
  then have "(in_pos s + 1) mod length (in_found s) < length (in_found s)" by (intro mod_less_divisor) linarith
  with False show ?thesis by (simp add: inspector_cycle_def inspector_ok_def Let_def)
qed (simp add: inspector_cycle_def)

lemma refit_ok: "app_ok n a \<Longrightarrow> app_ok n (refit a)"
  using uncapped_clear_refined [of n "ha_table a"]
  by (auto simp: refit_def app_ok_def Let_def split: prod.splits)

lemma enrich_one_ok:
  assumes "app_ok n (snd ca)"
  shows "app_ok n (snd (enrich_one x ca))"
proof -
  obtain changed a c info where x: "ca = (changed, a)" "x = (c, info)" by fastforce
  obtain marked t where mr: "mark_refined (ha_table a) (c_key c) (ci_overhead info) (header_flags info) = (marked, t)"
    by fastforce
  then have "uncapped_ok n t"
    using uncapped_refined [of n "ha_table a" "c_key c" "ci_overhead info" "header_flags info"] assms x by (simp add: app_ok_def)
  then show ?thesis
    using assms x mr by (simp add: enrich_one_def app_ok_def Let_def split_beta)
qed

lemma enrich_ok: "app_ok n a \<Longrightarrow> app_ok n (snd (enrich rd a now))"
proof -
  assume ok: "app_ok n a"
  have fold: "app_ok n (snd ca) \<Longrightarrow> app_ok n (snd (fold enrich_one xs ca))" for xs ca
    by (induction xs arbitrary: ca) (simp_all add: enrich_one_ok)
  show ?thesis
    using ok unfolding enrich_def
    by (auto simp: Let_def app_ok_def split: prod.splits intro!: fold [unfolded app_ok_def])
qed

lemma analyse_ok:
  assumes "app_ok n a"
  shows "app_ok n (snd (analyse env changed a))"
proof -
  obtain enriched a1 where e: "enrich (fe_headers env) a (ha_now_ms a) = (enriched, a1)" by fastforce
  then have "app_ok n a1" using enrich_ok [OF assms, of "fe_headers env" "ha_now_ms a"] by simp
  then show ?thesis
    using refresh_ok by (simp add: analyse_def e Let_def app_ok_def split_beta)
qed

lemma snapshot_ok:
  assumes "app_ok n a" "n \<le> 2 ^ 61" "bounded_reads rd"
  shows "\<exists>c a'. snapshot rd b e a now_ms = Some (c, a') \<and> app_ok n a'"
proof (cases "snapshot_due a now_ms")
  case False
  then have "snapshot rd b e a now_ms = Some (False, a)"
    by (auto simp: snapshot_def snapshot_due_def split: option.splits)
  then show ?thesis using assms(1) by blast
next
  case True
  obtain r ws w' where w: "walker_walk rd (the (ha_walker a)) (ms_regions (ha_scanner a)) = (r, ws, w')"
    by (metis prod_cases3)
  show ?thesis
  proof (cases "wr_status r = WalkDenied \<or> wr_status r = WalkTargetGone")
    case denied: True
    then show ?thesis
      using True w assms(1) by (auto simp: snapshot_def snapshot_due_def Let_def app_ok_def)
  next
    case False
    then show ?thesis
      using snapshot_step [OF assms(3) _ _ True assms(2) w, where n = n and b = b and e = e] assms(1)
      unfolding app_ok_def by metis
  qed
qed

lemma update_ok:
  assumes "app_ok n a" "n \<le> 2 ^ 61" "frame_ok env"
  shows "\<exists>c a'. app_update env a = Some (c, a') \<and> app_ok n a'"
proof (cases "ha_paused a")
  case True
  then have "app_update env a = Some (False, a)" by (simp add: app_update_def)
  then show ?thesis using assms(1) by blast
next
  case False
  define a0 where "a0 = a\<lparr>ha_now_ms := clamp_u32 ((fe_now_ns env - ha_origin_ns a) div 1000000)\<rparr>"
  obtain exited a1 where a1: "note_exit env a0 = (exited, a1)" by fastforce
  then have ok1: "app_ok n a1"
    using assms(1) by (auto simp: note_exit_def build_exit_note_def a0_def app_ok_def split: if_splits)
  obtain moved a2 where a2: "rescan_maps env a1 = (moved, a2)" by fastforce
  then have ok2: "app_ok n a2"
    using ok1 assms(3)
    by (auto simp: rescan_maps_def repack_def sync_regions_def app_ok_def frame_ok_def Let_def split: if_splits prod.splits)
  obtain c a3 where a3: "snapshot (fe_blocks env) (fe_walk_began env) (fe_walk_ended env) a2 (ha_now_ms a2) = Some (c, a3)"
    "app_ok n a3"
    using snapshot_ok [OF ok2 assms(2)] assms(3) by (fastforce simp: frame_ok_def)
  define a4 where "a4 = (if ha_geometry_dirty a3 \<and> \<not> ar_empty (ha_bounds a3) \<and> ha_width a3 > 0 then refit a3 else a3)"
  have "app_ok n a4" using a3(2) refit_ok by (simp add: a4_def)
  moreover have "app_update env a = Some (analyse env (exited \<or> moved \<or> c \<or>
      ha_geometry_dirty a3 \<and> \<not> ar_empty (ha_bounds a3) \<and> ha_width a3 > 0) a4)"
    using False a1 a2 a3(1) by (simp add: app_update_def a0_def [symmetric] a4_def Let_def)
  ultimately show ?thesis
    using analyse_ok by (metis prod.collapse)
qed

lemma drain_loop_length: "length (snd (drain_loop n h pos hd' out)) \<le> n + length out"
proof (induction n arbitrary: pos out)
  case (Suc n)
  then show ?case using Suc.IH [of "pos + 1" "out @ [clean_op (slot_at h pos)]"] by simp
qed simp

lemma session_drain_length: "length (fst (session_drain s mx)) \<le> unat mx"
  using drain_loop_length [of "unat mx"]
  by (simp add: session_drain_def hv_ring_drain_def split: option.splits prod.splits) (metis add_0_right list.size(3) snd_conv)

lemma apply_events_ok:
  assumes "app_ok (length es + n) a"
  shows "\<exists>a'. apply_events es a = Some a' \<and> app_ok n a'"
proof -
  obtain a' where a': "apply_events es a = Some a'" "uncapped_ok n (ha_table a')"
    using apply_events_total [of es n a] assms by (auto simp: app_ok_def)
  have "ms_regions (ha_scanner b') = ms_regions (ha_scanner b) \<and> ha_inspect b' = ha_inspect b" if "apply_event b e = Some b'" for b b' e
    using that by (auto simp: apply_event_def apply_free_def apply_alloc_def note_address_def Let_def split: if_splits option.splits)
  then have "ms_regions (ha_scanner b') = ms_regions (ha_scanner b) \<and> ha_inspect b' = ha_inspect b" if "apply_events es b = Some b'" for b b'
    using that by (induction es arbitrary: b) (fastforce split: bind_splits)+
  then show ?thesis
    using a' assms by (auto simp: app_ok_def)
qed

lemma app_ok_mono: "app_ok n a \<Longrightarrow> m \<le> n \<Longrightarrow> app_ok m a"
  by (auto simp: app_ok_def intro: uncapped_ok_mono)

lemma app_ok_transport [simp]:
  "app_ok n (a\<lparr>ha_session := s\<rparr>) = app_ok n a" "app_ok n (a\<lparr>ha_staged := x\<rparr>) = app_ok n a"
  "app_ok n (a\<lparr>ha_staged_head := k\<rparr>) = app_ok n a" "app_ok n (a\<lparr>ha_events := e\<rparr>) = app_ok n a"
  by (simp_all add: app_ok_def)

lemma replay_ok:
  assumes "app_ok (32768 + n) a"
  shows "\<exists>k a'. replay_staged a = Some (of_nat k, a') \<and> k \<le> 32768 \<and> app_ok (32768 - k + n) a'"
proof (cases "staged_events a = 0")
  case True
  then show ?thesis using assms by (intro exI [of _ 0] exI [of _ a]) (simp add: replay_staged_def)
next
  case False
  define k where "k = min (staged_events a) 32768"
  define es where "es = take k (drop (ha_staged_head a) (ha_staged a))"
  have len: "length es = k" by (simp add: es_def k_def staged_events_def)
  have "length es + (32768 - k + n) = 32768 + n" by (simp add: len k_def)
  then obtain a1 where "apply_events es a = Some a1" "app_ok (32768 - k + n) a1"
    using apply_events_ok [of es "32768 - k + n" a] assms by metis
  then show ?thesis
    using False by (intro exI [of _ k]) (auto simp: replay_staged_def Let_def k_def [symmetric] es_def [symmetric], simp add: k_def)
qed

lemma drain_ok:
  assumes "app_ok (32768 + n) a"
  shows "\<exists>k a'. app_drain a = Some (k, a') \<and> app_ok n a'"
proof -
  have n: "app_ok n a" using assms by (rule app_ok_mono) simp
  obtain k a1 where r: "replay_staged a = Some (of_nat k, a1)" "k \<le> 32768" "app_ok (32768 - k + n) a1"
    using replay_ok [OF assms] by blast
  have k: "unat (of_nat k :: u32) = k" using r(2) by (intro unat_of_nat_small) simp
  have "\<exists>kk a2. (case session_drain (ha_session a1) (kMaxEventsPerFrame - of_nat k) of (batch, s') \<Rightarrow>
      map_option (\<lambda>a2. (of_nat k + of_nat (length batch) :: u32, a2)) (apply_events batch (a1\<lparr>ha_session := s'\<rparr>))) = Some (kk, a2) \<and> app_ok n a2"
  proof -
    obtain batch s' where d: "session_drain (ha_session a1) (kMaxEventsPerFrame - of_nat k) = (batch, s')" by fastforce
    have "unat (kMaxEventsPerFrame - of_nat k :: u32) = 32768 - k"
      using r(2) k by (simp add: unat_sub word_le_nat_alt)
    then have "length batch \<le> 32768 - k"
      using session_drain_length [of "ha_session a1" "kMaxEventsPerFrame - of_nat k"] d by simp
    then have "app_ok (length batch + n) (a1\<lparr>ha_session := s'\<rparr>)"
      using r(3) by (simp add: app_ok_mono)
    then show ?thesis
      using apply_events_ok [of batch n] d by fastforce
  qed
  then show ?thesis
    using n r app_ok_mono [OF r(3), of n]
    by (cases "attached (ha_session a)"; cases "ha_paused a"; cases "of_nat k < kMaxEventsPerFrame \<and> ha_staged a1 = []")
      (auto simp: app_drain_def split: prod.splits)
qed

lemma key_ok: "app_ok n a \<Longrightarrow> app_ok n (snd (app_key clock byte a))"
  by (simp add: app_key_def reset_stats_def app_ok_def Let_def split_beta refresh_ok cycle_ok split: option.split)

section \<open>The loop\<close>

text \<open>The callbacks of the event loop, in any order.\<close>

datatype loop_op = LoopDrain | LoopUpdate frame_env | LoopKey "(nat \<times> nat \<times> nat) option" char | LoopResize int int

fun loop_step :: "loop_op \<Rightarrow> heap_app \<Rightarrow> heap_app option" where
  "loop_step LoopDrain a = map_option snd (app_drain a)"
| "loop_step (LoopUpdate env) a = map_option snd (app_update env a)"
| "loop_step (LoopKey clock byte) a = Some (snd (app_key clock byte a))"
| "loop_step (LoopResize w h) a = Some (resized a w h)"

definition loop_env_ok :: "loop_op \<Rightarrow> bool" where
  "loop_env_ok op = (case op of LoopUpdate env \<Rightarrow> frame_ok env | _ \<Rightarrow> True)"

lemma loop_step_ok:
  assumes "app_ok (32768 + n) a" "n \<le> 2 ^ 60" "loop_env_ok op"
  shows "\<exists>a'. loop_step op a = Some a' \<and> app_ok n a'"
proof (cases op)
  case LoopDrain
  then show ?thesis using drain_ok [OF assms(1)] by auto
next
  case (LoopUpdate env)
  then show ?thesis
    using update_ok [of n a env] app_ok_mono [OF assms(1), of n] assms by (auto simp: loop_env_ok_def)
next
  case (LoopKey clock byte)
  then show ?thesis using key_ok app_ok_mono [OF assms(1), of n] by simp
next
  case (LoopResize w h)
  have "app_ok n (a\<lparr>ha_width := w, ha_height := h, ha_layout := solve_layout w h, ha_geometry_dirty := True\<rparr>)"
    using app_ok_mono [OF assms(1), of n] by (simp add: app_ok_def)
  then show ?thesis using LoopResize refit_ok by (simp add: resized_def Let_def)
qed

text \<open>
  (C8) The application always responds: from a well-formed state, every sequence of up to \<open>2 ^ 45\<close> drains, frames, key
  presses and resizes returns, whatever the ring holds, the target's memory returns and the keys are, and
  the chunk table stays well-formed and the inspector's selection in range.
\<close>

theorem loop_always_returns:
  assumes "app_ok (32768 * length ops) a" "length ops \<le> 2 ^ 45" "\<forall>op \<in> set ops. loop_env_ok op"
  shows "\<exists>a'. run_ops loop_step ops a = Some a' \<and> ct_ok (ha_table a') \<and> inspector_ok (ha_inspect a')"
  using assms
proof (induction ops arbitrary: a)
  case Nil
  then show ?case using table_invD(1) by (auto simp: app_ok_def uncapped_ok_def)
next
  case (Cons op ops)
  then obtain a1 where "loop_step op a = Some a1" "app_ok (32768 * length ops) a1"
    using loop_step_ok [of "32768 * length ops" a op] by auto
  then show ?case
    using Cons.IH [of a1] Cons.prems by simp
qed

definition demo_env :: frame_env where
  "demo_env = \<lparr>fe_now_ns = 1000000000, fe_alive = KillOk, fe_maps_status = Denied, fe_maps_text = [],
     fe_blocks = (\<lambda>_ _ _. BlockError EFAULT), fe_walk_began = 0, fe_walk_ended = 0,
     fe_headers = (\<lambda>_ _. RvError EFAULT), fe_log = None\<rparr>"

lemma demo_env_ok: "frame_ok demo_env"
  by (simp add: frame_ok_def demo_env_def bounded_reads_def maps_scan_def Let_def)

theorem loop_always_returns_witness:
  "\<exists>a'. run_ops loop_step [LoopResize 120 40, LoopDrain, LoopUpdate demo_env, LoopKey None (CHR ''j''), LoopUpdate demo_env] start_app = Some a' \<and>
     ct_ok (ha_table a') \<and> inspector_ok (ha_inspect a')"
proof (rule loop_always_returns)
  have "ms_regions (ha_scanner start_app) = []" "ha_inspect start_app = inspector_new"
    by (simp_all add: start_app_def demo_app_def heap_app_with_def maps_scanner_new_def)
  then show "app_ok (32768 * length [LoopResize 120 40, LoopDrain, LoopUpdate demo_env, LoopKey None (CHR ''j''), LoopUpdate demo_env]) start_app"
    using start_table(2) [of "32768 * length [LoopResize 120 40, LoopDrain, LoopUpdate demo_env, LoopKey None (CHR ''j''), LoopUpdate demo_env]"]
    by (simp add: app_ok_def sane_regions_def ascending_def inspector_ok_def inspector_new_def)
qed (simp_all add: loop_env_ok_def demo_env_ok)

end
