(* ===== verification/Preload.thy ===== *)
theory Preload
  imports Ring "HOL-Library.Monad_Syntax"
begin

text \<open>
  The interceptor of \<^verbatim>\<open>src/preload/preload.c\<close>: the bootstrap arena, symbol resolution, the reporting of
  events under the re-entrancy guard, the ten interposed allocator functions and the life of the
  shared-memory ring in the target process.

  The C library is a parameter of the model, a record of functions over an abstract heap state. The value
  \<open>None\<close> of a hook stands for \<^verbatim>\<open>hv_die\<close>, which ends the target with \<^verbatim>\<open>_exit(127)\<close>. One call of a hook is
  modelled as it runs on one thread; the interleaving of threads is \<^verbatim>\<open>Preload_Threads\<close>.
\<close>

section \<open>The process\<close>

datatype real_symbol = Sym_malloc | Sym_free | Sym_calloc | Sym_realloc | Sym_posix_memalign |
  Sym_aligned_alloc | Sym_memalign | Sym_valloc | Sym_pvalloc | Sym_malloc_usable_size

text \<open>
  What the hooks call and do not define: the next allocator in the search order, what \<^verbatim>\<open>dlsym\<close> finds and
  the \<^verbatim>\<open>calloc\<close> calls it makes on the way, the clock, \<^verbatim>\<open>gettid\<close>, the place of the static arena, and a
  write of bytes to heap memory.
\<close>

record 'h libc =
  lc_malloc :: "u64 \<Rightarrow> 'h \<Rightarrow> u64 \<times> 'h"
  lc_free :: "u64 \<Rightarrow> 'h \<Rightarrow> 'h"
  lc_calloc :: "u64 \<Rightarrow> u64 \<Rightarrow> 'h \<Rightarrow> u64 \<times> 'h"
  lc_realloc :: "u64 \<Rightarrow> u64 \<Rightarrow> 'h \<Rightarrow> u64 \<times> 'h"
  lc_posix_memalign :: "u64 \<Rightarrow> u64 \<Rightarrow> 'h \<Rightarrow> u32 \<times> u64 \<times> 'h"
  lc_aligned_alloc :: "u64 \<Rightarrow> u64 \<Rightarrow> 'h \<Rightarrow> u64 \<times> 'h"
  lc_memalign :: "u64 \<Rightarrow> u64 \<Rightarrow> 'h \<Rightarrow> u64 \<times> 'h"
  lc_valloc :: "u64 \<Rightarrow> 'h \<Rightarrow> u64 \<times> 'h"
  lc_pvalloc :: "u64 \<Rightarrow> 'h \<Rightarrow> u64 \<times> 'h"
  lc_malloc_usable_size :: "u64 \<Rightarrow> 'h \<Rightarrow> u64"
  lc_store :: "u64 \<Rightarrow> u8 list \<Rightarrow> 'h \<Rightarrow> 'h"
  lc_exports :: "real_symbol \<Rightarrow> bool"
  lc_dlsym_callocs :: "real_symbol \<Rightarrow> (u64 \<times> u64) list"
  lc_now_ns :: "'h \<Rightarrow> u64"
  lc_gettid :: u32
  lc_arena :: u64

record 'h preload =
  g_bootstrap :: "u64 \<Rightarrow> u8"
  g_bootstrap_used :: u64
  g_real :: "real_symbol \<Rightarrow> bool"
  g_symbols_ready :: bool
  g_resolving :: bool
  g_ring :: "hv_ring option"
  g_ring_bytes :: u64
  g_shm_name :: string
  g_enabled :: bool
  g_in_hook :: bool
  g_tid :: u32
  pl_stderr :: "string list"
  pl_shm :: "string set"
  pl_heap :: 'h

definition preload_new :: "string set \<Rightarrow> 'h \<Rightarrow> 'h preload" where
  "preload_new shm h = \<lparr>g_bootstrap = (\<lambda>_. 0), g_bootstrap_used = 0, g_real = (\<lambda>_. False), g_symbols_ready = False,
     g_resolving = False, g_ring = None, g_ring_bytes = 0, g_shm_name = [], g_enabled = True, g_in_hook = False,
     g_tid = 0, pl_stderr = [], pl_shm = shm, pl_heap = h\<rparr>"

definition hv_write_err :: "string \<Rightarrow> 'h preload \<Rightarrow> 'h preload" where
  "hv_write_err msg st = st\<lparr>pl_stderr := pl_stderr st @ [msg]\<rparr>"

section \<open>Bootstrap arena\<close>

definition HV_BOOTSTRAP_BYTES :: u64 where
  [hv_consts]: "HV_BOOTSTRAP_BYTES = 64 * 1024"

definition HV_BOOTSTRAP_MAGIC :: u64 where
  "HV_BOOTSTRAP_MAGIC = 0x484F4F5453545250"

definition sizeof_boot_header :: u64 where
  [hv_consts]: "sizeof_boot_header = 16"

text \<open>Little-endian stores and loads of the two words of \<^verbatim>\<open>HvBootHeader\<close>.\<close>

definition store_word :: "u64 \<Rightarrow> u64 \<Rightarrow> (u64 \<Rightarrow> u8) \<Rightarrow> u64 \<Rightarrow> u8" where
  "store_word a v mem = (\<lambda>x. if x - a < 8 then ucast (drop_bit (8 * unat (x - a)) v) else mem x)"

definition load_word :: "u64 \<Rightarrow> (u64 \<Rightarrow> u8) \<Rightarrow> u64" where
  "load_word a mem = foldr (\<lambda>i acc. push_bit 8 acc OR ucast (mem (a + of_nat i))) [0..<8] 0"

definition hv_is_bootstrap_ptr :: "'h libc \<Rightarrow> u64 \<Rightarrow> bool" where
  "hv_is_bootstrap_ptr L p \<longleftrightarrow> p \<ge> lc_arena L \<and> p < lc_arena L + HV_BOOTSTRAP_BYTES"

definition hv_bootstrap_alloc :: "'h libc \<Rightarrow> u64 \<Rightarrow> 'h preload \<Rightarrow> (u64 \<times> 'h preload) option" where
  "hv_bootstrap_alloc L n st =
     (let payload = (n + 15) AND NOT 15;
          need = sizeof_boot_header + payload
      in if payload < n then Some (0, st)
         else
           (let off = g_bootstrap_used st;
                st1 = st\<lparr>g_bootstrap_used := off + need\<rparr>
            in if off + need > HV_BOOTSTRAP_BYTES then None
               else Some (lc_arena L + off + sizeof_boot_header,
                 st1\<lparr>g_bootstrap := store_word (off + 8) HV_BOOTSTRAP_MAGIC (store_word off n (g_bootstrap st1))\<rparr>)))"

definition hv_bootstrap_size :: "'h libc \<Rightarrow> u64 \<Rightarrow> 'h preload \<Rightarrow> u64" where
  "hv_bootstrap_size L p st =
     (let hdr = p - lc_arena L - sizeof_boot_header
      in if load_word (hdr + 8) (g_bootstrap st) = HV_BOOTSTRAP_MAGIC then load_word hdr (g_bootstrap st) else 0)"

section \<open>Event emission\<close>

definition hv_tid :: "'h libc \<Rightarrow> 'h preload \<Rightarrow> 'h preload" where
  "hv_tid L st = (if g_tid st = 0 then st\<lparr>g_tid := lc_gettid L\<rparr> else st)"

definition hv_usable :: "'h libc \<Rightarrow> u64 \<Rightarrow> 'h preload \<Rightarrow> u32" where
  "hv_usable L p st =
     (if p = 0 \<or> \<not> g_real st Sym_malloc_usable_size then 0
      else (let u = lc_malloc_usable_size L p (pl_heap st) in if u > 0xFFFFFFFF then 0xFFFFFFFF else ucast u))"

definition hv_emit :: "'h libc \<Rightarrow> hv_opcode \<Rightarrow> u64 \<Rightarrow> u64 \<Rightarrow> u32 \<Rightarrow> 'h preload \<Rightarrow> 'h preload" where
  "hv_emit L op p sz us st =
     (case g_ring st of
        None \<Rightarrow> st
      | Some h \<Rightarrow>
          (let st1 = hv_tid L st
           in st1\<lparr>g_ring := Some (snd (hv_ring_push h
                \<lparr>pa_timestamp = lc_now_ns L (pl_heap st), pa_ptr = p, pa_size = sz, pa_usable = us,
                 pa_tid = g_tid st1, pa_opcode = opcode_value op\<rparr>))\<rparr>))"

text \<open>The guarded report that every hook ends or begins with.\<close>

definition report_event :: "'h libc \<Rightarrow> hv_opcode \<Rightarrow> u64 \<Rightarrow> u64 \<Rightarrow> 'h preload \<Rightarrow> 'h preload" where
  "report_event L op p sz st =
     (if g_in_hook st then st
      else (hv_emit L op p sz (hv_usable L p st) (st\<lparr>g_in_hook := True\<rparr>))\<lparr>g_in_hook := False\<rparr>)"

section \<open>Interposed allocator functions\<close>

text \<open>
  Each hook first makes sure its symbol is resolved. The resolution is an argument here, because
  \<^verbatim>\<open>dlsym\<close> itself calls the hooks: inside it \<^verbatim>\<open>hv_resolve_symbols\<close> returns at once.
\<close>

type_synonym 'h resolver = "'h preload \<Rightarrow> 'h preload option"

definition ensure :: "'h resolver \<Rightarrow> real_symbol \<Rightarrow> 'h preload \<Rightarrow> 'h preload option" where
  "ensure resolve s st = (if g_real st s then Some st else resolve st)"

definition malloc_with :: "'h resolver \<Rightarrow> 'h libc \<Rightarrow> u64 \<Rightarrow> 'h preload \<Rightarrow> (u64 \<times> 'h preload) option" where
  "malloc_with resolve L sz st = do {
     st1 \<leftarrow> ensure resolve Sym_malloc st;
     if \<not> g_real st1 Sym_malloc then hv_bootstrap_alloc L sz st1
     else
       (case lc_malloc L sz (pl_heap st1) of (p, h) \<Rightarrow>
          (let st2 = st1\<lparr>pl_heap := h\<rparr> in Some (p, if p \<noteq> 0 then report_event L HV_OP_MALLOC p sz st2 else st2)))
   }"

definition free_with :: "'h resolver \<Rightarrow> 'h libc \<Rightarrow> u64 \<Rightarrow> 'h preload \<Rightarrow> 'h preload option" where
  "free_with resolve L p st =
     (if p = 0 then Some st
      else if hv_is_bootstrap_ptr L p then Some st
      else do {
        st1 \<leftarrow> ensure resolve Sym_free st;
        if \<not> g_real st1 Sym_free then Some st1
        else (let st2 = report_event L HV_OP_FREE p 0 st1 in Some (st2\<lparr>pl_heap := lc_free L p (pl_heap st2)\<rparr>))
      })"

text \<open>\<^verbatim>\<open>__builtin_mul_overflow\<close> on \<^verbatim>\<open>size_t\<close>: the product when it fits.\<close>

definition mul_overflow :: "u64 \<Rightarrow> u64 \<Rightarrow> u64 option" where
  "mul_overflow a b = (if unat a * unat b < 2 ^ 64 then Some (a * b) else None)"

definition zero_bytes :: "u64 \<Rightarrow> u64 \<Rightarrow> (u64 \<Rightarrow> u8) \<Rightarrow> u64 \<Rightarrow> u8" where
  "zero_bytes a n mem = (\<lambda>x. if x - a < n then 0 else mem x)"

definition calloc_with :: "'h resolver \<Rightarrow> 'h libc \<Rightarrow> u64 \<Rightarrow> u64 \<Rightarrow> 'h preload \<Rightarrow> (u64 \<times> 'h preload) option" where
  "calloc_with resolve L nmemb sz st = do {
     st1 \<leftarrow> ensure resolve Sym_calloc st;
     if \<not> g_real st1 Sym_calloc then
       (case mul_overflow nmemb sz of
          None \<Rightarrow> Some (0, st1)
        | Some bytes \<Rightarrow> do {
            (p, st2) \<leftarrow> hv_bootstrap_alloc L bytes st1;
            Some (p, if p \<noteq> 0 then st2\<lparr>g_bootstrap := zero_bytes (p - lc_arena L) bytes (g_bootstrap st2)\<rparr> else st2)
          })
     else
       (case lc_calloc L nmemb sz (pl_heap st1) of (p, h) \<Rightarrow>
          (let st2 = st1\<lparr>pl_heap := h\<rparr>
           in Some (p, if p \<noteq> 0
                then report_event L HV_OP_CALLOC p (case mul_overflow nmemb sz of None \<Rightarrow> 0 | Some b \<Rightarrow> b) st2
                else st2)))
   }"

definition arena_bytes :: "'h libc \<Rightarrow> u64 \<Rightarrow> u64 \<Rightarrow> 'h preload \<Rightarrow> u8 list" where
  "arena_bytes L p n st = map (\<lambda>i. g_bootstrap st (p - lc_arena L + of_nat i)) [0..<unat n]"

definition realloc_with :: "'h resolver \<Rightarrow> 'h libc \<Rightarrow> u64 \<Rightarrow> u64 \<Rightarrow> 'h preload \<Rightarrow> (u64 \<times> 'h preload) option" where
  "realloc_with resolve L ptr sz st = do {
     st1 \<leftarrow> ensure resolve Sym_realloc st;
     if \<not> g_real st1 Sym_realloc then Some (0, st1)
     else if ptr = 0 then malloc_with resolve L sz st1
     else if hv_is_bootstrap_ptr L ptr then do {
       (p, st2) \<leftarrow> malloc_with resolve L sz st1;
       let old = hv_bootstrap_size L ptr st1;
       Some (p, if p \<noteq> 0
         then st2\<lparr>pl_heap := lc_store L p (arena_bytes L ptr (if old < sz then old else sz) st2) (pl_heap st2)\<rparr>
         else st2)
     }
     else
       (let st2 = report_event L HV_OP_FREE ptr 0 st1
        in case lc_realloc L ptr sz (pl_heap st2) of (p, h) \<Rightarrow>
          (let st3 = st2\<lparr>pl_heap := h\<rparr>
           in Some (p, report_event L HV_OP_REALLOC (if p \<noteq> 0 then p else ptr) sz st3)))
   }"

definition ENOMEM :: u32 where
  "ENOMEM = 12"

text \<open>The second component of the result is what \<^verbatim>\<open>*memptr\<close> holds afterwards.\<close>

definition posix_memalign_with ::
  "'h resolver \<Rightarrow> 'h libc \<Rightarrow> u64 \<Rightarrow> u64 \<Rightarrow> u64 \<Rightarrow> 'h preload \<Rightarrow> (u32 \<times> u64 \<times> 'h preload) option" where
  "posix_memalign_with resolve L memptr alignment sz st = do {
     st1 \<leftarrow> ensure resolve Sym_posix_memalign st;
     if \<not> g_real st1 Sym_posix_memalign then Some (ENOMEM, memptr, st1)
     else
       (case lc_posix_memalign L alignment sz (pl_heap st1) of (rc, p, h) \<Rightarrow>
          (let st2 = st1\<lparr>pl_heap := h\<rparr>; p' = (if rc = 0 then p else memptr)
           in Some (rc, p', if rc = 0 \<and> p' \<noteq> 0 then report_event L HV_OP_MEMALIGN p' sz st2 else st2)))
   }"

text \<open>The macro \<^verbatim>\<open>HV_ALIGNED_HOOK\<close>.\<close>

definition aligned_hook ::
  "'h resolver \<Rightarrow> 'h libc \<Rightarrow> real_symbol \<Rightarrow> ('h \<Rightarrow> u64 \<times> 'h) \<Rightarrow> u64 \<Rightarrow> 'h preload \<Rightarrow> (u64 \<times> 'h preload) option" where
  "aligned_hook resolve L s realfn sz st = do {
     st1 \<leftarrow> ensure resolve s st;
     if \<not> g_real st1 s then Some (0, st1)
     else
       (case realfn (pl_heap st1) of (p, h) \<Rightarrow>
          (let st2 = st1\<lparr>pl_heap := h\<rparr> in Some (p, if p \<noteq> 0 then report_event L HV_OP_MEMALIGN p sz st2 else st2)))
   }"

section \<open>Symbol resolution\<close>

definition resolve_order :: "real_symbol list" where
  "resolve_order = [Sym_malloc, Sym_free, Sym_calloc, Sym_realloc, Sym_posix_memalign, Sym_aligned_alloc,
     Sym_memalign, Sym_valloc, Sym_pvalloc, Sym_malloc_usable_size]"

text \<open>The allocations of \<^verbatim>\<open>dlsym\<close>, which reach the \<^verbatim>\<open>calloc\<close> hook while \<^verbatim>\<open>g_resolving\<close> is set.\<close>

fun nested_callocs :: "'h libc \<Rightarrow> (u64 \<times> u64) list \<Rightarrow> 'h resolver" where
  "nested_callocs L [] st = Some st"
| "nested_callocs L ((nmemb, sz) # xs) st = do {
     (p, st1) \<leftarrow> calloc_with Some L nmemb sz st;
     nested_callocs L xs st1
   }"

fun resolve_all :: "'h libc \<Rightarrow> real_symbol list \<Rightarrow> 'h resolver" where
  "resolve_all L [] st = Some st"
| "resolve_all L (s # ss) st = do {
     st1 \<leftarrow> nested_callocs L (lc_dlsym_callocs L s) st;
     resolve_all L ss (st1\<lparr>g_real := (g_real st1)(s := lc_exports L s)\<rparr>)
   }"

definition hv_resolve_symbols :: "'h libc \<Rightarrow> 'h resolver" where
  "hv_resolve_symbols L st =
     (if g_symbols_ready st then Some st
      else if g_resolving st then Some st
      else do {
        st1 \<leftarrow> resolve_all L resolve_order (st\<lparr>g_resolving := True\<rparr>);
        let st2 = st1\<lparr>g_resolving := False\<rparr>;
        if \<not> g_real st2 Sym_malloc \<or> \<not> g_real st2 Sym_free then None
        else Some (st2\<lparr>g_symbols_ready := True\<rparr>)
      })"

section \<open>The exported functions\<close>

definition malloc where "malloc L = malloc_with (hv_resolve_symbols L) L"
definition free where "free L = free_with (hv_resolve_symbols L) L"
definition calloc where "calloc L = calloc_with (hv_resolve_symbols L) L"
definition realloc where "realloc L = realloc_with (hv_resolve_symbols L) L"
definition posix_memalign where "posix_memalign L = posix_memalign_with (hv_resolve_symbols L) L"
definition aligned_alloc where
  "aligned_alloc L alignment sz = aligned_hook (hv_resolve_symbols L) L Sym_aligned_alloc (lc_aligned_alloc L alignment sz) sz"
definition memalign where
  "memalign L alignment sz = aligned_hook (hv_resolve_symbols L) L Sym_memalign (lc_memalign L alignment sz) sz"
definition valloc where
  "valloc L sz = aligned_hook (hv_resolve_symbols L) L Sym_valloc (lc_valloc L sz) sz"
definition pvalloc where
  "pvalloc L sz = aligned_hook (hv_resolve_symbols L) L Sym_pvalloc (lc_pvalloc L sz) sz"

section \<open>Reading the environment\<close>

definition is_space :: "char \<Rightarrow> bool" where
  "is_space c \<longleftrightarrow> of_char c = (32 :: nat) \<or> (9 \<le> (of_char c :: nat) \<and> (of_char c :: nat) \<le> 13)"

text \<open>
  \<^verbatim>\<open>strtoull\<close> and \<^verbatim>\<open>strtol\<close> in base ten: white space, a sign, digits. The second component is the rest of the
  text (\<^verbatim>\<open>*end\<close>); when there is no digit it is the whole text.
\<close>

definition split_number :: "string \<Rightarrow> (bool \<times> nat \<times> string) option" where
  "split_number s =
     (let t = dropWhile is_space s;
          neg = (t \<noteq> [] \<and> hd t = CHR 0x2D);
          u = (if t \<noteq> [] \<and> hd t \<in> {CHR 0x2D, CHR 0x2B} then tl t else t);
          ds = takeWhile (\<lambda>c. digit_value c \<noteq> None) u
      in if ds = [] then None else Some (neg, the (read_digits 0 ds), drop (length ds) u))"

definition strtoull :: "string \<Rightarrow> u64 \<times> string" where
  "strtoull s =
     (case split_number s of
        None \<Rightarrow> (0, s)
      | Some (neg, v, rest) \<Rightarrow>
          (if v \<ge> 2 ^ 64 then - 1 else if neg then - of_nat v else of_nat v, rest))"

definition strtol :: "string \<Rightarrow> int \<times> string" where
  "strtol s =
     (case split_number s of
        None \<Rightarrow> (0, s)
      | Some (neg, v, rest) \<Rightarrow>
          (if neg then max (- int v) (- (2 ^ 63)) else min (int v) (2 ^ 63 - 1), rest))"

text \<open>What the constructor learns from the system, one field per call.\<close>

record preload_os =
  po_getenv :: "string \<Rightarrow> string option"
  po_page :: u64
  po_pid :: "32 word"
  po_shm_denied :: "nat \<Rightarrow> bool"
  po_ftruncate_ok :: bool
  po_mmap_ok :: bool
  po_now_ns :: u64
  po_comm :: "string option"
  po_consumer_pid :: "nat \<Rightarrow> u32"

definition capacity_message :: string where
  "capacity_message = ''heapviz: HEAPVIZ_CAPACITY must be a power of two >= 1024; using the default''"

definition hv_env_capacity :: "preload_os \<Rightarrow> 'h preload \<Rightarrow> u64 \<times> 'h preload" where
  "hv_env_capacity os st =
     (case po_getenv os ''HEAPVIZ_CAPACITY'' of
        None \<Rightarrow> (HV_DEFAULT_CAPACITY, st)
      | Some raw \<Rightarrow>
          if raw = [] then (HV_DEFAULT_CAPACITY, st)
          else (case strtoull raw of (v, rest) \<Rightarrow>
            if rest \<noteq> [] \<or> \<not> hv_is_pow2 v \<or> v < 1024 then (HV_DEFAULT_CAPACITY, hv_write_err capacity_message st)
            else (v, st)))"

text \<open>\<^verbatim>\<open>/proc/self/comm\<close>, cut to the 15 bytes that fit in front of the terminator.\<close>

definition hv_read_comm :: "preload_os \<Rightarrow> string" where
  "hv_read_comm os = (case po_comm os of None \<Rightarrow> [] | Some s \<Rightarrow> takeWhile (\<lambda>c. c \<noteq> CHR 0x0A) (take 15 s))"

section \<open>The life of the ring\<close>

datatype shm_result = Shm_fd | Shm_exists | Shm_failed

text \<open>\<^verbatim>\<open>shm_open\<close> with \<^verbatim>\<open>O_CREAT | O_EXCL\<close>: the \<open>i\<close>th attempt of the process.\<close>

definition shm_create :: "preload_os \<Rightarrow> nat \<Rightarrow> string \<Rightarrow> string set \<Rightarrow> shm_result \<times> string set" where
  "shm_create os i name shm =
     (if po_shm_denied os i then (Shm_failed, shm)
      else if name \<in> shm then (Shm_exists, shm)
      else (Shm_fd, insert name shm))"

definition ring_setup :: "preload_os \<Rightarrow> 'h preload \<Rightarrow> 'h preload" where
  "ring_setup os st =
     (let (cap, st0) = hv_env_capacity os st;
          name = (case fst (hv_shm_name HV_SHM_NAME_MAX (po_pid os)) of None \<Rightarrow> [] | Some s \<Rightarrow> s);
          st1 = st0\<lparr>g_ring_bytes := hv_mapping_size cap (po_page os), g_shm_name := name\<rparr>;
          (r1, shm1) = shm_create os 0 name (pl_shm st1);
          (r2, shm2) = (if r1 = Shm_exists then shm_create os 1 name (shm1 - {name}) else (r1, shm1));
          st2 = st1\<lparr>pl_shm := shm2\<rparr>
      in if r2 \<noteq> Shm_fd then hv_write_err ''heapviz: shm_open failed; telemetry disabled'' st2
         else if \<not> po_ftruncate_ok os then
           hv_write_err ''heapviz: ftruncate failed; telemetry disabled'' (st2\<lparr>pl_shm := pl_shm st2 - {name}\<rparr>)
         else if \<not> po_mmap_ok os then
           hv_write_err ''heapviz: mmap failed; telemetry disabled'' (st2\<lparr>pl_shm := pl_shm st2 - {name}\<rparr>)
         else st2\<lparr>g_ring := Some (hv_ring_setup cap (po_pid os) (po_now_ns os) (hv_read_comm os))\<rparr>)"

text \<open>The polls of \<^verbatim>\<open>hv_wait_for_consumer\<close>: whether a consumer showed up, and after how many sleeps.\<close>

fun wait_loop :: "preload_os \<Rightarrow> nat \<Rightarrow> nat \<Rightarrow> bool \<times> nat" where
  "wait_loop os k 0 = (False, k)"
| "wait_loop os k (Suc budget) =
     (if po_consumer_pid os k \<noteq> 0 then (True, k) else wait_loop os (Suc k) budget)"

definition hv_wait_for_consumer :: "preload_os \<Rightarrow> 'h preload \<Rightarrow> nat \<times> 'h preload" where
  "hv_wait_for_consumer os st =
     (case po_getenv os ''HEAPVIZ_WAIT_MS'' of
        None \<Rightarrow> (0, st)
      | Some raw \<Rightarrow>
          if raw = [] then (0, st)
          else (case strtol raw of (budget, rest) \<Rightarrow>
            if rest \<noteq> [] \<or> budget \<le> 0 then (0, st)
            else (case wait_loop os 0 (nat budget) of (seen, k) \<Rightarrow>
              (k, if seen then st
                  else hv_write_err ''heapviz: no consumer attached within HEAPVIZ_WAIT_MS; continuing without one'' st))))"

text \<open>The segment as a consumer that has it mapped still sees it, and the process after the unmap.\<close>

definition hv_ring_teardown :: "'h preload \<Rightarrow> hv_ring option \<times> 'h preload" where
  "hv_ring_teardown st =
     (case g_ring st of
        None \<Rightarrow> (None, st)
      | Some h \<Rightarrow> (Some (h\<lparr>producer_exited := 1\<rparr>), st\<lparr>g_ring := None, pl_shm := pl_shm st - {g_shm_name st}\<rparr>))"

definition hv_atfork_child :: "'h preload \<Rightarrow> 'h preload" where
  "hv_atfork_child st = st\<lparr>g_ring := None, g_tid := 0, g_in_hook := False\<rparr>"

definition heapviz_preload_abi_version :: u32 where
  "heapviz_preload_abi_version = HEAPVIZ_ABI_VERSION"

definition hv_preload_init :: "'h libc \<Rightarrow> preload_os \<Rightarrow> 'h preload \<Rightarrow> 'h preload option" where
  "hv_preload_init L os st =
     (case po_getenv os ''HEAPVIZ_DISABLE'' of
        Some (CHR 0x31 # _) \<Rightarrow> Some (st\<lparr>g_enabled := False\<rparr>)
      | _ \<Rightarrow> do {
          st1 \<leftarrow> hv_resolve_symbols L st;
          let st2 = ring_setup os st1;
          Some (if g_ring st2 \<noteq> None then snd (hv_wait_for_consumer os st2) else st2)
        })"

definition hv_preload_fini :: "'h preload \<Rightarrow> 'h preload" where
  "hv_preload_fini st = snd (hv_ring_teardown st)"

end
