(* ===== verification/Preload_Mirror.thy ===== *)
theory Preload_Mirror
  imports Preload Op_Refinement
begin

text \<open>
  What the events of the interceptor say about the heap of the target. A consumer that follows the events
  keeps a map of live blocks with their usable sizes; the hooks report exactly the changes of the
  allocator's own map. The allocator is any one that satisfies \<open>allocator\<close>.
\<close>

section \<open>The allocator behind the hooks\<close>

definition alloc_law :: "('h \<Rightarrow> u64 \<rightharpoonup> u64) \<Rightarrow> 'h libc \<Rightarrow> ('h \<Rightarrow> u64 \<times> 'h) \<Rightarrow> bool" where
  "alloc_law bl L f \<longleftrightarrow> (\<forall>h. case f h of (p, h') \<Rightarrow>
     if p = 0 then bl h' = bl h
     else bl h p = None \<and> \<not> hv_is_bootstrap_ptr L p \<and> (\<exists>u. bl h' = (bl h)(p \<mapsto> u)))"

definition realloc_law :: "('h \<Rightarrow> u64 \<rightharpoonup> u64) \<Rightarrow> 'h libc \<Rightarrow> bool" where
  "realloc_law bl L \<longleftrightarrow> (\<forall>h p n. bl h p \<noteq> None \<longrightarrow> (case lc_realloc L p n h of (q, h') \<Rightarrow>
     if q = 0 then bl h' = (if n = 0 then (bl h)(p := None) else bl h)
     else ((bl h)(p := None)) q = None \<and> \<not> hv_is_bootstrap_ptr L q \<and> (\<exists>u. bl h' = (bl h)(p := None, q \<mapsto> u))))"

definition release_laws :: "('h \<Rightarrow> u64 \<rightharpoonup> u64) \<Rightarrow> 'h libc \<Rightarrow> bool" where
  "release_laws bl L \<longleftrightarrow> (\<forall>h p. bl h p \<noteq> None \<longrightarrow> bl (lc_free L p h) = (bl h)(p := None)) \<and>
     (\<forall>h p bs. bl (lc_store L p bs h) = bl h) \<and>
     (\<forall>h p u. bl h p = Some u \<longrightarrow> lc_malloc_usable_size L p h = u)"

text \<open>
  The documented behaviour of the allocator, in terms of the blocks it has handed out: an allocation fails
  and changes nothing, or returns a block that was not in use; \<^verbatim>\<open>free\<close> releases a block; \<^verbatim>\<open>realloc\<close> to a
  size other than zero fails and changes nothing, or releases the block and returns one that is not in
  use then; writes to heap memory do not allocate. A size of zero makes \<^verbatim>\<open>realloc\<close> release the block.
\<close>

definition posix_memalign_ptr :: "'h libc \<Rightarrow> u64 \<Rightarrow> u64 \<Rightarrow> 'h \<Rightarrow> u64 \<times> 'h" where
  "posix_memalign_ptr L a n h = (case lc_posix_memalign L a n h of (rc, p, h') \<Rightarrow> (if rc = 0 then p else 0, h'))"

definition allocator :: "('h \<Rightarrow> u64 \<rightharpoonup> u64) \<Rightarrow> 'h libc \<Rightarrow> bool" where
  "allocator bl L \<longleftrightarrow>
     (\<forall>m n. alloc_law bl L (lc_malloc L n) \<and> alloc_law bl L (lc_calloc L m n) \<and>
        alloc_law bl L (posix_memalign_ptr L m n) \<and> alloc_law bl L (lc_aligned_alloc L m n) \<and>
        alloc_law bl L (lc_memalign L m n) \<and> alloc_law bl L (lc_valloc L n) \<and> alloc_law bl L (lc_pvalloc L n)) \<and>
     realloc_law bl L \<and> release_laws bl L"

lemma allocatorD:
  assumes "allocator bl L"
  shows "alloc_law bl L (lc_malloc L n)" "alloc_law bl L (lc_calloc L m n)"
    "alloc_law bl L (posix_memalign_ptr L m n)"
    "alloc_law bl L (lc_aligned_alloc L m n)" "alloc_law bl L (lc_memalign L m n)"
    "alloc_law bl L (lc_valloc L n)" "alloc_law bl L (lc_pvalloc L n)"
    "realloc_law bl L" "release_laws bl L"
  using assms by (simp_all add: allocator_def)

lemma alloc_lawD:
  assumes "alloc_law bl L f" "f h = (p, h')"
  shows "p = 0 \<Longrightarrow> bl h' = bl h"
    "p \<noteq> 0 \<Longrightarrow> bl h p = None \<and> \<not> hv_is_bootstrap_ptr L p \<and> (\<exists>u. bl h' = (bl h)(p \<mapsto> u))"
  using spec [OF assms(1) [unfolded alloc_law_def], of h] assms(2) by simp_all

lemma realloc_lawD:
  assumes "realloc_law bl L" "bl h p \<noteq> None" "lc_realloc L p n h = (q, h')"
  shows "q = 0 \<Longrightarrow> bl h' = (if n = 0 then (bl h)(p := None) else bl h)"
    "q \<noteq> 0 \<Longrightarrow> ((bl h)(p := None)) q = None \<and> \<not> hv_is_bootstrap_ptr L q \<and> (\<exists>u. bl h' = (bl h)(p := None, q \<mapsto> u))"
  using assms(1) [unfolded realloc_law_def, THEN spec, THEN spec, THEN spec, of h p n] assms(2,3) by simp_all

lemma release_lawsD:
  assumes "release_laws bl L"
  shows "bl h p \<noteq> None \<Longrightarrow> bl (lc_free L p h) = (bl h)(p := None)" "bl (lc_store L p bs h) = bl h"
    "bl h p = Some u \<Longrightarrow> lc_malloc_usable_size L p h = u"
  using assms unfolding release_laws_def by blast+

section \<open>Following the events\<close>

definition reports_free :: "hv_event \<Rightarrow> bool" where
  "reports_free e \<longleftrightarrow> ev_op e AND HV_OP_MASK = opcode_value HV_OP_FREE"

text \<open>One event, on the map of live blocks it describes; \<open>None\<close> is an event that contradicts the map.\<close>

definition track :: "hv_event \<Rightarrow> (u64 \<rightharpoonup> u32) \<Rightarrow> (u64 \<rightharpoonup> u32) option" where
  "track e t =
     (if reports_free e then (if t (ev_ptr e) = None then None else Some (t(ev_ptr e := None)))
      else if ev_ptr e = 0 \<or> t (ev_ptr e) \<noteq> None then None
      else Some (t(ev_ptr e \<mapsto> ev_usable e)))"

definition track_all :: "hv_event list \<Rightarrow> (u64 \<rightharpoonup> u32) \<Rightarrow> (u64 \<rightharpoonup> u32) option" where
  "track_all = run_ops track"

definition usable_u32 :: "u64 \<Rightarrow> u32" where
  "usable_u32 u = (if u > 0xFFFFFFFF then 0xFFFFFFFF else ucast u)"

definition heap_view :: "('h \<Rightarrow> u64 \<rightharpoonup> u64) \<Rightarrow> 'h \<Rightarrow> u64 \<rightharpoonup> u32" where
  "heap_view bl h = (\<lambda>p. map_option usable_u32 (bl h p))"

lemma heap_view_upd:
  "bl h' = (bl h)(p \<mapsto> u) \<Longrightarrow> heap_view bl h' = (heap_view bl h)(p \<mapsto> usable_u32 u)"
  "bl h' = (bl h)(p := None) \<Longrightarrow> heap_view bl h' = (heap_view bl h)(p := None)"
  "bl h' = bl h \<Longrightarrow> heap_view bl h' = heap_view bl h"
  "heap_view bl h p = None \<longleftrightarrow> bl h p = None"
  by (auto simp: heap_view_def)

section \<open>Emission\<close>

definition hook_ready :: "'h libc \<Rightarrow> 'h preload \<Rightarrow> bool" where
  "hook_ready L st \<longleftrightarrow> g_symbols_ready st \<and> g_real st = lc_exports L \<and> \<not> g_in_hook st \<and>
     (\<forall>s \<in> {Sym_malloc, Sym_free, Sym_calloc, Sym_realloc, Sym_malloc_usable_size}. lc_exports L s)"

definition ring_room :: "'h preload \<Rightarrow> nat \<Rightarrow> bool" where
  "ring_room st n \<longleftrightarrow> (\<exists>r. g_ring st = Some r \<and> ring_ok r \<and> length (ring_contents r) + n \<le> 2 ^ unat (capacity_log2 r))"

text \<open>The process went on to \<open>st'\<close> and the ring received \<open>es\<close>.\<close>

definition emits :: "'h libc \<Rightarrow> 'h preload \<Rightarrow> hv_event list \<Rightarrow> 'h preload \<Rightarrow> bool" where
  "emits L st es st' \<longleftrightarrow> hook_ready L st' \<and> (\<exists>r r'. g_ring st = Some r \<and> g_ring st' = Some r' \<and> ring_ok r' \<and>
     capacity_log2 r' = capacity_log2 r \<and> ring_contents r' = ring_contents r @ es)"

lemma emits_trans: "emits L st es st1 \<Longrightarrow> emits L st1 es' st2 \<Longrightarrow> emits L st (es @ es') st2"
  by (auto simp: emits_def)

lemma emits_room: "emits L st es st' \<Longrightarrow> ring_room st (length es + n) \<Longrightarrow> ring_room st' n"
  unfolding emits_def ring_room_def by fastforce

lemma emits_none: "hook_ready L st \<Longrightarrow> ring_room st n \<Longrightarrow> emits L st [] (st\<lparr>pl_heap := h\<rparr>)"
  by (auto simp: emits_def ring_room_def hook_ready_def)

lemma opcode_masked: "opcode_value op AND HV_OP_MASK = opcode_value op"
  by (cases op) (simp_all add: HV_OP_MASK_def)

lemma report_event_emits:
  assumes "hook_ready L st" "ring_room st (Suc n)"
  shows "\<exists>e. emits L st [e] (report_event L op p sz st) \<and> pl_heap (report_event L op p sz st) = pl_heap st \<and>
    ev_ptr e = p \<and> ev_usable e = hv_usable L p st \<and> ev_op e = opcode_value op \<and>
    e = event_of \<lparr>pa_timestamp = lc_now_ns L (pl_heap st), pa_ptr = p, pa_size = sz, pa_usable = hv_usable L p st,
      pa_tid = g_tid (hv_tid L st), pa_opcode = opcode_value op\<rparr>"
proof -
  obtain r where r: "g_ring st = Some r" "ring_ok r" "length (ring_contents r) < 2 ^ unat (capacity_log2 r)"
    using assms(2) by (auto simp: ring_room_def)
  define a where "a = \<lparr>pa_timestamp = lc_now_ns L (pl_heap st), pa_ptr = p, pa_size = sz, pa_usable = hv_usable L p st,
    pa_tid = g_tid (hv_tid L st), pa_opcode = opcode_value op\<rparr>"
  have ready: "\<not> g_in_hook st" using assms(1) by (simp add: hook_ready_def)
  have us: "hv_usable L p (st\<lparr>g_in_hook := True\<rparr>) = hv_usable L p st" by (simp add: hv_usable_def)
  have tid: "hv_tid L (st\<lparr>g_in_hook := True\<rparr>) = (hv_tid L st)\<lparr>g_in_hook := True\<rparr>"
    "pl_heap (hv_tid L st) = pl_heap st" "g_real (hv_tid L st) = g_real st" "g_symbols_ready (hv_tid L st) = g_symbols_ready st"
    by (simp_all add: hv_tid_def)
  have st': "report_event L op p sz st = (hv_tid L st)\<lparr>g_in_hook := False, g_ring := Some (snd (hv_ring_push r a))\<rparr>"
    using ready r(1) by (simp add: report_event_def hv_emit_def us tid a_def Let_def)
  have "ring_contents (snd (hv_ring_push r a)) = ring_contents r @ [event_of a]"
    using push_refines(2) [OF r(2), of a] r(3) by simp
  then have "emits L st [event_of a] (report_event L op p sz st)"
    using assms(1) push_refines(1) [OF r(2), of a] r(1) by (simp add: emits_def hook_ready_def st' tid)
  moreover have "ev_ptr (event_of a) = p" "ev_usable (event_of a) = hv_usable L p st" "ev_op (event_of a) = opcode_value op"
    by (simp_all add: event_of_def hv_event_set_tid_def a_def opcode_masked)
  ultimately show ?thesis
    by (intro exI [of _ "event_of a"]) (simp add: st' tid a_def)
qed

lemma report_event_heap [simp]: "pl_heap (report_event L op p sz st) = pl_heap st"
  by (simp add: report_event_def hv_emit_def hv_tid_def Let_def split: option.splits)

lemma hv_usable_block:
  assumes "allocator bl L" "hook_ready L st" "bl (pl_heap st) p = Some u" "p \<noteq> 0"
  shows "hv_usable L p st = usable_u32 u"
  using assms release_lawsD(3) [OF allocatorD(9) [OF assms(1)] assms(3)] by (simp add: hv_usable_def hook_ready_def usable_u32_def Let_def)

text \<open>A call is mirrored when what it reports takes the old view of the heap to the new one.\<close>

definition mirrored :: "('h \<Rightarrow> u64 \<rightharpoonup> u64) \<Rightarrow> 'h libc \<Rightarrow> 'h preload \<Rightarrow> hv_event list \<Rightarrow> 'h preload \<Rightarrow> bool" where
  "mirrored bl L st es st' \<longleftrightarrow> emits L st es st' \<and>
     track_all es (heap_view bl (pl_heap st)) = Some (heap_view bl (pl_heap st'))"

lemma mirrored_trans:
  assumes "mirrored bl L st es st1" "mirrored bl L st1 es' st2"
  shows "mirrored bl L st (es @ es') st2"
  using assms emits_trans by (fastforce simp: mirrored_def track_all_def run_ops_append)

section \<open>The hooks that allocate\<close>

text \<open>
  The contract the seven allocating functions share: run the real function, hand its result on, and report
  the block under the function's opcode when there is one.
\<close>

locale reporting_hook =
  fixes hook :: "'h libc \<Rightarrow> 'a \<Rightarrow> 'h preload \<Rightarrow> (u64 \<times> 'h preload) option"
    and acquire :: "'h libc \<Rightarrow> 'a \<Rightarrow> 'h \<Rightarrow> u64 \<times> 'h"
    and opc :: hv_opcode
    and bytes :: "'a \<Rightarrow> u64"
  assumes shape: "hook_ready L st \<Longrightarrow> acquire L x (pl_heap st) = (p, h) \<Longrightarrow> hook L x st =
      Some (p, if p \<noteq> 0 then report_event L opc p (bytes x) (st\<lparr>pl_heap := h\<rparr>) else st\<lparr>pl_heap := h\<rparr>)"
    and lawful: "allocator bl L \<Longrightarrow> alloc_law bl L (acquire L x)"
    and allocating: "opc \<noteq> HV_OP_FREE"
begin

lemma hook_mirrors:
  assumes al: "allocator bl L" and ready: "hook_ready L st" and room: "ring_room st (Suc n)"
  shows "\<exists>es st'. hook L x st = Some (fst (acquire L x (pl_heap st)), st') \<and> mirrored bl L st es st' \<and> length es \<le> 1"
proof -
  obtain p h where f: "acquire L x (pl_heap st) = (p, h)" by fastforce
  note law = alloc_lawD [OF lawful [OF al] f]
  let ?st = "st\<lparr>pl_heap := h\<rparr>"
  show ?thesis
  proof (cases "p = 0")
    case True
    then have "mirrored bl L st [] ?st"
      using emits_none [OF ready room, of h] law(1) heap_view_upd(3) [of bl h "pl_heap st"] by (simp add: mirrored_def track_all_def)
    then show ?thesis
      using shape [OF ready f] f True by fastforce
  next
    case False
    then obtain u where u: "bl (pl_heap st) p = None" "bl h = (bl (pl_heap st))(p \<mapsto> u)"
      using law(2) by blast
    have ready': "hook_ready L ?st" and room': "ring_room ?st (Suc n)"
      using ready room by (simp_all add: hook_ready_def ring_room_def)
    obtain e where e: "emits L ?st [e] (report_event L opc p (bytes x) ?st)"
      "pl_heap (report_event L opc p (bytes x) ?st) = h" "ev_ptr e = p" "ev_usable e = hv_usable L p ?st" "ev_op e = opcode_value opc"
      using report_event_emits [OF ready' room', of opc p "bytes x"] by auto
    have "hv_usable L p ?st = usable_u32 u"
      using hv_usable_block [OF al ready', of p u] u False by simp
    moreover have "\<not> reports_free e"
      using e(5) allocating by (cases opc) (simp_all add: reports_free_def HV_OP_MASK_def)
    ultimately have "mirrored bl L st [e] (report_event L opc p (bytes x) ?st)"
      using e u False heap_view_upd(1) [of bl h "pl_heap st" p u, OF u(2)] heap_view_upd(4) [of bl "pl_heap st" p]
      by (simp add: mirrored_def emits_def track_all_def track_def)
    then show ?thesis
      using shape [OF ready f] f False by fastforce
  qed
qed

end

lemma ensure_ready: "hook_ready L st \<Longrightarrow> ensure (hv_resolve_symbols L) s st = Some st"
  by (simp add: ensure_def hv_resolve_symbols_def hook_ready_def)

lemma ready_real: "hook_ready L st \<Longrightarrow> g_real st s = lc_exports L s"
  "hook_ready L st \<Longrightarrow> s \<in> {Sym_malloc, Sym_free, Sym_calloc, Sym_realloc, Sym_malloc_usable_size} \<Longrightarrow> g_real st s"
  by (auto simp: hook_ready_def)

text \<open>A symbol the library does not export makes its hook fail without calling anything.\<close>

definition if_exported :: "real_symbol \<Rightarrow> ('h libc \<Rightarrow> 'a \<Rightarrow> 'h \<Rightarrow> u64 \<times> 'h) \<Rightarrow> 'h libc \<Rightarrow> 'a \<Rightarrow> 'h \<Rightarrow> u64 \<times> 'h" where
  "if_exported s f L x h = (if lc_exports L s then f L x h else (0, h))"

lemma if_exported_lawful:
  assumes "alloc_law bl L (f L x)"
  shows "alloc_law bl L (if_exported s f L x)"
  using assms by (simp add: alloc_law_def if_exported_def)

lemma aligned_hook_shape:
  assumes "hook_ready L st"
  shows "aligned_hook (hv_resolve_symbols L) L s realfn sz st =
    (case (if lc_exports L s then realfn (pl_heap st) else (0, pl_heap st)) of (p, h) \<Rightarrow>
      Some (p, if p \<noteq> 0 then report_event L HV_OP_MEMALIGN p sz (st\<lparr>pl_heap := h\<rparr>) else st\<lparr>pl_heap := h\<rparr>))"
  using assms by (simp add: aligned_hook_def ensure_ready ready_real Let_def)

definition posix_memalign_block :: "'h libc \<Rightarrow> u64 \<times> u64 \<times> u64 \<Rightarrow> 'h preload \<Rightarrow> (u64 \<times> 'h preload) option" where
  "posix_memalign_block L x st = (case x of (m, a, n) \<Rightarrow>
     map_option (\<lambda>(rc, p, st'). (if rc = 0 then p else 0, st')) (posix_memalign L m a n st))"

lemma posix_memalign_shape:
  assumes "hook_ready L st"
  shows "posix_memalign_block L (m, a, n) st =
    (case (if lc_exports L Sym_posix_memalign then posix_memalign_ptr L a n (pl_heap st) else (0, pl_heap st)) of (p, h) \<Rightarrow>
      Some (p, if p \<noteq> 0 then report_event L HV_OP_MEMALIGN p n (st\<lparr>pl_heap := h\<rparr>) else st\<lparr>pl_heap := h\<rparr>))"
proof (cases "lc_exports L Sym_posix_memalign")
  case True
  obtain rc p h where r: "lc_posix_memalign L a n (pl_heap st) = (rc, p, h)" by (rule prod_cases3)
  show ?thesis
    using assms True by (simp add: posix_memalign_block_def Let_def posix_memalign_def posix_memalign_with_def ensure_ready ready_real(1) posix_memalign_ptr_def r)
next
  case False
  then show ?thesis
    using assms by (simp add: posix_memalign_block_def Let_def posix_memalign_def posix_memalign_with_def ensure_ready ready_real(1) ENOMEM_def)
qed

interpretation malloc_hook: reporting_hook malloc lc_malloc HV_OP_MALLOC "\<lambda>n. n"
  by unfold_locales (auto simp: malloc_def malloc_with_def ensure_ready ready_real(2) allocatorD(1))

interpretation calloc_hook: reporting_hook "\<lambda>L (m, n). calloc L m n" "\<lambda>L (m, n). lc_calloc L m n" HV_OP_CALLOC
  "\<lambda>(m, n). case mul_overflow m n of None \<Rightarrow> 0 | Some b \<Rightarrow> b"
  by unfold_locales (auto simp: calloc_def calloc_with_def ensure_ready ready_real(2) allocatorD(2) split: prod.splits)

interpretation posix_memalign_hook: reporting_hook posix_memalign_block
  "if_exported Sym_posix_memalign (\<lambda>L (m, a, n). posix_memalign_ptr L a n)" HV_OP_MEMALIGN "\<lambda>(m, a, n). n"
  by unfold_locales
    (auto simp: posix_memalign_shape if_exported_def intro!: if_exported_lawful allocatorD(3))

interpretation aligned_alloc_hook: reporting_hook "\<lambda>L (a, n). aligned_alloc L a n"
  "if_exported Sym_aligned_alloc (\<lambda>L (a, n). lc_aligned_alloc L a n)" HV_OP_MEMALIGN snd
  by unfold_locales
    (auto simp: aligned_alloc_def if_exported_def aligned_hook_shape intro!: if_exported_lawful allocatorD(4))

interpretation memalign_hook: reporting_hook "\<lambda>L (a, n). memalign L a n"
  "if_exported Sym_memalign (\<lambda>L (a, n). lc_memalign L a n)" HV_OP_MEMALIGN snd
  by unfold_locales
    (auto simp: memalign_def if_exported_def aligned_hook_shape intro!: if_exported_lawful allocatorD(5))

interpretation valloc_hook: reporting_hook valloc "if_exported Sym_valloc lc_valloc" HV_OP_MEMALIGN "\<lambda>n. n"
  by unfold_locales
    (auto simp: valloc_def if_exported_def aligned_hook_shape intro!: if_exported_lawful allocatorD(6))

interpretation pvalloc_hook: reporting_hook pvalloc "if_exported Sym_pvalloc lc_pvalloc" HV_OP_MEMALIGN "\<lambda>n. n"
  by unfold_locales
    (auto simp: pvalloc_def if_exported_def aligned_hook_shape intro!: if_exported_lawful allocatorD(7))

section \<open>The hooks that release\<close>

lemma free_event_tracks:
  assumes "ev_ptr e = p" "ev_op e = opcode_value HV_OP_FREE" "bl h p \<noteq> None" "bl h' = (bl h)(p := None)"
  shows "track e (heap_view bl h) = Some (heap_view bl h')"
  using assms heap_view_upd(4) [of bl h p] heap_view_upd(2) [of bl h' h p] by (simp add: track_def reports_free_def opcode_masked del: opcode_value.simps)

lemma block_hook_ptr: "hook_ready L st \<Longrightarrow> hook_ready L (st\<lparr>pl_heap := h\<rparr>)"
  by (simp add: hook_ready_def)

lemma emits_heap: "emits L st es st' \<Longrightarrow> emits L st es (st'\<lparr>pl_heap := h\<rparr>)"
  by (auto simp: emits_def hook_ready_def)

lemma free_mirrors:
  assumes al: "allocator bl L" and ready: "hook_ready L st" and room: "ring_room st (Suc n)"
    and p: "bl (pl_heap st) p \<noteq> None" "p \<noteq> 0" "\<not> hv_is_bootstrap_ptr L p"
  shows "\<exists>es st'. free L p st = Some st' \<and> mirrored bl L st es st' \<and> length es \<le> 1"
proof -
  let ?r = "report_event L HV_OP_FREE p 0 st"
  obtain e where e: "emits L st [e] ?r" "pl_heap ?r = pl_heap st" "ev_ptr e = p" "ev_op e = opcode_value HV_OP_FREE"
    using report_event_emits [OF ready room, of HV_OP_FREE p 0] by auto
  let ?st = "?r\<lparr>pl_heap := lc_free L p (pl_heap st)\<rparr>"
  have "bl (lc_free L p (pl_heap st)) = (bl (pl_heap st))(p := None)"
    using release_lawsD(1) [OF allocatorD(9) [OF al] p(1)] .
  then have "mirrored bl L st [e] ?st"
    using emits_heap [OF e(1)] free_event_tracks [OF e(3,4), of bl, OF p(1)] by (simp add: mirrored_def track_all_def)
  moreover have "free L p st = Some ?st"
    using p(2,3) ready e(2) by (simp add: free_def free_with_def ensure_ready ready_real(2) Let_def)
  ultimately show ?thesis by (intro exI [of _ "[e]"]) auto
qed

lemma alloc_event_tracks:
  assumes "ev_ptr e = q" "ev_op e = opcode_value HV_OP_REALLOC" "q \<noteq> 0" "t q = None" "ev_usable e = u"
  shows "track e t = Some (t(q \<mapsto> u))"
  using assms by (simp add: track_def reports_free_def HV_OP_MASK_def)

text \<open>
  The pair of events of a \<^verbatim>\<open>realloc\<close>: the block leaves the view before the real function runs, and whatever
  the function left in use, the new block or the old one, comes back after it.
\<close>

lemma realloc_mirrors:
  assumes al: "allocator bl L" and ready: "hook_ready L st" and room: "ring_room st (Suc (Suc n))"
    and p: "bl (pl_heap st) p \<noteq> None" "p \<noteq> 0" "\<not> hv_is_bootstrap_ptr L p" and sz: "sz \<noteq> 0"
  shows "\<exists>es st' q. realloc L p sz st = Some (q, st') \<and> mirrored bl L st es st' \<and> length es \<le> 2"
proof -
  let ?h = "pl_heap st" and ?r = "report_event L HV_OP_FREE p 0 st"
  obtain e where e: "emits L st [e] ?r" "pl_heap ?r = ?h" "ev_ptr e = p" "ev_op e = opcode_value HV_OP_FREE"
    using report_event_emits [OF ready room, of HV_OP_FREE p 0] by auto
  obtain q h where re: "lc_realloc L p sz ?h = (q, h)" by fastforce
  note law = realloc_lawD [OF allocatorD(8) [OF al] p(1) re]
  define b where "b = (if q \<noteq> 0 then q else p)"
  obtain u where u: "((bl ?h)(p := None)) b = None" "bl h = (bl ?h)(p := None, b \<mapsto> u)"
    using law p(1) sz by (cases "q = 0") (auto simp: b_def intro: map_upd_triv [symmetric])
  let ?st = "?r\<lparr>pl_heap := h\<rparr>"
  have b0: "b \<noteq> 0" using p(2) by (simp add: b_def)
  have ready': "hook_ready L ?st" and room': "ring_room ?st (Suc n)"
    using emits_room [OF e(1), of "Suc n"] e(1) room by (simp_all add: emits_def hook_ready_def ring_room_def)
  obtain e' where e': "emits L ?st [e'] (report_event L HV_OP_REALLOC b sz ?st)"
    "pl_heap (report_event L HV_OP_REALLOC b sz ?st) = h" "ev_ptr e' = b" "ev_usable e' = hv_usable L b ?st"
    "ev_op e' = opcode_value HV_OP_REALLOC"
    using report_event_emits [OF ready' room', of HV_OP_REALLOC b sz] by auto
  have us: "hv_usable L b ?st = usable_u32 u"
    using hv_usable_block [OF al ready', of b u] u(2) b0 by simp
  have "track e (heap_view bl ?h) = Some ((heap_view bl ?h)(p := None))"
    using e p(1) heap_view_upd(4) [of bl ?h p] by (simp add: track_def reports_free_def HV_OP_MASK_def)
  moreover have "track e' ((heap_view bl ?h)(p := None)) = Some (heap_view bl h)"
  proof -
    have "((heap_view bl ?h)(p := None)) b = None" using u(1) by (simp add: heap_view_def split: if_splits)
    moreover have "heap_view bl h = (heap_view bl ?h)(p := None, b \<mapsto> usable_u32 u)"
      using u(2) by (auto simp: heap_view_def)
    ultimately show ?thesis
      using alloc_event_tracks [OF e'(3,5) b0 _ e'(4)] us by simp
  qed
  ultimately have "mirrored bl L st [e, e'] (report_event L HV_OP_REALLOC b sz ?st)"
    using emits_trans [OF emits_heap [OF e(1)] e'(1)] e'(2) by (simp add: mirrored_def track_all_def)
  moreover have "realloc L p sz st = Some (q, report_event L HV_OP_REALLOC b sz ?st)"
    using p(2,3) ready e(2) re by (simp add: realloc_def realloc_with_def ensure_ready ready_real(2) Let_def b_def)
  ultimately show ?thesis by (intro exI [of _ "[e, e']"]) auto
qed

section \<open>Whole programs\<close>

datatype target_call = T_malloc u64 | T_free u64 | T_calloc u64 u64 | T_realloc u64 u64 |
  T_posix_memalign u64 u64 u64 | T_aligned_alloc u64 u64 | T_memalign u64 u64 | T_valloc u64 | T_pvalloc u64

fun run_call :: "'h libc \<Rightarrow> target_call \<Rightarrow> 'h preload \<Rightarrow> 'h preload option" where
  "run_call L (T_malloc n) st = map_option snd (malloc L n st)"
| "run_call L (T_free p) st = free L p st"
| "run_call L (T_calloc m n) st = map_option snd (calloc L m n st)"
| "run_call L (T_realloc p n) st = map_option snd (realloc L p n st)"
| "run_call L (T_posix_memalign m a n) st = map_option snd (posix_memalign_block L (m, a, n) st)"
| "run_call L (T_aligned_alloc a n) st = map_option snd (aligned_alloc L a n st)"
| "run_call L (T_memalign a n) st = map_option snd (memalign L a n st)"
| "run_call L (T_valloc n) st = map_option snd (valloc L n st)"
| "run_call L (T_pvalloc n) st = map_option snd (pvalloc L n st)"

text \<open>
  A target that uses its allocator correctly: it releases and resizes only null, blocks of the arena or
  blocks in use. Resizing a block to zero is excluded, \<open>realloc_zero_reported_live\<close> shows why.
\<close>

fun call_ok :: "('h \<Rightarrow> u64 \<rightharpoonup> u64) \<Rightarrow> 'h libc \<Rightarrow> target_call \<Rightarrow> 'h \<Rightarrow> bool" where
  "call_ok bl L (T_free p) h \<longleftrightarrow> p = 0 \<or> hv_is_bootstrap_ptr L p \<or> bl h p \<noteq> None"
| "call_ok bl L (T_realloc p n) h \<longleftrightarrow> p = 0 \<or> hv_is_bootstrap_ptr L p \<or> bl h p \<noteq> None \<and> n \<noteq> 0"
| "call_ok bl L _ h \<longleftrightarrow> True"

fun calls_ok :: "('h \<Rightarrow> u64 \<rightharpoonup> u64) \<Rightarrow> 'h libc \<Rightarrow> target_call list \<Rightarrow> 'h preload \<Rightarrow> bool" where
  "calls_ok bl L [] st \<longleftrightarrow> True"
| "calls_ok bl L (c # cs) st \<longleftrightarrow> call_ok bl L c (pl_heap st) \<and>
     (case run_call L c st of None \<Rightarrow> True | Some st' \<Rightarrow> calls_ok bl L cs st')"

lemma mirrored_nothing: "hook_ready L st \<Longrightarrow> ring_room st n \<Longrightarrow> mirrored bl L st [] st"
  using emits_none [of L st n "pl_heap st"] by (simp add: mirrored_def track_all_def)

lemma realloc_moves:
  assumes al: "allocator bl L" and ready: "hook_ready L st" and room: "ring_room st (Suc n)" and p: "p = 0 \<or> hv_is_bootstrap_ptr L p"
  shows "\<exists>es st' q. realloc L p sz st = Some (q, st') \<and> mirrored bl L st es st' \<and> length es \<le> 1"
proof -
  obtain es st1 q where m: "malloc L sz st = Some (q, st1)" "mirrored bl L st es st1" "length es \<le> 1"
    using malloc_hook.hook_mirrors [OF al ready room] by blast
  show ?thesis
  proof (cases "p = 0")
    case True
    then have "realloc L p sz st = Some (q, st1)"
      using m(1) ready by (simp add: realloc_def realloc_with_def ensure_ready ready_real(2) malloc_def)
    then show ?thesis using m by blast
  next
    case False
    let ?n = "if hv_bootstrap_size L p st < sz then hv_bootstrap_size L p st else sz"
    let ?st = "st1\<lparr>pl_heap := lc_store L q (arena_bytes L p ?n st1) (pl_heap st1)\<rparr>"
    have "realloc L p sz st = Some (q, if q \<noteq> 0 then ?st else st1)"
      using m(1) ready False p by (simp add: realloc_def realloc_with_def ensure_ready ready_real(2) malloc_def)
    moreover have "mirrored bl L st es ?st"
      using m(2) emits_heap release_lawsD(2) [OF allocatorD(9) [OF al]] by (auto simp: mirrored_def heap_view_def)
    ultimately show ?thesis using m(2,3) by (cases "q = 0") auto
  qed
qed

lemma call_mirrors:
  assumes al: "allocator bl L" and ready: "hook_ready L st" and room: "ring_room st (Suc (Suc n))" and ok: "call_ok bl L c (pl_heap st)"
  shows "\<exists>es st'. run_call L c st = Some st' \<and> mirrored bl L st es st' \<and> length es \<le> 2"
proof -
  have room1: "ring_room st (Suc n)" using room by (auto simp: ring_room_def)
  note hooks = malloc_hook.hook_mirrors calloc_hook.hook_mirrors posix_memalign_hook.hook_mirrors aligned_alloc_hook.hook_mirrors
    memalign_hook.hook_mirrors valloc_hook.hook_mirrors pvalloc_hook.hook_mirrors
  show ?thesis
  proof (cases c)
    case (T_free p)
    show ?thesis
    proof (cases "p = 0 \<or> hv_is_bootstrap_ptr L p")
      case True
      then show ?thesis
        using mirrored_nothing [OF ready room] T_free by (intro exI [of _ "[]"] exI [of _ st]) (auto simp: free_def free_with_def)
    next
      case False
      then show ?thesis
        using free_mirrors [OF al ready room1] ok T_free by fastforce
    qed
  next
    case (T_realloc p sz)
    then show ?thesis
      using realloc_mirrors [OF al ready room, of p sz] realloc_moves [OF al ready room1, of p sz] ok by fastforce
  qed (use hooks [OF al ready room1] in fastforce)+
qed

text \<open>A whole program: the events in the ring replay the history of the heap.\<close>

lemma calls_mirror:
  assumes al: "allocator bl L"
  shows "hook_ready L st \<Longrightarrow> ring_room st (n + 2 * length cs) \<Longrightarrow> calls_ok bl L cs st \<Longrightarrow>
    \<exists>es st'. run_ops (run_call L) cs st = Some st' \<and> mirrored bl L st es st' \<and> length es \<le> 2 * length cs"
proof (induction cs arbitrary: st)
  case Nil
  then show ?case using mirrored_nothing by fastforce
next
  case (Cons c cs)
  obtain es st1 where 1: "run_call L c st = Some st1" "mirrored bl L st es st1" "length es \<le> 2"
    using call_mirrors [OF al Cons.prems(1), of "n + 2 * length cs" c] Cons.prems by auto
  have "ring_room st (length es + (n + 2 * length cs))"
    using Cons.prems(2) 1(3) by (auto simp: ring_room_def)
  then have "ring_room st1 (n + 2 * length cs)" "hook_ready L st1"
    using 1(2) emits_room [of L st es st1] by (simp_all add: mirrored_def) (simp add: emits_def)
  then obtain es' st2 where 2: "run_ops (run_call L) cs st1 = Some st2" "mirrored bl L st1 es' st2" "length es' \<le> 2 * length cs"
    using Cons.IH [of st1] Cons.prems(3) 1(1) by auto
  show ?case
    using 1 2 mirrored_trans [OF 1(2) 2(2)] by (intro exI [of _ "es @ es'"] exI [of _ st2]) auto
qed

section \<open>The constructor leaves the hooks ready\<close>

text \<open>What the calls inside \<^verbatim>\<open>dlsym\<close> leave alone: everything but the arena, the heap and the cached thread id.\<close>

definition quiet_same :: "'h preload \<Rightarrow> 'h preload \<Rightarrow> bool" where
  "quiet_same st st' \<longleftrightarrow> g_ring st' = None \<and> g_in_hook st' = g_in_hook st \<and> g_symbols_ready st' = g_symbols_ready st \<and>
     g_resolving st' = g_resolving st \<and> pl_shm st' = pl_shm st \<and> pl_stderr st' = pl_stderr st \<and> g_enabled st' = g_enabled st"

lemma calloc_quiet:
  assumes "g_ring st = None" "calloc_with Some L m n st = Some (p, st')"
  shows "quiet_same st st' \<and> g_real st' = g_real st"
proof -
  have "report_event L op q z s = s" if "g_ring s = None" for op q z s
    using that by (cases s) (simp add: report_event_def hv_emit_def)
  then show ?thesis
    using assms by (auto simp: calloc_with_def ensure_def hv_bootstrap_alloc_def quiet_same_def Let_def split: if_splits option.splits bind_splits prod.splits)
qed

lemma nested_quiet:
  "g_ring st = None \<Longrightarrow> nested_callocs L xs st = Some st' \<Longrightarrow> quiet_same st st' \<and> g_real st' = g_real st"
proof (induction L xs st rule: nested_callocs.induct)
  case (2 L m n xs st)
  then show ?case
    using calloc_quiet [of st L m n] by (fastforce simp: quiet_same_def split: bind_splits)
qed (simp add: quiet_same_def)

lemma resolve_all_quiet:
  "g_ring st = None \<Longrightarrow> resolve_all L ss st = Some st' \<Longrightarrow>
    quiet_same st st' \<and> (\<forall>s. g_real st' s = (if s \<in> set ss then lc_exports L s else g_real st s))"
proof (induction ss arbitrary: st)
  case (Cons s ss)
  then obtain st1 where st1: "nested_callocs L (lc_dlsym_callocs L s) st = Some st1"
    "resolve_all L ss (st1\<lparr>g_real := (g_real st1)(s := lc_exports L s)\<rparr>) = Some st'"
    by (auto split: bind_splits)
  from nested_quiet [OF Cons.prems(1) st1(1)] Cons.IH [OF _ st1(2)] show ?case
    by (auto simp: quiet_same_def)
qed (simp add: quiet_same_def)

lemma resolve_order_all: "s \<in> set resolve_order"
  by (cases s) (simp_all add: resolve_order_def)

definition required_exports :: "'h libc \<Rightarrow> bool" where
  "required_exports L \<longleftrightarrow> (\<forall>s \<in> {Sym_malloc, Sym_free, Sym_calloc, Sym_realloc, Sym_malloc_usable_size}. lc_exports L s)"

lemma resolve_ready:
  assumes "hv_resolve_symbols L st = Some st'" "g_ring st = None" "\<not> g_symbols_ready st" "\<not> g_resolving st" "\<not> g_in_hook st"
    and "required_exports L"
  shows "hook_ready L st' \<and> g_ring st' = None \<and> pl_shm st' = pl_shm st"
proof -
  obtain st1 where st1: "resolve_all L resolve_order (st\<lparr>g_resolving := True\<rparr>) = Some st1"
    "st' = st1\<lparr>g_resolving := False, g_symbols_ready := True\<rparr>"
    using assms(1,3,4) by (auto simp: hv_resolve_symbols_def Let_def split: bind_splits if_splits)
  from resolve_all_quiet [OF _ st1(1)] show ?thesis
    using assms(2,5,6) st1(2) resolve_order_all by (auto simp: quiet_same_def hook_ready_def required_exports_def)
qed

lemma env_capacity:
  assumes "hv_env_capacity os st = (cap, st')"
  shows "hv_is_pow2 cap" "1024 \<le> cap" "\<exists>msgs. st' = st\<lparr>pl_stderr := msgs\<rparr>"
proof -
  have "hv_is_pow2 HV_DEFAULT_CAPACITY" "(1024 :: u64) \<le> HV_DEFAULT_CAPACITY"
    by (simp_all add: HV_DEFAULT_CAPACITY_def hv_is_pow2_def)
  then show "hv_is_pow2 cap" "1024 \<le> cap"
    using assms by (auto simp: hv_env_capacity_def split: option.splits if_splits prod.splits)
  show "\<exists>msgs. st' = st\<lparr>pl_stderr := msgs\<rparr>"
    using assms by (cases st) (auto simp: hv_env_capacity_def hv_write_err_def split: option.splits if_splits prod.splits)
qed

text \<open>The segment name the process uses.\<close>

definition own_name :: "preload_os \<Rightarrow> string" where
  "own_name os = (case fst (hv_shm_name HV_SHM_NAME_MAX (po_pid os)) of None \<Rightarrow> [] | Some s \<Rightarrow> s)"

lemma ring_setup_outcome:
  assumes ready: "hook_ready L st" and none: "g_ring st = None" and st': "st' = ring_setup os st"
  shows "hook_ready L st' \<and>
    (case g_ring st' of
       None \<Rightarrow> pl_shm st' \<subseteq> pl_shm st \<and> length (pl_stderr st) < length (pl_stderr st')
     | Some r \<Rightarrow> ring_ok r \<and> ring_contents r = [] \<and> 1024 \<le> capacity r \<and> magic r = HEAPVIZ_ABI_MAGIC \<and>
         pl_shm st' = insert (own_name os) (pl_shm st) \<and> g_shm_name st' = own_name os)"
proof -
  obtain cap st0 where c: "hv_env_capacity os st = (cap, st0)" by fastforce
  note C = env_capacity [OF c]
  obtain msgs where st0: "st0 = st\<lparr>pl_stderr := msgs\<rparr>" using C(3) by blast
  have len: "length (pl_stderr st) \<le> length msgs"
    using c st0 by (cases st) (auto simp: hv_env_capacity_def hv_write_err_def split: option.splits if_splits prod.splits)
  have ok: "ring_ok (hv_ring_setup cap x y z)" "ring_contents (hv_ring_setup cap x y z) = []" "1024 \<le> capacity (hv_ring_setup cap x y z)"
    "magic (hv_ring_setup cap x y z) = HEAPVIZ_ABI_MAGIC" for x y z
    using hv_ring_setup_ok [OF C(1)] C(2) by (simp_all add: hv_ring_setup_def)
  show ?thesis
    unfolding st' using ready none len ok
    by (auto simp: ring_setup_def c st0 own_name_def [symmetric] shm_create_def hv_write_err_def hook_ready_def Let_def split: if_splits)
qed

end
