(* ===== verification/Preload_Properties.thy ===== *)
theory Preload_Properties
  imports Preload_Mirror
begin

text \<open>
  The properties of the interceptor, on the constructor and the exported functions, with a small
  allocator that satisfies the laws.
\<close>

section \<open>An allocator\<close>

type_synonym blocks = "(u64 \<times> u64) list"

definition demo_pool :: "u64 list" where
  "demo_pool = [4096, 4112, 4128]"

definition demo_alloc :: "u64 \<Rightarrow> blocks \<Rightarrow> u64 \<times> blocks" where
  "demo_alloc n h = (case List.find (\<lambda>a. a \<notin> fst ` set h) demo_pool of None \<Rightarrow> (0, h) | Some a \<Rightarrow> (a, (a, n) # h))"

definition demo_free :: "u64 \<Rightarrow> blocks \<Rightarrow> blocks" where
  "demo_free p h = filter (\<lambda>b. fst b \<noteq> p) h"

definition demo_libc :: "blocks libc" where
  "demo_libc = \<lparr>lc_malloc = demo_alloc, lc_free = demo_free, lc_calloc = (\<lambda>m n. demo_alloc (m * n)),
     lc_realloc = (\<lambda>p n h. if n = 0 then (0, demo_free p h) else (p, (p, n) # demo_free p h)),
     lc_posix_memalign = (\<lambda>a n h. (0, demo_alloc n h)), lc_aligned_alloc = (\<lambda>a. demo_alloc), lc_memalign = (\<lambda>a. demo_alloc),
     lc_valloc = demo_alloc, lc_pvalloc = demo_alloc,
     lc_malloc_usable_size = (\<lambda>p h. case map_of h p of None \<Rightarrow> 0 | Some u \<Rightarrow> u), lc_store = (\<lambda>p bs h. h),
     lc_exports = (\<lambda>s. s \<noteq> Sym_pvalloc), lc_dlsym_callocs = (\<lambda>s. if s = Sym_malloc then [(1, 32)] else []), lc_now_ns = (\<lambda>h. 0),
     lc_gettid = 7, lc_arena = 0x100000\<rparr>"

definition demo_blocks :: "blocks \<Rightarrow> u64 \<rightharpoonup> u64" where
  "demo_blocks h = (\<lambda>p. if p \<in> set demo_pool then map_of h p else None)"

lemma pool: "a \<in> set demo_pool \<Longrightarrow> \<not> hv_is_bootstrap_ptr demo_libc a \<and> a \<noteq> 0"
  by (auto simp: demo_pool_def hv_is_bootstrap_ptr_def demo_libc_def HV_BOOTSTRAP_BYTES_def)

lemma map_of_without: "map_of (filter (\<lambda>b. fst b \<noteq> p) h) x = (if x = p then None else map_of h x)"
  by (induction h) auto

lemma demo_blocks_simps:
  "p \<in> set demo_pool \<Longrightarrow> demo_blocks ((p, n) # h) = (demo_blocks h)(p \<mapsto> n)"
  "demo_blocks (demo_free p h) = (demo_blocks h)(p := None)"
  "demo_blocks h p = Some u \<Longrightarrow> p \<in> set demo_pool"
  by (auto simp: demo_blocks_def demo_free_def map_of_without fun_eq_iff split: if_splits)

lemma demo_alloc_lawful: "alloc_law demo_blocks demo_libc (demo_alloc n)"
  unfolding alloc_law_def
proof
  fix h
  show "case demo_alloc n h of (p, h') \<Rightarrow> if p = 0 then demo_blocks h' = demo_blocks h
    else demo_blocks h p = None \<and> \<not> hv_is_bootstrap_ptr demo_libc p \<and> (\<exists>u. demo_blocks h' = (demo_blocks h)(p \<mapsto> u))"
  proof (cases "List.find (\<lambda>a. a \<notin> fst ` set h) demo_pool")
    case (Some a)
    then have a: "a \<in> set demo_pool" "a \<notin> fst ` set h" by (auto simp: find_Some_iff)
    then have "demo_blocks h a = None" by (auto simp: demo_blocks_def map_of_eq_None_iff)
    then show ?thesis
      using Some pool [OF a(1)] demo_blocks_simps(1) [OF a(1)] by (simp add: demo_alloc_def) blast
  qed (simp add: demo_alloc_def)
qed

lemma demo_allocator: "allocator demo_blocks demo_libc"
proof -
  have "posix_memalign_ptr demo_libc m n = demo_alloc n" for m n
    by (simp add: fun_eq_iff posix_memalign_ptr_def demo_libc_def split_beta)
  moreover have "lc_malloc demo_libc = demo_alloc" "lc_calloc demo_libc m n = demo_alloc (m * n)" "lc_aligned_alloc demo_libc m = demo_alloc"
    "lc_memalign demo_libc m = demo_alloc" "lc_valloc demo_libc = demo_alloc" "lc_pvalloc demo_libc = demo_alloc" for m n
    by (simp_all add: demo_libc_def)
  moreover have "release_laws demo_blocks demo_libc"
    by (auto simp: release_laws_def demo_libc_def demo_blocks_simps(2)) (auto simp: demo_blocks_def split: if_splits option.splits)
  moreover have "realloc_law demo_blocks demo_libc"
  proof -
    have "demo_blocks h p \<noteq> None \<Longrightarrow> p \<in> set demo_pool" for h p
      using demo_blocks_simps(3) by blast
    then show ?thesis
      using pool by (auto simp: realloc_law_def demo_libc_def demo_blocks_simps(1,2))
  qed
  ultimately show ?thesis
    using demo_alloc_lawful by (simp add: allocator_def)
qed

section \<open>The constructor\<close>

definition telemetry_off :: "preload_os \<Rightarrow> bool" where
  "telemetry_off os \<longleftrightarrow> (\<exists>rest. po_getenv os ''HEAPVIZ_DISABLE'' = Some (CHR 0x31 # rest))"

lemma wait_frame: "snd (hv_wait_for_consumer os st) = st \<or> (\<exists>m. snd (hv_wait_for_consumer os st) = hv_write_err m st)"
  by (auto simp: hv_wait_for_consumer_def split: option.splits prod.splits)

lemma init_cases:
  assumes "hv_preload_init L os st = Some st'"
  shows "telemetry_off os \<and> st' = st\<lparr>g_enabled := False\<rparr> \<or>
    \<not> telemetry_off os \<and> (\<exists>st1. hv_resolve_symbols L st = Some st1 \<and>
      (st' = ring_setup os st1 \<or> g_ring (ring_setup os st1) \<noteq> None \<and> (\<exists>m. st' = hv_write_err m (ring_setup os st1))))"
proof (cases "telemetry_off os")
  case True
  then show ?thesis
    using assms by (auto simp: hv_preload_init_def telemetry_off_def)
next
  case False
  then have "hv_preload_init L os st = Option.bind (hv_resolve_symbols L st)
      (\<lambda>st1. Some (if g_ring (ring_setup os st1) \<noteq> None then snd (hv_wait_for_consumer os (ring_setup os st1)) else ring_setup os st1))"
    by (auto simp: hv_preload_init_def telemetry_off_def Let_def split: option.splits list.splits char.splits bool.splits)
  then show ?thesis
    using assms False wait_frame by (auto split: bind_splits if_splits)
qed

lemma init_outcome:
  assumes "hv_preload_init L os (preload_new shm h) = Some st" "required_exports L" "\<not> telemetry_off os"
  shows "hook_ready L st \<and>
    (case g_ring st of
       None \<Rightarrow> pl_shm st \<subseteq> shm \<and> pl_stderr st \<noteq> []
     | Some r \<Rightarrow> ring_ok r \<and> ring_contents r = [] \<and> 1024 \<le> capacity r \<and> magic r = HEAPVIZ_ABI_MAGIC \<and>
         pl_shm st = insert (own_name os) shm \<and> g_shm_name st = own_name os)"
proof -
  obtain st1 where r: "hv_resolve_symbols L (preload_new shm h) = Some st1"
    and st: "st = ring_setup os st1 \<or> g_ring (ring_setup os st1) \<noteq> None \<and> (\<exists>m. st = hv_write_err m (ring_setup os st1))"
    using init_cases [OF assms(1)] assms(3) by blast
  have "hook_ready L st1" "g_ring st1 = None" "pl_shm st1 = shm"
    using resolve_ready [OF r] assms(2) by (simp_all add: preload_new_def)
  note out = ring_setup_outcome [OF this(1,2) refl, of os] this(3)
  from st show ?thesis
  proof (elim disjE conjE exE)
    assume "st = ring_setup os st1"
    then show ?thesis using out by (auto split: option.splits)
  next
    fix m assume "g_ring (ring_setup os st1) \<noteq> None" "st = hv_write_err m (ring_setup os st1)"
    then show ?thesis using out by (auto simp: hv_write_err_def hook_ready_def)
  qed
qed


definition demo_os :: preload_os where
  "demo_os = \<lparr>po_getenv = (\<lambda>v. if v = ''HEAPVIZ_CAPACITY'' then Some ''2048'' else None), po_page = 4096, po_pid = 77,
     po_shm_denied = (\<lambda>_. False), po_ftruncate_ok = True, po_mmap_ok = True, po_now_ns = 5, po_comm = Some ''prog'', po_consumer_pid = (\<lambda>_. 0)\<rparr>"

lemma demo_capacity: "hv_env_capacity demo_os st = (2048, st)"
proof -
  have "strtoull ''2048'' = (2048, [])"
    by (simp add: strtoull_def split_number_def is_space_def digit_value_def Let_def)
  moreover have "hv_is_pow2 2048" by (simp add: hv_is_pow2_def)
  ultimately show ?thesis by (simp add: hv_env_capacity_def demo_os_def)
qed

lemma demo_resolve: "\<exists>st. hv_resolve_symbols demo_libc (preload_new shm []) = Some st \<and> pl_heap st = []"
  by (simp add: hv_resolve_symbols_def preload_new_def resolve_order_def demo_libc_def calloc_with_def ensure_def mul_overflow_def
      hv_bootstrap_alloc_def hv_consts)

lemma demo_init:
  obtains st r where "hv_preload_init demo_libc demo_os (preload_new {own_name demo_os} []) = Some st" "g_ring st = Some r"
    "capacity r = 2048" "pl_heap st = []"
proof -
  obtain st1 where st1: "hv_resolve_symbols demo_libc (preload_new {own_name demo_os} []) = Some st1" "pl_heap st1 = []"
    using demo_resolve by blast
  have "pl_shm st1 = {own_name demo_os}"
    using resolve_ready [OF st1(1)] by (simp add: preload_new_def required_exports_def demo_libc_def)
  then have "\<exists>r. g_ring (ring_setup demo_os st1) = Some r \<and> capacity r = 2048" "pl_heap (ring_setup demo_os st1) = []"
    using st1(2) by (simp_all add: ring_setup_def demo_capacity shm_create_def Let_def own_name_def [symmetric])
     (simp_all add: demo_os_def hv_ring_setup_def)
  moreover have "hv_preload_init demo_libc demo_os (preload_new {own_name demo_os} []) = Some (ring_setup demo_os st1)"
    using st1 calculation(1) by (auto simp: hv_preload_init_def hv_wait_for_consumer_def demo_os_def)
  ultimately show ?thesis using that by blast
qed

lemma demo_exports: "required_exports demo_libc" "\<not> telemetry_off demo_os"
  by (simp_all add: required_exports_def demo_libc_def telemetry_off_def demo_os_def)


section \<open>The events replay the heap\<close>

lemma empty_room:
  assumes "g_ring st = Some r" "ring_ok r" "ring_contents r = []" "n \<le> unat (capacity r)"
  shows "ring_room st n"
  using assms ring_okD(1,2) [OF assms(2)] by (simp add: ring_room_def unat_two_power del: length_ring_contents)

lemma init_calls:
  assumes "allocator bl L" "required_exports L"
    and "hv_preload_init L os (preload_new shm h) = Some st" "g_ring st = Some r"
    and "calls_ok bl L cs st" "2 * length cs \<le> unat (capacity r)"
  shows "\<exists>st' r'. run_ops (run_call L) cs st = Some st' \<and> g_ring st' = Some r' \<and> ring_ok r' \<and>
    length (ring_contents r') \<le> 2 * length cs \<and>
    track_all (ring_contents r') (heap_view bl (pl_heap st)) = Some (heap_view bl (pl_heap st'))"
proof -
  have "\<not> telemetry_off os"
    using init_cases [OF assms(3)] assms(4) by (auto simp: preload_new_def)
  from init_outcome [OF assms(3,2) this] have st: "hook_ready L st" "ring_ok r" "ring_contents r = []"
    using assms(4) by auto
  then have "ring_room st (0 + 2 * length cs)"
    using empty_room [OF assms(4) st(2,3)] assms(6) by simp
  from calls_mirror [OF assms(1) st(1) this assms(5)] st(3) assms(4) show ?thesis
    by (auto simp: mirrored_def emits_def simp del: length_ring_contents)
qed

text \<open>
  (C4) The events tell the whole truth about the heap: for every allocator that keeps its documented contract
  and every program that uses it correctly, none of the calls fails because of the interceptor, and the
  events in the ring, replayed from the heap at start-up, never contradict themselves and end with
  exactly the blocks in use and their usable sizes (saturated at 32 bits), as long as the ring has room.
\<close>

theorem hooks_replay_heap:
  assumes "allocator bl L" "required_exports L"
    and "hv_preload_init L os (preload_new shm h) = Some st" "g_ring st = Some r"
    and "calls_ok bl L cs st" "2 * length cs \<le> unat (capacity r)"
  shows "\<exists>st' r'. run_ops (run_call L) cs st = Some st' \<and> g_ring st' = Some r' \<and>
    track_all (ring_contents r') (heap_view bl (pl_heap st)) = Some (heap_view bl (pl_heap st'))"
  using init_calls [OF assms] by blast

lemma demo_malloc:
  assumes "hook_ready demo_libc st" "pl_heap st = []"
  shows "\<exists>st'. run_call demo_libc (T_malloc 24) st = Some st' \<and> pl_heap st' = [(4096, 24)]"
proof -
  have "lc_malloc demo_libc 24 (pl_heap st) = (4096, [(4096, 24)])"
    using assms(2) by (simp add: demo_libc_def demo_alloc_def demo_pool_def)
  from malloc_hook.shape [OF assms(1) this] show ?thesis by simp
qed

theorem hooks_replay_heap_witness:
  "\<exists>st st' r'. hv_preload_init demo_libc demo_os (preload_new {own_name demo_os} []) = Some st \<and>
     run_ops (run_call demo_libc) [T_malloc 24, T_free 4096, T_malloc 40] st = Some st' \<and> g_ring st' = Some r' \<and>
     track_all (ring_contents r') Map.empty = Some (heap_view demo_blocks (pl_heap st'))"
proof -
  obtain st r where st: "hv_preload_init demo_libc demo_os (preload_new {own_name demo_os} []) = Some st" "g_ring st = Some r"
    "capacity r = 2048" "pl_heap st = []"
    using demo_init by blast
  have "hook_ready demo_libc st" using init_outcome [OF st(1) demo_exports] by simp
  then obtain st1 where st1: "run_call demo_libc (T_malloc 24) st = Some st1" "pl_heap st1 = [(4096, 24)]"
    using demo_malloc st(4) by blast
  have "calls_ok demo_blocks demo_libc [T_malloc 24, T_free 4096, T_malloc 40] st"
    using st1 by (auto simp: demo_blocks_def demo_pool_def simp del: run_call.simps split: option.splits)
  moreover have "heap_view demo_blocks (pl_heap st) = Map.empty"
    using st(4) by (simp add: heap_view_def demo_blocks_def fun_eq_iff)
  ultimately show ?thesis
    using hooks_replay_heap [OF demo_allocator demo_exports(1) st(1,2), of "[T_malloc 24, T_free 4096, T_malloc 40]"] st by auto
qed

text \<open>
  Resizing a block to zero is reported as a block that is still in use: the C library releases the block and
  returns null, which the hook takes for a failure, so it reports the released block again; following the
  events then leaves a live block that the heap does not have.
\<close>

theorem realloc_zero_reported_live:
  assumes "allocator bl L" "hook_ready L st" "ring_room st 2" "bl (pl_heap st) p = Some u" "p \<noteq> 0" "\<not> hv_is_bootstrap_ptr L p"
    and "lc_realloc L p 0 (pl_heap st) = (0, h)"
  shows "\<exists>st' es t. realloc L p 0 st = Some (0, st') \<and> emits L st es st' \<and> bl (pl_heap st') p = None \<and>
    track_all es (heap_view bl (pl_heap st)) = Some t \<and> t p \<noteq> None"
proof -
  let ?r = "report_event L HV_OP_FREE p 0 st"
  obtain e where e: "emits L st [e] ?r" "ev_ptr e = p" "ev_op e = opcode_value HV_OP_FREE"
    using report_event_emits [OF assms(2), of 1 HV_OP_FREE p 0] assms(3) by (auto simp: numeral_2_eq_2)
  let ?st = "?r\<lparr>pl_heap := h\<rparr>"
  have "hook_ready L ?st" "ring_room ?st (Suc 0)"
    using emits_room [OF e(1), of "Suc 0"] e(1) assms(3) by (simp_all add: emits_def hook_ready_def ring_room_def)
  then obtain e' where e': "emits L ?st [e'] (report_event L HV_OP_REALLOC p 0 ?st)" "ev_ptr e' = p" "ev_op e' = opcode_value HV_OP_REALLOC"
    using report_event_emits [of L ?st 0 HV_OP_REALLOC p 0] by auto
  have "realloc L p 0 st = Some (0, report_event L HV_OP_REALLOC p 0 ?st)"
    using assms by (simp add: realloc_def realloc_with_def ensure_ready ready_real(2) Let_def)
  moreover have "bl h p = None"
    using realloc_lawD(1) [OF allocatorD(8) [OF assms(1)] _ assms(7)] assms(4) by simp
  moreover have "track_all [e, e'] (heap_view bl (pl_heap st)) =
      Some ((heap_view bl (pl_heap st))(p := None, p \<mapsto> ev_usable e'))"
    using e e' assms(4,5) by (simp add: track_all_def track_def reports_free_def HV_OP_MASK_def heap_view_def)
  ultimately show ?thesis
    using emits_trans [OF emits_heap [OF e(1)] e'(1)] by fastforce
qed

theorem realloc_zero_reported_live_witness:
  "\<exists>st st' es t. realloc demo_libc 4096 0 st = Some (0, st') \<and> emits demo_libc st es st' \<and> demo_blocks (pl_heap st') 4096 = None \<and>
    track_all es (heap_view demo_blocks (pl_heap st)) = Some t \<and> t 4096 \<noteq> None"
proof -
  obtain st r where st: "hv_preload_init demo_libc demo_os (preload_new {own_name demo_os} []) = Some st" "g_ring st = Some r"
    using demo_init by blast
  have R: "hook_ready demo_libc st" "ring_ok r" "ring_contents r = []" "1024 \<le> capacity r"
    using init_outcome [OF st(1) demo_exports] st(2) by auto
  let ?st = "st\<lparr>pl_heap := [(4096, 24)]\<rparr>"
  have "ring_room ?st 2"
    using R(4) st(2) by (intro empty_room [OF _ R(2,3)]) (simp_all add: word_le_nat_alt)
  moreover have "hook_ready demo_libc ?st" using R(1) by (simp add: hook_ready_def)
  moreover have "demo_blocks (pl_heap ?st) 4096 = Some 24" "\<not> hv_is_bootstrap_ptr demo_libc 4096"
    using pool [of 4096] by (simp_all add: demo_blocks_def demo_pool_def)
  moreover have "lc_realloc demo_libc 4096 0 (pl_heap ?st) = (0, [])"
    by (simp add: demo_libc_def demo_free_def)
  ultimately have "\<exists>st' es t. realloc demo_libc 4096 0 ?st = Some (0, st') \<and> emits demo_libc ?st es st' \<and>
      demo_blocks (pl_heap st') 4096 = None \<and> track_all es (heap_view demo_blocks (pl_heap ?st)) = Some t \<and> t 4096 \<noteq> None"
    using realloc_zero_reported_live [OF demo_allocator, of ?st 4096 24 "[]"] by simp
  then show ?thesis by (rule exI)
qed

end
