(* ===== verification/Preload_Threads.thy ===== *)
theory Preload_Threads
  imports Preload_Properties
begin

text \<open>
  Many threads inside the hooks of \<^verbatim>\<open>src/preload/preload.c\<close> at the same time. One step of a thread is one
  effect another thread can see: a call of the real allocator, or the publication of an event in the ring.
  The order of the two inside a hook is what makes the stream usable: an allocation is reported after the
  real call, a release before it.
\<close>

section \<open>Threads and their steps\<close>

text \<open>Where a thread stands: outside the hooks, holding a block it has not reported yet, or having reported
  the release of a block that is still allocated.\<close>

datatype hook_pc = Idle | Acquired hv_opcode u64 u64 | Releasing u64 | Resizing u64 u64

fun inflight :: "hook_pc \<Rightarrow> u64 set" where
  "inflight Idle = {}"
| "inflight (Acquired op p n) = {p}"
| "inflight (Releasing p) = {p}"
| "inflight (Resizing p n) = {p}"

text \<open>
  The state that the threads share. The blocks the target owns are those a hook has returned to it and that
  it has not passed to \<^verbatim>\<open>free\<close> or \<^verbatim>\<open>realloc\<close> since; the log is the order of the events in the ring.
\<close>

record 'h threads =
  mt_heap :: 'h
  mt_pc :: "u32 \<Rightarrow> hook_pc"
  mt_owned :: "u64 set"
  mt_log :: "hv_event list"

definition reported_event :: "'h libc \<Rightarrow> u32 \<Rightarrow> hv_opcode \<Rightarrow> u64 \<Rightarrow> u64 \<Rightarrow> 'h \<Rightarrow> hv_event" where
  "reported_event L tid op p n h = event_of \<lparr>pa_timestamp = lc_now_ns L h, pa_ptr = p, pa_size = n,
     pa_usable = usable_u32 (lc_malloc_usable_size L p h), pa_tid = tid, pa_opcode = opcode_value op\<rparr>"

text \<open>The real function, the opcode and the reported size of the allocating calls.\<close>

fun acquisition :: "'h libc \<Rightarrow> target_call \<Rightarrow> (hv_opcode \<times> u64 \<times> ('h \<Rightarrow> u64 \<times> 'h)) option" where
  "acquisition L (T_malloc n) = Some (HV_OP_MALLOC, n, lc_malloc L n)"
| "acquisition L (T_calloc m n) = Some (HV_OP_CALLOC, case mul_overflow m n of None \<Rightarrow> 0 | Some b \<Rightarrow> b, lc_calloc L m n)"
| "acquisition L (T_posix_memalign m a n) = Some (HV_OP_MEMALIGN, n, posix_memalign_ptr L a n)"
| "acquisition L (T_aligned_alloc a n) = Some (HV_OP_MEMALIGN, n, lc_aligned_alloc L a n)"
| "acquisition L (T_memalign a n) = Some (HV_OP_MEMALIGN, n, lc_memalign L a n)"
| "acquisition L (T_valloc n) = Some (HV_OP_MEMALIGN, n, lc_valloc L n)"
| "acquisition L (T_pvalloc n) = Some (HV_OP_MEMALIGN, n, lc_pvalloc L n)"
| "acquisition L _ = None"

inductive hook_step :: "'h libc \<Rightarrow> 'h threads \<Rightarrow> 'h threads \<Rightarrow> bool" for L where
  acquire: "\<lbrakk>mt_pc s t = Idle; acquisition L c = Some (op, n, f); f (mt_heap s) = (p, h); p \<noteq> 0\<rbrakk> \<Longrightarrow>
    hook_step L s (s\<lparr>mt_heap := h, mt_pc := (mt_pc s)(t := Acquired op p n)\<rparr>)"
| acquire_failed: "\<lbrakk>mt_pc s t = Idle; acquisition L c = Some (op, n, f); f (mt_heap s) = (0, h)\<rbrakk> \<Longrightarrow>
    hook_step L s (s\<lparr>mt_heap := h\<rparr>)"
| acquire_report: "mt_pc s t = Acquired op p n \<Longrightarrow>
    hook_step L s (s\<lparr>mt_log := mt_log s @ [reported_event L t op p n (mt_heap s)], mt_owned := insert p (mt_owned s),
      mt_pc := (mt_pc s)(t := Idle)\<rparr>)"
| free_report: "\<lbrakk>mt_pc s t = Idle; p \<in> mt_owned s\<rbrakk> \<Longrightarrow>
    hook_step L s (s\<lparr>mt_log := mt_log s @ [reported_event L t HV_OP_FREE p 0 (mt_heap s)], mt_owned := mt_owned s - {p},
      mt_pc := (mt_pc s)(t := Releasing p)\<rparr>)"
| free_real: "mt_pc s t = Releasing p \<Longrightarrow>
    hook_step L s (s\<lparr>mt_heap := lc_free L p (mt_heap s), mt_pc := (mt_pc s)(t := Idle)\<rparr>)"
| realloc_report: "\<lbrakk>mt_pc s t = Idle; p \<in> mt_owned s; n \<noteq> 0\<rbrakk> \<Longrightarrow>
    hook_step L s (s\<lparr>mt_log := mt_log s @ [reported_event L t HV_OP_FREE p 0 (mt_heap s)], mt_owned := mt_owned s - {p},
      mt_pc := (mt_pc s)(t := Resizing p n)\<rparr>)"
| realloc_real: "\<lbrakk>mt_pc s t = Resizing p n; lc_realloc L p n (mt_heap s) = (q, h)\<rbrakk> \<Longrightarrow>
    hook_step L s (s\<lparr>mt_heap := h, mt_pc := (mt_pc s)(t := Acquired HV_OP_REALLOC (if q \<noteq> 0 then q else p) n)\<rparr>)"

inductive_cases hook_stepE: "hook_step L s s'"

definition threads_start :: "('h \<Rightarrow> u64 \<rightharpoonup> u64) \<Rightarrow> 'h \<Rightarrow> 'h threads" where
  "threads_start bl h = \<lparr>mt_heap = h, mt_pc = (\<lambda>_. Idle), mt_owned = dom (bl h), mt_log = []\<rparr>"

section \<open>The invariant\<close>

text \<open>Every allocated block is owned by the target or in flight in exactly one thread, and the log describes
  the owned ones.\<close>

definition placed :: "('h \<Rightarrow> u64 \<rightharpoonup> u64) \<Rightarrow> 'h threads \<Rightarrow> bool" where
  "placed bl s \<longleftrightarrow> 0 \<notin> dom (bl (mt_heap s)) \<and> dom (bl (mt_heap s)) = mt_owned s \<union> (\<Union>t. inflight (mt_pc s t)) \<and>
     (\<forall>t. mt_owned s \<inter> inflight (mt_pc s t) = {}) \<and>
     (\<forall>t t'. t \<noteq> t' \<longrightarrow> inflight (mt_pc s t) \<inter> inflight (mt_pc s t') = {})"

definition logged :: "('h \<Rightarrow> u64 \<rightharpoonup> u64) \<Rightarrow> 'h \<Rightarrow> 'h threads \<Rightarrow> bool" where
  "logged bl h0 s \<longleftrightarrow> track_all (mt_log s) (heap_view bl h0) = Some (heap_view bl (mt_heap s) |` mt_owned s)"

definition others :: "'h threads \<Rightarrow> u32 \<Rightarrow> u64 set" where
  "others s t = (\<Union>t' \<in> - {t}. inflight (mt_pc s t'))"

lemma placed_nonzero: "placed bl s \<Longrightarrow> bl (mt_heap s) 0 = None"
  by (auto simp: placed_def)

lemma placedD:
  assumes "placed bl s"
  shows "dom (bl (mt_heap s)) = mt_owned s \<union> inflight (mt_pc s t) \<union> others s t"
    "mt_owned s \<inter> inflight (mt_pc s t) = {}" "mt_owned s \<inter> others s t = {}" "inflight (mt_pc s t) \<inter> others s t = {}"
proof -
  have all: "(\<Union>t'. inflight (mt_pc s t')) = inflight (mt_pc s t) \<union> others s t" by (auto simp: others_def)
  then show "dom (bl (mt_heap s)) = mt_owned s \<union> inflight (mt_pc s t) \<union> others s t"
    using assms unfolding placed_def by (metis Un_assoc)
  show "mt_owned s \<inter> inflight (mt_pc s t) = {}" using assms by (simp add: placed_def)
  show "mt_owned s \<inter> others s t = {}" using assms by (auto simp: placed_def others_def)
  have "inflight (mt_pc s t) \<inter> inflight (mt_pc s t') = {}" if "t' \<noteq> t" for t'
    using that assms by (simp add: placed_def)
  then show "inflight (mt_pc s t) \<inter> others s t = {}" unfolding others_def by blast
qed

text \<open>A step of thread \<open>t\<close> that leaves the other threads alone keeps every block in one place.\<close>

lemma placed_step:
  assumes "placed bl s" "0 \<notin> dom (bl h)" "dom (bl h) = own \<union> inflight x \<union> others s t"
    and "own \<inter> inflight x = {}" "(own \<union> inflight x) \<inter> others s t = {}"
  shows "placed bl \<lparr>mt_heap = h, mt_pc = (mt_pc s)(t := x), mt_owned = own, mt_log = l\<rparr>"
proof -
  have "(\<Union>t'. inflight (((mt_pc s)(t := x)) t')) = inflight x \<union> others s t"
    by (auto simp: others_def split: if_splits)
  moreover have "own \<inter> inflight (((mt_pc s)(t := x)) t') = {}" for t'
    using assms(4,5) by (auto simp: others_def)
  moreover have "inflight (((mt_pc s)(t := x)) t') \<inter> inflight (((mt_pc s)(t := x)) t'') = {}" if "t' \<noteq> t''" for t' t''
    using that assms(1,5) by (auto simp: placed_def others_def)
  ultimately show ?thesis
    using assms(2,3) by (simp add: placed_def Un_assoc)
qed

definition acquired_ops :: "'h threads \<Rightarrow> bool" where
  "acquired_ops s \<longleftrightarrow> (\<forall>t op p n. mt_pc s t = Acquired op p n \<longrightarrow> op \<noteq> HV_OP_FREE)"

definition threads_inv :: "('h \<Rightarrow> u64 \<rightharpoonup> u64) \<Rightarrow> 'h \<Rightarrow> 'h threads \<Rightarrow> bool" where
  "threads_inv bl h0 s \<longleftrightarrow> placed bl s \<and> logged bl h0 s \<and> acquired_ops s"

lemma acquisition_lawful:
  assumes "allocator bl L" "acquisition L c = Some (op, n, f)"
  shows "alloc_law bl L f" "op \<noteq> HV_OP_FREE"
  using assms allocatorD [OF assms(1)] by (cases c; auto)+

lemma event_fields:
  "ev_ptr (reported_event L t op p n h) = p"
  "ev_usable (reported_event L t op p n h) = usable_u32 (lc_malloc_usable_size L p h)"
  "reports_free (reported_event L t op p n h) \<longleftrightarrow> op = HV_OP_FREE"
  by (simp_all add: reported_event_def event_of_def hv_event_set_tid_def reports_free_def opcode_masked del: opcode_value.simps)
    (cases op; simp add: HV_OP_MASK_def)

lemma track_snoc: "track_all es t0 = Some t \<Longrightarrow> track_all (es @ [e]) t0 = track e t"
  by (cases "track e t") (simp_all add: track_all_def run_ops_append)

lemma view_restrict_eq: "(\<And>p. p \<in> A \<Longrightarrow> bl h' p = bl h p) \<Longrightarrow> heap_view bl h' |` A = heap_view bl h |` A"
  by (auto simp: restrict_map_def heap_view_def fun_eq_iff)

lemma acquire_step:
  assumes "threads_inv bl h0 s" "allocator bl L" "mt_pc s t = Idle" "acquisition L c = Some (op, n, f)" "f (mt_heap s) = (p, h)" "p \<noteq> 0"
  shows "threads_inv bl h0 (s\<lparr>mt_heap := h, mt_pc := (mt_pc s)(t := Acquired op p n)\<rparr>)"
proof -
  note law = acquisition_lawful [OF assms(2,4)]
  obtain u where u: "bl (mt_heap s) p = None" "bl h = (bl (mt_heap s))(p \<mapsto> u)"
    using alloc_lawD(2) [OF law(1) assms(5,6)] by blast
  have pl: "placed bl s" using assms(1) by (simp add: threads_inv_def)
  note D = placedD [OF pl, of t] placed_nonzero [OF pl]
  have new: "p \<notin> mt_owned s" "p \<notin> others s t" using D(1) u(1) by auto
  have "placed bl \<lparr>mt_heap = h, mt_pc = (mt_pc s)(t := Acquired op p n), mt_owned = mt_owned s, mt_log = mt_log s\<rparr>"
    using D assms(3,6) u new by (intro placed_step [OF pl]) auto
  moreover have "heap_view bl h |` mt_owned s = heap_view bl (mt_heap s) |` mt_owned s"
    using u new by (intro view_restrict_eq) auto
  ultimately show ?thesis
    using assms(1) law(2) by (cases s) (auto simp: threads_inv_def logged_def acquired_ops_def)
qed

lemma failed_step:
  assumes "threads_inv bl h0 s" "allocator bl L" "acquisition L c = Some (op, n, f)" "f (mt_heap s) = (0, h)"
  shows "threads_inv bl h0 (s\<lparr>mt_heap := h\<rparr>)"
proof -
  have "bl h = bl (mt_heap s)"
    using alloc_lawD(1) [OF acquisition_lawful(1) [OF assms(2,3)] assms(4)] by simp
  then have "heap_view bl h = heap_view bl (mt_heap s)" "placed bl (s\<lparr>mt_heap := h\<rparr>) = placed bl s"
    by (simp_all add: heap_view_def placed_def)
  then show ?thesis
    using assms(1) by (simp add: threads_inv_def logged_def acquired_ops_def)
qed

lemma acquire_report_step:
  assumes "threads_inv bl h0 s" "allocator bl L" "mt_pc s t = Acquired op p n"
  shows "threads_inv bl h0 (s\<lparr>mt_log := mt_log s @ [reported_event L t op p n (mt_heap s)], mt_owned := insert p (mt_owned s),
    mt_pc := (mt_pc s)(t := Idle)\<rparr>)"
proof -
  have pl: "placed bl s" and op: "op \<noteq> HV_OP_FREE" using assms(1,3) by (auto simp: threads_inv_def acquired_ops_def)
  note D = placedD [OF pl, of t] placed_nonzero [OF pl]
  have "p \<in> dom (bl (mt_heap s))" using D(1) assms(3) by simp
  then obtain u where u: "bl (mt_heap s) p = Some u" "p \<noteq> 0" "p \<notin> mt_owned s" "p \<notin> others s t"
    using D(2-5) assms(3) by (cases "p = 0") auto
  have "placed bl \<lparr>mt_heap = mt_heap s, mt_pc = (mt_pc s)(t := Idle), mt_owned = insert p (mt_owned s),
      mt_log = mt_log s @ [reported_event L t op p n (mt_heap s)]\<rparr>"
    using D assms(3) u by (intro placed_step [OF pl]) auto
  moreover have "track_all (mt_log s @ [reported_event L t op p n (mt_heap s)]) (heap_view bl h0) =
      Some (heap_view bl (mt_heap s) |` insert p (mt_owned s))"
  proof -
    have "heap_view bl (mt_heap s) |` insert p (mt_owned s) = (heap_view bl (mt_heap s) |` mt_owned s)(p \<mapsto> usable_u32 u)"
      using u(1) by (auto simp: restrict_map_def heap_view_def fun_eq_iff)
    moreover have "track_all (mt_log s) (heap_view bl h0) = Some (heap_view bl (mt_heap s) |` mt_owned s)"
      using assms(1) by (simp add: threads_inv_def logged_def)
    ultimately show ?thesis
      using u op release_lawsD(3) [OF allocatorD(9) [OF assms(2)] u(1)] by (simp add: track_snoc track_def event_fields)
  qed
  ultimately show ?thesis
    using assms(1) by (cases s) (auto simp: threads_inv_def logged_def acquired_ops_def)
qed

lemma release_report_step:
  assumes "threads_inv bl h0 s" "allocator bl L" "mt_pc s t = Idle" "p \<in> mt_owned s" "inflight x = {p}" "\<And>op q n. x \<noteq> Acquired op q n"
  shows "threads_inv bl h0 (s\<lparr>mt_log := mt_log s @ [reported_event L t HV_OP_FREE p 0 (mt_heap s)], mt_owned := mt_owned s - {p},
    mt_pc := (mt_pc s)(t := x)\<rparr>)"
proof -
  have pl: "placed bl s" using assms(1) by (simp add: threads_inv_def)
  note D = placedD [OF pl, of t] placed_nonzero [OF pl]
  have "placed bl \<lparr>mt_heap = mt_heap s, mt_pc = (mt_pc s)(t := x), mt_owned = mt_owned s - {p},
      mt_log = mt_log s @ [reported_event L t HV_OP_FREE p 0 (mt_heap s)]\<rparr>"
    using D assms(3-5) by (intro placed_step [OF pl]) auto
  moreover have "track_all (mt_log s @ [reported_event L t HV_OP_FREE p 0 (mt_heap s)]) (heap_view bl h0) =
      Some (heap_view bl (mt_heap s) |` (mt_owned s - {p}))"
  proof -
    have "heap_view bl (mt_heap s) |` (mt_owned s - {p}) = (heap_view bl (mt_heap s) |` mt_owned s)(p := None)"
      by (auto simp: restrict_map_def fun_eq_iff)
    moreover have "(heap_view bl (mt_heap s) |` mt_owned s) p \<noteq> None"
      using D(1) assms(4) by (auto simp: heap_view_def)
    moreover have "track_all (mt_log s) (heap_view bl h0) = Some (heap_view bl (mt_heap s) |` mt_owned s)"
      using assms(1) by (simp add: threads_inv_def logged_def)
    ultimately show ?thesis
      by (simp only: track_snoc track_def event_fields simp_thms if_True if_False)
  qed
  ultimately show ?thesis
    using assms(1,6) by (cases s) (auto simp: threads_inv_def logged_def acquired_ops_def)
qed

lemma free_real_step:
  assumes "threads_inv bl h0 s" "allocator bl L" "mt_pc s t = Releasing p"
  shows "threads_inv bl h0 (s\<lparr>mt_heap := lc_free L p (mt_heap s), mt_pc := (mt_pc s)(t := Idle)\<rparr>)"
proof -
  have pl: "placed bl s" using assms(1) by (simp add: threads_inv_def)
  note D = placedD [OF pl, of t] placed_nonzero [OF pl]
  have p: "bl (mt_heap s) p \<noteq> None" "p \<notin> mt_owned s" "p \<notin> others s t" using D assms(3) by auto
  have h: "bl (lc_free L p (mt_heap s)) = (bl (mt_heap s))(p := None)"
    using release_lawsD(1) [OF allocatorD(9) [OF assms(2)] p(1)] .
  have "placed bl \<lparr>mt_heap = lc_free L p (mt_heap s), mt_pc = (mt_pc s)(t := Idle), mt_owned = mt_owned s, mt_log = mt_log s\<rparr>"
    using D assms(3) p h by (intro placed_step [OF pl]) auto
  moreover have "heap_view bl (lc_free L p (mt_heap s)) |` mt_owned s = heap_view bl (mt_heap s) |` mt_owned s"
    using h p(2) by (intro view_restrict_eq) auto
  ultimately show ?thesis
    using assms(1) by (cases s) (auto simp: threads_inv_def logged_def acquired_ops_def)
qed

lemma realloc_real_step:
  assumes "threads_inv bl h0 s" "allocator bl L" "mt_pc s t = Resizing p n" "lc_realloc L p n (mt_heap s) = (q, h)" "n \<noteq> 0"
  shows "threads_inv bl h0 (s\<lparr>mt_heap := h, mt_pc := (mt_pc s)(t := Acquired HV_OP_REALLOC (if q \<noteq> 0 then q else p) n)\<rparr>)"
proof -
  define b where "b = (if q \<noteq> 0 then q else p)"
  have pl: "placed bl s" using assms(1) by (simp add: threads_inv_def)
  note D = placedD [OF pl, of t] placed_nonzero [OF pl]
  have p: "bl (mt_heap s) p \<noteq> None" "p \<notin> mt_owned s" "p \<notin> others s t" "p \<noteq> 0" using D assms(3) by auto
  obtain u where u: "((bl (mt_heap s))(p := None)) b = None" "bl h = (bl (mt_heap s))(p := None, b \<mapsto> u)" "b \<noteq> 0"
    using realloc_lawD [OF allocatorD(8) [OF assms(2)] p(1) assms(4)] p(1,4) assms(5)
    by (cases "q = 0") (auto simp: b_def intro: map_upd_triv [symmetric])
  have new: "b \<notin> mt_owned s" "b \<notin> others s t" using D(1) u(1) p by (auto split: if_splits)
  have "placed bl \<lparr>mt_heap = h, mt_pc = (mt_pc s)(t := Acquired HV_OP_REALLOC b n), mt_owned = mt_owned s, mt_log = mt_log s\<rparr>"
    using D assms(3) u new p by (intro placed_step [OF pl]) auto
  moreover have "heap_view bl h |` mt_owned s = heap_view bl (mt_heap s) |` mt_owned s"
    using u(2) new(1) p(2) by (intro view_restrict_eq) auto
  ultimately show ?thesis
    using assms(1) unfolding b_def [symmetric] by (cases s) (auto simp: threads_inv_def logged_def acquired_ops_def)
qed

section \<open>Every interleaving\<close>

text \<open>A pending resize has a size other than zero, as the call that started it had.\<close>

definition resizes_ok :: "'h threads \<Rightarrow> bool" where
  "resizes_ok s \<longleftrightarrow> (\<forall>t p n. mt_pc s t = Resizing p n \<longrightarrow> n \<noteq> 0)"

lemma hook_step_inv:
  assumes "hook_step L s s'" "allocator bl L" "threads_inv bl h0 s \<and> resizes_ok s"
  shows "threads_inv bl h0 s' \<and> resizes_ok s'"
  using assms
proof (cases rule: hook_step.cases)
  case (acquire t c op n f p h)
  then show ?thesis
    using acquire_step [of bl h0 s L t c op n f p h] assms(2,3) by (auto simp: resizes_ok_def)
next
  case (acquire_failed t c op n f h)
  then show ?thesis
    using failed_step [of bl h0 s L c op n f h] assms(2,3) by (auto simp: resizes_ok_def)
next
  case (acquire_report t op p n)
  then show ?thesis
    using acquire_report_step [of bl h0 s L t op p n] assms(2,3) by (auto simp: resizes_ok_def)
next
  case (free_report t p)
  then show ?thesis
    using release_report_step [of bl h0 s L t p "Releasing p"] assms(2,3) by (auto simp: resizes_ok_def)
next
  case (free_real t p)
  then show ?thesis
    using free_real_step [of bl h0 s L t p] assms(2,3) by (auto simp: resizes_ok_def)
next
  case (realloc_report t p n)
  then show ?thesis
    using release_report_step [of bl h0 s L t p "Resizing p n"] assms(2,3) by (auto simp: resizes_ok_def)
next
  case (realloc_real t p n q h)
  then have "n \<noteq> 0" using assms(3) by (auto simp: resizes_ok_def)
  then show ?thesis
    using realloc_real realloc_real_step [of bl h0 s L t p n q h] assms(2,3) by (auto simp: resizes_ok_def)
qed

lemma start_inv:
  assumes "bl h 0 = None"
  shows "threads_inv bl h (threads_start bl h) \<and> resizes_ok (threads_start bl h)"
proof -
  have "heap_view bl h |` dom (bl h) = heap_view bl h"
    by (auto simp: restrict_map_def heap_view_def fun_eq_iff domIff)
  then show ?thesis
    using assms by (auto simp: threads_inv_def placed_def logged_def acquired_ops_def resizes_ok_def threads_start_def track_all_def)
qed

lemma reachable_inv:
  assumes "(hook_step L)\<^sup>*\<^sup>* (threads_start bl h) s" "allocator bl L" "bl h 0 = None"
  shows "threads_inv bl h s \<and> resizes_ok s"
  using assms(1)
proof (induction rule: rtranclp_induct)
  case base
  then show ?case using start_inv [of bl h] assms(3) by simp
next
  case (step s s')
  then show ?case using hook_step_inv [OF step.hyps(2) assms(2), of h] by blast
qed


section \<open>The hooks take these steps\<close>

text \<open>One thread inside a hook, the others outside.\<close>

definition one_thread :: "'h preload \<Rightarrow> u64 set \<Rightarrow> hv_event list \<Rightarrow> 'h threads" where
  "one_thread st own l = \<lparr>mt_heap = pl_heap st, mt_pc = (\<lambda>_. Idle), mt_owned = own, mt_log = l\<rparr>"

lemma idle_upd [simp]: "(\<lambda>_. Idle)(t := Idle) = (\<lambda>_. Idle)"
  by (simp add: fun_eq_iff)

lemma report_event_exact:
  assumes "hook_ready L st" "ring_room st (Suc n)" "p \<noteq> 0"
  shows "emits L st [reported_event L (g_tid (hv_tid L st)) op p sz (pl_heap st)] (report_event L op p sz st)"
proof -
  have "hv_usable L p st = usable_u32 (lc_malloc_usable_size L p (pl_heap st))"
    using assms(1,3) by (simp add: hv_usable_def usable_u32_def hook_ready_def Let_def)
  then show ?thesis
    using report_event_emits [OF assms(1,2), of op p sz] by (auto simp: reported_event_def)
qed

lemma acquire_steps:
  assumes ready: "hook_ready L st" and room: "ring_room st (Suc n)"
    and f: "acquisition L c = Some (op, sz, f)" "f (pl_heap st) = (p, h)"
  shows "\<exists>es own'. emits L st es (if p \<noteq> 0 then report_event L op p sz (st\<lparr>pl_heap := h\<rparr>) else st\<lparr>pl_heap := h\<rparr>) \<and>
    (hook_step L)\<^sup>*\<^sup>* (one_thread st own l)
      (one_thread (if p \<noteq> 0 then report_event L op p sz (st\<lparr>pl_heap := h\<rparr>) else st\<lparr>pl_heap := h\<rparr>) own' (l @ es))"
proof (cases "p = 0")
  case True
  have "hook_step L (one_thread st own l) (one_thread (st\<lparr>pl_heap := h\<rparr>) own l)"
    using hook_step.acquire_failed [of "one_thread st own l" 0 L c op sz f h] f True by (simp add: one_thread_def)
  then show ?thesis
    using emits_none [OF ready room, of h] True by (intro exI [of _ "[]"] exI [of _ own]) auto
next
  case False
  let ?st = "st\<lparr>pl_heap := h\<rparr>" and ?t = "g_tid (hv_tid L (st\<lparr>pl_heap := h\<rparr>))"
  let ?e = "reported_event L ?t op p sz h"
  let ?s = "(one_thread st own l)\<lparr>mt_heap := h, mt_pc := (\<lambda>_. Idle)(?t := Acquired op p sz)\<rparr>"
  have "hook_ready L ?st" "ring_room ?st (Suc n)"
    using ready room by (simp_all add: hook_ready_def ring_room_def)
  from report_event_exact [OF this False, of op sz] have e: "emits L st [?e] (report_event L op p sz ?st)"
    by (simp add: emits_def)
  have "hook_step L (one_thread st own l) ?s"
    using hook_step.acquire [of "one_thread st own l" ?t L c op sz f p h] f False by (simp add: one_thread_def)
  moreover have "hook_step L ?s (one_thread (report_event L op p sz ?st) (insert p own) (l @ [?e]))"
    using hook_step.acquire_report [of ?s ?t op p sz L] by (simp add: one_thread_def)
  ultimately have "(hook_step L)\<^sup>*\<^sup>* (one_thread st own l) (one_thread (report_event L op p sz ?st) (insert p own) (l @ [?e]))"
    by (meson converse_rtranclp_into_rtranclp r_into_rtranclp)
  then show ?thesis
    using e False by (intro exI [of _ "[?e]"] exI [of _ "insert p own"]) simp
qed

lemma free_steps:
  assumes ready: "hook_ready L st" and room: "ring_room st (Suc n)" and p: "p \<in> own" "p \<noteq> 0" "\<not> hv_is_bootstrap_ptr L p"
  shows "\<exists>es st'. free L p st = Some st' \<and> emits L st es st' \<and>
    (hook_step L)\<^sup>*\<^sup>* (one_thread st own l) (one_thread st' (own - {p}) (l @ es))"
proof -
  let ?r = "report_event L HV_OP_FREE p 0 st" and ?t = "g_tid (hv_tid L st)"
  let ?e = "reported_event L ?t HV_OP_FREE p 0 (pl_heap st)" and ?st = "?r\<lparr>pl_heap := lc_free L p (pl_heap st)\<rparr>"
  let ?s = "(one_thread st (own - {p}) (l @ [?e]))\<lparr>mt_pc := (\<lambda>_. Idle)(?t := Releasing p)\<rparr>"
  have "free L p st = Some ?st"
    using p(2,3) ready by (simp add: free_def free_with_def ensure_ready ready_real(2) Let_def)
  moreover have "hook_step L (one_thread st own l) ?s"
    using hook_step.free_report [of "one_thread st own l" ?t p L] p(1) by (simp add: one_thread_def)
  moreover have "hook_step L ?s (one_thread ?st (own - {p}) (l @ [?e]))"
    using hook_step.free_real [of ?s ?t p L] by (simp add: one_thread_def)
  ultimately show ?thesis
    using emits_heap [OF report_event_exact [OF ready room p(2)]]
    by (intro exI [of _ "[?e]"] exI [of _ ?st]) (auto intro: converse_rtranclp_into_rtranclp)
qed

lemma realloc_steps:
  assumes ready: "hook_ready L st" and room: "ring_room st (Suc (Suc n))"
    and p: "p \<in> own" "p \<noteq> 0" "\<not> hv_is_bootstrap_ptr L p" "sz \<noteq> 0"
  shows "\<exists>es st' q own'. realloc L p sz st = Some (q, st') \<and> emits L st es st' \<and>
    (hook_step L)\<^sup>*\<^sup>* (one_thread st own l) (one_thread st' own' (l @ es))"
proof -
  let ?r = "report_event L HV_OP_FREE p 0 st" and ?t = "g_tid (hv_tid L st)"
  let ?e = "reported_event L ?t HV_OP_FREE p 0 (pl_heap st)"
  obtain q h where q: "lc_realloc L p sz (pl_heap st) = (q, h)" by fastforce
  define b where "b = (if q \<noteq> 0 then q else p)"
  let ?st = "?r\<lparr>pl_heap := h\<rparr>"
  have e: "emits L st [?e] ?r" using report_event_exact [OF ready room p(2)] .
  have ready': "hook_ready L ?st" and room': "ring_room ?st (Suc n)"
    using emits_room [OF e, of "Suc n"] e room by (simp_all add: emits_def hook_ready_def ring_room_def)
  let ?u = "g_tid (hv_tid L ?st)"
  let ?e' = "reported_event L ?u HV_OP_REALLOC b sz h" and ?st' = "report_event L HV_OP_REALLOC b sz ?st"
  have e': "emits L ?st [?e'] ?st'"
    using report_event_exact [OF ready' room', of b] p(2) by (simp add: b_def)
  have tid: "?u = ?t"
    by (simp add: hv_tid_def report_event_def hv_emit_def Let_def split: option.splits)
  let ?s1 = "(one_thread st (own - {p}) (l @ [?e]))\<lparr>mt_pc := (\<lambda>_. Idle)(?t := Resizing p sz)\<rparr>"
  let ?s2 = "(one_thread ?st (own - {p}) (l @ [?e]))\<lparr>mt_pc := (\<lambda>_. Idle)(?t := Acquired HV_OP_REALLOC b sz)\<rparr>"
  have "hook_step L (one_thread st own l) ?s1"
    using hook_step.realloc_report [of "one_thread st own l" ?t p sz L] p(1,4) by (simp add: one_thread_def)
  moreover have "hook_step L ?s1 ?s2"
    using hook_step.realloc_real [of ?s1 ?t p sz L q h] q by (simp add: one_thread_def b_def)
  moreover have "hook_step L ?s2 (one_thread ?st' (insert b (own - {p})) (l @ [?e, ?e']))"
    using hook_step.acquire_report [of ?s2 ?t HV_OP_REALLOC b sz L] tid by (simp add: one_thread_def)
  ultimately have "(hook_step L)\<^sup>*\<^sup>* (one_thread st own l) (one_thread ?st' (insert b (own - {p})) (l @ [?e, ?e']))"
    by (meson converse_rtranclp_into_rtranclp r_into_rtranclp)
  moreover have "realloc L p sz st = Some (q, ?st')"
    using p(2,3) ready q by (simp add: realloc_def realloc_with_def ensure_ready ready_real(2) Let_def b_def)
  ultimately show ?thesis
    using emits_trans [OF emits_heap [OF e] e'] by (intro exI [of _ "[?e, ?e']"] exI [of _ ?st']) auto
qed

text \<open>A call the target may make, in terms of the blocks it owns.\<close>

fun client_ok :: "'h libc \<Rightarrow> u64 set \<Rightarrow> target_call \<Rightarrow> bool" where
  "client_ok L own (T_free p) \<longleftrightarrow> p \<in> own \<and> p \<noteq> 0 \<and> \<not> hv_is_bootstrap_ptr L p"
| "client_ok L own (T_realloc p n) \<longleftrightarrow> p = 0 \<or> p \<in> own \<and> \<not> hv_is_bootstrap_ptr L p \<and> n \<noteq> 0"
| "client_ok L own _ \<longleftrightarrow> True"

definition stepwise :: "'h libc \<Rightarrow> 'h preload option \<Rightarrow> 'h preload \<Rightarrow> u64 set \<Rightarrow> hv_event list \<Rightarrow> bool" where
  "stepwise L res st own l \<longleftrightarrow> (\<exists>es st' own'. res = Some st' \<and> emits L st es st' \<and>
     (hook_step L)\<^sup>*\<^sup>* (one_thread st own l) (one_thread st' own' (l @ es)))"

lemma stepwise_acquire:
  assumes ready: "hook_ready L st" and room: "ring_room st (Suc n)" and f: "acquisition L c = Some (op, sz, f)"
    and res: "\<And>p h. (if ok then f (pl_heap st) else (0, pl_heap st)) = (p, h) \<Longrightarrow>
      res = Some (p, if p \<noteq> 0 then report_event L op p sz (st\<lparr>pl_heap := h\<rparr>) else st\<lparr>pl_heap := h\<rparr>)"
  shows "stepwise L (map_option snd res) st own l"
proof (cases ok)
  case True
  obtain p h where ph: "f (pl_heap st) = (p, h)" by fastforce
  from acquire_steps [OF ready room f ph, of own l] show ?thesis
    using res [of p h] ph True unfolding stepwise_def by fastforce
next
  case False
  then have "res = Some (0, st)" using res [of 0 "pl_heap st"] by simp
  then show ?thesis
    using emits_none [OF ready room, of "pl_heap st"] unfolding stepwise_def
    by (intro exI [of _ "[]"] exI [of _ st] exI [of _ own]) simp
qed

lemma malloc_stepwise:
  assumes "hook_ready L st" "ring_room st (Suc n)"
  shows "stepwise L (map_option snd (malloc L sz st)) st own l"
  using malloc_hook.shape [OF assms(1)] by (intro stepwise_acquire [where c = "T_malloc sz" and ok = True, OF assms]) auto

text \<open>
  Every call of an exported function that runs without interruption is a sequence of these steps by its
  thread: the same effect on the heap, and the ring receives the events that the steps log, in their order.
\<close>

theorem hooks_take_steps:
  assumes "hook_ready L st" "ring_room st 2" "client_ok L own c"
  shows "\<exists>es st' own'. run_call L c st = Some st' \<and> emits L st es st' \<and>
    (hook_step L)\<^sup>*\<^sup>* (one_thread st own l) (one_thread st' own' (l @ es))"
proof -
  have room2: "ring_room st (Suc (Suc 0))" and room: "ring_room st (Suc 0)"
    using assms(2) by (auto simp: ring_room_def)
  note ready = assms(1)
  have "stepwise L (run_call L c st) st own l"
  proof (cases c)
    case (T_malloc n)
    then show ?thesis using malloc_stepwise [OF ready room] by simp
  next
    case (T_free p)
    then show ?thesis using free_steps [OF ready room, of p own l] assms(3) by (fastforce simp: stepwise_def)
  next
    case (T_calloc m n)
    then show ?thesis
      using calloc_hook.shape [OF ready, of "(m, n)"]
      by simp (intro stepwise_acquire [where c = c and ok = True, OF ready room]; simp only: acquisition.simps prod.case if_True)
  next
    case (T_realloc p n)
    show ?thesis
    proof (cases "p = 0")
      case True
      then have "realloc L p n st = malloc L n st"
        using ready by (simp add: realloc_def realloc_with_def ensure_ready ready_real(2) malloc_def)
      then show ?thesis using malloc_stepwise [OF ready room] T_realloc by simp
    next
      case False
      then show ?thesis
        using realloc_steps [OF ready room2, of p own n l] assms(3) T_realloc by (fastforce simp: stepwise_def)
    qed
  next
    case (T_posix_memalign m a n)
    then show ?thesis
      using posix_memalign_hook.shape [OF ready, of "(m, a, n)"]
      by simp (intro stepwise_acquire [where c = c and ok = "lc_exports L Sym_posix_memalign", OF ready room];
          simp only: acquisition.simps if_exported_def prod.case)
  next
    case (T_aligned_alloc a n)
    then show ?thesis
      using aligned_alloc_hook.shape [OF ready, of "(a, n)"]
      by simp (intro stepwise_acquire [where c = c and ok = "lc_exports L Sym_aligned_alloc", OF ready room];
          simp only: acquisition.simps if_exported_def prod.case snd_conv)
  next
    case (T_memalign a n)
    then show ?thesis
      using memalign_hook.shape [OF ready, of "(a, n)"]
      by simp (intro stepwise_acquire [where c = c and ok = "lc_exports L Sym_memalign", OF ready room];
          simp only: acquisition.simps if_exported_def prod.case snd_conv)
  next
    case (T_valloc n)
    then show ?thesis
      using valloc_hook.shape [OF ready, of n]
      by simp (intro stepwise_acquire [where c = c and ok = "lc_exports L Sym_valloc", OF ready room];
          simp only: acquisition.simps if_exported_def prod.case snd_conv)
  next
    case (T_pvalloc n)
    then show ?thesis
      using pvalloc_hook.shape [OF ready, of n]
      by simp (intro stepwise_acquire [where c = c and ok = "lc_exports L Sym_pvalloc", OF ready room];
          simp only: acquisition.simps if_exported_def prod.case snd_conv)
  qed
  then show ?thesis by (simp add: stepwise_def)
qed

section \<open>Concrete interleavings\<close>


theorem hooks_take_steps_witness:
  "\<exists>st es st' own'. run_call demo_libc (T_malloc 24) st = Some st' \<and> emits demo_libc st es st' \<and> pl_heap st' = [(4096, 24)] \<and>
    (hook_step demo_libc)\<^sup>*\<^sup>* (one_thread st {} []) (one_thread st' own' es)"
proof -
  obtain st r where st: "hv_preload_init demo_libc demo_os (preload_new {own_name demo_os} []) = Some st" "g_ring st = Some r"
    "capacity r = 2048" "pl_heap st = []"
    using demo_init by blast
  have R: "hook_ready demo_libc st" "ring_ok r" "ring_contents r = []"
    using init_outcome [OF st(1) demo_exports] st(2) by auto
  have "ring_room st 2"
    using st(3) by (intro empty_room [OF st(2) R(2,3)]) simp
  then show ?thesis
    using hooks_take_steps [OF R(1), of "{}" "T_malloc 24" "[]"] demo_malloc [OF R(1) st(4)] by fastforce
qed

end
