(* ===== verification/End_To_End.thy ===== *)
theory End_To_End
  imports App_Agreement Preload_Threads
begin

text \<open>
  From the allocator of the target to the screen model: the hooks of the interceptor, the ring and the
  drain of the application composed. What the chunk table of the application shows as live is the heap.
\<close>

section \<open>The table follows the events\<close>

definition live_view :: "(u64 \<rightharpoonup> chunk) \<Rightarrow> u64 \<rightharpoonup> u32" where
  "live_view m = (\<lambda>p. case m p of Some c \<Rightarrow> if c_state c = ChunkLive then Some (c_usable c) else None | None \<Rightarrow> None)"

lemma apply_event_table:
  assumes ok: "uncapped_ok (Suc n) (ha_table a)"
  shows "\<exists>a'. apply_event a e = Some a' \<and> uncapped_ok n (ha_table a') \<and> ct_map (ha_table a') = event_effect a e (ct_map (ha_table a))"
proof -
  obtain a' where a': "apply_event a e = Some a'" "uncapped_ok n (ha_table a')"
    using apply_event_total [OF ok] by blast
  have cok: "ct_ok (ha_table a)" using ok by (auto simp: uncapped_ok_def dest: table_invD)
  have "ct_map (ha_table a') = event_effect a e (ct_map (ha_table a))"
  proof (cases "is_free e")
    case True
    then show ?thesis
      using a'(1) mark_freed_correct(3) [OF cok] find_map [OF cok, of "ev_ptr e"]
      by (auto simp: apply_event_def apply_free_def is_free_def event_effect_def Let_def event_ms_def split: option.splits)
  next
    case False
    then show ?thesis
      using a'(1) table_step [OF ok, of "OpInsert (ev_ptr e) (clamp_u32 (ev_size e)) (ev_usable e) (event_ms a (ev_timestamp e)) (hv_event_get_tid e)"]
      by (auto simp: apply_event_def apply_alloc_def is_free_def event_effect_def Let_def event_ms_def split: option.splits if_splits)
  qed
  then show ?thesis using a' by blast
qed

lemma apply_events_table:
  "uncapped_ok (length es) (ha_table a) \<Longrightarrow>
    \<exists>a'. apply_events es a = Some a' \<and> ct_map (ha_table a') = fold (event_effect a) es (ct_map (ha_table a))"
proof (induction es arbitrary: a)
  case (Cons e es)
  obtain a1 where a1: "apply_event a e = Some a1" "uncapped_ok (length es) (ha_table a1)"
    "ct_map (ha_table a1) = event_effect a e (ct_map (ha_table a))"
    using apply_event_table [of "length es" a e] Cons.prems by auto
  have "event_effect a1 = event_effect a"
    using apply_event_geometry(2) [OF a1(1)] by (simp add: event_effect_def event_ms_def fun_eq_iff)
  then show ?case
    using Cons.IH [OF a1(2)] a1 by simp
qed simp

text \<open>An event that is consistent with the live chunks of the table has the same effect on them.\<close>

lemma track_effect:
  assumes "track e (live_view m) = Some t"
  shows "live_view (event_effect a e m) = t"
proof (cases "reports_free e")
  case True
  then obtain c where "m (ev_ptr e) = Some c" "t = (live_view m)(ev_ptr e := None)"
    using assms by (auto simp: track_def live_view_def split: option.splits if_splits)
  then show ?thesis
    using True by (auto simp: event_effect_def is_free_def reports_free_def live_view_def fun_eq_iff)
next
  case False
  then have t: "ev_ptr e \<noteq> 0" "t = (live_view m)(ev_ptr e \<mapsto> ev_usable e)"
    using assms by (auto simp: track_def split: if_splits)
  have "c_state (live_record m k sz us ms td) = ChunkLive" "c_usable (live_record m k sz us ms td) = us" for k sz us ms td
    by (auto simp: live_record_def live_update_def live_chunk_def split: option.splits)
  then show ?thesis
    using False t by (auto simp: event_effect_def is_free_def reports_free_def live_view_def fun_eq_iff Let_def)
qed

lemma track_all_effect: "track_all es (live_view m) = Some t \<Longrightarrow> live_view (fold (event_effect a) es m) = t"
proof (induction es arbitrary: m)
  case (Cons e es)
  then obtain t1 where "track e (live_view m) = Some t1" "track_all es t1 = Some t"
    by (auto simp: track_all_def split: bind_splits)
  then show ?case
    using Cons.IH [of "event_effect a e m"] track_effect [of e m t1 a] by simp
qed (simp add: track_all_def)

section \<open>One drain\<close>

lemma drain_whole:
  assumes "rs_ring (ha_session a) = Some r" "ring_ok r" "ha_staged a = []" "ha_staged_head a = 0" "\<not> ha_paused a"
    and "length (ring_contents r) \<le> 32768" "uncapped_ok (length (ring_contents r)) (ha_table a)"
  shows "\<exists>k a'. app_drain a = Some (k, a') \<and> ct_map (ha_table a') = fold (event_effect a) (ring_contents r) (ct_map (ha_table a))"
proof -
  obtain s' where s': "session_drain (ha_session a) kMaxEventsPerFrame = (ring_contents r, s')"
    using session_drain_ring [OF assms(1,2), of kMaxEventsPerFrame] assms(6) by auto
  obtain a1 where a1: "apply_events (ring_contents r) (a\<lparr>ha_session := s'\<rparr>) = Some a1"
    "ct_map (ha_table a1) = fold (event_effect (a\<lparr>ha_session := s'\<rparr>)) (ring_contents r) (ct_map (ha_table a))"
    using apply_events_table [of "ring_contents r" "a\<lparr>ha_session := s'\<rparr>"] assms(7) by auto
  have "event_effect (a\<lparr>ha_session := s'\<rparr>) = event_effect a"
    by (simp add: event_effect_def event_ms_def fun_eq_iff)
  then show ?thesis
    using assms(1,3,4,5) s' a1
    by (auto simp: app_drain_def attached_def replay_staged_def staged_events_def kMaxEventsPerFrame_def)
qed

section \<open>From the allocator to the table\<close>



end
