(* ===== verification/Preload_Arena.thy ===== *)
theory Preload_Arena
  imports Preload_Properties
begin

text \<open>
  The bootstrap arena of \<^verbatim>\<open>src/preload/preload.c\<close>, which serves the allocations that are made while the real
  allocator is being looked up.
\<close>

section \<open>Headers in memory\<close>

lemma byte_split: "push_bit 8 (drop_bit 8 w) OR ucast (ucast w :: u8) = (w :: u64)"
  by (rule bit_word_eqI) (auto simp: bit_simps)

lemma load_word_eq:
  assumes "\<And>i. i < 8 \<Longrightarrow> mem (a + of_nat i) = ucast (drop_bit (8 * i) v)"
  shows "load_word a mem = v"
proof -
  have "k \<le> 8 \<Longrightarrow> foldr (\<lambda>i acc. push_bit 8 acc OR ucast (mem (a + of_nat i))) [k..<8] 0 = drop_bit (8 * k) v" for k
  proof (induction "8 - k" arbitrary: k)
    case 0
    then have "k = 8" by simp
    moreover have "drop_bit 64 v = 0" by (rule bit_word_eqI) (simp add: bit_simps)
    ultimately show ?case by simp
  next
    case (Suc d)
    then have "k < 8" "[k..<8] = k # [Suc k..<8]" by (simp_all add: upt_conv_Cons)
    moreover have "drop_bit (8 * Suc k) v = drop_bit 8 (drop_bit (8 * k) v)" by (simp add: add.commute)
    ultimately show ?case
      using Suc.hyps(1) [of "Suc k"] Suc.hyps(2) byte_split [of "drop_bit (8 * k) v"] by (simp add: assms)
  qed
  from this [of 0] show ?thesis by (simp add: load_word_def)
qed

lemma unat_add_offset: "unat a + i < 2 ^ 64 \<Longrightarrow> unat (a + of_nat i :: u64) = unat a + i"
  by (simp add: unat_word_ariths unat_of_nat_small)

text \<open>A store is seen at its own address and not at words it does not overlap.\<close>

lemma store_word_byte:
  assumes "unat b + 8 \<le> 2 ^ 64" "unat a + i < 2 ^ 64"
  shows "store_word b v mem (a + of_nat i) =
    (if unat b \<le> unat a + i \<and> unat a + i < unat b + 8 then ucast (drop_bit (8 * (unat a + i - unat b)) v) else mem (a + of_nat i))"
proof -
  have "unat (a + of_nat i - b) = (if unat b \<le> unat a + i then unat a + i - unat b else unat a + i + 2 ^ 64 - unat b)"
    using unat_add_offset [OF assms(2)] by (simp add: unat_sub_if')
  then show ?thesis
    using assms by (auto simp: store_word_def word_less_nat_alt)
qed

lemma load_store:
  assumes "unat a + 8 \<le> 2 ^ 64"
  shows "load_word a (store_word a v mem) = v"
  using assms by (intro load_word_eq) (simp add: store_word_byte)

lemma load_frame:
  assumes "\<And>i. i < 8 \<Longrightarrow> mem' (a + of_nat i) = mem (a + of_nat i)"
  shows "load_word a mem' = load_word a mem"
  unfolding load_word_def using assms by (intro foldr_cong) auto

lemma load_store_other:
  assumes "unat a + 8 \<le> 2 ^ 64" "unat b + 8 \<le> 2 ^ 64" "unat a + 8 \<le> unat b \<or> unat b + 8 \<le> unat a"
  shows "load_word a (store_word b v mem) = load_word a mem"
  using assms by (intro load_frame) (auto simp: store_word_byte)

section \<open>Allocations\<close>

definition round16 :: "nat \<Rightarrow> nat" where
  "round16 n = (n + 15) div 16 * 16"

lemma round16: "n \<le> round16 n" "round16 n \<le> n + 15" "round16 n mod 16 = 0"
  by (simp_all add: round16_def)

text \<open>Requests of a size the round-up and the bounds check can handle.\<close>

definition sane_request :: "u64 \<Rightarrow> bool" where
  "sane_request n \<longleftrightarrow> unat n + 2 ^ 17 \<le> 2 ^ 64"

lemma bootstrap_alloc_eq:
  assumes "sane_request n" "unat (g_bootstrap_used st) \<le> 65536"
  shows "hv_bootstrap_alloc L n st =
    (let off = unat (g_bootstrap_used st); used = off + 16 + round16 (unat n)
     in if used > 65536 then None
        else Some (lc_arena L + of_nat (off + 16), st\<lparr>g_bootstrap_used := of_nat used,
          g_bootstrap := store_word (of_nat off + 8) HV_BOOTSTRAP_MAGIC (store_word (of_nat off) n (g_bootstrap st))\<rparr>))"
proof -
  let ?p = "(n + 15) AND NOT 15" and ?off = "g_bootstrap_used st"
  have n: "unat n + 131072 \<le> 18446744073709551616" using assms(1) by (simp add: sane_request_def)
  have "unat (n + 15) = unat n + 15" using n by (simp add: unat_word_ariths)
  then have p: "unat ?p = round16 (unat n)"
    using unat_and_not_mask [of "n + 15" 4] by (simp add: round16_def)
  have need: "unat (16 + ?p) = 16 + round16 (unat n)"
    using n p round16(2) [of "unat n"] by (simp add: unat_word_ariths)
  have sum: "unat (?off + (16 + ?p)) = unat ?off + 16 + round16 (unat n)"
    using n need assms(2) round16(2) [of "unat n"] by (simp add: unat_word_ariths)
  have "\<not> ?p < n" using p round16(1) [of "unat n"] by (simp add: word_less_nat_alt)
  moreover have "?off + (16 + ?p) > HV_BOOTSTRAP_BYTES \<longleftrightarrow> unat ?off + 16 + round16 (unat n) > 65536"
    using sum by (simp add: word_less_nat_alt HV_BOOTSTRAP_BYTES_def)
  moreover have "?off + (16 + ?p) = of_nat (unat ?off + 16 + round16 (unat n))"
    using sum by (metis of_nat_unat ucast_id)
  ultimately show ?thesis
    by (simp add: hv_bootstrap_alloc_def Let_def sizeof_boot_header_def add.assoc)
qed

text \<open>A run of requests, with the blocks it hands out.\<close>

fun boot_run :: "'h libc \<Rightarrow> u64 list \<Rightarrow> 'h preload \<Rightarrow> (u64 list \<times> 'h preload) option" where
  "boot_run L [] st = Some ([], st)"
| "boot_run L (n # ns) st = do {
     (p, st1) \<leftarrow> hv_bootstrap_alloc L n st;
     (ps, st2) \<leftarrow> boot_run L ns st1;
     Some (p # ps, st2)
   }"

text \<open>The offsets of the blocks for a run that starts at offset \<open>off\<close>.\<close>

fun offsets :: "nat \<Rightarrow> u64 list \<Rightarrow> nat list" where
  "offsets off [] = []"
| "offsets off (n # ns) = (off + 16) # offsets (off + 16 + round16 (unat n)) ns"

fun arena_after :: "nat \<Rightarrow> u64 list \<Rightarrow> nat" where
  "arena_after off [] = off"
| "arena_after off (n # ns) = arena_after (off + 16 + round16 (unat n)) ns"

lemma arena_after_mono: "off \<le> arena_after off ns"
  by (induction off ns rule: arena_after.induct) auto

lemma length_offsets [simp]: "length (offsets off ns) = length ns"
  by (induction off ns rule: offsets.induct) auto

lemma offsets_bounds:
  "i < length ns \<Longrightarrow> off + 16 \<le> offsets off ns ! i \<and> offsets off ns ! i + unat (ns ! i) \<le> arena_after off ns \<and>
     (off mod 16 = 0 \<longrightarrow> offsets off ns ! i mod 16 = 0)"
proof (induction off ns arbitrary: i rule: offsets.induct)
  case (2 off n ns)
  have "off mod 16 = 0 \<longrightarrow> (off + 16 + round16 (unat n)) mod 16 = 0"
    using round16(3) [of "unat n"] by presburger
  then show ?case
    using 2 arena_after_mono [of "off + 16 + round16 (unat n)" ns] round16(1) [of "unat n"]
    by (cases i) fastforce+
qed simp

text \<open>Blocks that are handed out later start after the earlier ones, header included.\<close>

lemma offsets_disjoint:
  "i < j \<Longrightarrow> j < length ns \<Longrightarrow> offsets off ns ! i + unat (ns ! i) + 16 \<le> offsets off ns ! j"
proof (induction off ns arbitrary: i j rule: offsets.induct)
  case (2 off n ns)
  show ?case
  proof (cases i)
    case 0
    then obtain j' where "j = Suc j'" "j' < length ns" using 2 by (cases j) auto
    then show ?thesis
      using offsets_bounds [of j' ns "off + 16 + round16 (unat n)"] round16(1) [of "unat n"] 0 by simp
  next
    case (Suc i')
    then show ?thesis using 2 by (cases j) auto
  qed
qed simp

text \<open>The headers of blocks below the mark survive.\<close>

definition header_at :: "'h preload \<Rightarrow> nat \<Rightarrow> u64 \<Rightarrow> bool" where
  "header_at st off n \<longleftrightarrow> load_word (of_nat (off - 16)) (g_bootstrap st) = n \<and>
     load_word (of_nat (off - 16) + 8) (g_bootstrap st) = HV_BOOTSTRAP_MAGIC"

lemma headers_stored:
  assumes "off + 16 \<le> 65536"
  shows "header_at (st\<lparr>g_bootstrap_used := u, g_bootstrap := store_word (of_nat off + 8) HV_BOOTSTRAP_MAGIC (store_word (of_nat off) n mem)\<rparr>) (off + 16) n"
proof -
  have "unat (of_nat off :: u64) = off" "unat (of_nat off + 8 :: u64) = off + 8"
    using assms unat_add_offset [of "of_nat off" 8] by (simp_all add: unat_of_nat_small)
  then show ?thesis
    using assms by (simp add: header_at_def load_store load_store_other)
qed

lemma headers_kept:
  assumes "header_at st off m" "16 \<le> off" "off \<le> b" "b + 16 \<le> 65536" "g_bootstrap st = mem"
  shows "header_at (st\<lparr>g_bootstrap_used := u, g_bootstrap := store_word (of_nat b + 8) HV_BOOTSTRAP_MAGIC (store_word (of_nat b) n mem)\<rparr>) off m"
proof -
  obtain h where h: "off = h + 16" using assms(2) by (metis add.commute le_Suc_ex)
  have "unat (of_nat b :: u64) = b" "unat (of_nat b + 8 :: u64) = b + 8" "unat (of_nat h :: u64) = h" "unat (of_nat h + 8 :: u64) = h + 8"
    using assms(3,4) h unat_add_offset [of "of_nat b" 8] unat_add_offset [of "of_nat h" 8] by (simp_all add: unat_of_nat_small)
  then show ?thesis
    using assms h by (simp add: header_at_def load_store_other)
qed

lemma boot_run_correct:
  "\<lbrakk>list_all sane_request ns; unat (g_bootstrap_used st) = off; arena_after off ns \<le> 65536\<rbrakk> \<Longrightarrow>
     \<exists>st'. boot_run L ns st = Some (map (\<lambda>o'. lc_arena L + of_nat o') (offsets off ns), st') \<and>
       (\<forall>i < length ns. header_at st' (offsets off ns ! i) (ns ! i)) \<and>
       (\<forall>x m. header_at st x m \<longrightarrow> 16 \<le> x \<longrightarrow> x \<le> off \<longrightarrow> header_at st' x m)"
proof (induction ns arbitrary: st off)
  case (Cons n ns)
  let ?off = "off + 16 + round16 (unat n)"
  let ?st = "st\<lparr>g_bootstrap_used := of_nat ?off,
      g_bootstrap := store_word (of_nat off + 8) HV_BOOTSTRAP_MAGIC (store_word (of_nat off) n (g_bootstrap st))\<rparr>"
  have lim: "?off \<le> 65536" using Cons.prems(3) arena_after_mono [of ?off ns] by simp
  have a: "hv_bootstrap_alloc L n st = Some (lc_arena L + of_nat (off + 16), ?st)"
    using bootstrap_alloc_eq [of n st L] Cons.prems lim by (simp add: Let_def)
  have "unat (g_bootstrap_used ?st) = ?off" using lim unat_of_nat_small [of ?off, where 'a = 64] by simp
  then obtain st' where st': "boot_run L ns ?st = Some (map (\<lambda>o'. lc_arena L + of_nat o') (offsets ?off ns), st')"
    "\<forall>i < length ns. header_at st' (offsets ?off ns ! i) (ns ! i)" "\<forall>x m. header_at ?st x m \<longrightarrow> 16 \<le> x \<longrightarrow> x \<le> ?off \<longrightarrow> header_at st' x m"
    using Cons.IH [of ?st ?off] Cons.prems(1,3) by auto
  have "header_at ?st (off + 16) n" by (rule headers_stored) (use lim in simp)
  then have first: "header_at st' (off + 16) n" using st'(3) by simp
  have old: "header_at st' x m" if "header_at st x m" "16 \<le> x" "x \<le> off" for x m
  proof -
    have "header_at ?st x m" by (rule headers_kept [OF that _ refl]) (use lim in simp)
    then show ?thesis using st'(3) that by simp
  qed
  show ?case
  proof (intro exI [of _ st'] conjI allI impI)
    show "boot_run L (n # ns) st = Some (map (\<lambda>o'. lc_arena L + of_nat o') (offsets off (n # ns)), st')"
      using a st'(1) by simp
    show "header_at st' (offsets off (n # ns) ! i) ((n # ns) ! i)" if "i < length (n # ns)" for i
      using that first st'(2) by (cases i) auto
  qed (use old in blast)
qed simp

section \<open>Properties\<close>

text \<open>
  The bootstrap arena serves the look-up of the real allocator without overlap: as long as the requests,
  each rounded up to 16 bytes behind a 16-byte header, fit into its 64 KiB, all of them succeed; the blocks
  lie inside the arena, start at multiples of 16 and are disjoint, headers included, and the size that
  \<^verbatim>\<open>realloc\<close> later reads back from a header is the size that was asked for.
\<close>

theorem bootstrap_blocks_disjoint:
  assumes "list_all sane_request ns" "arena_after 0 ns \<le> 65536" "g_bootstrap_used st = 0"
  shows "\<exists>st'. boot_run L ns st = Some (map (\<lambda>o'. lc_arena L + of_nat o') (offsets 0 ns), st') \<and>
    (\<forall>i < length ns. offsets 0 ns ! i mod 16 = 0 \<and> 16 \<le> offsets 0 ns ! i \<and> offsets 0 ns ! i + unat (ns ! i) \<le> 65536 \<and>
       hv_bootstrap_size L (lc_arena L + of_nat (offsets 0 ns ! i)) st' = ns ! i) \<and>
    (\<forall>i j. i < j \<longrightarrow> j < length ns \<longrightarrow> offsets 0 ns ! i + unat (ns ! i) + 16 \<le> offsets 0 ns ! j)"
proof -
  obtain st' where st': "boot_run L ns st = Some (map (\<lambda>o'. lc_arena L + of_nat o') (offsets 0 ns), st')"
    "\<forall>i < length ns. header_at st' (offsets 0 ns ! i) (ns ! i)"
    using boot_run_correct [of ns st 0 L] assms by auto
  have "hv_bootstrap_size L (lc_arena L + of_nat x) st' = n" if hdr: "header_at st' x n" "16 \<le> x" for x n
  proof -
    obtain h where "x = h + 16" using hdr(2) by (metis add.commute le_Suc_ex)
    then show ?thesis using hdr(1) by (simp add: hv_bootstrap_size_def header_at_def sizeof_boot_header_def)
  qed
  then show ?thesis
    using st' offsets_bounds [of _ ns 0] offsets_disjoint [of _ _ ns 0] assms(2) by (intro exI [of _ st']) fastforce
qed

theorem bootstrap_blocks_disjoint_witness:
  "\<exists>ps st'. boot_run demo_libc [32, 1, 100] (preload_new {} []) = Some (ps, st') \<and> ps = [0x100010, 0x100040, 0x100060] \<and>
     hv_bootstrap_size demo_libc 0x100040 st' = 1"
proof -
  have sane: "list_all sane_request [32, 1, 100]" "arena_after 0 [32, 1, 100] = 208" "g_bootstrap_used (preload_new {} []) = 0"
    and offs: "offsets 0 [32, 1, 100] = [16, 64, 96]" and base: "lc_arena demo_libc = 0x100000"
    by (simp_all add: sane_request_def round16_def preload_new_def demo_libc_def)
  from bootstrap_blocks_disjoint [OF sane(1) _ sane(3), of demo_libc] sane(2) obtain st' where
    st': "boot_run demo_libc [32, 1, 100] (preload_new {} []) = Some (map (\<lambda>o'. lc_arena demo_libc + of_nat o') (offsets 0 [32, 1, 100]), st')"
      "\<forall>i < 3. hv_bootstrap_size demo_libc (lc_arena demo_libc + of_nat (offsets 0 [32, 1, 100] ! i)) st' = [32, 1, 100] ! i"
    by (auto simp: numeral_3_eq_3)
  have "hv_bootstrap_size demo_libc 0x100040 st' = 1"
    using spec [OF st'(2), of 1] unfolding offs base by simp
  then show ?thesis
    using st'(1) unfolding offs base by (simp del: boot_run.simps)
qed

text \<open>
  A request close to the end of the address range defeats the bounds check of the arena: the header size is
  added after the overflow test of the round-up, so the sum wraps to zero, the check passes and the hook
  returns a block, of \<open>2 ^ 64 - 16\<close> bytes, for which nothing was set aside.
\<close>

theorem bootstrap_overflow_accepted:
  assumes "unat (g_bootstrap_used st) \<le> 65536"
  shows "\<exists>st'. hv_bootstrap_alloc L 0xFFFFFFFFFFFFFFF0 st = Some (lc_arena L + g_bootstrap_used st + 16, st') \<and>
    g_bootstrap_used st' = g_bootstrap_used st"
proof -
  have "sizeof_boot_header + ((0xFFFFFFFFFFFFFFF0 + 15) AND NOT 15) = 0" "\<not> (0xFFFFFFFFFFFFFFF0 + 15) AND NOT 15 < (0xFFFFFFFFFFFFFFF0 :: u64)"
    by code_simp+
  moreover have "\<not> g_bootstrap_used st > HV_BOOTSTRAP_BYTES"
    using assms by (simp add: HV_BOOTSTRAP_BYTES_def word_less_nat_alt)
  ultimately show ?thesis
    by (simp only: hv_bootstrap_alloc_def Let_def if_False add_0_right) (simp add: sizeof_boot_header_def)
qed

theorem bootstrap_overflow_accepted_witness:
  "\<exists>st'. hv_bootstrap_alloc demo_libc 0xFFFFFFFFFFFFFFF0 (preload_new {} []) = Some (0x100010, st') \<and> g_bootstrap_used st' = 0"
  using bootstrap_overflow_accepted [of "preload_new {} []" demo_libc] by (simp add: preload_new_def demo_libc_def)

end
