(* ===== verification/Framebuffer.thy ===== *)
theory Framebuffer
  imports Screen_Layout
begin

text \<open>
  The double-buffered cell grid of \<^verbatim>\<open>src/tui/framebuffer.h\<close> and \<^verbatim>\<open>framebuffer.cpp\<close>: the two buffers, the clipped
  drawing operations and the UTF-8 decoder. Text is a list of bytes, a glyph a 32-bit code point.
\<close>

section \<open>Cells and buffers\<close>

definition kAttrBold :: u8 where [hv_consts]: "kAttrBold = 1"
definition kAttrDim :: u8 where [hv_consts]: "kAttrDim = 2"
definition kAttrUnderline :: u8 where [hv_consts]: "kAttrUnderline = 4"
definition kAttrReverse :: u8 where [hv_consts]: "kAttrReverse = 8"

record cell =
  cl_glyph :: u32
  cl_fg :: u32
  cl_bg :: u32
  cl_attrs :: u8

definition mk_cell :: "u32 \<Rightarrow> u32 \<Rightarrow> u32 \<Rightarrow> u8 \<Rightarrow> cell" where
  "mk_cell g fg bg at = \<lparr>cl_glyph = g, cl_fg = fg, cl_bg = bg, cl_attrs = at\<rparr>"

definition kDefaultFg :: u32 where "kDefaultFg = 0xC0C0C0"
definition kDefaultBg :: u32 where "kDefaultBg = 0"

definition empty_cell :: cell where
  "empty_cell = mk_cell 0x20 kDefaultFg kDefaultBg 0"

definition kMaxCells :: int where
  "kMaxCells = 4194304"

definition kReplacement :: u32 where
  "kReplacement = 0xFFFD"

record framebuffer =
  fb_front :: "cell list"
  fb_back :: "cell list"
  fb_w :: int
  fb_h :: int

definition framebuffer_new :: framebuffer where
  "framebuffer_new = \<lparr>fb_front = [], fb_back = [], fb_w = 0, fb_h = 0\<rparr>"

definition fb_empty :: "framebuffer \<Rightarrow> bool" where
  "fb_empty fb \<longleftrightarrow> fb_w fb \<le> 0 \<or> fb_h fb \<le> 0"

definition fb_contains :: "framebuffer \<Rightarrow> int \<Rightarrow> int \<Rightarrow> bool" where
  "fb_contains fb x y \<longleftrightarrow> x \<ge> 0 \<and> y \<ge> 0 \<and> x < fb_w fb \<and> y < fb_h fb"

definition fb_index :: "framebuffer \<Rightarrow> int \<Rightarrow> int \<Rightarrow> nat" where
  "fb_index fb x y = nat y * nat (fb_w fb) + nat x"

definition at_front :: "framebuffer \<Rightarrow> int \<Rightarrow> int \<Rightarrow> cell" where
  "at_front fb x y = fb_front fb ! fb_index fb x y"

definition at_back :: "framebuffer \<Rightarrow> int \<Rightarrow> int \<Rightarrow> cell" where
  "at_back fb x y = fb_back fb ! fb_index fb x y"

definition fb_resize :: "int \<Rightarrow> int \<Rightarrow> framebuffer \<Rightarrow> bool \<times> framebuffer" where
  "fb_resize w h fb =
     (if w \<le> 0 \<or> h \<le> 0 then (False, fb)
      else if w * h > kMaxCells then (False, fb)
      else (True, \<lparr>fb_front = replicate (nat (w * h)) empty_cell, fb_back = replicate (nat (w * h)) empty_cell, fb_w = w, fb_h = h\<rparr>))"

definition fb_clear :: "cell \<Rightarrow> framebuffer \<Rightarrow> framebuffer" where
  "fb_clear c fb = fb\<lparr>fb_back := replicate (length (fb_back fb)) c\<rparr>"

definition fb_put :: "int \<Rightarrow> int \<Rightarrow> cell \<Rightarrow> framebuffer \<Rightarrow> framebuffer" where
  "fb_put x y c fb = (if \<not> fb_contains fb x y then fb else fb\<lparr>fb_back := (fb_back fb)[fb_index fb x y := c]\<rparr>)"

definition fb_swap :: "cell \<Rightarrow> framebuffer \<Rightarrow> framebuffer" where
  "fb_swap c fb = fb\<lparr>fb_front := fb_back fb, fb_back := replicate (length (fb_front fb)) c\<rparr>"

section \<open>Decoding text\<close>

definition cont_byte :: "u8 list \<Rightarrow> nat \<Rightarrow> bool" where
  "cont_byte s j \<longleftrightarrow> j < length s \<and> (s ! j AND 0xC0) = 0x80"

definition cont_bits :: "u8 list \<Rightarrow> nat \<Rightarrow> u32" where
  "cont_bits s j = ucast (s ! j AND 0x3F)"

definition utf8_decode :: "u8 list \<Rightarrow> nat \<Rightarrow> u32 \<times> nat" where
  "utf8_decode s i =
     (if i \<ge> length s then (kReplacement, 1)
      else
        (let b0 = s ! i in
         if b0 < 0x80 then (ucast b0, 1)
         else if b0 < 0xC2 \<or> b0 > 0xF4 then (kReplacement, 1)
         else if b0 < 0xE0 then
           (if \<not> cont_byte s (i + 1) then (kReplacement, 1)
            else (push_bit 6 (ucast (b0 AND 0x1F)) OR cont_bits s (i + 1), 2))
         else if b0 < 0xF0 then
           (if \<not> cont_byte s (i + 1) \<or> \<not> cont_byte s (i + 2) then (kReplacement, 1)
            else
              (let v = push_bit 12 (ucast (b0 AND 0x0F)) OR push_bit 6 (cont_bits s (i + 1)) OR cont_bits s (i + 2)
               in if v < 0x800 \<or> (v \<ge> 0xD800 \<and> v \<le> 0xDFFF) then (kReplacement, 1) else (v, 3)))
         else if \<not> cont_byte s (i + 1) \<or> \<not> cont_byte s (i + 2) \<or> \<not> cont_byte s (i + 3) then (kReplacement, 1)
         else
           (let v = push_bit 18 (ucast (b0 AND 0x07)) OR push_bit 12 (cont_bits s (i + 1)) OR push_bit 6 (cont_bits s (i + 2)) OR cont_bits s (i + 3)
            in if v < 0x10000 \<or> v > 0x10FFFF then (kReplacement, 1) else (v, 4))))"

lemma utf8_progress: "0 < snd (utf8_decode s i)"
  by (simp add: utf8_decode_def Let_def)

lemma utf8_decode_pos: "(cp, k) = utf8_decode s i \<Longrightarrow> 0 < k"
  using utf8_progress [of s i] by (metis snd_conv)

text \<open>The loop of \<^verbatim>\<open>Framebuffer::text\<close>: byte index, column, cells written so far.\<close>

function text_loop :: "u8 list \<Rightarrow> int \<Rightarrow> u32 \<Rightarrow> u32 \<Rightarrow> u8 \<Rightarrow> nat \<Rightarrow> int \<Rightarrow> nat \<Rightarrow> framebuffer \<Rightarrow> nat \<times> framebuffer" where
  "text_loop s y fg bg at i col written fb =
     (if i < length s \<and> col < fb_w fb then
        (case utf8_decode s i of (cp, k) \<Rightarrow>
           if col \<ge> 0
           then text_loop s y fg bg at (i + k) (col + 1) (written + 1)
                  (fb\<lparr>fb_back := (fb_back fb)[fb_index fb col y := mk_cell cp fg bg at]\<rparr>)
           else text_loop s y fg bg at (i + k) (col + 1) written fb)
      else (written, fb))"
  by pat_completeness auto
termination
proof (relation "measure (\<lambda>(s, y, fg, bg, at, i, col, written, fb). length s - i)")
qed (auto dest!: utf8_decode_pos)

declare text_loop.simps [simp del]

definition fb_text :: "int \<Rightarrow> int \<Rightarrow> u8 list \<Rightarrow> u32 \<Rightarrow> u32 \<Rightarrow> u8 \<Rightarrow> framebuffer \<Rightarrow> nat \<times> framebuffer" where
  "fb_text x y s fg bg at fb =
     (if y < 0 \<or> y \<ge> fb_h fb \<or> fb_w fb \<le> 0 then (0, fb) else text_loop s y fg bg at 0 x 0 fb)"

section \<open>Clipped drawing\<close>

definition clip_rect :: "rect \<Rightarrow> int \<Rightarrow> int \<Rightarrow> rect option" where
  "clip_rect r w h =
     (if rw r \<le> 0 \<or> rh r \<le> 0 \<or> w \<le> 0 \<or> h \<le> 0 then None
      else
        (let x0 = max (rx r) 0; y0 = max (ry r) 0; x1 = min (rx r + rw r) w; y1 = min (ry r + rh r) h
         in if x1 \<le> x0 \<or> y1 \<le> y0 then None else Some (mk_rect x0 y0 (x1 - x0) (y1 - y0))))"

text \<open>\<^verbatim>\<open>std::fill\<close> over \<open>n\<close> cells from position \<open>i\<close>.\<close>

definition fill_run :: "nat \<Rightarrow> nat \<Rightarrow> cell \<Rightarrow> cell list \<Rightarrow> cell list" where
  "fill_run i n c xs = take i xs @ replicate n c @ drop (i + n) xs"

definition fb_fill :: "rect \<Rightarrow> cell \<Rightarrow> framebuffer \<Rightarrow> framebuffer" where
  "fb_fill r c fb =
     (case clip_rect r (fb_w fb) (fb_h fb) of
        None \<Rightarrow> fb
      | Some q \<Rightarrow> fold (\<lambda>y fb. fb\<lparr>fb_back := fill_run (fb_index fb 0 y + nat (rx q)) (nat (rw q)) c (fb_back fb)\<rparr>)
          [ry q .. ry q + rh q - 1] fb)"

definition fb_hline :: "int \<Rightarrow> int \<Rightarrow> int \<Rightarrow> u32 \<Rightarrow> u32 \<Rightarrow> u32 \<Rightarrow> u8 \<Rightarrow> framebuffer \<Rightarrow> framebuffer" where
  "fb_hline x y len g fg bg at fb = fb_fill (mk_rect x y len 1) (mk_cell g fg bg at) fb"

definition fb_vline :: "int \<Rightarrow> int \<Rightarrow> int \<Rightarrow> u32 \<Rightarrow> u32 \<Rightarrow> u32 \<Rightarrow> u8 \<Rightarrow> framebuffer \<Rightarrow> framebuffer" where
  "fb_vline x y len g fg bg at fb = fb_fill (mk_rect x y 1 len) (mk_cell g fg bg at) fb"

datatype box_style = BoxLight | BoxHeavy | BoxRounded | BoxAscii

record box_glyphs =
  bx_h :: u32
  bx_v :: u32
  bx_tl :: u32
  bx_tr :: u32
  bx_bl :: u32
  bx_br :: u32

fun box_glyphs_for :: "box_style \<Rightarrow> box_glyphs" where
  "box_glyphs_for BoxLight = \<lparr>bx_h = 0x2500, bx_v = 0x2502, bx_tl = 0x250C, bx_tr = 0x2510, bx_bl = 0x2514, bx_br = 0x2518\<rparr>"
| "box_glyphs_for BoxHeavy = \<lparr>bx_h = 0x2501, bx_v = 0x2503, bx_tl = 0x250F, bx_tr = 0x2513, bx_bl = 0x2517, bx_br = 0x251B\<rparr>"
| "box_glyphs_for BoxRounded = \<lparr>bx_h = 0x2500, bx_v = 0x2502, bx_tl = 0x256D, bx_tr = 0x256E, bx_bl = 0x2570, bx_br = 0x256F\<rparr>"
| "box_glyphs_for BoxAscii = \<lparr>bx_h = 0x2D, bx_v = 0x7C, bx_tl = 0x2B, bx_tr = 0x2B, bx_bl = 0x2B, bx_br = 0x2B\<rparr>"

definition fb_box :: "rect \<Rightarrow> box_style \<Rightarrow> u32 \<Rightarrow> u32 \<Rightarrow> u8 \<Rightarrow> framebuffer \<Rightarrow> framebuffer" where
  "fb_box r style fg bg at fb =
     (if rw r \<le> 0 \<or> rh r \<le> 0 \<or> fb_empty fb then fb
      else
        (let g = box_glyphs_for style; cell = (\<lambda>ch. mk_cell ch fg bg at);
             x0 = rx r; y0 = ry r; x1 = rx r + rw r - 1; y1 = ry r + rh r - 1;
             fb1 = fold (\<lambda>x fb. let fb' = fb_put x y0 (cell (bx_h g)) fb in if y1 \<noteq> y0 then fb_put x y1 (cell (bx_h g)) fb' else fb')
                     [max (x0 + 1) 0 .. min (x1 - 1) (fb_w fb - 1)] fb;
             fb2 = fold (\<lambda>y fb. let fb' = fb_put x0 y (cell (bx_v g)) fb in if x1 \<noteq> x0 then fb_put x1 y (cell (bx_v g)) fb' else fb')
                     [max (y0 + 1) 0 .. min (y1 - 1) (fb_h fb - 1)] fb1;
             fb3 = fb_put x0 y0 (cell (bx_tl g)) fb2;
             fb4 = (if x1 \<noteq> x0 then fb_put x1 y0 (cell (bx_tr g)) fb3 else fb3);
             fb5 = (if y1 \<noteq> y0 then fb_put x0 y1 (cell (bx_bl g)) fb4 else fb4)
         in if x1 \<noteq> x0 \<and> y1 \<noteq> y0 then fb_put x1 y1 (cell (bx_br g)) fb5 else fb5))"

section \<open>Shape\<close>

definition fb_ok :: "framebuffer \<Rightarrow> bool" where
  "fb_ok fb \<longleftrightarrow> 0 \<le> fb_w fb \<and> 0 \<le> fb_h fb \<and> fb_w fb * fb_h fb \<le> kMaxCells \<and>
     length (fb_front fb) = nat (fb_w fb) * nat (fb_h fb) \<and> length (fb_back fb) = nat (fb_w fb) * nat (fb_h fb)"

definition same_frame :: "framebuffer \<Rightarrow> framebuffer \<Rightarrow> bool" where
  "same_frame fb fb' \<longleftrightarrow> fb_w fb' = fb_w fb \<and> fb_h fb' = fb_h fb \<and> fb_front fb' = fb_front fb \<and> length (fb_back fb') = length (fb_back fb)"

lemma same_frame_refl [simp]: "same_frame fb fb"
  by (simp add: same_frame_def)

lemma same_frame_trans: "same_frame a b \<Longrightarrow> same_frame b c \<Longrightarrow> same_frame a c"
  by (simp add: same_frame_def)

lemma same_frame_ok: "same_frame fb fb' \<Longrightarrow> fb_ok fb \<Longrightarrow> fb_ok fb'"
  by (simp add: same_frame_def fb_ok_def)

lemma index_in_range: "fb_ok fb \<Longrightarrow> fb_contains fb x y \<Longrightarrow> fb_index fb x y < length (fb_back fb)"
proof -
  assume ok: "fb_ok fb" and c: "fb_contains fb x y"
  have "nat y * nat (fb_w fb) + nat x < Suc (nat y) * nat (fb_w fb)" using c by (simp add: fb_contains_def)
  also have "\<dots> \<le> nat (fb_h fb) * nat (fb_w fb)" using c by (intro mult_le_mono1) (auto simp: fb_contains_def)
  finally show ?thesis using ok by (simp add: fb_index_def fb_ok_def mult.commute)
qed

lemma index_inj:
  assumes "fb_contains fb x y" "fb_contains fb x' y'"
  shows "fb_index fb x y = fb_index fb x' y' \<longleftrightarrow> x = x' \<and> y = y'"
proof
  assume eq: "fb_index fb x y = fb_index fb x' y'"
  let ?w = "nat (fb_w fb)"
  have "nat x < ?w" "nat x' < ?w" using assms by (auto simp: fb_contains_def)
  moreover have "(nat y * ?w + nat x) mod ?w = (nat y' * ?w + nat x') mod ?w" "(nat y * ?w + nat x) div ?w = (nat y' * ?w + nat x') div ?w"
    using eq by (simp_all add: fb_index_def)
  ultimately have "nat x = nat x'" "nat y = nat y'" by simp_all
  then show "x = x' \<and> y = y'" using assms by (auto simp: fb_contains_def)
qed simp

lemma same_frame_index: "same_frame fb fb' \<Longrightarrow> fb_index fb' = fb_index fb" "same_frame fb fb' \<Longrightarrow> fb_contains fb' = fb_contains fb"
  by (simp_all add: same_frame_def fb_index_def fb_contains_def fun_eq_iff)

text \<open>Writing one cell.\<close>

lemma put_frame [simp]: "same_frame fb (fb_put x y c fb)"
  by (simp add: same_frame_def fb_put_def)

lemma at_back_put:
  assumes "fb_ok fb" "fb_contains fb x' y'"
  shows "at_back (fb_put x y c fb) x' y' = (if x = x' \<and> y = y' then c else at_back fb x' y')"
proof (cases "fb_contains fb x y")
  case True
  then show ?thesis
    using index_in_range [OF assms(1) True] index_inj [OF True assms(2)] same_frame_index [OF put_frame, of x y c fb]
    by (auto simp: at_back_def) (auto simp: fb_put_def nth_list_update)
next
  case False
  then show ?thesis using assms(2) by (auto simp: fb_put_def)
qed

section \<open>Every operation draws its picture, clipped\<close>

lemma length_fill_run [simp]: "i + n \<le> length xs \<Longrightarrow> length (fill_run i n c xs) = length xs"
  by (simp add: fill_run_def)

lemma nth_fill_run:
  assumes "i + n \<le> length xs" "j < length xs"
  shows "fill_run i n c xs ! j = (if i \<le> j \<and> j < i + n then c else xs ! j)"
  using assms by (auto simp: fill_run_def nth_append)

lemma clip_rectD:
  assumes "clip_rect r w h = Some q"
  shows "0 \<le> rx q" "0 \<le> ry q" "0 < rw q" "0 < rh q" "rx q + rw q \<le> w" "ry q + rh q \<le> h"
    "\<And>x y. 0 \<le> x \<Longrightarrow> x < w \<Longrightarrow> 0 \<le> y \<Longrightarrow> y < h \<Longrightarrow>
      (rx q \<le> x \<and> x < rx q + rw q \<and> ry q \<le> y \<and> y < ry q + rh q) \<longleftrightarrow> (rx r \<le> x \<and> x < rx r + rw r \<and> ry r \<le> y \<and> y < ry r + rh r)"
proof -
  have q: "rx q = max (rx r) 0" "ry q = max (ry r) 0" "rx q + rw q = min (rx r + rw r) w" "ry q + rh q = min (ry r + rh r) h"
    and pos: "0 < rw q" "0 < rh q"
    using assms by (auto simp: clip_rect_def Let_def mk_rect_def simp del: max_less_iff_conj min_less_iff_conj split: if_splits)
  then show "0 \<le> rx q" "0 \<le> ry q" "0 < rw q" "0 < rh q" "rx q + rw q \<le> w" "ry q + rh q \<le> h" by simp_all
  fix x y assume "0 \<le> x" "x < w" "0 \<le> y" "y < h"
  then show "(rx q \<le> x \<and> x < rx q + rw q \<and> ry q \<le> y \<and> y < ry q + rh q) \<longleftrightarrow> (rx r \<le> x \<and> x < rx r + rw r \<and> ry r \<le> y \<and> y < ry r + rh r)"
    unfolding q(3,4) by (simp add: q(1,2))
qed

lemma clip_rect_None:
  assumes "clip_rect r w h = None" "0 \<le> x" "x < w" "0 \<le> y" "y < h"
  shows "\<not> (rx r \<le> x \<and> x < rx r + rw r \<and> ry r \<le> y \<and> y < ry r + rh r)"
  using assms by (auto simp: clip_rect_def Let_def split: if_splits)

lemma fill_row:
  fixes c :: cell
  assumes ok: "fb_ok fb" and q: "0 \<le> x0" "0 \<le> n" "x0 + n \<le> fb_w fb" "0 \<le> yy" "yy < fb_h fb"
  defines "fb' \<equiv> fb\<lparr>fb_back := fill_run (fb_index fb 0 yy + nat x0) (nat n) c (fb_back fb)\<rparr>"
  shows "same_frame fb fb'"
    and "fb_contains fb x y \<Longrightarrow> at_back fb' x y = (if y = yy \<and> x0 \<le> x \<and> x < x0 + n then c else at_back fb x y)"
proof -
  let ?w = "nat (fb_w fb)"
  have "Suc (nat yy) \<le> nat (fb_h fb)" using q by simp
  then have "Suc (nat yy) * ?w \<le> length (fb_back fb)"
    using ok mult_le_mono1 [of "Suc (nat yy)" "nat (fb_h fb)" ?w] by (simp add: fb_ok_def mult.commute)
  then have len: "fb_index fb 0 yy + nat x0 + nat n \<le> length (fb_back fb)"
    using q by (simp add: fb_index_def)
  then show "same_frame fb fb'" by (simp add: same_frame_def fb'_def)
  assume c: "fb_contains fb x y"
  have pos: "fb_index fb 0 yy + nat x0 \<le> fb_index fb x y \<and> fb_index fb x y < fb_index fb 0 yy + nat x0 + nat n \<longleftrightarrow> y = yy \<and> x0 \<le> x \<and> x < x0 + n"
    (is "?L \<longleftrightarrow> ?R")
  proof
    assume ?R then show ?L using q c by (auto simp: fb_index_def fb_contains_def nat_le_eq_zle)
  next
    assume L: ?L
    have "nat y = nat yy"
    proof (rule ccontr)
      assume "nat y \<noteq> nat yy"
      then consider "Suc (nat y) \<le> nat yy" | "Suc (nat yy) \<le> nat y" by linarith
      then show False
      proof cases
        case 1
        then have "nat y * ?w + ?w \<le> nat yy * ?w" using mult_le_mono1 [of "Suc (nat y)" "nat yy" ?w] by simp
        moreover have "nat x < ?w" using c by (simp add: fb_contains_def)
        ultimately show False using L unfolding fb_index_def by linarith
      next
        case 2
        then have "nat yy * ?w + ?w \<le> nat y * ?w" using mult_le_mono1 [of "Suc (nat yy)" "nat y" ?w] by simp
        moreover have "nat x0 + nat n \<le> ?w" using q by simp
        ultimately show False using L unfolding fb_index_def by linarith
      qed
    qed
    then show ?R using L q c by (auto simp: fb_index_def fb_contains_def)
  qed
  have "fb_index fb' x y = fb_index fb x y" by (simp add: fb'_def fb_index_def)
  then show "at_back fb' x y = (if y = yy \<and> x0 \<le> x \<and> x < x0 + n then c else at_back fb x y)"
    using nth_fill_run [OF len index_in_range [OF ok c], of c] pos by (simp add: at_back_def fb'_def)
qed

lemma fill_rows:
  fixes c :: cell
  assumes "fb_ok fb" "0 \<le> x0" "0 \<le> n" "x0 + n \<le> fb_w fb" "\<forall>yy \<in> set ys. 0 \<le> yy \<and> yy < fb_h fb"
  defines "row \<equiv> \<lambda>y fb :: framebuffer. fb\<lparr>fb_back := fill_run (fb_index fb 0 y + nat x0) (nat n) c (fb_back fb)\<rparr>"
  shows "same_frame fb (fold row ys fb) \<and> (\<forall>x y. fb_contains fb x y \<longrightarrow>
    at_back (fold row ys fb) x y = (if y \<in> set ys \<and> x0 \<le> x \<and> x < x0 + n then c else at_back fb x y))"
  using assms(1,4,5)
proof (induction ys arbitrary: fb)
  case (Cons yy ys)
  have row: "same_frame fb (row yy fb)"
    "\<And>x y. fb_contains fb x y \<Longrightarrow> at_back (row yy fb) x y = (if y = yy \<and> x0 \<le> x \<and> x < x0 + n then c else at_back fb x y)"
    using fill_row [of fb x0 n yy, where c = c] Cons.prems assms(2,3) by (auto simp: row_def)
  have IH: "same_frame (row yy fb) (fold row ys (row yy fb)) \<and> (\<forall>x y. fb_contains (row yy fb) x y \<longrightarrow>
      at_back (fold row ys (row yy fb)) x y = (if y \<in> set ys \<and> x0 \<le> x \<and> x < x0 + n then c else at_back (row yy fb) x y))"
    using row(1) Cons.prems same_frame_ok [OF row(1)] by (intro Cons.IH) (auto simp: same_frame_def)
  then show ?case
    using row same_frame_trans same_frame_index(2) [OF row(1)] by auto
qed simp

lemma fill_exact:
  assumes ok: "fb_ok fb"
  shows "same_frame fb (fb_fill r c fb) \<and> (\<forall>x y. fb_contains fb x y \<longrightarrow> at_back (fb_fill r c fb) x y =
    (if rx r \<le> x \<and> x < rx r + rw r \<and> ry r \<le> y \<and> y < ry r + rh r then c else at_back fb x y))"
proof (cases "clip_rect r (fb_w fb) (fb_h fb)")
  case None
  then show ?thesis
    using clip_rect_None [OF None] by (auto simp: fb_fill_def fb_contains_def)
next
  case (Some q)
  note D = clip_rectD [OF Some]
  note rows = fill_rows [OF ok D(1) _ D(5), of "[ry q .. ry q + rh q - 1]", where c = c]
  show ?thesis
  proof (intro conjI allI impI)
    show "same_frame fb (fb_fill r c fb)" using rows D(2-4,6) by (simp add: fb_fill_def Some)
    fix x y assume c: "fb_contains fb x y"
    then have "(rx q \<le> x \<and> x < rx q + rw q \<and> ry q \<le> y \<and> y < ry q + rh q) \<longleftrightarrow> (rx r \<le> x \<and> x < rx r + rw r \<and> ry r \<le> y \<and> y < ry r + rh r)"
      by (intro D(7)) (simp_all add: fb_contains_def)
    moreover have "at_back (fb_fill r c fb) x y = (if y \<in> set [ry q .. ry q + rh q - 1] \<and> rx q \<le> x \<and> x < rx q + rw q then c else at_back fb x y)"
      using rows c D(2-4,6) by (simp add: fb_fill_def Some)
    ultimately show "at_back (fb_fill r c fb) x y = (if rx r \<le> x \<and> x < rx r + rw r \<and> ry r \<le> y \<and> y < ry r + rh r then c else at_back fb x y)"
      by auto
  qed
qed

text \<open>A sequence of single cells, later ones over earlier ones.\<close>

definition put_all :: "(int \<times> int \<times> cell) list \<Rightarrow> framebuffer \<Rightarrow> framebuffer" where
  "put_all ps fb = fold (\<lambda>(x, y, c) fb. fb_put x y c fb) ps fb"

fun last_put :: "(int \<times> int \<times> cell) list \<Rightarrow> int \<Rightarrow> int \<Rightarrow> cell option" where
  "last_put [] x y = None"
| "last_put ((a, b, c) # ps) x y = (case last_put ps x y of None \<Rightarrow> if a = x \<and> b = y then Some c else None | Some d \<Rightarrow> Some d)"

lemma last_put_append: "last_put (ps @ qs) x y = (case last_put qs x y of None \<Rightarrow> last_put ps x y | Some c \<Rightarrow> Some c)"
  by (induction ps x y rule: last_put.induct) (simp_all split: option.splits)

lemma last_put_same:
  "\<forall>a b c'. (a, b, c') \<in> set ps \<longrightarrow> c' = c \<Longrightarrow> last_put ps x y = (if (x, y, c) \<in> set ps then Some c else None)"
proof (induction ps)
  case (Cons p ps)
  obtain a b c' where p: "p = (a, b, c')" by (rule prod_cases3)
  have "c' = c" using Cons.prems p by (meson list.set_intros(1))
  moreover have "last_put ps x y = (if (x, y, c) \<in> set ps then Some c else None)"
    using Cons.prems by (intro Cons.IH) (meson list.set_intros(2))
  ultimately show ?case unfolding p by auto
qed simp

lemma put_all_exact:
  "fb_ok fb \<Longrightarrow> same_frame fb (put_all ps fb) \<and> (\<forall>x y. fb_contains fb x y \<longrightarrow>
    at_back (put_all ps fb) x y = (case last_put ps x y of None \<Rightarrow> at_back fb x y | Some c \<Rightarrow> c))"
proof (induction ps rule: rev_induct)
  case Nil
  then show ?case by (simp add: put_all_def)
next
  case (snoc p ps)
  obtain px py c where p: "p = (px, py, c)" by (rule prod_cases3)
  let ?f = "put_all ps fb"
  have f: "put_all (ps @ [(px, py, c)]) fb = fb_put px py c ?f" by (simp add: put_all_def)
  have IH: "same_frame fb ?f" "\<And>x y. fb_contains fb x y \<Longrightarrow> at_back ?f x y = (case last_put ps x y of None \<Rightarrow> at_back fb x y | Some c \<Rightarrow> c)"
    using snoc by auto
  show ?case
    unfolding p using IH same_frame_trans [OF IH(1) put_frame] at_back_put [OF same_frame_ok [OF IH(1) snoc.prems], of _ _ px py c] same_frame_index(2) [OF IH(1)]
    by (auto simp: f last_put_append)
qed

definition box_puts :: "rect \<Rightarrow> box_style \<Rightarrow> u32 \<Rightarrow> u32 \<Rightarrow> u8 \<Rightarrow> framebuffer \<Rightarrow> (int \<times> int \<times> cell) list" where
  "box_puts r style fg bg at fb =
     (let g = box_glyphs_for style; cell = (\<lambda>ch. mk_cell ch fg bg at);
          x0 = rx r; y0 = ry r; x1 = rx r + rw r - 1; y1 = ry r + rh r - 1
      in concat (map (\<lambda>x. (x, y0, cell (bx_h g)) # (if y1 \<noteq> y0 then [(x, y1, cell (bx_h g))] else [])) [max (x0 + 1) 0 .. min (x1 - 1) (fb_w fb - 1)])
         @ concat (map (\<lambda>y. (x0, y, cell (bx_v g)) # (if x1 \<noteq> x0 then [(x1, y, cell (bx_v g))] else [])) [max (y0 + 1) 0 .. min (y1 - 1) (fb_h fb - 1)])
         @ [(x0, y0, cell (bx_tl g))] @ (if x1 \<noteq> x0 then [(x1, y0, cell (bx_tr g))] else [])
         @ (if y1 \<noteq> y0 then [(x0, y1, cell (bx_bl g))] else []) @ (if x1 \<noteq> x0 \<and> y1 \<noteq> y0 then [(x1, y1, cell (bx_br g))] else []))"

lemma put_all_append: "put_all (ps @ qs) fb = put_all qs (put_all ps fb)"
  by (simp add: put_all_def)

lemma put_all_concat: "put_all (concat (map f xs)) fb = fold (\<lambda>x fb. put_all (f x) fb) xs fb"
  by (induction xs arbitrary: fb) (simp_all add: put_all_append put_all_def)

lemma box_as_puts:
  assumes "rw r > 0" "rh r > 0" "\<not> fb_empty fb"
  shows "fb_box r style fg bg at fb = put_all (box_puts r style fg bg at fb) fb"
proof -
  have single: "put_all [(x, y, c)] = fb_put x y c" for x y c by (simp add: put_all_def fun_eq_iff)
  have double: "put_all [(x, y, c), (x', y', c')] = (\<lambda>fb. fb_put x' y' c' (fb_put x y c fb))" for x y c x' y' c'
    by (simp add: put_all_def fun_eq_iff)
  have pair: "put_all ((x, y, c) # ps) fb = put_all ps (fb_put x y c fb)" for x y c ps fb by (simp add: put_all_def)
  have none: "put_all [] fb = fb" for fb by (simp add: put_all_def)
  show ?thesis
    using assms unfolding fb_box_def box_puts_def Let_def put_all_append put_all_concat
    by (simp add: pair none cong: if_cong) (simp add: if_distrib [of "\<lambda>ps. put_all ps _"] pair none single double)
qed

text \<open>The border of a rectangle on the unbounded plane.\<close>

definition border_glyph :: "rect \<Rightarrow> box_style \<Rightarrow> int \<Rightarrow> int \<Rightarrow> u32 option" where
  "border_glyph r style x y =
     (let g = box_glyphs_for style; x0 = rx r; y0 = ry r; x1 = rx r + rw r - 1; y1 = ry r + rh r - 1
      in if rw r \<le> 0 \<or> rh r \<le> 0 \<or> x < x0 \<or> x > x1 \<or> y < y0 \<or> y > y1 then None
         else if x = x0 \<and> y = y0 then Some (bx_tl g)
         else if x = x1 \<and> y = y0 then Some (bx_tr g)
         else if x = x0 \<and> y = y1 then Some (bx_bl g)
         else if x = x1 \<and> y = y1 then Some (bx_br g)
         else if y = y0 \<or> y = y1 then Some (bx_h g)
         else if x = x0 \<or> x = x1 then Some (bx_v g)
         else None)"

lemma last_put_opt:
  "last_put (if b then [(u, v, c)] else []) x y = (if b \<and> u = x \<and> v = y then Some c else None)"
  "last_put [(u, v, c)] x y = (if u = x \<and> v = y then Some c else None)"
  "(case (if b then Some c else None) of None \<Rightarrow> d | Some e \<Rightarrow> Some e) = (if b then Some c else d)"
  by simp_all

lemma last_put_assoc:
  "(case (case a of None \<Rightarrow> b | Some c \<Rightarrow> Some c) of None \<Rightarrow> d | Some e \<Rightarrow> Some e) =
   (case a of None \<Rightarrow> (case b of None \<Rightarrow> d | Some e \<Rightarrow> Some e) | Some c \<Rightarrow> Some c)"
  by (cases a) simp_all

text \<open>Corners over edges: what the puts leave is the border, also for rectangles one cell wide or high.\<close>

lemma border_merge:
  fixes x y :: int
  assumes "x0 \<le> x1" "y0 \<le> y1"
  shows "(if (x1 \<noteq> x0 \<and> y1 \<noteq> y0) \<and> x1 = x \<and> y1 = y then Some br else if y1 \<noteq> y0 \<and> x0 = x \<and> y1 = y then Some bl
      else if x1 \<noteq> x0 \<and> x1 = x \<and> y0 = y then Some tr else if x0 = x \<and> y0 = y then Some tl'
      else if y0 < y \<and> y < y1 \<and> (x = x0 \<or> x = x1) then Some v else if x0 < x \<and> x < x1 \<and> (y = y0 \<or> y = y1) then Some h else None) =
    (if x < x0 \<or> x > x1 \<or> y < y0 \<or> y > y1 then None
      else if x = x0 \<and> y = y0 then Some tl' else if x = x1 \<and> y = y0 then Some tr else if x = x0 \<and> y = y1 then Some bl
      else if x = x1 \<and> y = y1 then Some br else if y = y0 \<or> y = y1 then Some h else if x = x0 \<or> x = x1 then Some v else None)"
  using assms by (cases "x = x0"; cases "x = x1"; cases "y = y0"; cases "y = y1") auto

lemma box_exact:
  assumes ok: "fb_ok fb"
  shows "same_frame fb (fb_box r style fg bg at fb) \<and> (\<forall>x y. fb_contains fb x y \<longrightarrow> at_back (fb_box r style fg bg at fb) x y =
    (case border_glyph r style x y of None \<Rightarrow> at_back fb x y | Some g \<Rightarrow> mk_cell g fg bg at))"
proof (cases "rw r > 0 \<and> rh r > 0 \<and> \<not> fb_empty fb")
  case True
  let ?g = "box_glyphs_for style" and ?x0 = "rx r" and ?y0 = "ry r" and ?x1 = "rx r + rw r - 1" and ?y1 = "ry r + rh r - 1"
  define hs where "hs = concat (map (\<lambda>x. (x, ?y0, mk_cell (bx_h ?g) fg bg at) # (if ?y1 \<noteq> ?y0 then [(x, ?y1, mk_cell (bx_h ?g) fg bg at)] else []))
    [max (?x0 + 1) 0 .. min (?x1 - 1) (fb_w fb - 1)])"
  define vs where "vs = concat (map (\<lambda>y. (?x0, y, mk_cell (bx_v ?g) fg bg at) # (if ?x1 \<noteq> ?x0 then [(?x1, y, mk_cell (bx_v ?g) fg bg at)] else []))
    [max (?y0 + 1) 0 .. min (?y1 - 1) (fb_h fb - 1)])"
  have "last_put (box_puts r style fg bg at fb) x y = map_option (\<lambda>g. mk_cell g fg bg at) (border_glyph r style x y)"
    if c: "fb_contains fb x y" for x y
  proof -
    have "last_put hs x y = (if (x, y, mk_cell (bx_h ?g) fg bg at) \<in> set hs then Some (mk_cell (bx_h ?g) fg bg at) else None)"
      by (rule last_put_same) (auto simp: hs_def split: if_splits)
    moreover have in_h: "(x, y, mk_cell (bx_h ?g) fg bg at) \<in> set hs \<longleftrightarrow> ?x0 < x \<and> x < ?x1 \<and> (y = ?y0 \<or> y = ?y1)"
      using c by (auto simp: hs_def fb_contains_def split: if_splits)
    moreover have "last_put vs x y = (if (x, y, mk_cell (bx_v ?g) fg bg at) \<in> set vs then Some (mk_cell (bx_v ?g) fg bg at) else None)"
      by (rule last_put_same) (auto simp: vs_def split: if_splits)
    moreover have "(x, y, mk_cell (bx_v ?g) fg bg at) \<in> set vs \<longleftrightarrow> ?y0 < y \<and> y < ?y1 \<and> (x = ?x0 \<or> x = ?x1)"
      using c by (auto simp: vs_def fb_contains_def split: if_splits)
    ultimately have edges: "last_put hs x y = (if ?x0 < x \<and> x < ?x1 \<and> (y = ?y0 \<or> y = ?y1) then Some (mk_cell (bx_h ?g) fg bg at) else None)"
      "last_put vs x y = (if ?y0 < y \<and> y < ?y1 \<and> (x = ?x0 \<or> x = ?x1) then Some (mk_cell (bx_v ?g) fg bg at) else None)"
      by simp_all
    have puts: "box_puts r style fg bg at fb = hs @ vs @ [(?x0, ?y0, mk_cell (bx_tl ?g) fg bg at)]
        @ (if ?x1 \<noteq> ?x0 then [(?x1, ?y0, mk_cell (bx_tr ?g) fg bg at)] else [])
        @ (if ?y1 \<noteq> ?y0 then [(?x0, ?y1, mk_cell (bx_bl ?g) fg bg at)] else [])
        @ (if ?x1 \<noteq> ?x0 \<and> ?y1 \<noteq> ?y0 then [(?x1, ?y1, mk_cell (bx_br ?g) fg bg at)] else [])"
      by (simp add: box_puts_def Let_def hs_def vs_def)
    have "last_put (box_puts r style fg bg at fb) x y =
        (if x < ?x0 \<or> x > ?x1 \<or> y < ?y0 \<or> y > ?y1 then None
         else if x = ?x0 \<and> y = ?y0 then Some (mk_cell (bx_tl ?g) fg bg at) else if x = ?x1 \<and> y = ?y0 then Some (mk_cell (bx_tr ?g) fg bg at)
         else if x = ?x0 \<and> y = ?y1 then Some (mk_cell (bx_bl ?g) fg bg at) else if x = ?x1 \<and> y = ?y1 then Some (mk_cell (bx_br ?g) fg bg at)
         else if y = ?y0 \<or> y = ?y1 then Some (mk_cell (bx_h ?g) fg bg at) else if x = ?x0 \<or> x = ?x1 then Some (mk_cell (bx_v ?g) fg bg at) else None)"
      unfolding puts unfolding last_put_append unfolding last_put_assoc unfolding last_put_opt edges using True by (intro border_merge) simp_all
    then show ?thesis
      unfolding border_glyph_def Let_def if_distrib [of "map_option (\<lambda>g. mk_cell g fg bg at)"] option.map
      using True by (simp split del: if_split)
  qed
  then show ?thesis
    using put_all_exact [OF ok, of "box_puts r style fg bg at fb"] box_as_puts [of r fb] True by (auto split: option.splits)
next
  case False
  then have "fb_box r style fg bg at fb = fb" by (simp only: fb_box_def not_less de_Morgan_conj not_not if_True)
  moreover have "border_glyph r style x y = None" if "fb_contains fb x y" for x y
    using False that by (auto simp: border_glyph_def fb_empty_def fb_contains_def)
  ultimately show ?thesis by simp
qed

section \<open>Text\<close>

text \<open>All code points of a text, from byte \<open>i\<close> on.\<close>

function decode_from :: "u8 list \<Rightarrow> nat \<Rightarrow> u32 list" where
  "decode_from s i = (if i < length s then (case utf8_decode s i of (cp, k) \<Rightarrow> cp # decode_from s (i + k)) else [])"
  by pat_completeness auto
termination
proof (relation "measure (\<lambda>(s, i). length s - i)")
qed (auto dest!: utf8_decode_pos)

declare decode_from.simps [simp del]

lemma text_loop_exact:
  "fb_ok fb \<Longrightarrow> 0 \<le> y \<Longrightarrow> y < fb_h fb \<Longrightarrow>
    (let fb' = snd (text_loop s y fg bg at i col written fb); cps = decode_from s i in
     same_frame fb fb' \<and> (\<forall>x y'. fb_contains fb x y' \<longrightarrow> at_back fb' x y' =
       (if y' = y \<and> col \<le> x \<and> nat (x - col) < length cps then mk_cell (cps ! nat (x - col)) fg bg at else at_back fb x y')))"
proof (induction s y fg bg at i col written fb rule: text_loop.induct)
  case (1 s y fg bg at i col written fb)
  show ?case
  proof (cases "i < length s \<and> col < fb_w fb")
    case False
    then have "text_loop s y fg bg at i col written fb = (written, fb)"
      by (simp only: text_loop.simps [of s y fg bg at i col written fb] if_False)
    moreover have "\<not> (col \<le> x \<and> nat (x - col) < length (decode_from s i))" if "fb_contains fb x y'" for x y'
      using that False by (auto simp: fb_contains_def decode_from.simps [of s i])
    ultimately show ?thesis by (auto simp: Let_def)
  next
    case True
    obtain cp k where d: "utf8_decode s i = (cp, k)" by fastforce
    have cps: "decode_from s i = cp # decode_from s (i + k)"
      using True d by (simp add: decode_from.simps [of s i])
    define fb1 where "fb1 = (if col \<ge> 0 then fb\<lparr>fb_back := (fb_back fb)[fb_index fb col y := mk_cell cp fg bg at]\<rparr> else fb)"
    have put: "fb1 = fb_put col y (mk_cell cp fg bg at) fb"
      using True 1(4,5) by (auto simp: fb1_def fb_put_def fb_contains_def)
    have ok1: "fb_ok fb1" "same_frame fb fb1" using same_frame_ok [OF put_frame 1(3)] by (simp_all add: put)
    let ?w = "if col \<ge> 0 then written + 1 else written"
    have loop: "text_loop s y fg bg at i col written fb = text_loop s y fg bg at (i + k) (col + 1) ?w fb1"
      using True d by (simp add: text_loop.simps [of s y fg bg at i col written fb] fb1_def)
    have h: "fb_h fb1 = fb_h fb" using ok1(2) by (simp add: same_frame_def)
    have IH: "same_frame fb1 (snd (text_loop s y fg bg at (i + k) (col + 1) ?w fb1)) \<and> (\<forall>x y'. fb_contains fb1 x y' \<longrightarrow>
        at_back (snd (text_loop s y fg bg at (i + k) (col + 1) ?w fb1)) x y' =
        (if y' = y \<and> col + 1 \<le> x \<and> nat (x - (col + 1)) < length (decode_from s (i + k))
         then mk_cell (decode_from s (i + k) ! nat (x - (col + 1))) fg bg at else at_back fb1 x y'))"
    proof (cases "col \<ge> 0")
      case c: True
      then show ?thesis
        using 1(1) [OF True d [symmetric] c] 1(3-5) ok1 h by (simp add: fb1_def Let_def)
    next
      case c: False
      then show ?thesis
        using 1(2) [OF True d [symmetric] c] 1(3-5) ok1 h by (simp add: fb1_def Let_def)
    qed
    have bk: "at_back fb1 x y' = (if x = col \<and> y' = y then mk_cell cp fg bg at else at_back fb x y')" if "fb_contains fb x y'" for x y'
      using at_back_put [OF 1(3) that, of col y] by (auto simp: put)
    show ?thesis
      unfolding Let_def loop
    proof (intro conjI allI impI)
      show "same_frame fb (snd (text_loop s y fg bg at (i + k) (col + 1) ?w fb1))"
        using IH same_frame_trans [OF ok1(2)] by blast
      fix x y' assume c: "fb_contains fb x y'"
      then have c1: "fb_contains fb1 x y'" using same_frame_index(2) [OF ok1(2)] by simp
      have shift: "nat (x - col) = Suc (nat (x - (col + 1)))" if "col < x" using that by simp
      show "at_back (snd (text_loop s y fg bg at (i + k) (col + 1) ?w fb1)) x y' =
          (if y' = y \<and> col \<le> x \<and> nat (x - col) < length (decode_from s i) then mk_cell (decode_from s i ! nat (x - col)) fg bg at else at_back fb x y')"
        using IH c1 bk [OF c] shift by (cases "x = col"; cases "col < x") (auto simp: cps)
    qed
  qed
qed

text \<open>The operations a frame is drawn with, and the picture each paints on the unbounded plane.\<close>

datatype draw_op = DClear cell | DPut int int cell | DText int int "u8 list" u32 u32 u8 | DFill rect cell |
  DHline int int int u32 u32 u32 u8 | DVline int int int u32 u32 u32 u8 | DBox rect box_style u32 u32 u8

fun run_draw :: "draw_op \<Rightarrow> framebuffer \<Rightarrow> framebuffer" where
  "run_draw (DClear c) fb = fb_clear c fb"
| "run_draw (DPut x y c) fb = fb_put x y c fb"
| "run_draw (DText x y s fg bg at) fb = snd (fb_text x y s fg bg at fb)"
| "run_draw (DFill r c) fb = fb_fill r c fb"
| "run_draw (DHline x y len g fg bg at) fb = fb_hline x y len g fg bg at fb"
| "run_draw (DVline x y len g fg bg at) fb = fb_vline x y len g fg bg at fb"
| "run_draw (DBox r st fg bg at) fb = fb_box r st fg bg at fb"

definition in_rect :: "rect \<Rightarrow> int \<Rightarrow> int \<Rightarrow> bool" where
  "in_rect r x y \<longleftrightarrow> rx r \<le> x \<and> x < rx r + rw r \<and> ry r \<le> y \<and> y < ry r + rh r"

fun paint :: "draw_op \<Rightarrow> int \<Rightarrow> int \<Rightarrow> cell option" where
  "paint (DClear c) x y = Some c"
| "paint (DPut a b c) x y = (if a = x \<and> b = y then Some c else None)"
| "paint (DText a b s fg bg at) x y = (let cps = decode_from s 0 in
     if y = b \<and> a \<le> x \<and> nat (x - a) < length cps then Some (mk_cell (cps ! nat (x - a)) fg bg at) else None)"
| "paint (DFill r c) x y = (if in_rect r x y then Some c else None)"
| "paint (DHline a b len g fg bg at) x y = (if y = b \<and> a \<le> x \<and> x < a + len then Some (mk_cell g fg bg at) else None)"
| "paint (DVline a b len g fg bg at) x y = (if x = a \<and> b \<le> y \<and> y < b + len then Some (mk_cell g fg bg at) else None)"
| "paint (DBox r st fg bg at) x y = map_option (\<lambda>g. mk_cell g fg bg at) (border_glyph r st x y)"

definition painted :: "draw_op list \<Rightarrow> int \<Rightarrow> int \<Rightarrow> cell \<Rightarrow> cell" where
  "painted ops x y c = fold (\<lambda>op c. case paint op x y of None \<Rightarrow> c | Some c' \<Rightarrow> c') ops c"

lemma run_draw_exact:
  assumes ok: "fb_ok fb"
  shows "same_frame fb (run_draw op fb) \<and> (\<forall>x y. fb_contains fb x y \<longrightarrow>
    at_back (run_draw op fb) x y = (case paint op x y of None \<Rightarrow> at_back fb x y | Some c \<Rightarrow> c))"
proof (cases op)
  case (DClear c)
  then show ?thesis
    using index_in_range [OF ok] by (auto simp: fb_clear_def same_frame_def at_back_def fb_index_def)
next
  case (DPut a b c)
  then show ?thesis using at_back_put [OF ok] by auto
next
  case (DText a b s fg bg at)
  show ?thesis
  proof (cases "b < 0 \<or> b \<ge> fb_h fb \<or> fb_w fb \<le> 0")
    case True
    then show ?thesis using DText by (auto simp: fb_text_def fb_contains_def Let_def)
  next
    case False
    then show ?thesis
      using text_loop_exact [OF ok, of b s fg bg at 0 a 0] DText by (auto simp: fb_text_def Let_def)
  qed
next
  case (DFill r c)
  then show ?thesis using fill_exact [OF ok] by (auto simp: in_rect_def)
next
  case (DHline a b len g fg bg at)
  then show ?thesis using fill_exact [OF ok, of "mk_rect a b len 1"] by (auto simp: fb_hline_def mk_rect_def)
next
  case (DVline a b len g fg bg at)
  then show ?thesis using fill_exact [OF ok, of "mk_rect a b 1 len"] by (auto simp: fb_vline_def mk_rect_def)
next
  case (DBox r st fg bg at)
  then show ?thesis using box_exact [OF ok] by (auto split: option.splits)
qed

text \<open>
  Drawing is the picture cut to the grid: after any sequence of drawing operations, with any coordinates,
  the size and the front buffer are unchanged and every cell of the back buffer holds what the last
  operation that covers it on the unbounded plane painted there, or what it held before.
\<close>

theorem drawing_is_clipped:
  assumes "fb_ok fb"
  shows "same_frame fb (fold run_draw ops fb) \<and>
    (\<forall>x y. fb_contains fb x y \<longrightarrow> at_back (fold run_draw ops fb) x y = painted ops x y (at_back fb x y))"
  using assms
proof (induction ops arbitrary: fb)
  case (Cons op ops)
  note D = run_draw_exact [OF Cons.prems, of op]
  then show ?case
    using Cons.IH [OF same_frame_ok [of fb "run_draw op fb"]] Cons.prems same_frame_trans same_frame_index(2) [of fb "run_draw op fb"]
    by (auto simp: painted_def)
qed (simp add: painted_def)

text \<open>A 4 by 3 grid: a box hanging over the right edge, a title starting left of the grid, a dot outside.\<close>

theorem drawing_is_clipped_witness:
  "let fb = snd (fb_resize 4 3 framebuffer_new);
       ops = [DBox (mk_rect 1 0 6 3) BoxLight 7 0 0, DText (- 1) 1 [0x41, 0xC3, 0xA9] 7 0 0, DPut 4 0 empty_cell];
       fb' = fold run_draw ops fb
   in same_frame fb fb' \<and> at_back fb' 1 0 = mk_cell 0x250C 7 0 0 \<and> at_back fb' 3 0 = mk_cell 0x2500 7 0 0 \<and>
      at_back fb' 0 1 = mk_cell 0xE9 7 0 0 \<and> at_back fb' 1 1 = mk_cell 0x2502 7 0 0 \<and> at_back fb' 2 1 = empty_cell"
proof -
  let ?fb = "snd (fb_resize 4 3 framebuffer_new)"
  let ?ops = "[DBox (mk_rect 1 0 6 3) BoxLight 7 0 0, DText (- 1) 1 [0x41, 0xC3, 0xA9] 7 0 0, DPut 4 0 empty_cell]"
  have ok: "fb_ok ?fb" by (simp add: fb_resize_def framebuffer_new_def kMaxCells_def fb_ok_def)
  have inside: "fb_contains ?fb 1 0" "fb_contains ?fb 3 0" "fb_contains ?fb 0 1" "fb_contains ?fb 1 1" "fb_contains ?fb 2 1"
    by (simp_all add: fb_resize_def kMaxCells_def fb_contains_def)
  have cps: "decode_from [0x41, 0xC3, 0xA9] 0 = [0x41, 0xE9]" by code_simp
  have old: "at_back ?fb 2 1 = empty_cell" by (simp add: fb_resize_def kMaxCells_def at_back_def fb_index_def)
  show ?thesis
    using drawing_is_clipped [OF ok, of ?ops] inside
    by (simp add: Let_def painted_def cps old border_glyph_def mk_rect_def)
qed

end
