(* ===== verification/Utf8.thy ===== *)
theory Utf8
  imports Framebuffer
begin

text \<open>
  Encoding of code points (\<^verbatim>\<open>utf8_encode\<close> of \<^verbatim>\<open>src/tui/renderer.cpp\<close>) against the table of RFC 3629, and the round trip
  with the decoder of \<^verbatim>\<open>framebuffer.cpp\<close>.
\<close>

definition is_scalar :: "u32 \<Rightarrow> bool" where
  "is_scalar cp \<longleftrightarrow> \<not> (cp > 0x10FFFF \<or> (cp \<ge> 0xD800 \<and> cp \<le> 0xDFFF))"

definition utf8_encode :: "u32 \<Rightarrow> u8 list" where
  "utf8_encode cp0 =
     (let cp = (if cp0 > 0x10FFFF \<or> (cp0 \<ge> 0xD800 \<and> cp0 \<le> 0xDFFF) then kReplacement else cp0) in
      if cp < 0x80 then [ucast cp]
      else if cp < 0x800 then [ucast (0xC0 OR drop_bit 6 cp), ucast (0x80 OR (cp AND 0x3F))]
      else if cp < 0x10000 then [ucast (0xE0 OR drop_bit 12 cp), ucast (0x80 OR (drop_bit 6 cp AND 0x3F)), ucast (0x80 OR (cp AND 0x3F))]
      else [ucast (0xF0 OR drop_bit 18 cp), ucast (0x80 OR (drop_bit 12 cp AND 0x3F)), ucast (0x80 OR (drop_bit 6 cp AND 0x3F)), ucast (0x80 OR (cp AND 0x3F))])"

section \<open>RFC 3629\<close>

definition rfc3629 :: "nat \<Rightarrow> nat list" where
  "rfc3629 n =
     (if n < 0x80 then [n]
      else if n < 0x800 then [192 + n div 64, 128 + n mod 64]
      else if n < 0x10000 then [224 + n div 4096, 128 + n div 64 mod 64, 128 + n mod 64]
      else [240 + n div 262144, 128 + n div 4096 mod 64, 128 + n div 64 mod 64, 128 + n mod 64])"

lemma div_mod_decomp_split3: "n div 4096 * 4096 + (n div 64 mod 64 * 64 + n mod 64) = (n :: nat)"
proof -
  have "n div 4096 = n div 64 div 64" by (simp add: div_mult2_eq [symmetric])
  then have "n div 4096 * 64 + n div 64 mod 64 = n div 64" by simp
  then have "(n div 4096 * 64 + n div 64 mod 64) * 64 + n mod 64 = n" by simp
  then show ?thesis by (simp add: algebra_simps)
qed

lemma div_mod_decomp_split4: "n div 262144 * 262144 + (n div 4096 mod 64 * 4096 + (n div 64 mod 64 * 64 + n mod 64)) = (n :: nat)"
proof -
  have "n div 262144 = n div 4096 div 64" by (simp add: div_mult2_eq [symmetric])
  then have "n div 262144 * 64 + n div 4096 mod 64 = n div 4096" by simp
  then have "n div 262144 * 262144 + n div 4096 mod 64 * 4096 = n div 4096 * 4096" by simp
  then show ?thesis using div_mod_decomp_split3 [of n] by simp
qed

text \<open>A bitwise or of disjoint fields is a sum.\<close>

lemma or_field: "x < 2 ^ k \<Longrightarrow> (y * 2 ^ k) OR x = y * 2 ^ k + (x :: nat)"
proof -
  assume x: "x < 2 ^ k"
  have "(y * 2 ^ k) AND x = 0"
  proof (rule bit_eqI)
    fix n
    show "bit (y * 2 ^ k AND x) n = bit 0 n"
    proof (cases "n < k")
      case True
      then have "\<not> bit (y * 2 ^ k) n" using bit_push_bit_iff_nat [of k y n] by (simp add: push_bit_eq_mult)
      then show ?thesis by (simp add: bit_and_iff)
    next
      case False
      then have "x < 2 ^ n" using x by (meson less_le_trans not_less one_le_numeral power_increasing)
      then have "\<not> bit x n" by (simp add: bit_nat_div)
      then show ?thesis by (simp add: bit_and_iff)
    qed
  qed
  then show ?thesis using disjunctive_add_eq_or [of "y * 2 ^ k" x] by simp
qed

lemma unat_or_field:
  assumes "unat c = y * 2 ^ k" "unat x < 2 ^ k"
  shows "unat (c OR x) = y * 2 ^ k + unat (x :: 'a::len word)"
  using or_field [OF assms(2), of y] assms(1) by (simp add: unsigned_or_eq)

lemma unat_and_3F: "unat (w AND 0x3F :: 'a::len word) = unat w mod 64" if "6 < LENGTH('a)"
  using unat_and_mask [of w 6] by simp

lemma unat_ucast8: "unat w < 256 \<Longrightarrow> unat (ucast (w :: u32) :: u8) = unat w"
  by (simp add: unsigned_ucast_eq take_bit_eq_mod)

lemma unat_tail: "unat (ucast (0x80 OR (drop_bit k (cp :: u32) AND 0x3F)) :: u8) = 128 + unat cp div 2 ^ k mod 64"
proof -
  have f: "unat (drop_bit k cp AND 0x3F) = unat cp div 2 ^ k mod 64"
    by (simp add: unat_and_3F unat_drop_bit_div)
  then have "unat (0x80 OR (drop_bit k cp AND 0x3F)) = 2 * 2 ^ 6 + unat (drop_bit k cp AND 0x3F)"
    by (intro unat_or_field) simp_all
  then show ?thesis using f by (subst unat_ucast8) simp_all
qed

lemma unat_tail0: "unat (ucast (0x80 OR ((cp :: u32) AND 0x3F)) :: u8) = 128 + unat cp mod 64"
  using unat_tail [of 0 cp] by simp

lemma unat_lead:
  assumes "unat (c :: u32) = y * 2 ^ m" "unat cp div 2 ^ k < 2 ^ m" "y * 2 ^ m + unat cp div 2 ^ k < 256"
  shows "unat (ucast (c OR drop_bit k (cp :: u32)) :: u8) = unat c + unat cp div 2 ^ k"
proof -
  have "unat (c OR drop_bit k cp) = y * 2 ^ m + unat (drop_bit k cp)"
    using assms by (intro unat_or_field) (simp_all add: unat_drop_bit_div)
  then show ?thesis using assms by (subst unat_ucast8) (simp_all add: unat_drop_bit_div)
qed

lemma encode_rfc3629:
  assumes "is_scalar cp"
  shows "map unat (utf8_encode cp) = rfc3629 (unat cp)"
proof -
  let ?n = "unat cp"
  have top: "?n \<le> 0x10FFFF" using assms by (simp add: is_scalar_def word_le_nat_alt not_less)
  have id: "(if cp > 0x10FFFF \<or> (cp \<ge> 0xD800 \<and> cp \<le> 0xDFFF) then kReplacement else cp) = cp"
    using assms by (auto simp: is_scalar_def)
  have lt: "cp < 0x80 \<longleftrightarrow> ?n < 0x80" "cp < 0x800 \<longleftrightarrow> ?n < 0x800" "cp < 0x10000 \<longleftrightarrow> ?n < 0x10000"
    by (simp_all add: word_less_nat_alt)
  have l2: "unat (ucast (0xC0 OR drop_bit 6 cp) :: u8) = 192 + ?n div 64" if "?n < 0x800"
    using unat_lead [of "0xC0" 6 5 cp 6] that by simp
  have l3: "unat (ucast (0xE0 OR drop_bit 12 cp) :: u8) = 224 + ?n div 4096" if "?n < 0x10000"
    using unat_lead [of "0xE0" 14 4 cp 12] that by simp
  have l4: "unat (ucast (0xF0 OR drop_bit 18 cp) :: u8) = 240 + ?n div 262144"
    using unat_lead [of "0xF0" 30 3 cp 18] top by simp
  show ?thesis
    unfolding utf8_encode_def id Let_def lt rfc3629_def
    by (simp add: unat_ucast8 l2 l3 l4 unat_tail unat_tail0 unat_drop_bit_div)
qed


section \<open>Round trip\<close>

lemma tail_bits: "128 \<le> unat b \<Longrightarrow> unat b < 192 \<Longrightarrow> (b AND 0xC0 :: u8) = 0x80"
proof -
  assume b: "128 \<le> unat b" "unat b < 192"
  have "list_all (\<lambda>n. (word_of_nat n AND 0xC0 :: u8) = 0x80) [128..<192]" by code_simp
  then have "(word_of_nat (unat b) AND 0xC0 :: u8) = 0x80" using b by (simp only: list_all_iff set_upt atLeastLessThan_iff)
  then show ?thesis by simp
qed

lemma cont_byteI: "j < length s \<Longrightarrow> unat (s ! j) = 128 + m \<Longrightarrow> m < 64 \<Longrightarrow> cont_byte s j"
  by (simp add: cont_byte_def tail_bits)

lemma unat_cont_bits: "unat (s ! j) = 128 + m \<Longrightarrow> m < 64 \<Longrightarrow> unat (cont_bits s j) = m"
  using mod_mult_self3 [of 2 64 m] by (simp add: cont_bits_def unat_and_3F unsigned_ucast_eq take_bit_eq_mod)

lemma unat_push: "unat (push_bit k (w :: u32)) = unat w * 2 ^ k" if "unat w * 2 ^ k < 2 ^ 32"
proof -
  have "unat (push_bit k w) = take_bit 32 (push_bit k (unat w))" by (subst unsigned_push_bit_eq) simp
  then show ?thesis using that by (simp only: push_bit_eq_mult take_bit_eq_mod) simp
qed

lemma unat_push12: "unat (w :: u32) < 64 \<Longrightarrow> unat (push_bit 12 w) = unat w * 4096"
  using unat_push [of w 12] by simp

lemma fields_small: "a mod 64 * 64 + b mod 64 < (4096 :: nat)" "c mod 64 * 4096 + (a mod 64 * 64 + b mod 64) < (262144 :: nat)"
proof -
  have "a mod 64 < 64" "b mod 64 < 64" "c mod 64 < 64" by simp_all
  then show "a mod 64 * 64 + b mod 64 < (4096 :: nat)" "c mod 64 * 4096 + (a mod 64 * 64 + b mod 64) < (262144 :: nat)" by linarith+
qed

lemma unat_lead_bits:
  "unat (ucast (b AND 0x1F :: u8) :: u32) = unat b mod 32" "unat (ucast (b AND 0x0F :: u8) :: u32) = unat b mod 16"
  "unat (ucast (b AND 0x07 :: u8) :: u32) = unat b mod 8"
  using unat_and_mask [of b 5] unat_and_mask [of b 4] unat_and_mask [of b 3] by (simp_all add: unsigned_ucast_eq take_bit_eq_mod)

lemma lt_unat: "(b :: u8) < 0x80 \<longleftrightarrow> unat b < 128" "b < 0xC2 \<longleftrightarrow> unat b < 194" "b > 0xF4 \<longleftrightarrow> unat b > 244" "b < 0xE0 \<longleftrightarrow> unat b < 224" "b < 0xF0 \<longleftrightarrow> unat b < 240"
  by (simp_all add: word_less_nat_alt)

text \<open>The three multi-byte forms, on the values of their bytes.\<close>

lemma decode2:
  assumes "i + 1 < length s" "unat (s ! i) = 192 + unat cp div 64" "unat (s ! (i + 1)) = 128 + unat cp mod 64" "0x80 \<le> unat cp" "unat cp < 0x800"
  shows "utf8_decode s i = (cp, 2)"
proof -
  have tail: "cont_byte s (i + 1)" "unat (cont_bits s (i + 1)) = unat cp mod 64"
    using assms by (auto intro: cont_byteI simp: unat_cont_bits)
  have lead: "unat (ucast (s ! i AND 0x1F) :: u32) = unat cp div 64"
    using assms(2,5) mod_mult_self3 [of 6 32 "unat cp div 64"] by (simp add: unat_lead_bits)
  have "unat (push_bit 6 (ucast (s ! i AND 0x1F)) OR cont_bits s (i + 1)) = unat cp div 64 * 2 ^ 6 + unat (cont_bits s (i + 1))"
    using assms lead tail by (intro unat_or_field) (simp_all add: unat_push)
  then have "push_bit 6 (ucast (s ! i AND 0x1F)) OR cont_bits s (i + 1) = cp"
    using tail by (intro word_unat_eqI) simp
  moreover have "192 + unat cp div 64 < 224" "194 \<le> 192 + unat cp div 64" using assms(4,5) by simp_all
  ultimately show ?thesis
    using assms tail(1) by (simp add: utf8_decode_def Let_def lt_unat)
qed

lemma decode3:
  assumes "i + 2 < length s" "unat (s ! i) = 224 + unat cp div 4096" "unat (s ! (i + 1)) = 128 + unat cp div 64 mod 64" "unat (s ! (i + 2)) = 128 + unat cp mod 64"
    and "0x800 \<le> unat cp" "unat cp < 0x10000" "is_scalar cp"
  shows "utf8_decode s i = (cp, 3)"
proof -
  have tail: "cont_byte s (i + 1)" "unat (cont_bits s (i + 1)) = unat cp div 64 mod 64" "cont_byte s (i + 2)" "unat (cont_bits s (i + 2)) = unat cp mod 64"
    using assms by (auto intro: cont_byteI simp: unat_cont_bits)
  have lead: "unat (ucast (s ! i AND 0x0F) :: u32) = unat cp div 4096"
    using assms(2,6) mod_mult_self3 [of 14 16 "unat cp div 4096"] by (simp add: unat_lead_bits)
  have low: "unat (push_bit 6 (cont_bits s (i + 1)) OR cont_bits s (i + 2)) = unat cp div 64 mod 64 * 2 ^ 6 + unat (cont_bits s (i + 2))"
    using tail by (intro unat_or_field) (simp_all add: unat_push)
  have high: "unat (push_bit 12 (ucast (s ! i AND 0x0F) :: u32)) = unat cp div 4096 * 4096"
    using assms(6) lead by (subst unat_push12) (simp_all add: less_mult_imp_div_less)
  have split: "unat cp div 4096 * 4096 + (unat cp div 64 mod 64 * 64 + unat cp mod 64) = unat cp"
    by (rule div_mod_decomp_split3)
  have "unat (push_bit 12 (ucast (s ! i AND 0x0F)) OR (push_bit 6 (cont_bits s (i + 1)) OR cont_bits s (i + 2))) =
      unat cp div 4096 * 2 ^ 12 + unat (push_bit 6 (cont_bits s (i + 1)) OR cont_bits s (i + 2))"
    using high low tail by (intro unat_or_field) (simp_all add: fields_small)
  then have v: "push_bit 12 (ucast (s ! i AND 0x0F)) OR push_bit 6 (cont_bits s (i + 1)) OR cont_bits s (i + 2) = cp"
    using tail low split by (intro word_unat_eqI) (simp add: or.assoc)
  have "224 + unat cp div 4096 < 240" "224 \<le> 224 + unat cp div 4096" using assms(6) by simp_all
  moreover have "\<not> (cp < 0x800 \<or> (cp \<ge> 0xD800 \<and> cp \<le> 0xDFFF))"
    using assms(5,7) by (auto simp: is_scalar_def word_less_nat_alt)
  ultimately show ?thesis
    using assms(1,2) tail(1,3) v by (simp add: utf8_decode_def Let_def lt_unat)
qed

lemma decode4:
  assumes "i + 3 < length s" "unat (s ! i) = 240 + unat cp div 262144" "unat (s ! (i + 1)) = 128 + unat cp div 4096 mod 64"
    and "unat (s ! (i + 2)) = 128 + unat cp div 64 mod 64" "unat (s ! (i + 3)) = 128 + unat cp mod 64"
    and "0x10000 \<le> unat cp" "unat cp \<le> 0x10FFFF"
  shows "utf8_decode s i = (cp, 4)"
proof -
  have tail: "cont_byte s (i + 1)" "unat (cont_bits s (i + 1)) = unat cp div 4096 mod 64" "cont_byte s (i + 2)" "unat (cont_bits s (i + 2)) = unat cp div 64 mod 64"
    "cont_byte s (i + 3)" "unat (cont_bits s (i + 3)) = unat cp mod 64"
    using assms by (auto intro: cont_byteI simp: unat_cont_bits)
  have lead: "unat (ucast (s ! i AND 0x07) :: u32) = unat cp div 262144"
    using assms(2,7) mod_mult_self3 [of 30 8 "unat cp div 262144"] by (simp add: unat_lead_bits)
  have "unat cp div 262144 < 5" using assms(7) by (simp add: less_mult_imp_div_less)
  then have high: "unat (push_bit 18 (ucast (s ! i AND 0x07) :: u32)) = unat cp div 262144 * 262144"
    using unat_push [of "ucast (s ! i AND 0x07)" 18] lead by simp
  let ?low = "push_bit 6 (cont_bits s (i + 2)) OR cont_bits s (i + 3)"
  have low: "unat ?low = unat cp div 64 mod 64 * 2 ^ 6 + unat cp mod 64"
    using tail unat_or_field [of "push_bit 6 (cont_bits s (i + 2))" "unat cp div 64 mod 64" 6 "cont_bits s (i + 3)"] by (simp add: unat_push)
  let ?mid = "push_bit 12 (cont_bits s (i + 1)) OR ?low"
  have mid: "unat ?mid = unat cp div 4096 mod 64 * 2 ^ 12 + unat ?low"
    using tail low unat_push12 [of "cont_bits s (i + 1)"] by (intro unat_or_field) (simp_all add: fields_small)
  have "unat (push_bit 18 (ucast (s ! i AND 0x07)) OR ?mid) = unat cp div 262144 * 2 ^ 18 + unat ?mid"
    using high low mid tail by (intro unat_or_field) (simp_all add: fields_small)
  then have v: "push_bit 18 (ucast (s ! i AND 0x07)) OR push_bit 12 (cont_bits s (i + 1)) OR push_bit 6 (cont_bits s (i + 2)) OR cont_bits s (i + 3) = cp"
    using low mid div_mod_decomp_split4 [of "unat cp"] by (intro word_unat_eqI) (simp add: or.assoc)
  have "\<not> 240 + unat cp div 262144 < 240" "240 + unat cp div 262144 \<le> 244" using assms(7) by simp_all
  moreover have "\<not> (cp < 0x10000 \<or> cp > 0x10FFFF)"
    using assms(6,7) by (simp add: word_less_nat_alt)
  ultimately show ?thesis
    using assms(1,2) tail(1,3,5) v by (simp add: utf8_decode_def Let_def lt_unat)
qed

text \<open>One decoding step in front of the bytes of a scalar value.\<close>

lemma decode_step:
  assumes sc: "is_scalar cp" and s: "map unat (take (length (rfc3629 (unat cp))) (drop i s)) = rfc3629 (unat cp)"
  shows "utf8_decode s i = (cp, length (rfc3629 (unat cp)))"
proof -
  let ?n = "unat cp"
  have top: "?n \<le> 0x10FFFF" using sc by (simp add: is_scalar_def word_le_nat_alt not_less)
  have len: "i + length (rfc3629 ?n) \<le> length s" "i < length s"
  proof -
    have "length (rfc3629 ?n) = min (length (rfc3629 ?n)) (length s - i)" using arg_cong [OF s, of length] by simp
    moreover have "0 < length (rfc3629 ?n)" by (simp add: rfc3629_def)
    ultimately show "i + length (rfc3629 ?n) \<le> length s" "i < length s" by linarith+
  qed
  have at: "unat (s ! (i + j)) = rfc3629 ?n ! j" if "j < length (rfc3629 ?n)" for j
  proof -
    have "rfc3629 ?n ! j = map unat (take (length (rfc3629 ?n)) (drop i s)) ! j" by (simp only: s)
    then show ?thesis using that len by simp
  qed
  have b0: "unat (s ! i) = rfc3629 ?n ! 0" using at [of 0] by (simp add: rfc3629_def)
  show ?thesis
  proof (cases "?n < 0x800")
    case two: True
    show ?thesis
    proof (cases "?n < 0x80")
      case True
      then have "ucast (s ! i) = cp" using b0 by (intro word_unat_eqI) (simp add: rfc3629_def unsigned_ucast_eq take_bit_eq_mod)
      then show ?thesis using True b0 len by (simp add: utf8_decode_def Let_def lt_unat rfc3629_def)
    next
      case False
      then show ?thesis using two b0 at [of 1] len decode2 [of i s cp] by (simp add: rfc3629_def)
    qed
  next
    case False
    show ?thesis
    proof (cases "?n < 0x10000")
      case True
      then show ?thesis using False b0 at [of 1] at [of 2] len sc decode3 [of i s cp] by (simp add: rfc3629_def)
    next
      case four: False
      then show ?thesis using False b0 at [of 1] at [of 2] at [of 3] len top decode4 [of i s cp] by (simp add: rfc3629_def numeral_3_eq_3)
    qed
  qed
qed

definition scalar_or_replacement :: "u32 \<Rightarrow> u32" where
  "scalar_or_replacement cp = (if is_scalar cp then cp else kReplacement)"

lemma encode_scalar: "is_scalar (scalar_or_replacement cp)" "utf8_encode (scalar_or_replacement cp) = utf8_encode cp"
  by (auto simp: scalar_or_replacement_def is_scalar_def kReplacement_def utf8_encode_def Let_def)

lemma length_encode: "length (utf8_encode cp) = length (rfc3629 (unat (scalar_or_replacement cp)))"
  using arg_cong [OF encode_rfc3629 [OF encode_scalar(1) [of cp]], of length] by (simp add: encode_scalar(2))

lemma length_encode_le: "length (utf8_encode cp) \<le> 4"
  by (simp add: length_encode rfc3629_def)

lemma decode_from_encoded:
  "decode_from (pre @ concat (map utf8_encode cps)) (length pre) = map scalar_or_replacement cps"
proof (induction cps arbitrary: pre)
  case Nil
  then show ?case by (simp add: decode_from.simps)
next
  case (Cons cp cps)
  let ?c = "scalar_or_replacement cp" and ?s = "pre @ concat (map utf8_encode (cp # cps))"
  have "map unat (take (length (rfc3629 (unat ?c))) (drop (length pre) ?s)) = rfc3629 (unat ?c)"
    using encode_rfc3629 [OF encode_scalar(1) [of cp]] by (simp add: length_encode [symmetric] encode_scalar(2))
  then have d: "utf8_decode ?s (length pre) = (?c, length (utf8_encode cp))"
    using decode_step [OF encode_scalar(1)] by (simp only: length_encode)
  have "length pre < length ?s" by (simp add: length_encode) (simp add: rfc3629_def)
  then have "decode_from ?s (length pre) = ?c # decode_from ?s (length pre + length (utf8_encode cp))"
    by (simp add: decode_from.simps [of ?s "length pre"] d del: map_append concat.simps list.map)
  then show ?case using Cons.IH [of "pre @ utf8_encode cp"] by simp
qed

text \<open>
  (C25) Encoding and decoding text are inverse: the bytes the renderer's encoder produces for any sequence of 32-bit code
  points follow RFC 3629, and the framebuffer's decoder reads from them that sequence again, with surrogates
  and values above U+10FFFF replaced by U+FFFD.
\<close>

theorem utf8_roundtrip:
  "map unat (utf8_encode cp) = rfc3629 (unat (scalar_or_replacement cp)) \<and>
   decode_from (concat (map utf8_encode cps)) 0 = map scalar_or_replacement cps"
  using encode_rfc3629 [OF encode_scalar(1) [of cp]] decode_from_encoded [of "[]" cps] by (simp add: encode_scalar(2))

end
