(* ===== verification/Capabilities.thy ===== *)
theory Capabilities
  imports Framebuffer Text_Format
begin

text \<open>
  What the terminal can show, from \<^verbatim>\<open>src/tui/capabilities.h\<close> and \<^verbatim>\<open>capabilities.cpp\<close>: colour depth from the
  environment, the glyph vocabulary, and the two quantisers, which are shown to pick a nearest palette entry.
\<close>

section \<open>Detection\<close>

datatype color_mode = TrueColor | Cube256 | Ansi16

record capabilities =
  cap_color :: color_mode
  cap_unicode :: bool

record glyph_set =
  gs_full :: u32
  gs_dark :: u32
  gs_medium :: u32
  gs_light :: u32
  gs_half :: u32
  gs_box :: box_style

fun color_mode_str :: "color_mode \<Rightarrow> string" where
  "color_mode_str TrueColor = ''truecolor (24-bit)''"
| "color_mode_str Cube256 = ''256-colour''"
| "color_mode_str Ansi16 = ''16-colour''"

text \<open>A C string that may be a null pointer is a \<open>string option\<close>.\<close>

definition str_eq :: "string option \<Rightarrow> string \<Rightarrow> bool" where
  "str_eq a b \<longleftrightarrow> a = Some b"

fun strstr :: "string \<Rightarrow> string \<Rightarrow> bool" where
  "strstr [] needle \<longleftrightarrow> needle = []"
| "strstr (c # hay) needle \<longleftrightarrow> take (length needle) (c # hay) = needle \<or> strstr hay needle"

definition contains :: "string option \<Rightarrow> string \<Rightarrow> bool" where
  "contains hay needle \<longleftrightarrow> (case hay of None \<Rightarrow> False | Some s \<Rightarrow> strstr s needle)"

definition is_known_8_colour :: "string option \<Rightarrow> bool" where
  "is_known_8_colour t \<longleftrightarrow> list_ex (str_eq t) [''linux'', ''ansi'', ''vt100'', ''vt102'', ''vt220'', ''cons25'', ''screen.linux'']"

definition detect_capabilities :: "string option \<Rightarrow> string option \<Rightarrow> bool \<Rightarrow> capabilities" where
  "detect_capabilities colorterm trm force_ascii =
     \<lparr>cap_color =
        (if str_eq colorterm ''truecolor'' \<or> str_eq colorterm ''24bit'' then TrueColor
         else if trm = None \<or> trm = Some [] \<or> str_eq trm ''dumb'' then Ansi16
         else if contains trm ''direct'' then TrueColor
         else if contains trm ''16color'' \<or> is_known_8_colour trm then Ansi16
         else Cube256),
      cap_unicode = (\<not> force_ascii)\<rparr>"

definition detect_capabilities_from_env :: "(string \<Rightarrow> string option) \<Rightarrow> bool \<Rightarrow> capabilities" where
  "detect_capabilities_from_env env force_ascii = detect_capabilities (env ''COLORTERM'') (env ''TERM'') force_ascii"

definition glyphs_for :: "capabilities \<Rightarrow> glyph_set" where
  "glyphs_for caps =
     (if cap_unicode caps
      then \<lparr>gs_full = 0x2588, gs_dark = 0x2593, gs_medium = 0x2592, gs_light = 0x2591, gs_half = 0x2580, gs_box = BoxRounded\<rparr>
      else \<lparr>gs_full = 0x23, gs_dark = 0x4F, gs_medium = 0x3D, gs_light = 0x2E, gs_half = 0x23, gs_box = BoxAscii\<rparr>)"

definition glyph_is_single_width :: "u32 \<Rightarrow> bool" where
  "glyph_is_single_width g \<longleftrightarrow> (g \<ge> 0x20 \<and> g \<le> 0x7E) \<or>
     g \<in> set [0x2591, 0x2592, 0x2593, 0x2588, 0x2580,
       0x2500, 0x2502, 0x250C, 0x2510, 0x2514, 0x2518,
       0x251C, 0x2524, 0x252C, 0x2534, 0x253C,
       0x2501, 0x2503, 0x250F, 0x2513, 0x2517, 0x251B,
       0x256D, 0x256E, 0x2570, 0x256F]"

definition kMinUsableWidth :: int where "kMinUsableWidth = 80"
definition kMinUsableHeight :: int where "kMinUsableHeight = 24"

definition size_is_usable :: "int \<Rightarrow> int \<Rightarrow> bool" where
  "size_is_usable w h \<longleftrightarrow> w \<ge> kMinUsableWidth \<and> h \<ge> kMinUsableHeight"

section \<open>Quantisers\<close>

definition rgb_r :: "u32 \<Rightarrow> int" where "rgb_r c = uint (drop_bit 16 c AND 0xFF)"
definition rgb_g :: "u32 \<Rightarrow> int" where "rgb_g c = uint (drop_bit 8 c AND 0xFF)"
definition rgb_b :: "u32 \<Rightarrow> int" where "rgb_b c = uint (c AND 0xFF)"

definition kCubeLevels :: "int list" where
  "kCubeLevels = [0, 95, 135, 175, 215, 255]"

definition level_gap :: "int \<Rightarrow> nat \<Rightarrow> int" where
  "level_gap v i = (if kCubeLevels ! i > v then kCubeLevels ! i - v else v - kCubeLevels ! i)"

definition nearest_cube_level :: "int \<Rightarrow> nat" where
  "nearest_cube_level v =
     fst (fold (\<lambda>i (best, best_d). let d = level_gap v i in if d < best_d then (i, d) else (best, best_d)) [1..<6] (0, level_gap v 0))"

definition dist2 :: "int \<Rightarrow> int \<Rightarrow> int \<Rightarrow> int \<Rightarrow> int \<Rightarrow> int \<Rightarrow> int" where
  "dist2 r1 g1 b1 r2 g2 b2 = (let dr = r1 - r2; dg = g1 - g2; db = b1 - b2 in dr * dr + dg * dg + db * db)"

definition kAnsi16 :: "u32 list" where
  "kAnsi16 = [0x000000, 0x800000, 0x008000, 0x808000, 0x000080, 0x800080, 0x008080, 0xC0C0C0,
     0x808080, 0xFF0000, 0x00FF00, 0xFFFF00, 0x0000FF, 0xFF00FF, 0x00FFFF, 0xFFFFFF]"

definition gray_step :: "int \<Rightarrow> int" where
  "gray_step avg = (if avg \<le> 8 then 0 else if avg \<ge> 238 then 23 else (avg - 3) div 10)"

definition rgb_to_cube256 :: "u32 \<Rightarrow> u8" where
  "rgb_to_cube256 c =
     (let r = rgb_r c; g = rgb_g c; b = rgb_b c;
          ri = nearest_cube_level r; gi = nearest_cube_level g; bi = nearest_cube_level b;
          cube_err = dist2 r g b (kCubeLevels ! ri) (kCubeLevels ! gi) (kCubeLevels ! bi);
          gray_i = gray_step ((r + g + b) div 3); gray_v = 8 + 10 * gray_i;
          gray_err = dist2 r g b gray_v gray_v gray_v
      in if gray_err < cube_err then word_of_int (232 + gray_i) else word_of_nat (16 + 36 * ri + 6 * gi + bi))"

definition ansi_gap :: "u32 \<Rightarrow> nat \<Rightarrow> int" where
  "ansi_gap c i = dist2 (rgb_r c) (rgb_g c) (rgb_b c) (rgb_r (kAnsi16 ! i)) (rgb_g (kAnsi16 ! i)) (rgb_b (kAnsi16 ! i))"

definition rgb_to_ansi16 :: "u32 \<Rightarrow> u8" where
  "rgb_to_ansi16 c =
     word_of_nat (fst (fold (\<lambda>i (best, best_d). let d = ansi_gap c i in if best_d < 0 \<or> d < best_d then (i, d) else (best, best_d)) [0..<16] (0, - 1)))"

section \<open>The quantisers pick a nearest entry\<close>

text \<open>The running minimum of both loops.\<close>

lemma fold_min:
  fixes f :: "nat \<Rightarrow> int"
  assumes "fold (\<lambda>i (best, d). let e = f i in if e < d then (i, e) else (best, d)) xs (b0, f b0) = (best, d)"
  shows "d = f best \<and> best \<in> insert b0 (set xs) \<and> (\<forall>i \<in> insert b0 (set xs). f best \<le> f i)"
  using assms
proof (induction xs arbitrary: b0)
  case (Cons x xs)
  show ?case
  proof (cases "f x < f b0")
    case True
    then show ?thesis using Cons.IH [of x] Cons.prems by (auto simp: Let_def)
  next
    case False
    then show ?thesis using Cons.IH [of b0] Cons.prems by (auto simp: Let_def)
  qed
qed auto

lemma nearest_cube_level:
  "nearest_cube_level v < 6" "i < 6 \<Longrightarrow> level_gap v (nearest_cube_level v) \<le> level_gap v i"
proof -
  obtain b d where e: "fold (\<lambda>i (best, d). let e = level_gap v i in if e < d then (i, e) else (best, d)) [1..<6] (0, level_gap v 0) = (b, d)"
    by fastforce
  have n: "nearest_cube_level v = b" using e by (simp add: nearest_cube_level_def)
  show "nearest_cube_level v < 6" using fold_min [OF e] n by auto
  show "level_gap v (nearest_cube_level v) \<le> level_gap v i" if "i < 6"
    using fold_min [OF e] n that by (cases "i = 0") auto
qed

lemma level_gap_abs: "level_gap v i = \<bar>v - kCubeLevels ! i\<bar>"
  by (simp add: level_gap_def)

lemma nearest_cube_square:
  "i < 6 \<Longrightarrow> (v - kCubeLevels ! nearest_cube_level v)\<^sup>2 \<le> (v - kCubeLevels ! i)\<^sup>2"
  using nearest_cube_level(2) [of i v] by (simp add: level_gap_abs abs_le_square_iff)

lemma dist2_square: "dist2 r g b r' g' b' = (r - r')\<^sup>2 + (g - g')\<^sup>2 + (b - b')\<^sup>2"
  by (simp add: dist2_def Let_def power2_eq_square)

text \<open>The colours of xterm's entries 16 to 255: the cube, then the ramp of greys.\<close>

definition xterm_rgb :: "nat \<Rightarrow> int \<times> int \<times> int" where
  "xterm_rgb n =
     (if n < 232 then (kCubeLevels ! ((n - 16) div 36), kCubeLevels ! ((n - 16) div 6 mod 6), kCubeLevels ! ((n - 16) mod 6))
      else (let v = 8 + 10 * int (n - 232) in (v, v, v)))"

definition xterm_gap :: "u32 \<Rightarrow> nat \<Rightarrow> int" where
  "xterm_gap c n = (case xterm_rgb n of (r, g, b) \<Rightarrow> dist2 (rgb_r c) (rgb_g c) (rgb_b c) r g b)"

lemma gray_step_range: "0 \<le> gray_step avg" "gray_step avg \<le> 23"
  by (auto simp: gray_step_def)

text \<open>Among equal greys the distance grows with the distance from the mean, so rounding the mean is enough.\<close>

lemma gray_square: "dist2 r g b v v v = 3 * v * v - 2 * v * (r + g + b) + (r * r + g * g + b * b)" for v :: int
  by (simp add: dist2_def Let_def algebra_simps)

lemma gray_nearest:
  fixes r g b :: int
  assumes "0 \<le> r" "r \<le> 255" "0 \<le> g" "g \<le> 255" "0 \<le> b" "b \<le> 255" "0 \<le> k" "k \<le> 23"
  defines "v \<equiv> 8 + 10 * gray_step ((r + g + b) div 3)"
  shows "dist2 r g b v v v \<le> dist2 r g b (8 + 10 * k) (8 + 10 * k) (8 + 10 * k)"
proof -
  let ?S = "r + g + b" and ?u = "8 + 10 * k"
  define i where "i = gray_step (?S div 3)"
  have v: "v = 8 + 10 * i" by (simp add: v_def i_def)
  have lo: "i = 0 \<or> 3 * (10 * i + 3) \<le> ?S" and hi: "i = 23 \<or> ?S < 3 * (10 * i + 13)"
    unfolding i_def gray_step_def by (auto; linarith)+
  have "0 \<le> (?u - v) * (3 * (?u + v) - 2 * ?S)"
  proof (cases "k = i")
    case True
    then show ?thesis by (simp add: v)
  next
    case False
    have i: "0 \<le> i" "i \<le> 23" using gray_step_range by (auto simp: i_def)
    show ?thesis
    proof (cases "k < i")
      case True
      then have "3 * (?u + v) \<le> 2 * ?S" using lo assms(7) by (auto simp: v)
      then show ?thesis using True by (intro mult_nonpos_nonpos) (simp_all add: v)
    next
      case k: False
      then have "2 * ?S \<le> 3 * (?u + v)" using hi False assms(8) by (auto simp: v)
      then show ?thesis using k False by (intro mult_nonneg_nonneg) (simp_all add: v)
    qed
  qed
  then show ?thesis unfolding gray_square by (simp add: algebra_simps)
qed

lemma rgb_range:
  "0 \<le> rgb_r c" "rgb_r c \<le> 255" "0 \<le> rgb_g c" "rgb_g c \<le> 255" "0 \<le> rgb_b c" "rgb_b c \<le> 255"
proof -
  have "uint (w AND 0xFF) \<le> 255" for w :: u32
    using unat_and_mask [of w 8] by (simp add: unsigned_and_eq AND_upper2'')
  then show "0 \<le> rgb_r c" "rgb_r c \<le> 255" "0 \<le> rgb_g c" "rgb_g c \<le> 255" "0 \<le> rgb_b c" "rgb_b c \<le> 255"
    by (simp_all add: rgb_r_def rgb_g_def rgb_b_def)
qed


lemma gray_index: "0 \<le> k \<Longrightarrow> k \<le> 23 \<Longrightarrow> unat (word_of_int (232 + k) :: u8) = 232 + nat k"
proof -
  assume k: "0 \<le> k" "k \<le> 23"
  have "uint (word_of_int (232 + k) :: u8) = (232 + k) mod 256" by (simp only: uint_word_of_int) simp
  also have "\<dots> = 232 + k" using k by simp
  finally show ?thesis using k by (simp add: unat_eq_nat_uint nat_add_distrib)
qed

lemma cube_digits:
  fixes r g b :: nat
  assumes "r < 6" "g < 6" "b < 6"
  shows "(36 * r + 6 * g + b) div 36 = r" "(36 * r + 6 * g + b) div 6 mod 6 = g" "(36 * r + 6 * g + b) mod 6 = b"
proof -
  have "36 * r + 6 * g + b = (6 * g + b) + r * 36" "6 * g + b < 36" using assms by simp_all
  then show "(36 * r + 6 * g + b) div 36 = r" by simp
  have n: "36 * r + 6 * g + b = b + (6 * r + g) * 6" by simp
  have d: "(36 * r + 6 * g + b) div 6 = 6 * r + g" unfolding n using assms by simp
  show "(36 * r + 6 * g + b) div 6 mod 6 = g" unfolding d using assms by simp
  show "(36 * r + 6 * g + b) mod 6 = b" unfolding n using assms by (simp only: mod_mult_self1 mod_less)
qed

text \<open>What the chosen index stands for: the better of the nearest cube entry and the nearest grey.\<close>

lemma cube256_gap:
  fixes c :: u32
  defines "r \<equiv> rgb_r c" and "g \<equiv> rgb_g c" and "b \<equiv> rgb_b c"
  defines "cube \<equiv> dist2 r g b (kCubeLevels ! nearest_cube_level r) (kCubeLevels ! nearest_cube_level g) (kCubeLevels ! nearest_cube_level b)"
    and "v \<equiv> 8 + 10 * gray_step ((r + g + b) div 3)"
  shows "xterm_gap c (unat (rgb_to_cube256 c)) = min cube (dist2 r g b v v v)"
    and "16 \<le> unat (rgb_to_cube256 c)"
proof -
  let ?ri = "nearest_cube_level r" and ?gi = "nearest_cube_level g" and ?bi = "nearest_cube_level b" and ?k = "gray_step ((r + g + b) div 3)"
  note ks = gray_step_range [of "(r + g + b) div 3"]
  have lv: "?ri < 6" "?gi < 6" "?bi < 6" by (rule nearest_cube_level(1))+
  have un: "unat (word_of_int (232 + ?k) :: u8) = 232 + nat ?k"
    by (rule gray_index) (rule ks)+
  have uc: "unat (word_of_nat (16 + 36 * ?ri + 6 * ?gi + ?bi) :: u8) = 16 + 36 * ?ri + 6 * ?gi + ?bi"
    using lv by (intro unat_of_nat_small) simp
  have out: "rgb_to_cube256 c = (if dist2 r g b v v v < cube then word_of_int (232 + ?k) else word_of_nat (16 + 36 * ?ri + 6 * ?gi + ?bi))"
    by (simp only: rgb_to_cube256_def Let_def r_def g_def b_def cube_def v_def)
  have parts: "(36 * ?ri + 6 * ?gi + ?bi) div 36 = ?ri" "(36 * ?ri + 6 * ?gi + ?bi) div 6 mod 6 = ?gi" "(36 * ?ri + 6 * ?gi + ?bi) mod 6 = ?bi"
    by (rule cube_digits [OF lv])+
  have "xterm_gap c (16 + 36 * ?ri + 6 * ?gi + ?bi) = cube"
    using lv parts [unfolded add.assoc] by (simp add: add.assoc xterm_gap_def xterm_rgb_def cube_def r_def g_def b_def)
  moreover have "xterm_gap c (232 + nat ?k) = dist2 r g b v v v"
    using ks by (simp add: Let_def xterm_gap_def xterm_rgb_def v_def r_def g_def b_def)
  ultimately show "xterm_gap c (unat (rgb_to_cube256 c)) = min cube (dist2 r g b v v v)"
    unfolding out by (simp only: if_distrib [of unat] un uc if_distrib [of "xterm_gap c"] min_def) auto
  show "16 \<le> unat (rgb_to_cube256 c)" unfolding out by (simp only: if_distrib [of unat] un uc) simp
qed

text \<open>
  The 256-colour quantiser is exact: for every 32-bit colour the index it returns is one of xterm's entries
  16 to 255 and no other of these 240 entries is closer to the colour, although the code looks at two of them only.
\<close>

theorem cube256_nearest:
  "16 \<le> unat (rgb_to_cube256 c) \<and> (\<forall>n. 16 \<le> n \<and> n < 256 \<longrightarrow> xterm_gap c (unat (rgb_to_cube256 c)) \<le> xterm_gap c n)"
proof (intro conjI allI impI)
  show "16 \<le> unat (rgb_to_cube256 c)" by (rule cube256_gap(2))
  fix n :: nat assume n: "16 \<le> n \<and> n < 256"
  let ?r = "rgb_r c" and ?g = "rgb_g c" and ?b = "rgb_b c"
  show "xterm_gap c (unat (rgb_to_cube256 c)) \<le> xterm_gap c n"
  proof (cases "n < 232")
    case True
    have "(n - 16) div 36 < 6" using True by auto
    then have "dist2 ?r ?g ?b (kCubeLevels ! nearest_cube_level ?r) (kCubeLevels ! nearest_cube_level ?g) (kCubeLevels ! nearest_cube_level ?b) \<le> xterm_gap c n"
      using True by (simp add: xterm_gap_def xterm_rgb_def dist2_square add_mono nearest_cube_square)
    then show ?thesis by (simp add: cube256_gap(1))
  next
    case False
    have "dist2 ?r ?g ?b v v v \<le> xterm_gap c n" if "v = 8 + 10 * gray_step ((?r + ?g + ?b) div 3)" for v
      using gray_nearest [OF rgb_range, of "int (n - 232)" c] False n that by (simp add: xterm_gap_def xterm_rgb_def Let_def)
    then show ?thesis by (simp add: cube256_gap(1))
  qed
qed

text \<open>A muted grey-blue: entry 66 of the cube loses to no other.\<close>

theorem cube256_nearest_witness: "xterm_gap 0x707880 (unat (rgb_to_cube256 0x707880)) \<le> xterm_gap 0x707880 66"
  using cube256_nearest [of "0x707880"] by simp

lemma ansi16_min:
  "unat (rgb_to_ansi16 c) < 16 \<and> (\<forall>i. i < 16 \<longrightarrow> ansi_gap c (unat (rgb_to_ansi16 c)) \<le> ansi_gap c i)"
proof -
  let ?step = "\<lambda>i (best, d). let e = ansi_gap c i in if e < d then (i, e) else (best, d)"
  have nn: "0 \<le> ansi_gap c i" for i by (simp add: ansi_gap_def dist2_square)
  have same: "fold (\<lambda>i (best, best_d). let d = ansi_gap c i in if best_d < 0 \<or> d < best_d then (i, d) else (best, best_d)) xs (b, d) =
      fold ?step xs (b, d)" if "0 \<le> d" for xs b d
    using that
  proof (induction xs arbitrary: b d)
    case (Cons x xs)
    then show ?case using nn [of x] Cons.IH [of d b] Cons.IH [of "ansi_gap c x" x] by (auto simp: Let_def)
  qed simp
  have up: "[0..<16] = 0 # [1..<16::nat]" by (simp add: upt_conv_Cons)
  obtain b d where e: "fold ?step [1..<16] (0, ansi_gap c 0) = (b, d)" by fastforce
  have w: "rgb_to_ansi16 c = word_of_nat b"
    using e same [OF nn [of 0], of "[1..<16]" 0] unfolding rgb_to_ansi16_def up by (simp add: Let_def)
  have "b < 16" using fold_min [OF e] by auto
  moreover have "ansi_gap c b \<le> ansi_gap c i" if "i < 16" for i using fold_min [OF e] that by (cases "i = 0") auto
  moreover have "unat (word_of_nat b :: u8) = b" using \<open>b < 16\<close> by (intro unat_of_nat_small) simp
  ultimately show ?thesis by (simp add: w)
qed

text \<open>
  The 16-colour quantiser returns an index below 16 whose reference colour is nearest to the given one.
\<close>

theorem ansi16_nearest:
  "unat (rgb_to_ansi16 c) < 16 \<and> (\<forall>i. i < 16 \<longrightarrow> ansi_gap c (unat (rgb_to_ansi16 c)) \<le> ansi_gap c i)"
  by (rule ansi16_min)

theorem ansi16_nearest_witness: "ansi_gap 0x58C7F3 (unat (rgb_to_ansi16 0x58C7F3)) \<le> ansi_gap 0x58C7F3 14"
  using ansi16_nearest [of "0x58C7F3"] by simp

section \<open>The vocabulary\<close>

lemma box_glyphs_single_width:
  "glyph_is_single_width (bx_h (box_glyphs_for s))" "glyph_is_single_width (bx_v (box_glyphs_for s))"
  "glyph_is_single_width (bx_tl (box_glyphs_for s))" "glyph_is_single_width (bx_tr (box_glyphs_for s))"
  "glyph_is_single_width (bx_bl (box_glyphs_for s))" "glyph_is_single_width (bx_br (box_glyphs_for s))"
  by (cases s; simp add: glyph_is_single_width_def)+

lemma glyph_set_single_width:
  "glyph_is_single_width (gs_full (glyphs_for caps))" "glyph_is_single_width (gs_dark (glyphs_for caps))"
  "glyph_is_single_width (gs_medium (glyphs_for caps))" "glyph_is_single_width (gs_light (glyphs_for caps))"
  "glyph_is_single_width (gs_half (glyphs_for caps))"
  by (simp_all add: glyphs_for_def glyph_is_single_width_def)

text \<open>Detection is total on the documented signals; a \<^verbatim>\<open>TERM\<close> naming both depths is taken for the smaller one.\<close>

lemma detect_both_depths: "cap_color (detect_capabilities None (Some ''xterm-256color-16color'') False) = Ansi16"
  by code_simp

end
