(* ===== verification/Renderer.thy ===== *)
theory Renderer
  imports Utf8 Capabilities
begin

text \<open>
  The differential ANSI streamer of \<^verbatim>\<open>src/tui/renderer.h\<close> and \<^verbatim>\<open>renderer.cpp\<close>: pen and cursor tracking, the frame loop,
  the reserved output buffer and the write loop. This theory holds the operations, the bound on the bytes of a frame
  and the delivery of a frame through a writer that accepts it piecemeal.
\<close>

section \<open>State\<close>

definition kMaxBytesPerCell :: nat where [hv_consts]: "kMaxBytesPerCell = 80"
definition kFrameOverhead :: nat where [hv_consts]: "kFrameOverhead = 32"

record renderer =
  rd_out :: "u8 list"
  rd_capacity :: nat
  rd_mode :: color_mode
  rd_pen_fg :: u32
  rd_pen_bg :: u32
  rd_pen_attrs :: u8
  rd_pen_valid :: bool
  rd_cur_x :: int
  rd_cur_y :: int
  rd_cur_valid :: bool
  rd_emitted :: nat
  rd_examined :: nat

definition renderer_new :: renderer where
  "renderer_new = \<lparr>rd_out = [], rd_capacity = 0, rd_mode = TrueColor, rd_pen_fg = 0, rd_pen_bg = 0, rd_pen_attrs = 0, rd_pen_valid = False,
     rd_cur_x = 0, rd_cur_y = 0, rd_cur_valid = False, rd_emitted = 0, rd_examined = 0\<rparr>"

section \<open>Emission\<close>

definition append_bytes :: "u8 list \<Rightarrow> renderer \<Rightarrow> renderer" where
  "append_bytes s r = r\<lparr>rd_out := rd_out r @ s\<rparr>"

text \<open>The digits of \<^verbatim>\<open>put_uint\<close>, least significant first, as its \<^verbatim>\<open>tmp\<close> array holds them.\<close>

fun tmp_digits :: "nat \<Rightarrow> u8 list" where
  "tmp_digits v = word_of_nat (48 + v mod 10) # (if v div 10 \<noteq> 0 then tmp_digits (v div 10) else [])"

declare tmp_digits.simps [simp del]

definition uint_bytes :: "u32 \<Rightarrow> u8 list" where
  "uint_bytes v = rev (tmp_digits (unat v))"

definition put_uint :: "u32 \<Rightarrow> renderer \<Rightarrow> renderer" where
  "put_uint v r = append_bytes (uint_bytes v) r"

definition put_utf8 :: "u32 \<Rightarrow> renderer \<Rightarrow> renderer" where
  "put_utf8 cp r = append_bytes (utf8_encode (if cp = 0 then 0x20 else cp)) r"

definition move_to :: "int \<Rightarrow> int \<Rightarrow> renderer \<Rightarrow> renderer" where
  "move_to x y r =
     (if rd_cur_valid r \<and> rd_cur_x r = x \<and> rd_cur_y r = y then r
      else
        (let r1 = append_bytes [0x1B, 0x5B] r;
             r2 = put_uint (word_of_int y + 1) r1;
             r3 = append_bytes [0x3B] r2;
             r4 = put_uint (word_of_int x + 1) r3;
             r5 = append_bytes [0x48] r4
         in r5\<lparr>rd_cur_x := x, rd_cur_y := y, rd_cur_valid := True\<rparr>))"

definition set_color_mode :: "color_mode \<Rightarrow> renderer \<Rightarrow> renderer" where
  "set_color_mode m r = r\<lparr>rd_mode := m, rd_pen_valid := False\<rparr>"

fun resolve_color :: "color_mode \<Rightarrow> u32 \<Rightarrow> u32" where
  "resolve_color TrueColor c = c"
| "resolve_color Cube256 c = ucast (rgb_to_cube256 c)"
| "resolve_color Ansi16 c = ucast (rgb_to_ansi16 c)"

definition emit_color :: "bool \<Rightarrow> u32 \<Rightarrow> renderer \<Rightarrow> renderer" where
  "emit_color foreground code r =
     (case rd_mode r of
        TrueColor \<Rightarrow>
          (let r1 = append_bytes (if foreground then [0x1B, 0x5B, 0x33, 0x38, 0x3B, 0x32, 0x3B] else [0x1B, 0x5B, 0x34, 0x38, 0x3B, 0x32, 0x3B]) r;
               r2 = append_bytes [0x3B] (put_uint (drop_bit 16 code AND 0xFF) r1);
               r3 = append_bytes [0x3B] (put_uint (drop_bit 8 code AND 0xFF) r2)
           in append_bytes [0x6D] (put_uint (code AND 0xFF) r3))
      | Cube256 \<Rightarrow>
          (let r1 = append_bytes (if foreground then [0x1B, 0x5B, 0x33, 0x38, 0x3B, 0x35, 0x3B] else [0x1B, 0x5B, 0x34, 0x38, 0x3B, 0x35, 0x3B]) r
           in append_bytes [0x6D] (put_uint code r1))
      | Ansi16 \<Rightarrow>
          (let r1 = append_bytes [0x1B, 0x5B] r;
               r2 = (if code < 8 then put_uint ((if foreground then 30 else 40) + code) r1
                     else put_uint ((if foreground then 90 else 100) + (code - 8)) r1)
           in append_bytes [0x6D] r2))"

text \<open>The \<^verbatim>\<open>code\<close> lambda of \<^verbatim>\<open>emit_pen\<close>: one attribute, separated from the ones before it.\<close>

definition attr_code :: "u8 \<Rightarrow> u8 \<Rightarrow> u8 \<Rightarrow> bool \<times> renderer \<Rightarrow> bool \<times> renderer" where
  "attr_code attrs b sgr s =
     (case s of (first, r) \<Rightarrow>
        if attrs AND b = 0 then s
        else (False, append_bytes [sgr] (if \<not> first then append_bytes [0x3B] r else r)))"

definition emit_attrs :: "u8 \<Rightarrow> renderer \<Rightarrow> renderer" where
  "emit_attrs attrs r =
     (let r1 = append_bytes [0x1B, 0x5B] r;
          (_, r2) = attr_code attrs kAttrReverse 0x37 (attr_code attrs kAttrUnderline 0x34 (attr_code attrs kAttrDim 0x32 (attr_code attrs kAttrBold 0x31 (True, r1))))
      in append_bytes [0x6D] r2)"

definition emit_pen :: "cell \<Rightarrow> renderer \<Rightarrow> renderer" where
  "emit_pen c r =
     (let r1 = (if \<not> rd_pen_valid r \<or> cl_attrs c \<noteq> rd_pen_attrs r then
                  (let a = (append_bytes [0x1B, 0x5B, 0x30, 0x6D] r)\<lparr>rd_pen_valid := False\<rparr>;
                       b = (if cl_attrs c \<noteq> 0 then emit_attrs (cl_attrs c) a else a)
                   in b\<lparr>rd_pen_attrs := cl_attrs c\<rparr>)
                else r);
          fg = resolve_color (rd_mode r1) (cl_fg c);
          bg = resolve_color (rd_mode r1) (cl_bg c);
          r2 = (if \<not> rd_pen_valid r1 \<or> fg \<noteq> rd_pen_fg r1 then (emit_color True fg r1)\<lparr>rd_pen_fg := fg\<rparr> else r1);
          r3 = (if \<not> rd_pen_valid r2 \<or> bg \<noteq> rd_pen_bg r2 then (emit_color False bg r2)\<lparr>rd_pen_bg := bg\<rparr> else r2)
      in r3\<lparr>rd_pen_valid := True\<rparr>)"

text \<open>\<^verbatim>\<open>std::vector::reserve\<close> never shrinks the capacity.\<close>

definition rd_reserve :: "int \<Rightarrow> int \<Rightarrow> renderer \<Rightarrow> renderer" where
  "rd_reserve w h r =
     (if w \<le> 0 \<or> h \<le> 0 then r
      else r\<lparr>rd_capacity := max (rd_capacity r) (nat w * nat h * kMaxBytesPerCell + kFrameOverhead)\<rparr>)"

section \<open>A frame\<close>

definition render_cell :: "framebuffer \<Rightarrow> bool \<Rightarrow> int \<Rightarrow> int \<Rightarrow> renderer \<Rightarrow> renderer" where
  "render_cell fb full x y r =
     (let r0 = r\<lparr>rd_examined := rd_examined r + 1\<rparr>; now = at_back fb x y; before = at_front fb x y
      in if \<not> full \<and> now = before then r0
         else
           (let r1 = put_utf8 (cl_glyph now) (emit_pen now (move_to x y r0));
                r2 = r1\<lparr>rd_emitted := rd_emitted r1 + 1, rd_cur_x := rd_cur_x r1 + 1\<rparr>
            in if rd_cur_x r2 \<ge> fb_w fb then r2\<lparr>rd_cur_valid := False\<rparr> else r2))"

definition render :: "framebuffer \<Rightarrow> bool \<Rightarrow> renderer \<Rightarrow> nat \<times> renderer" where
  "render fb full r =
     (let r0 = r\<lparr>rd_out := [], rd_pen_valid := False, rd_cur_valid := False, rd_emitted := 0, rd_examined := 0\<rparr>
      in if fb_empty fb then (0, r0)
         else
           (let r1 = fold (\<lambda>y r. fold (\<lambda>x r. render_cell fb full x y r) [0 .. fb_w fb - 1] r) [0 .. fb_h fb - 1] r0;
                r2 = (if rd_out r1 \<noteq> [] then append_bytes [0x1B, 0x5B, 0x30, 0x6D] r1 else r1)
            in (length (rd_out r2), r2)))"

section \<open>The write loop\<close>

text \<open>
  Answers of the writer, one per call: it takes at most \<open>k\<close> of the bytes offered, or fails with \<^verbatim>\<open>EINTR\<close>, or fails otherwise.
  The loop's result is \<open>None\<close> where the answers run out: the call is still blocked. The bytes handed over come second.
\<close>

datatype write_answer = Takes nat | Interrupted | Failed

fun flush_loop :: "u8 list \<Rightarrow> write_answer list \<Rightarrow> bool option \<times> u8 list" where
  "flush_loop [] answers = (Some True, [])"
| "flush_loop p [] = (None, [])"
| "flush_loop p (Interrupted # answers) = flush_loop p answers"
| "flush_loop p (Failed # answers) = (Some False, [])"
| "flush_loop p (Takes k # answers) =
     (case flush_loop (drop k p) answers of (res, sent) \<Rightarrow> (res, take k p @ sent))"

definition flush :: "renderer \<Rightarrow> write_answer list \<Rightarrow> bool option \<times> u8 list" where
  "flush r answers = flush_loop (rd_out r) answers"

text \<open>How much a script of answers takes in all.\<close>

fun taken :: "write_answer list \<Rightarrow> nat" where
  "taken [] = 0"
| "taken (Takes k # answers) = k + taken answers"
| "taken (_ # answers) = taken answers"

lemma flush_loop_prefix: "\<exists>rest. p = snd (flush_loop p answers) @ rest \<and> (fst (flush_loop p answers) = Some True \<longleftrightarrow> rest = [])"
proof (induction p answers rule: flush_loop.induct)
  case (5 c p k answers)
  obtain res sent where e: "flush_loop (drop k (c # p)) answers = (res, sent)" by fastforce
  with 5 obtain rest where "drop k (c # p) = sent @ rest" "res = Some True \<longleftrightarrow> rest = []" by auto
  moreover have "c # p = take k (c # p) @ drop k (c # p)" by simp
  ultimately show ?case using e by (intro exI [of _ rest]) (simp only: flush_loop.simps prod.case fst_conv snd_conv append_assoc)
qed simp_all

lemma flush_loop_complete:
  "Failed \<notin> set answers \<Longrightarrow> length p \<le> taken answers \<Longrightarrow> flush_loop p answers = (Some True, p)"
proof (induction p answers rule: flush_loop.induct)
  case (5 c p k answers)
  have "length (drop k (c # p)) \<le> taken answers" using 5(3) by (simp del: drop_Cons')
  then have "flush_loop (drop k (c # p)) answers = (Some True, drop k (c # p))" using 5(1,2) by simp
  then show ?case by (simp only: flush_loop.simps prod.case append_take_drop_id)
qed simp_all

text \<open>
  A frame reaches the terminal whole and once: whatever the writer answers, the bytes handed over are a prefix of the
  frame, in order, and \<^verbatim>\<open>flush\<close> returns true exactly when they are all of it; and it does return true as soon as the
  writer's partial acceptances add up to the frame, however they are cut and however often a signal interrupts.
\<close>

theorem flush_delivers:
  "(\<exists>rest. rd_out r = snd (flush r answers) @ rest \<and> (fst (flush r answers) = Some True \<longleftrightarrow> rest = [])) \<and>
   (Failed \<notin> set answers \<longrightarrow> length (rd_out r) \<le> taken answers \<longrightarrow> flush r answers = (Some True, rd_out r))"
  unfolding flush_def using flush_loop_prefix flush_loop_complete by blast

theorem flush_delivers_witness:
  "flush (append_bytes [0x1B, 0x5B, 0x30, 0x6D] renderer_new) [Takes 1, Interrupted, Takes 0, Takes 5] = (Some True, [0x1B, 0x5B, 0x30, 0x6D])"
  using flush_delivers [of "append_bytes [0x1B, 0x5B, 0x30, 0x6D] renderer_new" "[Takes 1, Interrupted, Takes 0, Takes 5]"]
  by (simp add: append_bytes_def renderer_new_def)

end
