(* ===== verification/Vt_Terminal.thy ===== *)
theory Vt_Terminal
  imports Renderer
begin

text \<open>
  The terminal at the other end of the byte stream, as the renderer relies on it. It is not part of the sources: a terminal is any
  record of functions with the laws of \<open>vt_laws\<close>, the control sequences of ECMA-48 and the colour extensions of xterm that
  the renderer uses. \<open>demo_vt\<close> is one such terminal, an interpreter of single bytes.
\<close>

section \<open>Control sequences\<close>

datatype ink = InkDefault | InkRgb nat nat nat | InkIndex nat

record pen =
  pn_fg :: ink
  pn_bg :: ink
  pn_bold :: bool
  pn_dim :: bool
  pn_underline :: bool
  pn_reverse :: bool

definition plain_pen :: pen where
  "plain_pen = \<lparr>pn_fg = InkDefault, pn_bg = InkDefault, pn_bold = False, pn_dim = False, pn_underline = False, pn_reverse = False\<rparr>"

text \<open>Decimal parameters.\<close>

definition digit_of :: "u8 \<Rightarrow> nat option" where
  "digit_of b = (if 48 \<le> unat b \<and> unat b \<le> 57 then Some (unat b - 48) else None)"

fun param_value :: "nat \<Rightarrow> u8 list \<Rightarrow> nat option" where
  "param_value acc [] = Some acc"
| "param_value acc (b # bs) = (case digit_of b of None \<Rightarrow> None | Some d \<Rightarrow> param_value (acc * 10 + d) bs)"

definition is_param :: "u8 list \<Rightarrow> nat \<Rightarrow> bool" where
  "is_param bs n \<longleftrightarrow> bs \<noteq> [] \<and> param_value 0 bs = Some n"

fun join_params :: "u8 list list \<Rightarrow> u8 list" where
  "join_params [] = []"
| "join_params [d] = d"
| "join_params (d # ds) = d @ 0x3B # join_params ds"

definition csi :: "u8 list list \<Rightarrow> u8 \<Rightarrow> u8 list" where
  "csi ds final = 0x1B # 0x5B # join_params ds @ [final]"

text \<open>Select graphic rendition, where the standard and xterm fix it; no parameter at all counts as 0.\<close>

definition set_ink :: "nat \<Rightarrow> ink \<Rightarrow> pen \<Rightarrow> pen" where
  "set_ink n i p = (if n = 38 then p\<lparr>pn_fg := i\<rparr> else p\<lparr>pn_bg := i\<rparr>)"

definition sgr_simple :: "nat \<Rightarrow> pen \<Rightarrow> pen option" where
  "sgr_simple n p =
     (if n = 0 then Some plain_pen
      else if n = 1 then Some (p\<lparr>pn_bold := True\<rparr>)
      else if n = 2 then Some (p\<lparr>pn_dim := True\<rparr>)
      else if n = 4 then Some (p\<lparr>pn_underline := True\<rparr>)
      else if n = 7 then Some (p\<lparr>pn_reverse := True\<rparr>)
      else if 30 \<le> n \<and> n < 38 then Some (p\<lparr>pn_fg := InkIndex (n - 30)\<rparr>)
      else if 40 \<le> n \<and> n < 48 then Some (p\<lparr>pn_bg := InkIndex (n - 40)\<rparr>)
      else if 90 \<le> n \<and> n < 98 then Some (p\<lparr>pn_fg := InkIndex (n - 90 + 8)\<rparr>)
      else if 100 \<le> n \<and> n < 108 then Some (p\<lparr>pn_bg := InkIndex (n - 100 + 8)\<rparr>)
      else None)"

text \<open>38 and 48 take their colour from the parameters behind them and are read where they start a sequence.\<close>

fun sgr_list :: "nat list \<Rightarrow> pen \<Rightarrow> pen option" where
  "sgr_list [] p = Some p"
| "sgr_list (n # ns) p = (case sgr_simple n p of None \<Rightarrow> None | Some q \<Rightarrow> sgr_list ns q)"

definition sgr :: "nat list \<Rightarrow> pen \<Rightarrow> pen option" where
  "sgr ns p =
     (case ns of
        [n, m, k] \<Rightarrow> if n \<in> {38, 48} \<and> m = 5 then Some (set_ink n (InkIndex k) p) else sgr_list ns p
      | [n, m, r, g, b] \<Rightarrow> if n \<in> {38, 48} \<and> m = 2 then Some (set_ink n (InkRgb r g b) p) else sgr_list ns p
      | _ \<Rightarrow> sgr_list ns p)"

definition sgr_params :: "nat list \<Rightarrow> pen \<Rightarrow> pen option" where
  "sgr_params ns p = (if ns = [] then Some plain_pen else sgr ns p)"

section \<open>A terminal\<close>

text \<open>
  \<open>vt_ready\<close>: no control sequence or character is half read. \<open>vt_cursor\<close>: column and row from 0, where they are
  determined; after printing in the last column they are not, because it depends on the autowrap setting.
\<close>

record 'u vt =
  vt_feed :: "u8 list \<Rightarrow> 'u \<Rightarrow> 'u"
  vt_ready :: "'u \<Rightarrow> bool"
  vt_cell :: "'u \<Rightarrow> int \<Rightarrow> int \<Rightarrow> u32 \<times> pen"
  vt_cursor :: "'u \<Rightarrow> (int \<times> int) option"
  vt_pen :: "'u \<Rightarrow> pen"

definition vt_cup_law :: "'u vt \<Rightarrow> int \<Rightarrow> int \<Rightarrow> bool" where
  "vt_cup_law T w h \<longleftrightarrow> (\<forall>u dr dc x y. vt_ready T u \<longrightarrow> 0 \<le> x \<longrightarrow> x < w \<longrightarrow> 0 \<le> y \<longrightarrow> y < h \<longrightarrow>
     is_param dr (nat y + 1) \<longrightarrow> is_param dc (nat x + 1) \<longrightarrow>
     (let u' = vt_feed T (csi [dr, dc] 0x48) u in
      vt_ready T u' \<and> vt_cursor T u' = Some (x, y) \<and> vt_pen T u' = vt_pen T u \<and> vt_cell T u' = vt_cell T u))"

definition vt_sgr_law :: "'u vt \<Rightarrow> bool" where
  "vt_sgr_law T \<longleftrightarrow> (\<forall>u ds ns p. vt_ready T u \<longrightarrow> list_all2 is_param ds ns \<longrightarrow> sgr_params ns (vt_pen T u) = Some p \<longrightarrow>
     (let u' = vt_feed T (csi ds 0x6D) u in
      vt_ready T u' \<and> vt_cursor T u' = vt_cursor T u \<and> vt_pen T u' = p \<and> vt_cell T u' = vt_cell T u))"

definition vt_print_law :: "'u vt \<Rightarrow> int \<Rightarrow> int \<Rightarrow> bool" where
  "vt_print_law T w h \<longleftrightarrow> (\<forall>u x y bs cp. vt_ready T u \<longrightarrow> vt_cursor T u = Some (x, y) \<longrightarrow> 0 \<le> x \<longrightarrow> x < w \<longrightarrow> 0 \<le> y \<longrightarrow> y < h \<longrightarrow>
     glyph_is_single_width cp \<longrightarrow> map unat bs = rfc3629 (unat cp) \<longrightarrow>
     (let u' = vt_feed T bs u in
      vt_ready T u' \<and> (x + 1 < w \<longrightarrow> vt_cursor T u' = Some (x + 1, y)) \<and> vt_pen T u' = vt_pen T u \<and>
      (\<forall>x' y'. vt_cell T u' x' y' = (if x' = x \<and> y' = y then (cp, vt_pen T u) else vt_cell T u x' y'))))"

definition vt_laws :: "'u vt \<Rightarrow> int \<Rightarrow> int \<Rightarrow> bool" where
  "vt_laws T w h \<longleftrightarrow>
     (\<forall>a b u. vt_feed T (a @ b) u = vt_feed T b (vt_feed T a u)) \<and> (\<forall>u. vt_feed T [] u = u) \<and>
     vt_cup_law T w h \<and> vt_sgr_law T \<and> vt_print_law T w h"

section \<open>The numbers the renderer prints\<close>

lemma param_value_append: "param_value acc (xs @ ys) = (case param_value acc xs of None \<Rightarrow> None | Some a \<Rightarrow> param_value a ys)"
  by (induction xs arbitrary: acc) (auto split: option.splits)

lemma digit_of_digit: "d < 10 \<Longrightarrow> digit_of (word_of_nat (48 + d)) = Some d"
  using unat_of_nat_small [of "48 + d", where 'a = 8] by (simp add: digit_of_def del: of_nat_add)

lemma param_value_digits: "param_value 0 (rev (tmp_digits v)) = Some v"
proof (induction v rule: tmp_digits.induct)
  case (1 v)
  have d: "digit_of (word_of_nat (48 + v mod 10)) = Some (v mod 10)" by (rule digit_of_digit) simp
  show ?case
  proof (cases "v div 10 = 0")
    case True
    then have "v mod 10 = v" by simp
    then show ?thesis using True d by (simp add: tmp_digits.simps [of v] del: of_nat_add)
  next
    case False
    then show ?thesis using 1 d by (simp add: tmp_digits.simps [of v] param_value_append del: of_nat_add)
  qed
qed

lemma is_param_uint: "is_param (uint_bytes v) (unat v)"
proof -
  have "rev (tmp_digits (unat v)) \<noteq> []" by (subst tmp_digits.simps) simp
  then show ?thesis by (simp add: is_param_def uint_bytes_def param_value_digits)
qed

lemma is_param_small: "is_param [word_of_nat (48 + d)] d" if "d < 10"
  using digit_of_digit [OF that] by (simp add: is_param_def)

lemma is_param_literals: "is_param [0x30] 0" "is_param [0x31] 1" "is_param [0x32] 2" "is_param [0x34] 4" "is_param [0x35] 5" "is_param [0x37] 7"
  "is_param [0x33, 0x38] 38" "is_param [0x34, 0x38] 48"
  by (simp_all add: is_param_def digit_of_def)

end
