(* ===== verification/Render_Correct.thy ===== *)
theory Render_Correct
  imports Vt_Terminal
begin

text \<open>
  The renderer against the terminal: what it believes about pen and cursor is true of the terminal it writes to, so that eliding
  moves and colours never shows; a frame turns a screen that shows the front buffer into one that shows the back buffer.
\<close>

section \<open>What a cell looks like\<close>

fun ink_of :: "color_mode \<Rightarrow> u32 \<Rightarrow> ink" where
  "ink_of TrueColor code = InkRgb (unat (drop_bit 16 code AND 0xFF)) (unat (drop_bit 8 code AND 0xFF)) (unat (code AND 0xFF))"
| "ink_of Cube256 code = InkIndex (unat code)"
| "ink_of Ansi16 code = InkIndex (unat code)"

definition pen_of :: "color_mode \<Rightarrow> u32 \<Rightarrow> u32 \<Rightarrow> u8 \<Rightarrow> pen" where
  "pen_of m fg bg at = \<lparr>pn_fg = ink_of m fg, pn_bg = ink_of m bg, pn_bold = (at AND kAttrBold \<noteq> 0), pn_dim = (at AND kAttrDim \<noteq> 0),
     pn_underline = (at AND kAttrUnderline \<noteq> 0), pn_reverse = (at AND kAttrReverse \<noteq> 0)\<rparr>"

definition shown :: "color_mode \<Rightarrow> cell \<Rightarrow> u32 \<times> pen" where
  "shown m c = (if cl_glyph c = 0 then 0x20 else cl_glyph c, pen_of m (resolve_color m (cl_fg c)) (resolve_color m (cl_bg c)) (cl_attrs c))"

section \<open>Every emission is a control sequence\<close>

lemma append_bytes_simps [simp]:
  "rd_out (append_bytes s r) = rd_out r @ s" "rd_mode (append_bytes s r) = rd_mode r"
  "rd_pen_fg (append_bytes s r) = rd_pen_fg r" "rd_pen_bg (append_bytes s r) = rd_pen_bg r"
  "rd_pen_attrs (append_bytes s r) = rd_pen_attrs r" "rd_pen_valid (append_bytes s r) = rd_pen_valid r"
  "rd_cur_x (append_bytes s r) = rd_cur_x r" "rd_cur_y (append_bytes s r) = rd_cur_y r" "rd_cur_valid (append_bytes s r) = rd_cur_valid r"
  by (simp_all add: append_bytes_def)

lemma append_bytes_append [simp]: "append_bytes t (append_bytes s r) = append_bytes (s @ t) r"
  by (simp add: append_bytes_def)

definition color_params :: "color_mode \<Rightarrow> bool \<Rightarrow> u32 \<Rightarrow> u8 list list" where
  "color_params m f code =
     (case m of
        TrueColor \<Rightarrow> [if f then [0x33, 0x38] else [0x34, 0x38], [0x32], uint_bytes (drop_bit 16 code AND 0xFF), uint_bytes (drop_bit 8 code AND 0xFF), uint_bytes (code AND 0xFF)]
      | Cube256 \<Rightarrow> [if f then [0x33, 0x38] else [0x34, 0x38], [0x35], uint_bytes code]
      | Ansi16 \<Rightarrow> [uint_bytes (if code < 8 then (if f then 30 else 40) + code else (if f then 90 else 100) + (code - 8))])"

lemma emit_color_csi: "emit_color f code r = append_bytes (csi (color_params (rd_mode r) f code) 0x6D) r"
  by (cases "rd_mode r") (simp_all add: emit_color_def color_params_def Let_def put_uint_def csi_def)

definition attr_params :: "u8 \<Rightarrow> u8 list list" where
  "attr_params at = (if at AND kAttrBold = 0 then [] else [[0x31]]) @ (if at AND kAttrDim = 0 then [] else [[0x32]]) @
     (if at AND kAttrUnderline = 0 then [] else [[0x34]]) @ (if at AND kAttrReverse = 0 then [] else [[0x37]])"

lemma emit_attrs_csi: "emit_attrs at r = append_bytes (csi (attr_params at) 0x6D) r"
  by (cases "at AND kAttrBold = 0"; cases "at AND kAttrDim = 0"; cases "at AND kAttrUnderline = 0"; cases "at AND kAttrReverse = 0")
    (simp_all add: emit_attrs_def attr_params_def attr_code_def Let_def csi_def)

lemma reset_csi: "[0x1B, 0x5B, 0x30, 0x6D] = csi [[0x30]] 0x6D"
  by (simp add: csi_def)

section \<open>Its effect on a terminal\<close>

definition screen :: "'u vt \<Rightarrow> 'u \<Rightarrow> renderer \<Rightarrow> 'u" where
  "screen T u r = vt_feed T (rd_out r) u"

definition tracks :: "'u vt \<Rightarrow> 'u \<Rightarrow> renderer \<Rightarrow> bool" where
  "tracks T u0 r \<longleftrightarrow> vt_ready T (screen T u0 r) \<and>
     (rd_cur_valid r \<longrightarrow> vt_cursor T (screen T u0 r) = Some (rd_cur_x r, rd_cur_y r)) \<and>
     (rd_pen_valid r \<longrightarrow> vt_pen T (screen T u0 r) = pen_of (rd_mode r) (rd_pen_fg r) (rd_pen_bg r) (rd_pen_attrs r))"

lemma screen_append: "vt_laws T w h \<Longrightarrow> screen T u0 (append_bytes bs r) = vt_feed T bs (screen T u0 r)"
  by (simp add: screen_def vt_laws_def)

text \<open>A graphic rendition sequence changes the pen only.\<close>

lemma screen_sgr:
  assumes "vt_laws T w h" "vt_ready T (screen T u0 r)" "list_all2 is_param ds ns" "sgr_params ns (vt_pen T (screen T u0 r)) = Some p"
  shows "let u = screen T u0 r; u' = screen T u0 (append_bytes (csi ds 0x6D) r) in
    vt_ready T u' \<and> vt_cursor T u' = vt_cursor T u \<and> vt_pen T u' = p \<and> vt_cell T u' = vt_cell T u"
proof -
  have "vt_sgr_law T" using assms(1) by (simp add: vt_laws_def)
  then show ?thesis using assms unfolding vt_sgr_law_def by (simp add: screen_append [OF assms(1)] Let_def)
qed

definition code_ok :: "color_mode \<Rightarrow> u32 \<Rightarrow> bool" where
  "code_ok m code \<longleftrightarrow> (m = Ansi16 \<longrightarrow> unat code < 16)"

lemma resolve_code_ok: "code_ok m (resolve_color m c)"
  using ansi16_min [of c] by (cases m) (simp_all add: code_ok_def unsigned_ucast_eq take_bit_eq_mod)

definition color_numbers :: "color_mode \<Rightarrow> bool \<Rightarrow> u32 \<Rightarrow> nat list" where
  "color_numbers m f code =
     (case m of
        TrueColor \<Rightarrow> [if f then 38 else 48, 2, unat (drop_bit 16 code AND 0xFF), unat (drop_bit 8 code AND 0xFF), unat (code AND 0xFF)]
      | Cube256 \<Rightarrow> [if f then 38 else 48, 5, unat code]
      | Ansi16 \<Rightarrow> [if unat code < 8 then (if f then 30 else 40) + unat code else (if f then 90 else 100) + (unat code - 8)])"

lemma ansi_number:
  assumes c16: "unat code < 16"
  shows "unat (if code < 8 then (if f then 30 else 40) + code else (if f then 90 else 100) + (code - 8) :: u32) =
    (if unat code < 8 then (if f then 30 else 40) + unat code else (if f then 90 else 100) + (unat code - 8))"
proof -
  have lt: "code < 8 \<longleftrightarrow> unat code < 8" by (simp add: word_less_nat_alt)
  have sub: "unat (code - 8) = unat code - 8" if "\<not> unat code < 8"
    using that by (subst unat_sub) (simp_all add: word_le_nat_alt)
  have "unat ((if f then 30 else 40) + code) = (if f then 30 else 40) + unat code"
    using c16 by (cases f) (simp_all add: unat_word_ariths)
  moreover have "unat ((if f then 90 else 100) + (code - 8)) = (if f then 90 else 100) + (unat code - 8)" if "\<not> unat code < 8"
    using c16 that sub [OF that] by (cases f) (simp_all add: unat_word_ariths)
  ultimately show ?thesis using lt by simp
qed

lemma color_params_numbers:
  assumes "code_ok m code"
  shows "list_all2 is_param (color_params m f code) (color_numbers m f code)"
proof (cases m)
  case Ansi16
  then have "unat code < 16" using assms by (simp add: code_ok_def)
  from ansi_number [OF this, of f] show ?thesis
    using Ansi16 is_param_uint [of "if code < 8 then (if f then 30 else 40) + code else (if f then 90 else 100) + (code - 8)"]
    by (simp only: color_params_def color_numbers_def color_mode.case list_all2_Cons list.rel_inject(1))
qed (use is_param_uint in \<open>auto simp: color_params_def color_numbers_def is_param_literals\<close>)

lemma sgr_color:
  assumes "code_ok m code"
  shows "sgr_params (color_numbers m f code) p = Some (if f then p\<lparr>pn_fg := ink_of m code\<rparr> else p\<lparr>pn_bg := ink_of m code\<rparr>)"
proof (cases m)
  case Ansi16
  then have "unat code < 16" using assms by (simp add: code_ok_def)
  then show ?thesis
    using Ansi16 by (cases f; cases "unat code < 8") (simp_all add: color_numbers_def sgr_params_def sgr_def sgr_simple_def)
qed (auto simp: color_numbers_def sgr_params_def sgr_def set_ink_def)

lemma attr_params_numbers:
  "\<exists>ns. list_all2 is_param (attr_params at) ns \<and> sgr_params ns plain_pen = Some (plain_pen\<lparr>pn_bold := (at AND kAttrBold \<noteq> 0), pn_dim := (at AND kAttrDim \<noteq> 0),
     pn_underline := (at AND kAttrUnderline \<noteq> 0), pn_reverse := (at AND kAttrReverse \<noteq> 0)\<rparr>)"
proof (rule exI, rule conjI)
  show "list_all2 is_param (attr_params at) ((if at AND kAttrBold = 0 then [] else [1]) @ (if at AND kAttrDim = 0 then [] else [2]) @
     (if at AND kAttrUnderline = 0 then [] else [4]) @ (if at AND kAttrReverse = 0 then [] else [7]))"
    by (simp add: attr_params_def is_param_literals is_param_literals(2) [unfolded One_nat_def])
  show "sgr_params ((if at AND kAttrBold = 0 then [] else [1]) @ (if at AND kAttrDim = 0 then [] else [2]) @
     (if at AND kAttrUnderline = 0 then [] else [4]) @ (if at AND kAttrReverse = 0 then [] else [7])) plain_pen =
     Some (plain_pen\<lparr>pn_bold := (at AND kAttrBold \<noteq> 0), pn_dim := (at AND kAttrDim \<noteq> 0),
     pn_underline := (at AND kAttrUnderline \<noteq> 0), pn_reverse := (at AND kAttrReverse \<noteq> 0)\<rparr>)"
    by (cases "at AND kAttrBold = 0"; cases "at AND kAttrDim = 0"; cases "at AND kAttrUnderline = 0"; cases "at AND kAttrReverse = 0")
      (simp_all add: sgr_params_def sgr_def sgr_simple_def plain_pen_def)
qed


lemma screen_color:
  assumes "vt_laws T w h" "vt_ready T (screen T u0 r)" "code_ok (rd_mode r) code"
  shows "let u = screen T u0 r; u' = screen T u0 (emit_color f code r) in
    vt_ready T u' \<and> vt_cursor T u' = vt_cursor T u \<and> vt_cell T u' = vt_cell T u \<and>
    vt_pen T u' = (if f then (vt_pen T u)\<lparr>pn_fg := ink_of (rd_mode r) code\<rparr> else (vt_pen T u)\<lparr>pn_bg := ink_of (rd_mode r) code\<rparr>)"
  using screen_sgr [OF assms(1,2) color_params_numbers [OF assms(3)] sgr_color [OF assms(3)], of f] by (simp add: emit_color_csi Let_def)

lemma screen_reset:
  assumes "vt_laws T w h" "vt_ready T (screen T u0 r)"
  shows "let u = screen T u0 r; u' = screen T u0 (append_bytes [0x1B, 0x5B, 0x30, 0x6D] r) in
    vt_ready T u' \<and> vt_cursor T u' = vt_cursor T u \<and> vt_cell T u' = vt_cell T u \<and> vt_pen T u' = plain_pen"
proof -
  have "sgr_params [0] p = Some plain_pen" for p by (simp add: sgr_params_def sgr_def sgr_simple_def)
  then show ?thesis
    using screen_sgr [OF assms, of "[[0x30]]" "[0]" plain_pen] by (simp add: reset_csi is_param_literals Let_def)
qed

lemma screen_attrs:
  assumes "vt_laws T w h" "vt_ready T (screen T u0 r)" "vt_pen T (screen T u0 r) = plain_pen"
  shows "let u = screen T u0 r; u' = screen T u0 (emit_attrs at r) in
    vt_ready T u' \<and> vt_cursor T u' = vt_cursor T u \<and> vt_cell T u' = vt_cell T u \<and>
    vt_pen T u' = plain_pen\<lparr>pn_bold := (at AND kAttrBold \<noteq> 0), pn_dim := (at AND kAttrDim \<noteq> 0),
     pn_underline := (at AND kAttrUnderline \<noteq> 0), pn_reverse := (at AND kAttrReverse \<noteq> 0)\<rparr>"
proof -
  obtain ns where "list_all2 is_param (attr_params at) ns" "sgr_params ns plain_pen = Some (plain_pen\<lparr>pn_bold := (at AND kAttrBold \<noteq> 0), pn_dim := (at AND kAttrDim \<noteq> 0),
     pn_underline := (at AND kAttrUnderline \<noteq> 0), pn_reverse := (at AND kAttrReverse \<noteq> 0)\<rparr>)"
    using attr_params_numbers by blast
  then show ?thesis using screen_sgr [OF assms(1,2)] assms(3) by (simp add: emit_attrs_csi Let_def)
qed

text \<open>The screen depends on the bytes only.\<close>

lemma screen_update [simp]:
  "screen T u0 (r\<lparr>rd_pen_fg := a\<rparr>) = screen T u0 r" "screen T u0 (r\<lparr>rd_pen_bg := a\<rparr>) = screen T u0 r"
  "screen T u0 (r\<lparr>rd_pen_attrs := b\<rparr>) = screen T u0 r" "screen T u0 (r\<lparr>rd_pen_valid := c\<rparr>) = screen T u0 r"
  "screen T u0 (r\<lparr>rd_cur_x := d\<rparr>) = screen T u0 r" "screen T u0 (r\<lparr>rd_cur_y := d\<rparr>) = screen T u0 r" "screen T u0 (r\<lparr>rd_cur_valid := c\<rparr>) = screen T u0 r"
  "screen T u0 (r\<lparr>rd_emitted := e\<rparr>) = screen T u0 r" "screen T u0 (r\<lparr>rd_examined := e\<rparr>) = screen T u0 r"
  by (simp_all add: screen_def)

text \<open>The attribute part of \<^verbatim>\<open>emit_pen\<close>, on its own.\<close>

definition pen_reset :: "cell \<Rightarrow> renderer \<Rightarrow> renderer" where
  "pen_reset c r =
     (let a = (append_bytes [0x1B, 0x5B, 0x30, 0x6D] r)\<lparr>rd_pen_valid := False\<rparr>;
          b = (if cl_attrs c \<noteq> 0 then emit_attrs (cl_attrs c) a else a)
      in b\<lparr>rd_pen_attrs := cl_attrs c\<rparr>)"

definition pen_color :: "cell \<Rightarrow> renderer \<Rightarrow> renderer" where
  "pen_color c r1 =
     (let fg = resolve_color (rd_mode r1) (cl_fg c);
          bg = resolve_color (rd_mode r1) (cl_bg c);
          r2 = (if \<not> rd_pen_valid r1 \<or> fg \<noteq> rd_pen_fg r1 then (emit_color True fg r1)\<lparr>rd_pen_fg := fg\<rparr> else r1);
          r3 = (if \<not> rd_pen_valid r2 \<or> bg \<noteq> rd_pen_bg r2 then (emit_color False bg r2)\<lparr>rd_pen_bg := bg\<rparr> else r2)
      in r3\<lparr>rd_pen_valid := True\<rparr>)"

lemma emit_pen_parts: "emit_pen c r = pen_color c (if \<not> rd_pen_valid r \<or> cl_attrs c \<noteq> rd_pen_attrs r then pen_reset c r else r)"
  by (simp only: emit_pen_def pen_color_def pen_reset_def Let_def)

lemma emit_color_fields [simp]:
  "rd_mode (emit_color f code r) = rd_mode r" "rd_pen_fg (emit_color f code r) = rd_pen_fg r" "rd_pen_bg (emit_color f code r) = rd_pen_bg r"
  "rd_pen_attrs (emit_color f code r) = rd_pen_attrs r" "rd_pen_valid (emit_color f code r) = rd_pen_valid r"
  "rd_cur_x (emit_color f code r) = rd_cur_x r" "rd_cur_y (emit_color f code r) = rd_cur_y r" "rd_cur_valid (emit_color f code r) = rd_cur_valid r"
  by (simp_all add: emit_color_csi)

lemma pen_reset_screen:
  assumes "vt_laws T w h" "vt_ready T (screen T u0 r)"
  shows "let u = screen T u0 r; r' = pen_reset c r; u' = screen T u0 r' in
    vt_ready T u' \<and> vt_cursor T u' = vt_cursor T u \<and> vt_cell T u' = vt_cell T u \<and> \<not> rd_pen_valid r' \<and> rd_pen_attrs r' = cl_attrs c \<and>
    rd_mode r' = rd_mode r \<and> (rd_cur_x r', rd_cur_y r', rd_cur_valid r') = (rd_cur_x r, rd_cur_y r, rd_cur_valid r) \<and>
    vt_pen T u' = (pen_of (rd_mode r) 0 0 (cl_attrs c))\<lparr>pn_fg := InkDefault, pn_bg := InkDefault\<rparr>"
proof -
  let ?a = "(append_bytes [0x1B, 0x5B, 0x30, 0x6D] r)\<lparr>rd_pen_valid := False\<rparr>"
  have A: "vt_ready T (screen T u0 ?a)" "vt_cursor T (screen T u0 ?a) = vt_cursor T (screen T u0 r)" "vt_cell T (screen T u0 ?a) = vt_cell T (screen T u0 r)"
    "vt_pen T (screen T u0 ?a) = plain_pen"
    using screen_reset [OF assms] by (simp_all add: Let_def)
  show ?thesis
    using screen_attrs [OF assms(1) A(1) A(4), of "cl_attrs c"] A
    by (simp add: pen_reset_def Let_def pen_of_def plain_pen_def) (simp add: emit_attrs_csi)
qed


lemma pen_color_screen:
  assumes L: "vt_laws T w h" and rdy: "vt_ready T (screen T u0 r)"
    and p: "vt_pen T (screen T u0 r) = (pen_of (rd_mode r) 0 0 (cl_attrs c))\<lparr>pn_fg := i, pn_bg := j\<rparr>"
    and valid: "rd_pen_valid r \<Longrightarrow> i = ink_of (rd_mode r) (rd_pen_fg r) \<and> j = ink_of (rd_mode r) (rd_pen_bg r)"
    and at: "rd_pen_attrs r = cl_attrs c"
  shows "let u = screen T u0 r; r' = pen_color c r; u' = screen T u0 r' in
    vt_ready T u' \<and> vt_cursor T u' = vt_cursor T u \<and> vt_cell T u' = vt_cell T u \<and> rd_pen_valid r' \<and> rd_mode r' = rd_mode r \<and>
    (rd_cur_x r', rd_cur_y r', rd_cur_valid r') = (rd_cur_x r, rd_cur_y r, rd_cur_valid r) \<and>
    rd_pen_fg r' = resolve_color (rd_mode r) (cl_fg c) \<and> rd_pen_bg r' = resolve_color (rd_mode r) (cl_bg c) \<and> rd_pen_attrs r' = cl_attrs c \<and>
    vt_pen T u' = snd (shown (rd_mode r) c)"
proof -
  let ?m = "rd_mode r" and ?fg = "resolve_color (rd_mode r) (cl_fg c)" and ?bg = "resolve_color (rd_mode r) (cl_bg c)"
  define r2 where "r2 = (if \<not> rd_pen_valid r \<or> ?fg \<noteq> rd_pen_fg r then (emit_color True ?fg r)\<lparr>rd_pen_fg := ?fg\<rparr> else r)"
  have S2: "vt_ready T (screen T u0 r2)" "vt_cursor T (screen T u0 r2) = vt_cursor T (screen T u0 r)" "vt_cell T (screen T u0 r2) = vt_cell T (screen T u0 r)"
      "vt_pen T (screen T u0 r2) = (pen_of ?m 0 0 (cl_attrs c))\<lparr>pn_fg := ink_of ?m ?fg, pn_bg := j\<rparr>"
    using screen_color [OF L rdy resolve_code_ok [of ?m "cl_fg c"], of True] rdy p valid by (auto simp: r2_def Let_def)
  have F2: "rd_mode r2 = ?m" "rd_pen_fg r2 = ?fg" "rd_pen_bg r2 = rd_pen_bg r" "rd_pen_attrs r2 = cl_attrs c" "rd_pen_valid r2 = rd_pen_valid r"
      "rd_cur_x r2 = rd_cur_x r" "rd_cur_y r2 = rd_cur_y r" "rd_cur_valid r2 = rd_cur_valid r"
    using at by (auto simp: r2_def)
  define r3 where "r3 = (if \<not> rd_pen_valid r2 \<or> ?bg \<noteq> rd_pen_bg r2 then (emit_color False ?bg r2)\<lparr>rd_pen_bg := ?bg\<rparr> else r2)"
  have S3: "vt_ready T (screen T u0 r3)" "vt_cursor T (screen T u0 r3) = vt_cursor T (screen T u0 r)" "vt_cell T (screen T u0 r3) = vt_cell T (screen T u0 r)"
      "vt_pen T (screen T u0 r3) = (pen_of ?m 0 0 (cl_attrs c))\<lparr>pn_fg := ink_of ?m ?fg, pn_bg := ink_of ?m ?bg\<rparr>"
    using screen_color [OF L S2(1) resolve_code_ok [of "rd_mode r2" "cl_bg c"], of False] S2 F2 valid by (auto simp: r3_def Let_def)
  have "pen_color c r = r3\<lparr>rd_pen_valid := True\<rparr>"
    by (simp only: pen_color_def Let_def r3_def r2_def)
  moreover have "rd_mode r3 = ?m" "rd_pen_fg r3 = ?fg" "rd_pen_bg r3 = ?bg" "rd_pen_attrs r3 = cl_attrs c"
      "rd_cur_x r3 = rd_cur_x r" "rd_cur_y r3 = rd_cur_y r" "rd_cur_valid r3 = rd_cur_valid r"
    using F2 by (auto simp: r3_def)
  ultimately show ?thesis using S3 by (simp add: Let_def shown_def pen_of_def)
qed

text \<open>Pen elision is invisible: afterwards the terminal's pen is the cell's, whatever was emitted.\<close>

lemma emit_pen_screen:
  assumes L: "vt_laws T w h" and tr: "tracks T u0 r"
  shows "let r' = emit_pen c r; u' = screen T u0 r' in
    tracks T u0 r' \<and> vt_cursor T u' = vt_cursor T (screen T u0 r) \<and> vt_cell T u' = vt_cell T (screen T u0 r) \<and> rd_mode r' = rd_mode r \<and>
    (rd_cur_x r', rd_cur_y r', rd_cur_valid r') = (rd_cur_x r, rd_cur_y r, rd_cur_valid r) \<and> vt_pen T u' = snd (shown (rd_mode r) c)"
proof -
  have rdy: "vt_ready T (screen T u0 r)" using tr by (simp add: tracks_def)
  define r1 where "r1 = (if \<not> rd_pen_valid r \<or> cl_attrs c \<noteq> rd_pen_attrs r then pen_reset c r else r)"
  have "\<exists>i j. vt_pen T (screen T u0 r1) = (pen_of (rd_mode r1) 0 0 (cl_attrs c))\<lparr>pn_fg := i, pn_bg := j\<rparr> \<and>
      (rd_pen_valid r1 \<longrightarrow> i = ink_of (rd_mode r1) (rd_pen_fg r1) \<and> j = ink_of (rd_mode r1) (rd_pen_bg r1)) \<and> rd_pen_attrs r1 = cl_attrs c"
    using tr pen_reset_screen [OF L rdy, of c] by (auto simp: r1_def Let_def tracks_def pen_of_def)
  then obtain i j where P: "vt_pen T (screen T u0 r1) = (pen_of (rd_mode r1) 0 0 (cl_attrs c))\<lparr>pn_fg := i, pn_bg := j\<rparr>"
      "rd_pen_valid r1 \<Longrightarrow> i = ink_of (rd_mode r1) (rd_pen_fg r1) \<and> j = ink_of (rd_mode r1) (rd_pen_bg r1)" "rd_pen_attrs r1 = cl_attrs c"
    by blast
  have Q: "vt_ready T (screen T u0 r1)" "vt_cursor T (screen T u0 r1) = vt_cursor T (screen T u0 r)" "vt_cell T (screen T u0 r1) = vt_cell T (screen T u0 r)"
      "rd_mode r1 = rd_mode r" "(rd_cur_x r1, rd_cur_y r1, rd_cur_valid r1) = (rd_cur_x r, rd_cur_y r, rd_cur_valid r)"
    using rdy pen_reset_screen [OF L rdy, of c] by (auto simp: r1_def Let_def)
  have e: "emit_pen c r = pen_color c r1" by (simp only: emit_pen_parts r1_def)
  show ?thesis
    using pen_color_screen [OF L Q(1) P] Q tr by (simp add: e Let_def tracks_def shown_def)
qed

lemma unat_coord: "0 \<le> z \<Longrightarrow> z < 2 ^ 31 \<Longrightarrow> unat (word_of_int z + 1 :: u32) = nat z + 1"
proof -
  assume z: "0 \<le> z" "z < 2 ^ 31"
  have "uint (word_of_int z :: u32) = z mod 2 ^ 32" by (simp only: uint_word_of_int) simp
  also have "\<dots> = z" using z by simp
  finally have "unat (word_of_int z :: u32) = nat z" by (simp add: unat_eq_nat_uint)
  then show ?thesis using z unat_plus1_small [of "word_of_int z :: u32"] by simp
qed

lemma move_to_screen:
  assumes L: "vt_laws T w h" and tr: "tracks T u0 r" and x: "0 \<le> x" "x < w" and y: "0 \<le> y" "y < h" and small: "w < 2 ^ 31" "h < 2 ^ 31"
  shows "let r' = move_to x y r; u' = screen T u0 r' in
    tracks T u0 r' \<and> vt_cursor T u' = Some (x, y) \<and> vt_cell T u' = vt_cell T (screen T u0 r) \<and> rd_mode r' = rd_mode r \<and>
    (rd_cur_x r', rd_cur_y r', rd_cur_valid r') = (x, y, True)"
proof (cases "rd_cur_valid r \<and> rd_cur_x r = x \<and> rd_cur_y r = y")
  case True
  then show ?thesis using tr by (auto simp: move_to_def Let_def tracks_def)
next
  case False
  have ps: "is_param (uint_bytes (word_of_int y + 1)) (nat y + 1)" "is_param (uint_bytes (word_of_int x + 1)) (nat x + 1)"
    using is_param_uint [of "word_of_int y + 1"] is_param_uint [of "word_of_int x + 1"] unat_coord x y small by simp_all
  let ?b = "csi [uint_bytes (word_of_int y + 1), uint_bytes (word_of_int x + 1)] 0x48"
  have m: "move_to x y r = (append_bytes ?b r)\<lparr>rd_cur_x := x, rd_cur_y := y, rd_cur_valid := True\<rparr>"
    unfolding move_to_def if_not_P [OF False] by (simp add: Let_def put_uint_def csi_def)
  have "vt_cup_law T w h" using L by (simp add: vt_laws_def)
  moreover have "vt_ready T (screen T u0 r)" using tr by (simp add: tracks_def)
  ultimately have "let u' = vt_feed T ?b (screen T u0 r) in vt_ready T u' \<and> vt_cursor T u' = Some (x, y) \<and> vt_pen T u' = vt_pen T (screen T u0 r) \<and>
      vt_cell T u' = vt_cell T (screen T u0 r)"
    using x y ps unfolding vt_cup_law_def by blast
  then show ?thesis using tr by (simp add: m Let_def tracks_def screen_append [OF L])
qed


section \<open>A frame\<close>

definition glyph_ok :: "cell \<Rightarrow> bool" where
  "glyph_ok c \<longleftrightarrow> cl_glyph c = 0 \<or> glyph_is_single_width (cl_glyph c)"

lemma single_width_scalar: "glyph_is_single_width g \<Longrightarrow> is_scalar g"
proof -
  assume "glyph_is_single_width g"
  then have "g \<le> 0x25FF" by (auto simp: glyph_is_single_width_def word_le_nat_alt)
  then show ?thesis by (auto simp: is_scalar_def word_le_nat_alt word_less_nat_alt)
qed

lemma put_utf8_screen:
  assumes L: "vt_laws T w h" and rdy: "vt_ready T (screen T u0 r)" and cur: "vt_cursor T (screen T u0 r) = Some (x, y)"
    and x: "0 \<le> x" "x < w" and y: "0 \<le> y" "y < h" and ok: "glyph_ok c"
  shows "let u = screen T u0 r; u' = screen T u0 (put_utf8 (cl_glyph c) r) in
    vt_ready T u' \<and> (x + 1 < w \<longrightarrow> vt_cursor T u' = Some (x + 1, y)) \<and> vt_pen T u' = vt_pen T u \<and>
    (\<forall>x' y'. vt_cell T u' x' y' = (if x' = x \<and> y' = y then (fst (shown m c), vt_pen T u) else vt_cell T u x' y'))"
proof -
  let ?g = "if cl_glyph c = 0 then 0x20 else cl_glyph c"
  have sw: "glyph_is_single_width ?g" using ok by (auto simp: glyph_ok_def glyph_is_single_width_def)
  have "map unat (utf8_encode ?g) = rfc3629 (unat ?g)" by (rule encode_rfc3629 [OF single_width_scalar [OF sw]])
  moreover have "vt_print_law T w h" using L by (simp add: vt_laws_def)
  ultimately have "let u' = vt_feed T (utf8_encode ?g) (screen T u0 r) in
      vt_ready T u' \<and> (x + 1 < w \<longrightarrow> vt_cursor T u' = Some (x + 1, y)) \<and> vt_pen T u' = vt_pen T (screen T u0 r) \<and>
      (\<forall>x' y'. vt_cell T u' x' y' = (if x' = x \<and> y' = y then (?g, vt_pen T (screen T u0 r)) else vt_cell T (screen T u0 r) x' y'))"
    using rdy cur x y sw unfolding vt_print_law_def by blast
  then show ?thesis unfolding put_utf8_def screen_append [OF L] shown_def Let_def fst_conv .
qed

definition fb_small :: "framebuffer \<Rightarrow> bool" where
  "fb_small fb \<longleftrightarrow> fb_w fb < 2 ^ 31 \<and> fb_h fb < 2 ^ 31"

text \<open>One cell: if it goes out at all, it goes out in the right place, glyph and pen, and nothing else changes.\<close>

lemma render_cell_screen:
  assumes L: "vt_laws T (fb_w fb) (fb_h fb)" and small: "fb_small fb" and tr: "tracks T u0 r" and c: "fb_contains fb x y"
    and ok: "glyph_ok (at_back fb x y)"
  shows "let r' = render_cell fb full x y r in tracks T u0 r' \<and> rd_mode r' = rd_mode r \<and>
    (\<forall>x' y'. vt_cell T (screen T u0 r') x' y' =
      (if x' = x \<and> y' = y \<and> (full \<or> at_back fb x y \<noteq> at_front fb x y) then shown (rd_mode r) (at_back fb x y) else vt_cell T (screen T u0 r) x' y'))"
proof (cases "\<not> full \<and> at_back fb x y = at_front fb x y")
  case True
  then show ?thesis using tr by (simp add: render_cell_def Let_def tracks_def)
next
  case False
  let ?now = "at_back fb x y" and ?m = "rd_mode r"
  have g: "0 \<le> x" "x < fb_w fb" "0 \<le> y" "y < fb_h fb" "fb_w fb < 2 ^ 31" "fb_h fb < 2 ^ 31"
    using c small by (simp_all add: fb_contains_def fb_small_def)
  define r0 where "r0 = r\<lparr>rd_examined := rd_examined r + 1\<rparr>"
  have tr0: "tracks T u0 r0" "screen T u0 r0 = screen T u0 r" "rd_mode r0 = ?m" using tr by (simp_all add: r0_def tracks_def)
  define r1 where "r1 = move_to x y r0"
  note M = move_to_screen [OF L tr0(1) g, folded r1_def, unfolded Let_def]
  define r2 where "r2 = emit_pen ?now r1"
  have M1: "tracks T u0 r1" using M by blast
  note P = emit_pen_screen [OF L M1, of ?now, folded r2_def, unfolded Let_def]
  have P2: "vt_ready T (screen T u0 r2)" "vt_cursor T (screen T u0 r2) = Some (x, y)" using P M by (simp_all add: tracks_def)
  define r3 where "r3 = put_utf8 (cl_glyph ?now) r2"
  note U = put_utf8_screen [OF L P2 g(1-4) ok, of ?m, folded r3_def, unfolded Let_def]
  have F3: "rd_mode r3 = ?m" "rd_cur_x r3 = x" "rd_cur_y r3 = y" "rd_cur_valid r3 = True" "rd_pen_valid r3 = rd_pen_valid r2"
      "rd_pen_fg r3 = rd_pen_fg r2" "rd_pen_bg r3 = rd_pen_bg r2" "rd_pen_attrs r3 = rd_pen_attrs r2" "rd_mode r2 = ?m"
    using P M tr0(3) by (simp_all add: r3_def put_utf8_def)
  have e: "render_cell fb full x y r = (let r4 = r3\<lparr>rd_emitted := rd_emitted r3 + 1, rd_cur_x := rd_cur_x r3 + 1\<rparr>
      in if rd_cur_x r4 \<ge> fb_w fb then r4\<lparr>rd_cur_valid := False\<rparr> else r4)"
    unfolding render_cell_def Let_def if_not_P [OF False] r0_def r1_def r2_def r3_def ..
  have "tracks T u0 (render_cell fb full x y r)" "rd_mode (render_cell fb full x y r) = ?m" "screen T u0 (render_cell fb full x y r) = screen T u0 r3"
    using U P F3 by (auto simp: e Let_def tracks_def)
  moreover have "(fst (shown ?m ?now), vt_pen T (screen T u0 r2)) = shown ?m ?now" using P M tr0(3) by simp
  ultimately show ?thesis using U P M tr0(2) False by (simp add: Let_def)
qed

lemma fold_rows: "fold (\<lambda>y r. fold (\<lambda>x r. f x y r) xs r) ys r = fold (\<lambda>(x, y). f x y) (concat (map (\<lambda>y. map (\<lambda>x. (x, y)) xs) ys)) r"
proof (induction ys arbitrary: r)
  case (Cons y ys)
  have "fold (\<lambda>(x, y). f x y) (map (\<lambda>x. (x, y)) zs) s = fold (\<lambda>x r. f x y r) zs s" for zs s
    by (induction zs arbitrary: s) simp_all
  then show ?case using Cons by simp
qed simp

lemma render_cells_screen:
  assumes L: "vt_laws T (fb_w fb) (fb_h fb)" and small: "fb_small fb" and tr: "tracks T u0 r"
    and cs: "\<forall>(x, y) \<in> set cs. fb_contains fb x y \<and> glyph_ok (at_back fb x y)"
  shows "let r' = fold (\<lambda>(x, y). render_cell fb full x y) cs r in tracks T u0 r' \<and> rd_mode r' = rd_mode r \<and>
    (\<forall>x y. vt_cell T (screen T u0 r') x y =
      (if (x, y) \<in> set cs \<and> (full \<or> at_back fb x y \<noteq> at_front fb x y) then shown (rd_mode r) (at_back fb x y) else vt_cell T (screen T u0 r) x y))"
  using tr cs
proof (induction cs arbitrary: r)
  case (Cons c cs)
  obtain x y where c: "c = (x, y)" by fastforce
  have "fb_contains fb x y" "glyph_ok (at_back fb x y)" using Cons.prems c by auto
  note R = render_cell_screen [OF L small Cons.prems(1) this, of full, unfolded Let_def]
  have "tracks T u0 (render_cell fb full x y r)" using R by blast
  from Cons.IH [OF this] show ?case using R Cons.prems(2) by (auto simp: c Let_def)
qed (simp add: Let_def)


lemma grid_cells: "(x, y) \<in> set (concat (map (\<lambda>y. map (\<lambda>x. (x, y)) [0 .. fb_w fb - 1]) [0 .. fb_h fb - 1])) \<longleftrightarrow> fb_contains fb x y"
  by (auto simp: fb_contains_def image_iff)

definition shows_cells :: "'u vt \<Rightarrow> color_mode \<Rightarrow> framebuffer \<Rightarrow> (int \<Rightarrow> int \<Rightarrow> cell) \<Rightarrow> 'u \<Rightarrow> bool" where
  "shows_cells T m fb pic u \<longleftrightarrow> (\<forall>x y. fb_contains fb x y \<longrightarrow> vt_cell T u x y = shown m (pic x y))"

lemma render_screen:
  assumes L: "vt_laws T (fb_w fb) (fb_h fb)" and small: "fb_small fb" and rdy: "vt_ready T u0"
    and ok: "\<forall>x y. fb_contains fb x y \<longrightarrow> glyph_ok (at_back fb x y)"
    and before: "full \<or> shows_cells T (rd_mode r) fb (at_front fb) u0"
  shows "let r' = snd (render fb full r); u' = vt_feed T (rd_out r') u0 in
    rd_mode r' = rd_mode r \<and> fst (render fb full r) = length (rd_out r') \<and> vt_ready T u' \<and>
    shows_cells T (rd_mode r) fb (at_back fb) u' \<and> (\<forall>x y. \<not> fb_contains fb x y \<longrightarrow> vt_cell T u' x y = vt_cell T u0 x y)"
proof -
  let ?r0 = "r\<lparr>rd_out := [], rd_pen_valid := False, rd_cur_valid := False, rd_emitted := 0, rd_examined := 0\<rparr>"
  have feed0: "vt_feed T [] u = u" for u using L by (simp add: vt_laws_def)
  show ?thesis
  proof (cases "fb_empty fb")
    case True
    then show ?thesis using rdy by (auto simp: render_def Let_def feed0 shows_cells_def fb_empty_def fb_contains_def)
  next
    case False
    let ?cs = "concat (map (\<lambda>y. map (\<lambda>x. (x, y)) [0 .. fb_w fb - 1]) [0 .. fb_h fb - 1])"
    have tr: "tracks T u0 ?r0" using rdy by (simp add: tracks_def screen_def feed0)
    have cs: "\<forall>(x, y) \<in> set ?cs. fb_contains fb x y \<and> glyph_ok (at_back fb x y)" using ok grid_cells by blast
    define r1 where "r1 = fold (\<lambda>y r. fold (\<lambda>x r. render_cell fb full x y r) [0 .. fb_w fb - 1] r) [0 .. fb_h fb - 1] ?r0"
    have r1: "r1 = fold (\<lambda>(x, y). render_cell fb full x y) ?cs ?r0" by (simp only: r1_def fold_rows)
    note C = render_cells_screen [OF L small tr cs, of full, folded r1, unfolded Let_def grid_cells]
    have s0: "screen T u0 ?r0 = u0" by (simp add: screen_def feed0)
    define r2 where "r2 = (if rd_out r1 \<noteq> [] then append_bytes [0x1B, 0x5B, 0x30, 0x6D] r1 else r1)"
    have e: "render fb full r = (length (rd_out r2), r2)" using False by (simp only: render_def Let_def r2_def r1_def if_False)
    have rdy1: "vt_ready T (screen T u0 r1)" using C by (simp add: tracks_def)
    have "vt_ready T (screen T u0 r2)" "vt_cell T (screen T u0 r2) = vt_cell T (screen T u0 r1)" "rd_mode r2 = rd_mode r"
      using screen_reset [OF L rdy1] rdy1 C by (auto simp: r2_def Let_def)
    then show ?thesis using C s0 before by (auto simp: e Let_def shows_cells_def screen_def [symmetric])
  qed
qed

lemma ok_small: "fb_ok fb \<Longrightarrow> \<not> fb_empty fb \<Longrightarrow> fb_small fb"
proof -
  assume ok: "fb_ok fb" and ne: "\<not> fb_empty fb"
  then have "fb_w fb * 1 \<le> fb_w fb * fb_h fb" "1 * fb_h fb \<le> fb_w fb * fb_h fb"
    by (intro mult_left_mono mult_right_mono; simp add: fb_empty_def)+
  then show ?thesis using ok by (simp add: fb_small_def fb_ok_def kMaxCells_def)
qed

lemma render_frame:
  assumes "vt_laws T (fb_w fb) (fb_h fb)" "fb_ok fb" "vt_ready T u"
    and "\<forall>x y. fb_contains fb x y \<longrightarrow> glyph_ok (at_back fb x y)"
    and "full \<or> shows_cells T (rd_mode r) fb (at_front fb) u"
  shows "let r' = snd (render fb full r); u' = vt_feed T (rd_out r') u in
    rd_mode r' = rd_mode r \<and> fst (render fb full r) = length (rd_out r') \<and>
    vt_ready T u' \<and> shows_cells T (rd_mode r) fb (at_back fb) u' \<and> (\<forall>x y. \<not> fb_contains fb x y \<longrightarrow> vt_cell T u' x y = vt_cell T u x y)"
proof (cases "fb_empty fb")
  case True
  have feed0: "vt_feed T [] u = u" using assms(1) by (simp add: vt_laws_def)
  show ?thesis using True assms(3) by (auto simp: render_def Let_def feed0 shows_cells_def fb_empty_def fb_contains_def)
next
  case False
  then show ?thesis
    using render_screen [OF assms(1) ok_small assms(3-5)] assms(2) by (simp add: Let_def)
qed

text \<open>
  (C10) The screen shows what was drawn: on any terminal with the control sequences of ECMA-48, if the screen shows the front buffer (or
  the repaint is full), then the bytes \<^verbatim>\<open>render\<close> produces for a frame, with every elision of unchanged cells, pens and cursor
  moves, make every cell of the screen show the glyph, colours and attributes of the back buffer, and touch no cell outside the grid.
\<close>

theorem render_shows_back_buffer:
  assumes "vt_laws T (fb_w fb) (fb_h fb)" "fb_ok fb" "vt_ready T u"
    and "\<forall>x y. fb_contains fb x y \<longrightarrow> glyph_ok (at_back fb x y)"
    and "full \<or> shows_cells T (rd_mode r) fb (at_front fb) u"
  shows "let r' = snd (render fb full r); u' = vt_feed T (rd_out r') u in
    vt_ready T u' \<and> shows_cells T (rd_mode r) fb (at_back fb) u' \<and> (\<forall>x y. \<not> fb_contains fb x y \<longrightarrow> vt_cell T u' x y = vt_cell T u x y)"
  using render_frame [OF assms] by (simp add: Let_def)

end
