(* ===== verification/Vt_Demo.thy ===== *)
theory Vt_Demo
  imports Render_Correct
begin

text \<open>
  A terminal with the laws of \<open>Vt_Terminal\<close>: a byte-by-byte interpreter for cursor position, graphic rendition and
  UTF-8. It shows that the hypotheses on the terminal can hold and lets frames be computed.
\<close>

datatype vt_state = VGround | VEsc | VCsi "nat list" "nat option" | VUtf nat nat

record demo_term =
  dm_state :: vt_state
  dm_cells :: "int \<Rightarrow> int \<Rightarrow> u32 \<times> pen"
  dm_cursor :: "(int \<times> int) option"
  dm_pen :: pen

definition dm_print :: "int \<Rightarrow> u32 \<Rightarrow> demo_term \<Rightarrow> demo_term" where
  "dm_print w cp d =
     (case dm_cursor d of
        None \<Rightarrow> d\<lparr>dm_state := VGround\<rparr>
      | Some (x, y) \<Rightarrow> d\<lparr>dm_state := VGround, dm_cells := (\<lambda>x' y'. if x' = x \<and> y' = y then (cp, dm_pen d) else dm_cells d x' y'),
          dm_cursor := (if x + 1 < w then Some (x + 1, y) else None)\<rparr>)"

definition dm_final :: "u8 \<Rightarrow> nat list \<Rightarrow> demo_term \<Rightarrow> demo_term" where
  "dm_final b ns d =
     (if b = 0x6D then d\<lparr>dm_state := VGround, dm_pen := (case sgr_params ns (dm_pen d) of None \<Rightarrow> dm_pen d | Some p \<Rightarrow> p)\<rparr>
      else if b = 0x48 then (case ns of [r, c] \<Rightarrow> d\<lparr>dm_state := VGround, dm_cursor := Some (int c - 1, int r - 1)\<rparr> | _ \<Rightarrow> d\<lparr>dm_state := VGround\<rparr>)
      else d\<lparr>dm_state := VGround\<rparr>)"

definition dm_byte :: "int \<Rightarrow> u8 \<Rightarrow> demo_term \<Rightarrow> demo_term" where
  "dm_byte w b d =
     (case dm_state d of
        VGround \<Rightarrow>
          (if b = 0x1B then d\<lparr>dm_state := VEsc\<rparr>
           else if unat b < 128 then dm_print w (ucast b) d
           else if 224 \<le> unat b \<and> unat b < 240 then d\<lparr>dm_state := VUtf 2 (unat b - 224)\<rparr>
           else d)
      | VEsc \<Rightarrow> if b = 0x5B then d\<lparr>dm_state := VCsi [] None\<rparr> else d\<lparr>dm_state := VGround\<rparr>
      | VCsi ns cur \<Rightarrow>
          (case digit_of b of
             Some v \<Rightarrow> d\<lparr>dm_state := VCsi ns (Some ((case cur of None \<Rightarrow> 0 | Some a \<Rightarrow> a) * 10 + v))\<rparr>
           | None \<Rightarrow>
               (let ns' = ns @ (case cur of None \<Rightarrow> [] | Some a \<Rightarrow> [a])
                in if b = 0x3B then d\<lparr>dm_state := VCsi ns' None\<rparr> else dm_final b ns' d))
      | VUtf k acc \<Rightarrow>
          (let acc' = acc * 64 + (unat b - 128) in if k \<le> 1 then dm_print w (word_of_nat acc') d else d\<lparr>dm_state := VUtf (k - 1) acc'\<rparr>))"

definition demo_vt :: "int \<Rightarrow> demo_term vt" where
  "demo_vt w = \<lparr>vt_feed = fold (dm_byte w), vt_ready = (\<lambda>d. dm_state d = VGround), vt_cell = dm_cells, vt_cursor = dm_cursor, vt_pen = dm_pen\<rparr>"

section \<open>Its laws\<close>

lemma fold_digits:
  "param_value acc bs = Some n \<Longrightarrow> fold (dm_byte w) bs (d\<lparr>dm_state := VCsi ns (Some acc)\<rparr>) = d\<lparr>dm_state := VCsi ns (Some n)\<rparr>"
proof (induction bs arbitrary: acc)
  case (Cons b bs)
  then obtain v where "digit_of b = Some v" "param_value (acc * 10 + v) bs = Some n" by (auto split: option.splits)
  then show ?case using Cons.IH by (simp add: dm_byte_def)
qed simp

lemma fold_param: "is_param bs n \<Longrightarrow> fold (dm_byte w) bs (d\<lparr>dm_state := VCsi ns None\<rparr>) = d\<lparr>dm_state := VCsi ns (Some n)\<rparr>"
proof (cases bs)
  case (Cons b bs')
  assume p: "is_param bs n"
  then obtain v where v: "digit_of b = Some v" "param_value v bs' = Some n" by (auto simp: is_param_def Cons split: option.splits)
  then show ?thesis using fold_digits [OF v(2)] by (simp add: Cons dm_byte_def)
qed (simp add: is_param_def)

lemma fold_params:
  "list_all2 is_param ds ks \<Longrightarrow> fold (dm_byte w) (join_params ds) (d\<lparr>dm_state := VCsi ns None\<rparr>) =
     (if ds = [] then d\<lparr>dm_state := VCsi ns None\<rparr> else d\<lparr>dm_state := VCsi (ns @ butlast ks) (Some (last ks))\<rparr>)"
proof (induction ds arbitrary: ks ns rule: join_params.induct)
  case (2 a)
  then show ?case by (auto simp: list_all2_Cons1 fold_param)
next
  case (3 a b ds)
  then obtain k l ks' where k: "ks = k # l # ks'" "is_param a k" "list_all2 is_param (b # ds) (l # ks')"
    by (auto simp: list_all2_Cons1)
  have "dm_byte w 0x3B (d\<lparr>dm_state := VCsi ns (Some k)\<rparr>) = d\<lparr>dm_state := VCsi (ns @ [k]) None\<rparr>"
    by (simp add: dm_byte_def digit_of_def)
  then show ?case using k fold_param [OF k(2)] "3.IH" [OF k(3), of "ns @ [k]"] by simp
qed simp

lemma fold_csi:
  assumes "list_all2 is_param ds ks" "dm_state d = VGround" "digit_of final = None" "final \<noteq> 0x3B"
  shows "fold (dm_byte w) (csi ds final) d = dm_final final ks (d\<lparr>dm_state := VCsi (butlast ks) (if ks = [] then None else Some (last ks))\<rparr>)"
proof -
  have "dm_byte w 0x5B (dm_byte w 0x1B d) = d\<lparr>dm_state := VCsi [] None\<rparr>" using assms(2) by (simp add: dm_byte_def)
  moreover have "ds = [] \<longleftrightarrow> ks = []" using assms(1) by auto
  ultimately show ?thesis
    using assms fold_params [OF assms(1), where ns = "[]" and d = d and w = w] by (auto simp: csi_def dm_byte_def Let_def)
qed

lemma demo_cup: "vt_cup_law (demo_vt w) w h"
  unfolding vt_cup_law_def
proof (intro allI impI)
  fix u :: demo_term and dr dc :: "u8 list" and x y :: int
  assume a: "vt_ready (demo_vt w) u" "0 \<le> x" "0 \<le> y" "is_param dr (nat y + 1)" "is_param dc (nat x + 1)"
  have "list_all2 is_param [dr, dc] [nat y + 1, nat x + 1]" using a by simp
  then have "fold (dm_byte w) (csi [dr, dc] 0x48) u =
      dm_final 0x48 [nat y + 1, nat x + 1] (u\<lparr>dm_state := VCsi (butlast [nat y + 1, nat x + 1]) (Some (nat x + 1))\<rparr>)"
    using a(1) fold_csi [of "[dr, dc]" "[nat y + 1, nat x + 1]" u "0x48" w] by (simp add: demo_vt_def digit_of_def)
  then show "let u' = vt_feed (demo_vt w) (csi [dr, dc] 0x48) u in
      vt_ready (demo_vt w) u' \<and> vt_cursor (demo_vt w) u' = Some (x, y) \<and> vt_pen (demo_vt w) u' = vt_pen (demo_vt w) u \<and> vt_cell (demo_vt w) u' = vt_cell (demo_vt w) u"
    using a(2,3) by (simp add: demo_vt_def dm_final_def Let_def)
qed

lemma demo_sgr: "vt_sgr_law (demo_vt w)"
  unfolding vt_sgr_law_def
proof (intro allI impI)
  fix u :: demo_term and ds ns p
  assume a: "vt_ready (demo_vt w) u" "list_all2 is_param ds ns" "sgr_params ns (vt_pen (demo_vt w) u) = Some p"
  then show "let u' = vt_feed (demo_vt w) (csi ds 0x6D) u in
      vt_ready (demo_vt w) u' \<and> vt_cursor (demo_vt w) u' = vt_cursor (demo_vt w) u \<and> vt_pen (demo_vt w) u' = p \<and> vt_cell (demo_vt w) u' = vt_cell (demo_vt w) u"
    using fold_csi [of ds ns u "0x6D" w] by (simp add: demo_vt_def digit_of_def dm_final_def Let_def)
qed

lemma demo_print_bytes:
  assumes g: "dm_state u = VGround" and sw: "glyph_is_single_width cp" and bs: "map unat bs = rfc3629 (unat cp)"
  shows "fold (dm_byte w) bs u = dm_print w cp u"
proof -
  have "unat cp < 128 \<and> unat cp \<ge> 32 \<or> 0x800 \<le> unat cp \<and> unat cp < 0x10000"
    using sw by (auto simp: glyph_is_single_width_def word_le_nat_alt)
  then show ?thesis
  proof
    assume n: "unat cp < 128 \<and> unat cp \<ge> 32"
    then obtain b where b: "bs = [b]" "unat b = unat cp" using bs by (auto simp: rfc3629_def)
    have "ucast b = cp" using n b by (intro word_unat_eqI) (simp add: unsigned_ucast_eq take_bit_eq_mod)
    moreover have "b \<noteq> 0x1B" using n b by auto
    ultimately show ?thesis using n b g by (simp add: dm_byte_def)
  next
    assume n: "0x800 \<le> unat cp \<and> unat cp < 0x10000"
    then obtain a b c where abc: "bs = [a, b, c]" "unat a = 224 + unat cp div 4096" "unat b = 128 + unat cp div 64 mod 64" "unat c = 128 + unat cp mod 64"
      using bs by (auto simp: rfc3629_def map_eq_Cons_conv)
    have "unat cp div 4096 < 16" using n by (simp add: less_mult_imp_div_less)
    moreover have "a \<noteq> 0x1B" using abc(2) by auto
    moreover have "(unat cp div 4096 * 64 + unat cp div 64 mod 64) * 64 + unat cp mod 64 = unat cp" using div_mod_decomp_split3 [of "unat cp"] by simp
    then have "word_of_nat ((unat cp div 4096 * 64 + unat cp div 64 mod 64) * 64 + unat cp mod 64) = cp" by (simp del: of_nat_add of_nat_mult)
    moreover have "dm_print w cp (u\<lparr>dm_state := s\<rparr>) = dm_print w cp u" for s by (auto simp: dm_print_def cong: if_cong split: option.splits)
    ultimately show ?thesis using g abc by (simp add: dm_byte_def del: of_nat_add of_nat_mult)
  qed
qed

lemma demo_print: "vt_print_law (demo_vt w) w h"
  unfolding vt_print_law_def
proof (intro allI impI)
  fix u :: demo_term and x y :: int and bs :: "u8 list" and cp
  assume "vt_ready (demo_vt w) u" "vt_cursor (demo_vt w) u = Some (x, y)" "glyph_is_single_width cp" "map unat bs = rfc3629 (unat cp)"
  then show "let u' = vt_feed (demo_vt w) bs u in
      vt_ready (demo_vt w) u' \<and> (x + 1 < w \<longrightarrow> vt_cursor (demo_vt w) u' = Some (x + 1, y)) \<and> vt_pen (demo_vt w) u' = vt_pen (demo_vt w) u \<and>
      (\<forall>x' y'. vt_cell (demo_vt w) u' x' y' = (if x' = x \<and> y' = y then (cp, vt_pen (demo_vt w) u) else vt_cell (demo_vt w) u x' y'))"
    using demo_print_bytes [of u cp bs w] by (simp add: demo_vt_def dm_print_def Let_def)
qed

lemma demo_laws: "vt_laws (demo_vt w) w h"
  using demo_cup demo_sgr demo_print by (auto simp: vt_laws_def demo_vt_def)


section \<open>A frame on it\<close>

definition demo_start :: demo_term where
  "demo_start = \<lparr>dm_state = VGround, dm_cells = (\<lambda>_ _. (0x3F, plain_pen)), dm_cursor = None, dm_pen = plain_pen\<rparr>"

definition demo_frame :: framebuffer where
  "demo_frame = fold run_draw [DText 0 0 [0x41, 0x42] 0x58C7F3 0 kAttrBold, DPut 1 1 (mk_cell 0x2588 0x808080 0xFF0000 0)] (snd (fb_resize 3 2 framebuffer_new))"

lemma demo_frame_ok: "fb_ok demo_frame" "fb_w demo_frame = 3" "fb_h demo_frame = 2"
proof -
  have ok: "fb_ok (snd (fb_resize 3 2 framebuffer_new))" by (simp add: fb_resize_def framebuffer_new_def kMaxCells_def fb_ok_def)
  have "same_frame (snd (fb_resize 3 2 framebuffer_new)) demo_frame"
    using run_draw_exact [OF ok, of "DText 0 0 [0x41, 0x42] 0x58C7F3 0 kAttrBold"] unfolding demo_frame_def
    by simp (blast intro: same_frame_trans put_frame)
  then show "fb_ok demo_frame" "fb_w demo_frame = 3" "fb_h demo_frame = 2"
    using same_frame_ok [OF _ ok] by (auto simp: same_frame_def fb_resize_def kMaxCells_def)
qed

lemma demo_frame_cells:
  assumes "fb_contains demo_frame x y"
  shows "at_back demo_frame x y = (if (x, y) = (0, 0) then mk_cell 0x41 0x58C7F3 0 kAttrBold else if (x, y) = (1, 0) then mk_cell 0x42 0x58C7F3 0 kAttrBold
    else if (x, y) = (1, 1) then mk_cell 0x2588 0x808080 0xFF0000 0 else empty_cell)"
proof -
  have f: "at_back demo_frame 0 0 = mk_cell 0x41 0x58C7F3 0 kAttrBold" "at_back demo_frame 1 0 = mk_cell 0x42 0x58C7F3 0 kAttrBold" "at_back demo_frame 2 0 = empty_cell"
      "at_back demo_frame 0 1 = empty_cell" "at_back demo_frame 1 1 = mk_cell 0x2588 0x808080 0xFF0000 0" "at_back demo_frame 2 1 = empty_cell"
    by code_simp+
  have "x \<in> {0, 1, 2}" "y \<in> {0, 1}" using assms by (auto simp: fb_contains_def demo_frame_ok)
  then show ?thesis using f by auto
qed

text \<open>A 3 by 2 frame in 256 colours, painted over a screen full of question marks.\<close>

theorem render_shows_back_buffer_witness:
  "shows_cells (demo_vt 3) Cube256 demo_frame (at_back demo_frame)
     (vt_feed (demo_vt 3) (rd_out (snd (render demo_frame True (set_color_mode Cube256 renderer_new)))) demo_start)"
proof -
  have "\<forall>x y. fb_contains demo_frame x y \<longrightarrow> glyph_ok (at_back demo_frame x y)"
    using demo_frame_cells by (auto simp: glyph_ok_def glyph_is_single_width_def mk_cell_def empty_cell_def)
  moreover have "vt_laws (demo_vt 3) (fb_w demo_frame) (fb_h demo_frame)" by (simp add: demo_frame_ok demo_laws)
  moreover have "vt_ready (demo_vt 3) demo_start" by (simp add: demo_vt_def demo_start_def)
  ultimately show ?thesis
    using render_shows_back_buffer [of "demo_vt 3" demo_frame demo_start True "set_color_mode Cube256 renderer_new"] demo_frame_ok(1)
    by (simp add: Let_def set_color_mode_def)
qed

end
