(* ===== verification/Render_Bounds.thy ===== *)
theory Render_Bounds
  imports Render_Correct
begin

text \<open>
  What a frame costs: the cells examined and emitted, the bytes per emitted cell, and that the buffer \<^verbatim>\<open>reserve\<close> sets aside
  holds every frame of that size, so that rendering never reallocates.
\<close>

lemma length_tmp_digits: "v < 10 ^ Suc k \<Longrightarrow> length (tmp_digits v) \<le> Suc k"
proof (induction k arbitrary: v)
  case 0
  then show ?case by (simp add: tmp_digits.simps [of v])
next
  case (Suc k)
  have "v div 10 < 10 ^ Suc k" using Suc.prems by (simp add: div_less_iff_less_mult)
  then show ?case using Suc.IH [of "v div 10"] by (simp add: tmp_digits.simps [of v])
qed

lemma length_uint3: "unat v < 1000 \<Longrightarrow> length (uint_bytes v) \<le> 3"
  using length_tmp_digits [of "unat v" 2] by (simp add: uint_bytes_def)

lemma length_uint7: "unat v < 10000000 \<Longrightarrow> length (uint_bytes v) \<le> 7"
  using length_tmp_digits [of "unat v" 6] by (simp add: uint_bytes_def)

lemma unat_byte: "unat (w AND 0xFF :: u32) < 1000"
  using unat_and_mask [of w 8] by (simp add: less_le_trans [OF mod_less_divisor])

lemma length_color: "length (csi (color_params m f (resolve_color m c)) 0x6D) \<le> 19"
proof (cases m)
  case TrueColor
  then show ?thesis
    using length_uint3 [OF unat_byte [of "drop_bit 16 c"]] length_uint3 [OF unat_byte [of "drop_bit 8 c"]] length_uint3 [OF unat_byte [of c]]
    by (simp add: csi_def color_params_def)
next
  case Cube256
  have "unat (ucast (rgb_to_cube256 c) :: u32) < 1000"
    using unat_lt_exp [of "rgb_to_cube256 c"] by (simp add: unsigned_ucast_eq take_bit_eq_mod)
  then show ?thesis using Cube256 length_uint3 by (fastforce simp: csi_def color_params_def)
next
  case Ansi16
  let ?k = "resolve_color m c"
  have "unat ?k < 16" using resolve_code_ok [of m c] Ansi16 by (simp add: code_ok_def)
  from ansi_number [OF this, of f] this
  have "unat (if ?k < 8 then (if f then 30 else 40) + ?k else (if f then 90 else 100) + (?k - 8)) < 1000"
    by (simp only:) (simp split: if_splits)
  from length_uint3 [OF this] show ?thesis
    unfolding Ansi16 color_params_def csi_def color_mode.case by simp
qed


lemma length_attrs: "length (csi (attr_params at) 0x6D) \<le> 10"
  by (cases "at AND kAttrBold = 0"; cases "at AND kAttrDim = 0"; cases "at AND kAttrUnderline = 0"; cases "at AND kAttrReverse = 0")
    (simp_all add: attr_params_def csi_def)

lemma length_emit_pen: "length (rd_out r) \<le> length (rd_out (emit_pen c r))" "length (rd_out (emit_pen c r)) \<le> length (rd_out r) + 52"
proof -
  define r1 where "r1 = (if \<not> rd_pen_valid r \<or> cl_attrs c \<noteq> rd_pen_attrs r then pen_reset c r else r)"
  have r1: "length (rd_out r) \<le> length (rd_out r1)" "length (rd_out r1) \<le> length (rd_out r) + 14"
    using length_attrs [of "cl_attrs c"] by (auto simp: r1_def pen_reset_def Let_def emit_attrs_csi)
  have col: "length (rd_out (emit_color f (resolve_color m x) s)) \<le> length (rd_out s) + 19" "length (rd_out s) \<le> length (rd_out (emit_color f code s))"
    if "rd_mode s = m" for f m x s code
    using length_color [of m f x] that by (simp_all add: emit_color_csi)
  define r2 where "r2 = (if \<not> rd_pen_valid r1 \<or> resolve_color (rd_mode r1) (cl_fg c) \<noteq> rd_pen_fg r1
    then (emit_color True (resolve_color (rd_mode r1) (cl_fg c)) r1)\<lparr>rd_pen_fg := resolve_color (rd_mode r1) (cl_fg c)\<rparr> else r1)"
  have r2: "length (rd_out r1) \<le> length (rd_out r2)" "length (rd_out r2) \<le> length (rd_out r1) + 19" "rd_mode r2 = rd_mode r1"
    using col [of r1] by (simp_all add: r2_def)
  have e: "emit_pen c r = (if \<not> rd_pen_valid r2 \<or> resolve_color (rd_mode r1) (cl_bg c) \<noteq> rd_pen_bg r2
    then (emit_color False (resolve_color (rd_mode r1) (cl_bg c)) r2)\<lparr>rd_pen_bg := resolve_color (rd_mode r1) (cl_bg c)\<rparr> else r2)\<lparr>rd_pen_valid := True\<rparr>"
    by (simp only: emit_pen_parts pen_color_def Let_def r1_def r2_def)
  have "length (rd_out r2) \<le> length (rd_out (emit_pen c r))" "length (rd_out (emit_pen c r)) \<le> length (rd_out r2) + 19"
    using col [OF r2(3)] unfolding e by simp_all
  then show "length (rd_out r) \<le> length (rd_out (emit_pen c r))" "length (rd_out (emit_pen c r)) \<le> length (rd_out r) + 52"
    using r1 r2 by linarith+
qed

lemma counters:
  "rd_examined (append_bytes s r) = rd_examined r" "rd_emitted (append_bytes s r) = rd_emitted r"
  "rd_examined (move_to x y r) = rd_examined r" "rd_emitted (move_to x y r) = rd_emitted r"
  "rd_examined (emit_pen c r) = rd_examined r" "rd_emitted (emit_pen c r) = rd_emitted r"
  by (simp_all add: append_bytes_def move_to_def put_uint_def Let_def emit_pen_parts pen_color_def pen_reset_def emit_color_csi emit_attrs_csi)

lemma length_move_to:
  assumes "0 \<le> x" "x < 4194304" "0 \<le> y" "y < 4194304"
  shows "length (rd_out r) \<le> length (rd_out (move_to x y r))" "length (rd_out (move_to x y r)) \<le> length (rd_out r) + 18"
proof -
  have num: "unat (word_of_int z + 1 :: u32) < 10000000" if "0 \<le> z" "z < 4194304" for z
    using unat_coord [of z] that by simp
  show "length (rd_out r) \<le> length (rd_out (move_to x y r))" "length (rd_out (move_to x y r)) \<le> length (rd_out r) + 18"
    using length_uint7 [OF num [OF assms(1,2)]] length_uint7 [OF num [OF assms(3,4)]] by (simp_all add: move_to_def Let_def put_uint_def)
qed

definition fb_dims :: "framebuffer \<Rightarrow> bool" where
  "fb_dims fb \<longleftrightarrow> fb_w fb \<le> 4194304 \<and> fb_h fb \<le> 4194304"

definition changed :: "framebuffer \<Rightarrow> bool \<Rightarrow> int \<times> int \<Rightarrow> bool" where
  "changed fb full p \<longleftrightarrow> full \<or> at_back fb (fst p) (snd p) \<noteq> at_front fb (fst p) (snd p)"

lemma put_utf8_length: "length (rd_out r) < length (rd_out (put_utf8 g r))" "length (rd_out (put_utf8 g r)) \<le> length (rd_out r) + 4"
  using length_encode_le length_encode by (auto simp: put_utf8_def rfc3629_def)

lemma render_cell_cost:
  assumes d: "fb_dims fb" and c: "fb_contains fb x y"
  shows "let r' = render_cell fb full x y r; k = (if changed fb full (x, y) then 1 else 0) in
    rd_examined r' = rd_examined r + 1 \<and> rd_emitted r' = rd_emitted r + k \<and>
    length (rd_out r) + k \<le> length (rd_out r') \<and> length (rd_out r') \<le> length (rd_out r) + 74 * k"
proof (cases "changed fb full (x, y)")
  case False
  then show ?thesis by (simp add: changed_def render_cell_def Let_def)
next
  case True
  let ?now = "at_back fb x y"
  define r0 where "r0 = r\<lparr>rd_examined := rd_examined r + 1\<rparr>"
  define r1 where "r1 = move_to x y r0"
  define r2 where "r2 = emit_pen ?now r1"
  define r3 where "r3 = put_utf8 (cl_glyph ?now) r2"
  have nf: "\<not> (\<not> full \<and> at_back fb x y = at_front fb x y)" using True by (simp add: changed_def)
  have e: "render_cell fb full x y r = (let r4 = r3\<lparr>rd_emitted := rd_emitted r3 + 1, rd_cur_x := rd_cur_x r3 + 1\<rparr>
      in if rd_cur_x r4 \<ge> fb_w fb then r4\<lparr>rd_cur_valid := False\<rparr> else r4)"
    unfolding render_cell_def Let_def if_not_P [OF nf] r0_def r1_def r2_def r3_def ..
  have g: "0 \<le> x" "x < 4194304" "0 \<le> y" "y < 4194304" using c d by (simp_all add: fb_contains_def fb_dims_def)
  have len: "length (rd_out r) + 1 \<le> length (rd_out r3)" "length (rd_out r3) \<le> length (rd_out r) + 74"
    using length_move_to [OF g, of r0] length_emit_pen [where r = r1 and c = ?now] put_utf8_length [where r = r2 and g = "cl_glyph ?now"]
    unfolding r3_def [symmetric] r2_def [symmetric] r1_def [symmetric] by (simp_all add: r0_def)
  have "rd_examined r3 = rd_examined r + 1" "rd_emitted r3 = rd_emitted r"
    by (simp_all add: r3_def r2_def r1_def r0_def put_utf8_def counters)
  then show ?thesis using len True by (simp add: e Let_def)
qed


lemma render_cells_cost:
  assumes d: "fb_dims fb" and cs: "\<forall>(x, y) \<in> set cs. fb_contains fb x y"
  shows "let r' = fold (\<lambda>(x, y). render_cell fb full x y) cs r; k = length (filter (changed fb full) cs) in
    rd_examined r' = rd_examined r + length cs \<and> rd_emitted r' = rd_emitted r + k \<and>
    length (rd_out r) + k \<le> length (rd_out r') \<and> length (rd_out r') \<le> length (rd_out r) + 74 * k"
  using cs
proof (induction cs arbitrary: r)
  case (Cons c cs)
  obtain x y where c: "c = (x, y)" by fastforce
  have "fb_contains fb x y" using Cons.prems c by auto
  note R = render_cell_cost [OF d this, of full r, unfolded Let_def]
  show ?case using Cons.IH [of "render_cell fb full x y r"] Cons.prems R by (auto simp: c Let_def)
qed (simp add: Let_def)

definition grid_list :: "framebuffer \<Rightarrow> (int \<times> int) list" where
  "grid_list fb = concat (map (\<lambda>y. map (\<lambda>x. (x, y)) [0 .. fb_w fb - 1]) [0 .. fb_h fb - 1])"

lemma length_grid_list: "length (grid_list fb) = nat (fb_w fb) * nat (fb_h fb)"
proof -
  have "length (concat (map (\<lambda>y. map (\<lambda>x. (x, y)) xs) ys)) = length xs * length ys" for xs ys :: "int list"
    by (induction ys) simp_all
  then show ?thesis by (simp add: grid_list_def)
qed

lemma ok_dims: "fb_ok fb \<Longrightarrow> \<not> fb_empty fb \<Longrightarrow> fb_dims fb"
proof -
  assume ok: "fb_ok fb" and ne: "\<not> fb_empty fb"
  then have "fb_w fb * 1 \<le> fb_w fb * fb_h fb" "1 * fb_h fb \<le> fb_w fb * fb_h fb"
    by (intro mult_left_mono mult_right_mono; simp add: fb_empty_def)+
  then show ?thesis using ok by (simp add: fb_dims_def fb_ok_def kMaxCells_def)
qed

text \<open>
  (C21) The cost of a frame: \<^verbatim>\<open>render\<close> examines every cell once and emits exactly the changed ones; it produces no byte when nothing
  changed, never more than 74 bytes per emitted cell and 4 for the frame, and so the output of a framebuffer of any size stays
  within what \<^verbatim>\<open>reserve\<close> set aside for that size: the buffer never grows.
\<close>

theorem render_cost:
  assumes ok: "fb_ok fb" and ne: "\<not> fb_empty fb"
  shows "let (n, r') = render fb full r; k = length (filter (changed fb full) (grid_list fb)) in
    rd_examined r' = nat (fb_w fb) * nat (fb_h fb) \<and> rd_emitted r' = k \<and> n = length (rd_out r') \<and> (n = 0 \<longleftrightarrow> k = 0) \<and> n \<le> 74 * k + 4 \<and>
    n \<le> rd_capacity (rd_reserve (fb_w fb) (fb_h fb) r)"
proof -
  let ?r0 = "r\<lparr>rd_out := [], rd_pen_valid := False, rd_cur_valid := False, rd_emitted := 0, rd_examined := 0\<rparr>"
  let ?k = "length (filter (changed fb full) (grid_list fb))"
  define r1 where "r1 = fold (\<lambda>y r. fold (\<lambda>x r. render_cell fb full x y r) [0 .. fb_w fb - 1] r) [0 .. fb_h fb - 1] ?r0"
  have r1: "r1 = fold (\<lambda>(x, y). render_cell fb full x y) (grid_list fb) ?r0" by (simp only: r1_def fold_rows grid_list_def)
  have cs: "\<forall>(x, y) \<in> set (grid_list fb). fb_contains fb x y" using grid_cells by (auto simp: grid_list_def simp del: set_concat)
  note C = render_cells_cost [OF ok_dims [OF ok ne] cs, of full ?r0, folded r1, unfolded Let_def]
  define r2 where "r2 = (if rd_out r1 \<noteq> [] then append_bytes [0x1B, 0x5B, 0x30, 0x6D] r1 else r1)"
  have e: "render fb full r = (length (rd_out r2), r2)" using ne by (simp only: render_def Let_def r2_def r1_def if_False)
  have S: "rd_examined r2 = nat (fb_w fb) * nat (fb_h fb)" "rd_emitted r2 = ?k"
    using C by (simp_all add: r2_def counters length_grid_list)
  have n: "(length (rd_out r2) = 0 \<longleftrightarrow> ?k = 0)" "length (rd_out r2) \<le> 74 * ?k + 4"
    using C by (auto simp: r2_def)
  have "?k \<le> nat (fb_w fb) * nat (fb_h fb)" using length_filter_le [of "changed fb full" "grid_list fb"] by (simp add: length_grid_list)
  then have "74 * ?k + 4 \<le> rd_capacity (rd_reserve (fb_w fb) (fb_h fb) r)" using ne by (simp add: rd_reserve_def hv_consts fb_empty_def)
  then show ?thesis using S n by (simp add: e Let_def)
qed

text \<open>A full repaint of a 3 by 2 grid: 6 cells, at most 448 bytes.\<close>

theorem render_cost_witness:
  "rd_emitted (snd (render (snd (fb_resize 3 2 framebuffer_new)) True renderer_new)) = 6 \<and> fst (render (snd (fb_resize 3 2 framebuffer_new)) True renderer_new) \<le> 448"
proof -
  let ?fb = "snd (fb_resize 3 2 framebuffer_new)"
  have d: "fb_w ?fb = 3" "fb_h ?fb = 2" by (simp_all add: fb_resize_def kMaxCells_def)
  have ok: "fb_ok ?fb" "\<not> fb_empty ?fb" by (simp_all add: fb_resize_def framebuffer_new_def kMaxCells_def fb_ok_def fb_empty_def)
  have "filter (changed ?fb True) (grid_list ?fb) = grid_list ?fb" by (simp add: changed_def filter_id_conv)
  then have "length (filter (changed ?fb True) (grid_list ?fb)) = 6" by (simp add: length_grid_list d)
  then show ?thesis
    using render_cost [OF ok, of True renderer_new] by (simp add: Let_def split: prod.splits)
qed

end
