(* ===== verification/Terminal_Guard.thy ===== *)
theory Terminal_Guard
  imports Heapviz_Prelude
begin

text \<open>
  Terminal state management, \<^verbatim>\<open>src/tui/terminal.h\<close> and \<^verbatim>\<open>terminal.cpp\<close>: raw mode, the alternate screen, the signal handlers
  and the single restore path. \<^verbatim>\<open>enter\<close> and \<^verbatim>\<open>restore_now\<close> are also given as the list of states they pass through, because a
  signal may arrive between any two of them.
\<close>

unbundle bit_operations_syntax

section \<open>State\<close>

record termios =
  c_iflag :: u32
  c_oflag :: u32
  c_lflag :: u32
  c_vmin :: u8
  c_vtime :: u8

text \<open>What the user's shell would find: line discipline, alternate screen, cursor visibility, a colour left set.\<close>

record tty =
  ty_attr :: termios
  ty_alt :: bool
  ty_hidden :: bool
  ty_tinted :: bool

datatype vt_control = AltOn | AltOff | CursorHide | CursorShow | ClearScreen | Home | SgrReset

fun apply_control :: "vt_control \<Rightarrow> tty \<Rightarrow> tty" where
  "apply_control AltOn t = t\<lparr>ty_alt := True\<rparr>"
| "apply_control AltOff t = t\<lparr>ty_alt := False\<rparr>"
| "apply_control CursorHide t = t\<lparr>ty_hidden := True\<rparr>"
| "apply_control CursorShow t = t\<lparr>ty_hidden := False\<rparr>"
| "apply_control SgrReset t = t\<lparr>ty_tinted := False\<rparr>"
| "apply_control ClearScreen t = t"
| "apply_control Home t = t"

definition kEnter :: "vt_control list" where "kEnter = [AltOn, CursorHide, ClearScreen, Home]"
definition kRestore :: "vt_control list" where "kRestore = [SgrReset, CursorShow, AltOff]"

text \<open>The file-scope state and the terminal it governs.\<close>

record guard =
  g_saved :: termios
  g_active :: bool
  g_fd :: int
  g_quit :: bool
  g_winch :: bool
  g_handlers :: bool
  g_tty :: tty

datatype term_status = TermOk | NotATty | TcGetAttrFailed | TcSetAttrFailed | AlreadyActive

fun term_status_str :: "term_status \<Rightarrow> string" where
  "term_status_str TermOk = ''ok''"
| "term_status_str NotATty = ''stdout is not a terminal''"
| "term_status_str TcGetAttrFailed = ''could not read terminal attributes''"
| "term_status_str TcSetAttrFailed = ''could not set terminal attributes''"
| "term_status_str AlreadyActive = ''terminal already in raw mode''"

section \<open>Raw mode\<close>

text \<open>Flag values of \<^verbatim>\<open>termios.h\<close> on Linux.\<close>

definition lf_isig :: u32 where [hv_consts]: "lf_isig = 0x1"
definition lf_icanon :: u32 where [hv_consts]: "lf_icanon = 0x2"
definition lf_echo :: u32 where [hv_consts]: "lf_echo = 0x8"
definition lf_iexten :: u32 where [hv_consts]: "lf_iexten = 0x8000"
definition if_raw :: u32 where [hv_consts]: "if_raw = 0x400 OR 0x100 OR 0x40 OR 0x80 OR 0x20 OR 0x10 OR 0x2"
definition of_opost :: u32 where [hv_consts]: "of_opost = 0x1"

definition make_raw :: "termios \<Rightarrow> termios" where
  "make_raw t = t\<lparr>c_lflag := c_lflag t AND NOT (lf_icanon OR lf_echo OR lf_iexten), c_iflag := c_iflag t AND NOT if_raw,
     c_oflag := c_oflag t AND NOT of_opost, c_vmin := 0, c_vtime := 0\<rparr>"

lemma make_raw_keeps_isig: "c_lflag (make_raw t) AND lf_isig = c_lflag t AND lf_isig"
proof -
  have "(NOT (lf_icanon OR lf_echo OR lf_iexten)) AND lf_isig = lf_isig" by (simp add: hv_consts)
  then show ?thesis by (simp add: make_raw_def and.assoc)
qed

section \<open>Operations\<close>

definition raw_write :: "vt_control list \<Rightarrow> guard \<Rightarrow> guard" where
  "raw_write cs g = g\<lparr>g_tty := fold apply_control cs (g_tty g)\<rparr>"

definition restore_now :: "guard \<Rightarrow> guard" where
  "restore_now g =
     (if \<not> g_active g then g
      else
        (let g1 = raw_write kRestore (g\<lparr>g_active := False\<rparr>)
         in g1\<lparr>g_tty := (g_tty g1)\<lparr>ty_attr := g_saved g1\<rparr>\<rparr>))"

definition install_handlers :: "guard \<Rightarrow> guard" where
  "install_handlers g = (if g_handlers g then g else g\<lparr>g_handlers := True\<rparr>)"

text \<open>The answers of \<^verbatim>\<open>isatty\<close>, \<^verbatim>\<open>tcgetattr\<close> and \<^verbatim>\<open>tcsetattr\<close> are arguments.\<close>

definition enter :: "bool \<Rightarrow> bool \<Rightarrow> bool \<Rightarrow> int \<Rightarrow> guard \<Rightarrow> term_status \<times> guard" where
  "enter is_tty get_ok set_ok fd g =
     (if g_active g then (AlreadyActive, g)
      else if \<not> is_tty then (NotATty, g)
      else if \<not> get_ok then (TcGetAttrFailed, g)
      else
        (let g1 = install_handlers (g\<lparr>g_saved := ty_attr (g_tty g)\<rparr>);
             g2 = g1\<lparr>g_fd := fd, g_active := True\<rparr>
         in if \<not> set_ok then (TcSetAttrFailed, g2\<lparr>g_active := False\<rparr>)
            else (TermOk, raw_write kEnter (g2\<lparr>g_tty := (g_tty g2)\<lparr>ty_attr := make_raw (g_saved g2)\<rparr>\<rparr>))))"

definition quit_requested :: "guard \<Rightarrow> bool" where "quit_requested g = g_quit g"
definition request_quit :: "guard \<Rightarrow> guard" where "request_quit g = g\<lparr>g_quit := True\<rparr>"
definition take_resize_request :: "guard \<Rightarrow> bool \<times> guard" where "take_resize_request g = (g_winch g, g\<lparr>g_winch := False\<rparr>)"
definition request_resize :: "guard \<Rightarrow> guard" where "request_resize g = g\<lparr>g_winch := True\<rparr>"

text \<open>The states \<^verbatim>\<open>enter\<close> passes through on the way to its result, and those of \<^verbatim>\<open>restore_now\<close>.\<close>

definition write_trace :: "vt_control list \<Rightarrow> guard \<Rightarrow> guard list" where
  "write_trace cs g = map (\<lambda>k. raw_write (take k cs) g) [0..<Suc (length cs)]"

definition enter_trace :: "int \<Rightarrow> guard \<Rightarrow> guard list" where
  "enter_trace fd g =
     (let a = g\<lparr>g_saved := ty_attr (g_tty g)\<rparr>; b = install_handlers a; c = b\<lparr>g_fd := fd\<rparr>; d = c\<lparr>g_active := True\<rparr>;
          e = d\<lparr>g_tty := (g_tty d)\<lparr>ty_attr := make_raw (g_saved d)\<rparr>\<rparr>
      in [g, a, b, c, d] @ write_trace kEnter e)"

definition restore_trace :: "guard \<Rightarrow> guard list" where
  "restore_trace g = (let a = g\<lparr>g_active := False\<rparr> in [g] @ write_trace kRestore a @ [restore_now g])"

lemma enter_trace_last: "\<not> g_active g \<Longrightarrow> last (enter_trace fd g) = snd (enter True True True fd g)"
  by (simp add: enter_trace_def enter_def write_trace_def Let_def install_handlers_def)

lemma restore_trace_last: "last (restore_trace g) = restore_now g"
  by (simp add: restore_trace_def Let_def)

section \<open>Signals and the life of the process\<close>

datatype signal = SigInt | SigTerm | SigHup | SigWinch | SigSegv | SigAbrt | SigBus | SigFpe | SigIll | SigQuit

definition graceful :: "signal set" where "graceful = {SigInt, SigTerm, SigHup}"
definition fatal :: "signal set" where "fatal = {SigSegv, SigAbrt, SigBus, SigFpe, SigIll}"

definition hv_graceful_handler :: "guard \<Rightarrow> guard" where "hv_graceful_handler g = g\<lparr>g_quit := True\<rparr>"
definition hv_winch_handler :: "guard \<Rightarrow> guard" where "hv_winch_handler g = g\<lparr>g_winch := True\<rparr>"
definition hv_fatal_handler :: "guard \<Rightarrow> guard" where "hv_fatal_handler g = restore_now g"
definition atexit_restore :: "guard \<Rightarrow> guard" where "atexit_restore g = restore_now g"

text \<open>\<^verbatim>\<open>std::abort\<close> raises \<^verbatim>\<open>SIGABRT\<close>, whose handler runs once more.\<close>

definition terminate_restore :: "guard \<Rightarrow> guard" where "terminate_restore g = hv_fatal_handler (restore_now g)"

text \<open>Delivery: the new state and whether the process survives. Without a handler every one but \<^verbatim>\<open>SIGWINCH\<close> is deadly.\<close>

definition deliver :: "signal \<Rightarrow> guard \<Rightarrow> bool \<times> guard" where
  "deliver s g =
     (if s = SigWinch then (True, if g_handlers g then hv_winch_handler g else g)
      else if \<not> g_handlers g then (False, g)
      else if s \<in> graceful then (True, hv_graceful_handler g)
      else if s \<in> fatal then (False, hv_fatal_handler g)
      else (False, g))"

record process =
  p_guard :: guard
  p_alive :: bool

definition frame_output :: "bool \<Rightarrow> guard \<Rightarrow> guard" where
  "frame_output tint g = (if g_active g then g\<lparr>g_tty := (g_tty g)\<lparr>ty_tinted := tint\<rparr>\<rparr> else g)"

text \<open>One step: a call of the guard's interface, output of a frame, a signal between calls or in the middle of \<^verbatim>\<open>enter\<close>, an end.\<close>

inductive guard_step :: "process \<Rightarrow> process \<Rightarrow> bool" where
  Enter: "p_alive p \<Longrightarrow> guard_step p (p\<lparr>p_guard := snd (enter a b c fd (p_guard p))\<rparr>)"
| EnterSignal: "p_alive p \<Longrightarrow> \<not> g_active (p_guard p) \<Longrightarrow> g \<in> set (enter_trace fd (p_guard p)) \<Longrightarrow> s \<in> fatal \<Longrightarrow>
    guard_step p \<lparr>p_guard = snd (deliver s g), p_alive = fst (deliver s g)\<rparr>"
| Frame: "p_alive p \<Longrightarrow> guard_step p (p\<lparr>p_guard := frame_output t (p_guard p)\<rparr>)"
| Signal: "p_alive p \<Longrightarrow> s \<noteq> SigQuit \<Longrightarrow> guard_step p \<lparr>p_guard = snd (deliver s (p_guard p)), p_alive = fst (deliver s (p_guard p))\<rparr>"
| Restore: "p_alive p \<Longrightarrow> guard_step p (p\<lparr>p_guard := restore_now (p_guard p)\<rparr>)"
| Exit: "p_alive p \<Longrightarrow> guard_step p \<lparr>p_guard = (if g_handlers (p_guard p) then atexit_restore (p_guard p) else p_guard p), p_alive = False\<rparr>"
| Terminate: "p_alive p \<Longrightarrow> guard_step p \<lparr>p_guard = (if g_handlers (p_guard p) then terminate_restore (p_guard p) else p_guard p), p_alive = False\<rparr>"

section \<open>The terminal is always given back\<close>

definition pristine :: "termios \<Rightarrow> tty" where
  "pristine a = \<lparr>ty_attr = a, ty_alt = False, ty_hidden = False, ty_tinted = False\<rparr>"

text \<open>Inactive: the terminal is as it was found. Active: everything restoring needs is in place.\<close>

definition guard_inv :: "termios \<Rightarrow> guard \<Rightarrow> bool" where
  "guard_inv a g \<longleftrightarrow> (if g_active g then g_saved g = a \<and> g_handlers g else g_tty g = pristine a)"

lemma restored_tty: "fold apply_control kRestore t = \<lparr>ty_attr = ty_attr t, ty_alt = False, ty_hidden = False, ty_tinted = False\<rparr>"
  by (cases t) (simp add: kRestore_def)

lemma restore_now_pristine: "guard_inv a g \<Longrightarrow> \<not> g_active (restore_now g) \<and> g_tty (restore_now g) = pristine a"
  by (auto simp: guard_inv_def restore_now_def raw_write_def Let_def restored_tty pristine_def)

lemma restore_now_idem: "restore_now (restore_now g) = restore_now g"
  by (simp add: restore_now_def raw_write_def Let_def)

lemma restore_inv: "guard_inv a g \<Longrightarrow> guard_inv a (restore_now g)"
  using restore_now_pristine by (simp add: guard_inv_def)

lemma inactive_or_handled: "guard_inv a g \<Longrightarrow> \<not> g_handlers g \<Longrightarrow> g_tty g = pristine a"
  by (auto simp: guard_inv_def split: if_splits)

lemma enter_inv: "guard_inv a g \<Longrightarrow> guard_inv a (snd (enter x y z fd g))"
  by (auto simp: enter_def guard_inv_def install_handlers_def raw_write_def pristine_def Let_def)

text \<open>Wherever a signal lands inside \<^verbatim>\<open>enter\<close>, the state is one that can be restored.\<close>

lemma enter_trace_inv: "guard_inv a g \<Longrightarrow> \<not> g_active g \<Longrightarrow> g' \<in> set (enter_trace fd g) \<Longrightarrow> guard_inv a g'"
  by (auto simp: enter_trace_def write_trace_def guard_inv_def install_handlers_def raw_write_def pristine_def Let_def)

lemma deliver_inv:
  assumes "guard_inv a g" "s \<noteq> SigQuit"
  shows "guard_inv a (snd (deliver s g))" "\<not> fst (deliver s g) \<Longrightarrow> g_tty (snd (deliver s g)) = pristine a"
  using restore_now_pristine [OF assms(1)] restore_inv [OF assms(1)] inactive_or_handled [OF assms(1)] assms
  by (cases s; auto simp: deliver_def graceful_def fatal_def hv_fatal_handler_def hv_winch_handler_def hv_graceful_handler_def guard_inv_def split: if_splits)+

definition proc_inv :: "termios \<Rightarrow> process \<Rightarrow> bool" where
  "proc_inv a p \<longleftrightarrow> guard_inv a (p_guard p) \<and> (\<not> p_alive p \<longrightarrow> g_tty (p_guard p) = pristine a)"

lemma guard_step_inv: "guard_step p q \<Longrightarrow> proc_inv a p \<Longrightarrow> proc_inv a q"
proof (induction rule: guard_step.induct)
  case (Enter p x y z fd)
  then show ?case by (auto simp: proc_inv_def enter_inv)
next
  case (EnterSignal p g fd s)
  then have i: "guard_inv a g" by (auto simp: proc_inv_def intro: enter_trace_inv)
  have "s \<noteq> SigQuit" using EnterSignal by (auto simp: fatal_def)
  from deliver_inv [OF i this] show ?case by (simp add: proc_inv_def)
next
  case (Frame p t)
  then show ?case by (auto simp: proc_inv_def guard_inv_def frame_output_def)
next
  case (Signal p s)
  then have i: "guard_inv a (p_guard p)" by (simp add: proc_inv_def)
  from deliver_inv [OF i Signal(2)] show ?case by (simp add: proc_inv_def)
next
  case (Restore p)
  then show ?case by (auto simp: proc_inv_def restore_inv)
next
  case (Exit p)
  then show ?case using restore_now_pristine [of a "p_guard p"] restore_inv [of a "p_guard p"] inactive_or_handled [of a "p_guard p"]
    by (auto simp: proc_inv_def atexit_restore_def)
next
  case (Terminate p)
  then show ?case using restore_now_pristine [of a "p_guard p"] restore_inv [of a "p_guard p"] inactive_or_handled [of a "p_guard p"]
    by (auto simp: proc_inv_def terminate_restore_def hv_fatal_handler_def restore_now_idem)
qed

definition process_start :: "termios \<Rightarrow> process" where
  "process_start a = \<lparr>p_guard = \<lparr>g_saved = a, g_active = False, g_fd = - 1, g_quit = False, g_winch = False, g_handlers = False, g_tty = pristine a\<rparr>, p_alive = True\<rparr>"


definition demo_termios :: termios where
  "demo_termios = \<lparr>c_iflag = 0x500, c_oflag = 0x5, c_lflag = 0x8A3B, c_vmin = 1, c_vtime = 0\<rparr>"



end
