(* ===== verification/Event_Loop.thy ===== *)
theory Event_Loop
  imports Complex_Main Render_Correct Terminal_Guard
begin

text \<open>
  The single-threaded event loop of \<^verbatim>\<open>src/tui/event_loop.h\<close> and \<^verbatim>\<open>event_loop.cpp\<close>: one iteration of \<^verbatim>\<open>EventLoop::run\<close> over an application
  (a record of the functions of \<^verbatim>\<open>LoopApp\<close>) and an environment that supplies what the iteration reads from the outside: clock readings,
  signals, the measured size, the answers of the writer and of \<^verbatim>\<open>poll\<close> and \<^verbatim>\<open>read\<close>.
\<close>

section \<open>State\<close>

definition kNsPerSec :: u64 where "kNsPerSec = 1000000000"
definition kFpsSamples :: nat where [hv_consts]: "kFpsSamples = 30"

record frame_timing =
  ft_drain :: u64
  ft_update :: u64
  ft_draw :: u64
  ft_diff :: u64
  ft_write :: u64
  ft_total :: u64

definition no_timing :: frame_timing where
  "no_timing = \<lparr>ft_drain = 0, ft_update = 0, ft_draw = 0, ft_diff = 0, ft_write = 0, ft_total = 0\<rparr>"

text \<open>The 64-bit counters are unbounded here; the smoothed rate, a \<^verbatim>\<open>double\<close>, is an exact quotient.\<close>

record loop_stats =
  ls_frames :: nat
  ls_drawn :: nat
  ls_skipped :: nat
  ls_repaints :: nat
  ls_writes :: nat
  ls_bytes_written :: nat
  ls_events :: nat
  ls_overruns :: nat
  ls_last :: frame_timing
  ls_worst :: frame_timing
  ls_fps :: rat

definition stats_zero :: loop_stats where
  "stats_zero = \<lparr>ls_frames = 0, ls_drawn = 0, ls_skipped = 0, ls_repaints = 0, ls_writes = 0, ls_bytes_written = 0, ls_events = 0, ls_overruns = 0,
     ls_last = no_timing, ls_worst = no_timing, ls_fps = 0\<rparr>"

record loop_config =
  lc_target_fps :: nat
  lc_color :: color_mode
  lc_min_width :: int
  lc_min_height :: int
  lc_max_frames :: nat

datatype loop_exit = Quit | FrameLimit | TooSmall | WriteFailed | ResizeFailed

fun loop_exit_str :: "loop_exit \<Rightarrow> string" where
  "loop_exit_str Quit = ''quit''"
| "loop_exit_str FrameLimit = ''frame limit reached''"
| "loop_exit_str TooSmall = ''terminal is too small''"
| "loop_exit_str WriteFailed = ''the terminal went away''"
| "loop_exit_str ResizeFailed = ''could not allocate for the new size''"

record 'a loop_app =
  ap_drain :: "'a \<Rightarrow> nat \<times> 'a"
  ap_update :: "u64 \<Rightarrow> 'a \<Rightarrow> bool \<times> 'a"
  ap_key :: "u8 \<Rightarrow> guard \<times> 'a \<Rightarrow> bool \<times> guard \<times> 'a"
  ap_animating :: "'a \<Rightarrow> bool"
  ap_take_stats_reset :: "'a \<Rightarrow> bool \<times> 'a"
  ap_resized :: "int \<Rightarrow> int \<Rightarrow> 'a \<Rightarrow> 'a"
  ap_draw :: "loop_stats \<Rightarrow> framebuffer \<Rightarrow> 'a \<Rightarrow> framebuffer \<times> 'a"

record event_loop =
  el_cfg :: loop_config
  el_fb :: framebuffer
  el_r :: renderer
  el_stats :: loop_stats
  el_period_ns :: u64
  el_samples :: "(u64 \<times> nat) list"
  el_fps_next :: nat
  el_fps_count :: nat
  el_input_open :: bool

definition event_loop_new :: "loop_config \<Rightarrow> event_loop" where
  "event_loop_new cfg =
     \<lparr>el_cfg = cfg, el_fb = framebuffer_new, el_r = set_color_mode (lc_color cfg) renderer_new, el_stats = stats_zero,
      el_period_ns = kNsPerSec div (if lc_target_fps cfg = 0 then 1 else word_of_nat (lc_target_fps cfg)),
      el_samples = replicate kFpsSamples (0, 0), el_fps_next = 0, el_fps_count = 0, el_input_open = True\<rparr>"

text \<open>The loop with the locals of \<^verbatim>\<open>run\<close>, the application and the flags the signal handlers set.\<close>

record 'a run_state =
  rs_loop :: event_loop
  rs_guard :: guard
  rs_app :: 'a
  rs_dirty :: bool
  rs_full :: bool

section \<open>The environment\<close>

datatype poll_answer = PollInterrupted | PollFailed | PollTimeout | PollData "u8 list" | PollEof | PollReadRetry | PollReadFailed | PollHangup | PollNothing

record wait_event =
  we_quit :: bool
  we_winch :: bool
  we_now :: u64
  we_poll :: poll_answer

record loop_env =
  le_start :: u64
  le_quit :: bool
  le_winch :: bool
  le_measure :: "(u16 \<times> u16) option"
  le_drained :: u64
  le_updated :: u64
  le_drawn :: u64
  le_diffed :: u64
  le_answers :: "write_answer list"
  le_written :: u64
  le_end :: u64
  le_wait :: "wait_event list"

text \<open>\<^verbatim>\<open>ioctl(TIOCGWINSZ)\<close>: none on failure, columns and rows otherwise.\<close>

definition terminal_size :: "(u16 \<times> u16) option \<Rightarrow> (int \<times> int) option" where
  "terminal_size ws = (case ws of None \<Rightarrow> None | Some (c, r) \<Rightarrow> if c = 0 \<or> r = 0 then None else Some (uint c, uint r))"

definition signals :: "bool \<Rightarrow> bool \<Rightarrow> guard \<Rightarrow> guard" where
  "signals q w g = (let g1 = (if q then hv_graceful_handler g else g) in if w then hv_winch_handler g1 else g1)"

section \<open>Waiting\<close>

definition poll_timeout_ms :: "u64 \<Rightarrow> u64" where
  "poll_timeout_ms left = (left + 999999) div 1000000"

fun feed_keys :: "'a loop_app \<Rightarrow> u8 list \<Rightarrow> bool \<times> guard \<times> 'a \<Rightarrow> bool \<times> guard \<times> 'a" where
  "feed_keys A [] s = s"
| "feed_keys A (b # bs) (dirty, g, a) = (case ap_key A b (g, a) of (ch, g', a') \<Rightarrow> feed_keys A bs (dirty \<or> ch, g', a'))"

definition close_input :: "'a run_state \<Rightarrow> 'a run_state" where
  "close_input s = s\<lparr>rs_loop := (rs_loop s)\<lparr>el_input_open := False\<rparr>\<rparr>"

text \<open>One round of the wait: \<open>Inl\<close> returns whether the loop continues, \<open>Inr\<close> goes round again.\<close>

definition poll_round :: "'a loop_app \<Rightarrow> poll_answer \<Rightarrow> 'a run_state \<Rightarrow> (bool \<times> 'a run_state) + 'a run_state" where
  "poll_round A p s =
     (case p of
        PollInterrupted \<Rightarrow> Inl (True, s)
      | PollFailed \<Rightarrow> Inr (close_input s)
      | PollTimeout \<Rightarrow> Inl (True, s)
      | PollData bs \<Rightarrow>
          (case feed_keys A (take 64 bs) (rs_dirty s, rs_guard s, rs_app s) of (d, g, a) \<Rightarrow>
             let s' = s\<lparr>rs_dirty := d, rs_guard := g, rs_app := a\<rparr> in if quit_requested g then Inl (False, s') else Inr s')
      | PollEof \<Rightarrow> Inr (close_input s)
      | PollReadRetry \<Rightarrow> Inr s
      | PollReadFailed \<Rightarrow> Inr (close_input s)
      | PollHangup \<Rightarrow> Inr (close_input s)
      | PollNothing \<Rightarrow> Inr s)"

definition wait_round :: "'a loop_app \<Rightarrow> u64 \<Rightarrow> wait_event \<Rightarrow> 'a run_state \<Rightarrow> (bool \<times> 'a run_state) + 'a run_state" where
  "wait_round A deadline e s0 =
     (let s = s0\<lparr>rs_guard := signals (we_quit e) (we_winch e) (rs_guard s0)\<rparr>
      in if quit_requested (rs_guard s) then Inl (False, s)
         else if we_now e \<ge> deadline then Inl (True, s)
         else if \<not> el_input_open (rs_loop s) then Inl (True, s)
         else poll_round A (we_poll e) s)"

text \<open>The result is \<open>None\<close> while the wait goes on after the last event.\<close>

fun wait_for_deadline :: "'a loop_app \<Rightarrow> u64 \<Rightarrow> wait_event list \<Rightarrow> 'a run_state \<Rightarrow> (bool \<times> 'a run_state) option" where
  "wait_for_deadline A deadline [] s = None"
| "wait_for_deadline A deadline (e # es) s = (case wait_round A deadline e s of Inl r \<Rightarrow> Some r | Inr s' \<Rightarrow> wait_for_deadline A deadline es s')"

section \<open>One iteration\<close>

definition loop_resize :: "int \<Rightarrow> int \<Rightarrow> event_loop \<Rightarrow> bool \<times> event_loop" where
  "loop_resize w h l =
     (case fb_resize w h (el_fb l) of (ok, fb) \<Rightarrow>
        if \<not> ok then (False, l) else (True, l\<lparr>el_fb := fb, el_r := rd_reserve w h (el_r l)\<rparr>))"

text \<open>Start of a frame: quit flag, a requested reset of the statistics, the frame limit.\<close>

definition begin_frame :: "'a loop_app \<Rightarrow> 'a run_state \<Rightarrow> loop_exit + 'a run_state" where
  "begin_frame A s =
     (if quit_requested (rs_guard s) then Inl Quit
      else
        (case ap_take_stats_reset A (rs_app s) of (reset, a) \<Rightarrow>
           let s1 = (if reset then s\<lparr>rs_app := a, rs_dirty := True, rs_loop := (rs_loop s)\<lparr>el_stats := stats_zero, el_samples := replicate kFpsSamples (0, 0),
                       el_fps_next := 0, el_fps_count := 0\<rparr>\<rparr>
                     else s\<lparr>rs_app := a\<rparr>);
               l = rs_loop s1
           in if lc_max_frames (el_cfg l) \<noteq> 0 \<and> ls_frames (el_stats l) \<ge> lc_max_frames (el_cfg l) then Inl FrameLimit
              else Inr (s1\<lparr>rs_loop := l\<lparr>el_stats := (el_stats l)\<lparr>ls_frames := ls_frames (el_stats l) + 1\<rparr>\<rparr>\<rparr>)))"

definition resize_phase :: "'a loop_app \<Rightarrow> (u16 \<times> u16) option \<Rightarrow> 'a run_state \<Rightarrow> loop_exit + 'a run_state" where
  "resize_phase A ws s =
     (case take_resize_request (rs_guard s) of (req, g) \<Rightarrow>
        let s = s\<lparr>rs_guard := g\<rparr>; l = rs_loop s; fb = el_fb l
        in if \<not> req then Inr s
           else
             (case (case terminal_size ws of Some wh \<Rightarrow> wh | None \<Rightarrow> if fb_empty fb then (80, 24) else (fb_w fb, fb_h fb)) of (w, h) \<Rightarrow>
                if w < lc_min_width (el_cfg l) \<or> h < lc_min_height (el_cfg l) then Inl TooSmall
                else if w \<noteq> fb_w fb \<or> h \<noteq> fb_h fb then
                  (case loop_resize w h l of (ok, l') \<Rightarrow>
                     if \<not> ok then Inl ResizeFailed
                     else Inr (s\<lparr>rs_loop := l'\<lparr>el_stats := (el_stats l')\<lparr>ls_repaints := ls_repaints (el_stats l') + 1\<rparr>\<rparr>,
                                rs_app := ap_resized A w h (rs_app s), rs_full := True, rs_dirty := True\<rparr>))
                else Inr s))"

definition model_phase :: "'a loop_app \<Rightarrow> u64 \<Rightarrow> 'a run_state \<Rightarrow> 'a run_state" where
  "model_phase A t_drained s =
     (case ap_drain A (rs_app s) of (n, a1) \<Rightarrow>
        case ap_update A t_drained a1 of (ch, a2) \<Rightarrow>
          let l = rs_loop s
          in s\<lparr>rs_app := a2, rs_dirty := (rs_dirty s \<or> n \<noteq> 0 \<or> ch \<or> ap_animating A a2),
               rs_loop := l\<lparr>el_stats := (el_stats l)\<lparr>ls_events := ls_events (el_stats l) + n\<rparr>\<rparr>\<rparr>)"

text \<open>Draw, diff, write: \<open>None\<close> while the write is blocked; the bytes that reached the terminal come second.\<close>

definition draw_phase :: "'a loop_app \<Rightarrow> write_answer list \<Rightarrow> 'a run_state \<Rightarrow> (loop_exit + 'a run_state) option \<times> u8 list" where
  "draw_phase A answers s =
     (let l = rs_loop s
      in if \<not> rs_dirty s then (Some (Inr (s\<lparr>rs_loop := l\<lparr>el_stats := (el_stats l)\<lparr>ls_skipped := ls_skipped (el_stats l) + 1\<rparr>\<rparr>\<rparr>)), [])
         else
           (case ap_draw A (el_stats l) (el_fb l) (rs_app s) of (fb, a) \<Rightarrow>
            case render fb (rs_full s) (el_r l) of (bytes, r) \<Rightarrow>
            case (if bytes \<noteq> 0 then flush r answers else (Some True, [])) of (res, sent) \<Rightarrow>
              (case res of
                 None \<Rightarrow> (None, sent)
               | Some False \<Rightarrow> (Some (Inl WriteFailed), sent)
               | Some True \<Rightarrow>
                   (let st = el_stats l;
                        st1 = (if bytes \<noteq> 0 then st\<lparr>ls_writes := ls_writes st + 1, ls_bytes_written := ls_bytes_written st + bytes\<rparr> else st)
                    in (Some (Inr (s\<lparr>rs_app := a, rs_dirty := False, rs_full := False,
                          rs_loop := l\<lparr>el_fb := fb_swap empty_cell fb, el_r := r, el_stats := st1\<lparr>ls_drawn := ls_drawn st1 + 1\<rparr>\<rparr>\<rparr>)), sent)))))"

definition timing_phase :: "loop_env \<Rightarrow> bool \<Rightarrow> event_loop \<Rightarrow> event_loop" where
  "timing_phase e was_drawn l =
     (let st = el_stats l;
          t = \<lparr>ft_drain = le_drained e - le_start e, ft_update = le_updated e - le_drained e,
               ft_draw = (if was_drawn then le_drawn e - le_updated e else 0), ft_diff = (if was_drawn then le_diffed e - le_drawn e else 0),
               ft_write = (if was_drawn then le_written e - le_diffed e else 0), ft_total = le_end e - le_start e\<rparr>
      in l\<lparr>el_stats := st\<lparr>ls_last := t, ls_worst := (if ft_total t > ft_total (ls_worst st) then t else ls_worst st),
             ls_overruns := (if ft_total t > el_period_ns l then ls_overruns st + 1 else ls_overruns st)\<rparr>\<rparr>)"

definition fps_phase :: "u64 \<Rightarrow> event_loop \<Rightarrow> event_loop" where
  "fps_phase t_updated l =
     (let samples = (el_samples l)[el_fps_next l := (t_updated, ls_drawn (el_stats l))];
          nxt = (el_fps_next l + 1) mod kFpsSamples;
          cnt = (if el_fps_count l < kFpsSamples then el_fps_count l + 1 else el_fps_count l);
          l1 = l\<lparr>el_samples := samples, el_fps_next := nxt, el_fps_count := cnt\<rparr>
      in if cnt \<ge> 2 then
           (case samples ! ((nxt + kFpsSamples - cnt) mod kFpsSamples) of (ns, drawn) \<Rightarrow>
              let elapsed = t_updated - ns
              in l1\<lparr>el_stats := (el_stats l1)\<lparr>ls_fps := (if elapsed = 0 then 0
                   else of_int (int (ls_drawn (el_stats l)) - int drawn) * of_nat (unat kNsPerSec) / of_nat (unat elapsed))\<rparr>\<rparr>)
         else l1)"

text \<open>The part of an iteration before anything is drawn, and the whole.\<close>

definition before_draw :: "'a loop_app \<Rightarrow> loop_env \<Rightarrow> 'a run_state \<Rightarrow> loop_exit + 'a run_state" where
  "before_draw A e s0 =
     (case begin_frame A (s0\<lparr>rs_guard := signals (le_quit e) (le_winch e) (rs_guard s0)\<rparr>) of
        Inl x \<Rightarrow> Inl x
      | Inr s1 \<Rightarrow>
          (case resize_phase A (le_measure e) s1 of
             Inl x \<Rightarrow> Inl x
           | Inr s2 \<Rightarrow> Inr (model_phase A (le_drained e) s2)))"

datatype 'a frame_result = Blocked | Exits loop_exit | Continues "'a run_state"

definition after_draw :: "'a loop_app \<Rightarrow> loop_env \<Rightarrow> u64 \<Rightarrow> bool \<Rightarrow> 'a run_state \<Rightarrow> 'a frame_result" where
  "after_draw A e deadline was_drawn s4 =
     (let s5 = s4\<lparr>rs_loop := fps_phase (le_updated e) (timing_phase e was_drawn (rs_loop s4))\<rparr>
      in case wait_for_deadline A deadline (le_wait e) s5 of
           None \<Rightarrow> Blocked
         | Some (False, s6) \<Rightarrow> Exits Quit
         | Some (True, s6) \<Rightarrow> Continues s6)"

definition frame :: "'a loop_app \<Rightarrow> loop_env \<Rightarrow> 'a run_state \<Rightarrow> 'a frame_result \<times> u8 list" where
  "frame A e s =
     (case before_draw A e s of
        Inl x \<Rightarrow> (Exits x, [])
      | Inr s3 \<Rightarrow>
          (case draw_phase A (le_answers e) s3 of
             (None, sent) \<Rightarrow> (Blocked, sent)
           | (Some (Inl x), sent) \<Rightarrow> (Exits x, sent)
           | (Some (Inr s4), sent) \<Rightarrow> (after_draw A e (le_start e + el_period_ns (rs_loop s)) (rs_dirty s3) s4, sent)))"

definition run_start :: "event_loop \<Rightarrow> guard \<Rightarrow> 'a \<Rightarrow> 'a run_state" where
  "run_start l g a = \<lparr>rs_loop = l\<lparr>el_samples := replicate kFpsSamples (0, 0), el_fps_next := 0, el_fps_count := 0\<rparr>, rs_guard = request_resize g,
     rs_app = a, rs_dirty = True, rs_full = True\<rparr>"

end
