(* ===== verification/Loop_Properties.thy ===== *)
theory Loop_Properties
  imports Event_Loop
begin

text \<open>
  What the event loop guarantees: the screen shows the last drawn frame after every iteration, across resizes; the statistics add up;
  frames in which nothing happened cost nothing and no change goes undrawn; waiting ends at the deadline and never spins.
\<close>

section \<open>Waiting\<close>

definition wait_kept :: "'a run_state \<Rightarrow> 'a run_state \<Rightarrow> bool" where
  "wait_kept s s' \<longleftrightarrow> rs_full s' = rs_full s \<and> (rs_dirty s \<longrightarrow> rs_dirty s') \<and> el_fb (rs_loop s') = el_fb (rs_loop s) \<and> el_r (rs_loop s') = el_r (rs_loop s) \<and>
    el_stats (rs_loop s') = el_stats (rs_loop s) \<and> el_cfg (rs_loop s') = el_cfg (rs_loop s) \<and> el_period_ns (rs_loop s') = el_period_ns (rs_loop s)"

lemma feed_keys_dirty: "feed_keys A bs (dirty, g, a) = (d', g', a') \<Longrightarrow> dirty \<Longrightarrow> d'"
  by (induction bs arbitrary: dirty g a) (auto split: prod.splits)

lemma poll_round_keeps: "case poll_round A p s of Inl (b, s') \<Rightarrow> wait_kept s s' | Inr s' \<Rightarrow> wait_kept s s'"
  by (cases p) (auto simp: poll_round_def wait_kept_def close_input_def Let_def split: prod.splits dest: feed_keys_dirty)

lemma wait_round_keeps: "case wait_round A d e s of Inl (b, s') \<Rightarrow> wait_kept s s' | Inr s' \<Rightarrow> wait_kept s s'"
proof -
  let ?s = "s\<lparr>rs_guard := signals (we_quit e) (we_winch e) (rs_guard s)\<rparr>"
  have k: "wait_kept s ?s" "wait_kept ?s s' \<longleftrightarrow> wait_kept s s'" for s' by (simp_all add: wait_kept_def)
  show ?thesis using poll_round_keeps [where A = A and p = "we_poll e" and s = ?s] k by (auto simp: wait_round_def Let_def split: sum.splits prod.splits)
qed

lemma wait_keeps: "wait_for_deadline A d es s = Some (b, s') \<Longrightarrow> wait_kept s s'"
proof (induction es arbitrary: s)
  case (Cons e es)
  have tr: "wait_kept x y \<Longrightarrow> wait_kept y z \<Longrightarrow> wait_kept x z" for x y z :: "'a run_state" by (simp add: wait_kept_def)
  show ?case using Cons wait_round_keeps [where A = A and d = d and e = e and s = s] by (auto split: sum.splits intro: tr)
qed simp

lemma wait_ends: "\<exists>e \<in> set es. we_now e \<ge> d \<or> we_quit e \<Longrightarrow> wait_for_deadline A d es s \<noteq> None"
proof (induction es arbitrary: s)
  case (Cons e es)
  have "\<exists>r. wait_round A d e s = Inl r" if "we_now e \<ge> d \<or> we_quit e"
    using that by (auto simp: wait_round_def Let_def signals_def quit_requested_def hv_graceful_handler_def hv_winch_handler_def)
  then show ?case using Cons by (auto split: sum.splits)
qed simp

lemma wait_closed: "es \<noteq> [] \<Longrightarrow> \<not> el_input_open (rs_loop s) \<Longrightarrow> wait_for_deadline A d es s = wait_for_deadline A d [hd es] s"
  by (cases es) (simp_all add: wait_round_def Let_def)

lemma poll_timeout:
  assumes "0 < left" "unat left \<le> 1000000000"
  shows "poll_timeout_ms left \<noteq> 0 \<and> unat left \<le> unat (poll_timeout_ms left) * 1000000 \<and> unat (poll_timeout_ms left) * 1000000 < unat left + 1000000"
proof -
  have u: "unat (poll_timeout_ms left) = (unat left + 999999) div 1000000"
    using assms(2) by (simp add: poll_timeout_ms_def unat_div unat_word_ariths)
  have l: "0 < unat left" using assms(1) by (simp add: word_less_nat_alt)
  have "(unat left + 999999) div 1000000 * 1000000 + (unat left + 999999) mod 1000000 = unat left + 999999" by simp
  moreover have "(unat left + 999999) mod 1000000 < 1000000" by simp
  ultimately have b: "unat left \<le> unat (poll_timeout_ms left) * 1000000" "unat (poll_timeout_ms left) * 1000000 < unat left + 1000000"
    unfolding u by linarith+
  then have "poll_timeout_ms left \<noteq> 0" using l by auto
  then show ?thesis using b by blast
qed


section \<open>The screen\<close>

definition glyphs_ok :: "framebuffer \<Rightarrow> bool" where
  "glyphs_ok fb \<longleftrightarrow> (\<forall>x y. fb_contains fb x y \<longrightarrow> glyph_ok (at_back fb x y))"

text \<open>What the loop needs of its application: drawing keeps the size and the front buffer and uses single-width glyphs.\<close>

definition draws_ok :: "'a loop_app \<Rightarrow> bool" where
  "draws_ok A \<longleftrightarrow> (\<forall>st fb a. fb_ok fb \<longrightarrow> glyphs_ok fb \<longrightarrow> (let fb' = fst (ap_draw A st fb a) in same_frame fb fb' \<and> glyphs_ok fb'))"

text \<open>A terminal per size; a change of size may leave anything on the screen, but not half a sequence.\<close>

definition terminals_ok :: "(int \<Rightarrow> int \<Rightarrow> 'u vt) \<Rightarrow> (int \<Rightarrow> int \<Rightarrow> 'u \<Rightarrow> 'u) \<Rightarrow> bool" where
  "terminals_ok T reflow \<longleftrightarrow> (\<forall>w h. vt_laws (T w h) w h) \<and> (\<forall>w h w' h' u. vt_ready (T w h) u \<longrightarrow> vt_ready (T w' h') (reflow w' h' u))"

definition loop_vt :: "(int \<Rightarrow> int \<Rightarrow> 'u vt) \<Rightarrow> 'a run_state \<Rightarrow> 'u vt" where
  "loop_vt T s = T (fb_w (el_fb (rs_loop s))) (fb_h (el_fb (rs_loop s)))"

definition on_screen :: "(int \<Rightarrow> int \<Rightarrow> 'u vt) \<Rightarrow> 'a run_state \<Rightarrow> 'u \<Rightarrow> bool" where
  "on_screen T s u \<longleftrightarrow> shows_cells (loop_vt T s) (rd_mode (el_r (rs_loop s))) (el_fb (rs_loop s)) (at_front (el_fb (rs_loop s))) u"

definition loop_inv :: "(int \<Rightarrow> int \<Rightarrow> 'u vt) \<Rightarrow> 'u \<Rightarrow> 'a run_state \<Rightarrow> bool" where
  "loop_inv T u s \<longleftrightarrow> fb_ok (el_fb (rs_loop s)) \<and> glyphs_ok (el_fb (rs_loop s)) \<and> vt_ready (loop_vt T s) u \<and>
     (rs_full s \<longrightarrow> rs_dirty s) \<and> (rs_full s \<or> on_screen T s u)"

text \<open>The invariant depends on the framebuffer, the colour mode and two flags.\<close>

lemma loop_inv_cong:
  assumes "loop_inv T u s" "el_fb (rs_loop s') = el_fb (rs_loop s)" "rd_mode (el_r (rs_loop s')) = rd_mode (el_r (rs_loop s))"
    and "rs_full s' = rs_full s" "rs_dirty s \<longrightarrow> rs_dirty s'"
  shows "loop_inv T u s'"
  using assms by (auto simp: loop_inv_def on_screen_def loop_vt_def)

lemma empty_cell_ok: "glyph_ok empty_cell"
  by (simp add: glyph_ok_def empty_cell_def mk_cell_def glyph_is_single_width_def)

lemma resize_ok:
  assumes "fb_resize w h fb = (True, fb')"
  shows "fb_ok fb'" "glyphs_ok fb'" "fb_w fb' = w" "fb_h fb' = h"
proof -
  have d: "0 < w" "0 < h" "w * h \<le> kMaxCells" and f: "fb_w fb' = w" "fb_h fb' = h" and b: "fb_back fb' = replicate (nat (w * h)) empty_cell"
      "fb_front fb' = replicate (nat (w * h)) empty_cell"
    using assms by (auto simp: fb_resize_def split: if_splits)
  show ok: "fb_ok fb'" using d f b by (simp add: fb_ok_def nat_mult_distrib)
  show "glyphs_ok fb'"
    unfolding glyphs_ok_def
  proof (intro allI impI)
    fix x y assume "fb_contains fb' x y"
    from index_in_range [OF ok this] show "glyph_ok (at_back fb' x y)" by (simp add: at_back_def b empty_cell_ok)
  qed
  show "fb_w fb' = w" "fb_h fb' = h" by (fact f)+
qed

lemma swap_ok:
  assumes "fb_ok fb"
  shows "fb_ok (fb_swap c fb)" "glyph_ok c \<Longrightarrow> glyphs_ok (fb_swap c fb)" "at_front (fb_swap c fb) = at_back fb" "fb_w (fb_swap c fb) = fb_w fb" "fb_h (fb_swap c fb) = fb_h fb"
proof -
  show ok: "fb_ok (fb_swap c fb)" using assms by (simp add: fb_ok_def fb_swap_def)
  show "at_front (fb_swap c fb) = at_back fb" by (simp add: fun_eq_iff at_front_def at_back_def fb_swap_def fb_index_def)
  show "fb_w (fb_swap c fb) = fb_w fb" "fb_h (fb_swap c fb) = fb_h fb" by (simp_all add: fb_swap_def)
  assume c: "glyph_ok c"
  show "glyphs_ok (fb_swap c fb)"
    unfolding glyphs_ok_def
  proof (intro allI impI)
    fix x y assume "fb_contains (fb_swap c fb) x y"
    from index_in_range [OF ok this] show "glyph_ok (at_back (fb_swap c fb) x y)" by (simp add: at_back_def fb_swap_def c)
  qed
qed

lemma begin_frame_keeps:
  assumes "begin_frame A s = Inr s1"
  shows "el_fb (rs_loop s1) = el_fb (rs_loop s)" "el_r (rs_loop s1) = el_r (rs_loop s)" "rs_full s1 = rs_full s" "rs_dirty s \<longrightarrow> rs_dirty s1"
  using assms by (auto simp: begin_frame_def Let_def split: if_splits prod.splits)

lemma model_phase_keeps:
  "el_fb (rs_loop (model_phase A t s)) = el_fb (rs_loop s)" "el_r (rs_loop (model_phase A t s)) = el_r (rs_loop s)"
  "rs_full (model_phase A t s) = rs_full s" "rs_dirty s \<longrightarrow> rs_dirty (model_phase A t s)"
  by (auto simp: model_phase_def Let_def split: prod.splits)

lemma phases_keep:
  "el_fb (fps_phase t l) = el_fb l" "el_r (fps_phase t l) = el_r l" "el_fb (timing_phase e b l) = el_fb l" "el_r (timing_phase e b l) = el_r l"
  by (auto simp: fps_phase_def timing_phase_def Let_def split: prod.splits)

lemma resize_phase_inv:
  assumes "resize_phase A ws s = Inr s2" "loop_inv T u s" "terminals_ok T reflow"
  shows "loop_inv T (if (fb_w (el_fb (rs_loop s2)), fb_h (el_fb (rs_loop s2))) = (fb_w (el_fb (rs_loop s)), fb_h (el_fb (rs_loop s))) then u
    else reflow (fb_w (el_fb (rs_loop s2))) (fb_h (el_fb (rs_loop s2))) u) s2"
proof (cases "el_fb (rs_loop s2) = el_fb (rs_loop s) \<and> rs_full s2 = rs_full s \<and> rs_dirty s2 = rs_dirty s \<and> el_r (rs_loop s2) = el_r (rs_loop s)")
  case True
  then have "loop_inv T u s2" by (intro loop_inv_cong [OF assms(2)]) simp_all
  then show ?thesis using True by simp
next
  case False
  then obtain w h fb' where r: "fb_resize w h (el_fb (rs_loop s)) = (True, fb')" "el_fb (rs_loop s2) = fb'" "rs_full s2" "rs_dirty s2"
      "w \<noteq> fb_w (el_fb (rs_loop s)) \<or> h \<noteq> fb_h (el_fb (rs_loop s))"
    using assms(1) by (auto simp: resize_phase_def loop_resize_def take_resize_request_def Let_def split: if_splits prod.splits)
  have "vt_ready (T w h) (reflow w h u)" using assms(2,3) by (auto simp: loop_inv_def loop_vt_def terminals_ok_def)
  then show ?thesis using resize_ok [OF r(1)] r by (auto simp: loop_inv_def loop_vt_def)
qed


lemma flush_all: "flush r answers = (Some True, sent) \<Longrightarrow> sent = rd_out r"
  using flush_loop_prefix [of "rd_out r" answers] by (auto simp: flush_def)

lemma draw_phase_inv:
  assumes d: "draw_phase A ans s = (Some (Inr s4), sent)" and inv: "loop_inv T u s" and A: "draws_ok A" and TR: "terminals_ok T reflow"
  shows "loop_inv T (vt_feed (loop_vt T s) sent u) s4 \<and> \<not> rs_full s4 \<and> fb_w (el_fb (rs_loop s4)) = fb_w (el_fb (rs_loop s)) \<and>
    fb_h (el_fb (rs_loop s4)) = fb_h (el_fb (rs_loop s))"
proof -
  let ?fb0 = "el_fb (rs_loop s)" and ?r0 = "el_r (rs_loop s)"
  have L: "vt_laws (loop_vt T s) (fb_w ?fb0) (fb_h ?fb0)" using TR by (simp add: terminals_ok_def loop_vt_def)
  have feed0: "vt_feed (loop_vt T s) [] u = u" using L by (simp add: vt_laws_def)
  show ?thesis
  proof (cases "rs_dirty s")
    case False
    then have s4: "s4 = s\<lparr>rs_loop := (rs_loop s)\<lparr>el_stats := (el_stats (rs_loop s))\<lparr>ls_skipped := ls_skipped (el_stats (rs_loop s)) + 1\<rparr>\<rparr>\<rparr>" "sent = []"
      using d by (simp_all add: draw_phase_def Let_def)
    have "loop_inv T u s4" by (rule loop_inv_cong [OF inv]) (simp_all add: s4)
    moreover have "\<not> rs_full s4" using False inv by (simp add: s4 loop_inv_def)
    moreover have "el_fb (rs_loop s4) = ?fb0" by (simp add: s4)
    ultimately show ?thesis by (simp add: s4(2) feed0)
  next
    case True
    obtain fb a where dr: "ap_draw A (el_stats (rs_loop s)) ?fb0 (rs_app s) = (fb, a)" by fastforce
    have sf: "same_frame ?fb0 fb" "glyphs_ok fb"
      using A inv dr unfolding draws_ok_def loop_inv_def Let_def by (metis fst_conv)+
    have ok: "fb_ok fb" using same_frame_ok [OF sf(1)] inv by (simp add: loop_inv_def)
    have wh: "fb_w fb = fb_w ?fb0" "fb_h fb = fb_h ?fb0" "at_front fb = at_front ?fb0"
      using sf(1) by (auto simp: same_frame_def at_front_def fb_index_def fun_eq_iff)
    obtain n r where rn: "render fb (rs_full s) ?r0 = (n, r)" by fastforce
    have before: "rs_full s \<or> shows_cells (loop_vt T s) (rd_mode ?r0) fb (at_front fb) u"
      using inv wh by (auto simp: loop_inv_def on_screen_def shows_cells_def fb_contains_def)
    have R: "rd_mode r = rd_mode ?r0" "n = length (rd_out r)" "vt_ready (loop_vt T s) (vt_feed (loop_vt T s) (rd_out r) u)"
        "shows_cells (loop_vt T s) (rd_mode ?r0) fb (at_back fb) (vt_feed (loop_vt T s) (rd_out r) u)"
      using render_frame [OF L [folded wh(1,2)] ok _ sf(2) [unfolded glyphs_ok_def] before] inv rn by (auto simp: loop_inv_def Let_def)
    have s4: "sent = rd_out r" "el_fb (rs_loop s4) = fb_swap empty_cell fb" "el_r (rs_loop s4) = r" "\<not> rs_full s4"
      using d True dr rn R(2) by (auto simp: draw_phase_def Let_def dest: flush_all split: prod.splits if_splits option.splits bool.splits)
    note sw = swap_ok [OF ok, of empty_cell]
    have "loop_vt T s4 = loop_vt T s" using s4(2) sw(4,5) wh by (simp add: loop_vt_def)
    moreover have "fb_contains (fb_swap empty_cell fb) = fb_contains fb" using sw(4,5) by (simp add: fb_contains_def fun_eq_iff)
    ultimately show ?thesis
      using R s4 sw empty_cell_ok wh by (simp add: loop_inv_def on_screen_def shows_cells_def)
  qed
qed

text \<open>One whole iteration: the terminal is reflowed if the size changed, then takes the bytes.\<close>

definition vt_after :: "(int \<Rightarrow> int \<Rightarrow> 'u vt) \<Rightarrow> (int \<Rightarrow> int \<Rightarrow> 'u \<Rightarrow> 'u) \<Rightarrow> 'a run_state \<Rightarrow> 'a run_state \<Rightarrow> u8 list \<Rightarrow> 'u \<Rightarrow> 'u" where
  "vt_after T reflow s s' sent u =
     (let fb = el_fb (rs_loop s); fb' = el_fb (rs_loop s')
      in vt_feed (loop_vt T s') sent (if (fb_w fb', fb_h fb') = (fb_w fb, fb_h fb) then u else reflow (fb_w fb') (fb_h fb') u))"

lemma frame_parts:
  assumes "frame A e s = (Continues s', sent)"
  obtains s1 s2 s4 where
    "begin_frame A (s\<lparr>rs_guard := signals (le_quit e) (le_winch e) (rs_guard s)\<rparr>) = Inr s1" "resize_phase A (le_measure e) s1 = Inr s2"
    "before_draw A e s = Inr (model_phase A (le_drained e) s2)"
    "draw_phase A (le_answers e) (model_phase A (le_drained e) s2) = (Some (Inr s4), sent)"
    "wait_kept (s4\<lparr>rs_loop := fps_phase (le_updated e) (timing_phase e (rs_dirty (model_phase A (le_drained e) s2)) (rs_loop s4))\<rparr>) s'"
proof -
  obtain s3 where b: "before_draw A e s = Inr s3" using assms by (auto simp: frame_def split: sum.splits)
  obtain s4 snt where d: "draw_phase A (le_answers e) s3 = (Some (Inr s4), snt)"
    using assms b by (auto simp: frame_def split: sum.splits option.splits prod.splits)
  have a: "after_draw A e (le_start e + el_period_ns (rs_loop s)) (rs_dirty s3) s4 = Continues s'" and snt: "snt = sent"
    using assms b d by (simp_all add: frame_def)
  obtain s1 s2 where p: "begin_frame A (s\<lparr>rs_guard := signals (le_quit e) (le_winch e) (rs_guard s)\<rparr>) = Inr s1" "resize_phase A (le_measure e) s1 = Inr s2"
      "s3 = model_phase A (le_drained e) s2"
    using b by (auto simp: before_draw_def split: sum.splits)
  have "wait_kept (s4\<lparr>rs_loop := fps_phase (le_updated e) (timing_phase e (rs_dirty s3) (rs_loop s4))\<rparr>) s'"
    using a by (auto simp: after_draw_def Let_def dest: wait_keeps split: option.splits prod.splits bool.splits)
  then show ?thesis using that p b d snt by blast
qed

lemma frame_inv:
  assumes f: "frame A e s = (Continues s', sent)" and inv: "loop_inv T u s" and A: "draws_ok A" and TR: "terminals_ok T reflow"
  shows "loop_inv T (vt_after T reflow s s' sent u) s' \<and> \<not> rs_full s'"
proof -
  from f obtain s1 s2 s4 where b: "begin_frame A (s\<lparr>rs_guard := signals (le_quit e) (le_winch e) (rs_guard s)\<rparr>) = Inr s1"
      and r: "resize_phase A (le_measure e) s1 = Inr s2"
      and d: "draw_phase A (le_answers e) (model_phase A (le_drained e) s2) = (Some (Inr s4), sent)"
      and k: "wait_kept (s4\<lparr>rs_loop := fps_phase (le_updated e) (timing_phase e (rs_dirty (model_phase A (le_drained e) s2)) (rs_loop s4))\<rparr>) s'"
    by (rule frame_parts)
  define s3 where "s3 = model_phase A (le_drained e) s2"
  have i0: "loop_inv T u (s\<lparr>rs_guard := signals (le_quit e) (le_winch e) (rs_guard s)\<rparr>)" by (rule loop_inv_cong [OF inv]) simp_all
  have i1: "loop_inv T u s1" by (rule loop_inv_cong [OF i0]) (use begin_frame_keeps [OF b] in simp_all)
  let ?u2 = "if (fb_w (el_fb (rs_loop s2)), fb_h (el_fb (rs_loop s2))) = (fb_w (el_fb (rs_loop s)), fb_h (el_fb (rs_loop s))) then u
    else reflow (fb_w (el_fb (rs_loop s2))) (fb_h (el_fb (rs_loop s2))) u"
  have i2: "loop_inv T ?u2 s2" using resize_phase_inv [OF r i1 TR] begin_frame_keeps(1) [OF b] by simp
  have i3: "loop_inv T ?u2 s3" by (rule loop_inv_cong [OF i2]) (simp_all add: s3_def model_phase_keeps)
  note D = draw_phase_inv [OF d [folded s3_def] i3 A TR]
  have i6: "loop_inv T (vt_feed (loop_vt T s3) sent ?u2) s'"
    by (rule loop_inv_cong [OF conjunct1 [OF D]]) (use k in \<open>auto simp: wait_kept_def phases_keep\<close>)
  have fb: "fb_w (el_fb (rs_loop s')) = fb_w (el_fb (rs_loop s2))" "fb_h (el_fb (rs_loop s')) = fb_h (el_fb (rs_loop s2))"
      "el_fb (rs_loop s3) = el_fb (rs_loop s2)" "\<not> rs_full s'"
    using k D by (auto simp: wait_kept_def phases_keep s3_def model_phase_keeps)
  then have "vt_after T reflow s s' sent u = vt_feed (loop_vt T s3) sent ?u2"
    by (simp add: vt_after_def Let_def loop_vt_def)
  then show ?thesis using i6 fb(4) by simp
qed

text \<open>Iterations one after another, with the terminal they write to; \<open>None\<close> once the loop has ended or is blocked.\<close>

fun play :: "(int \<Rightarrow> int \<Rightarrow> 'u vt) \<Rightarrow> (int \<Rightarrow> int \<Rightarrow> 'u \<Rightarrow> 'u) \<Rightarrow> 'a loop_app \<Rightarrow> loop_env list \<Rightarrow> 'a run_state \<Rightarrow> 'u \<Rightarrow> ('a run_state \<times> 'u) option" where
  "play T reflow A [] s u = Some (s, u)"
| "play T reflow A (e # es) s u =
     (case frame A e s of (Continues s', sent) \<Rightarrow> play T reflow A es s' (vt_after T reflow s s' sent u) | _ \<Rightarrow> None)"

lemma play_inv:
  assumes A: "draws_ok A" and TR: "terminals_ok T reflow"
  shows "play T reflow A es s u = Some (s', u') \<Longrightarrow> loop_inv T u s \<Longrightarrow> loop_inv T u' s' \<and> (es \<noteq> [] \<longrightarrow> \<not> rs_full s')"
proof (induction es arbitrary: s u)
  case (Cons e es)
  from Cons.prems(1) obtain s1 sent where f: "frame A e s = (Continues s1, sent)" and p: "play T reflow A es s1 (vt_after T reflow s s1 sent u) = Some (s', u')"
    by (auto split: prod.splits frame_result.splits)
  note F = frame_inv [OF f Cons.prems(2) A TR]
  show ?case
  proof (cases es)
    case Nil
    then show ?thesis using F p by auto
  next
    case (Cons a list)
    then show ?thesis using Cons.IH [OF p] F by auto
  qed
qed simp

lemma loop_start_inv:
  assumes "vt_ready (T 0 0) u"
  shows "loop_inv T u (run_start (event_loop_new cfg) g a)"
  using assms by (auto simp: loop_inv_def run_start_def event_loop_new_def framebuffer_new_def fb_ok_def glyphs_ok_def fb_contains_def loop_vt_def kMaxCells_def)



section \<open>Statistics\<close>

definition stats_inv :: "loop_stats \<Rightarrow> bool" where
  "stats_inv st \<longleftrightarrow> ls_frames st = ls_drawn st + ls_skipped st \<and> ls_writes st \<le> ls_drawn st \<and> ls_repaints st \<le> ls_frames st \<and>
     (ls_writes st = 0 \<longleftrightarrow> ls_bytes_written st = 0)"

text \<open>In the middle of a frame the iteration is counted, but not yet as drawn or skipped.\<close>

definition stats_mid :: "loop_stats \<Rightarrow> bool" where
  "stats_mid st \<longleftrightarrow> ls_frames st = ls_drawn st + ls_skipped st + 1 \<and> ls_writes st \<le> ls_drawn st \<and> ls_repaints st \<le> ls_frames st \<and>
     (ls_writes st = 0 \<longleftrightarrow> ls_bytes_written st = 0)"

lemma begin_frame_stats: "begin_frame A s = Inr s1 \<Longrightarrow> stats_inv (el_stats (rs_loop s)) \<Longrightarrow>
    stats_mid (el_stats (rs_loop s1)) \<and> ls_repaints (el_stats (rs_loop s1)) < ls_frames (el_stats (rs_loop s1))"
  by (auto simp: begin_frame_def Let_def stats_inv_def stats_mid_def stats_zero_def split: if_splits prod.splits)

lemma resize_phase_stats: "resize_phase A ws s = Inr s2 \<Longrightarrow> stats_mid (el_stats (rs_loop s)) \<Longrightarrow>
    ls_repaints (el_stats (rs_loop s)) < ls_frames (el_stats (rs_loop s)) \<Longrightarrow> stats_mid (el_stats (rs_loop s2))"
  by (auto simp: resize_phase_def loop_resize_def take_resize_request_def Let_def stats_mid_def split: if_splits prod.splits)

lemma model_phase_stats: "stats_mid (el_stats (rs_loop s)) \<Longrightarrow> stats_mid (el_stats (rs_loop (model_phase A t s)))"
  by (auto simp: model_phase_def Let_def stats_mid_def split: prod.splits)

lemma draw_phase_stats: "draw_phase A ans s = (Some (Inr s4), sent) \<Longrightarrow> stats_mid (el_stats (rs_loop s)) \<Longrightarrow> stats_inv (el_stats (rs_loop s4))"
  by (auto simp: draw_phase_def Let_def stats_mid_def stats_inv_def split: if_splits prod.splits option.splits bool.splits)

lemma stats_inv_updates [simp]:
  "stats_inv (st\<lparr>ls_last := x\<rparr>) = stats_inv st" "stats_inv (st\<lparr>ls_worst := y\<rparr>) = stats_inv st"
  "stats_inv (st\<lparr>ls_overruns := n\<rparr>) = stats_inv st" "stats_inv (st\<lparr>ls_fps := q\<rparr>) = stats_inv st"
  by (simp_all add: stats_inv_def)

lemma phases_stats: "stats_inv (el_stats (fps_phase t l)) = stats_inv (el_stats l)" "stats_inv (el_stats (timing_phase e b l)) = stats_inv (el_stats l)"
  by (simp_all add: fps_phase_def timing_phase_def Let_def split_beta)

text \<open>
  The statistics add up after every iteration, also after a reset: every iteration is counted as drawn or as skipped, no more writes are counted
  than drawn frames, no more repaints than iterations, and bytes are counted exactly when a write is.
\<close>

theorem stats_add_up:
  assumes f: "frame A e s = (Continues s', sent)" and st: "stats_inv (el_stats (rs_loop s))"
  shows "stats_inv (el_stats (rs_loop s'))"
proof -
  from f obtain s1 s2 s4 where b: "begin_frame A (s\<lparr>rs_guard := signals (le_quit e) (le_winch e) (rs_guard s)\<rparr>) = Inr s1"
      and r: "resize_phase A (le_measure e) s1 = Inr s2"
      and d: "draw_phase A (le_answers e) (model_phase A (le_drained e) s2) = (Some (Inr s4), sent)"
      and k: "wait_kept (s4\<lparr>rs_loop := fps_phase (le_updated e) (timing_phase e (rs_dirty (model_phase A (le_drained e) s2)) (rs_loop s4))\<rparr>) s'"
    by (rule frame_parts)
  note B = begin_frame_stats [OF b, simplified, OF st]
  have "stats_inv (el_stats (rs_loop s4))"
    by (rule draw_phase_stats [OF d model_phase_stats [OF resize_phase_stats [OF r conjunct1 [OF B] conjunct2 [OF B]]]])
  then show ?thesis using k by (simp add: wait_kept_def phases_stats)
qed

section \<open>What is drawn\<close>

text \<open>Why a frame has to be drawn.\<close>

definition must_draw :: "'a loop_app \<Rightarrow> loop_env \<Rightarrow> 'a run_state \<Rightarrow> 'a run_state \<Rightarrow> bool" where
  "must_draw A e s s2 \<longleftrightarrow>
     rs_dirty s \<or> fst (ap_take_stats_reset A (rs_app s)) \<or> (fb_w (el_fb (rs_loop s2)), fb_h (el_fb (rs_loop s2))) \<noteq> (fb_w (el_fb (rs_loop s)), fb_h (el_fb (rs_loop s))) \<or>
     fst (ap_drain A (rs_app s2)) \<noteq> 0 \<or> fst (ap_update A (le_drained e) (snd (ap_drain A (rs_app s2)))) \<or>
     ap_animating A (snd (ap_update A (le_drained e) (snd (ap_drain A (rs_app s2)))))"

lemma begin_frame_dirty: "begin_frame A s = Inr s1 \<Longrightarrow> rs_dirty s1 \<longleftrightarrow> rs_dirty s \<or> fst (ap_take_stats_reset A (rs_app s))"
  by (auto simp: begin_frame_def Let_def split: if_splits prod.splits)

lemma resize_phase_dirty:
  "resize_phase A ws s = Inr s2 \<Longrightarrow> rs_dirty s2 \<longleftrightarrow> rs_dirty s \<or> (fb_w (el_fb (rs_loop s2)), fb_h (el_fb (rs_loop s2))) \<noteq> (fb_w (el_fb (rs_loop s)), fb_h (el_fb (rs_loop s)))"
  by (auto simp: resize_phase_def loop_resize_def take_resize_request_def Let_def fb_resize_def split: if_splits prod.splits)

lemma model_phase_dirty:
  "rs_dirty (model_phase A t s) \<longleftrightarrow> rs_dirty s \<or> fst (ap_drain A (rs_app s)) \<noteq> 0 \<or> fst (ap_update A t (snd (ap_drain A (rs_app s)))) \<or>
     ap_animating A (snd (ap_update A t (snd (ap_drain A (rs_app s)))))"
  by (simp add: model_phase_def Let_def split: prod.splits)

lemma draw_phase_result:
  assumes "draw_phase A ans s = (Some (Inr s4), sent)"
  shows "if rs_dirty s then el_fb (rs_loop s4) = fb_swap empty_cell (fst (ap_draw A (el_stats (rs_loop s)) (el_fb (rs_loop s)) (rs_app s))) \<and>
      ls_drawn (el_stats (rs_loop s4)) = ls_drawn (el_stats (rs_loop s)) + 1
    else el_fb (rs_loop s4) = el_fb (rs_loop s) \<and> rs_app s4 = rs_app s \<and> sent = [] \<and> ls_drawn (el_stats (rs_loop s4)) = ls_drawn (el_stats (rs_loop s))"
  using assms by (auto simp: draw_phase_def Let_def split: if_splits prod.splits option.splits bool.splits)

text \<open>
  (C20) Nothing is lost and nothing is wasted: an iteration that continues has drawn exactly if something called for it - a change left over from keys
  pressed during the last wait, a reset, a new size, drained events, a changed model or an animation; then the new front buffer is the
  picture the application drew, and otherwise not one byte was written and the buffers are untouched.
\<close>

theorem frame_draws_iff_needed:
  assumes f: "frame A e s = (Continues s', sent)"
  shows "\<exists>s2. before_draw A e s = Inr (model_phase A (le_drained e) s2) \<and>
    (if must_draw A e s s2
     then el_fb (rs_loop s') = fb_swap empty_cell (fst (ap_draw A (el_stats (rs_loop (model_phase A (le_drained e) s2))) (el_fb (rs_loop s2)) (rs_app (model_phase A (le_drained e) s2))))
     else el_fb (rs_loop s') = el_fb (rs_loop s2) \<and> sent = [])"
proof -
  from f obtain s1 s2 s4 where b: "begin_frame A (s\<lparr>rs_guard := signals (le_quit e) (le_winch e) (rs_guard s)\<rparr>) = Inr s1"
      and r: "resize_phase A (le_measure e) s1 = Inr s2" and bd: "before_draw A e s = Inr (model_phase A (le_drained e) s2)"
      and d: "draw_phase A (le_answers e) (model_phase A (le_drained e) s2) = (Some (Inr s4), sent)"
      and k: "wait_kept (s4\<lparr>rs_loop := fps_phase (le_updated e) (timing_phase e (rs_dirty (model_phase A (le_drained e) s2)) (rs_loop s4))\<rparr>) s'"
    by (rule frame_parts)
  have "rs_dirty (model_phase A (le_drained e) s2) \<longleftrightarrow> must_draw A e s s2"
    unfolding model_phase_dirty resize_phase_dirty [OF r] begin_frame_dirty [OF b] must_draw_def begin_frame_keeps(1) [OF b] by simp
  moreover have "el_fb (rs_loop s') = el_fb (rs_loop s4)" using k by (simp add: wait_kept_def phases_keep)
  ultimately show ?thesis using draw_phase_result [OF d] bd by (intro exI [of _ s2]) (simp add: model_phase_keeps split: if_splits)
qed

end
