(* ===== verification/Loop_Demo.thy ===== *)
theory Loop_Demo
  imports Loop_Properties Vt_Demo
begin

text \<open>A small application and one iteration of the loop over it, for the hypotheses of the theorems on the event loop.\<close>

definition demo_app :: "unit loop_app" where
  "demo_app = \<lparr>ap_drain = (\<lambda>a. (0, a)), ap_update = (\<lambda>t a. (False, a)), ap_key = (\<lambda>b (g, a). if b = 0x71 then (False, request_quit g, a) else (True, g, a)),
     ap_animating = (\<lambda>a. False), ap_take_stats_reset = (\<lambda>a. (False, a)), ap_resized = (\<lambda>w h a. a),
     ap_draw = (\<lambda>st fb a. (fb_put 0 0 (mk_cell 0x41 0xC0C0C0 0 kAttrBold) fb, a))\<rparr>"

definition demo_config :: loop_config where
  "demo_config = \<lparr>lc_target_fps = 60, lc_color = TrueColor, lc_min_width = 1, lc_min_height = 1, lc_max_frames = 0\<rparr>"

definition demo_env :: loop_env where
  "demo_env = \<lparr>le_start = 1000, le_quit = False, le_winch = False, le_measure = Some (2, 1), le_drained = 1001, le_updated = 1002, le_drawn = 1003, le_diffed = 1004,
     le_answers = [Takes 10, Interrupted, Takes 500], le_written = 1005, le_end = 1006,
     le_wait = [\<lparr>we_quit = False, we_winch = False, we_now = 2000, we_poll = PollData [0x6A]\<rparr>, \<lparr>we_quit = False, we_winch = False, we_now = 99000000, we_poll = PollTimeout\<rparr>]\<rparr>"

definition demo_guard :: guard where
  "demo_guard = p_guard (process_start demo_termios)"

definition demo_run :: "unit run_state" where
  "demo_run = run_start (event_loop_new demo_config) demo_guard ()"

lemma demo_draws_ok: "draws_ok demo_app"
  unfolding draws_ok_def Let_def
proof (intro allI impI conjI)
  fix st fb a assume ok: "fb_ok fb" "glyphs_ok fb"
  show "same_frame fb (fst (ap_draw demo_app st fb a))" by (simp add: demo_app_def)
  have "glyph_ok (mk_cell 0x41 0xC0C0C0 0 kAttrBold)" by (simp add: glyph_ok_def mk_cell_def glyph_is_single_width_def)
  then show "glyphs_ok (fst (ap_draw demo_app st fb a))"
    using ok at_back_put [OF ok(1)] same_frame_index(2) [OF put_frame] by (auto simp: demo_app_def glyphs_ok_def)
qed

lemma demo_terminals_ok: "terminals_ok (\<lambda>w h. demo_vt w) (\<lambda>w h u. u)"
  using demo_laws by (simp add: terminals_ok_def demo_vt_def)

definition continues :: "'a frame_result \<Rightarrow> bool" where
  "continues r \<longleftrightarrow> (case r of Continues _ \<Rightarrow> True | _ \<Rightarrow> False)"

lemma demo_continues: "continues (fst (frame demo_app demo_env demo_run))"
  by code_simp


lemma demo_frame_run: "\<exists>s sent. frame demo_app demo_env demo_run = (Continues s, sent)"
  using demo_continues by (cases "frame demo_app demo_env demo_run") (auto simp: continues_def split: frame_result.splits)


theorem stats_add_up_witness: "\<exists>s sent. frame demo_app demo_env demo_run = (Continues s, sent) \<and> stats_inv (el_stats (rs_loop s))"
proof -
  obtain s sent where f: "frame demo_app demo_env demo_run = (Continues s, sent)" using demo_frame_run by blast
  have "stats_inv (el_stats (rs_loop demo_run))" by (simp add: demo_run_def run_start_def event_loop_new_def stats_inv_def stats_zero_def)
  then show ?thesis using stats_add_up [OF f] f by blast
qed

text \<open>The first iteration always draws.\<close>

theorem frame_draws_iff_needed_witness:
  "\<exists>s sent s2. frame demo_app demo_env demo_run = (Continues s, sent) \<and> before_draw demo_app demo_env demo_run = Inr (model_phase demo_app 1001 s2) \<and>
     el_fb (rs_loop s) = fb_swap empty_cell (fb_put 0 0 (mk_cell 0x41 0xC0C0C0 0 kAttrBold) (el_fb (rs_loop s2)))"
proof -
  obtain s sent where f: "frame demo_app demo_env demo_run = (Continues s, sent)" using demo_frame_run by blast
  have "must_draw demo_app demo_env demo_run s2" for s2 by (simp add: must_draw_def demo_run_def run_start_def)
  then show ?thesis
    using frame_draws_iff_needed [OF f] f by (auto simp: demo_app_def demo_env_def)
qed


text \<open>
  A window-change signal after which the size measures as before does not lead to a repaint: with nothing else to draw the iteration writes nothing,
  whatever the change left on the screen.
\<close>

lemma winch_same_size_no_repaint:
  assumes "terminal_size ws = Some (fb_w (el_fb (rs_loop s)), fb_h (el_fb (rs_loop s)))" "resize_phase A ws s = Inr s2"
  shows "rs_full s2 = rs_full s \<and> rs_dirty s2 = rs_dirty s"
  using assms by (auto simp: resize_phase_def take_resize_request_def Let_def split: if_splits prod.splits)

end
