(* ===== verification/Panel.thy ===== *)
theory Panel
  imports Framebuffer Text_Format
begin

text \<open>
  The drawing primitives of the bottom panels (\<^verbatim>\<open>src/tui/panel.h\<close>, \<^verbatim>\<open>panel.cpp\<close>): text cut to a panel, right-aligned text and numbers,
  the framed title, and the decimal count with thousands separators. Every primitive is shown to write inside its panel only.
\<close>

section \<open>Drawing\<close>

definition panel_text :: "rect \<Rightarrow> int \<Rightarrow> int \<Rightarrow> u8 list \<Rightarrow> u32 \<Rightarrow> u32 \<Rightarrow> u8 \<Rightarrow> framebuffer \<Rightarrow> nat \<times> framebuffer" where
  "panel_text area dx dy s fg bg at fb =
     (if rw area \<le> 0 \<or> rh area \<le> 0 then (0, fb)
      else if dx < 0 \<or> dy < 0 \<or> dx \<ge> rw area \<or> dy \<ge> rh area then (0, fb)
      else
        (let room = nat (rw area - dx); s = (if length s > room then take room s else s)
         in fb_text (rx area + dx) (ry area + dy) s fg bg at fb))"

definition panel_text_right :: "rect \<Rightarrow> int \<Rightarrow> u8 list \<Rightarrow> u32 \<Rightarrow> u32 \<Rightarrow> u8 \<Rightarrow> framebuffer \<Rightarrow> nat \<times> framebuffer" where
  "panel_text_right area dy s fg bg at fb =
     (if rw area \<le> 0 \<or> rh area \<le> 0 then (0, fb)
      else if dy < 0 \<or> dy \<ge> rh area then (0, fb)
      else if length s > nat (rw area) then (0, fb)
      else fb_text (rx area + (rw area - int (length s))) (ry area + dy) s fg bg at fb)"

definition c_digit :: "u8 \<Rightarrow> bool" where
  "c_digit c \<longleftrightarrow> 0x30 \<le> c \<and> c \<le> 0x39"

definition hexadecimal :: "u8 list \<Rightarrow> bool" where
  "hexadecimal s \<longleftrightarrow> length s > 2 \<and> s ! 0 = 0x30 \<and> s ! 1 = 0x78"

definition numeric_char :: "bool \<Rightarrow> u8 \<Rightarrow> bool" where
  "numeric_char hex c \<longleftrightarrow> c_digit c \<or> c = 0x2C \<or> c = 0x2E \<or> c = 0x7E \<or>
     (hex \<and> (c = 0x78 \<or> (0x61 \<le> c \<and> c \<le> 0x66) \<or> (0x41 \<le> c \<and> c \<le> 0x46)))"

definition panel_numeric_right :: "rect \<Rightarrow> int \<Rightarrow> u8 list \<Rightarrow> u32 \<Rightarrow> u32 \<Rightarrow> u32 \<Rightarrow> framebuffer \<Rightarrow> nat \<times> framebuffer" where
  "panel_numeric_right area dy s number dim bg fb =
     (if rw area \<le> 4 \<or> dy < 0 \<or> dy \<ge> rh area then (0, fb)
      else if int (length s) > rw area - 4 then (0, fb)
      else
        (let x = rx area + rw area - 2 - int (length s);
             (written, fb1) = fb_text x (ry area + dy) s dim bg 0 fb
         in (written,
             fold (\<lambda>i fb. if numeric_char (hexadecimal s) (s ! i)
                          then fb_put (x + int i) (ry area + dy) (mk_cell (ucast (s ! i)) number bg 0) fb else fb)
               [0..<length s] fb1)))"

text \<open>The title is printed with \<^verbatim>\<open>"[%.*s]"\<close> into 96 bytes: it stops at a zero byte of the label and keeps at most 95 bytes.\<close>

definition panel_rule :: "rect \<Rightarrow> u8 list \<Rightarrow> u32 \<Rightarrow> u32 \<Rightarrow> u32 \<Rightarrow> framebuffer \<Rightarrow> framebuffer" where
  "panel_rule area label frame accent bg fb =
     (if rw area \<le> 0 \<or> rh area \<le> 0 then fb
      else
        (let fb1 = fb_box area BoxLight frame bg 0 fb in
         if label = [] then fb1
         else if int (length label) + 6 > rw area then fb1
         else
           (let title = take 95 (0x5B # takeWhile (\<lambda>c. c \<noteq> 0) label @ [0x5D])
            in snd (panel_text area 2 0 title accent bg kAttrBold fb1))))"

section \<open>Counts\<close>

fun count_loop :: "nat \<Rightarrow> string \<Rightarrow> nat \<Rightarrow> nat \<Rightarrow> string \<Rightarrow> string" where
  "count_loop n digits i 0 out = out"
| "count_loop n digits i (Suc left) out =
     (if i \<noteq> 0 \<and> (length digits - i) mod 3 = 0 \<and> length out + 1 \<ge> n then out
      else
        (let out1 = (if i \<noteq> 0 \<and> (length digits - i) mod 3 = 0 then out @ '','' else out)
         in if length out1 + 1 \<ge> n then out1 else count_loop n digits (i + 1) left (out1 @ [digits ! i])))"

text \<open>The text left in a buffer of \<open>n\<close> bytes, and the length returned; no buffer, no text.\<close>

definition format_count :: "nat \<Rightarrow> u64 \<Rightarrow> string option \<times> nat" where
  "format_count n v =
     (if n = 0 then (None, 0)
      else (let digits = dec_string (unat v); out = count_loop n digits 0 (length digits) [] in (Some out, length out)))"

section \<open>Nothing outside the panel\<close>

lemma decode_length: "length (decode_from s i) \<le> length s - i"
proof (induction s i rule: decode_from.induct)
  case (1 s i)
  show ?case
  proof (cases "i < length s")
    case True
    obtain cp k where d: "utf8_decode s i = (cp, k)" by fastforce
    then have k: "0 < k" using utf8_decode_pos by metis
    have "length (decode_from s (i + k)) \<le> length s - (i + k)" by (rule 1 [OF True d [symmetric]])
    moreover have "decode_from s i = cp # decode_from s (i + k)" using True d by (simp add: decode_from.simps [of s i])
    ultimately show ?thesis using True k by simp
  qed (simp add: decode_from.simps [of s i])
qed

text \<open>\<open>confined r fb fb'\<close>: the same frame, with cells of \<open>r\<close> repainted at most.\<close>

definition confined :: "rect \<Rightarrow> framebuffer \<Rightarrow> framebuffer \<Rightarrow> bool" where
  "confined r fb fb' \<longleftrightarrow> same_frame fb fb' \<and> (\<forall>x y. fb_contains fb x y \<longrightarrow> \<not> in_rect r x y \<longrightarrow> at_back fb' x y = at_back fb x y)"

lemma confined_refl [simp]: "confined r fb fb"
  by (simp add: confined_def)

lemma confined_trans: "confined r a b \<Longrightarrow> confined r b c \<Longrightarrow> confined r a c"
  using same_frame_index(2) [of a b] by (auto simp: confined_def intro: same_frame_trans)

lemma confined_ok: "confined r fb fb' \<Longrightarrow> fb_ok fb \<Longrightarrow> fb_ok fb'"
  using same_frame_ok by (auto simp: confined_def)

lemma confined_op:
  assumes "fb_ok fb" "\<And>x y. \<not> in_rect r x y \<Longrightarrow> paint op x y = None"
  shows "confined r fb (run_draw op fb)"
  using run_draw_exact [OF assms(1), of op] assms(2) by (simp add: confined_def)

lemma confined_put: "fb_ok fb \<Longrightarrow> in_rect r x y \<Longrightarrow> confined r fb (fb_put x y c fb)"
  by (rule confined_op [where op = "DPut x y c", simplified]) auto

lemma confined_text:
  "fb_ok fb \<Longrightarrow> rx r \<le> x \<Longrightarrow> x + int (length s) \<le> rx r + rw r \<Longrightarrow> ry r \<le> y \<Longrightarrow> y < ry r + rh r \<Longrightarrow>
   confined r fb (snd (fb_text x y s fg bg at fb))"
  using decode_length [of s 0]
  by (intro confined_op [where op = "DText x y s fg bg at", unfolded run_draw.simps]) (auto simp: in_rect_def Let_def)

lemma confined_box: "fb_ok fb \<Longrightarrow> confined r fb (fb_box r st fg bg at fb)"
  by (rule confined_op [where op = "DBox r st fg bg at", unfolded run_draw.simps]) (auto simp: border_glyph_def in_rect_def Let_def)

lemma confined_fold:
  assumes "\<And>x fb. x \<in> set xs \<Longrightarrow> fb_ok fb \<Longrightarrow> confined r fb (f x fb)"
  shows "fb_ok fb \<Longrightarrow> confined r fb (fold f xs fb)"
  using assms
proof (induction xs arbitrary: fb)
  case (Cons x xs)
  then have "confined r fb (f x fb)" by simp
  then show ?case using Cons confined_ok confined_trans by (metis fold_simps(2) list.set_intros(2))
qed simp

lemma panel_text_confined: "fb_ok fb \<Longrightarrow> confined area fb (snd (panel_text area dx dy s fg bg at fb))"
  by (auto simp: panel_text_def Let_def intro!: confined_text)

lemma panel_text_right_confined: "fb_ok fb \<Longrightarrow> confined area fb (snd (panel_text_right area dy s fg bg at fb))"
  by (auto simp: panel_text_right_def intro!: confined_text)

lemma panel_numeric_confined:
  assumes ok: "fb_ok fb"
  shows "confined area fb (snd (panel_numeric_right area dy s number dim bg fb))"
proof (cases "rw area \<le> 4 \<or> dy < 0 \<or> dy \<ge> rh area \<or> int (length s) > rw area - 4")
  case False
  let ?x = "rx area + rw area - 2 - int (length s)"
  let ?fb1 = "snd (fb_text ?x (ry area + dy) s dim bg 0 fb)"
  have t: "confined area fb ?fb1" using False by (intro confined_text [OF ok]) auto
  have "confined area ?fb1 (fold (\<lambda>i fb. if numeric_char (hexadecimal s) (s ! i)
      then fb_put (?x + int i) (ry area + dy) (mk_cell (ucast (s ! i)) number bg 0) fb else fb) [0..<length s] ?fb1)"
    using False by (intro confined_fold confined_ok [OF t ok]) (auto simp: in_rect_def intro!: confined_put)
  then show ?thesis using False confined_trans [OF t] by (simp add: panel_numeric_right_def Let_def case_prod_unfold)
qed (auto simp: panel_numeric_right_def)

lemma panel_rule_confined: "fb_ok fb \<Longrightarrow> confined area fb (panel_rule area label frame accent bg fb)"
  using confined_box [of fb area BoxLight frame bg 0] panel_text_confined confined_ok confined_trans
  unfolding panel_rule_def Let_def by (auto; blast)

section \<open>What a number looks like\<close>

lemma decode_ascii: "list_all (\<lambda>b. b < 0x80) s \<Longrightarrow> decode_from s i = map ucast (drop i s)"
proof (induction s i rule: decode_from.induct)
  case (1 s i)
  show ?case
  proof (cases "i < length s")
    case True
    then have d: "utf8_decode s i = (ucast (s ! i), 1)" using 1(2) by (simp add: utf8_decode_def list_all_length)
    have "decode_from s i = ucast (s ! i) # decode_from s (i + 1)" using True d by (simp add: decode_from.simps [of s i])
    then show ?thesis using 1(1) [OF True d [symmetric] 1(2)] True by (simp add: Cons_nth_drop_Suc [symmetric])
  qed (simp add: decode_from.simps [of s i])
qed

lemma puts_exact:
  assumes ok: "fb_ok fb" and c: "fb_contains fb x' y'"
  shows "same_frame fb (fold (\<lambda>i fb. if p i then fb_put (x + int i) y (f i) fb else fb) [0..<n] fb) \<and>
    at_back (fold (\<lambda>i fb. if p i then fb_put (x + int i) y (f i) fb else fb) [0..<n] fb) x' y' =
    (if y' = y \<and> x \<le> x' \<and> x' < x + int n \<and> p (nat (x' - x)) then f (nat (x' - x)) else at_back fb x' y')"
proof (induction n)
  case (Suc n)
  let ?fb = "fold (\<lambda>i fb. if p i then fb_put (x + int i) y (f i) fb else fb) [0..<n] fb"
  have sf: "same_frame fb ?fb" using Suc by blast
  have c': "fb_contains ?fb x' y'" using c same_frame_index(2) [OF sf] by simp
  show ?case
    using Suc same_frame_trans [OF sf put_frame] at_back_put [OF same_frame_ok [OF sf ok] c', of "x + int n" y "f n"] by auto
qed auto

lemma numeric_cells:
  assumes ok: "fb_ok fb" and ascii: "list_all (\<lambda>b. b < 0x80) s" and fits: "int (length s) \<le> rw area - 4" "4 < rw area" "0 \<le> dy" "dy < rh area"
    and i: "i < length s" and c: "fb_contains fb (rx area + rw area - 2 - int (length s) + int i) (ry area + dy)"
  shows "at_back (snd (panel_numeric_right area dy s number dim bg fb)) (rx area + rw area - 2 - int (length s) + int i) (ry area + dy) =
    mk_cell (ucast (s ! i)) (if numeric_char (hexadecimal s) (s ! i) then number else dim) bg 0"
proof -
  let ?x = "rx area + rw area - 2 - int (length s)"
  let ?op = "DText ?x (ry area + dy) s dim bg 0"
  have e: "same_frame fb (run_draw ?op fb)" "at_back (run_draw ?op fb) (?x + int i) (ry area + dy) = mk_cell (ucast (s ! i)) dim bg 0"
    using run_draw_exact [OF ok, of ?op] c i by (auto simp: decode_ascii [OF ascii] Let_def)
  have c': "fb_contains (run_draw ?op fb) (?x + int i) (ry area + dy)" using c same_frame_index(2) [OF e(1)] by simp
  have "snd (panel_numeric_right area dy s number dim bg fb) =
      fold (\<lambda>i fb. if numeric_char (hexadecimal s) (s ! i) then fb_put (?x + int i) (ry area + dy) (mk_cell (ucast (s ! i)) number bg 0) fb else fb)
        [0..<length s] (run_draw ?op fb)"
    using fits by (simp add: panel_numeric_right_def Let_def case_prod_unfold)
  then show ?thesis using puts_exact [OF same_frame_ok [OF e(1) ok] c', of "\<lambda>i. numeric_char (hexadecimal s) (s ! i)" ?x "ry area + dy"] e(2) i by simp
qed

text \<open>
  A panel draws inside its own rectangle: whatever the offsets, the text and the size of the screen, the four primitives leave every cell
  outside the panel as it was. A number that fits stands two columns from the right edge, its digits and separators in the number's colour
  and the rest dimmed.
\<close>

theorem panels_draw_inside:
  assumes "fb_ok fb"
  shows "confined area fb (snd (panel_text area dx dy s fg bg at fb)) \<and> confined area fb (snd (panel_text_right area dy s fg bg at fb)) \<and>
    confined area fb (snd (panel_numeric_right area dy s fg dim bg fb)) \<and> confined area fb (panel_rule area s fg dim bg fb) \<and>
    (list_all (\<lambda>b. b < 0x80) s \<longrightarrow> int (length s) \<le> rw area - 4 \<longrightarrow> 4 < rw area \<longrightarrow> 0 \<le> dy \<longrightarrow> dy < rh area \<longrightarrow> i < length s \<longrightarrow>
      fb_contains fb (rx area + rw area - 2 - int (length s) + int i) (ry area + dy) \<longrightarrow>
      at_back (snd (panel_numeric_right area dy s fg dim bg fb)) (rx area + rw area - 2 - int (length s) + int i) (ry area + dy) =
        mk_cell (ucast (s ! i)) (if numeric_char (hexadecimal s) (s ! i) then fg else dim) bg 0)"
  by (intro conjI impI panel_text_confined [OF assms] panel_text_right_confined [OF assms] panel_numeric_confined [OF assms]
    panel_rule_confined [OF assms] numeric_cells [OF assms])

text \<open>\<^verbatim>\<open>"7 B"\<close> in an eight-column panel of a ten-column screen: the digit in the number's colour at column 3.\<close>

theorem panels_draw_inside_witness:
  "let fb = snd (fb_resize 10 2 framebuffer_new); fb' = snd (panel_numeric_right (mk_rect 0 1 8 1) 0 [0x37, 0x20, 0x42] 9 5 0 fb)
   in confined (mk_rect 0 1 8 1) fb fb' \<and> at_back fb' 3 1 = mk_cell 0x37 9 0 0"
proof -
  let ?fb = "snd (fb_resize 10 2 framebuffer_new)"
  have ok: "fb_ok ?fb" "fb_contains ?fb 3 1" by (simp_all add: fb_resize_def framebuffer_new_def kMaxCells_def fb_ok_def fb_contains_def)
  show ?thesis
    using panels_draw_inside [OF ok(1), of "mk_rect 0 1 8 1" 0 0 "[0x37, 0x20, 0x42]" 9 0 0 5 0] ok(2)
    by (simp add: Let_def numeric_char_def c_digit_def mk_rect_def)
qed

section \<open>Counts\<close>

text \<open>The reference: the last three digits after a comma, and the rest grouped the same way.\<close>

function group3 :: "string \<Rightarrow> string" where
  "group3 s = (if length s \<le> 3 then s else group3 (take (length s - 3) s) @ '','' @ drop (length s - 3) s)"
  by pat_completeness auto
termination
  by (relation "measure length") auto

declare group3.simps [simp del]

text \<open>What the loop emits from digit \<open>i\<close> on when the buffer is large enough.\<close>

definition sep :: "nat \<Rightarrow> nat \<Rightarrow> string" where
  "sep d i = (if i \<noteq> 0 \<and> (d - i) mod 3 = 0 then '','' else [])"

definition emitted :: "string \<Rightarrow> nat \<Rightarrow> nat \<Rightarrow> string" where
  "emitted s i k = concat (map (\<lambda>j. sep (length s) j @ [s ! j]) [i..<i + k])"

lemma emitted_Suc: "emitted s i (Suc k) = sep (length s) i @ [s ! i] @ emitted s (i + 1) k"
proof -
  have "[i..<i + Suc k] = i # [i + 1..<i + 1 + k]" by (simp add: upt_conv_Cons)
  then show ?thesis by (simp add: emitted_def)
qed

lemma count_loop_take: "0 < n \<Longrightarrow> length out < n \<Longrightarrow> count_loop n s i k out = take (n - 1) (out @ emitted s i k)"
proof (induction k arbitrary: i out)
  case 0
  then show ?case by (simp add: emitted_def)
next
  case (Suc k)
  define out1 where "out1 = out @ sep (length s) i"
  have IH: "count_loop n s (i + 1) k (out1 @ [s ! i]) = take (n - 1) (out1 @ [s ! i] @ emitted s (i + 1) k)" if "length out1 + 1 < n"
    using Suc.IH [OF Suc.prems(1), of "out1 @ [s ! i]" "i + 1"] that by simp
  show ?case using Suc.prems IH by (auto simp: emitted_Suc out1_def sep_def Let_def)
qed

lemma emitted_group3: "emitted s 0 (length s) = group3 s"
proof (induction s rule: group3.induct)
  case (1 s)
  show ?case
  proof (cases "length s \<le> 3")
    case True
    have "sep (length s) j = []" if "j < length s" for j using True that by (auto simp: sep_def dest!: dvd_imp_le)
    then have "map (\<lambda>j. sep (length s) j @ [s ! j]) [0..<length s] = map (\<lambda>j. [s ! j]) [0..<length s]" by simp
    then have "emitted s 0 (length s) = map ((!) s) [0..<length s]" unfolding emitted_def by (simp only: add_0 concat_map_singleton)
    then show ?thesis using True by (simp add: map_nth group3.simps [of s])
  next
    case False
    let ?m = "length s - 3" let ?t = "take ?m s"
    have sp: "sep (length ?t) j = sep (length s) j" if "j < ?m" for j
    proof -
      have e: "length s - j = (?m - j) + 3" using that False by simp
      have "(length s - j) mod 3 = (?m - j) mod 3" unfolding e by (rule mod_add_self2)
      moreover have "length ?t = ?m" by simp
      ultimately show ?thesis unfolding sep_def by presburger
    qed
    have "length s = ?m + 3" using False by simp
    then have "[0..<length s] = [0..<?m] @ [?m..<?m + 3]" using upt_add_eq_append [of 0 ?m 3] by simp
    moreover have "[m..<m + 3] = [m, m + 1, m + 2]" for m :: nat by (simp add: upt_rec)
    ultimately have "[0..<length s] = [0..<?m] @ [?m, ?m + 1, ?m + 2]" by simp
    moreover have "concat (map (\<lambda>j. sep (length s) j @ [s ! j]) [0..<?m]) = emitted ?t 0 (length ?t)"
      using sp unfolding emitted_def by (intro arg_cong [of _ _ concat] map_cong) auto
    moreover have "drop ?m s = [s ! ?m, s ! (?m + 1), s ! (?m + 2)]"
      using False Cons_nth_drop_Suc [of ?m s] Cons_nth_drop_Suc [of "?m + 1" s] Cons_nth_drop_Suc [of "?m + 2" s] by simp
    ultimately show ?thesis using 1 False
      by (simp add: group3.simps [of s]) (simp add: emitted_def sep_def)
  qed
qed

lemma filter_group3: "CHR '','' \<notin> set s \<Longrightarrow> filter (\<lambda>c. c \<noteq> CHR '','') (group3 s) = s"
proof (induction s rule: group3.induct)
  case (1 s)
  have keep: "filter (\<lambda>c. c \<noteq> CHR '','') t = t" if "set t \<subseteq> set s" for t
    using 1(2) that by (auto simp: filter_id_conv)
  have "CHR '','' \<notin> set (take (length s - 3) s)" using 1(2) by (meson in_set_takeD)
  then show ?case using 1(1) keep by (auto simp: group3.simps [of s] set_drop_subset)
qed

lemma dec_string_no_comma: "CHR '','' \<notin> set (dec_string n)"
proof
  assume "CHR '','' \<in> set (dec_string n)"
  then obtain d where "d < 10" "CHR '','' = digit_char d" using set_dec_string by blast
  then show False using digit_value_char [of d] by (simp flip: \<open>CHR '','' = digit_char d\<close>) (simp add: digit_value_def)
qed

text \<open>
  Counts are grouped in threes: the text of a count is its decimal form with a comma before every third digit from the right, cut to
  the buffer, so without the commas the untruncated text reads back as the count; the length returned is always below the buffer's size.
\<close>

theorem format_count_groups:
  "0 < n \<Longrightarrow> format_count n v = (Some (take (n - 1) (group3 (dec_string (unat v)))), min (n - 1) (length (group3 (dec_string (unat v))))) \<and>
     filter (\<lambda>c. c \<noteq> CHR '','') (group3 (dec_string (unat v))) = dec_string (unat v) \<and>
     read_digits 0 (filter (\<lambda>c. c \<noteq> CHR '','') (group3 (dec_string (unat v)))) = Some (unat v)"
proof -
  assume n: "0 < n"
  have f: "filter (\<lambda>c. c \<noteq> CHR '','') (group3 (dec_string (unat v))) = dec_string (unat v)"
    using filter_group3 dec_string_no_comma by blast
  have "count_loop n (dec_string (unat v)) 0 (length (dec_string (unat v))) [] = take (n - 1) (group3 (dec_string (unat v)))"
    using count_loop_take [of n "[]" "dec_string (unat v)" 0 "length (dec_string (unat v))"] n by (simp add: emitted_group3)
  then show ?thesis using n f by (simp add: format_count_def Let_def read_dec_string)
qed

text \<open>A million and some, in full and in a buffer of six bytes.\<close>

theorem format_count_groups_witness: "format_count 16 1234567 = (Some ''1,234,567'', 9) \<and> format_count 6 1234567 = (Some ''1,234'', 5)"
proof -
  have d: "dec_string 1234567 = ''1234567''" by (simp add: dec_string.simps digit_char_def) code_simp
  then have "group3 (dec_string 1234567) = ''1,234,567''" by (simp add: group3.simps)
  then show ?thesis using format_count_groups [of 16 1234567] format_count_groups [of 6 1234567] by simp
qed

end
