(* ===== verification/Theme.thy ===== *)
theory Theme
  imports Complex_Main Capabilities
begin

text \<open>
  The semantic colour themes of \<^verbatim>\<open>src/tui/theme.h\<close> and \<^verbatim>\<open>theme.cpp\<close>: the two palettes, the option parser and the WCAG contrast
  formula. The formula's doubles are exact reals, \<^verbatim>\<open>std::pow\<close> is \<^const>\<open>powr\<close>. Every colour the panels write text in is shown to meet
  the 4.5:1 ratio on its theme's background.
\<close>

section \<open>Palettes\<close>

datatype theme_kind = Dark | Light

record theme =
  th_frame :: u32
  th_title :: u32
  th_accent :: u32
  th_malloc :: u32
  th_freed :: u32
  th_active :: u32
  th_overhead :: u32
  th_unalloc :: u32
  th_cursor :: u32
  th_text :: u32
  th_dim :: u32
  th_bg :: u32
  th_danger_text :: u32
  th_leak :: u32

definition dark_theme :: theme where
  "dark_theme =
     \<lparr>th_frame = 0xC87828, th_title = 0x7FE08A, th_accent = 0xF5A623, th_malloc = 0x4EC94E,
      th_freed = 0xE01B24, th_active = 0x3584E4, th_overhead = 0xF6D32D, th_unalloc = 0x2A2A2A,
      th_cursor = 0x33D7E8, th_text = 0xD8D8D8, th_dim = 0x7A7A7A, th_bg = 0x0C0C0C,
      th_danger_text = 0xF36A72, th_leak = 0xE57BFF\<rparr>"

definition light_theme :: theme where
  "light_theme =
     \<lparr>th_frame = 0x834D10, th_title = 0x1E6B2C, th_accent = 0x805A00, th_malloc = 0x1F7A31,
      th_freed = 0xB51620, th_active = 0x1E5FAF, th_overhead = 0x805A00, th_unalloc = 0xE2E5E7,
      th_cursor = 0x00717B, th_text = 0x1C2228, th_dim = 0x545D66, th_bg = 0xFAFAF8,
      th_danger_text = 0xA40812, th_leak = 0x8A2387\<rparr>"

fun theme_for :: "theme_kind \<Rightarrow> theme" where
  "theme_for Light = light_theme"
| "theme_for Dark = dark_theme"

definition parse_theme :: "string \<Rightarrow> theme_kind option" where
  "parse_theme name = (if name = ''dark'' then Some Dark else if name = ''light'' then Some Light else None)"

fun theme_name :: "theme_kind \<Rightarrow> string" where
  "theme_name Light = ''light''"
| "theme_name Dark = ''dark''"

record heat_palette =
  hp_fresh :: u32
  hp_freed :: u32
  hp_settled :: u32
  hp_overhead :: u32
  hp_empty :: u32

definition heat_palette :: "theme \<Rightarrow> heat_palette" where
  "heat_palette t = \<lparr>hp_fresh = th_malloc t, hp_freed = th_freed t, hp_settled = th_active t, hp_overhead = th_overhead t, hp_empty = th_unalloc t\<rparr>"

section \<open>Contrast\<close>

definition channel :: "nat \<Rightarrow> real" where
  "channel v = (let s = real v / 255 in if s \<le> 0.04045 then s / 12.92 else ((s + 0.055) / 1.055) powr 2.4)"

definition luminance :: "u32 \<Rightarrow> real" where
  "luminance c = 0.2126 * channel (unat (drop_bit 16 c AND 0xFF)) + 0.7152 * channel (unat (drop_bit 8 c AND 0xFF)) + 0.0722 * channel (unat (c AND 0xFF))"

definition contrast_ratio :: "u32 \<Rightarrow> u32 \<Rightarrow> real" where
  "contrast_ratio fg bg =
     (let a = luminance fg; b = luminance bg; hi = max a b; lo = min a b in (hi + 0.05) / (lo + 0.05))"

definition readable_text :: "u32 \<Rightarrow> u32 \<Rightarrow> bool" where
  "readable_text fg bg \<longleftrightarrow> contrast_ratio fg bg \<ge> 4.5"

lemma parse_theme_name [simp]: "parse_theme (theme_name k) = Some k"
  by (cases k) (simp_all add: parse_theme_def)

lemma parse_theme_Some: "parse_theme s = Some k \<longleftrightarrow> s = theme_name k"
  by (cases k) (auto simp: parse_theme_def split: if_splits)

section \<open>Rational bounds for the gamma curve\<close>

text \<open>The exponent 2.4 is 12/5: comparing fifth powers with twelfth powers brackets a channel by a fraction of 10000.\<close>

lemma powr_fifth: "0 \<le> x \<Longrightarrow> (x powr (12 / 5)) ^ 5 = (x :: real) ^ 12"
  using powr_power [of x "12 / 5" 5] by (cases "x = 0") (simp_all add: powr_numeral)

lemma powr_ge: "0 \<le> x \<Longrightarrow> b ^ 5 \<le> x ^ 12 \<Longrightarrow> (b :: real) \<le> x powr (12 / 5)"
  using powr_fifth [of x] power_le_imp_le_base [of b 4 "x powr (12 / 5)"] by (simp add: eval_nat_numeral)

lemma powr_le: "0 \<le> x \<Longrightarrow> 0 \<le> b \<Longrightarrow> x ^ 12 \<le> b ^ 5 \<Longrightarrow> x powr (12 / 5) \<le> (b :: real)"
  using powr_fifth [of x] power_le_imp_le_base [of "x powr (12 / 5)" 4 b] by (simp add: eval_nat_numeral)

definition above :: "nat \<Rightarrow> nat \<Rightarrow> bool" where
  "above b v \<longleftrightarrow> (if v \<le> 10 then 32946 * b \<le> 100000 * v else b ^ 5 * 269025 ^ 12 \<le> (1000 * v + 14025) ^ 12 * 10 ^ 20)"

definition below :: "nat \<Rightarrow> nat \<Rightarrow> bool" where
  "below b v \<longleftrightarrow> (if v \<le> 10 then 100000 * v \<le> 32946 * b else (1000 * v + 14025) ^ 12 * 10 ^ 20 \<le> b ^ 5 * 269025 ^ 12)"

lemma gamma_base: "(real v / 255 + 0.055) / 1.055 = real (1000 * v + 14025) / 269025"
  by (simp add: field_simps)

lemma channel_split: "channel v = (if v \<le> 10 then real v * 10 / 32946 else (real (1000 * v + 14025) / 269025) powr (12 / 5))"
proof -
  have "real v / 255 \<le> 0.04045 \<longleftrightarrow> v \<le> 10" by (cases "v \<le> 10") auto
  moreover have "(2.4 :: real) = 12 / 5" by simp
  ultimately show ?thesis unfolding channel_def Let_def gamma_base by simp
qed

lemma fraction_powers: "0 < p \<Longrightarrow> 0 < q \<Longrightarrow> (b / p) ^ 5 \<le> (x / q) ^ 12 \<longleftrightarrow> b ^ 5 * q ^ 12 \<le> x ^ 12 * (p :: real) ^ 5"
  "0 < p \<Longrightarrow> 0 < q \<Longrightarrow> (x / q) ^ 12 \<le> (b / p) ^ 5 \<longleftrightarrow> x ^ 12 * p ^ 5 \<le> b ^ 5 * q ^ 12"
  by (simp_all add: power_divide divide_simps)

lemma above_channel: "above b v \<Longrightarrow> real b / 10000 \<le> channel v"
proof (cases "v \<le> 10")
  case False
  assume "above b v"
  then have "real (b ^ 5 * 269025 ^ 12) \<le> real ((1000 * v + 14025) ^ 12 * 10 ^ 20)"
    using False unfolding above_def by (simp only: of_nat_le_iff if_False)
  then have "real b ^ 5 * 269025 ^ 12 \<le> real (1000 * v + 14025) ^ 12 * 10000 ^ 5"
    unfolding of_nat_mult of_nat_power of_nat_numeral by simp
  then have "(real b / 10000) ^ 5 \<le> (real (1000 * v + 14025) / 269025) ^ 12" by (simp only: fraction_powers zero_less_numeral)
  then show ?thesis using False powr_ge [of "real (1000 * v + 14025) / 269025" "real b / 10000"] by (simp add: channel_split)
qed (auto simp: above_def channel_split)

lemma below_channel: "below b v \<Longrightarrow> channel v \<le> real b / 10000"
proof (cases "v \<le> 10")
  case False
  assume "below b v"
  then have "real ((1000 * v + 14025) ^ 12 * 10 ^ 20) \<le> real (b ^ 5 * 269025 ^ 12)"
    using False unfolding below_def by (simp only: of_nat_le_iff if_False)
  then have "real (1000 * v + 14025) ^ 12 * 10000 ^ 5 \<le> real b ^ 5 * 269025 ^ 12"
    unfolding of_nat_mult of_nat_power of_nat_numeral by simp
  then have "(real (1000 * v + 14025) / 269025) ^ 12 \<le> (real b / 10000) ^ 5" by (simp only: fraction_powers zero_less_numeral)
  then show ?thesis using False powr_le [of "real (1000 * v + 14025) / 269025" "real b / 10000"] by (simp add: channel_split)
qed (auto simp: below_def channel_split)

text \<open>A triple of channel bounds brackets the luminance of a colour.\<close>

definition lum_above :: "nat \<times> nat \<times> nat \<Rightarrow> u32 \<Rightarrow> bool" where
  "lum_above b c \<longleftrightarrow> (case b of (r, g, u) \<Rightarrow> above r (unat (drop_bit 16 c AND 0xFF)) \<and> above g (unat (drop_bit 8 c AND 0xFF)) \<and> above u (unat (c AND 0xFF)))"

definition lum_below :: "nat \<times> nat \<times> nat \<Rightarrow> u32 \<Rightarrow> bool" where
  "lum_below b c \<longleftrightarrow> (case b of (r, g, u) \<Rightarrow> below r (unat (drop_bit 16 c AND 0xFF)) \<and> below g (unat (drop_bit 8 c AND 0xFF)) \<and> below u (unat (c AND 0xFF)))"

definition weigh :: "nat \<times> nat \<times> nat \<Rightarrow> nat" where
  "weigh b = (case b of (r, g, u) \<Rightarrow> 2126 * r + 7152 * g + 722 * u)"

lemma lum_above: "lum_above b c \<Longrightarrow> real (weigh b) / 10 ^ 8 \<le> luminance c"
  using above_channel [of "fst b"] above_channel [of "fst (snd b)"] above_channel [of "snd (snd b)"]
  by (fastforce simp: lum_above_def luminance_def weigh_def split: prod.splits)

lemma lum_below: "lum_below b c \<Longrightarrow> luminance c \<le> real (weigh b) / 10 ^ 8"
  using below_channel [of "fst b"] below_channel [of "fst (snd b)"] below_channel [of "snd (snd b)"]
  by (fastforce simp: lum_below_def luminance_def weigh_def split: prod.splits)

lemma channel_nonneg [simp]: "0 \<le> channel v"
  by (simp add: channel_split)

lemma luminance_nonneg [simp]: "0 \<le> luminance c"
  by (simp add: luminance_def)

lemma contrast_sym: "contrast_ratio a b = contrast_ratio b a"
  by (simp add: contrast_ratio_def Let_def max.commute min.commute)

text \<open>Enough distance between a lower bound of the bright colour and an upper bound of the dark one.\<close>

lemma readable_from_bounds:
  assumes "lum_above p a" "lum_below q b" "45 * (weigh q + 5000000) \<le> 10 * (weigh p + 5000000)"
  shows "readable_text a b" "readable_text b a"
proof -
  have "45 * (luminance b + 1 / 20) \<le> 10 * (luminance a + 1 / 20)"
    using lum_above [OF assms(1)] lum_below [OF assms(2)] assms(3) by simp
  moreover from this have "luminance b \<le> luminance a" using luminance_nonneg [of b] unfolding distrib_left by linarith
  moreover have "0 < luminance b + 1 / 20" using luminance_nonneg [of b] by linarith
  ultimately show "readable_text a b" by (simp add: readable_text_def contrast_ratio_def Let_def max_def min_def divide_simps)
  then show "readable_text b a" by (simp add: readable_text_def contrast_sym)
qed

lemma unreadable_from_bounds:
  assumes "lum_below p a" "lum_above q b" "weigh q \<le> weigh p" "10 * (weigh p + 5000000) < 45 * (weigh q + 5000000)" "luminance b \<le> luminance a"
  shows "\<not> readable_text a b"
proof -
  have "10 * (luminance a + 1 / 20) < 45 * (luminance b + 1 / 20)"
    using lum_below [OF assms(1)] lum_above [OF assms(2)] assms(4) by simp
  moreover have "0 < luminance b + 1 / 20" using luminance_nonneg [of b] by linarith
  ultimately show ?thesis using assms(5) by (simp add: readable_text_def contrast_ratio_def Let_def max_def min_def divide_simps)
qed

section \<open>Both themes are readable\<close>

text \<open>The tokens the chrome and the panels write text in.\<close>

definition text_tokens :: "theme \<Rightarrow> u32 list" where
  "text_tokens t = [th_frame t, th_title t, th_accent t, th_malloc t, th_active t, th_cursor t, th_text t, th_dim t, th_danger_text t, th_leak t]"

lemmas contrast_eval = lum_above_def lum_below_def above_def below_def weigh_def unsigned_and_eq unsigned_drop_bit_eq

lemma dark_bg_below: "lum_below (37, 37, 37) 0x0C0C0C"
  by (simp add: contrast_eval)

lemma light_bg_above: "lum_above (9559, 9559, 9386) 0xFAFAF8"
  by (simp add: contrast_eval)

lemma dark_bounds: "list_all2 lum_above [(5775, 1878, 212), (2122, 7454, 2541), (9130, 3813, 168), (761, 5840, 761), (356, 2307, 7758), (331, 6795, 8069), (6866, 6866, 6866), (1946, 1946, 1946), (8962, 1441, 1682), (7835, 1980, 10000)] (text_tokens dark_theme)"
  by (simp add: text_tokens_def dark_theme_def contrast_eval)

lemma light_bounds: "list_all2 lum_below [(2270, 743, 52), (130, 1471, 252), (2159, 1023, 0), (138, 1947, 308), (130, 1145, 4287), (0, 1652, 1981), (117, 160, 213), (887, 1095, 1329), (3713, 25, 61), (2542, 169, 2423)] (text_tokens light_theme)"
  by (simp add: text_tokens_def light_theme_def contrast_eval)

lemma dark_readable: "list_all (\<lambda>c. readable_text c (th_bg dark_theme)) (text_tokens dark_theme)"
proof -
  have far: "readable_text c 0x0C0C0C" if "lum_above p c" "19165000 \<le> weigh p" for p c
    by (rule readable_from_bounds(1) [OF that(1) dark_bg_below]) (use that(2) in \<open>simp add: weigh_def\<close>)
  show ?thesis using dark_bounds
    by (auto simp: list_all2_Cons1 text_tokens_def dark_theme_def weigh_def intro: far)
qed

lemma light_readable: "list_all (\<lambda>c. readable_text c (th_bg light_theme)) (text_tokens light_theme)"
proof -
  have far: "readable_text c 0xFAFAF8" if "lum_below q c" "weigh q \<le> 17300000" for q c
    by (rule readable_from_bounds(2) [OF light_bg_above that(1)]) (use that(2) in \<open>simp add: weigh_def\<close>)
  show ?thesis using light_bounds
    by (auto simp: list_all2_Cons1 text_tokens_def light_theme_def weigh_def intro: far)
qed

lemma dark_fill_unreadable: "\<not> readable_text (th_freed dark_theme) (th_bg dark_theme)"
proof -
  have a: "lum_below (7455, 110, 177) 0xE01B24" "lum_above (7454, 109, 176) 0xE01B24" by (simp_all add: contrast_eval)
  have b: "lum_above (36, 36, 36) 0x0C0C0C" by (simp add: contrast_eval)
  have "luminance 0x0C0C0C \<le> luminance 0xE01B24" using lum_below [OF dark_bg_below] lum_above [OF a(2)] by (simp add: weigh_def)
  then show ?thesis using unreadable_from_bounds [OF a(1) b] by (simp add: weigh_def dark_theme_def)
qed

text \<open>
  (C36) Both themes are legible: every colour the chrome and the panels write text in meets the WCAG ratio of 4.5 to 1 on its theme's own background,
  evaluated exactly over the reals; the dark theme's red fill alone would not, which is why it has a separate text companion. The option's
  two spellings are exactly the themes' names.
\<close>

theorem themes_are_legible:
  "list_all (\<lambda>c. readable_text c (th_bg (theme_for k))) (text_tokens (theme_for k)) \<and>
   \<not> readable_text (th_freed (theme_for Dark)) (th_bg (theme_for Dark)) \<and> (parse_theme s = Some k \<longleftrightarrow> s = theme_name k)"
  using dark_readable light_readable dark_fill_unreadable by (cases k) (simp_all add: parse_theme_Some)

end
