(* ===== verification/Heat_Color.thy ===== *)
theory Heat_Color
  imports Theme Inspector
begin

text \<open>
  The colour of a heat-map cell (\<^verbatim>\<open>src/tui/heat_color.h\<close>, \<^verbatim>\<open>heat_color.cpp\<close>): the Oklab conversions, the threshold encoder, the density table
  and the aging rule. The code's floats are exact reals here, \<^verbatim>\<open>std::cbrt\<close> is \<open>root 3\<close> and \<^verbatim>\<open>std::pow\<close> is \<^const>\<open>powr\<close>; stamps and ages keep
  their 32-bit wrap-around.
\<close>

section \<open>Transfer function\<close>

definition clamp01 :: "real \<Rightarrow> real" where
  "clamp01 v = (if v < 0 then 0 else if v > 1 then 1 else v)"

definition srgb_to_linear :: "real \<Rightarrow> real" where
  "srgb_to_linear v = (if v \<le> 0.04045 then v / 12.92 else ((v + 0.055) / 1.055) powr 2.4)"

definition kEncode :: "nat \<Rightarrow> real" where
  "kEncode i = srgb_to_linear ((real i + 0.5) / 255)"

definition kGuessBins :: nat where "kGuessBins = 1024"

function guess_loop :: "real \<Rightarrow> nat \<Rightarrow> nat" where
  "guess_loop lin code = (if code < 255 \<and> lin \<ge> kEncode code then guess_loop lin (code + 1) else code)"
  by pat_completeness auto
termination
  by (relation "measure (\<lambda>(l, c). 255 - c)") auto

declare guess_loop.simps [simp del]

definition kGuess :: "nat \<Rightarrow> nat" where
  "kGuess j = (let r = real j / real kGuessBins in guess_loop (r * r) 0)"

text \<open>The second loop of \<^verbatim>\<open>encode_channel\<close>; the first one is the counting loop above.\<close>

fun walk_down :: "real \<Rightarrow> nat \<Rightarrow> nat" where
  "walk_down lin 0 = 0"
| "walk_down lin (Suc c) = (if lin < kEncode c then walk_down lin c else Suc c)"

definition encode_channel :: "real \<Rightarrow> nat" where
  "encode_channel lin =
     (if \<not> lin > 0 then 0
      else if lin \<ge> 1 then 255
      else walk_down lin (guess_loop lin (kGuess (nat \<lfloor>sqrt lin * real kGuessBins\<rfloor>))))"

definition rgb_channel :: "u32 \<Rightarrow> nat \<Rightarrow> real" where
  "rgb_channel c shift = real (unat (drop_bit shift c AND 0xFF)) / 255"

section \<open>Oklab\<close>

record oklab =
  ok_L :: real
  ok_a :: real
  ok_b :: real

definition mk_lab :: "real \<Rightarrow> real \<Rightarrow> real \<Rightarrow> oklab" where
  "mk_lab l a b = \<lparr>ok_L = l, ok_a = a, ok_b = b\<rparr>"

definition scaled :: "oklab \<Rightarrow> real \<Rightarrow> oklab" where
  "scaled c factor = mk_lab (clamp01 (ok_L c * factor)) (ok_a c) (ok_b c)"

definition srgb_to_oklab :: "u32 \<Rightarrow> oklab" where
  "srgb_to_oklab c =
     (let r = srgb_to_linear (rgb_channel c 16); g = srgb_to_linear (rgb_channel c 8); b = srgb_to_linear (rgb_channel c 0);
          l = 0.4122214708 * r + 0.5363325363 * g + 0.0514459929 * b;
          m = 0.2119034982 * r + 0.6806995451 * g + 0.1073969566 * b;
          s = 0.0883024619 * r + 0.2817188376 * g + 0.6299787005 * b;
          l' = root 3 l; m' = root 3 m; s' = root 3 s
      in mk_lab (0.2104542553 * l' + 0.7936177850 * m' - 0.0040720468 * s')
           (1.9779984951 * l' - 2.4285922050 * m' + 0.4505937099 * s')
           (0.0259040371 * l' + 0.7827717662 * m' - 0.8086757660 * s'))"

definition oklab_to_srgb :: "oklab \<Rightarrow> u32" where
  "oklab_to_srgb c =
     (let l' = ok_L c + 0.3963377774 * ok_a c + 0.2158037573 * ok_b c;
          m' = ok_L c - 0.1055613458 * ok_a c - 0.0638541728 * ok_b c;
          s' = ok_L c - 0.0894841775 * ok_a c - 1.2914855480 * ok_b c;
          l = l' * l' * l'; m = m' * m' * m'; s = s' * s' * s';
          r = 4.0767416621 * l - 3.3077115913 * m + 0.2309699292 * s;
          g = - 1.2684380046 * l + 2.6097574011 * m - 0.3413193965 * s;
          b = - 0.0041960863 * l - 0.7034186147 * m + 1.7076147010 * s
      in push_bit 16 (of_nat (encode_channel r)) OR push_bit 8 (of_nat (encode_channel g)) OR of_nat (encode_channel b))"

definition lerp :: "oklab \<Rightarrow> oklab \<Rightarrow> real \<Rightarrow> oklab" where
  "lerp p q t = (let u = clamp01 t in mk_lab (ok_L p + (ok_L q - ok_L p) * u) (ok_a p + (ok_a q - ok_a p) * u) (ok_b p + (ok_b q - ok_b p) * u))"

definition lerp_oklab :: "u32 \<Rightarrow> u32 \<Rightarrow> real \<Rightarrow> u32" where
  "lerp_oklab p q t = oklab_to_srgb (lerp (srgb_to_oklab p) (srgb_to_oklab q) t)"

definition pulse_wave :: "real \<Rightarrow> real" where
  "pulse_wave u = (let x = clamp01 u; t = (if x \<le> 0.5 then x * 2 else (1 - x) * 2); iv = 1 - t in 1 - iv * iv * iv)"

section \<open>The ramp\<close>

definition kDefaultPalette :: heat_palette where
  "kDefaultPalette = heat_palette dark_theme"

definition kPulsePeak :: real where "kPulsePeak = 0.35"
definition kDensityFloor :: real where "kDensityFloor = 0.65"
definition kDensitySteps :: nat where [hv_consts]: "kDensitySteps = 128"

record heat_ramp =
  hr_fresh :: oklab
  hr_freed :: oklab
  hr_settled :: oklab
  hr_overhead :: oklab
  hr_empty :: oklab
  hr_srgb :: heat_palette
  hr_timings :: heat_timings
  hr_lut :: "u32 list"

definition lab_for_step :: "oklab \<Rightarrow> nat \<Rightarrow> oklab" where
  "lab_for_step settled step = (let density = real step / real kDensitySteps in scaled settled (kDensityFloor + (1 - kDensityFloor) * density))"

definition heat_ramp_new :: "heat_palette \<Rightarrow> heat_timings \<Rightarrow> heat_ramp" where
  "heat_ramp_new p t =
     (let s = srgb_to_oklab (hp_settled p)
      in \<lparr>hr_fresh = srgb_to_oklab (hp_fresh p), hr_freed = srgb_to_oklab (hp_freed p), hr_settled = s,
          hr_overhead = srgb_to_oklab (hp_overhead p), hr_empty = srgb_to_oklab (hp_empty p), hr_srgb = p, hr_timings = t,
          hr_lut = map (\<lambda>i. oklab_to_srgb (lab_for_step s i)) [0..<kDensitySteps + 1]\<rparr>)"

definition set_timings :: "heat_timings \<Rightarrow> heat_ramp \<Rightarrow> heat_ramp" where
  "set_timings t r = r\<lparr>hr_timings := t\<rparr>"

definition density_step :: "cell_aggregate \<Rightarrow> u64 \<Rightarrow> nat" where
  "density_step a cell_bytes =
     (if cell_bytes = 0 then kDensitySteps
      else nat \<lfloor>clamp01 (real (unat (a_live_bytes a)) / real (unat cell_bytes)) * real kDensitySteps + 0.5\<rfloor>)"

definition settled_lab :: "heat_ramp \<Rightarrow> cell_aggregate \<Rightarrow> u64 \<Rightarrow> oklab" where
  "settled_lab r a cell_bytes =
     (if a_n_live a = 0 then (if a_overhead_bytes a > 0 then hr_overhead r else hr_empty r)
      else lab_for_step (hr_settled r) (density_step a cell_bytes))"

definition ramp_settled :: "heat_ramp \<Rightarrow> cell_aggregate \<Rightarrow> u64 \<Rightarrow> u32" where
  "ramp_settled r a cell_bytes =
     (if a_n_live a = 0 then (if a_overhead_bytes a > 0 then hp_overhead (hr_srgb r) else hp_empty (hr_srgb r))
      else hr_lut r ! density_step a cell_bytes)"

definition after_alloc :: "heat_ramp \<Rightarrow> oklab \<Rightarrow> u32 \<Rightarrow> oklab" where
  "after_alloc r base alloc_age =
     (let t = hr_timings r; alloc_span = malloc_pulse_ms t + malloc_fade_ms t in
      if alloc_age < malloc_pulse_ms t then
        (let u = (if malloc_pulse_ms t > 0 then real (unat alloc_age) / real (unat (malloc_pulse_ms t)) else 1)
         in scaled (hr_fresh r) (1 + kPulsePeak * pulse_wave u))
      else if alloc_age < alloc_span \<and> malloc_fade_ms t > 0 then
        lerp (hr_fresh r) base (real (unat (alloc_age - malloc_pulse_ms t)) / real (unat (malloc_fade_ms t)))
      else base)"

definition ramp_color :: "heat_ramp \<Rightarrow> cell_aggregate \<Rightarrow> u64 \<Rightarrow> u32 \<Rightarrow> u32" where
  "ramp_color r a cell_bytes now_ms =
     (let t = hr_timings r; free_span = free_flash_ms t + free_fade_ms t; free_age = age_of (a_last_free_ms a) now_ms free_span in
      if free_age < free_flash_ms t then hp_freed (hr_srgb r)
      else
        (let alloc_span = malloc_pulse_ms t + malloc_fade_ms t; alloc_age = age_of (a_last_alloc_ms a) now_ms alloc_span in
         if alloc_age \<ge> alloc_span \<and> free_age \<ge> free_span then ramp_settled r a cell_bytes
         else
           (let base = settled_lab r a cell_bytes; after = after_alloc r base alloc_age in
            if free_age < free_span \<and> free_fade_ms t > 0 then
              oklab_to_srgb (lerp (hr_freed r) after (real (unat (free_age - free_flash_ms t)) / real (unat (free_fade_ms t))))
            else oklab_to_srgb after)))"

section \<open>The encoder finds the code\<close>

lemma toe_meets_curve: "(0.04045 :: real) / 12.92 \<le> ((0.04045 + 0.055) / 1.055) powr 2.4"
proof -
  have "((0.04045 :: real) / 12.92) ^ 5 \<le> ((0.04045 + 0.055) / 1.055) ^ 12" by (simp add: power_divide divide_simps)
  then show ?thesis using powr_ge [of "(0.04045 + 0.055) / 1.055" "0.04045 / 12.92"] by simp
qed

lemma srgb_strict: "0 \<le> v \<Longrightarrow> v < w \<Longrightarrow> srgb_to_linear v < srgb_to_linear w"
proof -
  assume v: "0 \<le> v" and w: "v < w"
  consider "w \<le> 0.04045" | "v \<le> 0.04045" "0.04045 < w" | "0.04045 < v" using w by linarith
  then show ?thesis
  proof cases
    case 2
    have "v / 12.92 \<le> 0.04045 / 12.92" using 2 by simp
    also have "\<dots> \<le> ((0.04045 + 0.055) / 1.055) powr 2.4" by (rule toe_meets_curve)
    also have "\<dots> < ((w + 0.055) / 1.055) powr 2.4" using 2 by (intro powr_less_mono2) auto
    finally show ?thesis using 2 by (simp add: srgb_to_linear_def)
  next
    case 3
    then show ?thesis using w by (auto simp: srgb_to_linear_def intro!: powr_less_mono2)
  qed (use w in \<open>simp add: srgb_to_linear_def\<close>)
qed

lemma kEncode_strict: "i < j \<Longrightarrow> kEncode i < kEncode j"
  by (simp add: kEncode_def srgb_strict)

lemma kEncode_less [simp]: "kEncode i < kEncode j \<longleftrightarrow> i < j"
  using kEncode_strict by (metis less_asym linorder_neqE_nat)

lemma kEncode_le [simp]: "kEncode i \<le> kEncode j \<longleftrightarrow> i \<le> j"
  using kEncode_less [of j i] by (simp add: not_less [symmetric] del: kEncode_less)

text \<open>\<open>is_code l c\<close>: \<open>l\<close> lies between the linear values half a code below and half a code above \<open>c\<close>, the outermost codes taking the rest.\<close>

definition is_code :: "real \<Rightarrow> nat \<Rightarrow> bool" where
  "is_code l c \<longleftrightarrow> c \<le> 255 \<and> (c = 0 \<or> srgb_to_linear ((real c - 0.5) / 255) \<le> l) \<and> (c = 255 \<or> l < srgb_to_linear ((real c + 0.5) / 255))"

lemma is_code_thresholds: "is_code l c \<longleftrightarrow> c \<le> 255 \<and> (c = 0 \<or> kEncode (c - 1) \<le> l) \<and> (c = 255 \<or> l < kEncode c)"
  by (cases c) (simp_all add: is_code_def kEncode_def add.commute)

lemma is_code_unique: "is_code l c \<Longrightarrow> is_code l d \<Longrightarrow> c = d"
proof -
  have less: False if "is_code l c" "is_code l d" "c < d" for c d
  proof -
    have "l < kEncode c" "kEncode (d - 1) \<le> l" "c \<le> d - 1" using that by (auto simp: is_code_thresholds)
    then have "kEncode (d - 1) < kEncode c" by linarith
    then show False using \<open>c \<le> d - 1\<close> by simp
  qed
  then show "is_code l c \<Longrightarrow> is_code l d \<Longrightarrow> c = d" by (metis linorder_neqE_nat)
qed

lemma guess_loop_stops: "c \<le> 255 \<Longrightarrow> guess_loop l c \<le> 255 \<and> (guess_loop l c = 255 \<or> l < kEncode (guess_loop l c))"
proof (induction l c rule: guess_loop.induct)
  case (1 l c)
  then show ?case by (cases "c < 255 \<and> l \<ge> kEncode c") (auto simp: guess_loop.simps [of l c])
qed

lemma walk_down_code: "c \<le> 255 \<Longrightarrow> c = 255 \<or> l < kEncode c \<Longrightarrow> is_code l (walk_down l c)"
proof (induction l c rule: walk_down.induct)
  case (2 l c)
  then show ?case by (cases "l < kEncode c") (auto simp: is_code_thresholds)
qed (simp add: is_code_thresholds)

lemma any_guess_works: "g \<le> 255 \<Longrightarrow> is_code l (walk_down l (guess_loop l g))"
  using guess_loop_stops by (blast intro: walk_down_code)

lemma srgb_to_linear_0_1 [simp]: "srgb_to_linear 0 = 0" "srgb_to_linear 1 = 1"
  by (simp_all add: srgb_to_linear_def)

lemma encode_is_code: "is_code l (encode_channel l)"
proof -
  have "kEncode 254 \<le> 1" using srgb_strict [of "254.5 / 255" 1] by (simp add: kEncode_def)
  moreover have "0 < kEncode 0" using srgb_strict [of 0 "0.5 / 255"] by (simp add: kEncode_def)
  moreover have "kGuess j \<le> 255" for j using guess_loop_stops [of 0] by (simp add: kGuess_def Let_def)
  ultimately show ?thesis by (auto simp: encode_channel_def is_code_thresholds [of _ 0] is_code_thresholds [of _ 255] intro!: any_guess_works)
qed

lemma encode_unique: "is_code l c \<Longrightarrow> encode_channel l = c"
  using encode_is_code is_code_unique by blast

lemma encode_roundtrip: "k \<le> 255 \<Longrightarrow> encode_channel (srgb_to_linear (real k / 255)) = k"
proof (rule encode_unique)
  assume k: "k \<le> 255"
  have "srgb_to_linear ((real k - 0.5) / 255) \<le> srgb_to_linear (real k / 255)" if "k \<noteq> 0"
    by (rule less_imp_le, rule srgb_strict) (use that in auto)
  moreover have "srgb_to_linear (real k / 255) < srgb_to_linear ((real k + 0.5) / 255)" by (rule srgb_strict) auto
  ultimately show "is_code (srgb_to_linear (real k / 255)) k" using k by (auto simp: is_code_def)
qed

text \<open>
  (C28) The encoder is exact whatever it guesses: from any starting code the two loops end at the one code whose half-way points enclose the
  linear value, so the tabulated guess is only a matter of speed, and encoding a decoded channel gives the channel back.
\<close>

theorem encode_channel_exact:
  "is_code l (encode_channel l) \<and> (g \<le> 255 \<longrightarrow> walk_down l (guess_loop l g) = encode_channel l) \<and>
   (is_code l c \<longrightarrow> c = encode_channel l) \<and> (k \<le> 255 \<longrightarrow> encode_channel (srgb_to_linear (real k / 255)) = k)"
  using encode_is_code any_guess_works encode_unique encode_roundtrip by metis

theorem encode_channel_exact_witness:
  "encode_channel (srgb_to_linear (real 42 / 255)) = 42 \<and> walk_down 0 (guess_loop 0 200) = 0"
proof -
  have "encode_channel 0 = 0" by (simp add: encode_channel_def)
  then show ?thesis using encode_channel_exact [of 0 200 0 42] by simp
qed

text \<open>The unallocated grey is not in the linear toe: its channels are on the curve.\<close>

lemma empty_grey_above_toe: "\<not> rgb_channel (hp_empty kDefaultPalette) 0 \<le> 0.04045"
  by (simp add: rgb_channel_def kDefaultPalette_def heat_palette_def dark_theme_def)

section \<open>Aging\<close>

lemma clamp01_bounds: "0 \<le> clamp01 v" "clamp01 v \<le> 1"
  by (simp_all add: clamp01_def)

lemma density_step_le: "density_step a cb \<le> kDensitySteps"
proof -
  have "clamp01 x * 128 + 1 / 2 < 129" for x using clamp01_bounds [of x] by simp
  then have "nat \<lfloor>clamp01 x * 128 + 1 / 2\<rfloor> \<le> 128" for x by (simp add: nat_le_iff floor_le_iff)
  then show ?thesis by (simp add: density_step_def kDensitySteps_def)
qed

text \<open>The table is the arithmetic, tabulated: a live cell's settled colour is its settled point in Oklab, encoded.\<close>

lemma lut_agrees: "a_n_live a \<noteq> 0 \<Longrightarrow> ramp_settled (heat_ramp_new p t) a cb = oklab_to_srgb (settled_lab (heat_ramp_new p t) a cb)"
  using density_step_le [of a cb] by (simp add: ramp_settled_def settled_lab_def heat_ramp_new_def Let_def del: upt_Suc)

lemma not_animating_ages:
  assumes "\<not> cell_animating a t now"
  shows "age_of (a_last_alloc_ms a) now (malloc_pulse_ms t + malloc_fade_ms t) \<ge> malloc_pulse_ms t + malloc_fade_ms t"
    "age_of (a_last_free_ms a) now (free_flash_ms t + free_fade_ms t) \<ge> free_flash_ms t + free_fade_ms t"
  using assms by (auto simp: cell_animating_def age_of_def split: if_splits)

definition timings_ok :: "heat_timings \<Rightarrow> bool" where
  "timings_ok t \<longleftrightarrow> unat (malloc_pulse_ms t) + unat (malloc_fade_ms t) < 2 ^ 32 \<and> unat (free_flash_ms t) + unat (free_fade_ms t) < 2 ^ 32"

lemma timings_sums:
  assumes "timings_ok t"
  shows "free_flash_ms t \<le> free_flash_ms t + free_fade_ms t" "malloc_pulse_ms t \<le> malloc_pulse_ms t + malloc_fade_ms t"
    "(free_flash_ms t + free_fade_ms t) - free_flash_ms t = free_fade_ms t"
  using assms by (auto simp: timings_ok_def word_le_nat_alt unat_word_ariths)

lemma settled_when_still:
  assumes "timings_ok (hr_timings r)" "\<not> cell_animating a (hr_timings r) now"
  shows "ramp_color r a cb now = ramp_settled r a cb"
  using not_animating_ages [OF assms(2)] timings_sums(1) [OF assms(1)]
  by (auto simp: ramp_color_def Let_def)

lemma flash_is_red:
  assumes "timings_ok (hr_timings r)"
  shows "cell_state a (hr_timings r) now = CellRecentFree \<longleftrightarrow>
    age_of (a_last_free_ms a) now (free_flash_ms (hr_timings r) + free_fade_ms (hr_timings r)) < free_flash_ms (hr_timings r)"
  using timings_sums(1) [OF assms] by (auto simp: cell_state_def within_def age_of_def)

lemma pulse_ends [simp]: "pulse_wave 0 = 0" "pulse_wave 1 = 0" "0 \<le> pulse_wave u" "pulse_wave u \<le> 1"
proof -
  show "pulse_wave 0 = 0" "pulse_wave 1 = 0" by (simp_all add: pulse_wave_def clamp01_def Let_def)
  let ?t = "1 - (if clamp01 u \<le> 0.5 then clamp01 u * 2 else (1 - clamp01 u) * 2)"
  have t: "0 \<le> ?t" "?t \<le> 1" using clamp01_bounds [of u] by auto
  have e: "pulse_wave u = 1 - ?t ^ 3" unfolding pulse_wave_def Let_def by (simp only: power3_eq_cube)
  show "0 \<le> pulse_wave u" using power_le_one [OF t, of 3] unfolding e by simp
  show "pulse_wave u \<le> 1" using zero_le_power [OF t(1), of 3] unfolding e by simp
qed

lemma lerp_ends [simp]: "lerp p q 0 = p" "lerp p q 1 = q"
  by (simp_all add: lerp_def clamp01_def Let_def mk_lab_def)

lemma scaled_one: "0 \<le> ok_L c \<Longrightarrow> ok_L c \<le> 1 \<Longrightarrow> scaled c 1 = c"
  by (simp add: scaled_def clamp01_def mk_lab_def)

text \<open>At the end of the pulse the colour is the plain fresh one, where the fade begins; at the end of the fade it is the settled one.\<close>

lemma alloc_junctions:
  assumes "timings_ok (hr_timings r)" "0 < malloc_fade_ms (hr_timings r)"
  shows "after_alloc r base (malloc_pulse_ms (hr_timings r)) = hr_fresh r"
    "after_alloc r base (malloc_pulse_ms (hr_timings r) + malloc_fade_ms (hr_timings r)) = base"
    "0 \<le> ok_L (hr_fresh r) \<Longrightarrow> ok_L (hr_fresh r) \<le> 1 \<Longrightarrow> scaled (hr_fresh r) (1 + kPulsePeak * pulse_wave 1) = hr_fresh r"
proof -
  let ?p = "malloc_pulse_ms (hr_timings r)" and ?f = "malloc_fade_ms (hr_timings r)"
  have "?p < ?p + ?f" using assms by (auto simp: timings_ok_def word_less_nat_alt unat_word_ariths)
  then show "after_alloc r base ?p = hr_fresh r" using assms(2) by (simp add: after_alloc_def Let_def)
  show "after_alloc r base (?p + ?f) = base" using timings_sums(2) [OF assms(1)] by (simp add: after_alloc_def Let_def)
qed (simp add: scaled_one)



end
