(* ===== verification/Map_View.thy ===== *)
theory Map_View
  imports Panel Heat_Color Cursor Snapshot_Diff
begin

text \<open>
  Drawing the heap map (\<^verbatim>\<open>MapView\<close> of \<^verbatim>\<open>src/tui/map_view.h\<close> and \<^verbatim>\<open>map_view.cpp\<close>): the legend, the address gutter, the cells, the leak overlay
  and the cursor. The geometry is \<^const>\<open>map_layout_of\<close>; colours come from \<^const>\<open>ramp_color\<close>; density thresholds compare exact quotients.
\<close>

section \<open>The view\<close>

record map_style =
  ms_ink :: u32
  ms_dim :: u32
  ms_warn :: u32
  ms_bg :: u32
  ms_cursor :: u32
  ms_leak :: u32

definition map_style_default :: map_style where
  "map_style_default = \<lparr>ms_ink = th_text dark_theme, ms_dim = th_dim dark_theme, ms_warn = th_accent dark_theme, ms_bg = th_bg dark_theme,
     ms_cursor = th_cursor dark_theme, ms_leak = th_leak dark_theme\<rparr>"

record map_view =
  mv_glyphs :: glyph_set
  mv_ramp :: heat_ramp
  mv_palette :: heat_palette
  mv_style :: map_style
  mv_unicode :: bool
  mv_half_block :: bool
  mv_animations :: bool
  mv_show_legend :: bool

definition map_view_new :: "capabilities \<Rightarrow> heat_palette \<Rightarrow> heat_timings \<Rightarrow> map_view" where
  "map_view_new caps p t =
     \<lparr>mv_glyphs = glyphs_for caps, mv_ramp = heat_ramp_new p t, mv_palette = p, mv_style = map_style_default,
      mv_unicode = cap_unicode caps, mv_half_block = False, mv_animations = True, mv_show_legend = True\<rparr>"

definition set_style :: "map_style \<Rightarrow> map_view \<Rightarrow> map_view" where "set_style s v = v\<lparr>mv_style := s\<rparr>"
definition set_animations :: "bool \<Rightarrow> map_view \<Rightarrow> map_view" where "set_animations b v = v\<lparr>mv_animations := b\<rparr>"
definition set_show_legend :: "bool \<Rightarrow> map_view \<Rightarrow> map_view" where "set_show_legend b v = v\<lparr>mv_show_legend := b\<rparr>"
definition set_half_block :: "bool \<Rightarrow> map_view \<Rightarrow> map_view" where "set_half_block b v = v\<lparr>mv_half_block := b \<and> mv_unicode v\<rparr>"

definition glyph_for :: "map_view \<Rightarrow> cell_aggregate \<Rightarrow> u64 \<Rightarrow> u32" where
  "glyph_for v a cell_bytes =
     (if \<not> cell_occupied a then gs_light (mv_glyphs v)
      else if cell_bytes = 0 then gs_full (mv_glyphs v)
      else
        (let d = real (unat (a_live_bytes a)) / real (unat cell_bytes) in
         if d \<ge> 0.66 then gs_full (mv_glyphs v)
         else if d \<ge> 0.45 then gs_dark (mv_glyphs v)
         else if d \<ge> 0.18 then gs_medium (mv_glyphs v)
         else gs_light (mv_glyphs v)))"

section \<open>Legend\<close>

definition bytes_of :: "string \<Rightarrow> u8 list" where
  "bytes_of s = map of_char s"

record pen =
  pn_x :: int
  pn_y :: int
  pn_limit :: int

definition pen_new :: "rect \<Rightarrow> pen" where
  "pen_new r = \<lparr>pn_x = rx r, pn_y = ry r, pn_limit = rx r + rw r\<rparr>"

definition pen_text :: "u8 list \<Rightarrow> u32 \<Rightarrow> u32 \<Rightarrow> u8 \<Rightarrow> pen \<times> framebuffer \<Rightarrow> pen \<times> framebuffer" where
  "pen_text s fg bg att st = (case st of (p, fb) \<Rightarrow>
     if pn_x p + int (length s) > pn_limit p then (p\<lparr>pn_x := pn_limit p\<rparr>, fb)
     else (case fb_text (pn_x p) (pn_y p) s fg bg att fb of (n, fb') \<Rightarrow> (p\<lparr>pn_x := pn_x p + int n\<rparr>, fb')))"

definition pen_glyph :: "u32 \<Rightarrow> u32 \<Rightarrow> u32 \<Rightarrow> pen \<times> framebuffer \<Rightarrow> pen \<times> framebuffer" where
  "pen_glyph g fg bg st = (case st of (p, fb) \<Rightarrow>
     if pn_x p \<ge> pn_limit p then (p, fb) else (p\<lparr>pn_x := pn_x p + 1\<rparr>, fb_put (pn_x p) (pn_y p) (mk_cell g fg bg 0) fb))"

definition room_for :: "int \<Rightarrow> pen \<Rightarrow> bool" where
  "room_for cols p \<longleftrightarrow> pn_x p + cols \<le> pn_limit p"

fun draw_swatches :: "map_view \<Rightarrow> (u32 \<times> string) list \<Rightarrow> pen \<times> framebuffer \<Rightarrow> pen \<times> framebuffer" where
  "draw_swatches v [] st = st"
| "draw_swatches v ((color, label) # sw) st =
     (if \<not> room_for (2 + 1 + int (length label)) (fst st) then st
      else
        (let st1 = pen_text (bytes_of ''  '') (ms_dim (mv_style v)) (ms_bg (mv_style v)) 0 st;
             st2 = pen_glyph (gs_full (mv_glyphs v)) color (ms_bg (mv_style v)) st1;
             st3 = pen_text (bytes_of label) (ms_dim (mv_style v)) (ms_bg (mv_style v)) 0 st2
         in draw_swatches v sw st3))"

definition swatches :: "map_view \<Rightarrow> (u32 \<times> string) list" where
  "swatches v = [(hp_settled (mv_palette v), '' live''), (hp_fresh (mv_palette v), '' new''), (hp_freed (mv_palette v), '' freed''),
     (hp_overhead (mv_palette v), '' overhead''), (hp_empty (mv_palette v), '' unused'')]"

definition draw_legend :: "map_view \<Rightarrow> rect \<Rightarrow> grid \<Rightarrow> framebuffer \<Rightarrow> framebuffer" where
  "draw_legend v r g fb =
     (if rw r \<le> 0 \<or> rh r \<le> 0 then fb
      else
        (let st0 = (pen_new r, fb) in
         if \<not> g_valid g then snd (pen_text (bytes_of ''no heap bounds yet'') (ms_dim (mv_style v)) (ms_bg (mv_style v)) 0 st0)
         else
           (let sz = (case fst (format_byte_size 24 (g_cell_bytes g)) of None \<Rightarrow> [] | Some s \<Rightarrow> s);
                head = take 47 (''1 cell = '' @ sz);
                st1 = pen_text (bytes_of head) (ms_ink (mv_style v)) (ms_bg (mv_style v)) 0 st0;
                st2 = draw_swatches v (swatches v) st1
            in snd (if \<not> covers_whole_span g
                    then pen_text (bytes_of ''   top of range not shown'') (ms_warn (mv_style v)) (ms_bg (mv_style v)) 0 st2 else st2))))"

section \<open>Cells and gutter\<close>

definition cell_color :: "map_view \<Rightarrow> cell_aggregate \<Rightarrow> u64 \<Rightarrow> u32 \<Rightarrow> u32" where
  "cell_color v a cell_bytes now_ms = (if mv_animations v then ramp_color (mv_ramp v) a cell_bytes now_ms else ramp_settled (mv_ramp v) a cell_bytes)"

text \<open>The label of a row and its colour: the offset in the row's region, or from the base when the map has no regions.\<close>

definition gutter_label :: "map_view \<Rightarrow> heat_map \<Rightarrow> int \<Rightarrow> string \<times> u32" where
  "gutter_label v hm logical_row =
     (let g = hm_grid hm; st = mv_style v; row_bytes = g_cell_bytes g * of_int (g_cols g); coord = offset_of_row g logical_row;
          label = (\<lambda>off. case fst (format_offset (kGutterWidth + 1) off) of None \<Rightarrow> [] | Some s \<Rightarrow> s)
      in case hm_regions hm of
           None \<Rightarrow> (label coord, ms_dim st)
         | Some rm \<Rightarrow>
             (case span_at_flat rm coord of
                Some sp \<Rightarrow> (label (coord - s_flat sp), if s_flat sp \<ge> coord \<and> s_flat sp < coord + row_bytes then ms_warn st else ms_dim st)
              | None \<Rightarrow> ([], ms_dim st)))"

definition map_cell :: "map_view \<Rightarrow> heat_map \<Rightarrow> u32 \<Rightarrow> nat \<Rightarrow> cell" where
  "map_cell v hm now_ms i =
     (let g = hm_grid hm; cell_bytes = g_cell_bytes g; a = heat_at hm i; top' = cell_color v a cell_bytes now_ms in
      if \<not> mv_half_block v then mk_cell (glyph_for v a cell_bytes) top' (ms_bg (mv_style v)) 0
      else
        (let lower = i + nat (g_cols g);
             bottom = (if lower < length (hm_cells hm) then cell_color v (heat_at hm lower) cell_bytes now_ms else ms_bg (mv_style v))
         in mk_cell (gs_half (mv_glyphs v)) top' bottom 0))"

text \<open>The column loop: \<open>True\<close> is the early return when the grid has more cells than the map.\<close>

fun draw_cols :: "map_view \<Rightarrow> heat_map \<Rightarrow> u32 \<Rightarrow> nat \<Rightarrow> int \<Rightarrow> int \<Rightarrow> nat list \<Rightarrow> framebuffer \<Rightarrow> bool \<times> framebuffer" where
  "draw_cols v hm now_ms base x y [] fb = (False, fb)"
| "draw_cols v hm now_ms base x y (col # cols) fb =
     (if base + col \<ge> length (hm_cells hm) then (True, fb)
      else draw_cols v hm now_ms base x y cols (fb_put (x + int col) y (map_cell v hm now_ms (base + col)) fb))"

definition draw_row :: "map_view \<Rightarrow> map_layout \<Rightarrow> heat_map \<Rightarrow> u32 \<Rightarrow> int \<Rightarrow> nat \<Rightarrow> framebuffer \<Rightarrow> bool \<times> framebuffer" where
  "draw_row v l hm now_ms cols row fb =
     (let g = hm_grid hm; y = ry (ml_cells l) + int row; logical_row = (if mv_half_block v then row * 2 else row);
          fb1 = (if ml_gutter_x l \<ge> 0
                 then (case gutter_label v hm (int logical_row) of (label, ink) \<Rightarrow>
                         snd (fb_text (ml_gutter_x l) y (bytes_of label) ink (ms_bg (mv_style v)) 0 fb))
                 else fb)
      in draw_cols v hm now_ms (logical_row * nat (g_cols g)) (rx (ml_cells l)) y [0..<nat cols] fb1)"

fun draw_rows :: "map_view \<Rightarrow> map_layout \<Rightarrow> heat_map \<Rightarrow> u32 \<Rightarrow> int \<Rightarrow> nat list \<Rightarrow> framebuffer \<Rightarrow> framebuffer" where
  "draw_rows v l hm now_ms cols [] fb = fb"
| "draw_rows v l hm now_ms cols (row # rows) fb =
     (case draw_row v l hm now_ms cols row fb of (stop, fb') \<Rightarrow> if stop then fb' else draw_rows v l hm now_ms cols rows fb')"

definition view_draw :: "map_view \<Rightarrow> rect \<Rightarrow> heat_map \<Rightarrow> u32 \<Rightarrow> framebuffer \<Rightarrow> framebuffer" where
  "view_draw v area hm now_ms fb =
     (let l = map_layout_of area (mv_show_legend v) in
      if \<not> ml_valid l then fb
      else
        (let g = hm_grid hm; fb1 = draw_legend v (ml_legend l) g fb in
         if \<not> g_valid g then fb1
         else
           (let display_rows = (if mv_half_block v then (g_rows g + 1) div 2 else g_rows g);
                rows = (if display_rows < rh (ml_cells l) then display_rows else rh (ml_cells l));
                cols = (if g_cols g < rw (ml_cells l) then g_cols g else rw (ml_cells l))
            in draw_rows v l hm now_ms cols [0..<nat rows] fb1)))"

section \<open>Overlays\<close>

text \<open>The screen position of a cell of the map, when the drawn area holds it.\<close>

definition cell_place :: "map_view \<Rightarrow> map_layout \<Rightarrow> grid \<Rightarrow> nat \<Rightarrow> (int \<times> int) option" where
  "cell_place v l g i =
     (let logical_row = row_of g i; row = (if mv_half_block v then logical_row div 2 else logical_row); col = col_of g i
      in if row \<ge> rh (ml_cells l) \<or> col \<ge> rw (ml_cells l) then None else Some (rx (ml_cells l) + col, ry (ml_cells l) + row))"

definition paint_leak :: "map_view \<Rightarrow> map_layout \<Rightarrow> heat_map \<Rightarrow> u32 \<Rightarrow> framebuffer \<Rightarrow> framebuffer" where
  "paint_leak v l hm cell fb =
     (let i = unat cell; g = hm_grid hm in
      if i \<ge> length (hm_cells hm) then fb
      else case cell_place v l g i of
             None \<Rightarrow> fb
           | Some (x, y) \<Rightarrow>
               (if \<not> fb_contains fb x y then fb
                else
                  (let c = at_back fb x y;
                       c' = (if mv_half_block v \<and> odd (row_of g i) then c\<lparr>cl_bg := ms_leak (mv_style v)\<rparr> else c\<lparr>cl_fg := ms_leak (mv_style v)\<rparr>)
                   in fb_put x y c' fb)))"

definition draw_leaks :: "map_view \<Rightarrow> rect \<Rightarrow> heat_map \<Rightarrow> snapshot_diff \<Rightarrow> framebuffer \<Rightarrow> framebuffer" where
  "draw_leaks v area hm diff fb =
     (if \<not> sd_diff diff then fb
      else
        (let l = map_layout_of area (mv_show_legend v) in
         if \<not> ml_valid l then fb
         else if \<not> g_valid (hm_grid hm) then fb
         else if length (sd_cells diff) \<noteq> length (hm_cells hm) then fb
         else fold (paint_leak v l hm) (sd_hot diff) fb))"

fun paint_gutter :: "u32 \<Rightarrow> int \<Rightarrow> int list \<Rightarrow> framebuffer \<Rightarrow> framebuffer" where
  "paint_gutter ink y [] fb = fb"
| "paint_gutter ink y (gx # gxs) fb =
     (if \<not> fb_contains fb gx y then fb
      else paint_gutter ink y gxs (fb_put gx y ((at_back fb gx y)\<lparr>cl_fg := ink\<rparr>) fb))"

definition draw_cursor :: "map_view \<Rightarrow> rect \<Rightarrow> heat_map \<Rightarrow> map_cursor \<Rightarrow> framebuffer \<Rightarrow> framebuffer" where
  "draw_cursor v area hm cur fb =
     (let l = map_layout_of area (mv_show_legend v); g = hm_grid hm in
      if \<not> ml_valid l then fb
      else if \<not> g_valid g then fb
      else case cell_place v l g (cursor_index cur g) of
             None \<Rightarrow> fb
           | Some (x, y) \<Rightarrow>
               (if \<not> fb_contains fb x y then fb
                else
                  (let c = at_back fb x y;
                       fb1 = fb_put x y (c\<lparr>cl_bg := ms_cursor (mv_style v), cl_attrs := cl_attrs c OR kAttrBold\<rparr>) fb
                   in if ml_gutter_x l \<ge> 0
                      then paint_gutter (ms_cursor (mv_style v)) y [ml_gutter_x l..ml_gutter_x l + int kGutterWidth - 1] fb1
                      else fb1)))"

section \<open>Nothing outside the area\<close>

lemma confined_mono: "confined r fb fb' \<Longrightarrow> (\<And>x y. in_rect r x y \<Longrightarrow> in_rect r' x y) \<Longrightarrow> confined r' fb fb'"
  by (auto simp: confined_def)

definition pen_in :: "rect \<Rightarrow> pen \<Rightarrow> bool" where
  "pen_in r p \<longleftrightarrow> rx r \<le> pn_x p \<and> pn_y p = ry r \<and> pn_limit p = rx r + rw r \<and> 0 \<le> rw r \<and> 0 < rh r"

definition drawn_in :: "rect \<Rightarrow> framebuffer \<Rightarrow> pen \<times> framebuffer \<Rightarrow> bool" where
  "drawn_in r fb st \<longleftrightarrow> pen_in r (fst st) \<and> confined r fb (snd st) \<and> fb_ok (snd st)"

lemma pen_text_in: "drawn_in r fb st \<Longrightarrow> drawn_in r fb (pen_text s fg bg att st)"
proof (cases st)
  case (Pair p fb1)
  assume d: "drawn_in r fb st"
  have "confined r fb1 (snd (fb_text (pn_x p) (pn_y p) s fg bg att fb1))" if "\<not> pn_x p + int (length s) > pn_limit p"
    by (rule confined_text) (use d Pair that in \<open>auto simp: drawn_in_def pen_in_def\<close>)
  then show ?thesis using d Pair confined_ok
    by (auto simp: drawn_in_def pen_text_def pen_in_def split: prod.splits intro: confined_trans)
qed

lemma pen_glyph_in: "drawn_in r fb st \<Longrightarrow> drawn_in r fb (pen_glyph g fg bg st)"
proof (cases st)
  case (Pair p fb1)
  assume d: "drawn_in r fb st"
  have "confined r fb1 (fb_put (pn_x p) (pn_y p) (mk_cell g fg bg 0) fb1)" if "\<not> pn_x p \<ge> pn_limit p"
    by (rule confined_put) (use d Pair that in \<open>auto simp: drawn_in_def pen_in_def in_rect_def\<close>)
  then show ?thesis using d Pair confined_ok
    by (auto simp: drawn_in_def pen_glyph_def pen_in_def intro: confined_trans)
qed

lemma swatches_in: "drawn_in r fb st \<Longrightarrow> drawn_in r fb (draw_swatches v sw st)"
  by (induction v sw st rule: draw_swatches.induct) (simp_all add: Let_def pen_text_in pen_glyph_in)

lemma drawn_inD: "drawn_in r fb st \<Longrightarrow> confined r fb (snd st)"
  by (simp add: drawn_in_def)

lemma legend_confined: "fb_ok fb \<Longrightarrow> confined r fb (draw_legend v r g fb)"
proof -
  assume ok: "fb_ok fb"
  have "drawn_in r fb (pen_new r, fb)" if "\<not> (rw r \<le> 0 \<or> rh r \<le> 0)"
    using that ok by (simp add: drawn_in_def pen_in_def pen_new_def)
  then show ?thesis unfolding draw_legend_def Let_def by (auto intro!: drawn_inD pen_text_in swatches_in simp del: swatches_def)
qed

text \<open>One row of the map stays in its line of the area.\<close>

definition line_rect :: "rect \<Rightarrow> int \<Rightarrow> rect" where
  "line_rect area y = mk_rect (rx area) y (rw area) 1"

lemma in_line [simp]: "in_rect (line_rect area y) x y' \<longleftrightarrow> y' = y \<and> rx area \<le> x \<and> x < rx area + rw area"
  by (auto simp: in_rect_def line_rect_def)

lemma layout_facts:
  assumes "ml_valid (map_layout_of area b)"
  defines "l \<equiv> map_layout_of area b"
  shows "rx area \<le> rx (ml_cells l)" "rx (ml_cells l) + rw (ml_cells l) \<le> rx area + rw area" "ry area \<le> ry (ml_cells l)"
    "ry (ml_cells l) + rh (ml_cells l) = ry area + rh area" "0 < rw (ml_cells l)" "0 < rh (ml_cells l)"
    "0 \<le> ml_gutter_x l \<Longrightarrow> ml_gutter_x l = rx area \<and> rx area + 8 = rx (ml_cells l)"
    "in_rect (ml_legend l) x y \<Longrightarrow> in_rect area x y \<and> y < ry (ml_cells l)"
  using assms by (auto simp: map_layout_of_def Let_def map_layout_new_def kGutterWidth_def kMinMapCols_def in_rect_def no_rect_def split: if_splits)

lemma label_length: "length (bytes_of (fst (gutter_label v hm r))) \<le> 7"
  by (auto simp: gutter_label_def Let_def bytes_of_def format_offset_def kGutterWidth_def split: option.splits)

lemma draw_cols_confined:
  "fb_ok fb \<Longrightarrow> (\<And>c. c \<in> set cols \<Longrightarrow> in_rect r (x + int c) y) \<Longrightarrow> confined r fb (snd (draw_cols v hm now base x y cols fb))"
proof (induction v hm now base x y cols fb rule: draw_cols.induct)
  case (2 v hm now base x y col cols fb)
  let ?fb1 = "fb_put (x + int col) y (map_cell v hm now (base + col)) fb"
  have "confined r fb ?fb1" using 2(2,3) by (intro confined_put) auto
  then show ?case using 2 confined_trans confined_ok by (auto intro: confined_trans)
qed simp

lemma draw_row_confined:
  assumes ok: "fb_ok fb" and l: "l = map_layout_of area b" "ml_valid l" and cols: "cols \<le> rw (ml_cells l)"
  shows "confined (line_rect area (ry (ml_cells l) + int row)) fb (snd (draw_row v l hm now cols row fb))"
proof -
  let ?y = "ry (ml_cells l) + int row" and ?lr = "if mv_half_block v then row * 2 else row"
  define fb1 where "fb1 = (if ml_gutter_x l \<ge> 0 then (case gutter_label v hm (int ?lr) of (label, ink) \<Rightarrow>
      snd (fb_text (ml_gutter_x l) ?y (bytes_of label) ink (ms_bg (mv_style v)) 0 fb)) else fb)"
  note F = layout_facts [of area b, folded l(1), OF l(2)]
  have A: "confined (line_rect area ?y) fb fb1"
    using F(2,5,7) label_length [of v hm "int ?lr"] ok
    by (auto simp: fb1_def line_rect_def split: prod.splits intro!: confined_text)
  have B: "confined (line_rect area ?y) fb1 (snd (draw_cols v hm now (?lr * nat (g_cols (hm_grid hm))) (rx (ml_cells l)) ?y [0..<nat cols] fb1))"
    using F(1,2) cols by (intro draw_cols_confined confined_ok [OF A ok]) auto
  have e: "draw_row v l hm now cols row fb = draw_cols v hm now (?lr * nat (g_cols (hm_grid hm))) (rx (ml_cells l)) ?y [0..<nat cols] fb1"
    unfolding draw_row_def Let_def fb1_def by (rule refl)
  show ?thesis unfolding e by (rule confined_trans [OF A B])
qed

lemma draw_rows_confined:
  assumes l: "l = map_layout_of area b" "ml_valid l" and cols: "cols \<le> rw (ml_cells l)"
  shows "fb_ok fb \<Longrightarrow> (\<And>row. row \<in> set rows \<Longrightarrow> int row < rh (ml_cells l)) \<Longrightarrow> confined area fb (draw_rows v l hm now cols rows fb)"
proof (induction rows arbitrary: fb)
  case (Cons row rows)
  note F = layout_facts [of area b, folded l(1), OF l(2)]
  have "confined area fb (snd (draw_row v l hm now cols row fb))"
    by (rule confined_mono [OF draw_row_confined [OF Cons.prems(1) l cols]]) (use F(3,4) Cons.prems(2) [of row] in \<open>auto simp: in_rect_def line_rect_def\<close>)
  then show ?case using Cons confined_ok confined_trans by (auto split: prod.splits)
qed simp

lemma view_draw_confined: "fb_ok fb \<Longrightarrow> confined area fb (view_draw v area hm now fb)"
proof -
  assume ok: "fb_ok fb"
  let ?l = "map_layout_of area (mv_show_legend v)"
  let ?fb1 = "draw_legend v (ml_legend ?l) (hm_grid hm) fb"
  have leg: "confined area fb ?fb1" if "ml_valid ?l"
    by (rule confined_mono [OF legend_confined [OF ok]]) (use layout_facts(8) [OF that] in blast)
  have "confined area ?fb1 (draw_rows v ?l hm now cols [0..<nat rows] ?fb1)"
    if "ml_valid ?l" "cols \<le> rw (ml_cells ?l)" "rows \<le> rh (ml_cells ?l)" for cols rows
    by (rule draw_rows_confined [OF refl that(1,2) confined_ok [OF leg [OF that(1)] ok]]) (use that(3) in auto)
  then show ?thesis using leg by (auto simp: view_draw_def Let_def intro: confined_trans)
qed

section \<open>Every cell where it belongs\<close>

lemma draw_cols_total:
  "\<forall>c \<in> set cols. base + c < length (hm_cells hm) \<Longrightarrow>
   draw_cols v hm now base x y cols fb = (False, fold (\<lambda>c fb. fb_put (x + int c) y (map_cell v hm now (base + c)) fb) cols fb)"
  by (induction v hm now base x y cols fb rule: draw_cols.induct) auto

text \<open>The first cell of a screen row in the map.\<close>

definition row_base :: "map_view \<Rightarrow> heat_map \<Rightarrow> nat \<Rightarrow> nat" where
  "row_base v hm row = (if mv_half_block v then row * 2 else row) * nat (g_cols (hm_grid hm))"

lemma draw_row_exact:
  assumes ok: "fb_ok fb" and l: "l = map_layout_of area b" "ml_valid l" and cols: "cols \<le> rw (ml_cells l)"
    and fits: "row_base v hm row + nat cols \<le> length (hm_cells hm)"
    and c: "col < nat cols" "fb_contains fb (rx (ml_cells l) + int col) (ry (ml_cells l) + int row)"
  shows "\<not> fst (draw_row v l hm now cols row fb) \<and>
    at_back (snd (draw_row v l hm now cols row fb)) (rx (ml_cells l) + int col) (ry (ml_cells l) + int row) = map_cell v hm now (row_base v hm row + col)"
proof -
  let ?y = "ry (ml_cells l) + int row" and ?lr = "if mv_half_block v then row * 2 else row"
  define fb1 where "fb1 = (if ml_gutter_x l \<ge> 0 then (case gutter_label v hm (int ?lr) of (label, ink) \<Rightarrow>
      snd (fb_text (ml_gutter_x l) ?y (bytes_of label) ink (ms_bg (mv_style v)) 0 fb)) else fb)"
  have conf: "confined (line_rect area ?y) fb fb1"
    using layout_facts [of area b, folded l(1), OF l(2)] label_length [of v hm "int ?lr"] ok
    by (auto simp: fb1_def line_rect_def split: prod.splits intro!: confined_text)
  have f1: "fb_ok fb1" "fb_contains fb1 (rx (ml_cells l) + int col) ?y"
    using confined_ok [OF conf ok] conf c(2) same_frame_index(2) [of fb fb1] by (auto simp: confined_def)
  have "draw_row v l hm now cols row fb = draw_cols v hm now (row_base v hm row) (rx (ml_cells l)) ?y [0..<nat cols] fb1"
    unfolding draw_row_def Let_def fb1_def row_base_def by (rule refl)
  also have "\<dots> = (False, fold (\<lambda>c fb. fb_put (rx (ml_cells l) + int c) ?y (map_cell v hm now (row_base v hm row + c)) fb) [0..<nat cols] fb1)"
    using fits by (intro draw_cols_total) auto
  finally show ?thesis
    using puts_exact [OF f1, of "\<lambda>_. True" "rx (ml_cells l)" ?y "\<lambda>c. map_cell v hm now (row_base v hm row + c)" "nat cols"] c(1) by simp
qed

lemma draw_rows_exact:
  assumes l: "l = map_layout_of area b" "ml_valid l" and cols: "cols \<le> rw (ml_cells l)" "col < nat cols"
  shows "fb_ok fb \<Longrightarrow> (\<And>r. r \<in> set rows \<Longrightarrow> row_base v hm r + nat cols \<le> length (hm_cells hm) \<and>
        fb_contains fb (rx (ml_cells l) + int col) (ry (ml_cells l) + int r)) \<Longrightarrow> distinct rows \<Longrightarrow> row \<in> set rows \<Longrightarrow>
    at_back (draw_rows v l hm now cols rows fb) (rx (ml_cells l) + int col) (ry (ml_cells l) + int row) = map_cell v hm now (row_base v hm row + col)"
proof (induction rows arbitrary: fb)
  case (Cons r rows)
  let ?x = "rx (ml_cells l) + int col" and ?y = "\<lambda>row. ry (ml_cells l) + int row"
  obtain stop fb' where d: "draw_row v l hm now cols r fb = (stop, fb')" by fastforce
  have fits: "row_base v hm r + nat cols \<le> length (hm_cells hm)" "fb_contains fb ?x (?y r)" using Cons.prems(2) by auto
  have X: "\<not> stop" "at_back fb' ?x (?y r) = map_cell v hm now (row_base v hm r + col)"
    using draw_row_exact [OF Cons.prems(1) l cols(1) fits(1) cols(2) fits(2), of now] d by auto
  have conf: "confined (line_rect area (?y r)) fb fb'" using draw_row_confined [OF Cons.prems(1) l cols(1), of r v hm now] d by simp
  have ok': "fb_ok fb'" and cont: "fb_contains fb' = fb_contains fb"
    using confined_ok [OF conf Cons.prems(1)] conf same_frame_index(2) by (auto simp: confined_def)
  have later: "at_back (draw_rows v l hm now cols rows fb') ?x (?y r) = at_back fb' ?x (?y r)" if "r \<notin> set rows"
    using that ok' fits(2) unfolding cont [symmetric]
  proof (induction rows arbitrary: fb')
    case (Cons s rows)
    obtain stop' fb2 where d2: "draw_row v l hm now cols s fb' = (stop', fb2)" by fastforce
    have c2: "confined (line_rect area (?y s)) fb' fb2" using draw_row_confined [OF Cons.prems(2) l cols(1), of s v hm now] d2 by simp
    then have "at_back fb2 ?x (?y r) = at_back fb' ?x (?y r)" using Cons.prems by (auto simp: confined_def)
    moreover have "fb_contains fb2 = fb_contains fb'" using c2 same_frame_index(2) by (auto simp: confined_def)
    ultimately show ?case using Cons d2 confined_ok [OF c2] by auto
  qed simp
  show ?case
  proof (cases "row = r")
    case True
    then show ?thesis using X d later Cons.prems(3) by simp
  next
    case False
    then show ?thesis using X(1) d Cons.IH [OF ok'] Cons.prems cont by simp
  qed
qed simp

definition inside_screen :: "rect \<Rightarrow> framebuffer \<Rightarrow> bool" where
  "inside_screen area fb \<longleftrightarrow> 0 \<le> rx area \<and> 0 \<le> ry area \<and> rx area + rw area \<le> fb_w fb \<and> ry area + rh area \<le> fb_h fb"

definition shown_rows :: "map_view \<Rightarrow> map_layout \<Rightarrow> grid \<Rightarrow> int" where
  "shown_rows v l g = min (if mv_half_block v then (g_rows g + 1) div 2 else g_rows g) (rh (ml_cells l))"

definition shown_cols :: "map_layout \<Rightarrow> grid \<Rightarrow> int" where
  "shown_cols l g = min (g_cols g) (rw (ml_cells l))"

lemma row_base_fits:
  assumes "int row < shown_rows v l (hm_grid hm)" "length (hm_cells hm) = cell_count (hm_grid hm)" "0 < g_cols (hm_grid hm)" "0 < g_rows (hm_grid hm)"
  shows "row_base v hm row + nat (shown_cols l (hm_grid hm)) \<le> length (hm_cells hm)"
proof -
  let ?lr = "if mv_half_block v then row * 2 else row" and ?c = "nat (g_cols (hm_grid hm))"
  have "?lr + 1 \<le> nat (g_rows (hm_grid hm))" using assms(1) by (auto simp: shown_rows_def split: if_splits)
  then have "(?lr + 1) * ?c \<le> nat (g_rows (hm_grid hm)) * ?c" by (rule mult_le_mono1)
  moreover have "nat (shown_cols l (hm_grid hm)) \<le> ?c" by (simp add: shown_cols_def)
  ultimately show ?thesis using assms(2-4) by (simp add: row_base_def cell_count_def mult.commute)
qed

lemma view_draw_rows:
  assumes "ml_valid l" "g_valid (hm_grid hm)" "l = map_layout_of area (mv_show_legend v)"
  shows "view_draw v area hm now fb =
    draw_rows v l hm now (shown_cols l (hm_grid hm)) [0..<nat (shown_rows v l (hm_grid hm))] (draw_legend v (ml_legend l) (hm_grid hm) fb)"
  using assms by (simp add: view_draw_def Let_def shown_rows_def shown_cols_def min_def not_less)

lemma view_draw_cell:
  assumes ok: "fb_ok fb" and l: "l = map_layout_of area (mv_show_legend v)" "ml_valid l" and inside: "inside_screen area fb"
    and g: "g_valid (hm_grid hm)" "0 < g_cols (hm_grid hm)" "0 < g_rows (hm_grid hm)" "length (hm_cells hm) = cell_count (hm_grid hm)"
    and rc: "int row < shown_rows v l (hm_grid hm)" "int col < shown_cols l (hm_grid hm)"
  shows "at_back (view_draw v area hm now fb) (rx (ml_cells l) + int col) (ry (ml_cells l) + int row) = map_cell v hm now (row_base v hm row + col)"
proof -
  note F = layout_facts [of area "mv_show_legend v", folded l(1), OF l(2)]
  let ?fb1 = "draw_legend v (ml_legend l) (hm_grid hm) fb"
  have conf: "confined (ml_legend l) fb ?fb1" by (rule legend_confined [OF ok])
  have ok1: "fb_ok ?fb1" and cont: "fb_contains ?fb1 = fb_contains fb"
    using confined_ok [OF conf ok] conf same_frame_index(2) by (auto simp: confined_def)
  have "fb_contains fb (rx (ml_cells l) + int col) (ry (ml_cells l) + int r)" if "r \<in> set [0..<nat (shown_rows v l (hm_grid hm))]" for r
    using that rc(2) F(1-6) inside by (auto simp: fb_contains_def inside_screen_def shown_rows_def shown_cols_def)
  then show ?thesis
    unfolding view_draw_rows [OF l(2) g(1) l(1)]
    by (intro draw_rows_exact [OF l _ _ ok1]) (use rc row_base_fits [OF _ g(4,2,3)] in \<open>auto simp: cont shown_cols_def\<close>)
qed

text \<open>A map that animates nowhere is drawn from settled colours, whatever the time.\<close>

lemma still_cells:
  assumes "timings_ok (hm_timings hm)" "hr_timings (mv_ramp v) = hm_timings hm" "\<not> map_animating hm now" "i < length (hm_cells hm)"
  shows "cell_color v (heat_at hm i) cb now = ramp_settled (mv_ramp v) (heat_at hm i) cb"
proof -
  have "\<not> cell_animating (heat_at hm i) (hm_timings hm) now" using assms(3,4) by (auto simp: map_animating_def list_ex_iff)
  then show ?thesis using settled_when_still [of "mv_ramp v" "heat_at hm i" now] assms(1,2) by (simp add: cell_color_def)
qed

lemma still_map_cell:
  assumes "timings_ok (hm_timings hm)" "hr_timings (mv_ramp v) = hm_timings hm" "\<not> map_animating hm now" "\<not> map_animating hm now'" "i < length (hm_cells hm)"
  shows "map_cell v hm now i = map_cell v hm now' i"
  using still_cells [OF assms(1,2)] assms(3-5) by (simp add: map_cell_def Let_def)

lemma still_cols: "(\<And>i. i < length (hm_cells hm) \<Longrightarrow> map_cell v hm now i = map_cell v hm now' i) \<Longrightarrow>
  draw_cols v hm now base x y cols fb = draw_cols v hm now' base x y cols fb"
  by (induction v hm now base x y cols fb rule: draw_cols.induct) auto

lemma still_rows: "(\<And>i. i < length (hm_cells hm) \<Longrightarrow> map_cell v hm now i = map_cell v hm now' i) \<Longrightarrow>
  draw_rows v l hm now cols rows fb = draw_rows v l hm now' cols rows fb"
  using still_cols [of hm v now now'] by (induction rows arbitrary: fb) (auto simp: draw_row_def Let_def split: prod.splits)

lemma still_draw:
  assumes "timings_ok (hm_timings hm)" "hr_timings (mv_ramp v) = hm_timings hm" "\<not> map_animating hm now" "\<not> map_animating hm now'"
  shows "view_draw v area hm now fb = view_draw v area hm now' fb"
  using still_rows [of hm v now now'] still_map_cell [OF assms] by (simp add: view_draw_def Let_def)

text \<open>
  (C12) The picture of the heap: for a map fitted to its grid, every character of the map's rectangle shows the cell of its row and column \<dash> glyph
  by density and colour by state, or in half-block mode two cells, one above the other \<dash> and nothing outside the area the map was given
  changes. While no cell is in a flash or fade the picture does not depend on the clock, so skipping the frame loses nothing.
\<close>

theorem map_shows_heap:
  assumes "fb_ok fb" "l = map_layout_of area (mv_show_legend v)" "ml_valid l" "inside_screen area fb"
    "g_valid (hm_grid hm)" "0 < g_cols (hm_grid hm)" "0 < g_rows (hm_grid hm)" "length (hm_cells hm) = cell_count (hm_grid hm)"
  shows "confined area fb (view_draw v area hm now fb) \<and>
    (\<forall>row col. int row < shown_rows v l (hm_grid hm) \<longrightarrow> int col < shown_cols l (hm_grid hm) \<longrightarrow>
      at_back (view_draw v area hm now fb) (rx (ml_cells l) + int col) (ry (ml_cells l) + int row) = map_cell v hm now (row_base v hm row + col)) \<and>
    (timings_ok (hm_timings hm) \<longrightarrow> hr_timings (mv_ramp v) = hm_timings hm \<longrightarrow> \<not> map_animating hm now \<longrightarrow> \<not> map_animating hm now' \<longrightarrow>
      view_draw v area hm now fb = view_draw v area hm now' fb)"
  using view_draw_confined [OF assms(1)] view_draw_cell [OF assms] still_draw by blast

text \<open>Two 64-byte cells, nothing allocated, under the legend of a screen of four columns and two rows.\<close>

definition demo_view_grid :: grid where
  "demo_view_grid = \<lparr>g_base = 0, g_end = 128, g_cell_bytes = 64, g_log2_cell_bytes = 6, g_cols = 2, g_rows = 1, g_valid = True\<rparr>"

definition demo_view_heat :: heat_map where
  "demo_view_heat = heat_map_new\<lparr>hm_grid := demo_view_grid, hm_cells := [kEmptyAggregate, kEmptyAggregate]\<rparr>"

definition demo_map_view :: map_view where
  "demo_map_view = map_view_new \<lparr>cap_color = TrueColor, cap_unicode = True\<rparr> kDefaultPalette kDefaultTimings"

lemma demo_map_view_sel [simp]: "mv_show_legend demo_map_view" "\<not> mv_half_block demo_map_view"
  by (simp_all add: demo_map_view_def map_view_new_def)

lemma demo_empty_cell: "ramp_color (mv_ramp demo_map_view) kEmptyAggregate 64 500 = 0x2A2A2A"
proof -
  have e: "mv_ramp demo_map_view = heat_ramp_new kDefaultPalette kDefaultTimings" by (simp add: demo_map_view_def map_view_new_def)
  have "\<not> cell_animating kEmptyAggregate kDefaultTimings 500" by (simp add: cell_animating_def age_of_def kEmptyAggregate_def kNoTime_def kDefaultTimings_def)
  moreover have "timings_ok kDefaultTimings" by (simp add: timings_ok_def kDefaultTimings_def)
  ultimately have "ramp_color (mv_ramp demo_map_view) kEmptyAggregate 64 500 = ramp_settled (mv_ramp demo_map_view) kEmptyAggregate 64"
    using settled_when_still [of "mv_ramp demo_map_view"] by (simp add: e heat_ramp_new_def Let_def)
  then show ?thesis by (simp add: e ramp_settled_def heat_ramp_new_def Let_def kEmptyAggregate_def kDefaultPalette_def heat_palette_def dark_theme_def)
qed

theorem map_shows_heap_witness:
  "let fb = snd (fb_resize 4 2 framebuffer_new)
   in at_back (view_draw demo_map_view (mk_rect 0 0 4 2) demo_view_heat 500 fb) 1 1 = mk_cell 0x2591 0x2A2A2A 0x0C0C0C 0"
proof -
  let ?fb = "snd (fb_resize 4 2 framebuffer_new)" and ?area = "mk_rect 0 0 4 2" and ?l = "map_layout_of (mk_rect 0 0 4 2) True"
  have fb: "fb_ok ?fb" "inside_screen ?area ?fb" by (simp_all add: fb_resize_def framebuffer_new_def kMaxCells_def fb_ok_def inside_screen_def)
  have l: "ml_valid ?l" "ml_cells ?l = mk_rect 0 1 4 1" by (simp_all add: map_layout_of_def Let_def kGutterWidth_def kMinMapCols_def)
  have hm: "hm_grid demo_view_heat = demo_view_grid" "hm_cells demo_view_heat = [kEmptyAggregate, kEmptyAggregate]" by (simp_all add: demo_view_heat_def)
  have sh: "shown_rows demo_map_view ?l demo_view_grid = 1" "shown_cols ?l demo_view_grid = 2" by (simp_all add: shown_rows_def shown_cols_def l demo_view_grid_def)
  have "at_back (view_draw demo_map_view ?area demo_view_heat 500 ?fb) 1 1 = map_cell demo_map_view demo_view_heat 500 (row_base demo_map_view demo_view_heat 0 + 1)"
    using map_shows_heap [of ?fb ?l ?area demo_map_view demo_view_heat 500 500, THEN conjunct2, THEN conjunct1, rule_format, of 0 1] fb l
    by (simp add: hm sh) (simp add: demo_view_grid_def cell_count_def)
  then show ?thesis
    by (simp add: map_cell_def Let_def row_base_def heat_at_def hm cell_color_def demo_view_grid_def demo_empty_cell)
      (simp add: demo_map_view_def map_view_new_def glyph_for_def glyphs_for_def cell_occupied_def kEmptyAggregate_def map_style_default_def dark_theme_def)
qed

section \<open>Overlays keep the picture\<close>

text \<open>\<open>recolours r fb fb'\<close>: colours and attributes inside \<open>r\<close> may change, glyphs nowhere.\<close>

definition recolours :: "rect \<Rightarrow> framebuffer \<Rightarrow> framebuffer \<Rightarrow> bool" where
  "recolours r fb fb' \<longleftrightarrow> confined r fb fb' \<and> (\<forall>x y. fb_contains fb x y \<longrightarrow> cl_glyph (at_back fb' x y) = cl_glyph (at_back fb x y))"

lemma recolours_refl [simp]: "recolours r fb fb"
  by (simp add: recolours_def)

lemma recolours_ok: "recolours r a b \<Longrightarrow> fb_ok a \<Longrightarrow> fb_ok b" "recolours r a b \<Longrightarrow> fb_contains b = fb_contains a"
  using confined_ok same_frame_index(2) by (auto simp: recolours_def confined_def same_frame_ok)

lemma recolours_trans: "recolours r a b \<Longrightarrow> recolours r b c \<Longrightarrow> recolours r a c"
  using confined_trans recolours_ok(2) unfolding recolours_def by metis

lemma recolours_put:
  "fb_ok fb \<Longrightarrow> in_rect r x y \<Longrightarrow> fb_contains fb x y \<Longrightarrow> cl_glyph c = cl_glyph (at_back fb x y) \<Longrightarrow> recolours r fb (fb_put x y c fb)"
  using confined_put at_back_put by (auto simp: recolours_def)

lemma cell_place_in:
  assumes "ml_valid (map_layout_of area b)" "cell_place v (map_layout_of area b) g i = Some (x, y)"
  shows "in_rect area x y" "rx (ml_cells (map_layout_of area b)) \<le> x"
  using layout_facts(1-6) [OF assms(1)] assms(2)
  by (auto simp: cell_place_def Let_def in_rect_def row_of_def col_of_def split: if_splits)

lemma paint_leak_recolours:
  "fb_ok fb \<Longrightarrow> ml_valid (map_layout_of area b) \<Longrightarrow> recolours area fb (paint_leak v (map_layout_of area b) hm cell fb)"
  using cell_place_in(1) by (auto simp: paint_leak_def Let_def split: option.splits intro!: recolours_put)

lemma draw_leaks_recolours: "fb_ok fb \<Longrightarrow> recolours area fb (draw_leaks v area hm diff fb)"
proof -
  assume ok: "fb_ok fb"
  have "recolours area fb (fold (paint_leak v (map_layout_of area b) hm) cells fb)" if "ml_valid (map_layout_of area b)" for b cells
    using ok
  proof (induction cells arbitrary: fb)
    case (Cons c cells)
    have "recolours area fb (paint_leak v (map_layout_of area b) hm c fb)" by (rule paint_leak_recolours [OF Cons.prems that])
    then show ?case using Cons.IH recolours_ok(1) Cons.prems recolours_trans by fastforce
  qed simp
  then show ?thesis by (auto simp: draw_leaks_def Let_def)
qed

lemma paint_gutter_recolours:
  "fb_ok fb \<Longrightarrow> (\<And>gx. gx \<in> set gxs \<Longrightarrow> in_rect r gx y) \<Longrightarrow>
   recolours r fb (paint_gutter ink y gxs fb) \<and> (\<forall>x y'. fb_contains fb x y' \<longrightarrow> x \<notin> set gxs \<longrightarrow> at_back (paint_gutter ink y gxs fb) x y' = at_back fb x y')"
proof (induction ink y gxs fb rule: paint_gutter.induct)
  case (2 ink y gx gxs fb)
  let ?fb1 = "fb_put gx y ((at_back fb gx y)\<lparr>cl_fg := ink\<rparr>) fb"
  show ?case
  proof (cases "fb_contains fb gx y")
    case True
    have r1: "recolours r fb ?fb1" using True 2(2,3) by (intro recolours_put) auto
    then show ?thesis
      using 2(1) [OF _ recolours_ok(1) [OF r1 2(2)]] 2(2,3) True recolours_trans [OF r1] recolours_ok(2) [OF r1] at_back_put [OF 2(2)] by auto
  qed simp
qed simp

text \<open>The position the cursor is drawn at, when its cell is on the screen.\<close>

definition cursor_place :: "map_view \<Rightarrow> rect \<Rightarrow> heat_map \<Rightarrow> map_cursor \<Rightarrow> framebuffer \<Rightarrow> (int \<times> int) option" where
  "cursor_place v area hm cur fb =
     (let l = map_layout_of area (mv_show_legend v); g = hm_grid hm in
      if ml_valid l \<and> g_valid g then
        (case cell_place v l g (cursor_index cur g) of None \<Rightarrow> None | Some (x, y) \<Rightarrow> if fb_contains fb x y then Some (x, y) else None)
      else None)"

lemma cursor_effect:
  assumes ok: "fb_ok fb"
  shows "recolours area fb (draw_cursor v area hm cur fb) \<and>
    (case cursor_place v area hm cur fb of None \<Rightarrow> draw_cursor v area hm cur fb = fb
     | Some (x, y) \<Rightarrow> at_back (draw_cursor v area hm cur fb) x y =
         (at_back fb x y)\<lparr>cl_bg := ms_cursor (mv_style v), cl_attrs := cl_attrs (at_back fb x y) OR kAttrBold\<rparr>)"
proof (cases "cursor_place v area hm cur fb")
  case None
  then show ?thesis by (auto simp: cursor_place_def draw_cursor_def Let_def split: option.splits if_splits)
next
  case (Some p)
  obtain x y where p: "p = (x, y)" by fastforce
  let ?l = "map_layout_of area (mv_show_legend v)" and ?g = "hm_grid hm"
  let ?c = "(at_back fb x y)\<lparr>cl_bg := ms_cursor (mv_style v), cl_attrs := cl_attrs (at_back fb x y) OR kAttrBold\<rparr>"
  have d: "ml_valid ?l" "g_valid ?g" "cell_place v ?l ?g (cursor_index cur ?g) = Some (x, y)" "fb_contains fb x y"
    using Some p by (auto simp: cursor_place_def Let_def split: if_splits option.splits)
  note A = cell_place_in [OF d(1,3)]
  let ?fb1 = "fb_put x y ?c fb"
  have r1: "recolours area fb ?fb1" using A(1) d(4) ok by (intro recolours_put) auto
  have b1: "at_back ?fb1 x y = ?c" using at_back_put [OF ok d(4)] by simp
  let ?gs = "[ml_gutter_x ?l..ml_gutter_x ?l + int kGutterWidth - 1]"
  have gut: "in_rect area gx y \<and> gx \<noteq> x" if "0 \<le> ml_gutter_x ?l" "gx \<in> set ?gs" for gx
    using that layout_facts(2,5,7) [OF d(1)] A by (auto simp: in_rect_def kGutterWidth_def)
  have g: "recolours area ?fb1 (paint_gutter ink y ?gs ?fb1) \<and> at_back (paint_gutter ink y ?gs ?fb1) x y = ?c" if "0 \<le> ml_gutter_x ?l" for ink
  proof -
    have "fb_contains ?fb1 x y" using d(4) recolours_ok(2) [OF r1] by simp
    moreover have "x \<notin> set ?gs" using gut [OF that] by blast
    ultimately show ?thesis using paint_gutter_recolours [OF recolours_ok(1) [OF r1 ok], of ?gs area y ink] gut [OF that] b1 by metis
  qed
  have e: "draw_cursor v area hm cur fb = (if ml_gutter_x ?l \<ge> 0 then paint_gutter (ms_cursor (mv_style v)) y ?gs ?fb1 else ?fb1)"
    unfolding draw_cursor_def Let_def using d by simp
  show ?thesis using g recolours_trans [OF r1] r1 b1 Some p unfolding e by auto
qed

text \<open>
  Overlays recolour, they do not redraw: the leak overlay and the cursor stay inside the map's area and keep every glyph, so the density
  under them stays readable; the cursor's own cell keeps its foreground colour and gets the cursor's background, and the overlay of an
  analysis made for another geometry, or with diff mode off, draws nothing.
\<close>

theorem overlays_keep_glyphs:
  assumes "fb_ok fb"
  shows "recolours area fb (draw_leaks v area hm diff fb) \<and> recolours area fb (draw_cursor v area hm cur fb) \<and>
    (\<not> sd_diff diff \<or> length (sd_cells diff) \<noteq> length (hm_cells hm) \<longrightarrow> draw_leaks v area hm diff fb = fb) \<and>
    (case cursor_place v area hm cur fb of None \<Rightarrow> draw_cursor v area hm cur fb = fb
     | Some (x, y) \<Rightarrow> at_back (draw_cursor v area hm cur fb) x y =
         (at_back fb x y)\<lparr>cl_bg := ms_cursor (mv_style v), cl_attrs := cl_attrs (at_back fb x y) OR kAttrBold\<rparr>)"
  using draw_leaks_recolours [OF assms] cursor_effect [OF assms, of area v hm cur] by (simp add: draw_leaks_def Let_def)

text \<open>The two-cell map again: the cursor at the start puts its colour behind the first cell.\<close>

theorem overlays_keep_glyphs_witness:
  "let fb = snd (fb_resize 4 2 framebuffer_new); fb' = draw_cursor demo_map_view (mk_rect 0 0 4 2) demo_view_heat map_cursor_new fb
   in recolours (mk_rect 0 0 4 2) fb fb' \<and> cl_bg (at_back fb' 0 1) = 0x33D7E8"
proof -
  let ?fb = "snd (fb_resize 4 2 framebuffer_new)" and ?area = "mk_rect 0 0 4 2"
  have ok: "fb_ok ?fb" by (simp add: fb_resize_def framebuffer_new_def kMaxCells_def fb_ok_def)
  have i: "cursor_index map_cursor_new demo_view_grid = 0"
    by (simp add: cursor_index_def demo_view_grid_def map_cursor_new_def index_of_def cell_count_def last_heap_cell_def Let_def)
  have "cursor_place demo_map_view ?area demo_view_heat map_cursor_new ?fb = Some (0, 1)"
    using i by (simp add: cursor_place_def map_layout_of_def Let_def kGutterWidth_def kMinMapCols_def demo_view_heat_def)
      (simp add: cell_place_def row_of_def col_of_def demo_view_grid_def fb_contains_def fb_resize_def kMaxCells_def)
  then show ?thesis
    using overlays_keep_glyphs [OF ok, of ?area demo_map_view demo_view_heat snapshot_diff_new map_cursor_new]
    by (simp add: Let_def demo_map_view_def map_view_new_def map_style_default_def dark_theme_def)
qed

section \<open>Two display gaps\<close>

text \<open>
  In half-block mode a cell of an odd row is shown as the background of its character. The cursor replaces that background, so on such a
  cell the colour under the cursor is the one the cursor hides.
\<close>

lemma cursor_hides_lower_cell:
  assumes "fb_ok fb" "cursor_place v area hm cur fb = Some (x, y)" "mv_half_block v" "i + nat (g_cols (hm_grid hm)) < length (hm_cells hm)"
  shows "cl_bg (map_cell v hm now i) = cell_color v (heat_at hm (i + nat (g_cols (hm_grid hm)))) (g_cell_bytes (hm_grid hm)) now"
    "cl_bg (at_back (draw_cursor v area hm cur fb) x y) = ms_cursor (mv_style v)"
  using cursor_effect [OF assms(1), of area v hm cur] assms(2-4) by (simp_all add: map_cell_def Let_def mk_cell_def)

text \<open>
  The seam between two regions is marked on a row that starts exactly at a region, never on one that crosses into a region half way: the
  span the test looks at contains the row's first byte, so it never starts after it.
\<close>

lemma seam_marked_only_at_row_start:
  assumes "rm_ok rm" "hm_regions hm = Some rm" "span_at_flat rm (offset_of_row (hm_grid hm) r) = Some sp"
    "snd (gutter_label v hm r) = ms_warn (mv_style v)" "ms_warn (mv_style v) \<noteq> ms_dim (mv_style v)"
  shows "s_flat sp = offset_of_row (hm_grid hm) r"
proof -
  have "s_flat sp \<le> offset_of_row (hm_grid hm) r" using span_at_flat_iff [OF assms(1)] assms(3) by (simp add: contains_flat_def)
  moreover have "offset_of_row (hm_grid hm) r \<le> s_flat sp" using assms(2-5) by (auto simp: gutter_label_def Let_def split: if_splits)
  ultimately show ?thesis by simp
qed

end
