(* ===== verification/Panel_Draw.thy ===== *)
theory Panel_Draw
  imports Map_View Metrics
begin

text \<open>
  The contents of the two bottom panels: \<^verbatim>\<open>ChunkInspector::draw\<close> of \<^verbatim>\<open>inspector.cpp\<close> and \<^verbatim>\<open>Metrics::draw\<close> of \<^verbatim>\<open>metrics.cpp\<close>. A line printed with
  \<^verbatim>\<open>snprintf\<close> is cut to its buffer. How the C library prints a duration with one decimal is an argument.
\<close>

section \<open>Drawing in sequence\<close>

definition draw_seq :: "(framebuffer \<Rightarrow> framebuffer) list \<Rightarrow> framebuffer \<Rightarrow> framebuffer" where
  "draw_seq fs fb = fold (\<lambda>f. f) fs fb"

definition snprintf :: "nat \<Rightarrow> string \<Rightarrow> string" where
  "snprintf n s = take (n - 1) s"

definition hex_padded :: "nat \<Rightarrow> nat \<Rightarrow> string" where
  "hex_padded width v = (let s = hex_string v in replicate (width - length s) (CHR ''0'') @ s)"

definition count_text :: "nat \<Rightarrow> u64 \<Rightarrow> string" where
  "count_text n v = (case fst (format_count n v) of None \<Rightarrow> [] | Some s \<Rightarrow> s)"

definition size_label :: "nat \<Rightarrow> u64 \<Rightarrow> string" where
  "size_label n v = (case fst (format_byte_size n v) of None \<Rightarrow> [] | Some s \<Rightarrow> s)"

definition put_text :: "rect \<Rightarrow> int \<Rightarrow> int \<Rightarrow> string \<Rightarrow> u32 \<Rightarrow> u32 \<Rightarrow> u8 \<Rightarrow> framebuffer \<Rightarrow> framebuffer" where
  "put_text area dx dy s fg bg att fb = snd (panel_text area dx dy (bytes_of s) fg bg att fb)"

definition put_text_right :: "rect \<Rightarrow> int \<Rightarrow> string \<Rightarrow> u32 \<Rightarrow> u32 \<Rightarrow> u8 \<Rightarrow> framebuffer \<Rightarrow> framebuffer" where
  "put_text_right area dy s fg bg att fb = snd (panel_text_right area dy (bytes_of s) fg bg att fb)"

definition put_number :: "rect \<Rightarrow> int \<Rightarrow> string \<Rightarrow> u32 \<Rightarrow> u32 \<Rightarrow> u32 \<Rightarrow> framebuffer \<Rightarrow> framebuffer" where
  "put_number area dy s number dm bg fb = snd (panel_numeric_right area dy (bytes_of s) number dm bg fb)"

text \<open>The \<^verbatim>\<open>field\<close> closures of both panels: the label, then the value at the panel's value column or as a number at its right edge.\<close>

definition put_field :: "rect \<Rightarrow> int \<Rightarrow> u32 \<Rightarrow> u32 \<Rightarrow> int \<Rightarrow> string \<Rightarrow> string \<Rightarrow> u32 \<Rightarrow> bool \<Rightarrow> framebuffer \<Rightarrow> framebuffer" where
  "put_field area value_col dm bg dy label value colour numeric fb =
     (let fb1 = put_text area 2 dy label dm bg 0 fb
      in if numeric then put_number area dy value colour dm bg fb1 else put_text area value_col dy value colour bg 0 fb1)"

section \<open>The inspector\<close>

record inspector_style =
  is_ink :: u32
  is_dim :: u32
  is_accent :: u32
  is_frame :: u32
  is_live :: u32
  is_freed :: u32
  is_bg :: u32

definition inspector_style_of :: "theme \<Rightarrow> inspector_style" where
  "inspector_style_of t = \<lparr>is_ink = th_text t, is_dim = th_dim t, is_accent = th_accent t, is_frame = th_frame t, is_live = th_active t,
     is_freed = th_danger_text t, is_bg = th_bg t\<rparr>"

definition kInspValueCol :: int where "kInspValueCol = 12"
definition kAddressEndCol :: int where "kAddressEndCol = kInspValueCol + 18"

definition address_text :: "u64 \<Rightarrow> string" where
  "address_text a = ''0x'' @ hex_padded 16 (unat a)"

definition cursor_address :: "map_cursor \<Rightarrow> region_map option \<Rightarrow> u64" where
  "cursor_address cur regions =
     (case regions of
        None \<Rightarrow> cur_coord cur
      | Some rm \<Rightarrow> if rm_spans rm = [] then cur_coord cur
                   else (case to_addr rm (cur_coord cur) of None \<Rightarrow> cur_coord cur | Some r \<Rightarrow> r))"

text \<open>The count of chunks sharing the cell: the long form, the short one when the panel is narrow, or nothing.\<close>

definition crowd_text :: "rect \<Rightarrow> inspector \<Rightarrow> string option" where
  "crowd_text area ins =
     (if in_total ins > 1 then
        (let longt = snprintf 192 (if length (in_found ins) < in_total ins
                then '' '' @ dec_string (in_pos ins + 1) @ '' of '' @ dec_string (in_total ins) @ '' here ('' @ dec_string (length (in_found ins)) @ '' reachable) - Tab ''
                else '' '' @ dec_string (in_pos ins + 1) @ '' of '' @ dec_string (in_total ins) @ '' in this cell - Tab '');
             shortt = snprintf 192 ('' '' @ dec_string (in_pos ins + 1) @ ''/'' @ dec_string (in_total ins) @ '' Tab '')
         in if rw area - int (length longt) \<le> kAddressEndCol then
              (if rw area - int (length shortt) \<le> kAddressEndCol then None else Some shortt)
            else Some longt)
      else None)"

definition lifetime_text :: "(u32 \<Rightarrow> string) \<Rightarrow> inspector \<Rightarrow> chunk_detail \<Rightarrow> u32 \<Rightarrow> string" where
  "lifetime_text secs ins d now_ms =
     (let end_ms = (if d_status d = StFreed then d_free_ms d else now_ms);
          ms = (if end_ms > d_alloc_ms d then end_ms - d_alloc_ms d else 0);
          qualifier = (if d_status d = StFreed then ''(lived)'' else if in_first_seen ins then ''(since seen)'' else ''(so far)'')
      in snprintf 192 (secs ms @ '' s '' @ qualifier))"

definition inspector_ops ::
  "(u32 \<Rightarrow> string) \<Rightarrow> inspector_style \<Rightarrow> rect \<Rightarrow> grid \<Rightarrow> map_cursor \<Rightarrow> region_map option \<Rightarrow> u32 \<Rightarrow> inspector \<Rightarrow> (framebuffer \<Rightarrow> framebuffer) list" where
  "inspector_ops secs st area g cur regions now_ms ins =
     (let field = put_field area kInspValueCol (is_dim st) (is_bg st);
          d = inspector_current ins; present = (d_status d \<noteq> StUnallocated);
          shown = snprintf 192 (address_text (if present then d_addr d else cursor_address cur regions))
      in panel_rule area (bytes_of '' CHUNK INSPECTOR '') (is_frame st) (is_accent st) (is_bg st) #
         (if \<not> g_valid g then [put_text area 2 1 ''waiting for the target's memory map'' (is_dim st) (is_bg st) 0]
          else
            field 1 ''Address'' shown (if present then is_ink st else is_dim st) True #
            (if \<not> present then
               [field 2 ''Status'' (chunk_status_str StUnallocated) (is_dim st) False,
                put_text area 2 3 ''address space the target has not used'' (is_dim st) (is_bg st) 0,
                put_text area 2 4 ''n / N find the next occupied cell'' (is_dim st) (is_bg st) 0]
             else
               [field 2 ''User Size'' (snprintf 192 (count_text 48 (ucast (d_size d)) @ '' bytes ('' @ size_label 32 (ucast (d_size d)) @ '')'')) (is_ink st) True,
                field 3 ''Real Size'' (snprintf 192 (count_text 48 (chunk_bytes d) @ '' bytes ('' @ (if d_exact d then [] else ''~'') @ dec_string (unat (d_overhead d)) @
                  '' B overhead'' @ (if d_exact d then '', measured'' else '', inferred'') @ '')'')) (is_ink st) True,
                field 4 ''Status'' (chunk_status_str (d_status d)) (if d_status d = StFreed then is_freed st else is_live st) False,
                field 5 ''Lifetime'' (lifetime_text secs ins d now_ms) (is_ink st) True] @
               (case crowd_text area ins of None \<Rightarrow> [] | Some t \<Rightarrow> [put_text_right area 1 t (is_accent st) (is_bg st) 0]))))"

definition inspector_draw ::
  "(u32 \<Rightarrow> string) \<Rightarrow> inspector_style \<Rightarrow> rect \<Rightarrow> grid \<Rightarrow> map_cursor \<Rightarrow> region_map option \<Rightarrow> u32 \<Rightarrow> inspector \<Rightarrow> framebuffer \<Rightarrow> framebuffer" where
  "inspector_draw secs st area g cur regions now_ms ins fb =
     (if rw area \<le> 0 \<or> rh area \<le> 0 then fb else draw_seq (inspector_ops secs st area g cur regions now_ms ins) fb)"

section \<open>Telemetry\<close>

record metrics_style =
  mst_ink :: u32
  mst_dim :: u32
  mst_accent :: u32
  mst_frame :: u32
  mst_good :: u32
  mst_warn :: u32
  mst_bad :: u32
  mst_bg :: u32

definition metrics_style_of :: "theme \<Rightarrow> metrics_style" where
  "metrics_style_of t = \<lparr>mst_ink = th_text t, mst_dim = th_dim t, mst_accent = th_accent t, mst_frame = th_frame t, mst_good = th_title t,
     mst_warn = th_accent t, mst_bad = th_danger_text t, mst_bg = th_bg t\<rparr>"

definition kMetricsValueCol :: int where "kMetricsValueCol = 14"
definition kMetricsWideCols :: int where "kMetricsWideCols = 44"

definition allocated_text :: "bool \<Rightarrow> metrics \<Rightarrow> string" where
  "allocated_text wide m = snprintf 192 (size_label 32 (mt_total_bytes m) @ (if wide then '' ('' @ count_text 48 (mt_total_bytes m) @ '' B)'' else []))"

definition peak_text :: "bool \<Rightarrow> metrics \<Rightarrow> string" where
  "peak_text wide m = snprintf 192 (size_label 32 (mt_peak_bytes m) @
     (if wide \<and> mt_peak_bytes m > ms_live_bytes (mt_live m) then '' (now -'' @ size_label 32 (mt_peak_bytes m - ms_live_bytes (mt_live m)) @ '')'' else []))"

definition badge_colour :: "metrics_style \<Rightarrow> frag_badge_kind \<Rightarrow> u32" where
  "badge_colour st b = (if b = BadgeHigh then mst_bad st else if b = BadgeMed then mst_warn st else mst_good st)"

definition frag_ops :: "metrics_style \<Rightarrow> rect \<Rightarrow> metrics \<Rightarrow> (framebuffer \<Rightarrow> framebuffer) list" where
  "frag_ops st area m =
     (let badge = frag_badge (mt_frag_pct m) in
      if badge = BadgeUnknown then [put_field area kMetricsValueCol (mst_dim st) (mst_bg st) 4 ''Fragmented'' ''--'' (mst_dim st) False]
      else
        (let line = snprintf 192 (dec_string (nat (mt_frag_pct m)) @ ''%  '' @ frag_badge_str badge);
             hole = snprintf 64 (''max hole '' @ size_label 32 (mt_largest_gap m) @ '' '')
         in [put_text area 2 4 ''Fragmented'' (mst_dim st) (mst_bg st) 0, put_text area kMetricsValueCol 4 line (badge_colour st badge) (mst_bg st) 0] @
            (if mt_gap_known m \<and> kMetricsValueCol + int (length line) + 2 + int (length hole) \<le> rw area
             then [put_text_right area 4 hole (mst_dim st) (mst_bg st) 0] else [])))"

definition drop_text :: "metrics \<Rightarrow> string" where
  "drop_text m = snprintf 80 (if ms_dropped (mt_live m) = 0 then ''0 dropped'' else '' '' @ count_text 48 (ms_dropped (mt_live m)) @ '' DROPPED '')"

definition ring_ops :: "metrics_style \<Rightarrow> rect \<Rightarrow> metrics \<Rightarrow> (framebuffer \<Rightarrow> framebuffer) list" where
  "ring_ops st area m =
     (let s = mt_live m; label = put_text area 2 5 ''Ring'' (mst_dim st) (mst_bg st) 0 in
      if ms_ring_capacity s = 0 then
        [put_text area 2 5 ''Sampling'' (mst_dim st) (mst_bg st) 0,
         put_text area kMetricsValueCol 5 ''read from target, no event stream'' (mst_dim st) (mst_bg st) 0]
      else
        (let pct = dec_string (unat (ring_percent (ms_ring_queued s) (ms_ring_capacity s))) @ ''%'';
             line = snprintf 192 (if rw area \<ge> kMetricsWideCols then pct @ '' of '' @ count_text 48 (ms_ring_capacity s) else pct);
             colour = (case ring_pressure (ms_ring_queued s) (ms_ring_capacity s) of PressureCalm \<Rightarrow> mst_good st | PressureWarn \<Rightarrow> mst_warn st | PressureBad \<Rightarrow> mst_bad st);
             drops = drop_text m;
             dcolour = (if ms_dropped s = 0 then mst_dim st else mst_bad st);
             dattrs = (if ms_dropped s = 0 then 0 else kAttrBold)
         in if kMetricsValueCol + int (length line) + 2 + int (length drops) \<le> rw area
            then [put_text area kMetricsValueCol 5 line colour (mst_bg st) 0, put_text_right area 5 drops dcolour (mst_bg st) dattrs, label]
            else if ms_dropped s \<noteq> 0 then [label, put_text area kMetricsValueCol 5 drops dcolour (mst_bg st) dattrs]
            else [label, put_text area kMetricsValueCol 5 line colour (mst_bg st) 0]))"

definition metrics_ops :: "metrics_style \<Rightarrow> rect \<Rightarrow> metrics \<Rightarrow> (framebuffer \<Rightarrow> framebuffer) list" where
  "metrics_ops st area m =
     (let wide = (rw area \<ge> kMetricsWideCols); field = put_field area kMetricsValueCol (mst_dim st) (mst_bg st); s = mt_live m
      in [panel_rule area (bytes_of '' TELEMETRY METRICS '') (mst_frame st) (mst_accent st) (mst_bg st),
          (if \<not> mt_cumulative_known m then field 1 ''Allocated'' ''not observable'' (mst_dim st) False
           else field 1 ''Allocated'' (allocated_text wide m) (mst_ink st) True),
          field 2 ''Active'' (snprintf 192 (count_text 48 (ms_live_chunks s) @ '' chunks / '' @ size_label 32 (ms_live_bytes s))) (mst_ink st) True,
          field 3 ''Peak'' (peak_text wide m) (mst_ink st) True] @ frag_ops st area m @ ring_ops st area m)"

definition metrics_draw :: "metrics_style \<Rightarrow> rect \<Rightarrow> metrics \<Rightarrow> framebuffer \<Rightarrow> framebuffer" where
  "metrics_draw st area m fb = (if rw area < kMetricsMinCols \<or> rh area \<le> 0 then fb else draw_seq (metrics_ops st area m) fb)"

section \<open>Inside the panel\<close>

definition draws_in :: "rect \<Rightarrow> (framebuffer \<Rightarrow> framebuffer) \<Rightarrow> bool" where
  "draws_in r f \<longleftrightarrow> (\<forall>fb. fb_ok fb \<longrightarrow> confined r fb (f fb))"

lemma draw_seq_snoc: "draw_seq (fs @ [f]) fb = f (draw_seq fs fb)"
  by (simp add: draw_seq_def)

lemma draws_in_seq: "\<forall>f \<in> set fs. draws_in r f \<Longrightarrow> draws_in r (draw_seq fs)"
  unfolding draws_in_def draw_seq_def by (auto intro: confined_fold)

lemma draws_in_put: "draws_in area (put_text area dx dy s fg bg att)" "draws_in area (put_text_right area dy s fg bg att)"
  "draws_in area (put_number area dy s n dm bg)" "draws_in area (panel_rule area label frame accent bg)"
  by (simp_all add: draws_in_def put_text_def put_text_right_def put_number_def panel_text_confined panel_text_right_confined panel_numeric_confined panel_rule_confined)

lemma draws_in_comp: "draws_in r f \<Longrightarrow> draws_in r g \<Longrightarrow> draws_in r (\<lambda>fb. g (f fb))"
  unfolding draws_in_def by (blast intro: confined_trans confined_ok)

lemma draws_in_field: "draws_in area (put_field area vc dm bg dy label v col num)"
  unfolding put_field_def Let_def by (cases num) (simp_all add: draws_in_comp draws_in_put)

lemma draws_in_id: "draws_in r (\<lambda>fb. fb)"
  by (simp add: draws_in_def)

lemmas draws_in_rules = draws_in_put draws_in_field draws_in_id

lemma inspector_ops_in: "\<forall>f \<in> set (inspector_ops secs st area g cur regions now ins). draws_in area f"
  unfolding inspector_ops_def Let_def by (cases "crowd_text area ins") (simp_all add: draws_in_rules)

lemma inspector_draw_in: "draws_in area (inspector_draw secs st area g cur regions now ins)"
  using draws_in_seq [OF inspector_ops_in] by (simp add: inspector_draw_def draws_in_def)

lemma metrics_rows_in: "\<forall>f \<in> set (frag_ops st area m). draws_in area f" "\<forall>f \<in> set (ring_ops st area m). draws_in area f"
  unfolding frag_ops_def ring_ops_def Let_def by (simp_all add: draws_in_rules)

lemma metrics_ops_in: "\<forall>f \<in> set (metrics_ops st area m). draws_in area f"
  unfolding metrics_ops_def Let_def using metrics_rows_in [of st area m] by (auto simp: draws_in_rules)

lemma metrics_draw_in: "draws_in area (metrics_draw st area m)"
  using draws_in_seq [OF metrics_ops_in] by (simp add: metrics_draw_def draws_in_def)

section \<open>The count over the address\<close>

definition ascii :: "string \<Rightarrow> bool" where
  "ascii s \<longleftrightarrow> list_all (\<lambda>b. b < 0x80) (bytes_of s)"

lemma ascii_simps [simp]: "ascii []" "ascii (c # s) \<longleftrightarrow> (of_char c :: u8) < 0x80 \<and> ascii s" "ascii (s @ u) \<longleftrightarrow> ascii s \<and> ascii u"
  by (simp_all add: ascii_def bytes_of_def)

lemma ascii_digit: "d < 10 \<Longrightarrow> (of_char (digit_char d) :: u8) < 0x80"
proof -
  have "\<forall>d \<in> set [0..<10]. (of_char (digit_char d) :: u8) < 0x80" by code_simp
  then show "d < 10 \<Longrightarrow> ?thesis" by simp
qed

lemma ascii_dec_string [simp]: "ascii (dec_string n)"
  unfolding ascii_def bytes_of_def by (auto simp: list_all_iff dest!: set_dec_string intro: ascii_digit)

lemma ascii_take: "ascii s \<Longrightarrow> ascii (take n s)"
  unfolding ascii_def bytes_of_def by (auto simp: list_all_iff dest: in_set_takeD)

lemma length_dec_20: "n < 10 ^ 20 \<Longrightarrow> length (dec_string n) \<le> 20"
  using length_dec_string [of n 19] by simp

text \<open>A count always ends with the key to press, inside the panel.\<close>

lemma crowd_text_ends:
  assumes "crowd_text area ins = Some t" "in_pos ins < in_total ins" "in_total ins < 10 ^ 20" "length (in_found ins) \<le> in_total ins"
  shows "\<exists>u. t = u @ '' Tab ''" "ascii t" "int (length t) < rw area"
proof -
  let ?p = "dec_string (in_pos ins + 1)" and ?n = "dec_string (in_total ins)" and ?f = "dec_string (length (in_found ins))"
  have l: "length ?p \<le> 20" "length ?n \<le> 20" "length ?f \<le> 20"
    using assms(2-4) by (auto intro!: length_dec_20)
  have len: "snprintf 192 s = s" if "length s \<le> 191" for s using that by (simp add: snprintf_def)
  let ?a = "'' '' @ ?p @ '' of '' @ ?n @ '' here ('' @ ?f @ '' reachable) - Tab ''"
  let ?b = "'' '' @ ?p @ '' of '' @ ?n @ '' in this cell - Tab ''"
  let ?c = "'' '' @ ?p @ ''/'' @ ?n @ '' Tab ''"
  have s: "snprintf 192 ?a = ?a" "snprintf 192 ?b = ?b" "snprintf 192 ?c = ?c" using l by (intro len; simp)+
  have t: "t \<in> {?a, ?b, ?c}" "rw area - int (length t) > kAddressEndCol"
    using assms(1) by (auto simp only: crowd_text_def Let_def s split: if_splits)
  have "?a = ('' '' @ ?p @ '' of '' @ ?n @ '' here ('' @ ?f @ '' reachable) -'') @ '' Tab ''"
    "?b = ('' '' @ ?p @ '' of '' @ ?n @ '' in this cell -'') @ '' Tab ''" "?c = ('' '' @ ?p @ ''/'' @ ?n) @ '' Tab ''" by simp_all
  then show "\<exists>u. t = u @ '' Tab ''" using t(1) by (metis (no_types) insertE singletonD)
  show "ascii t" using t(1) by auto
  show "int (length t) < rw area" using t(2) by (simp add: kAddressEndCol_def kInspValueCol_def)
qed

lemma put_text_right_cell:
  assumes "fb_ok fb" "ascii s" "int (length s) \<le> rw area" "0 < rw area" "0 \<le> dy" "dy < rh area" "i < length s"
    "fb_contains fb (rx area + rw area - int (length s) + int i) (ry area + dy)"
  shows "at_back (put_text_right area dy s fg bg att fb) (rx area + rw area - int (length s) + int i) (ry area + dy) = mk_cell (ucast (of_char (s ! i) :: u8)) fg bg att"
proof -
  let ?op = "DText (rx area + (rw area - int (length s))) (ry area + dy) (bytes_of s) fg bg att"
  have "put_text_right area dy s fg bg att fb = run_draw ?op fb"
    using assms(3-6) by (simp add: put_text_right_def panel_text_right_def bytes_of_def)
  moreover have "paint ?op (rx area + rw area - int (length s) + int i) (ry area + dy) = Some (mk_cell (ucast (of_char (s ! i) :: u8)) fg bg att)"
    using assms(2,7) by (simp add: decode_ascii ascii_def Let_def bytes_of_def)
  ultimately show ?thesis using run_draw_exact [OF assms(1), of ?op] assms(8) by simp
qed


text \<open>Two chunks in the cell, a panel of forty columns: the short count reaches into the address.\<close>

definition demo_crowd :: inspector where
  "demo_crowd = inspector_new\<lparr>in_found := [kNothing\<lparr>d_addr := 0x1000, d_status := StActive\<rparr>, kNothing\<lparr>d_addr := 0x1020, d_status := StActive\<rparr>], in_total := 2\<rparr>"


end
