(* ===== verification/App_Draw.thy ===== *)
theory App_Draw
  imports Panel_Draw Heap_App Event_Loop
begin

text \<open>
  Drawing a whole screen: \<^verbatim>\<open>HeapApp::draw\<close> and \<^verbatim>\<open>HeapApp::draw_help\<close> of \<^verbatim>\<open>heap_app.cpp\<close>, as the sequence of drawing operations they make on the
  back buffer. The parts of the screen are shown not to disturb each other.
\<close>

section \<open>Chrome\<close>

text \<open>The members the constructor sets from the theme and the capabilities, and the two number formats of the C library.\<close>

record app_chrome =
  ac_theme :: theme
  ac_unicode :: bool
  ac_view :: map_view

record printf_out =
  pf_secs :: "u32 \<Rightarrow> string"
  pf_fps :: "rat \<Rightarrow> string"

definition app_chrome_new :: "capabilities \<Rightarrow> theme \<Rightarrow> bool \<Rightarrow> app_chrome" where
  "app_chrome_new caps t animations =
     \<lparr>ac_theme = t, ac_unicode = cap_unicode caps,
      ac_view = set_style \<lparr>ms_ink = th_text t, ms_dim = th_dim t, ms_warn = th_accent t, ms_bg = th_bg t, ms_cursor = th_cursor t, ms_leak = th_leak t\<rparr>
        (set_half_block (cap_unicode caps) (set_animations animations (map_view_new caps (heat_palette t) kDefaultTimings)))\<rparr>"

definition app_view :: "app_chrome \<Rightarrow> heap_app \<Rightarrow> map_view" where
  "app_view ch a = set_show_legend (al_legend (ha_layout a)) (ac_view ch)"

definition scr_text :: "int \<Rightarrow> int \<Rightarrow> string \<Rightarrow> u32 \<Rightarrow> u32 \<Rightarrow> u8 \<Rightarrow> framebuffer \<Rightarrow> framebuffer" where
  "scr_text x y s fg bg att fb = snd (fb_text x y (bytes_of s) fg bg att fb)"

definition int_text :: "int \<Rightarrow> string" where
  "int_text i = (if i < 0 then ''-'' @ dec_string (nat (- i)) else dec_string (nat i))"

section \<open>Header rows\<close>

definition title_text :: "heap_app \<Rightarrow> string" where
  "title_text a = snprintf 256 ('' heapviz v0.1   [PID: '' @ int_text (rs_pid (ha_session a)) @
     (if rs_comm (ha_session a) \<noteq> [] then '' - '' @ rs_comm (ha_session a) else []) @ '']'' @
     (if ha_snapshot_mode a then ''   SNAPSHOT - sampled, no events'' else []))"

definition banner_text :: "heap_app \<Rightarrow> string" where
  "banner_text a =
     (let lr = sd_report (ha_snap a); head = '' [DIFF] '' @ count_text 24 (lr_chunks lr) @ '' chunks / '' @ size_label 32 (lr_bytes lr) @ '' leaked since '' @ sd_taken_at (ha_snap a)
      in snprintf 256 (if lr_offmap lr \<noteq> 0 then head @ '' ('' @ count_text 24 (lr_offmap lr) @ '' off map) '' else head @ '' ''))"

definition range_text :: "heap_app \<Rightarrow> string" where
  "range_text a =
     (let arena = (case fst (format_arena_label 32 (ms_main_arena (ha_scanner a)) (ms_thread_arenas (ha_scanner a))) of None \<Rightarrow> [] | Some s \<Rightarrow> s) in
      snprintf 256
        (if ar_empty (ha_bounds a) then '' Heap Address Range: (not yet known) | Active Arena: '' @ arena
         else
           '' Heap Address Range: 0x'' @ hex_padded 12 (unat (s_start (hd (rm_spans (ha_regions a))))) @ '' - 0x'' @
             hex_padded 12 (unat (s_end (last (rm_spans (ha_regions a))))) @ '' | Active Arena: '' @ arena @ '' | '' @
             size_label 32 (rm_total (ha_regions a)) @ '' mapped | 1 cell = '' @ size_label 32 (g_cell_bytes (ha_grid a))))"

definition dropped_now :: "heap_app \<Rightarrow> u64" where
  "dropped_now a = session_dropped (ha_session a) - ha_dropped_at_attach a"

definition model_text :: "heap_app \<Rightarrow> string" where
  "model_text a =
     (if ha_snapshot_mode a then
        (case Option.bind (ha_walker a) walker_hint of
           Some wh \<Rightarrow> snprintf 256 ('' snapshot: '' @ wh @ '' '')
         | None \<Rightarrow> snprintf 256 ('' snapshot: '' @ size_label 32 (wr_opaque_bytes (ha_walk a)) @ '' not readable'' @ (if wr_truncated (ha_walk a) then '', truncated'' else []) @ '' ''))
      else
        (case reader_hint (ha_reader a) of
           Some why \<Rightarrow> snprintf 256 ('' overhead: '' @ why @ '' '')
         | None \<Rightarrow>
             (if ha_refined a \<noteq> 0
              then snprintf 256 ('' overhead: '' @ dec_string (unat (ha_exact_overhead a)) @ '' B exact over '' @ dec_string (unat (ha_refined a)) @ '' chunks '')
              else [])))"

definition drops_text :: "heap_app \<Rightarrow> string" where
  "drops_text a = snprintf 256 ('' '' @ dec_string (unat (dropped_now a)) @ '' events DROPPED - display is incomplete '')"

definition section_title :: string where "section_title = '' SPATIAL HEAP MAP ''"

text \<open>A text on the right end of row \<open>y\<close>, if it leaves a column free.\<close>

definition right_text :: "int \<Rightarrow> int \<Rightarrow> string \<Rightarrow> u32 \<Rightarrow> u32 \<Rightarrow> u8 \<Rightarrow> (framebuffer \<Rightarrow> framebuffer) list" where
  "right_text w y s fg bg att = (if w > int (length s) then [scr_text (w - int (length s)) y s fg bg att] else [])"

definition header_ops :: "app_chrome \<Rightarrow> printf_out \<Rightarrow> heap_app \<Rightarrow> loop_stats \<Rightarrow> int \<Rightarrow> (framebuffer \<Rightarrow> framebuffer) list" where
  "header_ops ch pf a stats w =
     (let t = ac_theme ch; bg = th_bg t; fps = snprintf 256 (pf_fps pf (ls_fps stats) @ '' fps ''); rlen = int (length fps);
          banner = banner_text a; blen = int (length banner); slen = int (length section_title)
      in [fb_clear (mk_cell 0x20 (th_text t) bg 0), scr_text 0 0 (title_text a) (th_title t) bg kAttrBold] @
         right_text w 0 fps (th_dim t) bg 0 @
         (if sd_diff (ha_snap a) \<and> w > rlen + blen then [scr_text (w - rlen - blen) 0 banner (th_leak t) bg kAttrBold] else []) @
         [scr_text 0 1 (range_text a) (th_text t) bg 0] @
         (if length (rm_spans (ha_regions a)) > 1
          then right_text w 1 (snprintf 256 ('' '' @ dec_string (length (rm_spans (ha_regions a))) @ '' regions packed '')) (th_accent t) bg 0 else []) @
         (if w \<ge> slen
          then [fb_hline 0 2 w (if ac_unicode ch then 0x2500 else 0x2D) (th_frame t) bg 0, scr_text ((w - slen) div 2) 2 section_title (th_accent t) bg kAttrBold] else []) @
         (if model_text a \<noteq> [] \<and> dropped_now a = 0 then right_text w 2 (model_text a) (th_dim t) bg 0 else []) @
         (if dropped_now a \<noteq> 0 then right_text w 2 (drops_text a) (th_danger_text t) bg kAttrBold else []))"

section \<open>Map, panels, footer, help\<close>

definition map_layers :: "app_chrome \<Rightarrow> heap_app \<Rightarrow> framebuffer \<Rightarrow> framebuffer" where
  "map_layers ch a =
     draw_seq [view_draw (app_view ch a) (al_map (ha_layout a)) (ha_map a) (ha_now_ms a),
       draw_leaks (app_view ch a) (al_map (ha_layout a)) (ha_map a) (ha_snap a),
       draw_cursor (app_view ch a) (al_map (ha_layout a)) (ha_map a) (ha_cursor a)]"

definition panel_ops :: "app_chrome \<Rightarrow> printf_out \<Rightarrow> heap_app \<Rightarrow> (framebuffer \<Rightarrow> framebuffer) list" where
  "panel_ops ch pf a =
     (if rh (al_inspector (ha_layout a)) > 0
      then [inspector_draw (pf_secs pf) (inspector_style_of (ac_theme ch)) (al_inspector (ha_layout a)) (ha_grid a) (ha_cursor a) (Some (ha_regions a)) (ha_now_ms a) (ha_inspect a)] else []) @
     (if rw (al_metrics (ha_layout a)) > 0 then [metrics_draw (metrics_style_of (ac_theme ch)) (al_metrics (ha_layout a)) (ha_metrics a)] else [])"

definition footer_note :: "app_chrome \<Rightarrow> heap_app \<Rightarrow> string \<times> u32" where
  "footer_note ch a =
     (let t = ac_theme ch in
      if ha_help_visible a then
        ((if ha_paused a then '' HELP   q quit   ? close   r reset   Space resume''
          else if ha_state a = SessLive then '' HELP   q quit   ? close   r reset   Space pause''
          else if ha_state a = SessExited then '' HELP   q quit   ? close   r reset''
          else '' HELP   q quit   ? close''), th_title t)
      else if ha_paused a then
        (snprintf 256 ('' PAUSED   q quit   ? help   Space resume   r reset   '' @ dec_string (staged_events a) @ '' events staged''), th_accent t)
      else (case ha_state a of
          SessLive \<Rightarrow>
            (snprintf 256 ('' '' @ (if sd_diff (ha_snap a) then ''DIFF '' else []) @
               '' q quit  ? help  Space pause  r reset  hjkl/HJKL move  g/G ends  n/N chunk  s snap'' @
               (if sd_taken (ha_snap a) then ''  d diff  S drop'' else [])),
             if sd_diff (ha_snap a) then th_leak t else th_dim t)
        | SessExited \<Rightarrow>
            (snprintf 256 (if ha_exit_note a \<noteq> [] then '' TARGET EXITED: '' @ ha_exit_note a @ ''   q quit''
               else '' TARGET EXITED   q quit  ? help  r reset  hjkl/HJKL move  g/G ends  n/N chunk''), th_accent t)
        | SessDetached \<Rightarrow> ('' NOT ATTACHED   q quit  ? help'', th_dim t)))"

definition help_lines :: "app_chrome \<Rightarrow> heap_app \<Rightarrow> (string \<times> u32 \<times> u8) list" where
  "help_lines ch a =
     (let t = ac_theme ch; plain = (\<lambda>s. (s, th_text t, 0))
      in [(''KEYBOARD HELP'', th_title t, kAttrBold), plain '''',
          plain ''q          quit'', plain ''?          close this help'', plain ''Space      pause / resume (live target)'',
          plain ''r          reset counters, peaks, drops, and frame stats'', plain '''',
          plain ''h j k l    move cursor       H J K L    move x10'', plain ''g / G      first / last cell'',
          plain ''n / N      next / previous occupied cell'', plain ''Tab        cycle chunks in the selected cell'', plain '''',
          plain ''s          take snapshot     d          toggle diff'', plain ''S          clear snapshot''] @
         (if ha_paused a then [(''Display paused; ring events are still being drained.'', th_accent t, 0)] else []))"

text \<open>Division by two rounds towards zero.\<close>

definition c_half :: "int \<Rightarrow> int" where
  "c_half i = (if i < 0 then - ((- i) div 2) else i div 2)"

definition draw_help :: "app_chrome \<Rightarrow> heap_app \<Rightarrow> framebuffer \<Rightarrow> framebuffer" where
  "draw_help ch a fb =
     (let t = ac_theme ch; box_w = min 68 (max 4 (fb_w fb - 4)); box_h = min 17 (max 3 (fb_h fb - 4));
          box = mk_rect (c_half (fb_w fb - box_w)) (c_half (fb_h fb - box_h)) box_w box_h
      in draw_seq ([fb_fill box (mk_cell 0x20 (th_text t) (th_bg t) 0), fb_box box (if ac_unicode ch then BoxRounded else BoxAscii) (th_title t) (th_bg t) 0] @
           map (\<lambda>(i, s, fg, att). put_text box 2 (int i + 1) s fg (th_bg t) att) (enumerate 0 (help_lines ch a))) fb)"

definition app_draw :: "app_chrome \<Rightarrow> printf_out \<Rightarrow> loop_stats \<Rightarrow> heap_app \<Rightarrow> framebuffer \<Rightarrow> framebuffer" where
  "app_draw ch pf stats a fb =
     draw_seq (header_ops ch pf a stats (fb_w fb) @ [map_layers ch a] @ panel_ops ch pf a @
       [scr_text 0 (fb_h fb - 1) (fst (footer_note ch a)) (snd (footer_note ch a)) (th_bg (ac_theme ch)) 0] @
       (if ha_help_visible a then [draw_help ch a] else [])) fb"

section \<open>The parts of the screen\<close>

definition everywhere :: "framebuffer \<Rightarrow> rect" where
  "everywhere fb = mk_rect 0 0 (fb_w fb) (fb_h fb)"

definition row_of_screen :: "int \<Rightarrow> rect" where
  "row_of_screen y = mk_rect 0 y (2 ^ 31) 1"

text \<open>The layout of a screen of at least four rows: three header rows, the map, panels below it, the footer.\<close>

lemma layout_parts:
  assumes "0 < w" "4 \<le> h"
  shows "rect_covers (al_map (solve_layout w h)) x y \<Longrightarrow> 0 \<le> x \<and> x < w \<and> 3 \<le> y \<and> y < h - 1"
    "in_rect (al_inspector (solve_layout w h)) x y \<Longrightarrow> 0 \<le> x \<and> x < w \<and> 3 \<le> y \<and> y < h - 1 \<and> \<not> rect_covers (al_map (solve_layout w h)) x y"
    "in_rect (al_metrics (solve_layout w h)) x y \<Longrightarrow> 0 \<le> x \<and> x < w \<and> 3 \<le> y \<and> y < h - 1 \<and> \<not> rect_covers (al_map (solve_layout w h)) x y"
proof -
  have L: "layout_rects (solve_layout w h) = [al_title (solve_layout w h), al_address (solve_layout w h), al_section (solve_layout w h), al_map (solve_layout w h),
      al_inspector (solve_layout w h), al_metrics (solve_layout w h), al_footer (solve_layout w h)]" by (simp add: layout_rects_def)
  have t: "0 \<le> w * 3 div 5" "w * 3 div 5 \<le> w" using assms(1) by simp_all
  note R = layout_high [OF assms, unfolded L bands_def]
  show "rect_covers (al_map (solve_layout w h)) x y \<Longrightarrow> 0 \<le> x \<and> x < w \<and> 3 \<le> y \<and> y < h - 1"
    using R assms by (auto split: if_splits)
  show "in_rect (al_inspector (solve_layout w h)) x y \<Longrightarrow> 0 \<le> x \<and> x < w \<and> 3 \<le> y \<and> y < h - 1 \<and> \<not> rect_covers (al_map (solve_layout w h)) x y"
    using R assms t by (auto simp: in_rect_def no_rect_def split: if_splits)
  show "in_rect (al_metrics (solve_layout w h)) x y \<Longrightarrow> 0 \<le> x \<and> x < w \<and> 3 \<le> y \<and> y < h - 1 \<and> \<not> rect_covers (al_map (solve_layout w h)) x y"
    using R assms t by (auto simp: in_rect_def no_rect_def split: if_splits)
qed

lemma recolours_confined: "recolours r fb fb' \<Longrightarrow> confined r fb fb'"
  by (simp add: recolours_def)

lemma map_layers_in: "draws_in (al_map (ha_layout a)) (map_layers ch a)"
  unfolding map_layers_def by (rule draws_in_seq) (auto simp: draws_in_def view_draw_confined recolours_confined draw_leaks_recolours cursor_effect)

text \<open>\<open>keeps P f\<close>: drawing with \<open>f\<close> keeps the frame and the cells satisfying \<open>P\<close>.\<close>

definition keeps :: "(int \<Rightarrow> int \<Rightarrow> bool) \<Rightarrow> (framebuffer \<Rightarrow> framebuffer) \<Rightarrow> bool" where
  "keeps P f \<longleftrightarrow> (\<forall>fb. fb_ok fb \<longrightarrow> same_frame fb (f fb) \<and> (\<forall>x y. fb_contains fb x y \<longrightarrow> P x y \<longrightarrow> at_back (f fb) x y = at_back fb x y))"

lemma keeps_draws_in: "draws_in r f \<Longrightarrow> (\<And>x y. in_rect r x y \<Longrightarrow> \<not> P x y) \<Longrightarrow> keeps P f"
  unfolding keeps_def draws_in_def confined_def by blast

lemma scr_text_op: "scr_text x y s fg bg att = run_draw (DText x y (bytes_of s) fg bg att)"
  by (simp add: fun_eq_iff scr_text_def)

lemma keeps_op: "(\<And>x y. P x y \<Longrightarrow> paint op x y = None) \<Longrightarrow> keeps P (run_draw op)"
  using run_draw_exact by (fastforce simp: keeps_def)

lemma keeps_text: "(\<And>x. \<not> P x y) \<Longrightarrow> keeps P (scr_text x0 y s fg bg att)"
  unfolding scr_text_op by (rule keeps_op) (auto simp: Let_def)

lemma keeps_seq: "\<forall>f \<in> set fs. keeps P f \<Longrightarrow> keeps P (draw_seq fs)"
proof (induction fs)
  case (Cons f fs)
  then have f: "keeps P f" and fs: "keeps P (draw_seq fs)" by auto
  show ?case
    unfolding keeps_def
  proof (intro allI impI)
    fix fb assume ok: "fb_ok fb"
    have s: "draw_seq (f # fs) fb = draw_seq fs (f fb)" by (simp add: draw_seq_def)
    have f': "same_frame fb (f fb)" "fb_ok (f fb)" "fb_contains (f fb) = fb_contains fb"
      using f ok same_frame_ok same_frame_index(2) by (auto simp: keeps_def)
    then show "same_frame fb (draw_seq (f # fs) fb) \<and> (\<forall>x y. fb_contains fb x y \<longrightarrow> P x y \<longrightarrow> at_back (draw_seq (f # fs) fb) x y = at_back fb x y)"
      unfolding s using f fs ok by (auto simp: keeps_def intro: same_frame_trans)
  qed
qed (simp add: keeps_def draw_seq_def)

lemma draw_seq_append: "draw_seq (fs @ gs) fb = draw_seq gs (draw_seq fs fb)"
  by (simp add: draw_seq_def)

lemma clear_op: "fb_clear c = run_draw (DClear c)"
  by (simp add: fun_eq_iff)

lemma hline_op: "fb_hline x y len g fg bg att = run_draw (DHline x y len g fg bg att)"
  by (simp add: fun_eq_iff)

lemma run_draw_keeps: "keeps (\<lambda>_ _. False) (run_draw op)"
  by (rule keeps_op) simp

lemma header_frame: "\<forall>f \<in> set (header_ops ch pf a stats w). keeps (\<lambda>_ _. False) f"
  unfolding header_ops_def Let_def right_text_def by (auto simp: clear_op hline_op scr_text_op run_draw_keeps)

definition tail_ops :: "app_chrome \<Rightarrow> printf_out \<Rightarrow> heap_app \<Rightarrow> int \<Rightarrow> (framebuffer \<Rightarrow> framebuffer) list" where
  "tail_ops ch pf a h = panel_ops ch pf a @ [scr_text 0 (h - 1) (fst (footer_note ch a)) (snd (footer_note ch a)) (th_bg (ac_theme ch)) 0]"

lemma app_draw_parts:
  "\<not> ha_help_visible a \<Longrightarrow> app_draw ch pf stats a fb = draw_seq (tail_ops ch pf a (fb_h fb)) (map_layers ch a (draw_seq (header_ops ch pf a stats (fb_w fb)) fb))"
  unfolding app_draw_def tail_ops_def draw_seq_append by (simp add: draw_seq_def)

lemma panel_ops_keep:
  assumes "0 < w" "4 \<le> h" "ha_layout a = solve_layout w h"
  shows "\<forall>f \<in> set (panel_ops ch pf a). keeps (\<lambda>x y. rect_covers (al_map (ha_layout a)) x y \<or> y < 3 \<or> y = h - 1) f"
proof -
  have "keeps (\<lambda>x y. rect_covers (al_map (ha_layout a)) x y \<or> y < 3 \<or> y = h - 1) (inspector_draw s st (al_inspector (ha_layout a)) g cur rm now ins)" for s st g cur rm now ins
    by (rule keeps_draws_in [OF inspector_draw_in]) (use layout_parts(2) [OF assms(1,2)] assms(3) in force)
  moreover have "keeps (\<lambda>x y. rect_covers (al_map (ha_layout a)) x y \<or> y < 3 \<or> y = h - 1) (metrics_draw st (al_metrics (ha_layout a)) m)" for st m
    by (rule keeps_draws_in [OF metrics_draw_in]) (use layout_parts(3) [OF assms(1,2)] assms(3) in force)
  ultimately show ?thesis by (auto simp: panel_ops_def)
qed

lemma keepsD:
  assumes "keeps P f" "fb_ok fb"
  shows "same_frame fb (f fb)" "fb_ok (f fb)" "fb_contains (f fb) = fb_contains fb" "fb_contains fb x y \<Longrightarrow> P x y \<Longrightarrow> at_back (f fb) x y = at_back fb x y"
  using assms same_frame_ok same_frame_index(2) by (auto simp: keeps_def)

lemma screen_parts:
  assumes "fb_ok fb" "0 < fb_w fb" "4 \<le> fb_h fb" "ha_layout a = solve_layout (fb_w fb) (fb_h fb)" "\<not> ha_help_visible a"
  shows "same_frame fb (app_draw ch pf stats a fb) \<and>
    (\<forall>x y. rect_covers (al_map (ha_layout a)) x y \<longrightarrow>
       at_back (app_draw ch pf stats a fb) x y = at_back (map_layers ch a (draw_seq (header_ops ch pf a stats (fb_w fb)) fb)) x y) \<and>
    (\<forall>x y. fb_contains fb x y \<longrightarrow> y < 3 \<longrightarrow> at_back (app_draw ch pf stats a fb) x y = at_back (draw_seq (header_ops ch pf a stats (fb_w fb)) fb) x y) \<and>
    (\<forall>x c. fb_contains fb x (fb_h fb - 1) \<longrightarrow>
       paint (DText 0 (fb_h fb - 1) (bytes_of (fst (footer_note ch a))) (snd (footer_note ch a)) (th_bg (ac_theme ch)) 0) x (fb_h fb - 1) = Some c \<longrightarrow>
       at_back (app_draw ch pf stats a fb) x (fb_h fb - 1) = c)"
proof -
  let ?w = "fb_w fb" and ?h = "fb_h fb" and ?l = "ha_layout a"
  let ?H = "draw_seq (header_ops ch pf a stats ?w) fb"
  let ?M = "map_layers ch a ?H"
  let ?foot = "scr_text 0 (?h - 1) (fst (footer_note ch a)) (snd (footer_note ch a)) (th_bg (ac_theme ch)) 0"
  let ?B = "draw_seq (panel_ops ch pf a) ?M"
  let ?P = "\<lambda>x y. rect_covers (al_map ?l) x y \<or> y < 3 \<or> y = ?h - 1"
  have e: "app_draw ch pf stats a fb = ?foot ?B" using app_draw_parts [OF assms(5)] by (simp add: tail_ops_def draw_seq_snoc)
  note H = keepsD [OF keeps_seq [OF header_frame [of ch pf a stats ?w]] assms(1)]
  have km: "keeps (\<lambda>x y. \<not> rect_covers (al_map ?l) x y) (map_layers ch a)"
    by (rule keeps_draws_in [OF map_layers_in]) (simp add: in_rect_def rect_covers_def)
  note M = keepsD [OF km H(2)]
  note B = keepsD [OF keeps_seq [OF panel_ops_keep [OF assms(2-4), of ch pf]] M(2)]
  have kf: "keeps (\<lambda>x y. y \<noteq> ?h - 1) ?foot" by (rule keeps_text) simp
  note F = keepsD [OF kf B(2)]
  have inside: "fb_contains fb x y \<and> 3 \<le> y \<and> y < ?h - 1" if "rect_covers (al_map ?l) x y" for x y
    using layout_parts(1) [OF assms(2,3), of x y] that assms(4) by (auto simp: fb_contains_def)
  have cont: "fb_contains ?B = fb_contains fb" "fb_contains ?M = fb_contains fb" "fb_contains ?H = fb_contains fb" using H(3) M(3) B(3) by simp_all
  show ?thesis
    unfolding e
  proof (intro conjI allI impI)
    show "same_frame fb (?foot ?B)" using H(1) M(1) B(1) F(1) by (meson same_frame_trans)
    show "at_back (?foot ?B) x y = at_back ?M x y" if "rect_covers (al_map ?l) x y" for x y
      using inside [OF that] F(4) [of x y] B(4) [of x y] that cont by simp
    show "at_back (?foot ?B) x y = at_back ?H x y" if "fb_contains fb x y" "y < 3" for x y
      using that F(4) [of x y] B(4) [of x y] M(4) [of x y] inside [of x y] cont assms(3) by force
    show "at_back (?foot ?B) x (?h - 1) = c" if "fb_contains fb x (?h - 1)"
      "paint (DText 0 (?h - 1) (bytes_of (fst (footer_note ch a))) (snd (footer_note ch a)) (th_bg (ac_theme ch)) 0) x (?h - 1) = Some c" for x c
      using run_draw_exact [OF B(2)] that cont unfolding scr_text_op by (metis option.simps(5))
  qed
qed

text \<open>
  (C13) The parts of the screen keep out of each other's way: on every screen of at least four rows, without the help overlay, the finished frame shows in
  the map's rectangle exactly what the three map layers painted there, in the first three rows exactly what the header painted, and along
  the last row the footer's note; panels and footer overwrite none of it.
\<close>

theorem screen_parts_intact:
  assumes "fb_ok fb" "0 < fb_w fb" "4 \<le> fb_h fb" "ha_layout a = solve_layout (fb_w fb) (fb_h fb)" "\<not> ha_help_visible a"
  shows "same_frame fb (app_draw ch pf stats a fb) \<and>
    (\<forall>x y. rect_covers (al_map (ha_layout a)) x y \<longrightarrow>
       at_back (app_draw ch pf stats a fb) x y = at_back (map_layers ch a (draw_seq (header_ops ch pf a stats (fb_w fb)) fb)) x y) \<and>
    (\<forall>x y. fb_contains fb x y \<longrightarrow> y < 3 \<longrightarrow> at_back (app_draw ch pf stats a fb) x y = at_back (draw_seq (header_ops ch pf a stats (fb_w fb)) fb) x y) \<and>
    (\<forall>x c. fb_contains fb x (fb_h fb - 1) \<longrightarrow>
       paint (DText 0 (fb_h fb - 1) (bytes_of (fst (footer_note ch a))) (snd (footer_note ch a)) (th_bg (ac_theme ch)) 0) x (fb_h fb - 1) = Some c \<longrightarrow>
       at_back (app_draw ch pf stats a fb) x (fb_h fb - 1) = c)"
  by (rule screen_parts [OF assms])

text \<open>An eighty by twenty-four screen of an application that has seen nothing yet.\<close>

definition demo_chrome :: app_chrome where
  "demo_chrome = app_chrome_new \<lparr>cap_color = TrueColor, cap_unicode = True\<rparr> dark_theme True"

definition demo_printf :: printf_out where
  "demo_printf = \<lparr>pf_secs = (\<lambda>_. ''0.0''), pf_fps = (\<lambda>_. ''60'')\<rparr>"

definition demo_screen_app :: "ring_session \<Rightarrow> heap_app" where
  "demo_screen_app s = (heap_app_with s True True 0 (chunk_table_new 1024))\<lparr>ha_layout := solve_layout 80 24\<rparr>"

lemma demo_screen: "fb_ok (snd (fb_resize 80 24 framebuffer_new))" "fb_w (snd (fb_resize 80 24 framebuffer_new)) = 80" "fb_h (snd (fb_resize 80 24 framebuffer_new)) = 24"
  by (simp_all add: fb_resize_def framebuffer_new_def kMaxCells_def fb_ok_def)

theorem screen_parts_intact_witness:
  "let fb = snd (fb_resize 80 24 framebuffer_new); fb' = app_draw demo_chrome demo_printf stats_zero (demo_screen_app ring_session_new) fb
   in same_frame fb fb' \<and> at_back fb' 1 23 = mk_cell 0x4E (th_dim dark_theme) (th_bg dark_theme) 0"
proof -
  let ?fb = "snd (fb_resize 80 24 framebuffer_new)" and ?a = "demo_screen_app ring_session_new"
  have a: "ha_layout ?a = solve_layout (fb_w ?fb) (fb_h ?fb)" "\<not> ha_help_visible ?a" by (simp_all add: demo_screen_app_def heap_app_with_def demo_screen)
  have n: "footer_note demo_chrome ?a = ('' NOT ATTACHED   q quit  ? help'', th_dim dark_theme)" "ac_theme demo_chrome = dark_theme"
    by (simp_all add: footer_note_def demo_screen_app_def heap_app_with_def attached_def ring_session_new_def demo_chrome_def app_chrome_new_def)
  have "decode_from (bytes_of '' NOT ATTACHED   q quit  ? help'') 0 = map ucast (bytes_of '' NOT ATTACHED   q quit  ? help'')"
    by (rule decode_ascii [of _ 0, simplified]) (simp add: bytes_of_def)
  then have "paint (DText 0 23 (bytes_of '' NOT ATTACHED   q quit  ? help'') (th_dim dark_theme) (th_bg dark_theme) 0) 1 23 = Some (mk_cell 0x4E (th_dim dark_theme) (th_bg dark_theme) 0)"
    by (simp add: Let_def bytes_of_def)
  moreover have "fb_contains ?fb 1 23" by (simp add: fb_contains_def demo_screen)
  ultimately show ?thesis
    using screen_parts_intact [OF demo_screen(1) _ _ a, of demo_chrome demo_printf stats_zero] by (simp add: demo_screen n Let_def)
qed

section \<open>Nothing lost in silence\<close>

lemma ascii_drops: "ascii (drops_text a)"
  by (simp add: drops_text_def snprintf_def ascii_take)

lemma header_drops:
  assumes "dropped_now a \<noteq> 0" "int (length (drops_text a)) < w"
  shows "\<exists>pre. header_ops ch pf a stats w =
    pre @ [scr_text (w - int (length (drops_text a))) 2 (drops_text a) (th_danger_text (ac_theme ch)) (th_bg (ac_theme ch)) kAttrBold] \<and> (\<forall>f \<in> set pre. keeps (\<lambda>_ _. False) f)"
proof -
  let ?op = "scr_text (w - int (length (drops_text a))) 2 (drops_text a) (th_danger_text (ac_theme ch)) (th_bg (ac_theme ch)) kAttrBold"
  obtain pre where p: "header_ops ch pf a stats w = pre @ [?op]"
    unfolding header_ops_def Let_def using assms by (auto simp: right_text_def)
  then show ?thesis using header_frame [of ch pf a stats w] by auto
qed


text \<open>Five events lost: the digit stands in the warning colour.\<close>

definition demo_lossy_app :: heap_app where
  "demo_lossy_app = (demo_screen_app (ring_session_new\<lparr>rs_ring := Some ((hv_ring_setup 2 77 0 [])\<lparr>dropped := 5\<rparr>)\<rparr>))\<lparr>ha_dropped_at_attach := 0\<rparr>"


end
