(* ===== verification/Shm_Cleanup.thy ===== *)
theory Shm_Cleanup
  imports Event_Abi
begin

text \<open>
  Clean-up of segments left behind by killed targets, \<^verbatim>\<open>src/tui/shm_cleanup.h\<close> and \<^verbatim>\<open>shm_cleanup.cpp\<close>. The directory, file sizes, the answers of
  \<^verbatim>\<open>kill(pid, 0)\<close> and of \<^verbatim>\<open>shm_unlink\<close> come from a record of the operating system's functions.
\<close>

datatype kill_answer = KillOk | KillEsrch | KillEperm

record shm_os =
  so_dir :: "string list option"
  so_size :: "string \<Rightarrow> u64 option"
  so_kill :: "nat \<Rightarrow> kill_answer"
  so_unlink :: "string \<Rightarrow> bool"

record stale_segment =
  sg_name :: string
  sg_pid :: nat
  sg_bytes :: u64
  sg_owner_alive :: bool

fun pid_digits :: "nat \<Rightarrow> string \<Rightarrow> nat option" where
  "pid_digits v [] = Some v"
| "pid_digits v (c # cs) =
     (case digit_value c of
        None \<Rightarrow> None
      | Some d \<Rightarrow> (let v' = v * 10 + d in if v' > 0x7FFFFFFF then None else pid_digits v' cs))"

definition parse_pid :: "string \<Rightarrow> nat option" where
  "parse_pid entry =
     (let want = (if hd HV_SHM_NAME_PREFIX = CHR ''/'' then tl HV_SHM_NAME_PREFIX else HV_SHM_NAME_PREFIX);
          digits = drop (length want) entry
      in if take (length want) entry \<noteq> want then None
         else if digits = [] then None
         else pid_digits 0 digits)"

definition pid_alive :: "shm_os \<Rightarrow> nat \<Rightarrow> bool" where
  "pid_alive os pid \<longleftrightarrow> (if pid = 0 then False else if so_kill os pid = KillOk then True else so_kill os pid \<noteq> KillEsrch)"

definition segment_of :: "shm_os \<Rightarrow> string \<Rightarrow> stale_segment option" where
  "segment_of os e =
     (case parse_pid e of
        None \<Rightarrow> None
      | Some pid \<Rightarrow> Some \<lparr>sg_name = e, sg_pid = pid, sg_bytes = (case so_size os e of None \<Rightarrow> 0 | Some n \<Rightarrow> n), sg_owner_alive = pid_alive os pid\<rparr>)"

definition list_segments :: "shm_os \<Rightarrow> stale_segment list" where
  "list_segments os = (case so_dir os of None \<Rightarrow> [] | Some es \<Rightarrow> List.map_filter (segment_of os) es)"

text \<open>The loop state: removed, bytes freed, names handed to \<^verbatim>\<open>shm_unlink\<close> with success.\<close>

definition reap_one :: "bool \<Rightarrow> shm_os \<Rightarrow> stale_segment \<Rightarrow> nat \<times> u64 \<times> string list \<Rightarrow> nat \<times> u64 \<times> string list" where
  "reap_one dry os s st =
     (case st of (removed, freed, gone) \<Rightarrow>
        if sg_owner_alive s then st
        else if dry then (removed + 1, freed + sg_bytes s, gone)
        else if \<not> so_unlink os (CHR ''/'' # sg_name s) then st
        else (removed + 1, freed + sg_bytes s, gone @ [sg_name s]))"

definition reap_stale_segments :: "bool \<Rightarrow> shm_os \<Rightarrow> nat \<times> u64 \<times> string list" where
  "reap_stale_segments dry os = fold (reap_one dry os) (list_segments os) (0, 0, [])"

section \<open>The names are the interceptor's\<close>

lemma pid_digits_read: "pid_digits v cs = (case read_digits v cs of None \<Rightarrow> None | Some n \<Rightarrow> if n > 0x7FFFFFFF then None else Some n)"
  if "v \<le> 0x7FFFFFFF"
  using that
proof (induction cs arbitrary: v)
  case (Cons c cs)
  have big: "case read_digits w ds of None \<Rightarrow> True | Some n \<Rightarrow> w \<le> n" for w ds
  proof (induction ds arbitrary: w)
    case (Cons d ds)
    show ?case
    proof (cases "digit_value d")
      case (Some k)
      then show ?thesis using Cons.IH [of "w * 10 + k"] by (auto split: option.splits)
    qed simp
  qed simp
  show ?case
  proof (cases "digit_value c")
    case (Some d)
    show ?thesis
    proof (cases "v * 10 + d > 0x7FFFFFFF")
      case True
      then show ?thesis using Some big [of "v * 10 + d" cs] by (auto simp: Let_def split: option.splits)
    next
      case False
      then show ?thesis using Some Cons.IH [of "v * 10 + d"] by (simp add: Let_def)
    qed
  qed simp
qed simp

lemma nonneg_pid_small: "0 \<le> sint pid \<Longrightarrow> unat (pid :: u32) \<le> 0x7FFFFFFF"
proof -
  assume nn: "0 \<le> sint pid"
  have "uint pid = take_bit 32 (sint pid)" using uint_sint [of pid] by simp
  moreover have lt: "sint pid < 2 ^ 31" using sint_lt [of pid] by simp
  ultimately have "uint pid = sint pid" using nn by (simp add: take_bit_int_eq_self)
  then show ?thesis using lt by (simp add: unat_eq_nat_uint)
qed

lemma parse_pid_own: "pid \<le> 0x7FFFFFFF \<Longrightarrow> parse_pid (tl HV_SHM_NAME_PREFIX @ dec_string pid) = Some pid"
  using pid_digits_read [of 0 "dec_string pid"] by (simp add: parse_pid_def HV_SHM_NAME_PREFIX_def read_dec_string)

lemma parse_pid_prefix: "parse_pid e = Some pid \<Longrightarrow> \<exists>ds. e = tl HV_SHM_NAME_PREFIX @ ds \<and> ds \<noteq> [] \<and> read_digits 0 ds = Some pid"
proof -
  assume p: "parse_pid e = Some pid"
  let ?w = "tl HV_SHM_NAME_PREFIX"
  have w: "take (length ?w) e = ?w" "drop (length ?w) e \<noteq> []" "pid_digits 0 (drop (length ?w) e) = Some pid"
    using p by (auto simp: parse_pid_def HV_SHM_NAME_PREFIX_def Let_def split: if_splits)
  then have "read_digits 0 (drop (length ?w) e) = Some pid"
    using pid_digits_read [of 0 "drop (length ?w) e"] by (auto split: option.splits if_splits)
  moreover have "e = ?w @ drop (length ?w) e" using w(1) append_take_drop_id [of "length ?w" e] by simp
  ultimately show ?thesis using w(2) by blast
qed

section \<open>Only the dead are reaped\<close>

definition reapable :: "shm_os \<Rightarrow> string \<Rightarrow> bool" where
  "reapable os e \<longleftrightarrow> (case parse_pid e of None \<Rightarrow> False | Some pid \<Rightarrow> \<not> pid_alive os pid)"

definition stale_names :: "bool \<Rightarrow> shm_os \<Rightarrow> string list" where
  "stale_names dry os = filter (\<lambda>e. reapable os e \<and> (dry \<or> so_unlink os (CHR ''/'' # e))) (case so_dir os of None \<Rightarrow> [] | Some es \<Rightarrow> es)"

lemma reap_fold:
  "fold (reap_one dry os) (List.map_filter (segment_of os) es) (r, f, g) =
   (let hit = filter (\<lambda>e. reapable os e \<and> (dry \<or> so_unlink os (CHR ''/'' # e))) es
    in (r + length hit, f + sum_list (map (\<lambda>e. case so_size os e of None \<Rightarrow> 0 | Some n \<Rightarrow> n) hit), if dry then g else g @ hit))"
proof (induction es arbitrary: r f g)
  case (Cons e es)
  show ?case
  proof (cases "parse_pid e")
    case None
    then show ?thesis using Cons by (simp add: List.map_filter_simps segment_of_def reapable_def)
  next
    case (Some pid)
    then show ?thesis using Cons by (auto simp: List.map_filter_simps segment_of_def reapable_def reap_one_def Let_def ac_simps)
  qed
qed (simp add: List.map_filter_simps)

text \<open>
  (C30) Clean-up removes exactly the dead: the segments unlinked are the directory's names of the form the interceptor gives them whose process is
  gone and whose unlink succeeds, counted with their sizes; a dry run counts the same candidates and removes nothing. So no segment of a
  living process and no foreign file is touched, and every name the interceptor forms for a process id is recognised.
\<close>

theorem reap_removes_exactly_dead:
  "reap_stale_segments dry os = (length (stale_names dry os), sum_list (map (\<lambda>e. case so_size os e of None \<Rightarrow> 0 | Some n \<Rightarrow> n) (stale_names dry os)), if dry then [] else stale_names dry os) \<and>
   (\<forall>e. e \<in> set (snd (snd (reap_stale_segments dry os))) \<longrightarrow>
     (\<exists>pid ds. e = tl HV_SHM_NAME_PREFIX @ ds \<and> read_digits 0 ds = Some pid \<and> (pid = 0 \<or> so_kill os pid = KillEsrch))) \<and>
   (\<forall>pid name. 0 \<le> sint pid \<longrightarrow> hv_shm_name 32 pid = (Some name, length name) \<longrightarrow> parse_pid (tl name) = Some (unat pid))"
proof (intro conjI allI impI)
  show r: "reap_stale_segments dry os = (length (stale_names dry os), sum_list (map (\<lambda>e. case so_size os e of None \<Rightarrow> 0 | Some n \<Rightarrow> n) (stale_names dry os)), if dry then [] else stale_names dry os)"
    by (auto simp: reap_stale_segments_def list_segments_def stale_names_def reap_fold Let_def split: option.splits)
  show "\<exists>pid ds. e = tl HV_SHM_NAME_PREFIX @ ds \<and> read_digits 0 ds = Some pid \<and> (pid = 0 \<or> so_kill os pid = KillEsrch)"
    if "e \<in> set (snd (snd (reap_stale_segments dry os)))" for e
  proof -
    have "reapable os e" using that by (auto simp: r stale_names_def split: if_splits)
    then obtain pid where p: "parse_pid e = Some pid" "\<not> pid_alive os pid" by (auto simp: reapable_def split: option.splits)
    have "pid = 0 \<or> so_kill os pid = KillEsrch" using p(2) by (auto simp: pid_alive_def split: if_splits)
    then show ?thesis using parse_pid_prefix [OF p(1)] by blast
  qed
  fix pid :: "32 word" and name :: string
  assume nn: "0 \<le> sint pid" and n: "hv_shm_name 32 pid = (Some name, length name)"
  have small: "unat pid \<le> 0x7FFFFFFF" by (rule nonneg_pid_small [OF nn])
  have "name = HV_SHM_NAME_PREFIX @ dec_string (unat pid)" using nn n by (auto simp: hv_shm_name_def HV_SHM_NAME_MAX_def shm_digits_dec Let_def)
  then have "tl name = tl HV_SHM_NAME_PREFIX @ dec_string (unat pid)" by (simp add: HV_SHM_NAME_PREFIX_def)
  then show "parse_pid (tl name) = Some (unat pid)" using parse_pid_own [OF small] by simp
qed

definition demo_shm :: shm_os where
  "demo_shm = \<lparr>so_dir = Some [''sem.x'', ''heapviz_shm_17'', ''heapviz_shm_4711'', ''heapviz_shm_9x''],
     so_size = (\<lambda>e. Some 4096), so_kill = (\<lambda>p. if p = 17 then KillEperm else KillEsrch), so_unlink = (\<lambda>n. True)\<rparr>"

text \<open>Four entries, one living owner: only the dead one goes.\<close>

theorem reap_removes_exactly_dead_witness:
  "reap_stale_segments False demo_shm = (1, 4096, [''heapviz_shm_4711'']) \<and> parse_pid (tl ''/heapviz_shm_4711'') = Some 4711"
proof -
  have s: "stale_names False demo_shm = [''heapviz_shm_4711'']"
    by (simp add: stale_names_def demo_shm_def reapable_def parse_pid_def HV_SHM_NAME_PREFIX_def digit_value_def pid_alive_def Let_def)
  have n: "hv_shm_name 32 4711 = (Some ''/heapviz_shm_4711'', length ''/heapviz_shm_4711'')"
    by (simp add: hv_shm_name_def HV_SHM_NAME_MAX_def HV_SHM_NAME_PREFIX_def shm_digits_dec dec_string.simps digit_char_def Let_def) code_simp
  have z: "so_size demo_shm e = Some 4096" for e by (simp add: demo_shm_def)
  note R = reap_removes_exactly_dead [of False demo_shm]
  have "parse_pid (tl ''/heapviz_shm_4711'') = Some (unat (4711 :: u32))"
    using R [THEN conjunct2, THEN conjunct2, rule_format, OF _ n] by simp
  then show ?thesis using R [THEN conjunct1] by (simp add: s z)
qed

end
