(* ===== verification/Command_Line.thy ===== *)
theory Command_Line
  imports Theme Shm_Cleanup
begin

text \<open>
  The command line of \<^verbatim>\<open>src/tui/main.cpp\<close>: the argument scan, the choice of what to run, and the clean-up command. Arguments are the strings
  after the program's name. \<^verbatim>\<open>std::atoi\<close> is the C library's saturating \<^verbatim>\<open>strtol\<close> cut to 32 bits, \<^verbatim>\<open>std::from_chars\<close> the C++ parser that
  refuses what does not fit.
\<close>

section \<open>Numbers\<close>

definition c_space :: "char \<Rightarrow> bool" where
  "c_space c \<longleftrightarrow> c = CHR '' '' \<or> (9 \<le> (of_char c :: nat) \<and> (of_char c :: nat) \<le> 13)"

definition leading_digits :: "string \<Rightarrow> string" where
  "leading_digits s = takeWhile (\<lambda>c. digit_value c \<noteq> None) s"

definition digits_value :: "string \<Rightarrow> nat" where
  "digits_value ds = (case read_digits 0 ds of None \<Rightarrow> 0 | Some n \<Rightarrow> n)"

definition strtol10 :: "string \<Rightarrow> int" where
  "strtol10 s =
     (let s1 = dropWhile c_space s;
          neg = (s1 \<noteq> [] \<and> hd s1 = CHR ''-'');
          s2 = (if s1 \<noteq> [] \<and> (hd s1 = CHR ''-'' \<or> hd s1 = CHR ''+'') then tl s1 else s1);
          v = int (digits_value (leading_digits s2));
          sv = (if neg then - v else v)
      in max (- (2 ^ 63)) (min (2 ^ 63 - 1) sv))"

definition atoi :: "string \<Rightarrow> int" where
  "atoi s = sint (word_of_int (strtol10 s) :: 32 word)"

text \<open>The value and what is left of the text, or nothing when there is no digit or the value does not fit an \<^verbatim>\<open>int\<close>.\<close>

definition from_chars_int :: "string \<Rightarrow> (int \<times> string) option" where
  "from_chars_int s =
     (let neg = (s \<noteq> [] \<and> hd s = CHR ''-''); s1 = (if neg then tl s else s); ds = leading_digits s1;
          v = (if neg then - int (digits_value ds) else int (digits_value ds))
      in if ds = [] then None
         else if v < - (2 ^ 31) \<or> v > 2 ^ 31 - 1 then None
         else Some (v, drop (length ds) s1))"

section \<open>Options\<close>

record run_options =
  ro_timing :: bool
  ro_force_ascii :: bool
  ro_animations :: bool
  ro_theme :: theme_kind

definition run_options_new :: run_options where
  "run_options_new = \<lparr>ro_timing = False, ro_force_ascii = False, ro_animations = True, ro_theme = Dark\<rparr>"

datatype action = ActNone | ActVersion | ActHelp | ActTermCheck | ActCleanup | ActPid | ActLaunch | ActInstrument

datatype usage_error = DashesNeedCommand | ThemeNeedsName | UnknownTheme string | InstrumentNeedsCommand | PidNeedsId | NotAPid string | UnknownOption string

fun usage_error_text :: "usage_error \<Rightarrow> string" where
  "usage_error_text DashesNeedCommand = ''heapviz: -- needs a command to run''"
| "usage_error_text ThemeNeedsName = ''heapviz: --theme needs `dark` or `light`''"
| "usage_error_text (UnknownTheme t) = ''heapviz: unknown theme: '' @ t"
| "usage_error_text InstrumentNeedsCommand = ''heapviz: --instrument needs a command to run''"
| "usage_error_text PidNeedsId = ''heapviz: --pid needs a process id''"
| "usage_error_text (NotAPid a) = ''heapviz: not a process id: '' @ a"
| "usage_error_text (UnknownOption a) = ''heapviz: unknown option: '' @ a"

record cli =
  cli_opts :: run_options
  cli_action :: action
  cli_pid :: int
  cli_command :: "string list"

definition cli_new :: cli where
  "cli_new = \<lparr>cli_opts = run_options_new, cli_action = ActNone, cli_pid = 0, cli_command = []\<rparr>"

definition theme_prefix :: string where "theme_prefix = ''--theme=''"

definition starts_with :: "string \<Rightarrow> string \<Rightarrow> bool" where
  "starts_with p s \<longleftrightarrow> take (length p) s = p"

fun scan_args :: "string list \<Rightarrow> cli \<Rightarrow> usage_error + cli" where
  "scan_args [] c = Inr c"
| "scan_args (a # rest) c =
     (if a = ''--'' then
        (if rest = [] then Inl DashesNeedCommand else Inr (c\<lparr>cli_action := ActLaunch, cli_command := rest\<rparr>))
      else if a = ''--debug-timing'' then scan_args rest (c\<lparr>cli_opts := (cli_opts c)\<lparr>ro_timing := True\<rparr>\<rparr>)
      else if a = ''--no-unicode'' then scan_args rest (c\<lparr>cli_opts := (cli_opts c)\<lparr>ro_force_ascii := True\<rparr>\<rparr>)
      else if a = ''--no-animation'' then scan_args rest (c\<lparr>cli_opts := (cli_opts c)\<lparr>ro_animations := False\<rparr>\<rparr>)
      else if a = ''--theme'' then
        (case rest of
           [] \<Rightarrow> Inl ThemeNeedsName
         | t # rest' \<Rightarrow>
             (case parse_theme t of
                None \<Rightarrow> Inl ThemeNeedsName
              | Some k \<Rightarrow> scan_args rest' (c\<lparr>cli_opts := (cli_opts c)\<lparr>ro_theme := k\<rparr>\<rparr>)))
      else if starts_with theme_prefix a then
        (case parse_theme (drop (length theme_prefix) a) of
           None \<Rightarrow> Inl (UnknownTheme (drop (length theme_prefix) a))
         | Some k \<Rightarrow> scan_args rest (c\<lparr>cli_opts := (cli_opts c)\<lparr>ro_theme := k\<rparr>\<rparr>))
      else if a = ''--version'' \<or> a = ''-V'' then scan_args rest (c\<lparr>cli_action := ActVersion\<rparr>)
      else if a = ''--help'' \<or> a = ''-h'' then scan_args rest (c\<lparr>cli_action := ActHelp\<rparr>)
      else if a = ''--term-check'' then scan_args rest (c\<lparr>cli_action := ActTermCheck\<rparr>)
      else if a = ''--cleanup'' then scan_args rest (c\<lparr>cli_action := ActCleanup\<rparr>)
      else if a = ''--instrument'' then
        (if rest = [] then Inl InstrumentNeedsCommand else Inr (c\<lparr>cli_action := ActInstrument, cli_command := rest\<rparr>))
      else if a = ''--pid'' then
        (case rest of
           [] \<Rightarrow> Inl PidNeedsId
         | p # rest' \<Rightarrow>
             (if atoi p \<le> 0 then Inl (NotAPid p) else scan_args rest' (c\<lparr>cli_pid := atoi p, cli_action := ActPid\<rparr>)))
      else if a \<noteq> [] \<and> hd a = CHR ''-'' then Inl (UnknownOption a)
      else
        (case from_chars_int a of
           Some (v, left) \<Rightarrow>
             (if a \<noteq> [] \<and> left = [] \<and> v > 0 then scan_args rest (c\<lparr>cli_pid := v, cli_action := ActPid\<rparr>)
              else Inr (c\<lparr>cli_action := ActLaunch, cli_command := a # rest\<rparr>))
         | None \<Rightarrow> Inr (c\<lparr>cli_action := ActLaunch, cli_command := a # rest\<rparr>)))"

declare scan_args.simps(2) [simp del]

text \<open>What \<^verbatim>\<open>main\<close> goes on to run; a usage error exits with status 2.\<close>

datatype command_run = PrintVersion | PrintUsage | RunTermCheck run_options | RunCleanup | RunAttach int run_options
  | RunLaunch "string list" run_options | RunInstrument "string list"

fun dispatch :: "cli \<Rightarrow> command_run" where
  "dispatch c = (case cli_action c of
       ActVersion \<Rightarrow> PrintVersion | ActHelp \<Rightarrow> PrintUsage | ActTermCheck \<Rightarrow> RunTermCheck (cli_opts c) | ActCleanup \<Rightarrow> RunCleanup
     | ActPid \<Rightarrow> RunAttach (cli_pid c) (cli_opts c) | ActLaunch \<Rightarrow> RunLaunch (cli_command c) (cli_opts c)
     | ActInstrument \<Rightarrow> RunInstrument (cli_command c) | ActNone \<Rightarrow> PrintUsage)"

definition main_args :: "string list \<Rightarrow> usage_error + command_run" where
  "main_args argv = (case scan_args argv cli_new of Inl e \<Rightarrow> Inl e | Inr c \<Rightarrow> Inr (dispatch c))"

section \<open>The clean-up command\<close>

text \<open>The segments kept and reported, how many were removed and their bytes; nothing when there was no segment at all.\<close>

definition cleanup :: "shm_os \<Rightarrow> (stale_segment list \<times> nat \<times> u64) option \<times> string list" where
  "cleanup os =
     (let segments = list_segments os in
      if segments = [] then (None, [])
      else
        (let live = filter sg_owner_alive segments; (removed, freed, gone) = reap_stale_segments False os
         in (Some (live, removed, freed), gone)))"

section \<open>What a command line means\<close>

text \<open>A command line as its author thinks of it: options in any order and spelling, then perhaps a command.\<close>

datatype option_tok = OTiming | OAscii | OStill | OTheme theme_kind bool | OVersion bool | OHelp bool | OTermCheck | OCleanup | OPid nat bool

fun tok_args :: "option_tok \<Rightarrow> string list" where
  "tok_args OTiming = [''--debug-timing'']"
| "tok_args OAscii = [''--no-unicode'']"
| "tok_args OStill = [''--no-animation'']"
| "tok_args (OTheme k joined) = (if joined then [''--theme='' @ theme_name k] else [''--theme'', theme_name k])"
| "tok_args (OVersion short) = [if short then ''-V'' else ''--version'']"
| "tok_args (OHelp short) = [if short then ''-h'' else ''--help'']"
| "tok_args OTermCheck = [''--term-check'']"
| "tok_args OCleanup = [''--cleanup'']"
| "tok_args (OPid n bare) = (if bare then [dec_string n] else [''--pid'', dec_string n])"

fun tok_ok :: "option_tok \<Rightarrow> bool" where
  "tok_ok (OPid n bare) \<longleftrightarrow> 0 < n \<and> n \<le> 0x7FFFFFFF"
| "tok_ok _ \<longleftrightarrow> True"

datatype command_tail = NoCommand | AfterDashes "string list" | AfterInstrument "string list" | Bare string "string list"

fun tail_args :: "command_tail \<Rightarrow> string list" where
  "tail_args NoCommand = []"
| "tail_args (AfterDashes cmd) = ''--'' # cmd"
| "tail_args (AfterInstrument cmd) = ''--instrument'' # cmd"
| "tail_args (Bare c cmd) = c # cmd"

definition is_pid_text :: "string \<Rightarrow> bool" where
  "is_pid_text a \<longleftrightarrow> (\<exists>v. from_chars_int a = Some (v, []) \<and> v > 0)"

fun tail_ok :: "command_tail \<Rightarrow> bool" where
  "tail_ok NoCommand \<longleftrightarrow> True"
| "tail_ok (AfterDashes cmd) \<longleftrightarrow> cmd \<noteq> []"
| "tail_ok (AfterInstrument cmd) \<longleftrightarrow> cmd \<noteq> []"
| "tail_ok (Bare c cmd) \<longleftrightarrow> (c = [] \<or> hd c \<noteq> CHR ''-'') \<and> \<not> is_pid_text c"

fun theme_of :: "option_tok \<Rightarrow> theme_kind option" where
  "theme_of (OTheme k j) = Some k"
| "theme_of _ = None"

fun action_of :: "option_tok \<Rightarrow> (action \<times> int) option" where
  "action_of (OVersion s) = Some (ActVersion, 0)"
| "action_of (OHelp s) = Some (ActHelp, 0)"
| "action_of OTermCheck = Some (ActTermCheck, 0)"
| "action_of OCleanup = Some (ActCleanup, 0)"
| "action_of (OPid n b) = Some (ActPid, int n)"
| "action_of _ = None"

definition last_some :: "'a list \<Rightarrow> 'a \<Rightarrow> 'a" where
  "last_some xs d = last (d # xs)"

definition options_of :: "option_tok list \<Rightarrow> run_options" where
  "options_of toks = \<lparr>ro_timing = OTiming \<in> set toks, ro_force_ascii = OAscii \<in> set toks, ro_animations = OStill \<notin> set toks,
     ro_theme = last_some (List.map_filter theme_of toks) Dark\<rparr>"

fun run_of :: "option_tok list \<Rightarrow> command_tail \<Rightarrow> command_run" where
  "run_of toks NoCommand = (case last_some (map Some (List.map_filter action_of toks)) None of
      Some (ActVersion, _) \<Rightarrow> PrintVersion | Some (ActTermCheck, _) \<Rightarrow> RunTermCheck (options_of toks) | Some (ActCleanup, _) \<Rightarrow> RunCleanup
    | Some (ActPid, p) \<Rightarrow> RunAttach p (options_of toks) | _ \<Rightarrow> PrintUsage)"
| "run_of toks (AfterDashes cmd) = RunLaunch cmd (options_of toks)"
| "run_of toks (AfterInstrument cmd) = RunInstrument cmd"
| "run_of toks (Bare c cmd) = RunLaunch (c # cmd) (options_of toks)"

subsection \<open>Numbers read back\<close>

lemma digit_char_facts: "d < 10 \<Longrightarrow> digit_value (digit_char d) \<noteq> None \<and> \<not> c_space (digit_char d) \<and> digit_char d \<noteq> CHR ''-'' \<and> digit_char d \<noteq> CHR ''+''"
proof -
  have "\<forall>d \<in> set [0..<10]. digit_value (digit_char d) \<noteq> None \<and> \<not> c_space (digit_char d) \<and> digit_char d \<noteq> CHR ''-'' \<and> digit_char d \<noteq> CHR ''+''"
    by code_simp
  then show "d < 10 \<Longrightarrow> ?thesis" by simp
qed

lemma dec_string_digits: "c \<in> set (dec_string n) \<Longrightarrow> digit_value c \<noteq> None \<and> \<not> c_space c \<and> c \<noteq> CHR ''-'' \<and> c \<noteq> CHR ''+''"
  by (auto dest!: set_dec_string simp: digit_char_facts digit_value_char)

lemma hd_dec_string: "\<not> c_space (hd (dec_string n))" "hd (dec_string n) \<noteq> CHR ''-''" "hd (dec_string n) \<noteq> CHR ''+''"
  using dec_string_digits [of "hd (dec_string n)" n] by auto

lemma leading_dec_string [simp]: "leading_digits (dec_string n) = dec_string n" "digits_value (dec_string n) = n"
  using dec_string_digits by (auto simp: leading_digits_def takeWhile_eq_all_conv digits_value_def read_dec_string)

lemma from_chars_dec [simp]: "from_chars_int (dec_string n) = (if n \<le> 0x7FFFFFFF then Some (int n, []) else None)"
  using hd_dec_string(2) [of n] by (simp add: from_chars_int_def Let_def)

lemma atoi_dec: "n \<le> 0x7FFFFFFF \<Longrightarrow> atoi (dec_string n) = int n"
proof -
  assume n: "n \<le> 0x7FFFFFFF"
  have "dropWhile c_space (dec_string n) = dec_string n" using hd_dec_string(1) [of n] by (cases "dec_string n") auto
  then have "strtol10 (dec_string n) = int n" using hd_dec_string [of n] n by (simp add: strtol10_def Let_def)
  then have "atoi (dec_string n) = signed_take_bit 31 (int n)" unfolding atoi_def by (simp only: sint_sbintrunc') simp
  then show ?thesis using n by (simp add: signed_take_bit_int_eq_self)
qed

subsection \<open>Scanning token by token\<close>

fun apply_tok :: "option_tok \<Rightarrow> cli \<Rightarrow> cli" where
  "apply_tok OTiming c = c\<lparr>cli_opts := (cli_opts c)\<lparr>ro_timing := True\<rparr>\<rparr>"
| "apply_tok OAscii c = c\<lparr>cli_opts := (cli_opts c)\<lparr>ro_force_ascii := True\<rparr>\<rparr>"
| "apply_tok OStill c = c\<lparr>cli_opts := (cli_opts c)\<lparr>ro_animations := False\<rparr>\<rparr>"
| "apply_tok (OTheme k j) c = c\<lparr>cli_opts := (cli_opts c)\<lparr>ro_theme := k\<rparr>\<rparr>"
| "apply_tok (OVersion s) c = c\<lparr>cli_action := ActVersion\<rparr>"
| "apply_tok (OHelp s) c = c\<lparr>cli_action := ActHelp\<rparr>"
| "apply_tok OTermCheck c = c\<lparr>cli_action := ActTermCheck\<rparr>"
| "apply_tok OCleanup c = c\<lparr>cli_action := ActCleanup\<rparr>"
| "apply_tok (OPid n b) c = c\<lparr>cli_pid := int n, cli_action := ActPid\<rparr>"

lemma scan_bare_pid:
  assumes "0 < n" "n \<le> 0x7FFFFFFF"
  shows "scan_args (dec_string n # rest) c = scan_args rest (c\<lparr>cli_pid := int n, cli_action := ActPid\<rparr>)"
proof -
  have h: "hd (dec_string n) \<noteq> CHR ''-''" by (rule hd_dec_string)
  have ne: "dec_string n \<noteq> a" if "hd a = CHR ''-''" for a using that h by auto
  have st: "\<not> starts_with theme_prefix (dec_string n)"
    using h by (cases "dec_string n") (auto simp: starts_with_def theme_prefix_def)
  show ?thesis using assms h by (simp add: scan_args.simps(2) ne st)
qed

lemma scan_tok: "tok_ok t \<Longrightarrow> scan_args (tok_args t @ rest) c = scan_args rest (apply_tok t c)"
proof (cases t)
  case (OTheme k j)
  have "starts_with theme_prefix (''--theme='' @ x)" "drop (length theme_prefix) (''--theme='' @ x) = x" for x
    by (simp_all add: starts_with_def theme_prefix_def)
  then show ?thesis using OTheme parse_theme_name [of k] by (cases j) (simp_all add: scan_args.simps(2))
next
  case (OPid n b)
  assume "tok_ok t"
  then show ?thesis using OPid scan_bare_pid [of n] atoi_dec [of n]
    by (cases b) (simp_all add: scan_args.simps(2) [of "''--pid''"] starts_with_def theme_prefix_def)
qed (simp_all add: scan_args.simps(2) starts_with_def theme_prefix_def)

lemma scan_toks: "list_all tok_ok toks \<Longrightarrow> scan_args (concat (map tok_args toks) @ rest) c = scan_args rest (fold apply_tok toks c)"
  by (induction toks arbitrary: c) (simp_all add: scan_tok)

lemma last_some_Cons [simp]: "last_some [] d = d" "last_some (x # xs) d = last_some xs x"
  by (simp_all add: last_some_def)

lemma last_some_in: "last_some xs d = d \<or> last_some xs d \<in> set xs"
  by (cases xs rule: rev_cases) (simp_all add: last_some_def)

lemma fold_toks:
  "cli_opts (fold apply_tok toks c) = \<lparr>ro_timing = (OTiming \<in> set toks \<or> ro_timing (cli_opts c)), ro_force_ascii = (OAscii \<in> set toks \<or> ro_force_ascii (cli_opts c)),
     ro_animations = (OStill \<notin> set toks \<and> ro_animations (cli_opts c)), ro_theme = last_some (List.map_filter theme_of toks) (ro_theme (cli_opts c))\<rparr>"
proof (induction toks arbitrary: c)
  case Nil
  then show ?case by (cases "cli_opts c") (simp add: List.map_filter_simps)
next
  case (Cons t toks)
  then show ?case by (cases t) (simp_all add: List.map_filter_simps)
qed

lemma fold_action:
  "(cli_action (fold apply_tok toks c), cli_pid (fold apply_tok toks c)) =
     (case last_some (map Some (List.map_filter action_of toks)) None of
        None \<Rightarrow> (cli_action c, cli_pid c)
      | Some (act, p) \<Rightarrow> (act, if act = ActPid then p else cli_pid (fold apply_tok toks c)))"
proof (induction toks rule: rev_induct)
  case Nil
  then show ?case by (simp add: List.map_filter_simps)
next
  case (snoc t toks)
  have a: "List.map_filter f (xs @ [y]) = List.map_filter f xs @ (case f y of None \<Rightarrow> [] | Some z \<Rightarrow> [z])" for f :: "option_tok \<Rightarrow> (action \<times> int) option" and xs y
    by (simp add: List.map_filter_def split: option.splits)
  have l: "last_some (xs @ [x]) d = x" for xs :: "(action \<times> int) option list" and x d by (simp add: last_some_def)
  show ?case using snoc by (cases t) (auto simp: a l split: option.splits prod.splits)
qed

lemma map_filter_action: "p \<in> set (List.map_filter action_of toks) \<Longrightarrow> fst p \<in> {ActVersion, ActHelp, ActTermCheck, ActCleanup, ActPid}"
proof (induction toks)
  case (Cons t toks)
  then show ?case by (cases t) (auto simp: List.map_filter_simps)
qed (simp add: List.map_filter_simps)

lemma run_without_command:
  "dispatch (fold apply_tok toks cli_new) = run_of toks NoCommand"
proof -
  let ?c = "fold apply_tok toks cli_new" and ?l = "last_some (map Some (List.map_filter action_of toks)) None"
  have o: "cli_opts ?c = options_of toks" by (simp add: fold_toks options_of_def cli_new_def run_options_new_def)
  show ?thesis
  proof (cases ?l)
    case None
    then show ?thesis using fold_action [of toks cli_new] by (simp add: cli_new_def)
  next
    case (Some p)
    obtain act n where p: "p = (act, n)" by fastforce
    have "Some p \<in> set (map Some (List.map_filter action_of toks))"
      using Some last_some_in [of "map Some (List.map_filter action_of toks)" None] by simp
    then have "act \<in> {ActVersion, ActHelp, ActTermCheck, ActCleanup, ActPid}" using map_filter_action [of p toks] p by auto
    then show ?thesis using fold_action [of toks cli_new] Some p o by (auto split: action.splits)
  qed
qed

text \<open>
  (C29) The command line means what it lists: options may come in any order and either spelling before a command; flags count if they occur at
  all, the last theme and the last action win, and everything after \<^verbatim>\<open>--\<close>, after \<^verbatim>\<open>--instrument\<close> or from the first plain word on is handed to
  the target untouched, even where it looks like an option of heapviz.
\<close>

theorem command_line_meaning:
  assumes "list_all tok_ok toks" "tail_ok cmdt"
  shows "main_args (concat (map tok_args toks) @ tail_args cmdt) = Inr (run_of toks cmdt)"
proof -
  let ?c = "fold apply_tok toks cli_new"
  have o: "cli_opts ?c = options_of toks" by (simp add: fold_toks options_of_def cli_new_def run_options_new_def)
  have m: "main_args (concat (map tok_args toks) @ tail_args cmdt) = (case scan_args (tail_args cmdt) ?c of Inl e \<Rightarrow> Inl e | Inr c \<Rightarrow> Inr (dispatch c))"
    by (simp add: main_args_def scan_toks [OF assms(1)])
  show ?thesis
  proof (cases cmdt)
    case NoCommand
    then show ?thesis using m run_without_command [of toks] by simp
  next
    case (AfterDashes cmd)
    then show ?thesis using m o assms(2) by (simp add: scan_args.simps(2))
  next
    case (AfterInstrument cmd)
    then show ?thesis using m assms(2) by (simp add: scan_args.simps(2) starts_with_def theme_prefix_def)
  next
    case (Bare a cmd)
    then have h: "a = [] \<or> hd a \<noteq> CHR ''-''" "\<not> is_pid_text a" using assms(2) by auto
    have ne: "a \<noteq> x" if "x \<noteq> []" "hd x = CHR ''-''" for x using that h(1) by auto
    have st: "\<not> starts_with theme_prefix a" using h(1) by (cases a) (auto simp: starts_with_def theme_prefix_def)
    have "scan_args (a # cmd) ?c = Inr (?c\<lparr>cli_action := ActLaunch, cli_command := a # cmd\<rparr>)"
      using h by (auto simp: scan_args.simps(2) ne st is_pid_text_def split: option.splits)
    then show ?thesis using m Bare o by simp
  qed
qed

text \<open>An attached theme, a flag meant for heapviz and the same flag meant for the program it launches.\<close>

theorem command_line_meaning_witness:
  "main_args [''--theme=light'', ''--debug-timing'', ''--'', ''app'', ''--no-unicode''] =
    Inr (RunLaunch [''app'', ''--no-unicode''] \<lparr>ro_timing = True, ro_force_ascii = False, ro_animations = True, ro_theme = Light\<rparr>)"
  using command_line_meaning [of "[OTheme Light True, OTiming]" "AfterDashes [''app'', ''--no-unicode'']"]
  by (simp add: options_of_def List.map_filter_simps)

text \<open>
  The two ways to name a process disagree: \<^verbatim>\<open>--pid\<close> reads a number prefix, and a number beyond 32 bits modulo 2 to the 32, where the plain form takes
  the same word for a command.
\<close>

lemma atoi_prefix: "atoi ''12abc'' = 12" "atoi ''4294967297'' = 1"
proof -
  have "strtol10 ''12abc'' = 12" "strtol10 ''4294967297'' = 4294967297"
    by (simp_all add: strtol10_def c_space_def leading_digits_def digits_value_def digit_value_def Let_def)
  then show "atoi ''12abc'' = 12" "atoi ''4294967297'' = 1" unfolding atoi_def by (simp_all add: sint_sbintrunc' del: word_of_int_numeral)
qed

lemma pid_option_reads_prefix:
  "main_args [''--pid'', ''12abc''] = Inr (RunAttach 12 run_options_new)" "main_args [''12abc''] = Inr (RunLaunch [''12abc''] run_options_new)"
  "main_args [''--pid'', ''4294967297''] = Inr (RunAttach 1 run_options_new)"
  by (simp_all add: main_args_def scan_args.simps(2) starts_with_def theme_prefix_def atoi_prefix cli_new_def from_chars_int_def leading_digits_def
      digits_value_def digit_value_def Let_def)

end
