(* ===== verification/Spec2Isabelle.thy ===== *)
theory Spec2Isabelle
  imports Ring_Concurrent Cursor Fragmentation_Properties Launch App_Frames End_To_End Preload_Arena Vt_Demo Render_Bounds Loop_Demo App_Draw Command_Line
begin

text \<open>
  A verification development of heapviz, a terminal heap profiler.

  \<^bold>\<open>The program.\<close> heapviz has two halves. The interceptor (\<^verbatim>\<open>src/preload/preload.c\<close>) is loaded into the target process, wraps the allocator's entry
  points and writes one event per call into a ring in shared memory. The viewer (\<^verbatim>\<open>src/tui/\<close>) attaches to the ring, replays the events into a table
  of chunks, aggregates the chunks into the cells of a map of the address space, and draws map and panels on a terminal at most sixty times a second.
  Both share the wire format (\<^verbatim>\<open>src/common/heapviz_abi.h\<close>) and the lock-free ring (\<^verbatim>\<open>src/common/heapviz_ring.h\<close>). A process that was not started with the interceptor
  is sampled instead, by walking its heap through \<^verbatim>\<open>process_vm_readv\<close>.

  An event travels: hook \<open>\<rightarrow>\<close> \<open>hv_ring_push\<close> \<open>\<rightarrow>\<close> \<open>hv_ring_drain\<close> \<open>\<rightarrow>\<close> \<open>drain\<close> and \<open>apply\<close> of the application \<open>\<rightarrow>\<close> chunk table, heat map, metrics \<open>\<rightarrow>\<close>
  \<open>app_draw\<close> into the back buffer \<open>\<rightarrow>\<close> \<open>render\<close> to bytes \<open>\<rightarrow>\<close> terminal. The development models every link of that chain and proves it link by link, and
  composed from the allocator call to the chunk table (\<open>End_To_End\<close>).

  Definitions carry the names of the sources, with a prefix or suffix where a HOL name is taken; record fields carry a short prefix. Machine integers
  are words of their width (\<open>u8\<close>, \<open>u16\<close>, \<open>u32\<close>, \<open>u64\<close>), so that arithmetic wraps where the source's does; screen coordinates are integers.
\<close>

section \<open>Theories and what they show\<close>

text \<open>
  \<^bold>\<open>Shared material.\<close> \<open>Heapviz_Prelude\<close> has the word types, masks, circular indices and the collections of constants and lemmas. \<open>Text_Format\<close> has
  decimal and hexadecimal numbers as text, with their length and round trip. Three theories hold the interfaces:
  \<^item> \<open>Fifo_Spec\<close>: the locale \<open>bounded_fifo\<close>, a bounded queue that refuses what it cannot hold; interpreted in \<open>Ring\<close> on the event ring;
  \<^item> \<open>Op_Refinement\<close>: the locale \<open>op_refinement\<close>, operations that return, keep an invariant and refine an abstract operation; interpreted in
    \<open>Chunk_Store\<close> on the chunk table and in \<open>App_Delivery\<close> on the application's drain;
  \<^item> \<open>Address_Map_Spec\<close>: the locale \<open>address_map\<close>, a partial bijection between addresses and coordinates; interpreted in \<open>Region_Map\<close>.
  A fourth locale, \<open>reporting_hook\<close> in \<open>Preload_Mirror\<close>, is the pattern the allocating hooks share, interpreted on seven of them.

  \<^bold>\<open>Wire format and ring.\<close> \<open>Event_Abi\<close> models \<^verbatim>\<open>heapviz_abi.h\<close>: packet, header, opcode byte, sizes and the segment name. \<open>Ring\<close> models \<^verbatim>\<open>heapviz_ring.h\<close>
  as one call after the other: push, drain with its loop, claim and release; it is a bounded FIFO for every script of calls. \<open>Ring_Concurrent\<close> splits push and drain into steps
  of one shared access each; for every interleaving of any number of producers with the consumer, exactly the claimed events are
  delivered, in claim order, once.

  \<^bold>\<open>Interceptor.\<close> \<open>Preload\<close> models the hooks of \<^verbatim>\<open>preload.c\<close>, the bootstrap arena, symbol resolution with its re-entrancy, the set-up and the teardown of the ring. The C library's
  allocator is a record of functions with the laws \<open>allocator\<close>. \<open>Preload_Mirror\<close> and \<open>Preload_Properties\<close>: replaying the events gives the blocks in use; set-up is all or nothing.
  \<open>Preload_Arena\<close>: the arena. \<open>Preload_Threads\<close>: the hooks of many threads interleaved. \<open>End_To_End\<close>: hooks, ring, drain and chunk table composed.

  \<^bold>\<open>Chunk table.\<close> \<open>Chunk_Table\<close> translates \<^verbatim>\<open>chunk_table.cpp\<close> (Robin Hood probing, growth, backward-shift deletion, the cap with its queue of freed records). \<open>Robin_Hood\<close>
  has the probing discipline, \<open>Chunk_Index\<close> the table as a finite map, \<open>Chunk_Store\<close> every operation against that map, \<open>Chunk_Properties\<close> what clients get: a map after any
  sequence of operations, and no live record lost to the cap.

  \<^bold>\<open>Address space and cells.\<close> \<open>Proc_Maps\<close> models the maps parser and scanner (\<^verbatim>\<open>proc_maps.cpp\<close>), with the search of \<open>Interval_Search\<close>; \<open>Region_Map\<close> the packing (\<^verbatim>\<open>region_map.cpp\<close>), a
  bijection; \<open>Grid\<close> the bucketing (\<^verbatim>\<open>grid.cpp\<close>). \<open>Heat_Map\<close>, \<open>Heat_Agreement\<close> and \<open>Heat_Properties\<close> model \<^verbatim>\<open>heatmap.cpp\<close>: incremental updates and a rebuild from the table agree. \<open>Cursor\<close>,
  \<open>Inspector\<close>, \<open>Fragmentation\<close> with \<open>Fragmentation_Properties\<close>, \<open>Snapshot_Diff\<close> and \<open>Metrics\<close> model the files of those names (\<^verbatim>\<open>snapshot.cpp\<close> for the last but one).

  \<^bold>\<open>Reading an uninstrumented heap.\<close> \<open>Chunk_Reader\<close> (\<^verbatim>\<open>chunk_reader.cpp\<close>), \<open>Heap_Walker\<close> (\<^verbatim>\<open>heap_walker.cpp\<close>), \<open>Walk_Safety\<close> and \<open>Walk_Properties\<close>: whatever bytes the moving target returns, the chunks
  reported are aligned, in bounds and disjoint; reading in blocks equals following the chain over the whole memory.

  \<^bold>\<open>Sessions and the application.\<close> \<open>Session\<close> and \<open>Launch\<close> model \<^verbatim>\<open>session.cpp\<close>; \<open>Heap_App\<close> the state and callbacks of \<^verbatim>\<open>heap_app.cpp\<close>. \<open>App_Delivery\<close>: pausing only delays. \<open>App_Agreement\<close>:
  table, cells and counters agree along every disciplined stream. \<open>App_Frames\<close>: every sequence of callbacks returns, and a snapshot pass shows what the walk found.

  \<^bold>\<open>Screen.\<close> \<open>Screen_Layout\<close> (\<^verbatim>\<open>layout.cpp\<close>), \<open>Framebuffer\<close> (\<^verbatim>\<open>framebuffer.cpp\<close>: every drawing operation is a painted picture cut to the grid), \<open>Capabilities\<close>, \<open>Theme\<close>, \<open>Heat_Color\<close>,
  \<open>Panel\<close> (the files of those names), \<open>Map_View\<close> (\<^verbatim>\<open>map_view.cpp\<close>: each character shows its cell), \<open>Panel_Draw\<close> (the two panels' contents), \<open>App_Draw\<close> (\<^verbatim>\<open>HeapApp::draw\<close>: the parts of
  the screen leave each other intact, a loss of events is announced).

  \<^bold>\<open>Output.\<close> \<open>Utf8\<close> and \<open>Renderer\<close> (\<^verbatim>\<open>renderer.cpp\<close>), \<open>Vt_Terminal\<close> (what the renderer relies on in a terminal, the laws \<open>vt_laws\<close>), \<open>Render_Correct\<close> (a frame makes the terminal show the back buffer),
  \<open>Render_Bounds\<close> (its cost), \<open>Vt_Demo\<close> (a byte-by-byte terminal with those laws). \<open>Terminal_Guard\<close> (\<^verbatim>\<open>terminal.cpp\<close>: the terminal is given back). \<open>Event_Loop\<close> and \<open>Loop_Properties\<close>
  (\<^verbatim>\<open>event_loop.cpp\<close>: one iteration of \<^verbatim>\<open>run\<close>; the screen shows the front buffer after each, idle iterations write nothing, waiting ends), with an
  instance in \<open>Loop_Demo\<close>.

  \<^bold>\<open>Command line.\<close> \<open>Command_Line\<close> (\<^verbatim>\<open>main.cpp\<close>: the argument scan and the dispatch) and \<open>Shm_Cleanup\<close> (\<^verbatim>\<open>shm_cleanup.cpp\<close>).
\<close>

section \<open>Assumptions, bounds and abstractions\<close>

text \<open>
  \<^item> \<^bold>\<open>Code outside the repository\<close> is an argument: the allocator (\<open>allocator\<close>), the terminal (\<open>vt_laws\<close>), the kernel. What a frame asks the
    kernel is the record \<open>frame_env\<close>; what an iteration of the loop asks is \<open>loop_env\<close>, with the answers of \<^verbatim>\<open>poll\<close>, \<^verbatim>\<open>read\<close> and \<^verbatim>\<open>write\<close> as lists in the order
    of the calls. Theorems that use such laws have an instance that satisfies them.
  \<^item> \<^bold>\<open>Loops that wait on the outside\<close> (attaching, flushing, waiting for the deadline) recurse over those answers. A result with the
    list used up is a value of its own, and the theorems on them say how many answers suffice: attaching ends within the timeout's number of polls, flushing when the
    partial acceptances add up to the frame, waiting when the clock passes the deadline.
  \<^item> \<^bold>\<open>Loops over memory\<close> (probing, the walk, pops of the eviction queue) either have a measure or are bounded by the table or region size, and are shown
    to return on every state that satisfies the invariant. An invariant indexed by a budget bounds the number of further insertions, since a table cannot grow past the address space.
  \<^item> \<^bold>\<open>Concurrency\<close> is interleaving of single accesses, each sequentially consistent. The acquire and release orders of C11 are not modelled.
  \<^item> \<^bold>\<open>Floating point\<close> is exact: colours are reals, frame rates and densities rational numbers. Rounding of \<^verbatim>\<open>float\<close> and \<^verbatim>\<open>double\<close> is not modelled. Texts printed from floats
    (\<^verbatim>\<open>%.1f\<close> seconds, \<^verbatim>\<open>%.0f\<close> frames per second) are arguments of the drawing.
  \<^item> \<^bold>\<open>Memory allocation\<close> in the viewer succeeds: the sources do not handle its failure. Whether the framebuffer can be resized is decided by the size given.
\<close>

section \<open>Not modelled\<close>

text \<open>
  \<^item> \<^verbatim>\<open>demo_heap.cpp\<close> and the terminal test screen of \<^verbatim>\<open>main.cpp\<close> (\<^verbatim>\<open>TermCheckApp\<close>, \<^verbatim>\<open>term_check\<close>): hand-check tools that feed pseudo-random data to modelled components.
  \<^item> \<^verbatim>\<open>attach_and_run\<close>, \<^verbatim>\<open>launch_and_run\<close> and \<^verbatim>\<open>instrument_and_exec\<close> of \<^verbatim>\<open>main.cpp\<close>: they wire session, guard, loop and application together around messages and exit codes.
  \<^item> the texts of \<^verbatim>\<open>--help\<close>, \<^verbatim>\<open>--version\<close> and \<^verbatim>\<open>report_too_small\<close>: fixed output.
  \<^item> the programs under \<^verbatim>\<open>examples/\<close> and the tests: they exercise the program and are not part of it.
\<close>

end
